(* ===== verification/Prelude.thy ===== *)
theory Prelude
imports Main "HOL-Library.Monad_Syntax" "HOL-Library.Product_Lexorder" "HOL-Library.Option_ord"
begin

text \<open>
  What the components share: panics and debug assertions as options, the comparison results
  of Rust's \<^verbatim>\<open>std::cmp\<close>, ordered collections (\<^verbatim>\<open>BTreeMap\<close> as a strictly key-sorted association
  list, \<^verbatim>\<open>BTreeSet\<close> as a strictly sorted list), binary search in a sorted vector, and the
  generic lemmas on lists and options the component proofs rest on.
\<close>

section \<open>Panics\<close>

text \<open>
  A computation that may panic (\<^verbatim>\<open>unwrap\<close> on \<^verbatim>\<open>None\<close>, an index out of range, a failed
  \<^verbatim>\<open>assert!\<close> or \<^verbatim>\<open>debug_assert!\<close>, \<^verbatim>\<open>unreachable!\<close>) is an option; \<open>None\<close> is the panic.
\<close>

type_synonym 'a panics = "'a option"

definition ensure :: "bool \<Rightarrow> unit panics" where
  "ensure b = (if b then Some () else None)"

lemma ensure_simps [simp]:
  "ensure True = Some ()" "ensure False = None"
  "ensure b = Some u \<longleftrightarrow> b" "ensure b = None \<longleftrightarrow> \<not> b"
  by (auto simp: ensure_def)

lemma bind_ensure_eq_Some [simp]:
  "Option.bind (ensure b) f = Some x \<longleftrightarrow> b \<and> f () = Some x"
  by (auto simp: ensure_def)

lemma bind_ensure_True: "b \<Longrightarrow> Option.bind (ensure b) f = f ()"
  by (simp add: ensure_def)

definition nth_panics :: "'a list \<Rightarrow> nat \<Rightarrow> 'a panics" where
  "nth_panics xs i = (if i < length xs then Some (xs ! i) else None)"

lemma nth_panics_eq_Some [simp]:
  "nth_panics xs i = Some x \<longleftrightarrow> i < length xs \<and> xs ! i = x"
  by (auto simp: nth_panics_def)

text \<open>Checked subtraction of unsigned integers: it panics in a debug build when it underflows.\<close>

definition sub_panics :: "nat \<Rightarrow> nat \<Rightarrow> nat panics" where
  "sub_panics a b = (if b \<le> a then Some (a - b) else None)"

lemma sub_panics_eq_Some [simp]:
  "sub_panics a b = Some c \<longleftrightarrow> b \<le> a \<and> c = a - b"
  by (auto simp: sub_panics_def)

text \<open>The first and the last element of a vector, as Rust's \<^verbatim>\<open>first\<close> and \<^verbatim>\<open>last\<close>.\<close>

definition first_opt :: "'a list \<Rightarrow> 'a option" where
  "first_opt xs = (case xs of [] \<Rightarrow> None | x # _ \<Rightarrow> Some x)"

definition last_opt :: "'a list \<Rightarrow> 'a option" where
  "last_opt xs = (if xs = [] then None else Some (last xs))"

lemma first_opt_simps [simp]:
  "first_opt [] = None" "first_opt (x # xs) = Some x"
  by (auto simp: first_opt_def)

lemma last_opt_simps [simp]:
  "last_opt [] = None" "last_opt (xs @ [x]) = Some x"
  "last_opt (x # xs) = Some (last (x # xs))"
  by (auto simp: last_opt_def)

lemma last_opt_eq_None [simp]: "last_opt xs = None \<longleftrightarrow> xs = []"
  by (auto simp: last_opt_def)

lemma last_opt_eq_Some: "last_opt xs = Some x \<longleftrightarrow> xs \<noteq> [] \<and> last xs = x"
  by (auto simp: last_opt_def)

lemma last_take: "0 < i \<Longrightarrow> i \<le> length xs \<Longrightarrow> last (take i xs) = xs ! (i - 1)"
  by (cases i) (auto simp: take_Suc_conv_app_nth)

lemma filter_upt_less: "filter (\<lambda>k. k < a) [m..<n] = [m..<min a n]"
  by (rule sorted_distinct_set_unique) (auto intro: sorted_wrt_filter)

lemma filter_upt_ge: "filter (\<lambda>k. a \<le> k) [m..<n] = [max a m..<n]"
  by (rule sorted_distinct_set_unique) (auto intro: sorted_wrt_filter)

section \<open>Comparison\<close>

datatype ordering = Less | Equal | Greater

definition cmp :: "'a::linorder \<Rightarrow> 'a \<Rightarrow> ordering" where
  "cmp x y = (if x < y then Less else if x = y then Equal else Greater)"

lemma cmp_iffs [simp]:
  "cmp x y = Less \<longleftrightarrow> x < y" "cmp x y = Equal \<longleftrightarrow> x = y" "cmp x y = Greater \<longleftrightarrow> y < x"
  by (auto simp: cmp_def)

lemma cmp_refl [simp]: "cmp x x = Equal"
  by simp

lemma cmp_swap: "cmp y x = (case cmp x y of Less \<Rightarrow> Greater | Equal \<Rightarrow> Equal | Greater \<Rightarrow> Less)"
  by (auto simp: cmp_def)

section \<open>Binary search\<close>

text \<open>
  \<^verbatim>\<open>slice::binary_search_by\<close> on a vector sorted strictly by \<open>key\<close>: \<open>Inr i\<close> is the position of
  the element with the key, \<open>Inl i\<close> the position where it would be inserted.
\<close>

definition bsearch :: "('a \<Rightarrow> 'k::linorder) \<Rightarrow> 'k \<Rightarrow> 'a list \<Rightarrow> nat + nat" where
  "bsearch key k xs =
     (let i = length (takeWhile (\<lambda>x. key x < k) xs)
      in if i < length xs \<and> key (xs ! i) = k then Inr i else Inl i)"

lemma nth_in_takeWhile: "j < length (takeWhile P xs) \<Longrightarrow> P (xs ! j)"
  using nth_mem[of j "takeWhile P xs"] by (auto simp: takeWhile_nth dest!: set_takeWhileD)

lemma bsearch_Inr:
  assumes "bsearch key k xs = Inr i"
  shows "i < length xs \<and> key (xs ! i) = k \<and> (\<forall>j<i. key (xs ! j) < k)"
proof -
  from assms have "i = length (takeWhile (\<lambda>x. key x < k) xs)" "i < length xs" "key (xs ! i) = k"
    by (auto simp: bsearch_def Let_def split: if_splits)
  then show ?thesis using nth_in_takeWhile[of _ "\<lambda>x. key x < k" xs] by blast
qed

lemma bsearch_Inl_le: "bsearch key k xs = Inl i \<Longrightarrow> i \<le> length xs"
  by (auto simp: bsearch_def Let_def length_takeWhile_le split: if_splits)

lemma bsearch_Inl_before: "bsearch key k xs = Inl i \<Longrightarrow> j < i \<Longrightarrow> key (xs ! j) < k"
  by (auto simp: bsearch_def Let_def split: if_splits dest: nth_in_takeWhile)

lemma bsearch_Inl_at:
  assumes "bsearch key k xs = Inl i" "i < length xs"
  shows "k < key (xs ! i)"
proof -
  from assms have i: "i = length (takeWhile (\<lambda>x. key x < k) xs)" and ne: "key (xs ! i) \<noteq> k"
    by (auto simp: bsearch_def Let_def split: if_splits)
  have "\<not> key (xs ! i) < k"
    using nth_length_takeWhile[of "\<lambda>x. key x < k" xs] assms(2) i by simp
  with ne show ?thesis by simp
qed

lemma strict_sorted_nth_mono:
  "sorted_wrt (<) (map key xs) \<Longrightarrow> i < j \<Longrightarrow> j < length xs \<Longrightarrow> (key (xs ! i) :: 'k::linorder) < key (xs ! j)"
  by (simp add: sorted_wrt_iff_nth_less)

end
