(* ===== verification/Vote.thy ===== *)
theory Vote
imports Prelude
begin

text \<open>
  The votes of \<^verbatim>\<open>openraft/src/vote\<close>: leader ids in the two flavours the crate offers
  (\<^verbatim>\<open>leader_id_adv\<close>, several leaders per term, which the key-value store uses; \<^verbatim>\<open>leader_id_std\<close>, at
  most one leader per term), votes and their partial order \<^verbatim>\<open>RefVote::partial_cmp\<close>, and the
  committed and uncommitted votes.
\<close>

section \<open>Leader ids\<close>

text \<open>\<^verbatim>\<open>leader_id_adv::LeaderId\<close> derives a total order, lexicographic in the fields.\<close>

datatype leader_id = LeaderId (lid_term: nat) (lid_node: nat)

instantiation leader_id :: linorder
begin
definition less_eq_leader_id :: "leader_id \<Rightarrow> leader_id \<Rightarrow> bool" where
  "less_eq_leader_id a b = ((lid_term a, lid_node a) \<le> (lid_term b, lid_node b))"
definition less_leader_id :: "leader_id \<Rightarrow> leader_id \<Rightarrow> bool" where
  "less_leader_id a b = ((lid_term a, lid_node a) < (lid_term b, lid_node b))"
instance
  by standard (auto simp: less_eq_leader_id_def less_leader_id_def intro: leader_id.expand)
end

lemma leader_id_less_iff:
  "a < b \<longleftrightarrow> lid_term a < lid_term b \<or> lid_term a = lid_term b \<and> lid_node a < lid_node b"
  by (auto simp: less_leader_id_def)

text \<open>The committed form of an \<^verbatim>\<open>adv\<close> leader id is the leader id itself.\<close>

type_synonym committed_leader_id = leader_id

definition lid_to_committed :: "leader_id \<Rightarrow> committed_leader_id" where
  "lid_to_committed l = l"

definition lid_new_committed :: "nat \<Rightarrow> nat \<Rightarrow> committed_leader_id" where
  "lid_new_committed t n = lid_to_committed (LeaderId t n)"

definition lid_new_with_default_term :: "nat \<Rightarrow> leader_id" where
  "lid_new_with_default_term n = LeaderId 0 n"

text \<open>\<^verbatim>\<open>RaftTerm::next\<close> on \<^verbatim>\<open>u64\<close>; terms are far from the end of their range.\<close>

definition term_next :: "nat \<Rightarrow> nat" where
  "term_next t = t + 1"

definition leader_id_compare_adv :: "leader_id \<Rightarrow> leader_id \<Rightarrow> ordering option panics" where
  "leader_id_compare_adv a b = Some (Some (cmp (lid_term a, lid_node a) (lid_term b, lid_node b)))"

text \<open>\<^verbatim>\<open>leader_id_std::LeaderId\<close>: the node voted for is optional (the default leader id has none).\<close>

datatype std_leader_id = StdLeaderId (std_term: nat) (std_voted_for: "nat option")

datatype std_committed_leader_id = StdCommittedLeaderId (std_committed_term: nat)

definition std_new :: "nat \<Rightarrow> nat \<Rightarrow> std_leader_id" where
  "std_new t n = StdLeaderId t (Some n)"

text \<open>\<^verbatim>\<open>node_id\<close> unwraps \<^verbatim>\<open>voted_for\<close>.\<close>

definition std_node_id :: "std_leader_id \<Rightarrow> nat panics" where
  "std_node_id l = std_voted_for l"

definition std_to_committed :: "std_leader_id \<Rightarrow> std_committed_leader_id" where
  "std_to_committed l = StdCommittedLeaderId (std_term l)"

definition leader_id_compare_std :: "std_leader_id \<Rightarrow> std_leader_id \<Rightarrow> ordering option panics" where
  "leader_id_compare_std a b =
     (case cmp (std_term a) (std_term b) of
        Equal \<Rightarrow> do {
          na \<leftarrow> std_node_id a;
          nb \<leftarrow> std_node_id b;
          Some (if na = nb then Some Equal else None) }
      | c \<Rightarrow> Some (Some c))"

text \<open>A standard leader id against a committed one: for the same term the committed one wins.\<close>

definition std_compare_committed :: "std_leader_id \<Rightarrow> std_committed_leader_id \<Rightarrow> ordering option" where
  "std_compare_committed a c =
     (if std_term a = std_committed_term c then Some Less
      else Some (cmp (std_term a) (std_committed_term c)))"

definition std_committed_compare :: "std_committed_leader_id \<Rightarrow> std_leader_id \<Rightarrow> ordering option" where
  "std_committed_compare c a =
     (if std_committed_term c = std_term a then Some Greater
      else Some (cmp (std_committed_term c) (std_term a)))"

section \<open>Votes\<close>

datatype 'l vote = Vote (vote_leader_id: 'l) (vote_committed: bool)

text \<open>
  The order derived for votes over totally ordered leader ids; that it is the order computed by
  \<^verbatim>\<open>RefVote::partial_cmp\<close> is \<open>ref_vote_cmp_adv\<close> below.
\<close>

instantiation vote :: (linorder) linorder
begin
definition less_eq_vote :: "'a vote \<Rightarrow> 'a vote \<Rightarrow> bool" where
  "less_eq_vote a b = ((vote_leader_id a, vote_committed a) \<le> (vote_leader_id b, vote_committed b))"
definition less_vote :: "'a vote \<Rightarrow> 'a vote \<Rightarrow> bool" where
  "less_vote a b = ((vote_leader_id a, vote_committed a) < (vote_leader_id b, vote_committed b))"
instance
  by standard (auto simp: less_eq_vote_def less_vote_def intro: vote.expand)
end

type_synonym raft_vote = "leader_id vote"

definition ref_vote_partial_cmp ::
  "('l \<Rightarrow> 'l \<Rightarrow> ordering option panics) \<Rightarrow> 'l vote \<Rightarrow> 'l vote \<Rightarrow> ordering option panics" where
  "ref_vote_partial_cmp lid_cmp a b = do {
     c \<leftarrow> lid_cmp (vote_leader_id a) (vote_leader_id b);
     (case c of
        Some Equal \<Rightarrow> Some (Some (cmp (vote_committed a) (vote_committed b)))
      | None \<Rightarrow>
          (case (vote_committed a, vote_committed b) of
             (False, False) \<Rightarrow> Some None
           | (True, False) \<Rightarrow> Some (Some Greater)
           | (False, True) \<Rightarrow> Some (Some Less)
           | (True, True) \<Rightarrow> None)
      | Some o' \<Rightarrow> Some (Some o')) }"

definition vote_new :: "nat \<Rightarrow> nat \<Rightarrow> raft_vote" where
  "vote_new t n = Vote (LeaderId t n) False"

definition vote_new_committed :: "nat \<Rightarrow> nat \<Rightarrow> raft_vote" where
  "vote_new_committed t n = Vote (LeaderId t n) True"

text \<open>\<^verbatim>\<open>Vote::default\<close>.\<close>

definition vote_default :: raft_vote where
  "vote_default = Vote (LeaderId 0 0) False"

definition vote_new_with_default_term :: "nat \<Rightarrow> raft_vote" where
  "vote_new_with_default_term n = Vote (lid_new_with_default_term n) False"

definition vote_term :: "raft_vote \<Rightarrow> nat" where
  "vote_term v = lid_term (vote_leader_id v)"

definition vote_leader_node_id :: "raft_vote \<Rightarrow> nat" where
  "vote_leader_node_id v = lid_node (vote_leader_id v)"

definition vote_is_same_leader :: "raft_vote \<Rightarrow> committed_leader_id \<Rightarrow> bool" where
  "vote_is_same_leader v l = (lid_to_committed (vote_leader_id v) = l)"

text \<open>The committed and uncommitted votes keep only the leader id.\<close>

datatype committed_vote = CommittedVote (cv_leader_id: leader_id)
datatype uncommitted_vote = UncommittedVote (uv_leader_id: leader_id)
datatype vote_status = Committed committed_vote | Pending uncommitted_vote

definition cv_into_vote :: "committed_vote \<Rightarrow> raft_vote" where
  "cv_into_vote c = Vote (cv_leader_id c) True"

definition cv_committed_leader_id :: "committed_vote \<Rightarrow> committed_leader_id" where
  "cv_committed_leader_id c = lid_to_committed (cv_leader_id c)"

definition cv_node_id :: "committed_vote \<Rightarrow> nat" where
  "cv_node_id c = lid_node (cv_leader_id c)"

definition uv_into_vote :: "uncommitted_vote \<Rightarrow> raft_vote" where
  "uv_into_vote u = Vote (uv_leader_id u) False"

definition vote_into_committed :: "raft_vote \<Rightarrow> committed_vote" where
  "vote_into_committed v = CommittedVote (vote_leader_id v)"

definition vote_into_non_committed :: "raft_vote \<Rightarrow> uncommitted_vote" where
  "vote_into_non_committed v = UncommittedVote (vote_leader_id v)"

definition vote_into_vote_status :: "raft_vote \<Rightarrow> vote_status" where
  "vote_into_vote_status v =
     (if vote_committed v then Committed (vote_into_committed v)
      else Pending (vote_into_non_committed v))"

definition vote_try_to_committed :: "raft_vote \<Rightarrow> committed_vote option" where
  "vote_try_to_committed v = (if vote_committed v then Some (vote_into_committed v) else None)"

definition vote_try_to_committed_leader_id :: "raft_vote \<Rightarrow> committed_leader_id option" where
  "vote_try_to_committed_leader_id v =
     (if vote_committed v then Some (lid_to_committed (vote_leader_id v)) else None)"

text \<open>\<^verbatim>\<open>Ord for CommittedVote\<close> unwraps the partial comparison of the votes.\<close>

definition committed_vote_cmp :: "committed_vote \<Rightarrow> committed_vote \<Rightarrow> ordering panics" where
  "committed_vote_cmp a b = do {
     o' \<leftarrow> ref_vote_partial_cmp leader_id_compare_adv (cv_into_vote a) (cv_into_vote b);
     o' }"

instantiation committed_vote :: linorder
begin
definition less_eq_committed_vote :: "committed_vote \<Rightarrow> committed_vote \<Rightarrow> bool" where
  "less_eq_committed_vote a b = (cv_leader_id a \<le> cv_leader_id b)"
definition less_committed_vote :: "committed_vote \<Rightarrow> committed_vote \<Rightarrow> bool" where
  "less_committed_vote a b = (cv_leader_id a < cv_leader_id b)"
instance
  by standard (auto simp: less_eq_committed_vote_def less_committed_vote_def intro: committed_vote.expand)
end

section \<open>Facts\<close>

lemmas vote_conv_defs =
  cv_into_vote_def uv_into_vote_def vote_into_committed_def vote_into_non_committed_def
  vote_into_vote_status_def vote_try_to_committed_def

lemma vote_less_iff:
  "a < b \<longleftrightarrow> vote_leader_id a < vote_leader_id b
     \<or> vote_leader_id a = vote_leader_id b \<and> \<not> vote_committed a \<and> vote_committed b"
  by (auto simp: less_vote_def)

lemma vote_le_iff:
  "a \<le> b \<longleftrightarrow> vote_leader_id a < vote_leader_id b
     \<or> vote_leader_id a = vote_leader_id b \<and> (vote_committed a \<longrightarrow> vote_committed b)"
  by (auto simp: less_eq_vote_def)

lemma leader_id_compare_adv_cmp: "leader_id_compare_adv a b = Some (Some (cmp a b))"
  by (auto simp: leader_id_compare_adv_def cmp_def leader_id_less_iff leader_id.expand)

text \<open>For the leader ids of the store the comparison never panics and is the derived total order.\<close>

lemma ref_vote_cmp_adv: "ref_vote_partial_cmp leader_id_compare_adv a b = Some (Some (cmp a b))"
  by (cases a; cases b)
    (auto simp: ref_vote_partial_cmp_def leader_id_compare_adv_cmp cmp_def vote_less_iff)

lemma committed_vote_cmp: "committed_vote_cmp a b = Some (cmp a b)"
  by (cases a; cases b)
    (auto simp: committed_vote_cmp_def ref_vote_cmp_adv cmp_def vote_less_iff cv_into_vote_def
      less_committed_vote_def)

lemma cv_into_vote_mono [simp]: "cv_into_vote a \<le> cv_into_vote b \<longleftrightarrow> a \<le> b"
  by (auto simp: cv_into_vote_def vote_le_iff less_eq_committed_vote_def)

lemma cv_into_vote_inj [simp]: "cv_into_vote a = cv_into_vote b \<longleftrightarrow> a = b"
  by (auto simp: cv_into_vote_def committed_vote.expand)

lemma vote_default_least: "vote_default \<le> v"
  by (cases v; cases "vote_leader_id v") (auto simp: vote_default_def vote_le_iff leader_id_less_iff)

lemma vote_status_roundtrip:
  "(case vote_into_vote_status v of Committed c \<Rightarrow> cv_into_vote c | Pending u \<Rightarrow> uv_into_vote u) = v"
  by (cases v) (auto simp: vote_conv_defs)

section \<open>The standard flavour\<close>

text \<open>
  Votes with the standard leader ids: the elected leader of a term is unique, so two committed
  votes of the same term name the same node; every vote names a node.
\<close>

definition std_consistent :: "std_leader_id vote set \<Rightarrow> bool" where
  "std_consistent V \<longleftrightarrow>
     (\<forall>v \<in> V. std_voted_for (vote_leader_id v) \<noteq> None) \<and>
     (\<forall>v \<in> V. \<forall>w \<in> V. vote_committed v \<and> vote_committed w
        \<and> std_term (vote_leader_id v) = std_term (vote_leader_id w)
        \<longrightarrow> vote_leader_id v = vote_leader_id w)"

abbreviation std_vote_cmp :: "std_leader_id vote \<Rightarrow> std_leader_id vote \<Rightarrow> ordering option panics" where
  "std_vote_cmp \<equiv> ref_vote_partial_cmp leader_id_compare_std"

lemma std_vote_cmp_Less:
  assumes "std_voted_for (vote_leader_id a) \<noteq> None" "std_voted_for (vote_leader_id b) \<noteq> None"
  shows "std_vote_cmp a b = Some (Some Less) \<longleftrightarrow>
    std_term (vote_leader_id a) < std_term (vote_leader_id b) \<or>
    std_term (vote_leader_id a) = std_term (vote_leader_id b) \<and> \<not> vote_committed a \<and> vote_committed b"
  using assms
  by (auto simp: ref_vote_partial_cmp_def leader_id_compare_std_def std_node_id_def cmp_def
      split: bool.splits if_splits)

lemma std_vote_cmp_Greater:
  assumes "std_voted_for (vote_leader_id a) \<noteq> None" "std_voted_for (vote_leader_id b) \<noteq> None"
  shows "std_vote_cmp a b = Some (Some Greater) \<longleftrightarrow>
    std_term (vote_leader_id b) < std_term (vote_leader_id a) \<or>
    std_term (vote_leader_id a) = std_term (vote_leader_id b) \<and> vote_committed a \<and> \<not> vote_committed b"
  using assms
  by (auto simp: ref_vote_partial_cmp_def leader_id_compare_std_def std_node_id_def cmp_def
      split: bool.splits if_splits)

lemma std_vote_cmp_Equal:
  assumes "std_voted_for (vote_leader_id a) \<noteq> None" "std_voted_for (vote_leader_id b) \<noteq> None"
  shows "std_vote_cmp a b = Some (Some Equal) \<longleftrightarrow> a = b"
  using assms
  by (cases a; cases b; cases "vote_leader_id a"; cases "vote_leader_id b")
    (auto simp: ref_vote_partial_cmp_def leader_id_compare_std_def std_node_id_def cmp_def
      split: bool.splits if_splits)

lemma std_vote_cmp_panics_iff:
  assumes "std_voted_for (vote_leader_id a) \<noteq> None" "std_voted_for (vote_leader_id b) \<noteq> None"
  shows "std_vote_cmp a b = None \<longleftrightarrow> vote_committed a \<and> vote_committed b
    \<and> std_term (vote_leader_id a) = std_term (vote_leader_id b) \<and> vote_leader_id a \<noteq> vote_leader_id b"
  using assms
  by (cases a; cases b; cases "vote_leader_id a"; cases "vote_leader_id b")
    (auto simp: ref_vote_partial_cmp_def leader_id_compare_std_def std_node_id_def cmp_def
      split: bool.splits if_splits)

text \<open>
  On votes of one cluster (every vote names a node, the committed votes of a term name the same
  leader), the comparison of standard votes never reaches its \<^verbatim>\<open>unreachable!\<close> branch nor the
  \<^verbatim>\<open>unwrap\<close> of the node id, and it is a partial order: equality is identity, greater is the
  converse of less, and less is transitive.
\<close>

theorem std_vote_partial_order:
  assumes "std_consistent V" "a \<in> V" "b \<in> V" "c \<in> V"
  shows "std_vote_cmp a b \<noteq> None
    \<and> (std_vote_cmp a b = Some (Some Equal) \<longleftrightarrow> a = b)
    \<and> (std_vote_cmp a b = Some (Some Greater) \<longleftrightarrow> std_vote_cmp b a = Some (Some Less))
    \<and> (std_vote_cmp a b = Some (Some Less) \<longrightarrow> std_vote_cmp b c = Some (Some Less)
          \<longrightarrow> std_vote_cmp a c = Some (Some Less))"
proof -
  have n: "std_voted_for (vote_leader_id a) \<noteq> None" "std_voted_for (vote_leader_id b) \<noteq> None"
    "std_voted_for (vote_leader_id c) \<noteq> None"
    using assms unfolding std_consistent_def by blast+
  have "std_vote_cmp a b \<noteq> None"
    using assms unfolding std_vote_cmp_panics_iff[OF n(1,2)] std_consistent_def by blast
  then show ?thesis
    using n by (auto simp: std_vote_cmp_Equal std_vote_cmp_Less std_vote_cmp_Greater)
qed

theorem std_vote_partial_order_witness:
  "std_vote_cmp (Vote (StdLeaderId 2 (Some 2)) False) (Vote (StdLeaderId 2 (Some 1)) True) \<noteq> None"
  using std_vote_partial_order[of "{Vote (StdLeaderId 2 (Some 2)) False, Vote (StdLeaderId 2 (Some 1)) True}"
      "Vote (StdLeaderId 2 (Some 2)) False" "Vote (StdLeaderId 2 (Some 1)) True"
      "Vote (StdLeaderId 2 (Some 1)) True"]
  by (auto simp: std_consistent_def)

end
