(* ===== verification/LogId.thy ===== *)
theory LogId
imports Vote
begin

text \<open>
  Log ids of \<^verbatim>\<open>openraft/src/log_id\<close> and the log id range of \<^verbatim>\<open>openraft/src/log_id_range.rs\<close>: a log
  entry is identified by the committed leader that proposed it and its index, ordered
  lexicographically.
\<close>

datatype log_id = LogId (lg_leader: committed_leader_id) (lg_index: nat)

instantiation log_id :: linorder
begin
definition less_eq_log_id :: "log_id \<Rightarrow> log_id \<Rightarrow> bool" where
  "less_eq_log_id a b = ((lg_leader a, lg_index a) \<le> (lg_leader b, lg_index b))"
definition less_log_id :: "log_id \<Rightarrow> log_id \<Rightarrow> bool" where
  "less_log_id a b = ((lg_leader a, lg_index a) < (lg_leader b, lg_index b))"
instance
  by standard (auto simp: less_eq_log_id_def less_log_id_def intro: log_id.expand)
end

lemma log_id_less_iff:
  "a < b \<longleftrightarrow> lg_leader a < lg_leader b \<or> lg_leader a = lg_leader b \<and> lg_index a < lg_index b"
  by (auto simp: less_log_id_def)

lemma log_id_le_iff:
  "a \<le> b \<longleftrightarrow> lg_leader a < lg_leader b \<or> lg_leader a = lg_leader b \<and> lg_index a \<le> lg_index b"
  by (auto simp: less_eq_log_id_def)

lemma log_id_eqI: "lg_leader a = lg_leader b \<Longrightarrow> lg_index a = lg_index b \<Longrightarrow> a = b"
  by (rule log_id.expand) simp

section \<open>Optional log ids and indexes\<close>

definition opt_index :: "log_id option \<Rightarrow> nat option" where
  "opt_index l = map_option lg_index l"

text \<open>\<^verbatim>\<open>next_index\<close>: the index after an optional log id, 0 when there is none.\<close>

definition next_index :: "log_id option \<Rightarrow> nat" where
  "next_index l = (case l of None \<Rightarrow> 0 | Some x \<Rightarrow> lg_index x + 1)"

definition opt_leader :: "log_id option \<Rightarrow> committed_leader_id option" where
  "opt_leader l = map_option lg_leader l"

definition index_next :: "nat option \<Rightarrow> nat" where
  "index_next i = (case i of None \<Rightarrow> 0 | Some v \<Rightarrow> v + 1)"

definition index_prev :: "nat option \<Rightarrow> nat option panics" where
  "index_prev i = (case i of None \<Rightarrow> None | Some v \<Rightarrow> Some (if v = 0 then None else Some (v - 1)))"

definition index_add :: "nat option \<Rightarrow> nat \<Rightarrow> nat option panics" where
  "index_add i v = index_prev (Some (index_next i + v))"

lemma next_index_simps [simp]: "next_index None = 0" "next_index (Some x) = lg_index x + 1"
  by (auto simp: next_index_def)

lemma opt_index_simps [simp]: "opt_index None = None" "opt_index (Some x) = Some (lg_index x)"
  by (auto simp: opt_index_def)

lemma opt_leader_simps [simp]: "opt_leader None = None" "opt_leader (Some x) = Some (lg_leader x)"
  by (auto simp: opt_leader_def)

lemma index_prev_next: "index_prev (Some (index_next i)) = Some i"
  by (cases i) (auto simp: index_next_def index_prev_def)

lemma index_add_next: "index_add i v = Some j \<Longrightarrow> index_next j = index_next i + v"
  by (auto simp: index_add_def index_next_def index_prev_def split: option.splits if_splits)

section \<open>Log id ranges\<close>

text \<open>The logs to send: after \<open>prev\<close> (exclusive) up to \<open>last\<close> (inclusive).\<close>

datatype log_id_range = LogIdRange (lir_prev: "log_id option") (lir_last: "log_id option")

definition log_id_range_validate :: "log_id_range \<Rightarrow> bool" where
  "log_id_range_validate r = (lir_prev r \<le> lir_last r)"

definition log_id_range_len :: "log_id_range \<Rightarrow> nat panics" where
  "log_id_range_len r = sub_panics (next_index (lir_last r)) (next_index (lir_prev r))"

end
