(* ===== verification/LogIdList.thy ===== *)
theory LogIdList
imports LogId
begin

text \<open>
  \<^verbatim>\<open>openraft/src/engine/log_id_list.rs\<close>: the in-memory summary of the log. Only the first log id
  of every leader and the last log id are kept. \<open>expand\<close> is the log the list stands for; every
  operation is proved to act on it as the obvious operation on the whole log.
\<close>

section \<open>The operations\<close>

text \<open>The struct has the one field \<^verbatim>\<open>key_log_ids\<close>; the model is that vector.\<close>

type_synonym log_id_list = "log_id list"

definition lil_append :: "log_id_list \<Rightarrow> log_id \<Rightarrow> log_id_list panics" where
  "lil_append ks x =
     (if ks = [] then Some [x]
      else do {
        ensure (x > ks ! (length ks - 1));
        (if length ks = 1 then Some (ks @ [x])
         else if lg_leader (ks ! (length ks - 2)) = lg_leader (ks ! (length ks - 1))
         then Some (ks[length ks - 1 := x])
         else Some (ks @ [x])) })"

definition lil_truncate_from :: "nat \<Rightarrow> nat \<Rightarrow> log_id_list \<Rightarrow> log_id_list panics" where
  "lil_truncate_from at i ks =
     (let ks' = take i ks in
      case last_opt ks' of
        None \<Rightarrow> Some ks'
      | Some la \<Rightarrow> do {
          m \<leftarrow> sub_panics at 1;
          (if lg_index la < m then lil_append ks' (LogId (lg_leader la) m) else Some ks') })"

definition lil_truncate :: "nat \<Rightarrow> log_id_list \<Rightarrow> log_id_list panics" where
  "lil_truncate at ks =
     (case bsearch lg_index at ks of
        Inr i \<Rightarrow> lil_truncate_from at i ks
      | Inl i \<Rightarrow> if i = length ks then Some ks else lil_truncate_from at i ks)"

definition lil_purge :: "log_id \<Rightarrow> log_id_list \<Rightarrow> log_id_list panics" where
  "lil_purge up ks =
     (if lg_index up \<ge> next_index (last_opt ks)
      then do { ensure (Some up > last_opt ks); Some [up] }
      else do {
        k0 \<leftarrow> nth_panics ks 0;
        (if lg_index up < lg_index k0 then Some ks
         else case bsearch lg_index (lg_index up) ks of
             Inr i \<Rightarrow> Some (if i > 0 then drop i ks else ks)
           | Inl i \<Rightarrow> do {
               j \<leftarrow> sub_panics i 1;
               k \<leftarrow> nth_panics (drop j ks) 0;
               Some ((drop j ks)[0 := LogId (lg_leader k) (lg_index up)]) }) })"

definition lil_ref_at :: "log_id_list \<Rightarrow> nat \<Rightarrow> log_id option" where
  "lil_ref_at ks i =
     (case bsearch lg_index i ks of
        Inr j \<Rightarrow> Some (LogId (lg_leader (ks ! j)) i)
      | Inl j \<Rightarrow> if j = 0 \<or> j = length ks then None else Some (LogId (lg_leader (ks ! (j - 1))) i))"

definition lil_first :: "log_id_list \<Rightarrow> log_id option" where
  "lil_first ks = first_opt ks"

definition lil_last :: "log_id_list \<Rightarrow> log_id option" where
  "lil_last ks = last_opt ks"

definition lil_last_leader :: "log_id_list \<Rightarrow> committed_leader_id option" where
  "lil_last_leader ks = opt_leader (lil_last ks)"

definition lil_extend_from_same_leader :: "log_id list \<Rightarrow> log_id_list \<Rightarrow> log_id_list panics" where
  "lil_extend_from_same_leader ids ks =
     (case ids of
        [] \<Rightarrow> Some ks
      | first # rest \<Rightarrow> do {
          ks1 \<leftarrow> lil_append ks first;
          (case last_opt rest of
             None \<Rightarrow> Some ks1
           | Some la \<Rightarrow> do {
               ensure (lg_leader la = lg_leader first);
               (if la \<noteq> first then lil_append ks1 la else Some ks1) }) })"

text \<open>The loop of \<^verbatim>\<open>extend\<close>: the element with index \<^verbatim>\<open>len - 1\<close> is the one with nothing after it.\<close>

fun lil_extend :: "log_id list \<Rightarrow> log_id_list \<Rightarrow> log_id_list panics" where
  "lil_extend [] ks = Some ks"
| "lil_extend (x # rest) ks = do {
     ks1 \<leftarrow> (if lil_last_leader ks \<noteq> Some (lg_leader x) then lil_append ks x else Some ks);
     ks2 \<leftarrow> (if rest = [] \<and> lil_last ks1 \<noteq> Some x then lil_append ks1 x else Some ks1);
     lil_extend rest ks2 }"

text \<open>The first and the last log id of the last leader, \<^verbatim>\<open>LeaderLogIds\<close>.\<close>

datatype leader_log_ids = LeaderLogIds (lli_range: "(log_id \<times> log_id) option")

definition lli_first :: "leader_log_ids \<Rightarrow> log_id option" where
  "lli_first l = map_option fst (lli_range l)"

definition lli_last :: "leader_log_ids \<Rightarrow> log_id option" where
  "lli_last l = map_option snd (lli_range l)"

definition lil_by_last_leader :: "log_id_list \<Rightarrow> leader_log_ids" where
  "lil_by_last_leader ks =
     (let l = length ks in
      if l < 2 then LeaderLogIds (map_option (\<lambda>x. (x, x)) (lil_last ks))
      else if lg_leader (ks ! (l - 1)) = lg_leader (ks ! (l - 2))
      then LeaderLogIds (Some (ks ! (l - 2), ks ! (l - 1)))
      else LeaderLogIds (Some (ks ! (l - 1), ks ! (l - 1))))"

section \<open>Loading the key log ids from the storage\<close>

text \<open>
  \<^verbatim>\<open>get_key_log_ids\<close>: a depth-first bisection with an explicit stack. \<open>rd\<close> reads the log id at an
  index from the storage, which may fail. A storage that returns log ids with other indexes can
  keep the loop busy forever, so the loop is a partial function: \<open>None\<close> is not returning.
\<close>

type_synonym key_search = "(log_id \<times> log_id) list \<times> log_id list"

definition push_if_new :: "log_id \<Rightarrow> log_id list \<Rightarrow> log_id list" where
  "push_if_new x res = (if opt_leader (last_opt res) < Some (lg_leader x) then res @ [x] else res)"

definition gk_step :: "(nat \<Rightarrow> 'e + log_id) \<Rightarrow> log_id \<Rightarrow> log_id \<Rightarrow> key_search \<Rightarrow> 'e + key_search" where
  "gk_step rd first la st =
     (case st of (stack, res) \<Rightarrow>
        if lg_leader first = lg_leader la then Inr (stack, push_if_new first res)
        else if lg_index first + 1 = lg_index la
        then Inr (stack, push_if_new first res @ [la])
        else case rd ((lg_index first + lg_index la) div 2) of
            Inl e \<Rightarrow> Inl e
          | Inr mid \<Rightarrow>
              if lg_leader first = lg_leader mid
              then Inr ((mid, la) # stack, push_if_new first res)
              else if lg_leader mid = lg_leader la
              then Inr ((first, mid) # stack, res)
              else Inr ((first, mid) # (mid, la) # stack, res))"

partial_function (option) gk_loop ::
  "(nat \<Rightarrow> 'e + log_id) \<Rightarrow> key_search \<Rightarrow> ('e + log_id list) option" where
  "gk_loop rd st =
     (case st of
        ([], res) \<Rightarrow> Some (Inr res)
      | ((first, la) # stack, res) \<Rightarrow>
          (case gk_step rd first la (stack, res) of
             Inl e \<Rightarrow> Some (Inl e)
           | Inr st' \<Rightarrow> gk_loop rd st'))"

definition get_key_log_ids :: "(nat \<Rightarrow> 'e + log_id) \<Rightarrow> log_id \<Rightarrow> log_id \<Rightarrow> ('e + log_id list) option" where
  "get_key_log_ids rd first la =
     (case gk_loop rd ([(first, la)], []) of
        None \<Rightarrow> None
      | Some (Inl e) \<Rightarrow> Some (Inl e)
      | Some (Inr res) \<Rightarrow> Some (Inr (if last_opt res \<noteq> Some la then res @ [la] else res)))"

section \<open>The log a key list stands for\<close>

text \<open>A stretch of a log: consecutive indexes, leaders never going back.\<close>

definition log_seq :: "log_id list \<Rightarrow> bool" where
  "log_seq = successively (\<lambda>x y. lg_index y = Suc (lg_index x) \<and> lg_leader x \<le> lg_leader y)"

text \<open>
  The invariant of a key list: indexes increase, leaders never go back, and only the last two
  entries may share a leader.
\<close>

definition kwf :: "log_id_list \<Rightarrow> bool" where
  "kwf ks \<longleftrightarrow> successively (\<lambda>x y. lg_index x < lg_index y \<and> lg_leader x \<le> lg_leader y) ks
     \<and> successively (\<lambda>x y. lg_leader x < lg_leader y) (butlast ks)"

definition fill :: "log_id \<Rightarrow> nat \<Rightarrow> log_id list" where
  "fill x n = map (LogId (lg_leader x)) [Suc (lg_index x) ..< n]"

fun expand :: "log_id_list \<Rightarrow> log_id list" where
  "expand [] = []"
| "expand [x] = [x]"
| "expand (x # y # ks) = x # fill x (lg_index y) @ expand (y # ks)"

fun firsts_after :: "committed_leader_id \<Rightarrow> log_id list \<Rightarrow> log_id list" where
  "firsts_after l [] = []"
| "firsts_after l (x # xs) = (if lg_leader x \<noteq> l then [x] else []) @ firsts_after (lg_leader x) xs"

fun compress :: "log_id list \<Rightarrow> log_id_list" where
  "compress [] = []"
| "compress (x # xs) =
     (let fs = x # firsts_after (lg_leader x) xs
      in if last fs = last (x # xs) then fs else fs @ [last (x # xs)])"

lemma set_fill: "y \<in> set (fill x n) \<longleftrightarrow> lg_leader y = lg_leader x \<and> lg_index x < lg_index y \<and> lg_index y < n"
proof
  assume "lg_leader y = lg_leader x \<and> lg_index x < lg_index y \<and> lg_index y < n"
  then have "y = LogId (lg_leader x) (lg_index y)" "lg_index y \<in> {Suc (lg_index x)..<n}"
    by (auto intro: log_id_eqI)
  then show "y \<in> set (fill x n)" unfolding fill_def by (metis image_eqI set_map set_upt)
qed (auto simp: fill_def)

lemma fill_Nil_iff [simp]: "fill x n = [] \<longleftrightarrow> n \<le> Suc (lg_index x)"
  by (auto simp: fill_def)

lemma expand_Nil_iff [simp]: "expand ks = [] \<longleftrightarrow> ks = []"
  by (cases ks rule: expand.cases) auto

lemma hd_expand [simp]: "hd (expand ks) = hd ks"
  by (cases ks rule: expand.cases) auto

lemma last_expand [simp]: "last (expand ks) = last ks"
  by (induction ks rule: expand.induct) auto

lemma expand_append:
  "xs \<noteq> [] \<Longrightarrow> ys \<noteq> [] \<Longrightarrow> expand (xs @ ys) = expand xs @ fill (last xs) (lg_index (hd ys)) @ expand ys"
proof (induction xs rule: expand.induct)
  case (2 x)
  then show ?case by (cases ys) auto
qed auto

lemma kwf_Nil [simp]: "kwf []" and kwf_single [simp]: "kwf [x]"
  by (auto simp: kwf_def)

lemma kwf_Cons2:
  "kwf (x # y # ks) \<longleftrightarrow> lg_index x < lg_index y \<and> lg_leader x \<le> lg_leader y
     \<and> (ks \<noteq> [] \<longrightarrow> lg_leader x < lg_leader y) \<and> kwf (y # ks)"
  by (cases ks) (auto simp: kwf_def)

lemma log_seq_fill: "log_seq (x # fill x n)"
proof (induction "n - lg_index x" arbitrary: n)
  case (Suc k)
  show ?case
  proof (cases "n \<le> Suc (lg_index x)")
    case False
    then obtain m where m: "n = Suc m" "lg_index x < m" by (cases n) auto
    then have "fill x n = fill x m @ [LogId (lg_leader x) m]" by (auto simp: fill_def)
    moreover have "log_seq (x # fill x m)" using Suc m by auto
    moreover have "lg_index (last (x # fill x m)) = m - 1 \<and> lg_leader (last (x # fill x m)) = lg_leader x"
      using m by (auto simp: fill_def last_map)
    ultimately show ?thesis using m
      by (auto simp: log_seq_def successively_append_iff simp flip: append_Cons)
  qed (auto simp: log_seq_def fill_def)
qed (auto simp: log_seq_def fill_def)

lemma last_fill:
  assumes "lg_index x < n"
  shows "last (x # fill x n) = LogId (lg_leader x) (n - 1)"
  using assms by (cases n) (auto simp: fill_def last_map intro: log_id_eqI)

lemma log_seq_expand: "kwf ks \<Longrightarrow> log_seq (expand ks)"
proof (induction ks rule: expand.induct)
  case (3 x y ks)
  then have "log_seq (expand (y # ks))" and lt: "lg_index x < lg_index y" "lg_leader x \<le> lg_leader y"
    by (auto simp: kwf_Cons2)
  moreover have "lg_index y = Suc (lg_index (last (x # fill x (lg_index y))))"
    "lg_leader (last (x # fill x (lg_index y))) \<le> lg_leader y"
    using lt by (simp_all only: last_fill) auto
  ultimately show ?case
    using log_seq_fill[of x "lg_index y"]
    unfolding log_seq_def expand.simps append_Cons[symmetric] successively_append_iff by simp
qed (auto simp: log_seq_def)

lemma log_seq_append:
  "xs \<noteq> [] \<Longrightarrow> ys \<noteq> [] \<Longrightarrow> log_seq (xs @ ys) \<longleftrightarrow> log_seq xs \<and> log_seq ys
     \<and> lg_index (hd ys) = Suc (lg_index (last xs)) \<and> lg_leader (last xs) \<le> lg_leader (hd ys)"
  by (simp add: log_seq_def successively_append_iff)

lemma log_seq_Cons:
  "log_seq (x # xs) \<longleftrightarrow> (xs \<noteq> [] \<longrightarrow> lg_index (hd xs) = Suc (lg_index x) \<and> lg_leader x \<le> lg_leader (hd xs)) \<and> log_seq xs"
  by (cases xs) (auto simp: log_seq_def)

lemma log_seq_bounds:
  "log_seq xs \<Longrightarrow> x \<in> set xs \<Longrightarrow>
     lg_index (hd xs) \<le> lg_index x \<and> lg_index x \<le> lg_index (last xs)
     \<and> lg_leader (hd xs) \<le> lg_leader x \<and> lg_leader x \<le> lg_leader (last xs)"
proof (induction xs arbitrary: x)
  case (Cons y xs)
  show ?case
  proof (cases "xs = []")
    case False
    then have h: "lg_index (hd xs) = Suc (lg_index y)" "lg_leader y \<le> lg_leader (hd xs)" "log_seq xs"
      using Cons.prems(1) by (auto simp: log_seq_Cons)
    have i: "lg_index (hd xs) \<le> lg_index (last xs)" "lg_leader (hd xs) \<le> lg_leader (last xs)"
      using Cons.IH[of "hd xs"] h(3) False by auto
    show ?thesis
    proof (cases "x = y")
      case True
      with h i False show ?thesis by auto
    next
      case x: False
      then have "x \<in> set xs" using Cons.prems(2) by simp
      from Cons.IH[OF h(3) this] h i False show ?thesis by auto
    qed
  qed (use Cons.prems in simp)
qed simp

lemma log_seq_unique_index:
  assumes "log_seq xs" "x \<in> set xs" "y \<in> set xs" "lg_index x = lg_index y"
  shows "x = y"
  using assms
proof (induction xs)
  case (Cons z xs)
  then show ?case
    using log_seq_bounds[of xs] by (cases "xs = []") (force simp: log_seq_Cons)+
qed simp

lemma log_seq_mono:
  assumes "log_seq xs" "x \<in> set xs" "y \<in> set xs" "lg_index x \<le> lg_index y"
  shows "lg_leader x \<le> lg_leader y"
  using assms
proof (induction xs)
  case (Cons z xs)
  then show ?case
    using log_seq_bounds[of xs] by (cases "xs = []") (force simp: log_seq_Cons)+
qed simp

lemma log_seq_length:
  "log_seq xs \<Longrightarrow> xs \<noteq> [] \<Longrightarrow> lg_index (last xs) = lg_index (hd xs) + length xs - 1"
proof (induction xs)
  case (Cons z xs)
  then show ?case by (cases "xs = []") (auto simp: log_seq_Cons)
qed simp

lemma find_index_Some:
  "log_seq xs \<Longrightarrow> x \<in> set xs \<Longrightarrow> List.find (\<lambda>y. lg_index y = lg_index x) xs = Some x"
proof -
  assume a: "log_seq xs" "x \<in> set xs"
  then obtain y where y: "List.find (\<lambda>y. lg_index y = lg_index x) xs = Some y"
    by (cases "List.find (\<lambda>y. lg_index y = lg_index x) xs") (auto simp: find_None_iff)
  then have "y \<in> set xs" "lg_index y = lg_index x" by (auto simp: find_Some_iff)
  with a y log_seq_unique_index[OF a(1), of y x] show ?thesis by simp
qed

lemma kwf_nth_less:
  assumes "kwf ks" "i < j" "j < length ks"
  shows "lg_index (ks ! i) < lg_index (ks ! j)" "lg_leader (ks ! i) \<le> lg_leader (ks ! j)"
proof -
  have t: "transp (\<lambda>x y. lg_index x < lg_index y \<and> lg_leader x \<le> lg_leader y)"
    by (auto intro!: transpI)
  have "sorted_wrt (\<lambda>x y. lg_index x < lg_index y \<and> lg_leader x \<le> lg_leader y) ks"
    using assms(1) by (simp add: kwf_def successively_conv_sorted_wrt[OF t])
  then show "lg_index (ks ! i) < lg_index (ks ! j)" "lg_leader (ks ! i) \<le> lg_leader (ks ! j)"
    using assms(2,3) by (auto simp: sorted_wrt_iff_nth_less)
qed

lemma successively_take: "successively P xs \<Longrightarrow> successively P (take i xs)"
  by (metis append_take_drop_id successively_append_iff)

lemma successively_drop: "successively P xs \<Longrightarrow> successively P (drop i xs)"
  by (metis append_take_drop_id successively_append_iff)

lemma kwf_take: "kwf ks \<Longrightarrow> kwf (take i ks)"
proof (cases "i < length ks")
  case True
  assume "kwf ks"
  then show ?thesis
    using True successively_take[of _ "butlast ks" "i - 1"] unfolding kwf_def
    by (simp add: successively_take butlast_take take_butlast)
qed simp

lemma kwf_drop: "kwf ks \<Longrightarrow> kwf (drop i ks)"
  by (simp add: kwf_def successively_drop butlast_drop flip: drop_butlast)

section \<open>Appending\<close>

lemma kwf_snoc:
  "ks \<noteq> [] \<Longrightarrow> kwf (ks @ [x]) \<longleftrightarrow> lg_index (last ks) < lg_index x \<and> lg_leader (last ks) \<le> lg_leader x
     \<and> successively (\<lambda>x y. lg_index x < lg_index y \<and> lg_leader x \<le> lg_leader y) ks
     \<and> successively (\<lambda>x y. lg_leader x < lg_leader y) ks"
  by (auto simp: kwf_def successively_append_iff)

lemma kwf_strict_leaders:
  assumes "kwf ks" "length ks < 2 \<or> lg_leader (ks ! (length ks - 2)) \<noteq> lg_leader (ks ! (length ks - 1))"
  shows "successively (\<lambda>x y. lg_leader x < lg_leader y) ks"
proof (cases ks rule: rev_cases)
  case (snoc pre y)
  show ?thesis
  proof (cases pre rule: rev_cases)
    case (snoc pre' x)
    with \<open>ks = pre @ [y]\<close> assms show ?thesis
      by (auto simp: kwf_def successively_append_iff nth_append butlast_append)
  qed (simp add: snoc)
qed simp

lemma lil_append_expand:
  assumes wf: "kwf ks" and ne: "ks \<noteq> []" and gt: "last ks < x" and idx: "lg_index (last ks) < lg_index x"
  shows "\<exists>ks'. lil_append ks x = Some ks' \<and> kwf ks'
    \<and> expand ks' = expand ks @ fill (last ks) (lg_index x) @ [x]"
proof -
  have le: "lg_leader (last ks) \<le> lg_leader x" using gt by (auto simp: log_id_less_iff)
  have chk: "x > ks ! (length ks - 1)" using gt ne by (simp add: last_conv_nth)
  show ?thesis
  proof (cases "length ks < 2 \<or> lg_leader (ks ! (length ks - 2)) \<noteq> lg_leader (ks ! (length ks - 1))")
    case True
    then have "lil_append ks x = Some (ks @ [x])"
      using ne chk by (auto simp: lil_append_def less_2_cases_iff)
    moreover have "kwf (ks @ [x])"
      using kwf_strict_leaders[OF wf True] wf ne idx le by (simp add: kwf_snoc) (simp add: kwf_def)
    moreover have "expand (ks @ [x]) = expand ks @ fill (last ks) (lg_index x) @ [x]"
      using expand_append[of ks "[x]"] ne by simp
    ultimately show ?thesis by blast
  next
    case False
    then obtain pre p q where ks: "ks = pre @ [p, q]"
      by (cases ks rule: rev_cases; cases "butlast ks" rule: rev_cases) auto
    have pq: "lg_leader p = lg_leader q" using False by (simp add: ks nth_append)
    have app: "lil_append ks x = Some (pre @ [p, x])"
      using False chk by (simp add: lil_append_def ks bind_ensure_True list_update_append)
    have ip: "lg_index p < lg_index q" using wf by (auto simp: ks kwf_def successively_append_iff)
    have "kwf (pre @ [p, x])"
      using wf idx le pq ip by (auto simp: ks kwf_def successively_append_iff butlast_append split: if_splits)
    moreover have "fill p (lg_index x) = fill p (lg_index q) @ [q] @ fill q (lg_index x)"
    proof -
      have "[Suc (lg_index p)..<lg_index x] = [Suc (lg_index p)..<lg_index q] @ lg_index q # [Suc (lg_index q)..<lg_index x]"
        using ip idx by (simp add: ks upt_conv_Cons[symmetric] upt_add_eq_append[symmetric] del: upt_Suc)
          (metis (no_types) Suc_leI le_add_diff_inverse less_imp_le_nat upt_add_eq_append)
      then show ?thesis using pq by (auto simp: fill_def intro: log_id_eqI)
    qed
    then have "expand (pre @ [p, x]) = expand ks @ fill (last ks) (lg_index x) @ [x]"
      using expand_append[of pre "[p, x]"] expand_append[of pre "[p, q]"]
      by (cases "pre = []") (auto simp: ks)
    ultimately show ?thesis using app by blast
  qed
qed

section \<open>Truncating, purging and lookup\<close>

lemma expand_split:
  assumes "0 < i" "i < length ks"
  shows "expand ks = expand (take i ks) @ fill (ks ! (i - 1)) (lg_index (ks ! i)) @ expand (drop i ks)"
proof -
  have "last (take i ks) = ks ! (i - 1)" "hd (drop i ks) = ks ! i"
    using assms by (auto simp: last_take hd_drop_conv_nth)
  then show ?thesis
    using expand_append[of "take i ks" "drop i ks"] assms by (cases "ks = []") auto
qed

lemma expand_take_bound:
  assumes "kwf ks" "0 < i" "i \<le> length ks" "x \<in> set (expand (take i ks))"
  shows "lg_index x \<le> lg_index (ks ! (i - 1))"
  using log_seq_bounds[OF log_seq_expand[OF kwf_take[OF assms(1)]] assms(4)] assms(2,3)
  by (simp add: last_take)

lemma expand_drop_bound:
  assumes "kwf ks" "i < length ks" "x \<in> set (expand (drop i ks))"
  shows "lg_index (ks ! i) \<le> lg_index x"
  using log_seq_bounds[OF log_seq_expand[OF kwf_drop[OF assms(1)]] assms(3)] assms(2)
  by (simp add: hd_drop_conv_nth)

lemma filter_fill_less: "filter (\<lambda>y. lg_index y < a) (fill x n) = fill x (min a n)"
  by (simp add: fill_def filter_map comp_def filter_upt_less)

lemma filter_fill_ge:
  assumes "lg_index x < a" "a < n"
  shows "filter (\<lambda>y. a \<le> lg_index y) (fill x n) = LogId (lg_leader x) a # fill (LogId (lg_leader x) a) n"
proof -
  have "[max a (Suc (lg_index x))..<n] = a # [Suc a..<n]"
    using assms by (simp add: max_absorb1 upt_rec[of a n])
  then show ?thesis by (simp add: fill_def filter_map comp_def filter_upt_ge)
qed

lemma lil_truncate_from_expand:
  assumes wf: "kwf ks" and i: "i < length ks" "\<And>j. j < i \<Longrightarrow> lg_index (ks ! j) < at" "at \<le> lg_index (ks ! i)"
  shows "\<exists>ks'. lil_truncate_from at i ks = Some ks' \<and> kwf ks'
    \<and> expand ks' = filter (\<lambda>x. lg_index x < at) (expand ks)"
proof (cases "i = 0")
  case True
  then have "filter (\<lambda>x. lg_index x < at) (expand ks) = []"
    using expand_drop_bound[OF wf i(1)] i(3) by (fastforce simp: filter_empty_conv)
  then show ?thesis using True by (simp add: lil_truncate_from_def)
next
  case False
  let ?k = "ks ! (i - 1)" and ?t = "take i ks"
  have k: "lg_index ?k < at" using i False by simp
  have t: "?t \<noteq> []" "last ?t = ?k" using i(1) False by (auto simp: last_take)
  have "filter (\<lambda>x. lg_index x < at) (expand ?t) = expand ?t"
    using expand_take_bound[OF wf, of i] i(1) k False by (force simp: filter_id_conv)
  moreover have "filter (\<lambda>x. lg_index x < at) (expand (drop i ks)) = []"
    using expand_drop_bound[OF wf i(1)] i(3) by (fastforce simp: filter_empty_conv)
  ultimately have f: "filter (\<lambda>x. lg_index x < at) (expand ks) = expand ?t @ fill ?k at"
    using expand_split[of i ks] i(1,3) False by (simp add: filter_fill_less min_def)
  show ?thesis
  proof (cases "lg_index ?k < at - 1")
    case True
    then obtain ks' where "lil_append ?t (LogId (lg_leader ?k) (at - 1)) = Some ks'" "kwf ks'"
      "expand ks' = expand ?t @ fill ?k (at - 1) @ [LogId (lg_leader ?k) (at - 1)]"
      using lil_append_expand[OF kwf_take[OF wf] t(1), of "LogId (lg_leader ?k) (at - 1)"] t
      by (auto simp: log_id_less_iff)
    moreover have "fill ?k at = fill ?k (at - 1) @ [LogId (lg_leader ?k) (at - 1)]"
      using True by (cases at) (auto simp: fill_def)
    ultimately show ?thesis
      using True t k f by (auto simp: lil_truncate_from_def last_opt_def sub_panics_def)
  next
    case False
    then have "fill ?k at = []" using k by simp
    then show ?thesis
      using False t k f kwf_take[OF wf]
      by (auto simp: lil_truncate_from_def last_opt_def sub_panics_def)
  qed
qed

lemma lil_truncate_expand:
  assumes wf: "kwf ks"
  shows "\<exists>ks'. lil_truncate at ks = Some ks' \<and> kwf ks'
    \<and> expand ks' = filter (\<lambda>x. lg_index x < at) (expand ks)"
proof (cases "bsearch lg_index at ks")
  case (Inr i)
  then show ?thesis
    using lil_truncate_from_expand[OF wf, of i at] bsearch_Inr[OF Inr] by (auto simp: lil_truncate_def)
next
  case (Inl i)
  note b = bsearch_Inl_le[OF Inl] bsearch_Inl_before[OF Inl] bsearch_Inl_at[OF Inl]
  show ?thesis
  proof (cases "i = length ks")
    case True
    have "filter (\<lambda>x. lg_index x < at) (expand ks) = expand ks"
    proof (cases "ks = []")
      case False
      then show ?thesis
        using expand_take_bound[OF wf, of "length ks"] b(2)[of "length ks - 1"] True
        by (force simp: filter_id_conv)
    qed simp
    then show ?thesis using Inl True wf by (simp add: lil_truncate_def)
  next
    case False
    then show ?thesis
      using lil_truncate_from_expand[OF wf, of i at] Inl b by (auto simp: lil_truncate_def)
  qed
qed

lemma lil_purge_expand:
  assumes wf: "kwf ks" and gt: "ks \<noteq> [] \<Longrightarrow> lg_index (last ks) < lg_index up \<Longrightarrow> last ks < up"
  shows "\<exists>ks'. lil_purge up ks = Some ks' \<and> kwf ks' \<and> expand ks' =
    (if next_index (last_opt ks) \<le> lg_index up then [up]
     else filter (\<lambda>x. lg_index up \<le> lg_index x) (expand ks))"
proof (cases "next_index (last_opt ks) \<le> lg_index up")
  case True
  then have "Some up > last_opt ks" using gt by (auto simp: last_opt_def)
  then show ?thesis using True by (simp add: lil_purge_def bind_ensure_True)
next
  case False
  then have ne: "ks \<noteq> []" and le: "lg_index up \<le> lg_index (last ks)"
    by (auto simp: last_opt_def split: if_splits)
  have pos: "0 < length ks" using ne by simp
  show ?thesis
  proof (cases "lg_index up < lg_index (ks ! 0)")
    case True
    have "filter (\<lambda>x. lg_index up \<le> lg_index x) (expand ks) = expand ks"
      using True expand_drop_bound[OF wf pos] by (force simp: filter_id_conv)
    then show ?thesis using False True ne wf by (simp add: lil_purge_def nth_panics_def)
  next
    case above: False
    show ?thesis
    proof (cases "bsearch lg_index (lg_index up) ks")
      case (Inr i)
      note b = bsearch_Inr[OF Inr]
      have "filter (\<lambda>x. lg_index up \<le> lg_index x) (expand ks) = expand (drop i ks)"
      proof (cases "i = 0")
        case False
        have "filter (\<lambda>x. lg_index up \<le> lg_index x) (expand (take i ks)) = []"
        proof -
          have "lg_index (ks ! (i - 1)) < lg_index up" using b False by simp
          then show ?thesis
            using expand_take_bound[OF wf, of i] b False by (fastforce simp: filter_empty_conv)
        qed
        moreover have "filter (\<lambda>x. lg_index up \<le> lg_index x) (fill (ks ! (i - 1)) (lg_index (ks ! i))) = []"
          using b by (auto simp: filter_empty_conv set_fill)
        moreover have "filter (\<lambda>x. lg_index up \<le> lg_index x) (expand (drop i ks)) = expand (drop i ks)"
          using expand_drop_bound[OF wf, of i] b by (auto simp: filter_id_conv)
        ultimately show ?thesis using expand_split[of i ks] b False by simp
      next
        case True
        then show ?thesis using expand_drop_bound[OF wf pos] b by (auto simp: filter_id_conv)
      qed
      then show ?thesis
        using False above ne wf kwf_drop[OF wf, of i] Inr by (auto simp: lil_purge_def nth_panics_def)
    next
      case (Inl i)
      note b = bsearch_Inl_le[OF Inl] bsearch_Inl_before[OF Inl] bsearch_Inl_at[OF Inl]
      have i0: "0 < i" using b(3) above pos by (cases i) auto
      have il: "i < length ks"
        using b(1) b(2)[of "length ks - 1"] le pos by (cases "i = length ks") (auto simp: last_conv_nth)
      let ?k = "ks ! (i - 1)" and ?d = "drop i ks"
      let ?k' = "LogId (lg_leader ?k) (lg_index up)"
      have d: "drop (i - 1) ks = ?k # ?d" "?d \<noteq> []" "hd ?d = ks ! i"
        using i0 il by (auto simp: hd_drop_conv_nth) (metis Cons_nth_drop_Suc Suc_pred less_imp_diff_less)
      have "filter (\<lambda>x. lg_index up \<le> lg_index x) (expand (take i ks)) = []"
        using expand_take_bound[OF wf i0] il b(2)[of "i - 1"] i0 by (fastforce simp: filter_empty_conv)
      moreover have "filter (\<lambda>x. lg_index up \<le> lg_index x) (fill ?k (lg_index (ks ! i)))
          = ?k' # fill ?k' (lg_index (ks ! i))"
        using b(2)[of "i - 1"] b(3) il i0 by (intro filter_fill_ge) auto
      moreover have "filter (\<lambda>x. lg_index up \<le> lg_index x) (expand ?d) = expand ?d"
        using expand_drop_bound[OF wf il] b(3)[OF il] by (force simp: filter_id_conv)
      moreover have "expand (?k' # ?d) = ?k' # fill ?k' (lg_index (ks ! i)) @ expand ?d"
        using expand_append[of "[?k']" ?d] d by simp
      ultimately have "filter (\<lambda>x. lg_index up \<le> lg_index x) (expand ks) = expand (?k' # ?d)"
        using expand_split[OF i0 il] by simp
      moreover have "kwf (?k' # ?d)"
        using kwf_drop[OF wf, of "i - 1"] d b(3)[OF il] by (cases ?d) (auto simp: kwf_Cons2)
      ultimately show ?thesis
        using False above ne i0 il Inl d(1) by (simp add: lil_purge_def nth_panics_def sub_panics_def)
    qed
  qed
qed

lemma expand_between:
  assumes "Suc j < length ks" "lg_index (ks ! j) \<le> i" "i < lg_index (ks ! Suc j)"
  shows "LogId (lg_leader (ks ! j)) i \<in> set (expand ks)"
  using assms
proof (induction ks arbitrary: j rule: expand.induct)
  case (3 x y ks)
  show ?case
  proof (cases j)
    case 0
    then show ?thesis using 3(3,4) by (cases "i = lg_index x") (auto simp: set_fill)
  next
    case (Suc k)
    then show ?thesis using 3(1)[of k] 3(2-4) by auto
  qed
qed auto

lemma set_expand: "set ks \<subseteq> set (expand ks)"
  by (induction ks rule: expand.induct) auto

lemma lil_ref_at_expand:
  assumes wf: "kwf ks"
  shows "lil_ref_at ks i = List.find (\<lambda>x. lg_index x = i) (expand ks)"
proof (cases "bsearch lg_index i ks")
  case (Inr j)
  then have "ks ! j \<in> set (expand ks)" "lg_index (ks ! j) = i"
    using bsearch_Inr[OF Inr] set_expand[of ks] by auto
  then show ?thesis
    using find_index_Some[OF log_seq_expand[OF wf], of "ks ! j"] Inr
    by (auto simp: lil_ref_at_def intro: log_id_eqI)
next
  case (Inl j)
  note b = bsearch_Inl_le[OF Inl] bsearch_Inl_before[OF Inl] bsearch_Inl_at[OF Inl]
  show ?thesis
  proof (cases "j = 0 \<or> j = length ks")
    case True
    have "x \<in> set (expand ks) \<Longrightarrow> lg_index x \<noteq> i" for x
      using True b(3) expand_drop_bound[OF wf, of 0 x] expand_take_bound[OF wf, of "length ks" x]
        b(2)[of "length ks - 1"] by (cases "ks = []") (auto simp: not_le)
    then have "List.find (\<lambda>x. lg_index x = i) (expand ks) = None" by (auto simp: find_None_iff)
    then show ?thesis using True Inl by (auto simp: lil_ref_at_def)
  next
    case False
    then have "LogId (lg_leader (ks ! (j - 1))) i \<in> set (expand ks)"
      using expand_between[of "j - 1" ks i] b(1,3) b(2)[of "j - 1"] by auto
    from find_index_Some[OF log_seq_expand[OF wf] this] False Inl
    show ?thesis by (simp add: lil_ref_at_def)
  qed
qed

section \<open>Extending by many log ids\<close>

text \<open>
  While \<open>lil_extend\<close> runs, the key list lags behind the log by the entries \<open>pend\<close> of the last
  leader; the next append fills the gap.
\<close>

lemma log_seq_appendD: "log_seq (xs @ ys) \<Longrightarrow> log_seq xs \<and> log_seq ys"
  by (auto simp: log_seq_def successively_append_iff)

lemma log_seq_last_less:
  assumes "log_seq (xs @ pend @ [x])" "xs \<noteq> []"
  shows "lg_index (last xs) < lg_index x" "lg_leader (last xs) \<le> lg_leader x" "last xs < x"
proof -
  have "log_seq (pend @ [x])" and h: "lg_index (hd (pend @ [x])) = Suc (lg_index (last xs))"
    "lg_leader (last xs) \<le> lg_leader (hd (pend @ [x]))"
    using assms by (auto simp: log_seq_append)
  with log_seq_bounds[of "pend @ [x]" x]
  show *: "lg_index (last xs) < lg_index x" "lg_leader (last xs) \<le> lg_leader x" by auto
  then show "last xs < x" by (auto simp: log_id_less_iff)
qed

lemma pending_fill:
  assumes "log_seq (xs @ pend @ [x])" "xs \<noteq> []" "\<forall>y \<in> set pend. lg_leader y = lg_leader (last xs)"
  shows "pend = fill (last xs) (lg_index x)"
  using assms
proof (induction pend arbitrary: x rule: rev_induct)
  case Nil
  then show ?case using log_seq_append[of xs "[x]"] by (simp add: fill_def)
next
  case (snoc y pend)
  have "log_seq ((xs @ pend @ [y]) @ [x])" using snoc.prems by simp
  then have ls: "log_seq (xs @ pend @ [y])" and ix: "lg_index x = Suc (lg_index y)"
    using snoc.prems(2) by (auto simp: log_seq_append simp del: append_assoc)
  have "pend = fill (last xs) (lg_index y)" using snoc.IH[OF ls] snoc.prems by auto
  moreover have "lg_index (last xs) < lg_index y"
    using log_seq_last_less(1)[OF ls snoc.prems(2)] .
  moreover have "lg_leader y = lg_leader (last xs)" using snoc.prems(3) by simp
  ultimately show ?case using ix by (auto simp: fill_def intro: log_id_eqI)
qed

lemma lil_append_pending:
  assumes "kwf ks" "log_seq (expand ks @ pend @ [x])" "ks = [] \<Longrightarrow> pend = []"
    "\<forall>y \<in> set pend. lg_leader y = lg_leader (last ks)"
  shows "\<exists>ks'. lil_append ks x = Some ks' \<and> kwf ks' \<and> expand ks' = expand ks @ pend @ [x]"
proof (cases "ks = []")
  case True
  then show ?thesis using assms(3) by (simp add: lil_append_def)
next
  case False
  then show ?thesis
    using lil_append_expand[OF assms(1) False, of x] log_seq_last_less[OF assms(2)]
      pending_fill[OF assms(2)] assms(4) by simp
qed

lemma lil_extend_pending:
  assumes "kwf ks" "log_seq (expand ks @ pend @ ids)" "ks = [] \<Longrightarrow> pend = []"
    "\<forall>y \<in> set pend. lg_leader y = lg_leader (last ks)" "ids = [] \<Longrightarrow> pend = []"
  shows "\<exists>ks'. lil_extend ids ks = Some ks' \<and> kwf ks' \<and> expand ks' = expand ks @ pend @ ids"
  using assms
proof (induction ids arbitrary: ks pend)
  case (Cons x rest)
  have ls: "log_seq (expand ks @ pend @ [x])"
    using Cons.prems(2) log_seq_appendD[of "expand ks @ pend @ [x]" rest] by simp
  show ?case
  proof (cases "lil_last_leader ks \<noteq> Some (lg_leader x)")
    case True
    from lil_append_pending[OF Cons.prems(1) ls Cons.prems(3,4)] obtain ks1 where
      ks1: "lil_append ks x = Some ks1" "kwf ks1" "expand ks1 = expand ks @ pend @ [x]" by blast
    then have l1: "lil_last ks1 = Some x"
      by (metis append_is_Nil_conv expand_Nil_iff last_append last_expand last_snoc lil_last_def
          last_opt_def not_Cons_self2)
    from Cons.IH[of ks1 "[]"] ks1 Cons.prems(2) show ?thesis using True l1 by auto
  next
    case same: False
    then have ne: "ks \<noteq> []" and l: "lg_leader x = lg_leader (last ks)"
      by (auto simp: lil_last_leader_def lil_last_def last_opt_def split: if_splits)
    show ?thesis
    proof (cases "rest = []")
      case True
      have "lil_last ks \<noteq> Some x"
        using log_seq_last_less(3)[OF ls] ne by (auto simp: lil_last_def last_opt_def)
      then show ?thesis
        using lil_append_pending[OF Cons.prems(1) ls Cons.prems(3,4)] True same by auto
    next
      case False
      then show ?thesis
        using Cons.IH[of ks "pend @ [x]"] Cons.prems ne l same by auto
    qed
  qed
qed simp

lemma lil_extend_expand:
  assumes "kwf ks" "log_seq (expand ks @ ids)"
  shows "\<exists>ks'. lil_extend ids ks = Some ks' \<and> kwf ks' \<and> expand ks' = expand ks @ ids"
  using lil_extend_pending[of ks "[]" ids] assms by simp

lemma lil_extend_from_same_leader_expand:
  assumes "kwf ks" "log_seq (expand ks @ ids)" "\<forall>x \<in> set ids. lg_leader x = l"
  shows "\<exists>ks'. lil_extend_from_same_leader ids ks = Some ks' \<and> kwf ks' \<and> expand ks' = expand ks @ ids"
proof (cases ids)
  case (Cons first rest)
  have ls: "log_seq (expand ks @ [] @ [first])"
    using assms(2) Cons log_seq_appendD[of "expand ks @ [first]" rest] by simp
  from lil_append_pending[OF assms(1) ls] obtain ks1 where
    ks1: "lil_append ks first = Some ks1" "kwf ks1" "expand ks1 = expand ks @ [first]" by auto
  then have ne: "ks1 \<noteq> []" and l1: "last ks1 = first" by (auto, metis last_expand last_snoc)
  show ?thesis
  proof (cases rest rule: rev_cases)
    case Nil
    then show ?thesis using ks1 Cons by (simp add: lil_extend_from_same_leader_def)
  next
    case (snoc mid la)
    have ls2: "log_seq (expand ks1 @ mid @ [la])" using assms(2) Cons snoc ks1(3) by simp
    have "la \<noteq> first" using log_seq_last_less(3)[OF ls2] ne l1 by auto
    moreover have "\<forall>y \<in> set mid. lg_leader y = lg_leader (last ks1)" "lg_leader la = lg_leader first"
      using assms(3) Cons snoc l1 by auto
    ultimately show ?thesis
      using lil_append_pending[OF ks1(2) ls2] ne ks1 Cons snoc
      by (auto simp: lil_extend_from_same_leader_def bind_ensure_True)
  qed
qed (use assms in \<open>simp add: lil_extend_from_same_leader_def\<close>)

section \<open>The key list is the canonical summary of the log\<close>

lemma firsts_after_append:
  "firsts_after l (xs @ ys) = firsts_after l xs @ firsts_after (if xs = [] then l else lg_leader (last xs)) ys"
  by (induction xs arbitrary: l) auto

lemma firsts_after_fill [simp]: "firsts_after (lg_leader x) (fill x n) = []"
proof -
  have "\<forall>y \<in> set ys. lg_leader y = l \<Longrightarrow> firsts_after l ys = []" for l and ys :: "log_id list"
    by (induction ys) auto
  then show ?thesis by (simp add: set_fill)
qed

lemma leader_last_fill: "fill x n \<noteq> [] \<Longrightarrow> lg_leader (last (fill x n)) = lg_leader x"
  by (auto simp: fill_def last_map)

lemma firsts_after_expand:
  "kwf (k # ks) \<Longrightarrow> firsts_after (lg_leader k) (tl (expand (k # ks))) =
     (if ks \<noteq> [] \<and> lg_leader (last (k # butlast ks)) = lg_leader (last ks) then butlast ks else ks)"
proof (induction ks arbitrary: k)
  case (Cons y ks)
  have tl: "expand (y # ks) = y # tl (expand (y # ks))" by (cases ks) auto
  have "firsts_after (lg_leader k) (tl (expand (k # y # ks))) = firsts_after (lg_leader k) (expand (y # ks))"
    using leader_last_fill[of k "lg_index y"] by (auto simp: firsts_after_append)
  also have "\<dots> = (if lg_leader y \<noteq> lg_leader k then [y] else []) @ firsts_after (lg_leader y) (tl (expand (y # ks)))"
    by (subst tl) simp
  finally show ?case using Cons by (cases ks) (auto simp: kwf_Cons2)
qed simp

text \<open>The key list is determined by the log: it is the compressed form of its expansion.\<close>

lemma compress_expand:
  assumes "kwf ks"
  shows "compress (expand ks) = ks"
proof (cases ks)
  case (Cons k ks')
  have e: "expand ks = k # tl (expand (k # ks'))" using Cons by (cases ks') auto
  have l: "last (k # tl (expand (k # ks'))) = last ks" using e last_expand[of ks] by simp
  have f: "firsts_after (lg_leader k) (tl (expand (k # ks'))) =
     (if ks' \<noteq> [] \<and> lg_leader (last (k # butlast ks')) = lg_leader (last ks') then butlast ks' else ks')"
    using firsts_after_expand[of k ks'] assms Cons by simp
  have ne: "ks' \<noteq> [] \<Longrightarrow> last (k # butlast ks') \<noteq> last ks'"
  proof -
    assume "ks' \<noteq> []"
    then have "kwf ((k # butlast ks') @ [last ks'])" using assms Cons by simp
    then have "lg_index (last (k # butlast ks')) < lg_index (last ks')"
      using kwf_snoc[of "k # butlast ks'" "last ks'"] by simp
    then show ?thesis by auto
  qed
  show ?thesis
    unfolding e compress.simps f Let_def l using Cons ne by auto
qed simp

lemma lil_last_expand: "lil_last ks = last_opt (expand ks)"
  by (simp add: lil_last_def last_opt_def)

lemma lil_first_expand: "lil_first ks = first_opt (expand ks)"
  by (cases ks rule: expand.cases) (auto simp: lil_first_def)

section \<open>The logs of the last leader\<close>

lemma leader_constant_between:
  assumes "log_seq xs" "lg_leader (hd xs) = lg_leader (last xs)" "y \<in> set xs"
  shows "lg_leader y = lg_leader (hd xs)"
  using log_seq_bounds[OF assms(1,3)] assms(2) by (intro antisym) auto

lemma kwf_last_two:
  assumes "kwf (pre @ [p, q])"
  shows "lg_index p < lg_index q" "lg_leader p \<le> lg_leader q"
    "pre \<noteq> [] \<Longrightarrow> lg_leader (last pre) < lg_leader p"
  using assms by (auto simp: kwf_def successively_append_iff butlast_append split: if_splits)

lemma lil_by_last_leader_expand:
  assumes wf: "kwf ks" and ne: "ks \<noteq> []"
  shows "lil_by_last_leader ks = LeaderLogIds (Some
    (hd (filter (\<lambda>x. lg_leader x = lg_leader (last ks)) (expand ks)), last ks))"
proof (cases ks rule: rev_cases)
  case (snoc pre q)
  show ?thesis
  proof (cases pre rule: rev_cases)
    case Nil
    then show ?thesis using snoc by (simp add: lil_by_last_leader_def lil_last_def)
  next
    case (snoc pre' p)
    then have ks: "ks = pre' @ [p, q]" using \<open>ks = pre @ [q]\<close> by simp
    note k = kwf_last_two[OF wf[unfolded ks]]
    have wf': "kwf (pre' @ [p])" using kwf_take[OF wf, of "length pre' + 1"] by (simp add: ks)
    have low: "lg_leader x < lg_leader p" if "x \<in> set (expand pre') \<union> set (fill (last pre') (lg_index p))" "pre' \<noteq> []" for x
    proof (cases "x \<in> set (expand pre')")
      case True
      have "kwf pre'" using kwf_take[OF wf, of "length pre'"] by (simp add: ks)
      from log_seq_bounds[OF log_seq_expand[OF this] True] k(3) that(2) show ?thesis by auto
    qed (use that k(3) in \<open>auto simp: set_fill\<close>)
    show ?thesis
    proof (cases "lg_leader p = lg_leader q")
      case True
      have "filter (\<lambda>x. lg_leader x = lg_leader q) (expand pre') = []"
        "pre' \<noteq> [] \<Longrightarrow> filter (\<lambda>x. lg_leader x = lg_leader q) (fill (last pre') (lg_index p)) = []"
        using low True by (fastforce simp: filter_empty_conv)+
      then have "hd (filter (\<lambda>x. lg_leader x = lg_leader q) (expand ks)) = p"
        using expand_append[of pre' "[p, q]"] True by (cases "pre' = []") (auto simp: ks)
      then show ?thesis using True by (simp add: lil_by_last_leader_def ks nth_append)
    next
      case False
      then have "lg_leader p < lg_leader q" using k(2) by simp
      then have "x \<in> set (expand (pre' @ [p])) \<union> set (fill p (lg_index q)) \<Longrightarrow> lg_leader x \<noteq> lg_leader q" for x
        using log_seq_bounds[OF log_seq_expand[OF wf'], of x] by (auto simp: set_fill)
      then have "filter (\<lambda>x. lg_leader x = lg_leader q) (expand (pre' @ [p]) @ fill p (lg_index q)) = []"
        by (auto simp: filter_empty_conv)
      then have "hd (filter (\<lambda>x. lg_leader x = lg_leader q) (expand ks)) = q"
        using expand_append[of "pre' @ [p]" "[q]"] by (simp add: ks)
      then show ?thesis using False by (simp add: lil_by_last_leader_def ks nth_append)
    qed
  qed
qed (use ne in simp)

section \<open>The bisection finds the key log ids\<close>

lemma firsts_after_same: "\<forall>y \<in> set ys. lg_leader y = l \<Longrightarrow> firsts_after l ys = []"
  by (induction ys) auto

lemma last_leader_firsts:
  "ys \<noteq> [] \<Longrightarrow> lg_leader (last ys) = l \<Longrightarrow>
     lg_leader (last (ys @ firsts_after l t)) = (if t = [] then l else lg_leader (last t))"
proof (induction t arbitrary: ys l)
  case (Cons x t)
  then show ?case using Cons.IH[of "ys @ [x]" "lg_leader x"] by auto
qed simp

lemma push_if_new_leader:
  "opt_leader (last_opt res) \<le> Some (lg_leader x) \<Longrightarrow>
     push_if_new x res \<noteq> [] \<and> lg_leader (last (push_if_new x res)) = lg_leader x"
  by (auto simp: push_if_new_def last_opt_def split: if_splits)

lemma push_if_new_again:
  "ys \<noteq> [] \<Longrightarrow> lg_leader (last ys) = lg_leader x \<Longrightarrow> push_if_new x ys = ys"
  by (simp add: push_if_new_def last_opt_def)

lemma gk_loop_segment:
  assumes "log_seq seg" "seg \<noteq> []" "\<forall>x \<in> set seg. rd (lg_index x) = Inr x"
    "opt_leader (last_opt res) \<le> Some (lg_leader (hd seg))"
  shows "gk_loop rd ((hd seg, last seg) # stack, res) =
    gk_loop rd (stack, push_if_new (hd seg) res @ firsts_after (lg_leader (hd seg)) (tl seg))"
  using assms
proof (induction "length seg" arbitrary: seg res stack rule: less_induct)
  case less
  let ?f = "hd seg" and ?l = "last seg"
  let ?res = "push_if_new ?f res"
  note step = gk_loop.simps[of rd "((?f, ?l) # stack, res)"]
  have fl: "lg_index ?l = lg_index ?f + length seg - 1"
    using log_seq_length less.prems by blast
  show ?case
  proof (cases "lg_leader ?f = lg_leader ?l")
    case True
    have "\<forall>y \<in> set (tl seg). lg_leader y = lg_leader ?f"
      using leader_constant_between[OF less.prems(1) True] by (meson list.set_sel(2) less.prems(2))
    then show ?thesis using True step by (simp add: gk_step_def firsts_after_same)
  next
    case AC: False
    then have len: "2 \<le> length seg" using less.prems(2) by (cases seg; cases "tl seg") auto
    show ?thesis
    proof (cases "lg_index ?f + 1 = lg_index ?l")
      case True
      then have "length seg = 2" using fl len by simp
      then obtain a b where "seg = [a, b]" by (auto simp: numeral_2_eq_2 length_Suc_conv)
      then show ?thesis using AC True step by (auto simp: gk_step_def)
    next
      case False
      define m where "m = (lg_index ?f + lg_index ?l) div 2 - lg_index ?f"
      define mid where "mid = seg ! m"
      have m: "0 < m" "Suc m < length seg" using fl len False by (auto simp: m_def)
      let ?A = "take m seg" and ?B = "drop (Suc m) seg"
      have seg: "seg = ?A @ mid # ?B" using m by (simp add: mid_def id_take_nth_drop)
      have ne: "?A \<noteq> []" "?B \<noteq> []" "hd ?A = ?f" "last ?B = ?l" using m less.prems(2) by auto
      have s1: "log_seq (?A @ [mid])" and s2: "log_seq (mid # ?B)"
        using less.prems(1) log_seq_appendD[of "?A @ [mid]" ?B] log_seq_appendD[of ?A "mid # ?B"] seg by auto
      have "lg_index mid = lg_index ?f + m"
        using log_seq_length[OF s1] m ne by simp
      then have rd: "rd ((lg_index ?f + lg_index ?l) div 2) = Inr mid"
        using less.prems(3) seg m_def fl by (metis (no_types, lifting) add_diff_cancel_left' in_set_conv_decomp
            le_add_diff_inverse less_or_eq_imp_le m(1) nat_less_le zero_less_diff)
      have r1: "\<forall>x \<in> set (?A @ [mid]). rd (lg_index x) = Inr x"
        and r2: "\<forall>x \<in> set (mid # ?B). rd (lg_index x) = Inr x"
        using less.prems(3) m by (auto simp: mid_def dest: in_set_takeD in_set_dropD)
      have l1: "length (?A @ [mid]) < length seg" and l2: "length (mid # ?B) < length seg"
        using m by auto
      note IH1 = less.hyps[OF l1 s1 _ r1] and IH2 = less.hyps[OF l2 s2 _ r2]
      have tl: "tl seg = tl ?A @ mid # ?B" using seg ne by (metis tl_append2)
      have p: "?res \<noteq> []" "lg_leader (last ?res) = lg_leader ?f"
        using push_if_new_leader[OF less.prems(4)] by auto
      let ?r1 = "?res @ firsts_after (lg_leader ?f) (tl ?A @ [mid])"
      have q: "?r1 \<noteq> []" "lg_leader (last ?r1) = lg_leader mid"
        using p last_leader_firsts[OF p, of "tl ?A @ [mid]"] by auto
      have goal: "?res @ firsts_after (lg_leader ?f) (tl seg) = ?r1 @ firsts_after (lg_leader mid) ?B"
        using firsts_after_append[of "lg_leader ?f" "tl ?A @ [mid]" ?B] unfolding tl by simp
      have q2: "opt_leader (last_opt ?r1) \<le> Some (lg_leader mid)"
        using q by (simp add: last_opt_def)
      show ?thesis
      proof (cases "lg_leader ?f = lg_leader mid")
        case True
        then have "firsts_after (lg_leader ?f) (tl ?A @ [mid]) = []"
          using leader_constant_between[OF s1] ne
          by (intro firsts_after_same) (metis append_Cons hd_append2 last_snoc list.set_sel(2) snoc_eq_iff_butlast tl_append2)
        note fa = this
        have "gk_loop rd ((?f, ?l) # stack, res) = gk_loop rd ((mid, ?l) # stack, ?res)"
          using step AC False rd True by (simp add: gk_step_def)
        also have "\<dots> = gk_loop rd (stack, push_if_new mid ?res @ firsts_after (lg_leader mid) ?B)"
          using IH2[of ?res stack] p True ne by (simp add: last_opt_def)
        also have "push_if_new mid ?res = ?res" using p True by (simp add: push_if_new_again)
        finally show ?thesis using goal fa True by simp
      next
        case AB: False
        show ?thesis
        proof (cases "lg_leader mid = lg_leader ?l")
          case True
          then have "firsts_after (lg_leader mid) ?B = []"
            using leader_constant_between[OF s2] ne
            by (intro firsts_after_same) (metis last_ConsR list.sel(1) list.set_intros(2))
          then show ?thesis
            using step IH1[of res stack] AC AB False rd True goal ne less.prems(4)
            by (simp add: gk_step_def)
        next
          case BC: False
          then show ?thesis
            using step IH1[of res "(mid, ?l) # stack"] IH2[of ?r1 stack] AC AB False rd goal ne less.prems(4) q q2
            by (simp add: gk_step_def push_if_new_again)
        qed
      qed
    qed
  qed
qed

lemma gk_loop_done: "gk_loop rd ([], res) = Some (Inr res)"
  by (simp add: gk_loop.simps)

lemma get_key_log_ids_segment:
  assumes "log_seq xs" "xs \<noteq> []" "\<forall>x \<in> set xs. rd (lg_index x) = Inr x"
  shows "get_key_log_ids rd (hd xs) (last xs) = Some (Inr (compress xs))"
proof (cases xs)
  case (Cons x t)
  have "gk_loop rd ([(hd xs, last xs)], []) = gk_loop rd ([], push_if_new (hd xs) [] @ firsts_after (lg_leader (hd xs)) (tl xs))"
    using gk_loop_segment[OF assms(1,2,3), of "[]" "[]"] by simp
  then show ?thesis
    by (simp add: get_key_log_ids_def gk_loop_done Cons push_if_new_def last_opt_def Let_def)
qed (use assms in simp)

text \<open>
  C26. Loading the summary of the log from the storage terminates and finds the canonical key log
  ids: if the storage returns the log ids of a stretch of the log, the bisection returns
  the compressed form of the stretch, whatever the leader changes in it are.
\<close>

theorem get_key_log_ids_compress:
  assumes "log_seq xs" "xs \<noteq> []" "\<forall>x \<in> set xs. rd (lg_index x) = Inr x"
  shows "get_key_log_ids rd (hd xs) (last xs) = Some (Inr (compress xs))"
  by (rule get_key_log_ids_segment[OF assms])

theorem get_key_log_ids_compress_witness:
  "get_key_log_ids (\<lambda>i. if i < 3 then Inr ([LogId (LeaderId 1 1) 0, LogId (LeaderId 2 1) 1, LogId (LeaderId 2 1) 2] ! i) else Inl ())
     (LogId (LeaderId 1 1) 0) (LogId (LeaderId 2 1) 2)
   = Some (Inr [LogId (LeaderId 1 1) 0, LogId (LeaderId 2 1) 1, LogId (LeaderId 2 1) 2])"
  using get_key_log_ids_compress[of "[LogId (LeaderId 1 1) 0, LogId (LeaderId 2 1) 1, LogId (LeaderId 2 1) 2]"
      "\<lambda>i. if i < 3 then Inr ([LogId (LeaderId 1 1) 0, LogId (LeaderId 2 1) 1, LogId (LeaderId 2 1) 2] ! i) else Inl ()"]
  by (simp add: log_seq_def leader_id_less_iff less_imp_le)

end
