(* ===== verification/IOState.thy ===== *)
theory IOState
imports LogId
begin

text \<open>
  \<^verbatim>\<open>openraft/src/raft_state/io_state\<close>: the three cursors of an I/O (accepted, submitted, flushed),
  the monotonic ids of the I/O operations, and the record \<^verbatim>\<open>IOState\<close> with the rule that decides
  which committed log is safe to apply. The name and the id the cursors carry for logging are
  left out; \<^verbatim>\<open>Valid\<close>, which checks an invariant on every access, is the predicate it checks.
\<close>

section \<open>Cursors\<close>

record 't io_progress =
  io_accepted :: "'t option"
  io_submitted :: "'t option"
  io_flushed :: "'t option"

definition io_validate :: "'t::linorder io_progress \<Rightarrow> bool" where
  "io_validate p \<longleftrightarrow> io_flushed p \<le> io_submitted p \<and> io_submitted p \<le> io_accepted p"

definition io_new_synchronized :: "'t option \<Rightarrow> 't io_progress" where
  "io_new_synchronized v = \<lparr>io_accepted = v, io_submitted = v, io_flushed = v\<rparr>"

definition io_accept :: "'t::linorder \<Rightarrow> 't io_progress \<Rightarrow> 't io_progress panics" where
  "io_accept x p = do { ensure (io_accepted p \<le> Some x); Some (p\<lparr>io_accepted := Some x\<rparr>) }"

definition io_submit :: "'t::linorder \<Rightarrow> 't io_progress \<Rightarrow> 't io_progress panics" where
  "io_submit x p = do { ensure (io_submitted p \<le> Some x); Some (p\<lparr>io_submitted := Some x\<rparr>) }"

definition io_flush :: "'t::linorder \<Rightarrow> 't io_progress \<Rightarrow> 't io_progress panics" where
  "io_flush x p = do { ensure (io_flushed p \<le> Some x); Some (p\<lparr>io_flushed := Some x\<rparr>) }"

definition io_try_accept :: "'t::linorder \<Rightarrow> 't io_progress \<Rightarrow> 't io_progress panics" where
  "io_try_accept x p = (if io_accepted p < Some x then io_accept x p else Some p)"

definition io_try_submit :: "'t::linorder \<Rightarrow> 't io_progress \<Rightarrow> 't io_progress panics" where
  "io_try_submit x p = (if io_submitted p < Some x then io_submit x p else Some p)"

definition io_try_flush :: "'t::linorder \<Rightarrow> 't io_progress \<Rightarrow> 't io_progress panics" where
  "io_try_flush x p = (if io_flushed p < Some x then io_flush x p else Some p)"

definition io_try_update_all :: "'t::linorder \<Rightarrow> 't io_progress \<Rightarrow> 't io_progress panics" where
  "io_try_update_all x p = do {
     p1 \<leftarrow> (if io_accepted p < Some x then io_accept x p else Some p);
     p2 \<leftarrow> (if io_submitted p1 < Some x then io_submit x p1 else Some p1);
     (if io_flushed p2 < Some x then io_flush x p2 else Some p2) }"

text \<open>\<^verbatim>\<open>MonotonicIncrease\<close> is the optional value it holds; \<open>Inl\<close> is the rejected update.\<close>

definition mono_try_update_option :: "'t::linorder option \<Rightarrow> 't option \<Rightarrow> ('t option + 't option) \<times> 't option" where
  "mono_try_update_option new cur = (if new > cur then (Inr cur, new) else (Inl cur, cur))"

definition mono_try_update :: "'t::linorder \<Rightarrow> 't option \<Rightarrow> ('t option + 't option) \<times> 't option" where
  "mono_try_update new cur = mono_try_update_option (Some new) cur"

lemmas io_defs = io_accept_def io_submit_def io_flush_def io_validate_def

lemma io_new_valid [simp]: "io_validate (io_new_synchronized v)"
  by (simp add: io_validate_def io_new_synchronized_def)

lemma io_accept_valid: "io_validate p \<Longrightarrow> io_accept x p = Some p' \<Longrightarrow> io_validate p' \<and> io_accepted p \<le> io_accepted p'"
  by (auto simp: io_defs intro: order_trans)

lemma io_submit_valid:
  "io_validate p \<Longrightarrow> io_submit x p = Some p' \<Longrightarrow> Some x \<le> io_accepted p \<Longrightarrow> io_validate p'"
  by (auto simp: io_defs intro: order_trans)

lemma io_flush_valid:
  "io_validate p \<Longrightarrow> io_flush x p = Some p' \<Longrightarrow> Some x \<le> io_submitted p \<Longrightarrow> io_validate p'"
  by (auto simp: io_defs intro: order_trans)

text \<open>Updating all cursors moves each of them up to the value, never down, and never panics.\<close>

lemma io_try_update_all_max:
  "io_try_update_all x p = Some \<lparr>io_accepted = max (io_accepted p) (Some x),
     io_submitted = max (io_submitted p) (Some x), io_flushed = max (io_flushed p) (Some x)\<rparr>"
  by (cases p) (auto simp: io_try_update_all_def io_defs max_def not_le not_less less_imp_le ensure_def
      intro: antisym)

lemma io_try_update_all_valid: "io_validate p \<Longrightarrow> io_try_update_all x p = Some p' \<Longrightarrow> io_validate p'"
  by (auto simp: io_try_update_all_max io_validate_def le_max_iff_disj)

lemma mono_try_update_max: "snd (mono_try_update x cur) = max cur (Some x)"
  by (auto simp: mono_try_update_def mono_try_update_option_def max_def not_less intro: antisym)

section \<open>Ids of I/O operations\<close>

datatype log_io_id = LogIOId (lio_committed_vote: committed_vote) (lio_log_id: "log_id option")

instantiation log_io_id :: linorder
begin
definition less_eq_log_io_id :: "log_io_id \<Rightarrow> log_io_id \<Rightarrow> bool" where
  "less_eq_log_io_id a b = ((lio_committed_vote a, lio_log_id a) \<le> (lio_committed_vote b, lio_log_id b))"
definition less_log_io_id :: "log_io_id \<Rightarrow> log_io_id \<Rightarrow> bool" where
  "less_log_io_id a b = ((lio_committed_vote a, lio_log_id a) < (lio_committed_vote b, lio_log_id b))"
instance
  by standard (auto simp: less_eq_log_io_id_def less_log_io_id_def intro: log_io_id.expand)
end

lemma log_io_id_le_iff:
  "a \<le> b \<longleftrightarrow> lio_committed_vote a < lio_committed_vote b
     \<or> lio_committed_vote a = lio_committed_vote b \<and> lio_log_id a \<le> lio_log_id b"
  by (auto simp: less_eq_log_io_id_def)

datatype io_id = IOVote uncommitted_vote | IOLog log_io_id

fun io_id_vote :: "io_id \<Rightarrow> raft_vote" where
  "io_id_vote (IOVote u) = uv_into_vote u"
| "io_id_vote (IOLog l) = cv_into_vote (lio_committed_vote l)"

fun io_id_last_log_id :: "io_id \<Rightarrow> log_id option" where
  "io_id_last_log_id (IOVote u) = None"
| "io_id_last_log_id (IOLog l) = lio_log_id l"

fun io_id_to_committed_vote :: "io_id \<Rightarrow> committed_vote option" where
  "io_id_to_committed_vote (IOVote u) = None"
| "io_id_to_committed_vote (IOLog l) = Some (lio_committed_vote l)"

definition io_id_new_vote_io :: "uncommitted_vote \<Rightarrow> io_id" where
  "io_id_new_vote_io u = IOVote u"

definition io_id_new_log_io :: "committed_vote \<Rightarrow> log_id option \<Rightarrow> io_id" where
  "io_id_new_log_io c l = IOLog (LogIOId c l)"

definition io_id_new :: "raft_vote \<Rightarrow> io_id" where
  "io_id_new v = (if vote_committed v then io_id_new_log_io (vote_into_committed v) None
     else io_id_new_vote_io (vote_into_non_committed v))"

definition io_id_to_vote_and_log_id :: "io_id \<Rightarrow> raft_vote \<times> log_id option" where
  "io_id_to_vote_and_log_id i = (io_id_vote i, io_id_last_log_id i)"

text \<open>\<^verbatim>\<open>PartialOrd for IOId\<close>: the votes first, then the last log ids.\<close>

definition io_id_partial_cmp :: "io_id \<Rightarrow> io_id \<Rightarrow> ordering option panics" where
  "io_id_partial_cmp a b = do {
     res \<leftarrow> ref_vote_partial_cmp leader_id_compare_adv (io_id_vote a) (io_id_vote b);
     Some (case res of
       None \<Rightarrow> None
     | Some Less \<Rightarrow> Some Less
     | Some Greater \<Rightarrow> Some Greater
     | Some Equal \<Rightarrow> Some (cmp (io_id_last_log_id a) (io_id_last_log_id b))) }"

lemma io_id_key_inj:
  "io_id_vote a = io_id_vote b \<Longrightarrow> io_id_last_log_id a = io_id_last_log_id b \<Longrightarrow> a = b"
  by (cases a; cases b) (auto simp: vote_conv_defs intro: uncommitted_vote.expand log_io_id.expand committed_vote.expand)

instantiation io_id :: linorder
begin
definition less_eq_io_id :: "io_id \<Rightarrow> io_id \<Rightarrow> bool" where
  "less_eq_io_id a b = ((io_id_vote a, io_id_last_log_id a) \<le> (io_id_vote b, io_id_last_log_id b))"
definition less_io_id :: "io_id \<Rightarrow> io_id \<Rightarrow> bool" where
  "less_io_id a b = ((io_id_vote a, io_id_last_log_id a) < (io_id_vote b, io_id_last_log_id b))"
instance
  by standard (auto simp: less_eq_io_id_def less_io_id_def intro: io_id_key_inj)
end

lemma io_id_partial_cmp_cmp: "io_id_partial_cmp a b = Some (Some (cmp a b))"
  by (auto simp: io_id_partial_cmp_def ref_vote_cmp_adv cmp_def less_io_id_def dest: io_id_key_inj
      split: ordering.splits)

lemma io_id_vote_mono: "a \<le> b \<Longrightarrow> io_id_vote a \<le> io_id_vote b"
  by (auto simp: less_eq_io_id_def)

section \<open>The I/O state\<close>

record io_state =
  ios_building_snapshot :: bool
  ios_log_progress :: "io_id io_progress"
  ios_apply_progress :: "log_id io_progress"
  ios_snapshot :: "log_id io_progress"
  ios_cluster_committed :: "log_io_id option"
  ios_purged :: "log_id option"

definition ios_default :: io_state where
  "ios_default = \<lparr>ios_building_snapshot = False, ios_log_progress = io_new_synchronized None,
     ios_apply_progress = io_new_synchronized None, ios_snapshot = io_new_synchronized None,
     ios_cluster_committed = None, ios_purged = None\<rparr>"

definition ios_new :: "raft_vote \<Rightarrow> log_id option \<Rightarrow> log_id option \<Rightarrow> log_id option \<Rightarrow> io_state" where
  "ios_new v applied snap purged = \<lparr>ios_building_snapshot = False,
     ios_log_progress = io_new_synchronized (Some (io_id_new v)),
     ios_apply_progress = io_new_synchronized applied, ios_snapshot = io_new_synchronized snap,
     ios_cluster_committed = None, ios_purged = purged\<rparr>"

definition ios_validate :: "io_state \<Rightarrow> bool" where
  "ios_validate s \<longleftrightarrow> io_validate (ios_log_progress s) \<and> io_validate (ios_apply_progress s)
     \<and> io_validate (ios_snapshot s)
     \<and> io_submitted (ios_snapshot s) \<le> io_submitted (ios_apply_progress s)
     \<and> ios_purged s \<le> io_flushed (ios_snapshot s)"

definition ios_applied :: "io_state \<Rightarrow> log_id option" where
  "ios_applied s = io_flushed (ios_apply_progress s)"

definition ios_snapshot_log_id :: "io_state \<Rightarrow> log_id option" where
  "ios_snapshot_log_id s = io_flushed (ios_snapshot s)"

definition ios_set_building_snapshot :: "bool \<Rightarrow> io_state \<Rightarrow> io_state" where
  "ios_set_building_snapshot b s = s\<lparr>ios_building_snapshot := b\<rparr>"

definition ios_update_purged :: "log_id option \<Rightarrow> io_state \<Rightarrow> io_state" where
  "ios_update_purged l s = s\<lparr>ios_purged := l\<rparr>"

definition ios_calculate_local_committed :: "io_state \<Rightarrow> log_id option" where
  "ios_calculate_local_committed s = do {
     cc \<leftarrow> ios_cluster_committed s;
     accepted \<leftarrow> io_accepted (ios_log_progress s);
     accepted_vote \<leftarrow> io_id_to_committed_vote accepted;
     (if accepted_vote \<ge> lio_committed_vote cc
      then min (io_id_last_log_id accepted) (lio_log_id cc)
      else None) }"

text \<open>
  What is applied locally is committed by the cluster and accepted into the local log, under a
  leader not older than the one that committed it.
\<close>

lemma local_committed_bounds:
  assumes "ios_calculate_local_committed s = Some l"
  shows "\<exists>cc a. ios_cluster_committed s = Some cc \<and> io_accepted (ios_log_progress s) = Some (IOLog a)
    \<and> lio_committed_vote cc \<le> lio_committed_vote a
    \<and> Some l \<le> lio_log_id cc \<and> Some l \<le> lio_log_id a"
  using assms
  by (auto simp: ios_calculate_local_committed_def bind_eq_Some_conv split: if_splits elim!: io_id_to_committed_vote.elims)
    (metis min.cobounded1 min.cobounded2)+

end
