(* ===== verification/OrderedMap.thy ===== *)
theory OrderedMap
imports Prelude
begin

text \<open>
  The ordered collections of the Rust standard library the program uses. A \<^verbatim>\<open>BTreeMap\<close> is its
  sequence of entries in key order, a strictly key-sorted association list; a \<^verbatim>\<open>BTreeSet\<close> is the
  strictly sorted list of its elements. The locale \<open>ordered_map\<close> states what the clients (the
  membership nodes, the key-value state machine, the log store) rely on, and it is interpreted
  on the association lists.
\<close>

type_synonym ('k, 'v) bt_map = "('k \<times> 'v) list"

definition bt_wf :: "('k::linorder, 'v) bt_map \<Rightarrow> bool" where
  "bt_wf m = sorted_wrt (<) (map fst m)"

fun bt_get :: "('k::linorder, 'v) bt_map \<Rightarrow> 'k \<Rightarrow> 'v option" where
  "bt_get [] k = None"
| "bt_get ((k', v) # m) k = (if k = k' then Some v else bt_get m k)"

fun bt_insert :: "'k::linorder \<Rightarrow> 'v \<Rightarrow> ('k, 'v) bt_map \<Rightarrow> ('k, 'v) bt_map" where
  "bt_insert k v [] = [(k, v)]"
| "bt_insert k v ((k', v') # m) =
     (if k < k' then (k, v) # (k', v') # m
      else if k = k' then (k, v) # m
      else (k', v') # bt_insert k v m)"

fun bt_remove :: "'k::linorder \<Rightarrow> ('k, 'v) bt_map \<Rightarrow> ('k, 'v) bt_map" where
  "bt_remove k [] = []"
| "bt_remove k ((k', v') # m) = (if k = k' then m else (k', v') # bt_remove k m)"

definition bt_keys :: "('k::linorder, 'v) bt_map \<Rightarrow> 'k list" where
  "bt_keys m = map fst m"

definition bt_contains :: "('k::linorder, 'v) bt_map \<Rightarrow> 'k \<Rightarrow> bool" where
  "bt_contains m k = (bt_get m k \<noteq> None)"

text \<open>\<^verbatim>\<open>collect\<close> of a sequence of entries into a \<^verbatim>\<open>BTreeMap\<close>: later entries replace earlier ones.\<close>

definition bt_from_list :: "('k::linorder \<times> 'v) list \<Rightarrow> ('k, 'v) bt_map" where
  "bt_from_list kvs = fold (\<lambda>(k, v) m. bt_insert k v m) kvs []"

definition bt_retain :: "('k \<Rightarrow> 'v \<Rightarrow> bool) \<Rightarrow> ('k::linorder, 'v) bt_map \<Rightarrow> ('k, 'v) bt_map" where
  "bt_retain f m = filter (\<lambda>(k, v). f k v) m"

lemma bt_wf_Nil [simp]: "bt_wf []"
  by (simp add: bt_wf_def)

lemma bt_wf_Cons: "bt_wf ((k, v) # m) \<longleftrightarrow> (\<forall>k' \<in> fst ` set m. k < k') \<and> bt_wf m"
  by (auto simp: bt_wf_def)

lemma bt_get_None_iff: "bt_get m k = None \<longleftrightarrow> k \<notin> fst ` set m"
  by (induction m k rule: bt_get.induct) auto

lemma bt_get_in: "bt_get m k = Some v \<Longrightarrow> (k, v) \<in> set m"
  by (induction m k rule: bt_get.induct) (auto split: if_splits)

lemma bt_contains_iff [simp]: "bt_contains m k \<longleftrightarrow> k \<in> set (bt_keys m)"
  using bt_get_None_iff[of m k] by (auto simp: bt_contains_def bt_keys_def)

lemma fst_bt_insert [simp]: "fst ` set (bt_insert k v m) = insert k (fst ` set m)"
  by (induction k v m rule: bt_insert.induct) auto

lemma set_bt_remove_subset: "set (bt_remove k m) \<subseteq> set m"
  by (induction k m rule: bt_remove.induct) auto

lemma bt_insert_wf: "bt_wf m \<Longrightarrow> bt_wf (bt_insert k v m)"
  by (induction k v m rule: bt_insert.induct) (auto simp: bt_wf_Cons)

lemma bt_remove_wf: "bt_wf m \<Longrightarrow> bt_wf (bt_remove k m)"
proof (induction k m rule: bt_remove.induct)
  case (2 k k1 v1 m)
  have "fst ` set (bt_remove k m) \<subseteq> fst ` set m" using set_bt_remove_subset[of k m] by blast
  then have "\<forall>x \<in> set (bt_remove k m). fst x \<in> fst ` set m" by blast
  with 2 show ?case by (fastforce simp: bt_wf_Cons)
qed simp

lemma bt_get_insert: "bt_get (bt_insert k v m) k' = (if k' = k then Some v else bt_get m k')"
  by (induction k v m rule: bt_insert.induct) auto

lemma bt_get_remove: "bt_wf m \<Longrightarrow> bt_get (bt_remove k m) k' = (if k' = k then None else bt_get m k')"
proof (induction k m rule: bt_remove.induct)
  case (2 k k1 v1 m)
  then show ?case
    using bt_get_None_iff[of m k] by (auto simp: bt_wf_Cons)
qed simp

lemma bt_retain_wf: "bt_wf m \<Longrightarrow> bt_wf (bt_retain f m)"
  unfolding bt_wf_def bt_retain_def
  by (induction m) auto

lemma bt_get_retain:
  "bt_wf m \<Longrightarrow> bt_get (bt_retain f m) k = (case bt_get m k of None \<Rightarrow> None | Some v \<Rightarrow> if f k v then Some v else None)"
proof (induction m k rule: bt_get.induct)
  case (2 k' v m k)
  have "fst ` set (bt_retain f m) \<subseteq> fst ` set m" by (auto simp: bt_retain_def)
  with 2 show ?case
    using bt_get_None_iff[of m k] bt_get_None_iff[of "bt_retain f m" k]
    by (cases "k = k'") (auto simp: bt_retain_def bt_wf_Cons split: option.splits)
qed (simp add: bt_retain_def)

lemma bt_wf_keys: "bt_wf m \<Longrightarrow> sorted (bt_keys m) \<and> distinct (bt_keys m)"
  by (simp add: bt_wf_def bt_keys_def strict_sorted_iff)

text \<open>Two ordered maps with the same lookups are equal: the list is the canonical form of the map.\<close>

lemma bt_get_eq_map_of: "bt_get m = map_of m"
  by (rule ext, induct m) (auto simp: fun_upd_def split: if_splits)

lemma bt_ext:
  assumes "bt_wf m" "bt_wf n" "\<And>k. bt_get m k = bt_get n k"
  shows "m = n"
proof -
  have "map_of m = map_of n" using assms(3) by (auto simp: bt_get_eq_map_of[symmetric])
  moreover have "distinct (map fst m)" "sorted (map fst m)" "distinct (map fst n)" "sorted (map fst n)"
    using assms(1,2) by (auto simp: bt_wf_def strict_sorted_iff)
  moreover from calculation have "set m = set n"
    by (metis map_of_inject_set)
  moreover have "inj_on fst (set m \<union> set n)"
    using calculation by (simp add: distinct_map)
  ultimately show ?thesis
    using map_sorted_distinct_set_unique[of fst m n] by blast
qed

section \<open>The interface\<close>

locale ordered_map =
  fixes empty :: "'m"
    and get :: "'m \<Rightarrow> 'k::linorder \<Rightarrow> 'v option"
    and insert :: "'k \<Rightarrow> 'v \<Rightarrow> 'm \<Rightarrow> 'm"
    and remove :: "'k \<Rightarrow> 'm \<Rightarrow> 'm"
    and keys :: "'m \<Rightarrow> 'k list"
    and wf :: "'m \<Rightarrow> bool"
  assumes wf_empty: "wf empty"
    and get_empty: "get empty k = None"
    and wf_insert: "wf m \<Longrightarrow> wf (insert k v m)"
    and get_insert: "wf m \<Longrightarrow> get (insert k v m) k' = (if k' = k then Some v else get m k')"
    and wf_remove: "wf m \<Longrightarrow> wf (remove k m)"
    and get_remove: "wf m \<Longrightarrow> get (remove k m) k' = (if k' = k then None else get m k')"
    and keys_sorted: "wf m \<Longrightarrow> sorted_wrt (<) (keys m)"
    and keys_get: "wf m \<Longrightarrow> k \<in> set (keys m) \<longleftrightarrow> get m k \<noteq> None"
    and extensional: "wf m \<Longrightarrow> wf n \<Longrightarrow> (\<And>k. get m k = get n k) \<Longrightarrow> m = n"
begin

lemma insert_shadow: "wf m \<Longrightarrow> insert k v (insert k w m) = insert k v m"
  by (rule extensional) (auto simp: wf_insert get_insert)

lemma insert_commute:
  "wf m \<Longrightarrow> k \<noteq> l \<Longrightarrow> insert k v (insert l w m) = insert l w (insert k v m)"
  by (rule extensional) (auto simp: wf_insert get_insert)

lemma insert_same: "wf m \<Longrightarrow> get m k = Some v \<Longrightarrow> insert k v m = m"
  by (rule extensional) (auto simp: wf_insert get_insert)

lemma remove_insert: "wf m \<Longrightarrow> remove k (insert k v m) = remove k m"
  by (rule extensional) (auto simp: wf_insert get_insert wf_remove get_remove)

lemma remove_absent: "wf m \<Longrightarrow> get m k = None \<Longrightarrow> remove k m = m"
  by (rule extensional) (auto simp: wf_remove get_remove)

lemma wf_insert_all: "wf m \<Longrightarrow> wf (fold (\<lambda>(k, v) m. insert k v m) kvs m)"
  by (induction kvs arbitrary: m) (auto simp: wf_insert)

lemma get_insert_all:
  "wf m \<Longrightarrow> get (fold (\<lambda>(k, v) m. insert k v m) kvs m) k =
     (case map_of (rev kvs) k of None \<Rightarrow> get m k | Some v \<Rightarrow> Some v)"
proof (induction kvs arbitrary: m)
  case (Cons kv kvs)
  then show ?case
    by (cases kv) (auto simp: wf_insert get_insert map_add_def split: option.splits)
qed simp

end

lemma bt_keys_sorted: "bt_wf m \<Longrightarrow> sorted_wrt (<) (bt_keys m)"
  by (simp add: bt_wf_def bt_keys_def)

lemma in_bt_keys_iff: "k \<in> set (bt_keys m) \<longleftrightarrow> bt_get m k \<noteq> None"
  using bt_get_None_iff[of m k] by (auto simp: bt_keys_def)

interpretation bt: ordered_map "[]" bt_get bt_insert bt_remove bt_keys bt_wf
  by unfold_locales
    (use bt_ext in \<open>auto simp: bt_insert_wf bt_get_insert bt_remove_wf bt_get_remove bt_keys_sorted
      in_bt_keys_iff\<close>)

lemma bt_from_list_wf: "bt_wf (bt_from_list kvs)"
  unfolding bt_from_list_def by (rule bt.wf_insert_all) simp

lemma bt_get_from_list: "bt_get (bt_from_list kvs) k = map_of (rev kvs) k"
  unfolding bt_from_list_def by (subst bt.get_insert_all) (auto split: option.splits)

end
