(* ===== verification/Quorum.thy ===== *)
theory Quorum
imports OrderedMap
begin

text \<open>
  \<^verbatim>\<open>openraft/src/quorum\<close>: majority quorums of one config and joint quorums of several configs,
  coherence of quorum sets, and the intermediate quorum set of a membership change. The locale
  \<open>quorum_set\<close> is the trait \<^verbatim>\<open>QuorumSet\<close> with the laws its clients (the progress of a
  leader, the votes of a candidate) rely on; \<open>coherent_quorum_set\<close> adds the trait
  \<^verbatim>\<open>Coherent\<close>. Both are interpreted on the majority and on the joint quorum sets.
\<close>

section \<open>Ordered sets of ids\<close>

text \<open>\<^verbatim>\<open>BTreeSet\<close>: the strictly sorted list of its elements.\<close>

type_synonym bt_set = "nat list"

definition bs_wf :: "bt_set \<Rightarrow> bool" where
  "bs_wf s = sorted_wrt (<) s"

definition bs_of :: "nat list \<Rightarrow> bt_set" where
  "bs_of xs = sort (remdups xs)"

definition bs_union :: "bt_set \<Rightarrow> bt_set \<Rightarrow> bt_set" where
  "bs_union a b = bs_of (a @ b)"

definition bs_diff :: "bt_set \<Rightarrow> bt_set \<Rightarrow> bt_set" where
  "bs_diff a b = filter (\<lambda>x. x \<notin> set b) a"

lemma bs_of_wf [simp]: "bs_wf (bs_of xs)"
  by (simp add: bs_wf_def bs_of_def strict_sorted_iff)

lemma set_bs_of [simp]: "set (bs_of xs) = set xs"
  by (simp add: bs_of_def)

lemma bs_union_wf [simp]: "bs_wf (bs_union a b)"
  by (simp add: bs_union_def)

lemma set_bs_union [simp]: "set (bs_union a b) = set a \<union> set b"
  by (simp add: bs_union_def)

lemma bs_diff_wf: "bs_wf a \<Longrightarrow> bs_wf (bs_diff a b)"
  by (simp add: bs_wf_def bs_diff_def sorted_wrt_filter)

lemma set_bs_diff [simp]: "set (bs_diff a b) = set a - set b"
  by (auto simp: bs_diff_def)

lemma bs_wf_distinct: "bs_wf a \<Longrightarrow> distinct a"
  by (simp add: bs_wf_def strict_sorted_iff)

lemma bs_wf_filter: "bs_wf a \<Longrightarrow> bs_wf (filter P a)"
  by (simp add: bs_wf_def sorted_wrt_filter)

lemma bs_ext: "bs_wf a \<Longrightarrow> bs_wf b \<Longrightarrow> set a = set b \<Longrightarrow> a = b"
  by (simp add: bs_wf_def strict_sorted_equal)

section \<open>Majority and joint quorum sets\<close>

fun majority_count :: "nat list \<Rightarrow> nat \<Rightarrow> nat list \<Rightarrow> bool" where
  "majority_count c count [] = False"
| "majority_count c count (i # ids) =
     (if i \<in> set c
      then (if count + 2 > length c then True else majority_count c (count + 2) ids)
      else majority_count c count ids)"

definition majority_is_quorum :: "nat list \<Rightarrow> nat list \<Rightarrow> bool" where
  "majority_is_quorum c ids = majority_count c 0 ids"

definition majority_ids :: "nat list \<Rightarrow> bt_set" where
  "majority_ids c = bs_of c"

type_synonym joint = "nat list list"

fun joint_is_quorum :: "joint \<Rightarrow> nat list \<Rightarrow> bool" where
  "joint_is_quorum [] ids = True"
| "joint_is_quorum (c # cs) ids = (if \<not> majority_is_quorum c ids then False else joint_is_quorum cs ids)"

definition joint_ids :: "joint \<Rightarrow> bt_set" where
  "joint_ids cs = bs_of (concat (map majority_ids cs))"

section \<open>Coherence\<close>

definition joint_is_coherent_with :: "joint \<Rightarrow> joint \<Rightarrow> bool" where
  "joint_is_coherent_with a b = list_ex (\<lambda>x. list_ex (\<lambda>y. x = y) b) a"

definition joint_is_coherent_with_uniform :: "joint \<Rightarrow> nat list \<Rightarrow> bool" where
  "joint_is_coherent_with_uniform a c = list_ex (\<lambda>x. x = c) a"

definition find_coherent :: "joint \<Rightarrow> nat list \<Rightarrow> joint" where
  "find_coherent cs other =
     (if joint_is_coherent_with_uniform cs other then [other]
      else case last_opt cs of Some l \<Rightarrow> [l, other] | None \<Rightarrow> [other])"

section \<open>The interface\<close>

locale quorum_set =
  fixes is_quorum :: "'q \<Rightarrow> nat list \<Rightarrow> bool"
    and ids :: "'q \<Rightarrow> nat list"
  assumes ids_sorted: "bs_wf (ids q)"
    and quorum_mono: "distinct a \<Longrightarrow> set a \<subseteq> set b \<Longrightarrow> is_quorum q a \<Longrightarrow> is_quorum q b"
    and quorum_members: "is_quorum q (filter (\<lambda>i. i \<in> set (ids q)) a) = is_quorum q a"
begin

text \<open>The ids in \<open>xs\<close> whose value is at least \<open>t\<close> are a quorum: \<open>t\<close> is granted.\<close>

definition granted_by :: "'q \<Rightarrow> (nat \<Rightarrow> 'v::linorder) \<Rightarrow> nat list \<Rightarrow> 'v \<Rightarrow> bool" where
  "granted_by q f xs t = is_quorum q (filter (\<lambda>i. f i \<ge> t) xs)"

lemma quorum_cong: "distinct a \<Longrightarrow> distinct b \<Longrightarrow> set a = set b \<Longrightarrow> is_quorum q a = is_quorum q b"
  using quorum_mono[of a b q] quorum_mono[of b a q] by auto

lemma granted_by_antimono:
  "distinct xs \<Longrightarrow> s \<le> t \<Longrightarrow> granted_by q f xs t \<Longrightarrow> granted_by q f xs s"
  unfolding granted_by_def
  using quorum_mono[of "filter (\<lambda>i. t \<le> f i) xs" "filter (\<lambda>i. s \<le> f i) xs" q]
  by (auto intro: order_trans)

lemma granted_by_mono:
  "distinct xs \<Longrightarrow> (\<And>i. i \<in> set xs \<Longrightarrow> f i \<le> g i) \<Longrightarrow> granted_by q f xs t \<Longrightarrow> granted_by q g xs t"
  unfolding granted_by_def
  using quorum_mono[of "filter (\<lambda>i. t \<le> f i) xs" "filter (\<lambda>i. t \<le> g i) xs" q]
  by (auto intro: order_trans)

end

locale coherent_quorum_set = quorum_set is_quorum ids
  for is_quorum :: "'q \<Rightarrow> nat list \<Rightarrow> bool" and ids :: "'q \<Rightarrow> nat list" +
  fixes wf :: "'q \<Rightarrow> bool"
    and coherent :: "'q \<Rightarrow> 'q \<Rightarrow> bool"
  assumes coherent_refl: "wf q \<Longrightarrow> coherent q q"
    and coherent_sym: "coherent q r \<Longrightarrow> coherent r q"
    and coherent_intersect: "wf q \<Longrightarrow> wf r \<Longrightarrow> coherent q r \<Longrightarrow> distinct a \<Longrightarrow> distinct b
      \<Longrightarrow> is_quorum q a \<Longrightarrow> is_quorum r b \<Longrightarrow> set a \<inter> set b \<noteq> {}"
begin

lemma quorums_intersect:
  "wf q \<Longrightarrow> distinct a \<Longrightarrow> distinct b \<Longrightarrow> is_quorum q a \<Longrightarrow> is_quorum q b \<Longrightarrow> set a \<inter> set b \<noteq> {}"
  using coherent_intersect[OF _ _ coherent_refl] by blast

text \<open>
  Two coherent quorum sets cannot both grant when no id grants on both sides: the safety of an
  election and of a commit.
\<close>

lemma no_two_grants:
  assumes "wf q" "wf r" "coherent q r" "distinct a" "distinct b" "is_quorum q a" "is_quorum r b"
    and "\<And>i. i \<in> set a \<Longrightarrow> i \<in> set b \<Longrightarrow> False"
  shows False
  using coherent_intersect[OF assms(1-7)] assms(8) by auto

end

section \<open>The majority quorum set\<close>

lemma majority_count_iff:
  "count \<le> length c \<Longrightarrow> majority_count c count ids \<longleftrightarrow>
     length c < count + 2 * length (filter (\<lambda>i. i \<in> set c) ids)"
  by (induction c count ids rule: majority_count.induct) auto

lemma majority_is_quorum_iff:
  "majority_is_quorum c ids \<longleftrightarrow> length c < 2 * length (filter (\<lambda>i. i \<in> set c) ids)"
  by (simp add: majority_is_quorum_def majority_count_iff)

lemma majority_mono:
  assumes "distinct a" "set a \<subseteq> set b" "majority_is_quorum c a"
  shows "majority_is_quorum c b"
proof -
  have "length (filter (\<lambda>i. i \<in> set c) a) = card (set a \<inter> set c)"
    using assms(1) distinct_card[of "filter (\<lambda>i. i \<in> set c) a"] by (simp add: Int_def)
  also have "\<dots> \<le> card (set b \<inter> set c)" using assms(2) by (auto intro: card_mono)
  also have "\<dots> = card (set (filter (\<lambda>i. i \<in> set c) b))" by (simp add: Int_def)
  also have "\<dots> \<le> length (filter (\<lambda>i. i \<in> set c) b)" by (rule card_length)
  finally show ?thesis using assms(3) by (simp add: majority_is_quorum_iff)
qed

lemma majority_members:
  "set c \<subseteq> S \<Longrightarrow> majority_is_quorum c (filter (\<lambda>i. i \<in> S) a) = majority_is_quorum c a"
proof -
  assume "set c \<subseteq> S"
  then have "filter (\<lambda>i. i \<in> set c) (filter (\<lambda>i. i \<in> S) a) = filter (\<lambda>i. i \<in> set c) a"
    by (induction a) auto
  then show ?thesis by (simp only: majority_is_quorum_iff)
qed

lemma majority_intersect:
  assumes "distinct c" "distinct a" "distinct b" "majority_is_quorum c a" "majority_is_quorum c b"
  shows "set a \<inter> set b \<noteq> {}"
proof
  assume d: "set a \<inter> set b = {}"
  let ?A = "set a \<inter> set c" and ?B = "set b \<inter> set c"
  have "card ?A = length (filter (\<lambda>i. i \<in> set c) a)" "card ?B = length (filter (\<lambda>i. i \<in> set c) b)"
    using assms(2,3) distinct_card[of "filter (\<lambda>i. i \<in> set c) a"] distinct_card[of "filter (\<lambda>i. i \<in> set c) b"]
    by (simp_all add: Int_def)
  moreover have "card ?A + card ?B = card (?A \<union> ?B)" using d by (intro card_Un_disjoint[symmetric]) auto
  moreover have "card (?A \<union> ?B) \<le> card (set c)" by (intro card_mono) auto
  ultimately show False
    using assms(4,5) distinct_card[OF assms(1)] by (simp add: majority_is_quorum_iff)
qed

interpretation majority: coherent_quorum_set majority_is_quorum majority_ids distinct "(=)"
proof unfold_locales
  show "bs_wf (majority_ids q)" for q by (simp add: majority_ids_def)
  show "majority_is_quorum q (filter (\<lambda>i. i \<in> set (majority_ids q)) a) = majority_is_quorum q a" for q a
    by (rule majority_members) (simp add: majority_ids_def)
qed (auto intro: majority_mono dest: majority_intersect)

section \<open>The joint quorum set\<close>

lemma joint_is_quorum_iff: "joint_is_quorum cs ids \<longleftrightarrow> (\<forall>c \<in> set cs. majority_is_quorum c ids)"
  by (induction cs) auto

lemma set_joint_ids [simp]: "set (joint_ids cs) = (\<Union>c \<in> set cs. set c)"
  by (auto simp: joint_ids_def majority_ids_def)

definition joint_wf :: "joint \<Rightarrow> bool" where
  "joint_wf cs \<longleftrightarrow> cs \<noteq> [] \<and> (\<forall>c \<in> set cs. distinct c)"

lemma joint_is_coherent_with_iff: "joint_is_coherent_with a b \<longleftrightarrow> set a \<inter> set b \<noteq> {}"
  by (auto simp: joint_is_coherent_with_def list_ex_iff)

lemma joint_is_coherent_with_uniform_iff [simp]: "joint_is_coherent_with_uniform a c \<longleftrightarrow> c \<in> set a"
  by (auto simp: joint_is_coherent_with_uniform_def list_ex_iff)

interpretation joint: coherent_quorum_set joint_is_quorum joint_ids joint_wf joint_is_coherent_with
proof unfold_locales
  show "bs_wf (joint_ids q)" for q by (simp add: joint_ids_def)
  show "joint_is_quorum q b" if "distinct a" "set a \<subseteq> set b" "joint_is_quorum q a" for a b q
    using that majority_mono by (auto simp: joint_is_quorum_iff)
  show "joint_is_quorum q (filter (\<lambda>i. i \<in> set (joint_ids q)) a) = joint_is_quorum q a" for q a
    unfolding joint_is_quorum_iff by (intro ball_cong refl majority_members) auto
  show "joint_is_coherent_with q q" if "joint_wf q" for q
    using that by (auto simp: joint_is_coherent_with_iff joint_wf_def)
  show "joint_is_coherent_with r q" if "joint_is_coherent_with q r" for q r
    using that by (auto simp: joint_is_coherent_with_iff)
  show "set a \<inter> set b \<noteq> {}"
    if h: "joint_wf q" "joint_wf r" "joint_is_coherent_with q r" "distinct a" "distinct b"
      "joint_is_quorum q a" "joint_is_quorum r b" for q r a b
  proof -
    obtain c where "c \<in> set q" "c \<in> set r" using h(3) by (auto simp: joint_is_coherent_with_iff)
    then show ?thesis
      using h majority_intersect[of c a b] by (auto simp: joint_is_quorum_iff joint_wf_def)
  qed
qed

section \<open>The intermediate quorum set\<close>

lemma find_coherent_wf:
  "joint_wf cs \<Longrightarrow> distinct other \<Longrightarrow> joint_wf (find_coherent cs other)"
  by (auto simp: find_coherent_def joint_wf_def last_opt_def)

lemma find_coherent_coherent:
  "cs \<noteq> [] \<Longrightarrow> joint_is_coherent_with cs (find_coherent cs other)"
  by (auto simp: find_coherent_def joint_is_coherent_with_iff last_opt_def)

lemma find_coherent_last: "last_opt (find_coherent cs other) = Some other"
  by (auto simp: find_coherent_def split: option.splits)

lemma find_coherent_twice: "find_coherent (find_coherent cs other) other = [other]"
  by (auto simp: find_coherent_def split: option.splits)

end
