(* ===== verification/Membership.thy ===== *)
theory Membership
imports Quorum LogId
begin

text \<open>
  \<^verbatim>\<open>openraft/src/membership\<close>, \<^verbatim>\<open>change_members.rs\<close> and \<^verbatim>\<open>raft_state/membership_state\<close>: the
  membership config (a joint of voter sets and the nodes of voters and learners), the change of
  a membership, and the pair of the committed and the effective membership every node keeps.
\<close>

section \<open>Data\<close>

datatype basic_node = BasicNode (node_addr: string)

type_synonym nodes = "(nat, basic_node) bt_map"

record membership =
  configs :: "bt_set list"
  m_nodes :: nodes

definition membership_default :: membership where
  "membership_default = \<lparr>configs = [], m_nodes = []\<rparr>"

definition membership_from_nodes :: "nodes \<Rightarrow> membership" where
  "membership_from_nodes b = \<lparr>configs = [bt_keys b], m_nodes = b\<rparr>"

datatype change_members =
    AddVoterIds bt_set
  | AddVoters nodes
  | RemoveVoters bt_set
  | ReplaceAllVoters bt_set
  | AddNodes nodes
  | SetNodes nodes
  | RemoveNodes bt_set
  | ReplaceAllNodes nodes
  | Batch "change_members list"

datatype membership_error = EmptyMembership | NodeNotFound nat

datatype change_membership_error =
    InProgress (ip_committed: "log_id option") (ip_membership_log_id: "log_id option")
  | CMEmptyMembership
  | LearnerNotFound nat

fun membership_error_into :: "membership_error \<Rightarrow> change_membership_error" where
  "membership_error_into EmptyMembership = CMEmptyMembership"
| "membership_error_into (NodeNotFound i) = LearnerNotFound i"

section \<open>Queries\<close>

definition mem_voter_ids :: "membership \<Rightarrow> bt_set" where
  "mem_voter_ids m = joint_ids (configs m)"

fun is_voter_in :: "bt_set list \<Rightarrow> nat \<Rightarrow> bool" where
  "is_voter_in [] i = False"
| "is_voter_in (c # cs) i = (if i \<in> set c then True else is_voter_in cs i)"

definition mem_is_voter :: "membership \<Rightarrow> nat \<Rightarrow> bool" where
  "mem_is_voter m i = is_voter_in (configs m) i"

definition mem_learner_ids :: "membership \<Rightarrow> nat list" where
  "mem_learner_ids m = filter (\<lambda>i. \<not> mem_is_voter m i) (bt_keys (m_nodes m))"

definition mem_contains :: "membership \<Rightarrow> nat \<Rightarrow> bool" where
  "mem_contains m i = bt_contains (m_nodes m) i"

definition mem_get_node :: "membership \<Rightarrow> nat \<Rightarrow> basic_node option" where
  "mem_get_node m i = bt_get (m_nodes m) i"

definition mem_to_quorum_set :: "membership \<Rightarrow> joint" where
  "mem_to_quorum_set m = configs m"

section \<open>Validity\<close>

fun ensure_non_empty_config :: "bt_set list \<Rightarrow> membership_error + unit" where
  "ensure_non_empty_config [] = Inr ()"
| "ensure_non_empty_config (c # cs) = (if c = [] then Inl EmptyMembership else ensure_non_empty_config cs)"

fun ensure_voter_nodes :: "nodes \<Rightarrow> nat list \<Rightarrow> nat + unit" where
  "ensure_voter_nodes ns [] = Inr ()"
| "ensure_voter_nodes ns (i # is) = (if \<not> bt_contains ns i then Inl i else ensure_voter_nodes ns is)"

definition mem_ensure_valid :: "membership \<Rightarrow> membership_error + unit" where
  "mem_ensure_valid m =
     (case ensure_non_empty_config (configs m) of
        Inl e \<Rightarrow> Inl e
      | Inr _ \<Rightarrow>
          (case ensure_voter_nodes (m_nodes m) (mem_voter_ids m) of
             Inl i \<Rightarrow> Inl (NodeNotFound i)
           | Inr _ \<Rightarrow> Inr ()))"

definition mem_new_unchecked :: "bt_set list \<Rightarrow> nodes \<Rightarrow> membership" where
  "mem_new_unchecked cs ns = \<lparr>configs = cs, m_nodes = ns\<rparr>"

definition mem_new :: "bt_set list \<Rightarrow> nodes \<Rightarrow> membership_error + membership" where
  "mem_new cs ns =
     (let m = \<lparr>configs = cs, m_nodes = ns\<rparr> in
      case mem_ensure_valid m of Inl e \<Rightarrow> Inl e | Inr _ \<Rightarrow> Inr m)"

text \<open>Nodes present in \<open>old\<close> are not replaced.\<close>

fun extend_nodes :: "nodes \<Rightarrow> nodes \<Rightarrow> nodes" where
  "extend_nodes res [] = res"
| "extend_nodes res ((k, v) # new) =
     (if bt_contains res k then extend_nodes res new else extend_nodes (bt_insert k v res) new)"

definition mem_new_with_defaults :: "bt_set list \<Rightarrow> nat list \<Rightarrow> membership" where
  "mem_new_with_defaults cs ids =
     (let voter_nodes = bt_from_list (map (\<lambda>i. (i, BasicNode [])) (joint_ids cs));
          ns = extend_nodes (bt_from_list (map (\<lambda>i. (i, BasicNode [])) ids)) voter_nodes
      in \<lparr>configs = cs, m_nodes = ns\<rparr>)"

section \<open>Changing the membership\<close>

definition remove_all :: "nat list \<Rightarrow> nodes \<Rightarrow> nodes" where
  "remove_all is ns = fold bt_remove is ns"

definition set_all :: "nodes \<Rightarrow> nodes \<Rightarrow> nodes" where
  "set_all new ns = fold (\<lambda>(k, v) m. bt_insert k v m) new ns"

definition next_coherent :: "membership \<Rightarrow> bt_set \<Rightarrow> bool \<Rightarrow> membership" where
  "next_coherent m goal retain =
     (let config = find_coherent (configs m) goal;
          ns = (if \<not> retain
                then remove_all (bs_diff (joint_ids (configs m)) (joint_ids config)) (m_nodes m)
                else m_nodes m)
      in mem_new_unchecked config ns)"

text \<open>\<^verbatim>\<open>last().cloned().unwrap_or_default()\<close> of the joint config.\<close>

definition last_config :: "membership \<Rightarrow> bt_set" where
  "last_config m = (case last_opt (configs m) of Some c \<Rightarrow> c | None \<Rightarrow> [])"

fun compute_target_membership :: "change_members \<Rightarrow> membership \<Rightarrow> membership"
  and compute_target_batch :: "change_members list \<Rightarrow> membership \<Rightarrow> membership"
where
  "compute_target_membership (AddVoterIds ids) m = m\<lparr>configs := [bs_union (last_config m) ids]\<rparr>"
| "compute_target_membership (AddVoters ns) m =
     m\<lparr>m_nodes := extend_nodes (m_nodes m) ns, configs := [bs_union (last_config m) (bt_keys ns)]\<rparr>"
| "compute_target_membership (RemoveVoters ids) m = m\<lparr>configs := [bs_diff (last_config m) ids]\<rparr>"
| "compute_target_membership (ReplaceAllVoters ids) m = m\<lparr>configs := [ids]\<rparr>"
| "compute_target_membership (AddNodes ns) m = m\<lparr>m_nodes := extend_nodes (m_nodes m) ns\<rparr>"
| "compute_target_membership (SetNodes ns) m = m\<lparr>m_nodes := set_all ns (m_nodes m)\<rparr>"
| "compute_target_membership (RemoveNodes ids) m = m\<lparr>m_nodes := remove_all ids (m_nodes m)\<rparr>"
| "compute_target_membership (ReplaceAllNodes ns) m = m\<lparr>m_nodes := ns\<rparr>"
| "compute_target_membership (Batch cs) m = compute_target_batch cs m"
| "compute_target_batch [] m = m"
| "compute_target_batch (c # cs) m = compute_target_batch cs (compute_target_membership c m)"

text \<open>\<^verbatim>\<open>configs.pop().unwrap()\<close> panics when the target has no config at all.\<close>

definition mem_change ::
  "membership \<Rightarrow> change_members \<Rightarrow> bool \<Rightarrow> (change_membership_error + membership) panics" where
  "mem_change m change retain = do {
     let target = compute_target_membership change m;
     target_voter_ids \<leftarrow> last_opt (configs target);
     let new = next_coherent (m\<lparr>m_nodes := m_nodes target\<rparr>) target_voter_ids retain;
     Some (case mem_ensure_valid new of
             Inl e \<Rightarrow> Inl (membership_error_into e)
           | Inr _ \<Rightarrow> Inr new) }"

section \<open>Well-formed memberships\<close>

definition mem_wf :: "membership \<Rightarrow> bool" where
  "mem_wf m \<longleftrightarrow> bt_wf (m_nodes m) \<and> (\<forall>c \<in> set (configs m). bs_wf c)"

text \<open>A valid membership: no empty config, and a node for every voter.\<close>

definition mem_valid :: "membership \<Rightarrow> bool" where
  "mem_valid m \<longleftrightarrow> (\<forall>c \<in> set (configs m). c \<noteq> []) \<and> (\<forall>i \<in> set (mem_voter_ids m). mem_contains m i)"

fun change_wf :: "change_members \<Rightarrow> bool" where
  "change_wf (AddVoterIds ids) = bs_wf ids"
| "change_wf (AddVoters ns) = bt_wf ns"
| "change_wf (RemoveVoters ids) = bs_wf ids"
| "change_wf (ReplaceAllVoters ids) = bs_wf ids"
| "change_wf (AddNodes ns) = bt_wf ns"
| "change_wf (SetNodes ns) = bt_wf ns"
| "change_wf (RemoveNodes ids) = bs_wf ids"
| "change_wf (ReplaceAllNodes ns) = bt_wf ns"
| "change_wf (Batch cs) = list_all change_wf cs"

lemma set_mem_voter_ids: "set (mem_voter_ids m) = (\<Union>c \<in> set (configs m). set c)"
  by (simp add: mem_voter_ids_def)

lemma mem_is_voter_iff: "mem_is_voter m i \<longleftrightarrow> i \<in> set (mem_voter_ids m)"
proof -
  have "is_voter_in cs i \<longleftrightarrow> (\<exists>c \<in> set cs. i \<in> set c)" for cs by (induction cs) auto
  then show ?thesis by (simp add: mem_is_voter_def set_mem_voter_ids)
qed

lemma ensure_non_empty_config_iff: "ensure_non_empty_config cs = Inr () \<longleftrightarrow> (\<forall>c \<in> set cs. c \<noteq> [])"
  by (induction cs) auto

lemma ensure_voter_nodes_iff: "ensure_voter_nodes ns is = Inr () \<longleftrightarrow> (\<forall>i \<in> set is. bt_contains ns i)"
  by (induction ns "is" rule: ensure_voter_nodes.induct) auto

lemma mem_ensure_valid_iff: "mem_ensure_valid m = Inr () \<longleftrightarrow> mem_valid m"
  using ensure_non_empty_config_iff[of "configs m"] ensure_voter_nodes_iff[of "m_nodes m" "mem_voter_ids m"]
  by (auto simp: mem_ensure_valid_def mem_valid_def mem_contains_def split: sum.splits)

lemma extend_nodes_wf: "bt_wf res \<Longrightarrow> bt_wf (extend_nodes res new)"
  by (induction res new rule: extend_nodes.induct) (auto simp: bt_insert_wf)

lemma bt_get_extend_nodes:
  "bt_wf res \<Longrightarrow> bt_get (extend_nodes res new) k = (case bt_get res k of Some v \<Rightarrow> Some v | None \<Rightarrow> bt_get new k)"
  by (induction res new rule: extend_nodes.induct)
    (auto simp: bt_insert_wf bt_get_insert in_bt_keys_iff split: option.splits)

lemma remove_all_wf: "bt_wf ns \<Longrightarrow> bt_wf (remove_all is ns)"
  unfolding remove_all_def by (induction "is" arbitrary: ns) (auto simp: bt_remove_wf)

lemma bt_get_remove_all: "bt_wf ns \<Longrightarrow> bt_get (remove_all is ns) k = (if k \<in> set is then None else bt_get ns k)"
  unfolding remove_all_def
  by (induction "is" arbitrary: ns) (auto simp: bt_remove_wf bt_get_remove)

lemma set_all_wf: "bt_wf ns \<Longrightarrow> bt_wf (set_all new ns)"
  unfolding set_all_def by (rule bt.wf_insert_all)

lemma next_coherent_wf: "mem_wf m \<Longrightarrow> bs_wf goal \<Longrightarrow> mem_wf (next_coherent m goal retain)"
  by (auto simp: mem_wf_def next_coherent_def mem_new_unchecked_def Let_def remove_all_wf
      find_coherent_def last_opt_def)

lemma last_config_wf: "\<forall>c \<in> set (configs m). bs_wf c \<Longrightarrow> bs_wf (last_config m)"
  by (auto simp: last_config_def last_opt_def bs_wf_def)

lemma compute_target_wf:
  "change_wf c \<Longrightarrow> mem_wf m \<Longrightarrow> mem_wf (compute_target_membership c m)"
  "list_all change_wf cs \<Longrightarrow> mem_wf m \<Longrightarrow> mem_wf (compute_target_batch cs m)"
proof (induction c m and cs m rule: compute_target_membership_compute_target_batch.induct)
  case (3 ids m)
  then show ?case using last_config_wf[of m] by (simp add: mem_wf_def bs_diff_wf)
next
  case (9 cs m)
  then show ?case by simp
next
  case (10 m)
  then show ?case by simp
next
  case (11 c cs m)
  then show ?case by simp
qed (simp_all add: mem_wf_def extend_nodes_wf set_all_wf remove_all_wf)

lemma compute_target_configs:
  "configs m \<noteq> [] \<Longrightarrow> configs (compute_target_membership c m) \<noteq> []"
  "configs m \<noteq> [] \<Longrightarrow> configs (compute_target_batch cs m) \<noteq> []"
  by (induction c m and cs m rule: compute_target_membership_compute_target_batch.induct) auto

lemma mem_wf_joint: "mem_wf m \<Longrightarrow> configs m \<noteq> [] \<Longrightarrow> joint_wf (configs m)"
  by (auto simp: mem_wf_def joint_wf_def bs_wf_distinct)

section \<open>Safety of a membership change\<close>

lemma mem_change_cases:
  assumes "mem_wf m" "configs m \<noteq> []" "change_wf c"
  obtains goal where "last_opt (configs (compute_target_membership c m)) = Some goal" "bs_wf goal"
    "mem_wf (m\<lparr>m_nodes := m_nodes (compute_target_membership c m)\<rparr>)"
proof -
  have t: "mem_wf (compute_target_membership c m)" "configs (compute_target_membership c m) \<noteq> []"
    using compute_target_wf(1)[OF assms(3,1)] compute_target_configs(1)[OF assms(2)] by auto
  show thesis
    by (rule that[of "last (configs (compute_target_membership c m))"])
      (use t assms(1) in \<open>auto simp: last_opt_def mem_wf_def\<close>)
qed

text \<open>
  C20. A membership change never panics on a membership with a config, and a change that succeeds
  yields a well-formed membership in which no config is empty and every voter has a node, and
  whose quorums all intersect the quorums of the membership it replaces.
\<close>

theorem mem_change_safe:
  assumes "mem_wf m" "configs m \<noteq> []" "change_wf c"
  shows "\<exists>r. mem_change m c retain = Some r \<and>
    (\<forall>m'. r = Inr m' \<longrightarrow> mem_wf m' \<and> mem_valid m' \<and> configs m' \<noteq> [] \<and>
      (\<forall>a b. distinct a \<longrightarrow> distinct b \<longrightarrow> joint_is_quorum (mem_to_quorum_set m) a
         \<longrightarrow> joint_is_quorum (mem_to_quorum_set m') b \<longrightarrow> set a \<inter> set b \<noteq> {}))"
proof -
  from mem_change_cases[OF assms] obtain goal where
    g: "last_opt (configs (compute_target_membership c m)) = Some goal" "bs_wf goal" and
    w: "mem_wf (m\<lparr>m_nodes := m_nodes (compute_target_membership c m)\<rparr>)" .
  let ?m = "m\<lparr>m_nodes := m_nodes (compute_target_membership c m)\<rparr>"
  let ?n = "next_coherent ?m goal retain"
  have n: "mem_wf ?n" "configs ?n = find_coherent (configs m) goal"
    using next_coherent_wf[OF w g(2)] by (auto simp: next_coherent_def mem_new_unchecked_def Let_def)
  have j: "joint_wf (configs m)" "joint_wf (configs ?n)"
    using mem_wf_joint[OF assms(1,2)] find_coherent_wf[of "configs m" goal] g(2) n(2)
    by (auto simp: bs_wf_distinct)
  have "joint_is_coherent_with (configs m) (configs ?n)"
    using find_coherent_coherent[OF assms(2)] n(2) by simp
  note meet = joint.coherent_intersect[OF j this]
  have "mem_change m c retain = Some (case mem_ensure_valid ?n of
      Inl e \<Rightarrow> Inl (membership_error_into e) | Inr _ \<Rightarrow> Inr ?n)"
    using g(1) by (simp add: mem_change_def Let_def)
  then have *: "mem_change m c retain = Some r" if "r = (case mem_ensure_valid ?n of
      Inl e \<Rightarrow> Inl (membership_error_into e) | Inr _ \<Rightarrow> Inr ?n)" for r
    using that by simp
  show ?thesis
  proof (cases "mem_ensure_valid ?n")
    case (Inl e)
    with *[of "Inl (membership_error_into e)"] show ?thesis by simp
  next
    case (Inr u)
    then have "mem_valid ?n" using mem_ensure_valid_iff[of ?n] by simp
    moreover have "mem_change m c retain = Some (Inr ?n)" using *[of "Inr ?n"] Inr by simp
    ultimately show ?thesis
      using n(1) j(2) meet unfolding mem_to_quorum_set_def joint_wf_def
      by (intro exI[of _ "Inr ?n"]) blast
  qed
qed

theorem mem_change_safe_witness:
  "\<exists>r. mem_change \<lparr>configs = [[1, 2, 3]], m_nodes = [(1, BasicNode []), (2, BasicNode []), (3, BasicNode []), (4, BasicNode [])]\<rparr>
     (ReplaceAllVoters [2, 3, 4]) True = Some r"
  using mem_change_safe[of "\<lparr>configs = [[1, 2, 3]], m_nodes = [(1, BasicNode []), (2, BasicNode []), (3, BasicNode []), (4, BasicNode [])]\<rparr>"
      "ReplaceAllVoters [2, 3, 4]" True]
  by (auto simp: mem_wf_def bt_wf_def bs_wf_def)

text \<open>Two steps towards the same goal end in the uniform config of the goal.\<close>

lemma next_coherent_twice:
  "configs (next_coherent (next_coherent m goal r1) goal r2) = [goal]"
  by (simp add: next_coherent_def mem_new_unchecked_def Let_def find_coherent_twice)

lemma next_coherent_nodes:
  assumes "bt_wf (m_nodes m)"
  shows "mem_get_node (next_coherent m goal retain) i =
    (if \<not> retain \<and> mem_is_voter m i \<and> \<not> mem_is_voter (next_coherent m goal retain) i
     then None else mem_get_node m i)"
  using assms
  by (auto simp: next_coherent_def mem_new_unchecked_def Let_def mem_get_node_def mem_is_voter_iff
      set_mem_voter_ids bt_get_remove_all)

end
