(* ===== verification/MembershipState.thy ===== *)
theory MembershipState
imports Membership
begin

text \<open>
  \<^verbatim>\<open>membership/stored_membership.rs\<close>, \<^verbatim>\<open>membership/effective_membership.rs\<close> and
  \<^verbatim>\<open>raft_state/membership_state\<close>: a membership with the log id that set it, the effective
  membership with its cached quorum set and voters, and the pair of the committed and the
  effective membership every node keeps while logs are appended, committed and truncated.
\<close>

record stored_membership =
  sm_log_id :: "log_id option"
  sm_membership :: membership

definition stored_membership_default :: stored_membership where
  "stored_membership_default = \<lparr>sm_log_id = None, sm_membership = membership_default\<rparr>"

definition sm_voter_ids :: "stored_membership \<Rightarrow> bt_set" where
  "sm_voter_ids s = mem_voter_ids (sm_membership s)"

record effective_membership =
  em_stored :: stored_membership
  em_quorum_set :: joint
  em_voter_ids :: bt_set

definition em_new :: "log_id option \<Rightarrow> membership \<Rightarrow> effective_membership" where
  "em_new l m = \<lparr>em_stored = \<lparr>sm_log_id = l, sm_membership = m\<rparr>,
     em_quorum_set = configs m, em_voter_ids = mem_voter_ids m\<rparr>"

definition em_new_from_stored :: "stored_membership \<Rightarrow> effective_membership" where
  "em_new_from_stored s = em_new (sm_log_id s) (sm_membership s)"

definition em_default :: effective_membership where
  "em_default = \<lparr>em_stored = stored_membership_default, em_quorum_set = [], em_voter_ids = []\<rparr>"

definition em_log_id :: "effective_membership \<Rightarrow> log_id option" where
  "em_log_id e = sm_log_id (em_stored e)"

definition em_membership :: "effective_membership \<Rightarrow> membership" where
  "em_membership e = sm_membership (em_stored e)"

text \<open>\<^verbatim>\<open>PartialEq\<close> compares the stored membership and the voters, not the cached quorum set.\<close>

definition em_eq :: "effective_membership \<Rightarrow> effective_membership \<Rightarrow> bool" where
  "em_eq a b \<longleftrightarrow> em_stored a = em_stored b \<and> em_voter_ids a = em_voter_ids b"

definition em_is_voter :: "effective_membership \<Rightarrow> nat \<Rightarrow> bool" where
  "em_is_voter e i = mem_is_voter (em_membership e) i"

definition em_learner_ids :: "effective_membership \<Rightarrow> nat list" where
  "em_learner_ids e = mem_learner_ids (em_membership e)"

definition em_get_node :: "effective_membership \<Rightarrow> nat \<Rightarrow> basic_node option" where
  "em_get_node e i = mem_get_node (em_membership e) i"

definition em_is_quorum :: "effective_membership \<Rightarrow> nat list \<Rightarrow> bool" where
  "em_is_quorum e ids = joint_is_quorum (em_quorum_set e) ids"

definition em_ids :: "effective_membership \<Rightarrow> bt_set" where
  "em_ids e = joint_ids (em_quorum_set e)"

text \<open>The caches agree with the membership: every effective membership is built by \<open>em_new\<close>.\<close>

definition em_wf :: "effective_membership \<Rightarrow> bool" where
  "em_wf e \<longleftrightarrow> e = em_new (em_log_id e) (em_membership e)"

lemma em_new_simps [simp]:
  "em_log_id (em_new l m) = l" "em_membership (em_new l m) = m"
  "em_quorum_set (em_new l m) = configs m" "em_voter_ids (em_new l m) = mem_voter_ids m"
  by (simp_all add: em_new_def em_log_id_def em_membership_def)

lemma em_new_wf [simp]: "em_wf (em_new l m)"
  by (simp add: em_wf_def)

lemma em_default_new: "em_default = em_new None membership_default"
  by (simp add: em_default_def em_new_def stored_membership_default_def membership_default_def
      mem_voter_ids_def joint_ids_def bs_of_def)

lemma em_eq_iff: "em_wf a \<Longrightarrow> em_wf b \<Longrightarrow> em_eq a b \<longleftrightarrow> a = b"
  unfolding em_eq_def em_wf_def em_log_id_def em_membership_def by metis

lemma em_wf_quorum: "em_wf e \<Longrightarrow> em_is_quorum e ids = joint_is_quorum (configs (em_membership e)) ids"
  unfolding em_wf_def em_is_quorum_def by (metis em_new_simps(3))

lemma em_wf_voters: "em_wf e \<Longrightarrow> em_voter_ids e = em_ids e"
  unfolding em_wf_def em_ids_def by (metis em_new_simps(3,4) mem_voter_ids_def)

section \<open>The committed and the effective membership\<close>

record membership_state =
  ms_committed :: effective_membership
  ms_effective :: effective_membership

definition membership_state_default :: membership_state where
  "membership_state_default = \<lparr>ms_committed = em_default, ms_effective = em_default\<rparr>"

definition ms_contains :: "membership_state \<Rightarrow> nat \<Rightarrow> bool" where
  "ms_contains s i = mem_contains (em_membership (ms_effective s)) i"

definition ms_is_voter :: "membership_state \<Rightarrow> nat \<Rightarrow> bool" where
  "ms_is_voter s i = mem_is_voter (em_membership (ms_effective s)) i"

definition ms_commit :: "log_id option \<Rightarrow> membership_state \<Rightarrow> membership_state panics" where
  "ms_commit committed s =
     (if committed \<ge> em_log_id (ms_effective s)
      then do {
        ensure (opt_index committed \<ge> opt_index (em_log_id (ms_effective s)));
        Some (s\<lparr>ms_committed := ms_effective s\<rparr>) }
      else Some s)"

definition ms_update_committed ::
  "effective_membership \<Rightarrow> membership_state \<Rightarrow> (membership_state \<times> effective_membership option) panics" where
  "ms_update_committed c s = do {
     let newer = (opt_index (em_log_id c) \<ge> opt_index (em_log_id (ms_effective s)));
     let changed = (newer \<and> em_membership c \<noteq> em_membership (ms_effective s));
     let s1 = (if newer then s\<lparr>ms_effective := c\<rparr> else s);
     ensure (em_log_id c = em_log_id (ms_committed s1) \<longrightarrow> em_membership c = em_membership (ms_committed s1));
     let s2 = (if em_log_id c > em_log_id (ms_committed s1) then s1\<lparr>ms_committed := c\<rparr> else s1);
     Some (s2, if changed then Some (ms_effective s2) else None) }"

definition ms_append :: "effective_membership \<Rightarrow> membership_state \<Rightarrow> membership_state panics" where
  "ms_append m s = do {
     ensure (em_log_id m > em_log_id (ms_effective s));
     ensure (opt_index (em_log_id m) > opt_index (em_log_id (ms_effective s)));
     Some (s\<lparr>ms_committed := ms_effective s, ms_effective := m\<rparr>) }"

definition ms_truncate :: "nat \<Rightarrow> membership_state \<Rightarrow> (membership_state \<times> effective_membership option) panics" where
  "ms_truncate since s = do {
     ensure (since \<ge> next_index (em_log_id (ms_committed s)));
     (if Some since \<le> opt_index (em_log_id (ms_effective s))
      then Some (s\<lparr>ms_effective := ms_committed s\<rparr>, Some (ms_committed s))
      else Some (s, None)) }"

definition ms_validate :: "membership_state \<Rightarrow> bool" where
  "ms_validate s \<longleftrightarrow> em_log_id (ms_committed s) \<le> em_log_id (ms_effective s)
     \<and> opt_index (em_log_id (ms_committed s)) \<le> opt_index (em_log_id (ms_effective s))"

subsection \<open>The change handler\<close>

definition ch_ensure_committed :: "membership_state \<Rightarrow> change_membership_error + unit" where
  "ch_ensure_committed s =
     (if em_log_id (ms_effective s) = em_log_id (ms_committed s) then Inr ()
      else Inl (InProgress (em_log_id (ms_committed s)) (em_log_id (ms_effective s))))"

definition ch_apply ::
  "membership_state \<Rightarrow> change_members \<Rightarrow> bool \<Rightarrow> (change_membership_error + membership) panics" where
  "ch_apply s change retain =
     (case ch_ensure_committed s of
        Inl e \<Rightarrow> Some (Inl e)
      | Inr _ \<Rightarrow> mem_change (em_membership (ms_effective s)) change retain)"

section \<open>The invariant\<close>

text \<open>
  Two log ids are on one log when the order of their indexes is their order. The log ids of the
  logs of one node are, and so are the committed log ids of a cluster.
\<close>

definition on_one_log :: "log_id option \<Rightarrow> log_id option \<Rightarrow> bool" where
  "on_one_log a b \<longleftrightarrow> (opt_index a \<le> opt_index b \<longleftrightarrow> a \<le> b) \<and> (opt_index b \<le> opt_index a \<longleftrightarrow> b \<le> a)"

lemma on_one_log_sym: "on_one_log a b \<Longrightarrow> on_one_log b a"
  by (auto simp: on_one_log_def)

definition ms_wf :: "membership_state \<Rightarrow> bool" where
  "ms_wf s \<longleftrightarrow> ms_validate s \<and> em_wf (ms_committed s) \<and> em_wf (ms_effective s)"

lemma ms_default_wf: "ms_wf membership_state_default"
  by (simp add: ms_wf_def ms_validate_def membership_state_default_def em_default_new)

lemma ms_commit_wf: "ms_wf s \<Longrightarrow> ms_commit l s = Some s' \<Longrightarrow> ms_wf s'"
  by (auto simp: ms_wf_def ms_validate_def ms_commit_def split: if_splits)

lemma ms_append_wf: "ms_wf s \<Longrightarrow> em_wf m \<Longrightarrow> ms_append m s = Some s' \<Longrightarrow> ms_wf s'"
  by (auto simp: ms_wf_def ms_validate_def ms_append_def less_imp_le split: if_splits)

lemma ms_truncate_wf: "ms_wf s \<Longrightarrow> ms_truncate i s = Some (s', e) \<Longrightarrow> ms_wf s'"
  by (auto simp: ms_wf_def ms_validate_def ms_truncate_def split: if_splits)

lemma ms_update_committed_wf:
  assumes "ms_wf s" "em_wf c" "ms_update_committed c s = Some (s', e)"
    "on_one_log (em_log_id c) (em_log_id (ms_committed s))" 
    "opt_index (em_log_id c) < opt_index (em_log_id (ms_effective s)) \<Longrightarrow>
       on_one_log (em_log_id c) (em_log_id (ms_effective s))"
  shows "ms_wf s'"
  using assms
  by (auto simp: ms_wf_def ms_validate_def ms_update_committed_def Let_def on_one_log_def not_le less_imp_le
      split: if_splits)

end
