(* ===== verification/Entry.thy ===== *)
theory Entry
imports Membership
begin

text \<open>
  Log entries: \<^verbatim>\<open>openraft/src/entry\<close> with the application data of the key-value store
  (\<^verbatim>\<open>Request\<close> and \<^verbatim>\<open>Response\<close> of \<^verbatim>\<open>kv-store/src/store/mod.rs\<close>).
\<close>

datatype request = Put (req_key: string) (req_value: string) | Del (req_key: string)

datatype response = Response (resp_value: "string option")

text \<open>The data of the application is a parameter, as in \<^verbatim>\<open>RaftTypeConfig\<close>; the cluster runs the key-value store.\<close>

datatype 'd payload = Blank | Normal 'd | MembershipPayload membership

type_synonym entry_payload = "request payload"

record 'd log_entry =
  e_log_id :: log_id
  e_payload :: "'d payload"

type_synonym entry = "request log_entry"

abbreviation e_index :: "'d log_entry \<Rightarrow> nat" where
  "e_index e \<equiv> lg_index (e_log_id e)"

fun payload_get_membership :: "'d payload \<Rightarrow> membership option" where
  "payload_get_membership (MembershipPayload m) = Some m"
| "payload_get_membership Blank = None"
| "payload_get_membership (Normal r) = None"

definition entry_get_membership :: "'d log_entry \<Rightarrow> membership option" where
  "entry_get_membership e = payload_get_membership (e_payload e)"

definition entry_new :: "log_id \<Rightarrow> 'd payload \<Rightarrow> 'd log_entry" where
  "entry_new l p = \<lparr>e_log_id = l, e_payload = p\<rparr>"

definition entry_set_log_id :: "log_id \<Rightarrow> 'd log_entry \<Rightarrow> 'd log_entry" where
  "entry_set_log_id l e = e\<lparr>e_log_id := l\<rparr>"

text \<open>The entries of an append: their log ids.\<close>

definition log_ids_of :: "'d log_entry list \<Rightarrow> log_id list" where
  "log_ids_of es = map e_log_id es"

lemma log_ids_of_simps [simp]:
  "log_ids_of [] = []" "log_ids_of (e # es) = e_log_id e # log_ids_of es"
  "log_ids_of (xs @ ys) = log_ids_of xs @ log_ids_of ys"
  "length (log_ids_of es) = length es" "log_ids_of es = [] \<longleftrightarrow> es = []"
  by (auto simp: log_ids_of_def)

end
