(* ===== verification/RaftState.thy ===== *)
theory RaftState
imports LogIdList IOState MembershipState Entry
begin

text \<open>
  \<^verbatim>\<open>openraft/src/raft_state/mod.rs\<close> with the trait \<^verbatim>\<open>LogStateReader\<close> and the leased vote of
  \<^verbatim>\<open>utime.rs\<close>: the state of the engine, the queries on its log, the commit rule, the first
  conflicting entry of an append, and the server state calculated from vote and membership.
\<close>

section \<open>Leased values\<close>

text \<open>Instants and durations are natural numbers; the current time is an argument.\<close>

record 'a leased =
  l_data :: 'a
  l_last_update :: "nat option"
  l_lease :: nat
  l_lease_enabled :: bool

definition leased_without_last_update :: "'a \<Rightarrow> 'a leased" where
  "leased_without_last_update d =
     \<lparr>l_data = d, l_last_update = None, l_lease = 0, l_lease_enabled = True\<rparr>"

definition leased_new :: "nat \<Rightarrow> nat \<Rightarrow> 'a \<Rightarrow> 'a leased" where
  "leased_new now lease d =
     \<lparr>l_data = d, l_last_update = Some now, l_lease = lease, l_lease_enabled = True\<rparr>"

definition leased_update :: "nat \<Rightarrow> nat \<Rightarrow> 'a \<Rightarrow> 'a leased \<Rightarrow> 'a leased" where
  "leased_update now lease d l =
     l\<lparr>l_data := d, l_last_update := Some now, l_lease := lease, l_lease_enabled := True\<rparr>"

definition leased_disable_lease :: "'a leased \<Rightarrow> 'a leased" where
  "leased_disable_lease l = l\<lparr>l_lease := 0, l_lease_enabled := False\<rparr>"

definition leased_is_expired :: "nat \<Rightarrow> nat \<Rightarrow> 'a leased \<Rightarrow> bool" where
  "leased_is_expired now timeout l =
     (case l_last_update l of Some utime \<Rightarrow> now > utime + l_lease l + timeout | None \<Rightarrow> True)"

definition leased_touch :: "nat \<Rightarrow> nat \<Rightarrow> 'a leased \<Rightarrow> 'a leased panics" where
  "leased_touch now lease l = do {
     ensure (Some now \<ge> l_last_update l);
     Some (let l1 = l\<lparr>l_last_update := Some now\<rparr> in
           if l_lease_enabled l1 then l1\<lparr>l_lease := lease\<rparr> else l1) }"

section \<open>The state\<close>

datatype server_state = Learner | Follower | Candidate | Leader | Shutdown

record snapshot_meta =
  snap_last_log_id :: "log_id option"
  snap_last_membership :: stored_membership
  snap_id :: string

definition snapshot_meta_default :: snapshot_meta where
  "snapshot_meta_default =
     \<lparr>snap_last_log_id = None, snap_last_membership = stored_membership_default, snap_id = []\<rparr>"

record raft_state =
  rs_vote :: "raft_vote leased"
  rs_purged_next :: nat
  rs_log_ids :: log_id_list
  rs_membership_state :: membership_state
  rs_snapshot_meta :: snapshot_meta
  rs_last_inflight_id :: nat
  rs_server_state :: server_state
  rs_io_state :: io_state
  rs_purge_upto :: "log_id option"

definition rs_new :: "nat \<Rightarrow> raft_state" where
  "rs_new nid = \<lparr>rs_vote = leased_without_last_update (vote_new_with_default_term nid),
     rs_purged_next = 0, rs_log_ids = [], rs_membership_state = membership_state_default,
     rs_snapshot_meta = snapshot_meta_default, rs_last_inflight_id = 0, rs_server_state = Learner,
     rs_io_state = ios_default, rs_purge_upto = None\<rparr>"

section \<open>Queries\<close>

definition vote_ref :: "raft_state \<Rightarrow> raft_vote" where
  "vote_ref s = l_data (rs_vote s)"

definition rs_get_log_id :: "raft_state \<Rightarrow> nat \<Rightarrow> log_id option" where
  "rs_get_log_id s i = lil_ref_at (rs_log_ids s) i"

definition rs_last_log_id :: "raft_state \<Rightarrow> log_id option" where
  "rs_last_log_id s = lil_last (rs_log_ids s)"

definition rs_committed :: "raft_state \<Rightarrow> log_id option" where
  "rs_committed s = io_accepted (ios_apply_progress (rs_io_state s))"

definition rs_io_applied :: "raft_state \<Rightarrow> log_id option" where
  "rs_io_applied s = ios_applied (rs_io_state s)"

definition rs_io_purged :: "raft_state \<Rightarrow> log_id option" where
  "rs_io_purged s = ios_purged (rs_io_state s)"

definition rs_snapshot_last_log_id :: "raft_state \<Rightarrow> log_id option" where
  "rs_snapshot_last_log_id s = snap_last_log_id (rs_snapshot_meta s)"

definition rs_last_purged_log_id :: "raft_state \<Rightarrow> log_id option" where
  "rs_last_purged_log_id s = (if rs_purged_next s = 0 then None else lil_first (rs_log_ids s))"

definition rs_prev_log_id :: "raft_state \<Rightarrow> nat \<Rightarrow> log_id option" where
  "rs_prev_log_id s i = (if i = 0 then None else rs_get_log_id s (i - 1))"

definition rs_has_log_id :: "raft_state \<Rightarrow> log_id \<Rightarrow> bool panics" where
  "rs_has_log_id s l =
     (if lg_index l < next_index (rs_committed s)
      then do { ensure (Some l \<le> rs_committed s); Some True }
      else Some (case rs_get_log_id s (lg_index l) of Some local \<Rightarrow> l = local | None \<Rightarrow> False))"

definition rs_is_initialized :: "raft_state \<Rightarrow> bool" where
  "rs_is_initialized s =
     (if rs_last_log_id s \<noteq> None then True
      else if lid_term (vote_leader_id (vote_ref s)) \<noteq> 0 then True else False)"

definition rs_accepted_log_io :: "raft_state \<Rightarrow> io_id option" where
  "rs_accepted_log_io s = io_accepted (ios_log_progress (rs_io_state s))"

definition rs_is_voter :: "raft_state \<Rightarrow> nat \<Rightarrow> bool" where
  "rs_is_voter s i = ms_is_voter (rs_membership_state s) i"

definition rs_is_leading :: "raft_state \<Rightarrow> nat \<Rightarrow> bool" where
  "rs_is_leading s i = (ms_contains (rs_membership_state s) i \<and> vote_leader_node_id (vote_ref s) = i)"

definition rs_is_leader :: "raft_state \<Rightarrow> nat \<Rightarrow> bool" where
  "rs_is_leader s i = (rs_is_leading s i \<and> vote_committed (vote_ref s))"

definition rs_calc_server_state :: "nat \<Rightarrow> raft_state \<Rightarrow> server_state" where
  "rs_calc_server_state i s =
     (if rs_is_leader s i then Leader
      else if rs_is_leading s i then Candidate
      else if rs_is_voter s i then Follower else Learner)"

text \<open>\<^verbatim>\<open>ForwardToLeader\<close>: the leader's id and node, when they are known.\<close>

datatype forward_to_leader = ForwardToLeader (ftl_id: "nat option") (ftl_node: "basic_node option")

definition rs_new_forward_to_leader :: "raft_state \<Rightarrow> nat \<Rightarrow> forward_to_leader" where
  "rs_new_forward_to_leader s to =
     (case em_get_node (ms_effective (rs_membership_state s)) to of
        Some n \<Rightarrow> ForwardToLeader (Some to) (Some n)
      | None \<Rightarrow> ForwardToLeader None None)"

definition rs_forward_to_leader :: "raft_state \<Rightarrow> forward_to_leader" where
  "rs_forward_to_leader s =
     (if vote_committed (vote_ref s)
      then rs_new_forward_to_leader s (lid_node (vote_leader_id (vote_ref s)))
      else ForwardToLeader None None)"

text \<open>The position of the first entry that is not in the local log; the length if there is none.\<close>

fun first_conflicting_from :: "raft_state \<Rightarrow> nat \<Rightarrow> entry list \<Rightarrow> nat panics" where
  "first_conflicting_from s i [] = Some i"
| "first_conflicting_from s i (e # es) = do {
     has \<leftarrow> rs_has_log_id s (e_log_id e);
     (if \<not> has then Some i else first_conflicting_from s (Suc i) es) }"

definition rs_first_conflicting_index :: "raft_state \<Rightarrow> entry list \<Rightarrow> nat panics" where
  "rs_first_conflicting_index s es = first_conflicting_from s 0 es"

section \<open>Updates\<close>

definition rs_accept_log_io :: "io_id \<Rightarrow> raft_state \<Rightarrow> (io_id option \<times> raft_state) panics" where
  "rs_accept_log_io accepted s = do {
     let curr = io_accepted (ios_log_progress (rs_io_state s));
     ensure (Some (io_id_vote accepted) \<ge> map_option io_id_vote curr);
     (if Some accepted > curr
      then do {
        p \<leftarrow> io_accept accepted (ios_log_progress (rs_io_state s));
        Some (curr, s\<lparr>rs_io_state := (rs_io_state s)\<lparr>ios_log_progress := p\<rparr>\<rparr>) }
      else Some (curr, s)) }"

definition rs_extend_log_ids_from_same_leader :: "log_id list \<Rightarrow> raft_state \<Rightarrow> raft_state panics" where
  "rs_extend_log_ids_from_same_leader ids s = do {
     ks \<leftarrow> lil_extend_from_same_leader ids (rs_log_ids s);
     Some (s\<lparr>rs_log_ids := ks\<rparr>) }"

definition rs_extend_log_ids :: "log_id list \<Rightarrow> raft_state \<Rightarrow> raft_state panics" where
  "rs_extend_log_ids ids s = do {
     ks \<leftarrow> lil_extend ids (rs_log_ids s);
     Some (s\<lparr>rs_log_ids := ks\<rparr>) }"

text \<open>The result of \<^verbatim>\<open>update_local_committed\<close> is the previous value if it was updated.\<close>

definition rs_update_local_committed ::
  "log_id option \<Rightarrow> raft_state \<Rightarrow> (log_id option option \<times> raft_state) panics" where
  "rs_update_local_committed committed s =
     (if committed > rs_committed s
      then do {
        let prev = rs_committed s;
        c \<leftarrow> committed;
        p \<leftarrow> io_accept c (ios_apply_progress (rs_io_state s));
        ms \<leftarrow> ms_commit committed (rs_membership_state s);
        Some (Some prev, s\<lparr>rs_io_state := (rs_io_state s)\<lparr>ios_apply_progress := p\<rparr>,
                           rs_membership_state := ms\<rparr>) }
      else Some (None, s))"

definition rs_update_committed :: "log_io_id \<Rightarrow> raft_state \<Rightarrow> raft_state panics" where
  "rs_update_committed cluster_committed s = do {
     let ios = (rs_io_state s)\<lparr>ios_cluster_committed :=
                  snd (mono_try_update cluster_committed (ios_cluster_committed (rs_io_state s)))\<rparr>;
     let s1 = s\<lparr>rs_io_state := ios\<rparr>;
     r \<leftarrow> rs_update_local_committed (ios_calculate_local_committed ios) s1;
     Some (snd r) }"

definition rs_purge_log :: "log_id \<Rightarrow> raft_state \<Rightarrow> raft_state panics" where
  "rs_purge_log up s = do {
     ks \<leftarrow> lil_purge up (rs_log_ids s);
     Some (s\<lparr>rs_purged_next := lg_index up + 1, rs_log_ids := ks\<rparr>) }"

definition rs_new_inflight_id :: "raft_state \<Rightarrow> nat \<times> raft_state" where
  "rs_new_inflight_id s =
     (let i = rs_last_inflight_id s + 1 in (i, s\<lparr>rs_last_inflight_id := i\<rparr>))"

section \<open>The invariant\<close>

text \<open>What \<^verbatim>\<open>Validate for RaftState\<close> checks.\<close>

definition rs_validate :: "raft_state \<Rightarrow> bool" where
  "rs_validate s \<longleftrightarrow>
     (if rs_purged_next s = 0 then opt_index (lil_first (rs_log_ids s)) \<le> Some 0
      else rs_purged_next s = next_index (lil_first (rs_log_ids s)))
     \<and> rs_last_purged_log_id s \<le> rs_purge_upto s
     \<and> (if rs_snapshot_last_log_id s = None then rs_purge_upto s \<le> rs_committed s
        else rs_purge_upto s \<le> rs_snapshot_last_log_id s)
     \<and> rs_snapshot_last_log_id s \<le> rs_committed s
     \<and> rs_committed s \<le> rs_last_log_id s
     \<and> ms_validate (rs_membership_state s)
     \<and> ios_validate (rs_io_state s)"

text \<open>
  The full invariant: the checked part, a well-formed key log id list, cached quorum sets in
  agreement with the membership, and the log behind the committed position as committed.
\<close>

definition rs_wf :: "raft_state \<Rightarrow> bool" where
  "rs_wf s \<longleftrightarrow> rs_validate s \<and> kwf (rs_log_ids s) \<and> ms_wf (rs_membership_state s)
     \<and> (\<forall>c. rs_committed s = Some c \<longrightarrow> c \<in> set (expand (rs_log_ids s)))"

end
