(* ===== verification/ProgressEntry.thy ===== *)
theory ProgressEntry
imports RaftState
begin

text \<open>
  \<^verbatim>\<open>openraft/src/progress/inflight\<close>, \<^verbatim>\<open>progress/entry\<close> and \<^verbatim>\<open>engine/engine_config.rs\<close>: what a leader
  knows about one follower. The matching log id is found by bisection between the matching
  index and \<^verbatim>\<open>searching_end\<close>; at most one request carrying data is in flight.
\<close>

section \<open>Engine configuration\<close>

record time_config =
  tc_election_timeout :: nat
  tc_smaller_log_timeout :: nat
  tc_leader_lease :: nat

record engine_config =
  ec_id :: nat
  ec_max_in_snapshot_log_to_keep :: nat
  ec_purge_batch_size :: nat
  ec_max_payload_entries :: nat
  ec_allow_log_reversion :: bool
  ec_timer_config :: time_config

section \<open>Inflight data\<close>

datatype inflight =
    InflightNone
  | InflightLogs (ifl_range: log_id_range) (ifl_id: nat)
  | InflightSnapshot (ifs_id: nat)

fun inflight_validate :: "inflight \<Rightarrow> bool" where
  "inflight_validate InflightNone = True"
| "inflight_validate (InflightLogs r i) = log_id_range_validate r"
| "inflight_validate (InflightSnapshot i) = True"

definition inflight_logs :: "log_id option \<Rightarrow> log_id option \<Rightarrow> nat \<Rightarrow> inflight" where
  "inflight_logs prev la i = (if \<not> prev < la then InflightNone else InflightLogs (LogIdRange prev la) i)"

definition inflight_is_none :: "inflight \<Rightarrow> bool" where
  "inflight_is_none f = (f = InflightNone)"

fun inflight_ack :: "log_id option \<Rightarrow> nat \<Rightarrow> inflight \<Rightarrow> inflight panics" where
  "inflight_ack up from InflightNone = None"
| "inflight_ack up from (InflightLogs r i) =
     (if i \<noteq> from then Some (InflightLogs r i)
      else do {
        ensure (up \<ge> lir_prev r);
        ensure (up \<le> lir_last r);
        Some (inflight_logs up (lir_last r) i) })"
| "inflight_ack up from (InflightSnapshot i) =
     (if i \<noteq> from then Some (InflightSnapshot i) else Some InflightNone)"

fun inflight_conflict :: "nat \<Rightarrow> nat \<Rightarrow> inflight \<Rightarrow> inflight panics" where
  "inflight_conflict c from InflightNone = None"
| "inflight_conflict c from (InflightLogs r i) =
     (if i \<noteq> from then Some (InflightLogs r i) else Some InflightNone)"
| "inflight_conflict c from (InflightSnapshot i) =
     (if i \<noteq> from then Some (InflightSnapshot i) else None)"

section \<open>Progress entries\<close>

record progress_entry =
  pe_matching :: "log_id option"
  pe_inflight :: inflight
  pe_searching_end :: nat
  pe_allow_log_reversion :: bool

definition pe_new :: "log_id option \<Rightarrow> progress_entry" where
  "pe_new m = \<lparr>pe_matching = m, pe_inflight = InflightNone, pe_searching_end = next_index m,
     pe_allow_log_reversion = False\<rparr>"

definition pe_empty :: "nat \<Rightarrow> progress_entry" where
  "pe_empty e = \<lparr>pe_matching = None, pe_inflight = InflightNone, pe_searching_end = e,
     pe_allow_log_reversion = False\<rparr>"

definition pe_is_log_range_inflight :: "log_id \<Rightarrow> progress_entry \<Rightarrow> bool" where
  "pe_is_log_range_inflight up e =
     (case pe_inflight e of
        InflightNone \<Rightarrow> False
      | InflightLogs r i \<Rightarrow> Some up > lir_prev r
      | InflightSnapshot i \<Rightarrow> False)"

definition calc_mid :: "nat \<Rightarrow> nat \<Rightarrow> nat panics" where
  "calc_mid matching_next e = do {
     ensure (matching_next \<le> e);
     d \<leftarrow> sub_panics e matching_next;
     let offset = d div 16 * 8;
     Some (matching_next + offset) }"

definition pe_sending_start :: "progress_entry \<Rightarrow> (nat \<times> nat) panics" where
  "pe_sending_start e = do {
     mid \<leftarrow> calc_mid (next_index (pe_matching e)) (pe_searching_end e);
     Some (mid, pe_searching_end e) }"

text \<open>
  \<^verbatim>\<open>next_send\<close>: \<open>Inr\<close> of the new inflight data, \<open>Inl\<close> of the current one when nothing is sent.
\<close>

definition pe_next_send ::
  "nat \<Rightarrow> progress_entry \<Rightarrow> raft_state \<Rightarrow> ((inflight + inflight) \<times> progress_entry \<times> raft_state) panics" where
  "pe_next_send max_entries e s =
     (if \<not> inflight_is_none (pe_inflight e) then Some (Inl (pe_inflight e), e, s)
      else do {
        let last_next = next_index (rs_last_log_id s);
        ensure (pe_searching_end e \<le> last_next);
        let purge_upto_next = next_index (rs_purge_upto s);
        (if pe_searching_end e < purge_upto_next
         then (case rs_new_inflight_id s of (i, s1) \<Rightarrow>
                 let f = InflightSnapshot i in Some (Inr f, e\<lparr>pe_inflight := f\<rparr>, s1))
         else do {
           mid \<leftarrow> calc_mid (next_index (pe_matching e)) (pe_searching_end e);
           let start = (if mid < purge_upto_next then purge_upto_next else mid);
           let e_idx = min (start + max_entries) last_next;
           (if start = e_idx
            then Some (Inl InflightNone, e\<lparr>pe_inflight := InflightNone\<rparr>, s)
            else
              (case rs_new_inflight_id s of (i, s1) \<Rightarrow>
                 let f = inflight_logs (rs_prev_log_id s start) (rs_prev_log_id s e_idx) i
                 in Some (Inr f, e\<lparr>pe_inflight := f\<rparr>, s1))) }) })"

text \<open>The updater: a conflict at an index, or a matching log id, reported by the follower.\<close>

definition pe_update_conflicting ::
  "engine_config \<Rightarrow> nat \<Rightarrow> nat option \<Rightarrow> progress_entry \<Rightarrow> progress_entry panics" where
  "pe_update_conflicting cfg conflict inflight_id e = do {
     f \<leftarrow> (case inflight_id of
             Some i \<Rightarrow> inflight_conflict conflict i (pe_inflight e)
           | None \<Rightarrow> Some (pe_inflight e));
     let e1 = e\<lparr>pe_inflight := f\<rparr>;
     (if conflict \<ge> pe_searching_end e1 then Some e1
      else
        let e2 = e1\<lparr>pe_searching_end := conflict\<rparr>;
            allow_reset = (pe_allow_log_reversion e2 \<or> ec_allow_log_reversion cfg)
        in if allow_reset
           then Some (if conflict < next_index (pe_matching e2)
                      then e2\<lparr>pe_matching := None, pe_allow_log_reversion := False\<rparr> else e2)
           else do { ensure (conflict \<ge> next_index (pe_matching e2)); Some e2 }) }"

definition pe_update_matching ::
  "log_id option \<Rightarrow> nat option \<Rightarrow> progress_entry \<Rightarrow> progress_entry panics" where
  "pe_update_matching matching inflight_id e = do {
     f \<leftarrow> (case inflight_id of
             Some i \<Rightarrow> inflight_ack matching i (pe_inflight e)
           | None \<Rightarrow> Some (pe_inflight e));
     let e1 = e\<lparr>pe_inflight := f\<rparr>;
     (if inflight_id = None \<and> matching \<le> pe_matching e1 then Some e1
      else do {
        ensure (matching \<ge> pe_matching e1);
        let e2 = e1\<lparr>pe_matching := matching\<rparr>;
        Some (e2\<lparr>pe_searching_end := max (pe_searching_end e2) (next_index (pe_matching e2))\<rparr>) }) }"

definition pe_validate :: "progress_entry \<Rightarrow> bool" where
  "pe_validate e \<longleftrightarrow> next_index (pe_matching e) \<le> pe_searching_end e \<and> inflight_validate (pe_inflight e)
     \<and> (case pe_inflight e of
          InflightNone \<Rightarrow> True
        | InflightLogs r i \<Rightarrow> pe_matching e \<le> lir_prev r \<and> next_index (lir_prev r) \<le> pe_searching_end e
        | InflightSnapshot i \<Rightarrow> True)"

section \<open>The invariant of a progress entry\<close>

lemma pe_new_valid: "pe_validate (pe_new m)"
  by (simp add: pe_validate_def pe_new_def)

lemma pe_empty_valid: "pe_validate (pe_empty n)"
  by (simp add: pe_validate_def pe_empty_def)

lemma calc_mid_bounds:
  "m \<le> e \<Longrightarrow> \<exists>mid. calc_mid m e = Some mid \<and> m \<le> mid \<and> mid \<le> e \<and> (m + 16 \<le> e \<longrightarrow> m < mid \<and> mid < e)"
  by (auto simp: calc_mid_def sub_panics_def ensure_def Let_def)

end
