(* ===== verification/Command.thy ===== *)
theory Command
imports ProgressEntry Entry
begin

text \<open>
  \<^verbatim>\<open>openraft/src/engine/command.rs\<close>, \<^verbatim>\<open>engine_output.rs\<close>, \<^verbatim>\<open>pending_responds.rs\<close> and the messages and
  errors they carry: what the engine asks its runtime to do, the conditions some commands wait
  for, and the queues of responds that wait for an I/O. A oneshot sender is the number of its
  channel; the data of a snapshot is a byte string.
\<close>

section \<open>Messages\<close>

record vote_request =
  vq_vote :: raft_vote
  vq_last_log_id :: "log_id option"

record vote_response =
  vr_vote :: raft_vote
  vr_granted :: bool
  vr_last_log_id :: "log_id option"

datatype append_entries_response =
    AppendSuccess | PartialSuccess "log_id option" | Conflict | HigherVote raft_vote

datatype stream_append_error = StreamConflict log_id | StreamHigherVote raft_vote

text \<open>\<^verbatim>\<open>into_stream_result\<close>: a conflict without a previous log id panics.\<close>

fun into_stream_result ::
  "append_entries_response \<Rightarrow> log_id option \<Rightarrow> log_id option \<Rightarrow> (stream_append_error + log_id option) panics" where
  "into_stream_result AppendSuccess prev la = Some (Inr la)"
| "into_stream_result (PartialSuccess l) prev la = Some (Inr l)"
| "into_stream_result Conflict prev la = do { p \<leftarrow> prev; Some (Inl (StreamConflict p)) }"
| "into_stream_result (HigherVote v) prev la = Some (Inl (StreamHigherVote v))"

datatype snapshot_response = SnapshotResponse (sr_vote: raft_vote)

record snapshot =
  snap_meta :: snapshot_meta
  snap_data :: string

datatype install_snapshot_error = SnapshotMismatch "string \<times> nat" "string \<times> nat"

datatype initialize_error =
    NotAllowed "log_id option" raft_vote
  | NotInMembers nat membership

datatype reject_vote_request = ByVote raft_vote | ByLastLogId "log_id option"

datatype reject_append_entries =
    RejectByVote raft_vote
  | ByConflictingLogId (rej_expect: log_id) (rej_local: "log_id option")

fun reject_vote_to_append :: "reject_vote_request \<Rightarrow> reject_append_entries panics" where
  "reject_vote_to_append (ByVote v) = Some (RejectByVote v)"
| "reject_vote_to_append (ByLastLogId l) = None"

fun append_result_to_response :: "reject_append_entries + unit \<Rightarrow> append_entries_response" where
  "append_result_to_response (Inr _) = AppendSuccess"
| "append_result_to_response (Inl (RejectByVote v)) = HigherVote v"
| "append_result_to_response (Inl (ByConflictingLogId e l)) = Conflict"

datatype replication_session_id =
  ReplicationSessionId (rsi_leader_vote: committed_vote) (rsi_membership_log_id: "log_id option")

record transfer_leader_request =
  tlr_from_leader :: raft_vote
  tlr_to_node_id :: nat
  tlr_last_log_id :: "log_id option"

section \<open>Commands\<close>

datatype sm_command =
    BuildSnapshot
  | GetSnapshot nat
  | BeginReceivingSnapshot nat
  | InstallFullSnapshot log_io_id snapshot
  | Apply (apply_first: log_id) (apply_last: log_id) "(nat \<times> nat) list"
  | Func

fun sm_get_log_progress :: "sm_command \<Rightarrow> io_id option" where
  "sm_get_log_progress (InstallFullSnapshot i s) = Some (IOLog i)"
| "sm_get_log_progress BuildSnapshot = None"
| "sm_get_log_progress (GetSnapshot tx) = None"
| "sm_get_log_progress (BeginReceivingSnapshot tx) = None"
| "sm_get_log_progress (Apply f l ch) = None"
| "sm_get_log_progress Func = None"

fun sm_get_apply_progress :: "sm_command \<Rightarrow> log_id option" where
  "sm_get_apply_progress (InstallFullSnapshot i s) = lio_log_id i"
| "sm_get_apply_progress (Apply f l ch) = Some l"
| "sm_get_apply_progress BuildSnapshot = None"
| "sm_get_apply_progress (GetSnapshot tx) = None"
| "sm_get_apply_progress (BeginReceivingSnapshot tx) = None"
| "sm_get_apply_progress Func = None"

fun sm_get_snapshot_progress :: "sm_command \<Rightarrow> log_id option" where
  "sm_get_snapshot_progress (InstallFullSnapshot i s) = snap_last_log_id (snap_meta s)"
| "sm_get_snapshot_progress (Apply f l ch) = None"
| "sm_get_snapshot_progress BuildSnapshot = None"
| "sm_get_snapshot_progress (GetSnapshot tx) = None"
| "sm_get_snapshot_progress (BeginReceivingSnapshot tx) = None"
| "sm_get_snapshot_progress Func = None"

datatype condition =
    IOFlushed io_id
  | LogFlushed log_id
  | Applied log_id
  | SnapshotAt log_id

datatype respond =
    RespondVote vote_response nat
  | RespondAppendEntries append_entries_response nat
  | RespondReceiveSnapshotChunk "install_snapshot_error + unit" nat
  | RespondInstallSnapshot "install_snapshot_error + snapshot_response" nat
  | RespondInstallFullSnapshot snapshot_response nat
  | RespondInitialize "initialize_error + unit" nat

datatype repl_data = Data (rd_inflight_id: nat) (rd_range: log_id_range)

datatype command =
    UpdateIOProgress "condition option" io_id
  | AppendEntries committed_vote "entry list"
  | ReplicateCommitted "log_id option"
  | BroadcastHeartbeat replication_session_id
  | SaveCommittedAndApply "log_id option" log_id
  | Replicate nat repl_data
  | ReplicateSnapshot nat nat
  | BroadcastTransferLeader transfer_leader_request
  | RebuildReplicationStreams "(nat \<times> progress_entry) list"
  | SaveVote raft_vote
  | SendVote vote_request
  | PurgeLog log_id
  | TruncateLog log_id
  | StateMachine sm_command
  | Respond "condition option" respond

datatype command_kind = KindLog | KindNetwork | KindStateMachine | KindMain | KindRespond

fun kind_of :: "command \<Rightarrow> command_kind" where
  "kind_of (RebuildReplicationStreams t) = KindMain"
| "kind_of (Respond w r) = KindRespond"
| "kind_of (UpdateIOProgress w i) = KindLog"
| "kind_of (AppendEntries v es) = KindLog"
| "kind_of (SaveVote v) = KindLog"
| "kind_of (TruncateLog s) = KindLog"
| "kind_of (PurgeLog u) = KindLog"
| "kind_of (ReplicateCommitted c) = KindNetwork"
| "kind_of (BroadcastHeartbeat s) = KindNetwork"
| "kind_of (Replicate t r) = KindNetwork"
| "kind_of (ReplicateSnapshot t i) = KindNetwork"
| "kind_of (BroadcastTransferLeader r) = KindNetwork"
| "kind_of (SendVote r) = KindNetwork"
| "kind_of (SaveCommittedAndApply a u) = KindStateMachine"
| "kind_of (StateMachine c) = KindStateMachine"

fun command_condition :: "command \<Rightarrow> condition option" where
  "command_condition (RebuildReplicationStreams t) = None"
| "command_condition (Respond w r) = w"
| "command_condition (UpdateIOProgress w i) = w"
| "command_condition (AppendEntries v es) = None"
| "command_condition (SaveVote v) = None"
| "command_condition (TruncateLog s) = None"
| "command_condition (PurgeLog u) = Some (SnapshotAt u)"
| "command_condition (ReplicateCommitted c) = None"
| "command_condition (BroadcastHeartbeat s) = None"
| "command_condition (Replicate t r) = None"
| "command_condition (ReplicateSnapshot t i) = None"
| "command_condition (BroadcastTransferLeader r) = None"
| "command_condition (SendVote r) = None"
| "command_condition (SaveCommittedAndApply a u) = None"
| "command_condition (StateMachine c) = None"

definition is_satisfied_by :: "'a::linorder \<Rightarrow> 'a option \<Rightarrow> bool" where
  "is_satisfied_by expected actual = (case actual of None \<Rightarrow> False | Some a \<Rightarrow> a \<ge> expected)"

fun condition_is_met :: "condition \<Rightarrow> io_state \<Rightarrow> bool" where
  "condition_is_met (IOFlushed i) s = is_satisfied_by i (io_flushed (ios_log_progress s))"
| "condition_is_met (LogFlushed l) s =
     is_satisfied_by l (Option.bind (io_flushed (ios_log_progress s)) io_id_last_log_id)"
| "condition_is_met (Applied l) s = is_satisfied_by l (io_flushed (ios_apply_progress s))"
| "condition_is_met (SnapshotAt l) s = is_satisfied_by l (io_flushed (ios_snapshot s))"

section \<open>Pending responds\<close>

datatype 'v pending_respond = PendingRespond (pr_wait_for: 'v) (pr_respond: respond)

record pending_responds =
  pd_on_log_io :: "io_id pending_respond list"
  pd_on_log_flush :: "log_id pending_respond list"
  pd_on_apply :: "log_id pending_respond list"
  pd_on_snapshot :: "log_id pending_respond list"

definition pending_responds_new :: pending_responds where
  "pending_responds_new =
     \<lparr>pd_on_log_io = [], pd_on_log_flush = [], pd_on_apply = [], pd_on_snapshot = []\<rparr>"

fun pop_if_satisfied ::
  "'v::linorder pending_respond list \<Rightarrow> 'v \<Rightarrow> respond option \<times> 'v pending_respond list" where
  "pop_if_satisfied [] actual = (None, [])"
| "pop_if_satisfied (p # q) actual =
     (if actual \<ge> pr_wait_for p then (Some (pr_respond p), q) else (None, p # q))"

datatype drain_phase = PhaseLogIO | PhaseLogFlush | PhaseApply | PhaseSnapshot | PhaseDone

text \<open>A queue is tried when there is a value to compare with, the \<^verbatim>\<open>if let\<close> chains of the source.\<close>

definition pop_with ::
  "'v::linorder option \<Rightarrow> 'v pending_respond list \<Rightarrow> respond option \<times> 'v pending_respond list" where
  "pop_with actual q = (case actual of None \<Rightarrow> (None, q) | Some a \<Rightarrow> pop_if_satisfied q a)"

function drain_next ::
  "io_state \<Rightarrow> drain_phase \<Rightarrow> pending_responds
    \<Rightarrow> (drain_phase \<times> respond) option \<times> drain_phase \<times> pending_responds" where
  "drain_next s PhaseLogIO p =
     (case pop_with (io_flushed (ios_log_progress s)) (pd_on_log_io p) of
        (Some r, q) \<Rightarrow> (Some (PhaseLogIO, r), PhaseLogIO, p\<lparr>pd_on_log_io := q\<rparr>)
      | (None, _) \<Rightarrow> drain_next s PhaseLogFlush p)"
| "drain_next s PhaseLogFlush p =
     (case pop_with (Option.bind (io_flushed (ios_log_progress s)) io_id_last_log_id) (pd_on_log_flush p) of
        (Some r, q) \<Rightarrow> (Some (PhaseLogFlush, r), PhaseLogFlush, p\<lparr>pd_on_log_flush := q\<rparr>)
      | (None, _) \<Rightarrow> drain_next s PhaseApply p)"
| "drain_next s PhaseApply p =
     (case pop_with (io_flushed (ios_apply_progress s)) (pd_on_apply p) of
        (Some r, q) \<Rightarrow> (Some (PhaseApply, r), PhaseApply, p\<lparr>pd_on_apply := q\<rparr>)
      | (None, _) \<Rightarrow> drain_next s PhaseSnapshot p)"
| "drain_next s PhaseSnapshot p =
     (case pop_with (io_flushed (ios_snapshot s)) (pd_on_snapshot p) of
        (Some r, q) \<Rightarrow> (Some (PhaseSnapshot, r), PhaseSnapshot, p\<lparr>pd_on_snapshot := q\<rparr>)
      | (None, _) \<Rightarrow> drain_next s PhaseDone p)"
| "drain_next s PhaseDone p = (None, PhaseDone, p)"
  by pat_completeness auto

fun phase_rank :: "drain_phase \<Rightarrow> nat" where
  "phase_rank PhaseLogIO = 4"
| "phase_rank PhaseLogFlush = 3"
| "phase_rank PhaseApply = 2"
| "phase_rank PhaseSnapshot = 1"
| "phase_rank PhaseDone = 0"

termination drain_next
  by (relation "measure (\<lambda>(s, ph, p). phase_rank ph)") auto

definition pending_size :: "pending_responds \<Rightarrow> nat" where
  "pending_size p = length (pd_on_log_io p) + length (pd_on_log_flush p)
     + length (pd_on_apply p) + length (pd_on_snapshot p)"

lemma pop_with_Some: "pop_with a q = (Some r, q') \<Longrightarrow> Suc (length q') = length q"
  by (cases q) (auto simp: pop_with_def split: option.splits if_splits)

lemma drain_next_size:
  "drain_next s ph p = (Some x, ph', p') \<Longrightarrow> pending_size p' < pending_size p"
  by (induction s ph p rule: drain_next.induct)
    (auto simp: pending_size_def dest!: pop_with_Some split: prod.splits option.splits)

text \<open>All the responds the iterator yields, and the queues it leaves.\<close>

function drain_all ::
  "io_state \<Rightarrow> drain_phase \<Rightarrow> pending_responds \<Rightarrow> (drain_phase \<times> respond) list \<times> pending_responds" where
  "drain_all s ph p =
     (case drain_next s ph p of
        (None, _, p') \<Rightarrow> ([], p')
      | (Some x, ph', p') \<Rightarrow> (case drain_all s ph' p' of (xs, p'') \<Rightarrow> (x # xs, p'')))"
  by pat_completeness auto
termination drain_all
  by (relation "measure (\<lambda>(s, ph, p). pending_size p)") (auto dest!: drain_next_size[OF sym])

declare drain_all.simps [simp del]

definition drain_satisfied :: "io_state \<Rightarrow> pending_responds \<Rightarrow> (drain_phase \<times> respond) list \<times> pending_responds" where
  "drain_satisfied s p = drain_all s PhaseLogIO p"

section \<open>The output of the engine\<close>

record engine_output =
  eo_commands :: "command list"
  eo_pending :: pending_responds

definition engine_output_new :: engine_output where
  "engine_output_new = \<lparr>eo_commands = [], eo_pending = pending_responds_new\<rparr>"

definition push_command :: "command \<Rightarrow> engine_output \<Rightarrow> engine_output" where
  "push_command c o' = o'\<lparr>eo_commands := eo_commands o' @ [c]\<rparr>"

definition pop_command :: "engine_output \<Rightarrow> command option \<times> engine_output" where
  "pop_command o' = (case eo_commands o' of [] \<Rightarrow> (None, o') | c # cs \<Rightarrow> (Some c, o'\<lparr>eo_commands := cs\<rparr>))"

text \<open>\<open>Inr ()\<close>: the command was moved to a separate queue; \<open>Inl ()\<close>: it is back at the front.\<close>

fun postpone_command :: "command \<Rightarrow> engine_output \<Rightarrow> ((unit + unit) \<times> engine_output) panics" where
  "postpone_command (Respond None r) o' = None"
| "postpone_command (Respond (Some (IOFlushed i)) r) o' =
     Some (Inr (), o'\<lparr>eo_pending := (eo_pending o')\<lparr>pd_on_log_io :=
       pd_on_log_io (eo_pending o') @ [PendingRespond i r]\<rparr>\<rparr>)"
| "postpone_command (Respond (Some (LogFlushed l)) r) o' =
     Some (Inr (), o'\<lparr>eo_pending := (eo_pending o')\<lparr>pd_on_log_flush :=
       pd_on_log_flush (eo_pending o') @ [PendingRespond l r]\<rparr>\<rparr>)"
| "postpone_command (Respond (Some (Applied l)) r) o' =
     Some (Inr (), o'\<lparr>eo_pending := (eo_pending o')\<lparr>pd_on_apply :=
       pd_on_apply (eo_pending o') @ [PendingRespond l r]\<rparr>\<rparr>)"
| "postpone_command (Respond (Some (SnapshotAt l)) r) o' =
     Some (Inr (), o'\<lparr>eo_pending := (eo_pending o')\<lparr>pd_on_snapshot :=
       pd_on_snapshot (eo_pending o') @ [PendingRespond l r]\<rparr>\<rparr>)"
| "postpone_command c o' = Some (Inl (), o'\<lparr>eo_commands := c # eo_commands o'\<rparr>)"

section \<open>Draining yields the satisfied responds, in order\<close>

definition met :: "('v \<Rightarrow> condition) \<Rightarrow> io_state \<Rightarrow> 'v pending_respond \<Rightarrow> bool" where
  "met c s r = condition_is_met (c (pr_wait_for r)) s"

lemma pop_with_met:
  assumes "\<And>v. condition_is_met (c v) s = is_satisfied_by v actual"
  shows "pop_with actual q = (case q of [] \<Rightarrow> (None, [])
    | r # q' \<Rightarrow> if met c s r then (Some (pr_respond r), q') else (None, q))"
  using assms by (cases q) (auto simp: pop_with_def met_def is_satisfied_by_def split: option.splits)

definition yields :: "drain_phase \<Rightarrow> ('v \<Rightarrow> condition) \<Rightarrow> io_state \<Rightarrow> 'v pending_respond list \<Rightarrow> (drain_phase \<times> respond) list" where
  "yields ph c s q = map (\<lambda>r. (ph, pr_respond r)) (takeWhile (met c s) q)"

lemma drain_all_cons:
  "drain_next s ph p = (Some x, ph', p') \<Longrightarrow>
   drain_all s ph p = (x # fst (drain_all s ph' p'), snd (drain_all s ph' p'))"
  by (subst drain_all.simps) (simp split: prod.splits)

lemma drain_all_skip:
  "drain_next s ph p = drain_next s ph' p \<Longrightarrow> drain_all s ph p = drain_all s ph' p"
  by (subst drain_all.simps, subst (2) drain_all.simps) simp

lemma drain_done: "drain_all s PhaseDone p = ([], p)"
  by (subst drain_all.simps) simp

declare drain_next.simps [simp del]

lemma drain_snapshot_skip:
  "pd_on_snapshot p = [] \<or> \<not> met SnapshotAt s (hd (pd_on_snapshot p)) \<Longrightarrow> drain_all s PhaseSnapshot p = drain_all s PhaseDone p"
  by (rule drain_all_skip)
    (cases "pd_on_snapshot p"; simp add: drain_next.simps(4) pop_with_met[where c = SnapshotAt and s = s])

lemma drain_snapshot_take:
  "pd_on_snapshot p = r # q \<Longrightarrow> met SnapshotAt s r \<Longrightarrow> drain_all s PhaseSnapshot p =
   ((PhaseSnapshot, pr_respond r) # fst (drain_all s PhaseSnapshot (p\<lparr>pd_on_snapshot := q\<rparr>)),
    snd (drain_all s PhaseSnapshot (p\<lparr>pd_on_snapshot := q\<rparr>)))"
  by (rule drain_all_cons) (simp add: drain_next.simps(4) pop_with_met[where c = SnapshotAt and s = s])

lemma drain_snapshot:
  "drain_all s PhaseSnapshot p =
   (yields PhaseSnapshot SnapshotAt s (pd_on_snapshot p) @
      fst (drain_all s PhaseDone (p\<lparr>pd_on_snapshot := dropWhile (met SnapshotAt s) (pd_on_snapshot p)\<rparr>)),
    snd (drain_all s PhaseDone (p\<lparr>pd_on_snapshot := dropWhile (met SnapshotAt s) (pd_on_snapshot p)\<rparr>)))"
proof (induction "pd_on_snapshot p" arbitrary: p)
  case Nil
  then have e: "p\<lparr>pd_on_snapshot := []\<rparr> = p" by (cases p) simp
  show ?case by (simp add: drain_snapshot_skip yields_def e Nil[symmetric])
next
  case (Cons r q)
  have p: "pd_on_snapshot p = r # q" using Cons.hyps(2) by simp
  show ?case
  proof (cases "met SnapshotAt s r")
    case True
    then show ?thesis
      using Cons.hyps(1)[of "p\<lparr>pd_on_snapshot := q\<rparr>"] by (simp add: drain_snapshot_take[OF p] yields_def p)
  next
    case False
    have e: "p\<lparr>pd_on_snapshot := r # q\<rparr> = p" by (simp flip: p)
    show ?thesis using False by (simp add: drain_snapshot_skip yields_def p e)
  qed
qed

lemma drain_apply_skip:
  "pd_on_apply p = [] \<or> \<not> met Applied s (hd (pd_on_apply p)) \<Longrightarrow> drain_all s PhaseApply p = drain_all s PhaseSnapshot p"
  by (rule drain_all_skip)
    (cases "pd_on_apply p"; simp add: drain_next.simps(3) pop_with_met[where c = Applied and s = s])

lemma drain_apply_take:
  "pd_on_apply p = r # q \<Longrightarrow> met Applied s r \<Longrightarrow> drain_all s PhaseApply p =
   ((PhaseApply, pr_respond r) # fst (drain_all s PhaseApply (p\<lparr>pd_on_apply := q\<rparr>)),
    snd (drain_all s PhaseApply (p\<lparr>pd_on_apply := q\<rparr>)))"
  by (rule drain_all_cons) (simp add: drain_next.simps(3) pop_with_met[where c = Applied and s = s])

lemma drain_apply:
  "drain_all s PhaseApply p =
   (yields PhaseApply Applied s (pd_on_apply p) @
      fst (drain_all s PhaseSnapshot (p\<lparr>pd_on_apply := dropWhile (met Applied s) (pd_on_apply p)\<rparr>)),
    snd (drain_all s PhaseSnapshot (p\<lparr>pd_on_apply := dropWhile (met Applied s) (pd_on_apply p)\<rparr>)))"
proof (induction "pd_on_apply p" arbitrary: p)
  case Nil
  then have e: "p\<lparr>pd_on_apply := []\<rparr> = p" by (cases p) simp
  show ?case by (simp add: drain_apply_skip yields_def e Nil[symmetric])
next
  case (Cons r q)
  have p: "pd_on_apply p = r # q" using Cons.hyps(2) by simp
  show ?case
  proof (cases "met Applied s r")
    case True
    then show ?thesis
      using Cons.hyps(1)[of "p\<lparr>pd_on_apply := q\<rparr>"] by (simp add: drain_apply_take[OF p] yields_def p)
  next
    case False
    have e: "p\<lparr>pd_on_apply := r # q\<rparr> = p" by (simp flip: p)
    show ?thesis using False by (simp add: drain_apply_skip yields_def p e)
  qed
qed

lemma drain_log_flush_skip:
  "pd_on_log_flush p = [] \<or> \<not> met LogFlushed s (hd (pd_on_log_flush p)) \<Longrightarrow> drain_all s PhaseLogFlush p = drain_all s PhaseApply p"
  by (rule drain_all_skip)
    (cases "pd_on_log_flush p"; simp add: drain_next.simps(2) pop_with_met[where c = LogFlushed and s = s])

lemma drain_log_flush_take:
  "pd_on_log_flush p = r # q \<Longrightarrow> met LogFlushed s r \<Longrightarrow> drain_all s PhaseLogFlush p =
   ((PhaseLogFlush, pr_respond r) # fst (drain_all s PhaseLogFlush (p\<lparr>pd_on_log_flush := q\<rparr>)),
    snd (drain_all s PhaseLogFlush (p\<lparr>pd_on_log_flush := q\<rparr>)))"
  by (rule drain_all_cons) (simp add: drain_next.simps(2) pop_with_met[where c = LogFlushed and s = s])

lemma drain_log_flush:
  "drain_all s PhaseLogFlush p =
   (yields PhaseLogFlush LogFlushed s (pd_on_log_flush p) @
      fst (drain_all s PhaseApply (p\<lparr>pd_on_log_flush := dropWhile (met LogFlushed s) (pd_on_log_flush p)\<rparr>)),
    snd (drain_all s PhaseApply (p\<lparr>pd_on_log_flush := dropWhile (met LogFlushed s) (pd_on_log_flush p)\<rparr>)))"
proof (induction "pd_on_log_flush p" arbitrary: p)
  case Nil
  then have e: "p\<lparr>pd_on_log_flush := []\<rparr> = p" by (cases p) simp
  show ?case by (simp add: drain_log_flush_skip yields_def e Nil[symmetric])
next
  case (Cons r q)
  have p: "pd_on_log_flush p = r # q" using Cons.hyps(2) by simp
  show ?case
  proof (cases "met LogFlushed s r")
    case True
    then show ?thesis
      using Cons.hyps(1)[of "p\<lparr>pd_on_log_flush := q\<rparr>"] by (simp add: drain_log_flush_take[OF p] yields_def p)
  next
    case False
    have e: "p\<lparr>pd_on_log_flush := r # q\<rparr> = p" by (simp flip: p)
    show ?thesis using False by (simp add: drain_log_flush_skip yields_def p e)
  qed
qed

lemma drain_log_io_skip:
  "pd_on_log_io p = [] \<or> \<not> met IOFlushed s (hd (pd_on_log_io p)) \<Longrightarrow> drain_all s PhaseLogIO p = drain_all s PhaseLogFlush p"
  by (rule drain_all_skip)
    (cases "pd_on_log_io p"; simp add: drain_next.simps(1) pop_with_met[where c = IOFlushed and s = s])

lemma drain_log_io_take:
  "pd_on_log_io p = r # q \<Longrightarrow> met IOFlushed s r \<Longrightarrow> drain_all s PhaseLogIO p =
   ((PhaseLogIO, pr_respond r) # fst (drain_all s PhaseLogIO (p\<lparr>pd_on_log_io := q\<rparr>)),
    snd (drain_all s PhaseLogIO (p\<lparr>pd_on_log_io := q\<rparr>)))"
  by (rule drain_all_cons) (simp add: drain_next.simps(1) pop_with_met[where c = IOFlushed and s = s])

lemma drain_log_io:
  "drain_all s PhaseLogIO p =
   (yields PhaseLogIO IOFlushed s (pd_on_log_io p) @
      fst (drain_all s PhaseLogFlush (p\<lparr>pd_on_log_io := dropWhile (met IOFlushed s) (pd_on_log_io p)\<rparr>)),
    snd (drain_all s PhaseLogFlush (p\<lparr>pd_on_log_io := dropWhile (met IOFlushed s) (pd_on_log_io p)\<rparr>)))"
proof (induction "pd_on_log_io p" arbitrary: p)
  case Nil
  then have e: "p\<lparr>pd_on_log_io := []\<rparr> = p" by (cases p) simp
  show ?case by (simp add: drain_log_io_skip yields_def e Nil[symmetric])
next
  case (Cons r q)
  have p: "pd_on_log_io p = r # q" using Cons.hyps(2) by simp
  show ?case
  proof (cases "met IOFlushed s r")
    case True
    then show ?thesis
      using Cons.hyps(1)[of "p\<lparr>pd_on_log_io := q\<rparr>"] by (simp add: drain_log_io_take[OF p] yields_def p)
  next
    case False
    have e: "p\<lparr>pd_on_log_io := r # q\<rparr> = p" by (simp flip: p)
    show ?thesis using False by (simp add: drain_log_io_skip yields_def p e)
  qed
qed

text \<open>
  Draining the pending responds yields, queue after queue and in the order they were
  postponed, exactly the responds in front of the first one whose condition does not hold, and
  leaves the rest in their queues.
\<close>
theorem drain_satisfied_spec:
  "drain_satisfied s p =
     (yields PhaseLogIO IOFlushed s (pd_on_log_io p)
        @ yields PhaseLogFlush LogFlushed s (pd_on_log_flush p)
        @ yields PhaseApply Applied s (pd_on_apply p)
        @ yields PhaseSnapshot SnapshotAt s (pd_on_snapshot p),
      \<lparr>pd_on_log_io = dropWhile (met IOFlushed s) (pd_on_log_io p),
       pd_on_log_flush = dropWhile (met LogFlushed s) (pd_on_log_flush p),
       pd_on_apply = dropWhile (met Applied s) (pd_on_apply p),
       pd_on_snapshot = dropWhile (met SnapshotAt s) (pd_on_snapshot p)\<rparr>)"
  by (cases p) (simp add: drain_satisfied_def drain_log_io drain_log_flush drain_apply drain_snapshot
      drain_done)

end
