(* ===== verification/VecProgress.thy ===== *)
theory VecProgress
imports Quorum "HOL-Library.Multiset"
begin

text \<open>
  \<^verbatim>\<open>openraft/src/progress/vec_progress.rs\<close> and the trait \<^verbatim>\<open>Progress\<close>: the progress of the
  voters and learners and the greatest value accepted by a quorum, recalculated incrementally.
  The model is generic as the code is: in the quorum set (\<open>isq\<close>, \<open>qids\<close>), in the entry and in the
  progress value it lends (\<open>bw\<close>, the trait \<^verbatim>\<open>Borrow\<close>). The counters of \<^verbatim>\<open>ProgressStats\<close> are
  left out.
\<close>

section \<open>The operations\<close>

record ('q, 'e, 'p) vec_progress =
  vp_quorum_set :: 'q
  vp_accepted :: 'p
  vp_voter_count :: nat
  vp_entries :: "(nat \<times> 'e) list"

definition vp_new ::
  "('q \<Rightarrow> nat list) \<Rightarrow> ('e \<Rightarrow> 'p) \<Rightarrow> 'q \<Rightarrow> nat list \<Rightarrow> 'e \<Rightarrow> ('q, 'e, 'p) vec_progress" where
  "vp_new qids bw q learner_ids d =
     (let voters = map (\<lambda>i. (i, d)) (qids q) in
      \<lparr>vp_quorum_set = q, vp_accepted = bw d, vp_voter_count = length voters,
       vp_entries = voters @ map (\<lambda>i. (i, d)) learner_ids\<rparr>)"

fun vp_position :: "nat \<Rightarrow> (nat \<times> 'e) list \<Rightarrow> nat option" where
  "vp_position t [] = None"
| "vp_position t ((i, e) # es) = (if i = t then Some 0 else map_option Suc (vp_position t es))"

definition vp_index :: "nat \<Rightarrow> ('q, 'e, 'p) vec_progress \<Rightarrow> nat option" where
  "vp_index t p = vp_position t (vp_entries p)"

fun vp_move_up :: "('e \<Rightarrow> 'p::linorder) \<Rightarrow> nat \<Rightarrow> (nat \<times> 'e) list \<Rightarrow> (nat \<times> 'e) list \<times> nat" where
  "vp_move_up bw 0 es = (es, 0)"
| "vp_move_up bw (Suc i) es =
     (if bw (snd (es ! i)) < bw (snd (es ! Suc i))
      then vp_move_up bw i (es[i := es ! Suc i, Suc i := es ! i])
      else (es, Suc i))"

text \<open>The loop over \<^verbatim>\<open>new_index..voter_count\<close>: \<open>n\<close> positions are left.\<close>

fun vp_scan ::
  "('q \<Rightarrow> nat list \<Rightarrow> bool) \<Rightarrow> ('e \<Rightarrow> 'p::linorder) \<Rightarrow> 'q \<Rightarrow> (nat \<times> 'e) list \<Rightarrow> 'p \<Rightarrow> nat \<Rightarrow> nat \<Rightarrow> 'p" where
  "vp_scan isq bw q es qa i 0 = qa"
| "vp_scan isq bw q es qa i (Suc n) =
     (let prog = bw (snd (es ! i)) in
      if prog \<le> qa then qa
      else if isq q (map fst (take (i + 1) es)) then prog
      else vp_scan isq bw q es qa (i + 1) n)"

text \<open>
  \<^verbatim>\<open>update_with\<close>: \<open>f\<close> updates the entry and may panic; the result is \<open>Inl\<close> of the accepted value
  for an unknown id and \<open>Inr\<close> of it otherwise.
\<close>

definition vp_update_with ::
  "('q \<Rightarrow> nat list \<Rightarrow> bool) \<Rightarrow> ('e \<Rightarrow> 'p::linorder) \<Rightarrow> nat \<Rightarrow> ('e \<Rightarrow> 'e panics) \<Rightarrow> ('q, 'e, 'p) vec_progress
     \<Rightarrow> (('p + 'p) \<times> ('q, 'e, 'p) vec_progress) panics" where
  "vp_update_with isq bw nid f p =
     (case vp_index nid p of
        None \<Rightarrow> Some (Inl (vp_accepted p), p)
      | Some index \<Rightarrow> do {
          let ent = vp_entries p ! index;
          let prev = bw (snd ent);
          e' \<leftarrow> f (snd ent);
          let es = (vp_entries p)[index := (fst ent, e')];
          let p1 = p\<lparr>vp_entries := es\<rparr>;
          let new = bw e';
          ensure (new \<ge> prev);
          (if prev = new then Some (Inr (vp_accepted p1), p1)
           else if index \<ge> vp_voter_count p1 then Some (Inr (vp_accepted p1), p1)
           else if prev \<le> vp_accepted p1 \<and> new > vp_accepted p1
           then
             (case vp_move_up bw index es of (es', new_index) \<Rightarrow>
                let qa = vp_scan isq bw (vp_quorum_set p1) es' (vp_accepted p1) new_index
                           (vp_voter_count p1 - new_index)
                in Some (Inr qa, p1\<lparr>vp_entries := es', vp_accepted := qa\<rparr>))
           else Some (Inr (vp_accepted p1), p1)) })"

definition vp_update ::
  "('q \<Rightarrow> nat list \<Rightarrow> bool) \<Rightarrow> ('e \<Rightarrow> 'p::linorder) \<Rightarrow> nat \<Rightarrow> 'e \<Rightarrow> ('q, 'e, 'p) vec_progress
     \<Rightarrow> (('p + 'p) \<times> ('q, 'e, 'p) vec_progress) panics" where
  "vp_update isq bw nid v p = vp_update_with isq bw nid (\<lambda>_. Some v) p"

definition vp_increase_to ::
  "('q \<Rightarrow> nat list \<Rightarrow> bool) \<Rightarrow> ('e::linorder \<Rightarrow> 'p::linorder) \<Rightarrow> nat \<Rightarrow> 'e \<Rightarrow> ('q, 'e, 'p) vec_progress
     \<Rightarrow> (('p + 'p) \<times> ('q, 'e, 'p) vec_progress) panics" where
  "vp_increase_to isq bw nid v p = vp_update_with isq bw nid (\<lambda>x. Some (if v > x then v else x)) p"

definition vp_try_get :: "nat \<Rightarrow> ('q, 'e, 'p) vec_progress \<Rightarrow> 'e option" where
  "vp_try_get nid p = map_option (\<lambda>i. snd (vp_entries p ! i)) (vp_index nid p)"

text \<open>Writing through the reference \<^verbatim>\<open>get_mut\<close> returns bypasses the recalculation.\<close>

definition vp_set :: "nat \<Rightarrow> 'e \<Rightarrow> ('q, 'e, 'p) vec_progress \<Rightarrow> ('q, 'e, 'p) vec_progress option" where
  "vp_set nid v p = map_option (\<lambda>i. p\<lparr>vp_entries := (vp_entries p)[i := (nid, v)]\<rparr>) (vp_index nid p)"

definition vp_is_voter :: "nat \<Rightarrow> ('q, 'e, 'p) vec_progress \<Rightarrow> bool option" where
  "vp_is_voter nid p = map_option (\<lambda>i. i < vp_voter_count p) (vp_index nid p)"

fun vp_update_all ::
  "('q \<Rightarrow> nat list \<Rightarrow> bool) \<Rightarrow> ('e \<Rightarrow> 'p::linorder) \<Rightarrow> (nat \<times> 'e) list \<Rightarrow> ('q, 'e, 'p) vec_progress
     \<Rightarrow> ('q, 'e, 'p) vec_progress panics" where
  "vp_update_all isq bw [] p = Some p"
| "vp_update_all isq bw ((i, e) # es) p = do {
     r \<leftarrow> vp_update isq bw i e p;
     vp_update_all isq bw es (snd r) }"

definition vp_upgrade_quorum_set ::
  "('q \<Rightarrow> nat list \<Rightarrow> bool) \<Rightarrow> ('q \<Rightarrow> nat list) \<Rightarrow> ('e \<Rightarrow> 'p::linorder) \<Rightarrow> 'q \<Rightarrow> nat list \<Rightarrow> 'e
     \<Rightarrow> ('q, 'e, 'p) vec_progress \<Rightarrow> ('q, 'e, 'p) vec_progress panics" where
  "vp_upgrade_quorum_set isq qids bw q learner_ids d p =
     vp_update_all isq bw (vp_entries p) (vp_new qids bw q learner_ids d)"

section \<open>What is accepted\<close>

text \<open>The ids of the voters whose value is at least \<open>t\<close>; \<open>t\<close> is granted when they are a quorum.\<close>

definition vp_voters_ge :: "('e \<Rightarrow> 'p::linorder) \<Rightarrow> ('q, 'e, 'p) vec_progress \<Rightarrow> 'p \<Rightarrow> nat list" where
  "vp_voters_ge bw p t =
     map fst (filter (\<lambda>e. t \<le> bw (snd e)) (take (vp_voter_count p) (vp_entries p)))"

definition vp_exact :: "('q \<Rightarrow> nat list \<Rightarrow> bool) \<Rightarrow> ('e \<Rightarrow> 'p::linorder) \<Rightarrow> ('q, 'e, 'p) vec_progress \<Rightarrow> bool" where
  "vp_exact isq bw p \<longleftrightarrow> isq (vp_quorum_set p) (vp_voters_ge bw p (vp_accepted p))
     \<and> (\<forall>t. isq (vp_quorum_set p) (vp_voters_ge bw p t) \<longrightarrow> t \<le> vp_accepted p)"

definition vp_wf :: "('q \<Rightarrow> nat list) \<Rightarrow> ('q, 'e, 'p) vec_progress \<Rightarrow> bool" where
  "vp_wf qids p \<longleftrightarrow> vp_voter_count p \<le> length (vp_entries p) \<and> distinct (map fst (vp_entries p))
     \<and> set (map fst (take (vp_voter_count p) (vp_entries p))) = set (qids (vp_quorum_set p))"

text \<open>The voters above the accepted value come first, in descending order.\<close>

definition vp_sorted :: "('e \<Rightarrow> 'p::linorder) \<Rightarrow> ('q, 'e, 'p) vec_progress \<Rightarrow> bool" where
  "vp_sorted bw p \<longleftrightarrow> (\<forall>i j. i < j \<longrightarrow> j < vp_voter_count p \<longrightarrow> vp_accepted p < bw (snd (vp_entries p ! j))
     \<longrightarrow> bw (snd (vp_entries p ! j)) \<le> bw (snd (vp_entries p ! i)))"

section \<open>Moving an entry up\<close>

lemma vp_position_Some:
  "vp_position t es = Some i \<Longrightarrow> i < length es \<and> fst (es ! i) = t \<and> (\<forall>j<i. fst (es ! j) \<noteq> t)"
proof (induction t es arbitrary: i rule: vp_position.induct)
  case (2 t i' e es)
  then show ?case by (auto split: if_splits simp: nth_Cons split: nat.splits)
qed simp

lemma vp_position_None: "vp_position t es = None \<longleftrightarrow> t \<notin> fst ` set es"
  by (induction t es rule: vp_position.induct) auto


definition insert_at :: "nat \<Rightarrow> nat \<Rightarrow> 'a list \<Rightarrow> 'a list" where
  "insert_at k i es = take k es @ es ! i # drop k (take i es) @ drop (Suc i) es"

lemma vp_move_up_insert:
  "i < length es \<Longrightarrow> vp_move_up bw i es = (es', k) \<Longrightarrow>
     k \<le> i \<and> es' = insert_at k i es
     \<and> (\<forall>j. k \<le> j \<longrightarrow> j < i \<longrightarrow> bw (snd (es ! j)) < bw (snd (es ! i)))
     \<and> (0 < k \<longrightarrow> bw (snd (es ! i)) \<le> bw (snd (es ! (k - 1))))"
proof (induction bw i es arbitrary: es' k rule: vp_move_up.induct)
  case (1 bw es)
  then show ?case by (auto simp: insert_at_def Cons_nth_drop_Suc)
next
  case (2 bw i es)
  show ?case
  proof (cases "bw (snd (es ! i)) < bw (snd (es ! Suc i))")
    case True
    let ?es = "es[i := es ! Suc i, Suc i := es ! i]"
    from 2 True have IH: "k \<le> i" "es' = insert_at k i ?es"
      "\<forall>j. k \<le> j \<longrightarrow> j < i \<longrightarrow> bw (snd (?es ! j)) < bw (snd (?es ! i))"
      "0 < k \<longrightarrow> bw (snd (?es ! i)) \<le> bw (snd (?es ! (k - 1)))" by auto
    have t: "take k ?es = take k es" "take i ?es = take i es" using IH(1) by auto
    have n: "?es ! i = es ! Suc i" using 2(2) by simp
    have d: "drop (Suc i) ?es = es ! i # drop (Suc (Suc i)) es"
      using 2(2) by (simp add: drop_update_swap Cons_nth_drop_Suc[symmetric])
    have "insert_at k i ?es = insert_at k (Suc i) es"
      using IH(1) 2(2) by (simp add: insert_at_def t n d take_Suc_conv_app_nth)
    moreover have "\<forall>j. k \<le> j \<longrightarrow> j < Suc i \<longrightarrow> bw (snd (es ! j)) < bw (snd (es ! Suc i))"
      using IH(3) True n by (auto simp: less_Suc_eq)
    moreover have "0 < k \<longrightarrow> bw (snd (es ! Suc i)) \<le> bw (snd (es ! (k - 1)))"
      using IH(4) n IH(1) by auto
    ultimately show ?thesis using IH(1,2) by auto
  next
    case False
    then have "es' = es" "k = Suc i" using 2(3) by auto
    then show ?thesis using 2(2) False by (simp add: insert_at_def id_take_nth_drop[symmetric])
  qed
qed

lemma insert_at_nth:
  "k \<le> i \<Longrightarrow> i < length es \<Longrightarrow> j < length es \<Longrightarrow>
     insert_at k i es ! j = (if j < k then es ! j else if j = k then es ! i else if j \<le> i then es ! (j - 1) else es ! j)"
  by (auto simp: insert_at_def nth_append min_def nth_Cons' Suc_diff_le) 

lemma length_insert_at: "k \<le> i \<Longrightarrow> i < length es \<Longrightarrow> length (insert_at k i es) = length es"
  by (simp add: insert_at_def)

lemma set_take_insert_at:
  assumes "k \<le> i" "i < n" "n \<le> length es"
  shows "set (take n (insert_at k i es)) = set (take n es)"
proof -
  have "take n es = take i es @ es ! i # take (n - Suc i) (drop (Suc i) es)"
    using assms id_take_nth_drop[of i "take n es"] by (simp add: min_def drop_take)
  moreover have "take i es = take k es @ drop k (take i es)"
    using assms(1) append_take_drop_id[of k "take i es"] by (simp add: min_def)
  ultimately have e: "take n es = take k es @ drop k (take i es) @ es ! i # take (n - Suc i) (drop (Suc i) es)"
    by (metis append.assoc)
  have "take n (insert_at k i es) = take k es @ es ! i # drop k (take i es) @ take (n - Suc i) (drop (Suc i) es)"
    using assms by (simp add: insert_at_def take_Cons' min_def Suc_diff_le)
  then show ?thesis unfolding e by auto
qed

section \<open>The scan\<close>

lemma vp_scan_cases:
  "(vp_scan isq bw q es qa i n = qa \<and>
      (\<forall>j. i \<le> j \<longrightarrow> j < i + n \<longrightarrow> (\<forall>j'. i \<le> j' \<longrightarrow> j' \<le> j \<longrightarrow> qa < bw (snd (es ! j')))
         \<longrightarrow> \<not> isq q (map fst (take (Suc j) es))))
    \<or> (\<exists>m. i \<le> m \<and> m < i + n \<and> vp_scan isq bw q es qa i n = bw (snd (es ! m)) \<and> qa < bw (snd (es ! m))
        \<and> isq q (map fst (take (Suc m) es))
        \<and> (\<forall>j. i \<le> j \<longrightarrow> j < m \<longrightarrow> qa < bw (snd (es ! j)) \<and> \<not> isq q (map fst (take (Suc j) es))))"
proof (induction isq bw q es qa i n rule: vp_scan.induct)
  case (2 isq bw q es qa i n)
  let ?V = "\<lambda>j. bw (snd (es ! j))"
  consider "?V i \<le> qa" | "qa < ?V i" "isq q (map fst (take (Suc i) es))"
    | "qa < ?V i" "\<not> isq q (map fst (take (Suc i) es))" by fastforce
  then show ?case
  proof cases
    case 1
    then show ?thesis by (auto simp: Let_def)
  next
    case 2
    then show ?thesis by (intro disjI2 exI[of _ i]) (auto simp: Let_def)
  next
    case 3
    then have e: "vp_scan isq bw q es qa i (Suc n) = vp_scan isq bw q es qa (i + 1) n"
      by (auto simp: Let_def)
    from 2[OF refl] 3 consider
      (none) "vp_scan isq bw q es qa (i + 1) n = qa"
        "\<forall>j. i + 1 \<le> j \<longrightarrow> j < i + 1 + n \<longrightarrow> (\<forall>j'. i + 1 \<le> j' \<longrightarrow> j' \<le> j \<longrightarrow> qa < ?V j') \<longrightarrow> \<not> isq q (map fst (take (Suc j) es))"
      | (some) m where "i + 1 \<le> m" "m < i + 1 + n" "vp_scan isq bw q es qa (i + 1) n = ?V m" "qa < ?V m"
        "isq q (map fst (take (Suc m) es))"
        "\<forall>j. i + 1 \<le> j \<longrightarrow> j < m \<longrightarrow> qa < ?V j \<and> \<not> isq q (map fst (take (Suc j) es))"
      by (simp add: not_le) blast
    then show ?thesis
    proof cases
      case none
      have "\<not> isq q (map fst (take (Suc j) es))"
        if "i \<le> j" "j < i + Suc n" "\<forall>j'. i \<le> j' \<longrightarrow> j' \<le> j \<longrightarrow> qa < ?V j'" for j
        using none(2) 3(2) that by (cases "j = i") auto
      then show ?thesis using e none(1) by simp
    next
      case some
      have "qa < ?V j \<and> \<not> isq q (map fst (take (Suc j) es))" if "i \<le> j" "j < m" for j
        using some(6) 3 that by (cases "j = i") auto
      then show ?thesis using e some by (intro disjI2 exI[of _ m]) auto
    qed
  qed
qed simp

text \<open>Sorted above a threshold: the entries above it are a descending prefix.\<close>

definition desc_above :: "('e \<Rightarrow> 'p::linorder) \<Rightarrow> 'p \<Rightarrow> nat \<Rightarrow> (nat \<times> 'e) list \<Rightarrow> bool" where
  "desc_above bw qa n es \<longleftrightarrow> (\<forall>i j. i < j \<longrightarrow> j < n \<longrightarrow> qa < bw (snd (es ! j)) \<longrightarrow> bw (snd (es ! j)) \<le> bw (snd (es ! i)))"

lemma vp_sorted_desc: "vp_sorted bw p \<longleftrightarrow> desc_above bw (vp_accepted p) (vp_voter_count p) (vp_entries p)"
  by (simp add: vp_sorted_def desc_above_def)

lemma desc_above_weaken: "desc_above bw qa n es \<Longrightarrow> qa \<le> qa' \<Longrightarrow> desc_above bw qa' n es"
  by (auto simp: desc_above_def)

lemma vp_move_up_desc:
  assumes "desc_above bw qa n es0" "i < n" "n \<le> length es0" "bw (snd (es0 ! i)) \<le> qa" "qa < bw (snd e)"
    and "vp_move_up bw i (es0[i := e]) = (es', k)"
  shows "desc_above bw qa n es'" "k \<le> i" "bw (snd (es' ! k)) = bw (snd e)"
    "\<And>j. j < k \<Longrightarrow> es' ! j = es0 ! j"
    "set (take n es') = set (take n (es0[i := e]))" "length es' = length es0" "es' ! k = e"
    "es' = insert_at k i (es0[i := e])"
proof -
  let ?es = "es0[i := e]"
  have il: "i < length ?es" using assms by simp
  note m = vp_move_up_insert[OF il assms(6)]
  have k: "k \<le> i" and e': "es' = insert_at k i ?es"
    and below: "\<And>j. k \<le> j \<Longrightarrow> j < i \<Longrightarrow> bw (snd (?es ! j)) < bw (snd (?es ! i))"
    and above: "0 < k \<Longrightarrow> bw (snd (?es ! i)) \<le> bw (snd (?es ! (k - 1)))"
    using m by auto
  have nth: "es' ! j = (if j < k then es0 ! j else if j = k then e else if j \<le> i then es0 ! (j - 1) else es0 ! j)"
    if "j < n" for j
    using insert_at_nth[OF k il, of j] that assms(2,3) k by (auto simp: e')
  show "k \<le> i" by (rule k)
  show "es' ! k = e" using nth[of k] k assms(2) by simp
  then show "bw (snd (es' ! k)) = bw (snd e)" by simp
  show "\<And>j. j < k \<Longrightarrow> es' ! j = es0 ! j" using nth k assms(2) by auto
  show "set (take n es') = set (take n ?es)"
    using set_take_insert_at[OF k assms(2), of ?es] assms(3) by (simp add: e')
  show "length es' = length es0" using length_insert_at[OF k il] by (simp add: e')
  show "es' = insert_at k i ?es" by (rule e')
  have old: "bw (snd (es0 ! b)) \<le> bw (snd (es0 ! a))" if "a < b" "b < n" "qa < bw (snd (es0 ! b))" for a b
    using assms(1) that by (auto simp: desc_above_def)
  have i0: "bw (snd e) \<le> bw (snd (es0 ! j))" if "j < k" for j
  proof -
    have "bw (snd e) \<le> bw (snd (es0 ! (k - 1)))" using above that k assms by auto
    moreover have "qa < bw (snd (es0 ! (k - 1)))" using calculation assms(5) by auto
    ultimately show ?thesis
      using old[of j "k - 1"] that k assms(2) by (cases "j = k - 1") (auto intro: order_trans)
  qed
  have i1: "bw (snd (es0 ! j)) < bw (snd e)" if "k \<le> j" "j < i" for j
    using below[OF that] that assms by auto
  have i2: "\<not> qa < bw (snd (es0 ! j))" if "i \<le> j" "j < n" for j
  proof
    assume "qa < bw (snd (es0 ! j))"
    with old[of i j] that assms(4) show False by (cases "j = i") auto
  qed
  show "desc_above bw qa n es'"
    unfolding desc_above_def
  proof (intro allI impI)
    fix a b assume ab: "a < b" "b < n" "qa < bw (snd (es' ! b))"
    consider "b < k" | "b = k" | "k < b" "b \<le> i" | "i < b" by linarith
    then show "bw (snd (es' ! b)) \<le> bw (snd (es' ! a))"
    proof cases
      case 1
      then show ?thesis using ab nth old[of a b] by simp
    next
      case 2
      then show ?thesis using ab nth i0[of a] by simp
    next
      case 3
      then have b: "es' ! b = es0 ! (b - 1)" using nth ab by simp
      consider "a < k" | "a = k" | "k < a" by linarith
      then show ?thesis
      proof cases
        case 1
        then show ?thesis using b nth[of a] ab 3 old[of a "b - 1"] by simp
      next
        case 2
        then show ?thesis using b nth[of a] ab 3 i1[of "b - 1"] by (simp add: less_imp_le)
      next
        case k: 3
        then show ?thesis using b nth[of a] ab 3 old[of "a - 1" "b - 1"] by simp
      qed
    next
      case 4
      then show ?thesis using ab nth[of b] i2[of b] k by simp
    qed
  qed
qed

section \<open>Granted values\<close>

lemma set_voters_ge:
  "vp_voter_count p \<le> length (vp_entries p) \<Longrightarrow>
     set (vp_voters_ge bw p t) =
       {fst (vp_entries p ! j) |j. j < vp_voter_count p \<and> t \<le> bw (snd (vp_entries p ! j))}"
  unfolding vp_voters_ge_def by (force simp: in_set_conv_nth)

lemma distinct_voters_ge: "vp_wf qids p \<Longrightarrow> distinct (vp_voters_ge bw p t)"
  unfolding vp_voters_ge_def vp_wf_def
  by (metis distinct_map_filter distinct_take take_map)

lemma set_voters_ge_update:
  assumes "i < vp_voter_count p" "vp_voter_count p \<le> length (vp_entries p)"
    "bw (snd (vp_entries p ! i)) \<le> bw e'"
  shows "set (vp_voters_ge bw (p\<lparr>vp_entries := (vp_entries p)[i := (fst (vp_entries p ! i), e')]\<rparr>) t) =
    set (vp_voters_ge bw p t) \<union> (if t \<le> bw e' then {fst (vp_entries p ! i)} else {})"
proof -
  let ?es = "vp_entries p" and ?n = "vp_voter_count p"
  let ?es' = "?es[i := (fst (?es ! i), e')]"
  have f: "fst (?es' ! j) = fst (?es ! j)" "bw (snd (?es' ! j)) = (if j = i then bw e' else bw (snd (?es ! j)))"
    if "j < ?n" for j
    using that assms by (cases "j = i"; simp)+
  have "set (vp_voters_ge bw (p\<lparr>vp_entries := ?es'\<rparr>) t)
      = {fst (?es ! j) |j. j < ?n \<and> t \<le> (if j = i then bw e' else bw (snd (?es ! j)))}"
  proof -
    have "(\<exists>j. x = fst (?es' ! j) \<and> j < ?n \<and> t \<le> bw (snd (?es' ! j))) \<longleftrightarrow>
        (\<exists>j. x = fst (?es ! j) \<and> j < ?n \<and> t \<le> (if j = i then bw e' else bw (snd (?es ! j))))" for x
      by (rule ex_cong1) (use f in auto)
    then show ?thesis
      using set_voters_ge[of "p\<lparr>vp_entries := ?es'\<rparr>" bw t] assms(2) by simp
  qed
  also have "\<dots> = {fst (?es ! j) |j. j < ?n \<and> t \<le> bw (snd (?es ! j))} \<union> (if t \<le> bw e' then {fst (?es ! i)} else {})"
    using assms(1,3) by (auto split: if_splits intro: order_trans)
  finally show ?thesis using set_voters_ge[OF assms(2)] by simp
qed

lemma desc_above_prefix:
  assumes "desc_above bw qa n es" "qa < t"
  obtains m where "m \<le> n" "\<And>j. j < n \<Longrightarrow> t \<le> bw (snd (es ! j)) \<longleftrightarrow> j < m"
proof
  let ?P = "\<lambda>j. j < n \<longrightarrow> bw (snd (es ! j)) < t"
  let ?m = "LEAST j. ?P j"
  have P: "?P ?m" by (rule LeastI[of ?P n]) simp
  show "?m \<le> n" by (rule Least_le) simp
  fix j assume j: "j < n"
  show "t \<le> bw (snd (es ! j)) \<longleftrightarrow> j < ?m"
  proof
    assume t: "t \<le> bw (snd (es ! j))"
    show "j < ?m"
    proof (rule ccontr)
      assume "\<not> j < ?m"
      then have "?m < j" using P j t by (cases "?m = j") auto
      then show False using assms t P j unfolding desc_above_def by (meson leD less_le_trans less_trans)
    qed
  next
    assume "j < ?m"
    then show "t \<le> bw (snd (es ! j))" using not_less_Least[of j ?P] by auto
  qed
qed

lemma vp_exactI:
  assumes "isq (vp_quorum_set p) (vp_voters_ge bw p (vp_accepted p))"
    "\<And>t. vp_accepted p < t \<Longrightarrow> isq (vp_quorum_set p) (vp_voters_ge bw p t) \<Longrightarrow> False"
  shows "vp_exact isq bw p"
  unfolding vp_exact_def using assms not_le by blast

context quorum_set
begin

text \<open>An update that does not cross the accepted value leaves it exact.\<close>

lemma vp_no_crossing_exact:
  assumes wf: "vp_wf ids p" and ne: "\<not> is_quorum (vp_quorum_set p) []" and ex: "vp_exact is_quorum bw p"
    and i: "i < vp_voter_count p" and le: "bw (snd (vp_entries p ! i)) \<le> bw e'"
    and nc: "\<not> (bw (snd (vp_entries p ! i)) \<le> vp_accepted p \<and> vp_accepted p < bw e')"
    and p': "p' = p\<lparr>vp_entries := (vp_entries p)[i := (fst (vp_entries p ! i), e')]\<rparr>"
    and wf': "vp_wf ids p'"
  shows "vp_exact is_quorum bw p'"
proof (rule vp_exactI)
  let ?q = "vp_quorum_set p" and ?V = "\<lambda>j. bw (snd (vp_entries p ! j))"
  have len: "vp_voter_count p \<le> length (vp_entries p)" using wf by (simp add: vp_wf_def)
  have vs: "set (vp_voters_ge bw p' t) = set (vp_voters_ge bw p t) \<union> (if t \<le> bw e' then {fst (vp_entries p ! i)} else {})" for t
    unfolding p' by (rule set_voters_ge_update[OF i len le])
  have d: "distinct (vp_voters_ge bw p t)" "distinct (vp_voters_ge bw p' t)" for t
    using distinct_voters_ge wf wf' by blast+
  have [simp]: "vp_quorum_set p' = ?q" "vp_accepted p' = vp_accepted p" by (simp_all add: p')
  show "is_quorum (vp_quorum_set p') (vp_voters_ge bw p' (vp_accepted p'))"
    using quorum_mono[OF d(1), of "vp_accepted p" "vp_voters_ge bw p' (vp_accepted p)" ?q] ex vs
    by (simp add: vp_exact_def)
  fix t assume t: "vp_accepted p' < t" "is_quorum (vp_quorum_set p') (vp_voters_ge bw p' t)"
  show False
  proof (cases "t \<le> bw e'")
    case False
    then have "is_quorum ?q (vp_voters_ge bw p t)"
      using quorum_cong[OF d, of t t ?q] vs t(2) by simp
    then show False using ex t(1) by (auto simp: vp_exact_def)
  next
    case True
    then have above: "vp_accepted p < ?V i" using nc t(1) by auto
    let ?J = "{j. j < vp_voter_count p \<and> (t \<le> ?V j \<or> j = i)}"
    let ?t = "Min (?V ` ?J)"
    have J: "finite ?J" "i \<in> ?J" using i by auto
    then have "?t \<in> ?V ` ?J" by (intro Min_in) auto
    then have t': "vp_accepted p < ?t" using above t(1) by auto
    have "set (vp_voters_ge bw p' t) \<subseteq> set (vp_voters_ge bw p ?t)"
    proof
      fix x assume "x \<in> set (vp_voters_ge bw p' t)"
      then obtain j where "j \<in> ?J" "x = fst (vp_entries p ! j)"
        using vs[of t] set_voters_ge[OF len, of bw t] i True by auto
      moreover have "?t \<le> ?V j" using calculation J(1) by (intro Min_le) auto
      ultimately show "x \<in> set (vp_voters_ge bw p ?t)"
        using set_voters_ge[OF len, of bw ?t] by auto
    qed
    then have "is_quorum ?q (vp_voters_ge bw p ?t)"
      using quorum_mono[OF d(2)] t(2) by simp
    then show False using ex t' by (auto simp: vp_exact_def)
  qed
qed

text \<open>An update that crosses it finds the greatest granted value, if the progress was sorted.\<close>

lemma vp_crossing_exact:
  assumes wf: "vp_wf ids p" and ne: "\<not> is_quorum (vp_quorum_set p) []" and ex: "vp_exact is_quorum bw p"
    and so: "vp_sorted bw p" and i: "i < vp_voter_count p"
    and cr: "bw (snd (vp_entries p ! i)) \<le> vp_accepted p" "vp_accepted p < bw e'"
    and up: "vp_move_up bw i ((vp_entries p)[i := (fst (vp_entries p ! i), e')]) = (es', k)"
    and qa: "qa = vp_scan is_quorum bw (vp_quorum_set p) es' (vp_accepted p) k (vp_voter_count p - k)"
    and p': "p' = p\<lparr>vp_entries := es', vp_accepted := qa\<rparr>"
    and wf': "vp_wf ids p'"
  shows "vp_exact is_quorum bw p' \<and> vp_sorted bw p' \<and> vp_accepted p \<le> qa"
proof -
  let ?q = "vp_quorum_set p" and ?n = "vp_voter_count p" and ?qa = "vp_accepted p"
  let ?W = "\<lambda>j. bw (snd (es' ! j))"
  let ?e = "(fst (vp_entries p ! i), e')"
  let ?p1 = "p\<lparr>vp_entries := (vp_entries p)[i := ?e]\<rparr>"
  have len: "?n \<le> length (vp_entries p)" using wf by (simp add: vp_wf_def)
  have "?qa < bw (snd ?e)" using cr by simp
  note m = vp_move_up_desc[OF so[unfolded vp_sorted_desc] i len cr(1) this up]
  have [simp]: "vp_quorum_set p' = ?q" "vp_accepted p' = qa" "vp_voter_count p' = ?n" "vp_entries p' = es'"
    by (simp_all add: p')
  have len': "?n \<le> length es'" using m(6) len by simp
  have kn: "k < ?n" using m(2) i by simp
  have d: "distinct (vp_voters_ge bw p t)" "distinct (vp_voters_ge bw p' t)" for t
    using distinct_voters_ge wf wf' by blast+
  have dm: "distinct (map fst (take j es'))" for j
    using wf' by (simp add: vp_wf_def take_map[symmetric])
  have vs: "set (vp_voters_ge bw p' t) = set (vp_voters_ge bw p t) \<union> (if t \<le> bw e' then {fst (vp_entries p ! i)} else {})" for t
  proof -
    have "set (vp_voters_ge bw p' t) = set (vp_voters_ge bw ?p1 t)"
      using m(5) by (simp add: vp_voters_ge_def)
    also have "\<dots> = set (vp_voters_ge bw p t) \<union> (if t \<le> bw e' then {fst (vp_entries p ! i)} else {})"
      by (rule set_voters_ge_update[OF i len]) (use cr in auto)
    finally show ?thesis .
  qed
  have pre: "set (vp_voters_ge bw p' t) = set (map fst (take j es'))"
    if "j \<le> ?n" "\<And>a. a < ?n \<Longrightarrow> t \<le> ?W a \<longleftrightarrow> a < j" for t j
  proof -
    have "set (map fst (take j es')) = {fst (es' ! a) |a. a < j}"
      using that(1) len' by (auto simp: nth_image[symmetric])
    moreover have "set (vp_voters_ge bw p' t) = {fst (es' ! a) |a. a < ?n \<and> t \<le> ?W a}"
      using set_voters_ge[of p' bw t] len' by simp
    moreover have "(a < ?n \<and> t \<le> ?W a) = (a < j)" for a using that by (meson less_le_trans)
    ultimately show ?thesis by simp
  qed
  have grant_qa: "is_quorum ?q (vp_voters_ge bw p' ?qa)"
    using quorum_mono[OF d(1), of ?qa "vp_voters_ge bw p' ?qa" ?q] ex vs by (simp add: vp_exact_def)
  have top: "\<exists>j. k \<le> j \<and> j < ?n \<and> (\<forall>a<?n. t \<le> ?W a \<longleftrightarrow> a \<le> j) \<and> is_quorum ?q (map fst (take (Suc j) es'))"
    if t: "?qa < t" "is_quorum ?q (vp_voters_ge bw p' t)" for t
  proof -
    obtain b where b: "b \<le> ?n" "\<And>a. a < ?n \<Longrightarrow> t \<le> ?W a \<longleftrightarrow> a < b"
      using desc_above_prefix[OF m(1) t(1)] by metis
    have isq: "is_quorum ?q (map fst (take b es'))"
      using quorum_cong[OF d(2) dm, of t b ?q] pre[OF b] t(2) by simp
    have "k < b"
    proof (rule ccontr)
      assume "\<not> k < b"
      then have "t \<le> bw e' \<Longrightarrow> False" using b(2)[OF kn] m(3) by simp
      then have "set (vp_voters_ge bw p' t) = set (vp_voters_ge bw p t)" using vs[of t] by auto
      then have "is_quorum ?q (vp_voters_ge bw p t)" using quorum_cong[OF d(2) d(1)] t(2) by blast
      then show False using ex t(1) by (auto simp: vp_exact_def)
    qed
    then obtain j where j: "b = Suc j" "k \<le> j" by (cases b) auto
    have "\<forall>a<?n. t \<le> ?W a \<longleftrightarrow> a \<le> j" using b(2) j(1) by (simp add: less_Suc_eq_le)
    then show ?thesis using b(1) isq j by (intro exI[of _ j]) auto
  qed
  from vp_scan_cases[of is_quorum bw ?q es' ?qa k "?n - k"] kn
  consider (none) "qa = ?qa"
      "\<And>j. k \<le> j \<Longrightarrow> j < ?n \<Longrightarrow> (\<forall>j'. k \<le> j' \<longrightarrow> j' \<le> j \<longrightarrow> ?qa < ?W j') \<Longrightarrow> \<not> is_quorum ?q (map fst (take (Suc j) es'))"
    | (some) b where "k \<le> b" "b < ?n" "qa = ?W b" "?qa < ?W b" "is_quorum ?q (map fst (take (Suc b) es'))"
      "\<And>j. k \<le> j \<Longrightarrow> j < b \<Longrightarrow> ?qa < ?W j \<and> \<not> is_quorum ?q (map fst (take (Suc j) es'))"
    unfolding qa by auto
  then have "vp_exact is_quorum bw p' \<and> ?qa \<le> qa"
  proof cases
    case none
    have "vp_exact is_quorum bw p'"
    proof (rule vp_exactI)
      show "is_quorum (vp_quorum_set p') (vp_voters_ge bw p' (vp_accepted p'))" using grant_qa none(1) by simp
      fix t assume "vp_accepted p' < t" "is_quorum (vp_quorum_set p') (vp_voters_ge bw p' t)"
      then have t: "?qa < t" "is_quorum ?q (vp_voters_ge bw p' t)" using none(1) by simp_all
      from top[OF this] obtain j where j: "k \<le> j" "j < ?n" "\<forall>a<?n. t \<le> ?W a \<longleftrightarrow> a \<le> j"
        "is_quorum ?q (map fst (take (Suc j) es'))" by blast
      have "\<forall>j'. k \<le> j' \<longrightarrow> j' \<le> j \<longrightarrow> ?qa < ?W j'" using j(2,3) t(1) by (meson le_less_trans less_le_trans)
      with none(2) j show False by blast
    qed
    then show ?thesis using none(1) by simp
  next
    case some
    have "vp_exact is_quorum bw p'"
    proof (rule vp_exactI)
      have "set (map fst (take (Suc b) es')) \<subseteq> set (vp_voters_ge bw p' (?W b))"
      proof
        fix x assume "x \<in> set (map fst (take (Suc b) es'))"
        then obtain j where j: "j \<le> b" "x = fst (es' ! j)"
          using some(2) len' by (auto simp: in_set_conv_nth less_Suc_eq_le)
        have "?W b \<le> ?W j" using m(1) j(1) some(2,4) unfolding desc_above_def by (cases "j = b") auto
        then show "x \<in> set (vp_voters_ge bw p' (?W b))"
          using j some(2) set_voters_ge[of p' bw "?W b"] len' by auto
      qed
      then show "is_quorum (vp_quorum_set p') (vp_voters_ge bw p' (vp_accepted p'))"
        using quorum_mono[OF dm _ some(5)] some(3) by simp
      fix t assume "vp_accepted p' < t" "is_quorum (vp_quorum_set p') (vp_voters_ge bw p' t)"
      then have t: "?W b < t" "is_quorum ?q (vp_voters_ge bw p' t)" using some(3) by simp_all
      from top[OF less_trans[OF some(4) t(1)] t(2)] obtain j where j: "k \<le> j" "j < ?n"
        "\<forall>a<?n. t \<le> ?W a \<longleftrightarrow> a \<le> j" "is_quorum ?q (map fst (take (Suc j) es'))" by blast
      have "\<not> t \<le> ?W b" using t(1) by simp
      then have "j < b" using j(3) some(2) by auto
      then show False using some(6) j by blast
    qed
    then show ?thesis using some(3,4) by simp
  qed
  moreover have "vp_sorted bw p'"
    using desc_above_weaken[OF m(1)] calculation by (simp add: vp_sorted_desc)
  ultimately show ?thesis by simp
qed

text \<open>An update that changes no voter.\<close>

lemma vp_same_voters_exact:
  fixes bw :: "'e \<Rightarrow> 'p::linorder" and p p' :: "('q, 'e, 'p) vec_progress"
  assumes "vp_exact is_quorum bw p" "vp_sorted bw p" "vp_quorum_set p' = vp_quorum_set p"
    "vp_accepted p' = vp_accepted p" "vp_voter_count p' = vp_voter_count p"
    "map (\<lambda>e. (fst e, bw (snd e))) (take (vp_voter_count p) (vp_entries p'))
      = map (\<lambda>e. (fst e, bw (snd e))) (take (vp_voter_count p) (vp_entries p))"
    "vp_voter_count p \<le> length (vp_entries p)" "vp_voter_count p \<le> length (vp_entries p')"
  shows "vp_exact is_quorum bw p' \<and> vp_sorted bw p'"
proof -
  let ?n = "vp_voter_count p"
  have ge: "vp_voters_ge bw r t = map fst (filter (\<lambda>x. t \<le> snd x) (map (\<lambda>e. (fst e, bw (snd e))) (take (vp_voter_count r) (vp_entries r))))"
    for r :: "('q, 'e, 'p) vec_progress" and t
    by (simp add: vp_voters_ge_def filter_map comp_def)
  have "vp_voters_ge bw p' t = vp_voters_ge bw p t" for t
    unfolding ge using assms(5,6) by simp
  moreover have "bw (snd (vp_entries p' ! j)) = bw (snd (vp_entries p ! j))" if "j < ?n" for j
    using arg_cong[OF assms(6), of "\<lambda>xs. snd (xs ! j)"] that assms(7,8) by simp
  ultimately show ?thesis
    using assms(1-5) by (auto simp: vp_exact_def vp_sorted_def)
qed

end

lemma insert_at_parts:
  assumes "k \<le> i" "i < length es"
  obtains A B C x where "es = A @ B @ x # C" "insert_at k i es = A @ x # B @ C"
proof
  show "es = take k es @ drop k (take i es) @ es ! i # drop (Suc i) es"
    using assms append_take_drop_id[of k "take i es"] id_take_nth_drop[of i es]
    by (metis append.assoc min.absorb1 take_take)
  show "insert_at k i es = take k es @ es ! i # drop k (take i es) @ drop (Suc i) es"
    by (simp add: insert_at_def)
qed

lemma distinct_insert_at:
  assumes "k \<le> i" "i < length es"
  shows "distinct (map fst (insert_at k i es)) \<longleftrightarrow> distinct (map fst es)"
proof -
  obtain A B C x where "es = A @ B @ x # C" "insert_at k i es = A @ x # B @ C"
    by (rule insert_at_parts[OF assms])
  then show ?thesis by auto
qed

lemma vp_update_index_wf:
  assumes "vp_wf qids p" "i < length (vp_entries p)"
  shows "vp_wf qids (p\<lparr>vp_entries := (vp_entries p)[i := (fst (vp_entries p ! i), e')]\<rparr>)"
proof -
  have m: "map fst ((vp_entries p)[i := (fst (vp_entries p ! i), e')]) = map fst (vp_entries p)"
    using assms(2) by (metis fst_conv list_update_id map_update nth_map)
  show ?thesis
    using assms unfolding vp_wf_def by (simp add: take_map[symmetric] m del: set_map)
qed

lemma vp_insert_at_wf:
  assumes "vp_wf qids p" "k \<le> i" "i < vp_voter_count p"
  shows "vp_wf qids (p\<lparr>vp_entries := insert_at k i (vp_entries p), vp_accepted := qa\<rparr>)"
  using assms distinct_insert_at[OF assms(2), of "vp_entries p"]
    set_take_insert_at[OF assms(2,3)] length_insert_at[OF assms(2), of "vp_entries p"]
  by (auto simp: vp_wf_def)

text \<open>The cases of an update.\<close>

lemma vp_update_with_cases:
  assumes "vp_update_with isq bw t f p = Some (r, p')"
  obtains (unknown) "vp_index t p = None" "r = Inl (vp_accepted p)" "p' = p"
  | (plain) i e' where "vp_index t p = Some i" "f (snd (vp_entries p ! i)) = Some e'"
      "bw (snd (vp_entries p ! i)) \<le> bw e'" "r = Inr (vp_accepted p)"
      "p' = p\<lparr>vp_entries := (vp_entries p)[i := (fst (vp_entries p ! i), e')]\<rparr>"
      "vp_voter_count p \<le> i \<or> \<not> (bw (snd (vp_entries p ! i)) \<le> vp_accepted p \<and> vp_accepted p < bw e')"
  | (crossing) i e' es' k qa where "vp_index t p = Some i" "f (snd (vp_entries p ! i)) = Some e'"
      "i < vp_voter_count p" "bw (snd (vp_entries p ! i)) \<le> vp_accepted p" "vp_accepted p < bw e'"
      "vp_move_up bw i ((vp_entries p)[i := (fst (vp_entries p ! i), e')]) = (es', k)"
      "qa = vp_scan isq bw (vp_quorum_set p) es' (vp_accepted p) k (vp_voter_count p - k)"
      "r = Inr qa" "p' = p\<lparr>vp_entries := es', vp_accepted := qa\<rparr>"
proof (cases "vp_index t p")
  case None
  then have u: "vp_update_with isq bw t f p = Some (Inl (vp_accepted p), p)"
    by (simp add: vp_update_with_def)
  have "(r, p') = (Inl (vp_accepted p), p)" using assms unfolding u by (rule option.inject[THEN iffD1, symmetric])
  then have "r = Inl (vp_accepted p)" "p' = p" by blast+
  then show thesis by (rule unknown[OF None])
next
  case (Some i)
  let ?ent = "vp_entries p ! i"
  obtain e' where e': "f (snd ?ent) = Some e'"
    using assms Some by (cases "f (snd ?ent)") (simp_all add: vp_update_with_def Let_def)
  have ge: "bw (snd ?ent) \<le> bw e'"
    using assms Some e' by (simp add: vp_update_with_def Let_def)
  let ?es = "(vp_entries p)[i := (fst ?ent, e')]"
  show thesis
  proof (cases "i < vp_voter_count p \<and> bw (snd ?ent) \<le> vp_accepted p \<and> vp_accepted p < bw e'")
    case True
    obtain es' k where mu: "vp_move_up bw i ?es = (es', k)" by (metis surj_pair)
    have "bw (snd ?ent) \<noteq> bw e'" "\<not> vp_voter_count p \<le> i" using True by auto
    then have "(r, p') = (let qa = vp_scan isq bw (vp_quorum_set p) es' (vp_accepted p) k (vp_voter_count p - k)
        in (Inr qa, p\<lparr>vp_entries := es', vp_accepted := qa\<rparr>))"
      using assms True Some e' ge mu by (simp add: vp_update_with_def Let_def)
    then show thesis using crossing[OF Some e' _ _ _ mu refl] True by (simp add: Let_def)
  next
    case False
    then have u: "vp_update_with isq bw t f p = Some (Inr (vp_accepted p), p\<lparr>vp_entries := ?es\<rparr>)"
      using Some e' ge by (auto simp: vp_update_with_def Let_def)
    have "(r, p') = (Inr (vp_accepted p), p\<lparr>vp_entries := ?es\<rparr>)"
      using assms unfolding u by (rule option.inject[THEN iffD1, symmetric])
    moreover have "vp_voter_count p \<le> i \<or> \<not> (bw (snd ?ent) \<le> vp_accepted p \<and> vp_accepted p < bw e')"
      using False by auto
    ultimately show thesis using plain[OF Some e' ge] by blast
  qed
qed

context quorum_set
begin

lemma vp_update_with_wf:
  assumes "vp_wf ids p" "vp_update_with is_quorum bw t f p = Some (r, p')"
  shows "vp_wf ids p' \<and> vp_quorum_set p' = vp_quorum_set p"
  using assms(2)
proof (cases rule: vp_update_with_cases)
  case (plain i e')
  then show ?thesis
    using vp_update_index_wf[OF assms(1), of i e'] vp_position_Some[of t "vp_entries p" i]
    by (simp add: vp_index_def)
next
  case (crossing i e' es' k qa)
  let ?p1 = "p\<lparr>vp_entries := (vp_entries p)[i := (fst (vp_entries p ! i), e')]\<rparr>"
  have i: "i < length (vp_entries p)" using crossing(3) assms(1) by (simp add: vp_wf_def)
  have "k \<le> i" "es' = insert_at k i (vp_entries ?p1)"
    using vp_move_up_insert[OF _ crossing(6)] i by auto
  then show ?thesis
    using vp_insert_at_wf[OF vp_update_index_wf[OF assms(1) i, of e'], of k i qa] crossing by simp
qed (use assms in simp)

text \<open>
  An update of a sorted progress keeps the accepted value exact, and it keeps the progress
  sorted unless it raises a voter that was above the accepted value already.
\<close>

lemma vp_update_with_exact:
  assumes wf: "vp_wf ids p" and ne: "\<not> is_quorum (vp_quorum_set p) []"
    and ex: "vp_exact is_quorum bw p" and so: "vp_sorted bw p"
    and up: "vp_update_with is_quorum bw t f p = Some (r, p')"
  shows "vp_exact is_quorum bw p' \<and> vp_accepted p \<le> vp_accepted p'
    \<and> (vp_sorted bw p' \<or> (\<exists>i e'. vp_index t p = Some i \<and> i < vp_voter_count p
          \<and> vp_accepted p < bw (snd (vp_entries p ! i))
          \<and> p' = p\<lparr>vp_entries := (vp_entries p)[i := (fst (vp_entries p ! i), e')]\<rparr>))"
proof -
  have wf': "vp_wf ids p'" using vp_update_with_wf[OF wf up] by simp
  show ?thesis
    using up
  proof (cases rule: vp_update_with_cases)
    case unknown
    then show ?thesis using ex so by simp
  next
    case (plain i e')
    show ?thesis
    proof (cases "i < vp_voter_count p")
      case False
      then have "vp_exact is_quorum bw p' \<and> vp_sorted bw p'"
        using wf plain by (intro vp_same_voters_exact[OF ex so]) (auto simp: vp_wf_def)
      then show ?thesis using plain by simp
    next
      case True
      then have nc: "\<not> (bw (snd (vp_entries p ! i)) \<le> vp_accepted p \<and> vp_accepted p < bw e')"
        using plain by auto
      have ex': "vp_exact is_quorum bw p'"
        by (rule vp_no_crossing_exact[OF wf ne ex True plain(3) nc plain(5) wf'])
      show ?thesis
      proof (cases "vp_accepted p < bw (snd (vp_entries p ! i))")
        case True
        then show ?thesis using ex' plain \<open>i < vp_voter_count p\<close> by auto
      next
        case False
        then have low: "bw (snd (vp_entries p ! i)) \<le> vp_accepted p" "bw e' \<le> vp_accepted p" using nc by auto
        have "vp_sorted bw p'"
          unfolding vp_sorted_def
        proof (intro allI impI)
          fix a b assume ab: "a < b" "b < vp_voter_count p'" "vp_accepted p' < bw (snd (vp_entries p' ! b))"
          have len: "vp_voter_count p \<le> length (vp_entries p)" using wf by (simp add: vp_wf_def)
          have b: "b \<noteq> i" using ab low plain(5) len True by auto
          then have old: "bw (snd (vp_entries p ! b)) \<le> bw (snd (vp_entries p ! a))"
            "vp_accepted p < bw (snd (vp_entries p ! b))"
            using so ab plain(5) by (auto simp: vp_sorted_def)
          then have "a \<noteq> i" using low by auto
          with b old show "bw (snd (vp_entries p' ! b)) \<le> bw (snd (vp_entries p' ! a))"
            using plain(5) by simp
        qed
        then show ?thesis using ex' plain by simp
      qed
    qed
  next
    case (crossing i e' es' k qa)
    then show ?thesis
      using vp_crossing_exact[OF wf ne ex so crossing(3-7) crossing(9) wf'] by simp
  qed
qed

text \<open>
  When any two voters are a quorum, as in clusters of up to three voters, at most one voter can
  be above the accepted value, so the progress stays sorted.
\<close>

lemma vp_pairs_one_above:
  assumes wf: "vp_wf ids p" and ex: "vp_exact is_quorum bw p"
    and pairs: "\<And>i j. i \<in> set (ids (vp_quorum_set p)) \<Longrightarrow> j \<in> set (ids (vp_quorum_set p)) \<Longrightarrow> i \<noteq> j
      \<Longrightarrow> is_quorum (vp_quorum_set p) [i, j]"
    and a: "a < vp_voter_count p" "vp_accepted p < bw (snd (vp_entries p ! a))"
    and b: "b < vp_voter_count p" "vp_accepted p < bw (snd (vp_entries p ! b))"
  shows "a = b"
proof (rule ccontr)
  assume ne: "a \<noteq> b"
  let ?es = "vp_entries p" and ?q = "vp_quorum_set p"
  let ?t = "min (bw (snd (?es ! a))) (bw (snd (?es ! b)))"
  have len: "vp_voter_count p \<le> length ?es" and d: "distinct (map fst ?es)"
    and ids: "set (map fst (take (vp_voter_count p) ?es)) = set (ids ?q)"
    using wf by (auto simp: vp_wf_def)
  have f: "fst (?es ! a) \<noteq> fst (?es ! b)"
    using nth_eq_iff_index_eq[OF d, of a b] a(1) b(1) len ne by simp
  have "fst (?es ! c) \<in> set (ids ?q)" if "c < vp_voter_count p" for c
    unfolding ids[symmetric] using that len by (auto simp: nth_image[symmetric])
  then have "is_quorum ?q [fst (?es ! a), fst (?es ! b)]" using pairs f a(1) b(1) by blast
  moreover have "set [fst (?es ! a), fst (?es ! b)] \<subseteq> set (vp_voters_ge bw p ?t)"
    using set_voters_ge[OF len, of bw ?t] a(1) b(1) by auto
  ultimately have "is_quorum ?q (vp_voters_ge bw p ?t)"
    using quorum_mono[of "[fst (?es ! a), fst (?es ! b)]"] f by simp
  then have "?t \<le> vp_accepted p" using ex by (simp add: vp_exact_def)
  then show False using a(2) b(2) by (auto simp: min_le_iff_disj)
qed

lemma vp_update_with_pairs:
  assumes wf: "vp_wf ids p" and ne: "\<not> is_quorum (vp_quorum_set p) []"
    and ex: "vp_exact is_quorum bw p" and so: "vp_sorted bw p"
    and up: "vp_update_with is_quorum bw t f p = Some (r, p')"
    and pairs: "\<And>i j. i \<in> set (ids (vp_quorum_set p)) \<Longrightarrow> j \<in> set (ids (vp_quorum_set p)) \<Longrightarrow> i \<noteq> j
      \<Longrightarrow> is_quorum (vp_quorum_set p) [i, j]"
  shows "vp_wf ids p' \<and> vp_quorum_set p' = vp_quorum_set p \<and> vp_exact is_quorum bw p' \<and> vp_sorted bw p'"
proof -
  have e: "vp_exact is_quorum bw p'" and w: "vp_wf ids p'" "vp_quorum_set p' = vp_quorum_set p"
    using vp_update_with_exact[OF wf ne ex so up] vp_update_with_wf[OF wf up] by auto
  have "vp_sorted bw p'"
    using vp_update_with_exact[OF wf ne ex so up]
  proof (elim conjE disjE exE)
    fix i e' assume i: "i < vp_voter_count p" "vp_accepted p < bw (snd (vp_entries p ! i))"
      and p': "p' = p\<lparr>vp_entries := (vp_entries p)[i := (fst (vp_entries p ! i), e')]\<rparr>"
    have len: "vp_voter_count p \<le> length (vp_entries p)" using wf by (simp add: vp_wf_def)
    have "i = 0"
    proof (rule ccontr)
      assume "i \<noteq> 0"
      then have "vp_accepted p < bw (snd (vp_entries p ! 0))"
        using so i unfolding vp_sorted_def by (meson gr0I less_le_trans)
      then show False using vp_pairs_one_above[OF wf ex pairs _ _ i, of 0] i(1) \<open>i \<noteq> 0\<close> by simp
    qed
    moreover have "\<not> vp_accepted p < bw (snd (vp_entries p ! j))" if "j < vp_voter_count p" "j \<noteq> i" for j
      using vp_pairs_one_above[OF wf ex pairs that(1) _ i] that by blast
    ultimately show "vp_sorted bw p'" by (auto simp: p' vp_sorted_def)
  qed
  with e w show ?thesis by simp
qed

lemma vp_new_exact:
  assumes "is_quorum q (ids q)" "\<not> is_quorum q []" "distinct learners" "set learners \<inter> set (ids q) = {}"
  shows "vp_wf ids (vp_new ids bw q learners d) \<and> vp_exact is_quorum bw (vp_new ids bw q learners d)
    \<and> vp_sorted bw (vp_new ids bw q learners d)"
proof -
  have c: "map fst (map (\<lambda>i. (i, d)) xs) = xs" for xs :: "nat list" by (simp add: comp_def)
  have "vp_voters_ge bw (vp_new ids bw q learners d) t = (if t \<le> bw d then ids q else [])" for t
    by (auto simp: vp_voters_ge_def vp_new_def Let_def filter_map comp_def)
  then have "vp_exact is_quorum bw (vp_new ids bw q learners d)"
    using assms(1,2) by (auto simp: vp_exact_def vp_new_def Let_def)
  moreover have "vp_sorted bw (vp_new ids bw q learners d)"
    by (auto simp: vp_sorted_def vp_new_def Let_def nth_append)
  moreover have "vp_wf ids (vp_new ids bw q learners d)"
    using assms(3,4) bs_wf_distinct[OF ids_sorted[of q]]
    by (auto simp: vp_wf_def vp_new_def Let_def comp_def)
  ultimately show ?thesis by simp
qed

end

section \<open>The progress of a leader\<close>

text \<open>
  C22. The incremental recalculation is right on a sorted progress: after any update
  of one voter or learner, the accepted value is a value granted by a joint quorum and no greater
  value is, and it never goes down.
\<close>

theorem vec_progress_update_exact:
  assumes "vp_wf joint_ids p" "joint_wf (vp_quorum_set p)"
    "vp_exact joint_is_quorum bw p" "vp_sorted bw p"
    "vp_update_with joint_is_quorum bw nid f p = Some (r, p')"
  shows "vp_wf joint_ids p' \<and> vp_exact joint_is_quorum bw p' \<and> vp_accepted p \<le> vp_accepted p'"
proof -
  have ne: "\<not> joint_is_quorum (vp_quorum_set p) []"
    using assms(2) by (cases "vp_quorum_set p") (auto simp: joint_wf_def majority_is_quorum_iff)
  show ?thesis
    using joint.vp_update_with_exact[OF assms(1) ne assms(3-5)]
      joint.vp_update_with_wf[OF assms(1,5)] by simp
qed

theorem vec_progress_update_exact_witness:
  "vp_exact joint_is_quorum (\<lambda>x. x)
     \<lparr>vp_quorum_set = [[1, 2, 3]], vp_accepted = 4, vp_voter_count = 3, vp_entries = [(1, 5), (2, 4), (3, 0::nat)]\<rparr>"
proof -
  let ?p = "\<lparr>vp_quorum_set = [[1, 2, 3]], vp_accepted = 0, vp_voter_count = 3, vp_entries = [(1, 5), (2, 0), (3, 0::nat)]\<rparr>"
  have s: "vp_sorted (\<lambda>x. x) ?p" by (auto simp: vp_sorted_def numeral_3_eq_3 less_Suc_eq)
  have e: "vp_exact joint_is_quorum (\<lambda>x. x) ?p"
    by (auto simp: vp_exact_def vp_voters_ge_def majority_is_quorum_def split: if_splits)
  have u: "vp_update_with joint_is_quorum (\<lambda>x. x) 2 (\<lambda>_. Some 4) ?p
    = Some (Inr 4, \<lparr>vp_quorum_set = [[1, 2, 3]], vp_accepted = 4, vp_voter_count = 3, vp_entries = [(1, 5), (2, 4), (3, 0::nat)]\<rparr>)"
    by code_simp
  show ?thesis
    using vec_progress_update_exact[OF _ _ e s u] by (simp add: vp_wf_def joint_wf_def)
qed

text \<open>
  In clusters where any two voters are a quorum (up to three voters) the accepted value stays
  exact through every sequence of updates: the invariant is preserved by each of them.
\<close>

theorem vec_progress_small_cluster:
  assumes "vp_wf joint_ids p" "vp_quorum_set p = [c]" "distinct c" "length c \<le> 3"
    "vp_exact joint_is_quorum bw p" "vp_sorted bw p"
    "vp_update_with joint_is_quorum bw nid f p = Some (r, p')"
  shows "vp_wf joint_ids p' \<and> vp_quorum_set p' = [c] \<and> vp_exact joint_is_quorum bw p' \<and> vp_sorted bw p'"
proof -
  have "\<not> joint_is_quorum (vp_quorum_set p) []" using assms(2) by (simp add: majority_is_quorum_iff)
  moreover have "joint_is_quorum (vp_quorum_set p) [i, j]"
    if "i \<in> set (joint_ids (vp_quorum_set p))" "j \<in> set (joint_ids (vp_quorum_set p))" "i \<noteq> j" for i j
    using that assms(2,4) by (simp add: majority_is_quorum_iff)
  ultimately show ?thesis
    using joint.vp_update_with_pairs[OF assms(1) _ assms(5-7)] assms(2) by metis
qed

theorem vec_progress_small_cluster_witness:
  "vp_sorted (\<lambda>x. x)
     \<lparr>vp_quorum_set = [[1, 2, 3::nat]], vp_accepted = 4, vp_voter_count = 3, vp_entries = [(1, 5), (2, 4), (3, 0::nat)]\<rparr>"
proof -
  let ?p = "\<lparr>vp_quorum_set = [[1, 2, 3]], vp_accepted = 0, vp_voter_count = 3, vp_entries = [(1, 5), (2, 0), (3, 0::nat)]\<rparr>"
  have s: "vp_sorted (\<lambda>x. x) ?p" by (auto simp: vp_sorted_def numeral_3_eq_3 less_Suc_eq)
  have e: "vp_exact joint_is_quorum (\<lambda>x. x) ?p"
    by (auto simp: vp_exact_def vp_voters_ge_def majority_is_quorum_def split: if_splits)
  have u: "vp_update_with joint_is_quorum (\<lambda>x. x) 2 (\<lambda>_. Some 4) ?p
    = Some (Inr 4, \<lparr>vp_quorum_set = [[1, 2, 3]], vp_accepted = 4, vp_voter_count = 3, vp_entries = [(1, 5), (2, 4), (3, 0::nat)]\<rparr>)"
    by code_simp
  show ?thesis
    using vec_progress_small_cluster[OF _ _ _ _ e s u, of "[1, 2, 3]"] by (simp add: vp_wf_def)
qed

section \<open>A value accepted too early\<close>






end
