(* ===== verification/Proposer.thy ===== *)
theory Proposer
imports ProgressEntry VecProgress
begin

text \<open>
  \<^verbatim>\<open>openraft/src/proposer\<close>: the candidate, which collects granted votes, and the leader, which
  assigns log ids and tracks what every node has stored and acknowledged.
\<close>

type_synonym leader_progress = "(joint, progress_entry, log_id option) vec_progress"
type_synonym clock_progress = "(joint, nat option, nat option) vec_progress"

record leader =
  ld_transfer_to :: "nat option"
  ld_committed_vote :: committed_vote
  ld_next_heartbeat :: nat
  ld_last_log_id :: "log_id option"
  ld_noop_log_id :: log_id
  ld_progress :: leader_progress
  ld_clock_progress :: clock_progress

definition leader_new ::
  "nat \<Rightarrow> committed_vote \<Rightarrow> joint \<Rightarrow> nat list \<Rightarrow> leader_log_ids \<Rightarrow> leader panics" where
  "leader_new now v qs learners ids = do {
     ensure (Some (cv_committed_leader_id v) \<ge> opt_leader (lli_last ids));
     ensure (Some (cv_committed_leader_id v) \<ge> opt_leader (lli_first ids));
     let first = lli_first ids;
     noop \<leftarrow> (if opt_leader first = Some (cv_committed_leader_id v) then first
             else Some (LogId (cv_committed_leader_id v) (next_index (lli_last ids))));
     let la = lli_last ids;
     Some \<lparr>ld_transfer_to = None, ld_committed_vote = v, ld_next_heartbeat = now,
           ld_last_log_id = la, ld_noop_log_id = noop,
           ld_progress = vp_new joint_ids pe_matching qs learners (pe_empty (next_index la)),
           ld_clock_progress = vp_new joint_ids (\<lambda>x. x) qs learners None\<rparr> }"

definition ld_mark_transfer :: "nat \<Rightarrow> leader \<Rightarrow> leader" where
  "ld_mark_transfer to l = l\<lparr>ld_transfer_to := Some to\<rparr>"

fun assign_from :: "committed_leader_id \<Rightarrow> nat \<Rightarrow> entry list \<Rightarrow> entry list \<times> nat" where
  "assign_from lid index [] = ([], index)"
| "assign_from lid index (e # es) =
     (case assign_from lid (index + 1) es of
        (es', i) \<Rightarrow> (entry_set_log_id (LogId lid index) e # es', i))"

definition ld_assign_log_ids :: "entry list \<Rightarrow> leader \<Rightarrow> (entry list \<times> leader) panics" where
  "ld_assign_log_ids es l = do {
     ensure (ld_transfer_to l = None);
     (if length es = 0 then Some (es, l)
      else do {
        let lid = cv_committed_leader_id (ld_committed_vote l);
        (case assign_from lid (next_index (ld_last_log_id l)) es of
           (es', index) \<Rightarrow> do {
             index' \<leftarrow> sub_panics index 1;
             Some (es', l\<lparr>ld_last_log_id := Some (LogId lid index')\<rparr>) }) }) }"

text \<open>The result is the acknowledged time; the leader's own clock is brought up to date first.\<close>

definition ld_last_quorum_acked_time :: "nat \<Rightarrow> leader \<Rightarrow> (nat option \<times> leader) panics" where
  "ld_last_quorum_acked_time now l = do {
     let node_id = cv_node_id (ld_committed_vote l);
     r \<leftarrow> vp_increase_to joint_is_quorum (\<lambda>x. x) node_id (Some now) (ld_clock_progress l);
     Some (case fst r of Inl x \<Rightarrow> x | Inr x \<Rightarrow> x, l\<lparr>ld_clock_progress := snd r\<rparr>) }"

text \<open>\<^verbatim>\<open>RaftState::new_leader\<close>: a leader built from the acceptor, without an election.\<close>

definition rs_new_leader :: "nat \<Rightarrow> raft_state \<Rightarrow> leader panics" where
  "rs_new_leader now s =
     (let em = em_membership (ms_effective (rs_membership_state s))
      in leader_new now (vote_into_committed (vote_ref s)) (mem_to_quorum_set em)
           (mem_learner_ids em) (lil_by_last_leader (rs_log_ids s)))"

section \<open>The candidate\<close>

record candidate =
  cd_starting_time :: nat
  cd_vote :: raft_vote
  cd_last_log_id :: "log_id option"
  cd_progress :: "(joint, bool, bool) vec_progress"
  cd_quorum_set :: joint
  cd_learner_ids :: "nat list"

definition candidate_new ::
  "nat \<Rightarrow> raft_vote \<Rightarrow> log_id option \<Rightarrow> joint \<Rightarrow> nat list \<Rightarrow> candidate" where
  "candidate_new t v la qs learners =
     \<lparr>cd_starting_time = t, cd_vote = v, cd_last_log_id = la,
      cd_progress = vp_new joint_ids (\<lambda>x. x) qs [] False, cd_quorum_set = qs, cd_learner_ids = learners\<rparr>"

text \<open>\<^verbatim>\<open>expect("target not in quorum set")\<close> panics for a target that is not a voter.\<close>

definition cd_grant_by :: "nat \<Rightarrow> candidate \<Rightarrow> (bool \<times> candidate) panics" where
  "cd_grant_by target c = do {
     r \<leftarrow> vp_update joint_is_quorum (\<lambda>x. x) target True (cd_progress c);
     granted \<leftarrow> (case fst r of Inr g \<Rightarrow> Some g | Inl _ \<Rightarrow> None);
     Some (granted, c\<lparr>cd_progress := snd r\<rparr>) }"

definition cd_granters :: "candidate \<Rightarrow> nat list" where
  "cd_granters c = map fst (filter snd (vp_entries (cd_progress c)))"

definition cd_into_leader :: "nat \<Rightarrow> candidate \<Rightarrow> leader panics" where
  "cd_into_leader now c = do {
     ensure (\<not> vote_committed (cd_vote c));
     let v = vote_into_committed (cd_vote c);
     leader_new now v (cd_quorum_set c) (cd_learner_ids c)
       (LeaderLogIds (map_option (\<lambda>x. (x, x)) (cd_last_log_id c))) }"

section \<open>An election\<close>

text \<open>
  The votes of a candidate are all at most \<open>True\<close>, so its progress is always sorted: the
  candidate is elected exactly when the voters that granted are a quorum.
\<close>

definition cd_wf :: "candidate \<Rightarrow> bool" where
  "cd_wf c \<longleftrightarrow> joint_wf (cd_quorum_set c) \<and> (\<forall>q \<in> set (cd_quorum_set c). q \<noteq> [])
     \<and> vp_quorum_set (cd_progress c) = cd_quorum_set c
     \<and> vp_wf joint_ids (cd_progress c) \<and> vp_exact joint_is_quorum (\<lambda>x. x) (cd_progress c)
     \<and> vp_sorted (\<lambda>x. x) (cd_progress c)
     \<and> vp_voter_count (cd_progress c) = length (vp_entries (cd_progress c))"

lemma joint_all_is_quorum:
  assumes "joint_wf cs" "\<forall>c \<in> set cs. c \<noteq> []"
  shows "joint_is_quorum cs (joint_ids cs)" "\<not> joint_is_quorum cs []"
proof -
  have "majority_is_quorum c (joint_ids cs)" if c: "c \<in> set cs" for c
  proof (rule majority_mono)
    show "distinct c" using assms(1) c by (simp add: joint_wf_def)
    show "set c \<subseteq> set (joint_ids cs)" using c by auto
    show "majority_is_quorum c c" using assms(2) c by (simp add: majority_is_quorum_iff)
  qed
  then show "joint_is_quorum cs (joint_ids cs)" by (simp add: joint_is_quorum_iff)
  show "\<not> joint_is_quorum cs []"
    using assms(1) by (cases cs) (auto simp: joint_wf_def majority_is_quorum_iff)
qed

lemma candidate_new_wf:
  assumes "joint_wf qs" "\<forall>q \<in> set qs. q \<noteq> []"
  shows "cd_wf (candidate_new t v la qs learners)"
  using joint.vp_new_exact[OF joint_all_is_quorum[OF assms], of "[]" "\<lambda>x. x" False] assms
  by (simp add: cd_wf_def candidate_new_def vp_new_def Let_def)

text \<open>The voters at a value after an update: those before it, and the updated one if it got there.\<close>

lemma vp_update_with_voters:
  assumes "vp_wf qids p" "vp_update_with isq bw t f p = Some (Inr a, p')"
  shows "\<exists>i e'. vp_index t p = Some i \<and> f (snd (vp_entries p ! i)) = Some e' \<and>
    (\<forall>x. set (vp_voters_ge bw p' x) = set (vp_voters_ge bw p x)
       \<union> (if i < vp_voter_count p \<and> x \<le> bw e' then {t} else {}))
    \<and> a = vp_accepted p' \<and> vp_voter_count p' = vp_voter_count p
    \<and> length (vp_entries p') = length (vp_entries p)"
  using assms(2)
proof (cases rule: vp_update_with_cases)
  case (plain i e')
  have i: "i < length (vp_entries p)" "fst (vp_entries p ! i) = t"
    using plain(1) vp_position_Some[of t "vp_entries p" i] by (simp_all add: vp_index_def)
  have "set (vp_voters_ge bw p' x) = set (vp_voters_ge bw p x)
       \<union> (if i < vp_voter_count p \<and> x \<le> bw e' then {t} else {})" for x
  proof (cases "i < vp_voter_count p")
    case True
    then show ?thesis
      using set_voters_ge_update[OF True _ plain(3), of x] assms(1) i plain(5) by (simp add: vp_wf_def)
  next
    case False
    then show ?thesis by (simp add: vp_voters_ge_def plain(5))
  qed
  then show ?thesis using plain i by (intro exI[of _ i] exI[of _ e']) simp
next
  case (crossing i e' es' k qa)
  let ?p1 = "p\<lparr>vp_entries := (vp_entries p)[i := (fst (vp_entries p ! i), e')]\<rparr>"
  have i: "i < length (vp_entries p)" "fst (vp_entries p ! i) = t"
    using crossing(1) vp_position_Some[of t "vp_entries p" i] by (simp_all add: vp_index_def)
  have k: "k \<le> i" "es' = insert_at k i (vp_entries ?p1)"
    using vp_move_up_insert[OF _ crossing(6)] i by auto
  have le: "bw (snd (vp_entries p ! i)) \<le> bw e'" using crossing(4,5) by simp
  have "set (vp_voters_ge bw p' x) = set (vp_voters_ge bw ?p1 x)" for x
    using set_take_insert_at[OF k(1), of "vp_voter_count p" "vp_entries ?p1"] crossing(3) assms(1)
    by (simp add: vp_voters_ge_def crossing(9) k(2) vp_wf_def)
  then have "set (vp_voters_ge bw p' x) = set (vp_voters_ge bw p x)
       \<union> (if i < vp_voter_count p \<and> x \<le> bw e' then {t} else {})" for x
    using set_voters_ge_update[OF crossing(3) _ le, of x] assms(1) i(2) crossing(3) by (simp add: vp_wf_def)
  moreover have "length es' = length (vp_entries p)"
    using length_insert_at[OF k(1), of "vp_entries ?p1"] i(1) k(2) by simp
  ultimately show ?thesis using crossing by (intro exI[of _ i] exI[of _ e']) simp
qed simp

lemma cd_granters_voters: "cd_wf c \<Longrightarrow> cd_granters c = vp_voters_ge (\<lambda>x. x) (cd_progress c) True"
  by (simp add: cd_granters_def vp_voters_ge_def cd_wf_def)

lemma cd_grant_by_spec:
  assumes wf: "cd_wf c" and g: "cd_grant_by target c = Some (b, c')"
  shows "cd_wf c' \<and> set (cd_granters c') = insert target (set (cd_granters c))
    \<and> (b \<longleftrightarrow> joint_is_quorum (cd_quorum_set c) (cd_granters c'))
    \<and> c' = c\<lparr>cd_progress := cd_progress c'\<rparr>"
proof -
  let ?p = "cd_progress c"
  obtain p' where up: "vp_update_with joint_is_quorum (\<lambda>x. x) target (\<lambda>_. Some True) ?p = Some (Inr b, p')"
    and c': "c' = c\<lparr>cd_progress := p'\<rparr>"
  proof -
    from g obtain r p' where r: "vp_update joint_is_quorum (\<lambda>x. x) target True ?p = Some (r, p')"
      unfolding cd_grant_by_def by (auto simp: bind_eq_Some_conv)
    with g that show thesis
      unfolding cd_grant_by_def vp_update_def by (cases r) simp_all
  qed
  have w: "joint_wf (cd_quorum_set c)" "\<forall>q \<in> set (cd_quorum_set c). q \<noteq> []"
    "vp_quorum_set ?p = cd_quorum_set c" "vp_wf joint_ids ?p" "vp_exact joint_is_quorum (\<lambda>x. x) ?p"
    "vp_sorted (\<lambda>x. x) ?p" "vp_voter_count ?p = length (vp_entries ?p)"
    using wf by (simp_all add: cd_wf_def)
  note v = vp_update_with_voters[OF w(4) up] and k = joint.vp_update_with_wf[OF w(4) up]
  have ne: "\<not> joint_is_quorum (vp_quorum_set ?p) []" using joint_all_is_quorum[OF w(1,2)] w(3) by simp
  note x = joint.vp_update_with_exact[OF w(4) ne w(5,6) up]
  have ex: "vp_exact joint_is_quorum (\<lambda>x. x) p'" using x by blast
  have so: "vp_sorted (\<lambda>x. x) p'"
  proof (rule disjE[OF conjunct2[OF conjunct2[OF x]]])
    assume "\<exists>i e'. vp_index target ?p = Some i \<and> i < vp_voter_count ?p
      \<and> vp_accepted ?p < snd (vp_entries ?p ! i)
      \<and> p' = ?p\<lparr>vp_entries := (vp_entries ?p)[i := (fst (vp_entries ?p ! i), e')]\<rparr>"
    then obtain j where j: "vp_index target ?p = Some j" "snd (vp_entries ?p ! j)" by auto
    have "(vp_entries ?p)[j := (fst (vp_entries ?p ! j), True)] = vp_entries ?p"
      using j(2) by (metis (full_types) list_update_id surjective_pairing)
    then have "p' = ?p" using up j by (simp add: vp_update_with_def Let_def)
    then show ?thesis using w(6) by simp
  qed
  obtain i where i: "vp_index target ?p = Some i"
    "\<forall>x. set (vp_voters_ge (\<lambda>x. x) p' x) = set (vp_voters_ge (\<lambda>x. x) ?p x)
       \<union> (if i < vp_voter_count ?p \<and> x \<le> True then {target} else {})"
    "b = vp_accepted p'" "vp_voter_count p' = length (vp_entries p')"
    using v w(7) by auto
  have "i < vp_voter_count ?p"
    using i(1) vp_position_Some[of target "vp_entries ?p" i] w(7) by (simp add: vp_index_def)
  then have gr: "set (vp_voters_ge (\<lambda>x. x) p' True) = insert target (set (vp_voters_ge (\<lambda>x. x) ?p True))"
    using i(2) by auto
  have wf': "cd_wf c'" using w k ex so i(4) by (simp add: cd_wf_def c')
  have "b \<longleftrightarrow> joint_is_quorum (vp_quorum_set p') (vp_voters_ge (\<lambda>x. x) p' True)"
    using ex i(3) unfolding vp_exact_def by (cases "vp_accepted p'") auto
  then show ?thesis
    using wf' gr cd_granters_voters[OF wf'] cd_granters_voters[OF wf] k w(3) by (simp add: c')
qed

text \<open>
  A candidate counts votes exactly: the response to a granted vote is \<open>True\<close> if and only if the
  voters that have granted so far, this one included, are a quorum of every configuration of the
  membership. The invariant of the candidate holds before and after.
\<close>

theorem candidate_grant_by_exact:
  assumes "cd_wf c" "cd_grant_by target c = Some (b, c')"
  shows "cd_wf c' \<and> set (cd_granters c') = insert target (set (cd_granters c))
    \<and> (b \<longleftrightarrow> (\<forall>q \<in> set (cd_quorum_set c). majority_is_quorum q (cd_granters c')))"
  using cd_grant_by_spec[OF assms] by (simp add: joint_is_quorum_iff)

theorem candidate_grant_by_exact_witness:
  "\<exists>c'. cd_grant_by 2 (candidate_new 0 (Vote (LeaderId 1 1) False) None [[1, 2, 3]] []) = Some (False, c')
     \<and> set (cd_granters c') = {2}"
proof -
  let ?c = "candidate_new 0 (Vote (LeaderId 1 1) False) None [[1, 2, 3]] []"
  have w: "cd_wf ?c" by (rule candidate_new_wf) (simp_all add: joint_wf_def)
  have n: "cd_granters ?c = []" by code_simp
  let ?d = "?c\<lparr>cd_progress := \<lparr>vp_quorum_set = [[1, 2, 3]], vp_accepted = False,
      vp_voter_count = 3, vp_entries = [(2, True), (1, False), (3, False)]\<rparr>\<rparr>"
  have g: "cd_grant_by 2 ?c = Some (False, ?d)" by code_simp
  have "set (cd_granters ?d) = {2}"
    using conjunct1[OF conjunct2[OF candidate_grant_by_exact[OF w g]]] by (simp only: n list.set)
  then show ?thesis by (intro exI[of _ ?d] conjI g)
qed

section \<open>Assigning log ids\<close>

lemma assign_from_spec:
  "assign_from lid i es = (es', j) \<Longrightarrow> j = i + length es
     \<and> map e_log_id es' = map (LogId lid) [i..<i + length es]
     \<and> map e_payload es' = map e_payload es"
proof (induction lid i es arbitrary: es' j rule: assign_from.induct)
  case (2 lid index e es)
  then show ?case
    by (auto simp: entry_set_log_id_def upt_conv_Cons simp del: upt_Suc split: prod.splits)
qed simp

text \<open>
  A leader that is not transferring its leadership assigns consecutive log ids of its own
  term: the new entries continue the last log id, the payloads stay, and the last log id of
  the leader becomes that of the last entry. A leader that is transferring panics.
\<close>

theorem assign_log_ids_spec:
  "ld_assign_log_ids es l =
     (if ld_transfer_to l \<noteq> None then None
      else Some (map (\<lambda>(e, i). e\<lparr>e_log_id := LogId (cv_committed_leader_id (ld_committed_vote l)) i\<rparr>)
                   (zip es [next_index (ld_last_log_id l)..<next_index (ld_last_log_id l) + length es]),
                 if es = [] then l
                 else l\<lparr>ld_last_log_id := Some (LogId (cv_committed_leader_id (ld_committed_vote l))
                         (next_index (ld_last_log_id l) + length es - 1))\<rparr>))"
proof -
  let ?lid = "cv_committed_leader_id (ld_committed_vote l)"
  have a: "assign_from lid i es =
      (map (\<lambda>(e, i). e\<lparr>e_log_id := LogId lid i\<rparr>) (zip es [i..<i + length es]), i + length es)" for lid i
    by (induction lid i es rule: assign_from.induct)
      (auto simp: entry_set_log_id_def upt_conv_Cons simp del: upt_Suc)
  show ?thesis
    by (cases "es = []")
      (auto simp: ld_assign_log_ids_def Let_def a sub_panics_def ensure_def Suc_le_eq)
qed

end
