(* ===== verification/Engine.thy ===== *)
theory Engine
imports Command Proposer
begin

text \<open>
  The state of \<^verbatim>\<open>openraft/src/engine/engine_impl.rs\<close> and the handlers of \<^verbatim>\<open>engine/handler\<close> that keep
  the log, the snapshot, the server state and the replication to the followers. A handler
  borrows some of the fields of the engine; here each of its methods is a function on the
  engine. A method of a handler that borrows the leader panics when there is none.
\<close>

record engine =
  en_config :: engine_config
  en_state :: raft_state
  en_seen_greater_log :: bool
  en_leader :: "leader option"
  en_candidate :: "candidate option"
  en_output :: engine_output

definition engine_new :: "raft_state \<Rightarrow> engine_config \<Rightarrow> engine" where
  "engine_new s cfg = \<lparr>en_config = cfg, en_state = s, en_seen_greater_log = False, en_leader = None,
     en_candidate = None, en_output = engine_output_new\<rparr>"

abbreviation en_id :: "engine \<Rightarrow> nat" where
  "en_id e \<equiv> ec_id (en_config e)"

definition en_push :: "command \<Rightarrow> engine \<Rightarrow> engine" where
  "en_push c e = e\<lparr>en_output := push_command c (en_output e)\<rparr>"

text \<open>Running an update of the state that may panic.\<close>

definition en_on_state :: "(raft_state \<Rightarrow> raft_state panics) \<Rightarrow> engine \<Rightarrow> engine panics" where
  "en_on_state f e = do { s \<leftarrow> f (en_state e); Some (e\<lparr>en_state := s\<rparr>) }"

definition rs_accept_log_io' :: "io_id \<Rightarrow> raft_state \<Rightarrow> raft_state panics" where
  "rs_accept_log_io' i s = map_option snd (rs_accept_log_io i s)"

section \<open>Log handler\<close>

definition lh_purge_log :: "engine \<Rightarrow> engine panics" where
  "lh_purge_log e =
     (let st = en_state e; purge_upto = rs_purge_upto st in
      if purge_upto \<le> rs_last_purged_log_id st then Some e
      else do {
        up \<leftarrow> purge_upto;
        st' \<leftarrow> rs_purge_log up st;
        Some (en_push (PurgeLog up) (e\<lparr>en_state := st'\<rparr>)) })"

definition lh_update_purge_upto :: "log_id \<Rightarrow> engine \<Rightarrow> engine panics" where
  "lh_update_purge_upto up e = do {
     ensure (rs_purge_upto (en_state e) \<le> Some up);
     Some (e\<lparr>en_state := (en_state e)\<lparr>rs_purge_upto := Some up\<rparr>\<rparr>) }"

text \<open>\<^verbatim>\<open>saturating_sub\<close> is the truncated subtraction of the natural numbers.\<close>

definition lh_calc_purge_upto :: "engine \<Rightarrow> log_id option panics" where
  "lh_calc_purge_upto e =
     (let st = en_state e;
          max_keep = ec_max_in_snapshot_log_to_keep (en_config e);
          batch_size = ec_purge_batch_size (en_config e);
          purge_end = next_index (snap_last_log_id (rs_snapshot_meta st)) - max_keep in
      if next_index (rs_last_purged_log_id st) + batch_size > purge_end then Some None
      else do {
        i \<leftarrow> sub_panics purge_end 1;
        let l = lil_ref_at (rs_log_ids st) i;
        ensure (l \<noteq> None);
        Some l })"

definition lh_schedule_policy_based_purge :: "engine \<Rightarrow> engine panics" where
  "lh_schedule_policy_based_purge e = do {
     p \<leftarrow> lh_calc_purge_upto e;
     (case p of Some up \<Rightarrow> lh_update_purge_upto up e | None \<Rightarrow> Some e) }"

section \<open>Snapshot handler\<close>

definition sh_trigger_snapshot :: "engine \<Rightarrow> bool \<times> engine" where
  "sh_trigger_snapshot e =
     (if ios_building_snapshot (rs_io_state (en_state e)) then (False, e)
      else (True, en_push (StateMachine BuildSnapshot)
             (e\<lparr>en_state := (en_state e)\<lparr>rs_io_state :=
                ios_set_building_snapshot True (rs_io_state (en_state e))\<rparr>\<rparr>)))"

definition sh_update_snapshot :: "snapshot_meta \<Rightarrow> engine \<Rightarrow> bool \<times> engine" where
  "sh_update_snapshot meta e =
     (if snap_last_log_id meta \<le> rs_snapshot_last_log_id (en_state e) then (False, e)
      else (True, e\<lparr>en_state := (en_state e)\<lparr>rs_snapshot_meta := meta\<rparr>\<rparr>))"

section \<open>Server state handler\<close>

definition ssh_update_server_state :: "engine \<Rightarrow> engine" where
  "ssh_update_server_state e =
     (let ss = rs_calc_server_state (en_id e) (en_state e) in
      if rs_server_state (en_state e) = ss then e
      else e\<lparr>en_state := (en_state e)\<lparr>rs_server_state := ss\<rparr>\<rparr>)"

section \<open>Replication handler\<close>

definition rh_rebuild_progresses :: "engine \<Rightarrow> engine panics" where
  "rh_rebuild_progresses e = do {
     l \<leftarrow> en_leader e;
     let em = ms_effective (rs_membership_state (en_state e));
     let learners = em_learner_ids em;
     let end' = next_index (rs_last_log_id (en_state e));
     let qs = mem_to_quorum_set (em_membership em);
     p \<leftarrow> vp_upgrade_quorum_set joint_is_quorum joint_ids pe_matching qs learners (pe_empty end')
            (ld_progress l);
     c \<leftarrow> vp_upgrade_quorum_set joint_is_quorum joint_ids (\<lambda>x. x) qs learners None
            (ld_clock_progress l);
     Some (e\<lparr>en_leader := Some (l\<lparr>ld_progress := p, ld_clock_progress := c\<rparr>)\<rparr>) }"

definition rh_update_leader_clock :: "nat \<Rightarrow> nat \<Rightarrow> engine \<Rightarrow> engine panics" where
  "rh_update_leader_clock nid t e = do {
     l \<leftarrow> en_leader e;
     r \<leftarrow> vp_increase_to joint_is_quorum (\<lambda>x. x) nid (Some t) (ld_clock_progress l);
     (case fst r of
        Inl _ \<Rightarrow> None
      | Inr _ \<Rightarrow> Some (e\<lparr>en_leader := Some (l\<lparr>ld_clock_progress := snd r\<rparr>)\<rparr>)) }"

text \<open>Only a log id proposed by the current leader is committed by counting replicas.\<close>

definition rh_try_commit_quorum_accepted :: "log_id option \<Rightarrow> engine \<Rightarrow> engine panics" where
  "rh_try_commit_quorum_accepted granted e =
     (let st = en_state e in
      if (case granted of Some c \<Rightarrow> \<not> vote_is_same_leader (vote_ref st) (lg_leader c) | None \<Rightarrow> False)
      then Some e
      else do {
        let committed = LogIOId (vote_into_committed (vote_ref st)) granted;
        let ios = (rs_io_state st)\<lparr>ios_cluster_committed :=
              snd (mono_try_update committed (ios_cluster_committed (rs_io_state st)))\<rparr>;
        r \<leftarrow> rs_update_local_committed granted (st\<lparr>rs_io_state := ios\<rparr>);
        let e1 = e\<lparr>en_state := snd r\<rparr>;
        Some (case fst r of
          Some _ \<Rightarrow> en_push (ReplicateCommitted (rs_committed (en_state e1))) e1
        | None \<Rightarrow> e1) })"

definition rh_update_matching :: "nat \<Rightarrow> log_id option \<Rightarrow> nat option \<Rightarrow> engine \<Rightarrow> engine panics" where
  "rh_update_matching nid log_id inflight_id e = do {
     l \<leftarrow> en_leader e;
     ensure (log_id \<noteq> None);
     r \<leftarrow> vp_update_with joint_is_quorum pe_matching nid (pe_update_matching log_id inflight_id)
            (ld_progress l);
     (case fst r of
        Inl _ \<Rightarrow> None
      | Inr quorum_accepted \<Rightarrow>
          rh_try_commit_quorum_accepted quorum_accepted
            (e\<lparr>en_leader := Some (l\<lparr>ld_progress := snd r\<rparr>)\<rparr>)) }"

text \<open>Changing the entry of one follower in place.\<close>

definition rh_set_entry :: "nat \<Rightarrow> progress_entry \<Rightarrow> leader \<Rightarrow> engine \<Rightarrow> engine panics" where
  "rh_set_entry nid pe l e = do {
     p \<leftarrow> vp_set nid pe (ld_progress l);
     Some (e\<lparr>en_leader := Some (l\<lparr>ld_progress := p\<rparr>)\<rparr>) }"

definition rh_update_conflicting :: "nat \<Rightarrow> log_id \<Rightarrow> nat option \<Rightarrow> engine \<Rightarrow> engine panics" where
  "rh_update_conflicting target conflict inflight_id e = do {
     l \<leftarrow> en_leader e;
     pe \<leftarrow> vp_try_get target (ld_progress l);
     pe' \<leftarrow> pe_update_conflicting (en_config e) (lg_index conflict) inflight_id pe;
     rh_set_entry target pe' l e }"

datatype node_not_found = NodeNotFound nat

definition rh_allow_next_revert :: "nat \<Rightarrow> bool \<Rightarrow> engine \<Rightarrow> ((node_not_found + unit) \<times> engine) panics" where
  "rh_allow_next_revert target allow e = do {
     l \<leftarrow> en_leader e;
     (case vp_try_get target (ld_progress l) of
        None \<Rightarrow> Some (Inl (NodeNotFound target), e)
      | Some pe \<Rightarrow> do {
          e' \<leftarrow> rh_set_entry target (pe\<lparr>pe_allow_log_reversion := allow\<rparr>) l e;
          Some (Inr (), e') }) }"

definition rh_try_purge_log :: "engine \<Rightarrow> engine panics" where
  "rh_try_purge_log e = do {
     l \<leftarrow> en_leader e;
     (if rs_purge_upto (en_state e) \<le> rs_last_purged_log_id (en_state e) then Some e
      else do {
        up \<leftarrow> rs_purge_upto (en_state e);
        let in_use = (\<exists>item \<in> set (vp_entries (ld_progress l)). pe_is_log_range_inflight up (snd item));
        (if in_use then Some e else lh_purge_log e) }) }"

text \<open>
  The result of a replication: the matching log id or the conflicting one, or an error of the
  transport.
\<close>

type_synonym replication_result = "log_id + log_id option"

definition rh_update_progress ::
  "nat \<Rightarrow> string + replication_result \<Rightarrow> nat option \<Rightarrow> engine \<Rightarrow> engine panics" where
  "rh_update_progress target repl_res inflight_id e = do {
     e1 \<leftarrow> (case repl_res of
        Inr (Inr matching) \<Rightarrow> rh_update_matching target matching inflight_id e
      | Inr (Inl conflict) \<Rightarrow> rh_update_conflicting target conflict inflight_id e
      | Inl err \<Rightarrow> do {
          l \<leftarrow> en_leader e;
          pe \<leftarrow> vp_try_get target (ld_progress l);
          rh_set_entry target (pe\<lparr>pe_inflight := InflightNone\<rparr>) l e });
     rh_try_purge_log e1 }"

definition reset_inflight :: "nat \<Rightarrow> (nat \<times> progress_entry) \<Rightarrow> nat \<times> progress_entry" where
  "reset_inflight self item =
     (if fst item \<noteq> self then (fst item, (snd item)\<lparr>pe_inflight := InflightNone\<rparr>) else item)"

definition rh_rebuild_replication_streams :: "engine \<Rightarrow> engine panics" where
  "rh_rebuild_replication_streams e = do {
     l \<leftarrow> en_leader e;
     let items = map (reset_inflight (en_id e)) (vp_entries (ld_progress l));
     let targets = filter (\<lambda>item. fst item \<noteq> en_id e) items;
     Some (en_push (RebuildReplicationStreams targets)
       (e\<lparr>en_leader := Some (l\<lparr>ld_progress := (ld_progress l)\<lparr>vp_entries := items\<rparr>\<rparr>)\<rparr>)) }"

fun rh_send_to_target :: "nat \<Rightarrow> inflight \<Rightarrow> engine_output \<Rightarrow> engine_output panics" where
  "rh_send_to_target target InflightNone o' = None"
| "rh_send_to_target target (InflightLogs r i) o' = Some (push_command (Replicate target (Data i r)) o')"
| "rh_send_to_target target (InflightSnapshot i) o' = Some (push_command (ReplicateSnapshot target i) o')"

fun rh_initiate_from ::
  "nat \<Rightarrow> nat \<Rightarrow> (nat \<times> progress_entry) list \<Rightarrow> raft_state \<Rightarrow> engine_output
    \<Rightarrow> ((nat \<times> progress_entry) list \<times> raft_state \<times> engine_output) panics" where
  "rh_initiate_from self max_entries [] st o' = Some ([], st, o')"
| "rh_initiate_from self max_entries ((nid, pe) # items) st o' =
     (if nid = self then do {
        (items', st', o'') \<leftarrow> rh_initiate_from self max_entries items st o';
        Some ((nid, pe) # items', st', o'') }
      else do {
        (t, pe', st1) \<leftarrow> pe_next_send max_entries pe st;
        o1 \<leftarrow> (case t of Inr inflight \<Rightarrow> rh_send_to_target nid inflight o' | Inl _ \<Rightarrow> Some o');
        (items', st', o'') \<leftarrow> rh_initiate_from self max_entries items st1 o1;
        Some ((nid, pe') # items', st', o'') })"

definition rh_initiate_replication :: "engine \<Rightarrow> engine panics" where
  "rh_initiate_replication e = do {
     l \<leftarrow> en_leader e;
     (items, st, o') \<leftarrow> rh_initiate_from (en_id e) (ec_max_payload_entries (en_config e))
        (vp_entries (ld_progress l)) (en_state e) (en_output e);
     Some (e\<lparr>en_leader := Some (l\<lparr>ld_progress := (ld_progress l)\<lparr>vp_entries := items\<rparr>\<rparr>),
             en_state := st, en_output := o'\<rparr>) }"

definition rh_append_membership :: "log_id \<Rightarrow> membership \<Rightarrow> engine \<Rightarrow> engine panics" where
  "rh_append_membership log_id m e = do {
     ensure (rs_server_state (en_state e) = Leader);
     ensure (rs_is_leader (en_state e) (en_id e));
     ms \<leftarrow> ms_append (em_new (Some log_id) m) (rs_membership_state (en_state e));
     let e1 = e\<lparr>en_state := (en_state e)\<lparr>rs_membership_state := ms\<rparr>\<rparr>;
     e2 \<leftarrow> rh_rebuild_progresses e1;
     e3 \<leftarrow> rh_rebuild_replication_streams e2;
     rh_initiate_replication e3 }"

definition rh_update_local_progress :: "log_id option \<Rightarrow> engine \<Rightarrow> engine panics" where
  "rh_update_local_progress up e = do {
     l \<leftarrow> en_leader e;
     (if up = None then Some e
      else (case vp_try_get (en_id e) (ld_progress l) of
        None \<Rightarrow> Some e
      | Some pe \<Rightarrow>
          if pe_matching pe \<ge> up then Some e
          else do {
            e1 \<leftarrow> rh_set_entry (en_id e) (pe\<lparr>pe_inflight := inflight_logs None up 0\<rparr>) l e;
            rh_update_matching (en_id e) up (Some 0) e1 })) }"

section \<open>Leader handler\<close>

text \<open>At most one entry of a batch carries a membership.\<close>

fun batch_membership :: "entry list \<Rightarrow> (log_id \<times> membership) option \<Rightarrow> (log_id \<times> membership) option panics" where
  "batch_membership [] acc = Some acc"
| "batch_membership (x # xs) acc =
     (case entry_get_membership x of
        Some m \<Rightarrow> do { ensure (acc = None); batch_membership xs (Some (e_log_id x, m)) }
      | None \<Rightarrow> batch_membership xs acc)"

definition leader_append_entries :: "entry list \<Rightarrow> engine \<Rightarrow> engine panics" where
  "leader_append_entries es e = do {
     l \<leftarrow> en_leader e;
     (if length es = 0 then Some e
      else do {
        (es', l1) \<leftarrow> ld_assign_log_ids es l;
        st1 \<leftarrow> rs_extend_log_ids_from_same_leader (log_ids_of es') (en_state e);
        mem \<leftarrow> batch_membership es' None;
        st2 \<leftarrow> rs_accept_log_io' (io_id_new_log_io (ld_committed_vote l1) (ld_last_log_id l1)) st1;
        let e1 = en_push (AppendEntries (ld_committed_vote l1) es')
                   (e\<lparr>en_leader := Some l1, en_state := st2\<rparr>);
        e2 \<leftarrow> (case mem of Some (lid, m) \<Rightarrow> rh_append_membership lid m e1 | None \<Rightarrow> Some e1);
        rh_initiate_replication e2 }) }"

definition replication_session_id :: "engine \<Rightarrow> replication_session_id panics" where
  "replication_session_id e = do {
     l \<leftarrow> en_leader e;
     Some (ReplicationSessionId (ld_committed_vote l)
       (em_log_id (ms_effective (rs_membership_state (en_state e))))) }"

definition send_heartbeat :: "engine \<Rightarrow> engine panics" where
  "send_heartbeat e = do {
     l \<leftarrow> en_leader e;
     let session = ReplicationSessionId (ld_committed_vote l)
           (em_log_id (ms_effective (rs_membership_state (en_state e))));
     Some (en_push (BroadcastHeartbeat session) e) }"

definition get_read_log_id :: "engine \<Rightarrow> log_id panics" where
  "get_read_log_id e = do {
     l \<leftarrow> en_leader e;
     Some (case rs_committed (en_state e) of
       None \<Rightarrow> ld_noop_log_id l
     | Some committed \<Rightarrow> max (ld_noop_log_id l) committed) }"

definition transfer_leader :: "nat \<Rightarrow> engine \<Rightarrow> engine panics" where
  "transfer_leader to e = do {
     l \<leftarrow> en_leader e;
     let l1 = ld_mark_transfer to l;
     let st = (en_state e)\<lparr>rs_vote := leased_disable_lease (rs_vote (en_state e))\<rparr>;
     Some (en_push (BroadcastTransferLeader
         \<lparr>tlr_from_leader = cv_into_vote (ld_committed_vote l1), tlr_to_node_id = to,
          tlr_last_log_id = ld_last_log_id l1\<rparr>)
       (e\<lparr>en_leader := Some l1, en_state := st\<rparr>)) }"

end
