(* ===== verification/EngineOps.thy ===== *)
theory EngineOps
imports Engine
begin

text \<open>
  The rest of the engine: the vote handler, the establishment of a leader, the following
  handler (append, truncate, install snapshot) and the events of \<^verbatim>\<open>engine_impl.rs\<close> that compose
  them: elect, vote request and response, append entries, install snapshot, purge, initialize.
  The current time is an argument; it does not advance within one event.
\<close>

section \<open>Vote handler\<close>

definition blank_entry :: entry where
  "blank_entry = entry_new (LogId (LeaderId 0 0) 0) Blank"

definition en_accept_log_io :: "io_id \<Rightarrow> engine \<Rightarrow> engine panics" where
  "en_accept_log_io i e = en_on_state (rs_accept_log_io' i) e"

text \<open>The second half of \<^verbatim>\<open>become_leader\<close>: a new leader for the vote of the acceptor.\<close>

definition vh_recreate_leader :: "nat \<Rightarrow> engine \<Rightarrow> engine panics" where
  "vh_recreate_leader now e = do {
     leader \<leftarrow> rs_new_leader now (en_state e);
     let io = io_id_new_log_io (ld_committed_vote leader) (ld_last_log_id leader);
     e1 \<leftarrow> en_accept_log_io io (e\<lparr>en_leader := Some leader\<rparr>);
     let e2 = en_push (UpdateIOProgress None io) e1;
     let e3 = ssh_update_server_state e2;
     e4 \<leftarrow> rh_rebuild_replication_streams e3;
     (if ld_last_log_id leader < Some (ld_noop_log_id leader)
      then leader_append_entries [blank_entry] e4
      else rh_initiate_replication e4) }"

text \<open>\<^verbatim>\<open>become_leader\<close>: a leader that comes from the vote of the acceptor, not from an election.\<close>

definition vh_become_leader :: "nat \<Rightarrow> engine \<Rightarrow> engine panics" where
  "vh_become_leader now e =
     (case en_leader e of
        Some l \<Rightarrow>
          if vote_leader_id (cv_into_vote (ld_committed_vote l)) = vote_leader_id (vote_ref (en_state e))
          then Some (ssh_update_server_state (e\<lparr>en_leader :=
                 Some (l\<lparr>ld_committed_vote := vote_into_committed (vote_ref (en_state e))\<rparr>)\<rparr>))
          else vh_recreate_leader now e
      | None \<Rightarrow> vh_recreate_leader now e)"

definition vh_become_following :: "engine \<Rightarrow> engine panics" where
  "vh_become_following e = do {
     ensure (vote_leader_node_id (vote_ref (en_state e)) \<noteq> en_id e
       \<or> \<not> mem_is_voter (em_membership (ms_effective (rs_membership_state (en_state e)))) (en_id e));
     Some (ssh_update_server_state (e\<lparr>en_leader := None, en_candidate := None\<rparr>)) }"

definition vh_update_internal_server_state :: "nat \<Rightarrow> engine \<Rightarrow> engine panics" where
  "vh_update_internal_server_state now e =
     (if rs_is_leader (en_state e) (en_id e) then vh_become_leader now e
      else if rs_is_leading (en_state e) (en_id e) then Some e
      else vh_become_following e)"

definition vh_update_vote :: "nat \<Rightarrow> raft_vote \<Rightarrow> engine \<Rightarrow> ((reject_vote_request + unit) \<times> engine) panics" where
  "vh_update_vote now vote e =
     (if \<not> vote \<ge> vote_ref (en_state e) then Some (Inl (ByVote (vote_ref (en_state e))), e)
      else do {
        let leader_lease = (if vote_committed vote
              then tc_leader_lease (ec_timer_config (en_config e)) else 0);
        e1 \<leftarrow> (if vote > vote_ref (en_state e)
               then do {
                 let e' = e\<lparr>en_state := (en_state e)\<lparr>rs_vote :=
                       leased_update now leader_lease vote (rs_vote (en_state e))\<rparr>\<rparr>;
                 e'' \<leftarrow> en_accept_log_io (io_id_new vote) e';
                 Some (en_push (SaveVote vote) e'') }
               else do {
                 v \<leftarrow> leased_touch now leader_lease (rs_vote (en_state e));
                 Some (e\<lparr>en_state := (en_state e)\<lparr>rs_vote := v\<rparr>\<rparr>) });
        e2 \<leftarrow> vh_update_internal_server_state now e1;
        Some (Inr (), e2) })"

text \<open>\<^verbatim>\<open>accept_vote\<close>: a rejected vote is answered with \<open>f\<close> once the local vote is on disk.\<close>

definition vh_accept_vote ::
  "nat \<Rightarrow> raft_vote \<Rightarrow> (raft_state \<Rightarrow> reject_vote_request \<Rightarrow> respond) \<Rightarrow> engine \<Rightarrow> (bool \<times> engine) panics" where
  "vh_accept_vote now vote f e = do {
     (res, e1) \<leftarrow> vh_update_vote now vote e;
     Some (case res of
       Inl err \<Rightarrow>
         (False, en_push (Respond (Some (IOFlushed (io_id_new (vote_ref (en_state e1)))))
                   (f (en_state e1) err)) e1)
     | Inr _ \<Rightarrow> (True, e1)) }"

section \<open>Establishing a leader\<close>

text \<open>The result is whether there is a new leader.\<close>

definition eh_establish :: "nat \<Rightarrow> candidate \<Rightarrow> engine \<Rightarrow> (bool \<times> engine) panics" where
  "eh_establish now c e = do {
     let vote = cd_vote c;
     ensure (vote_leader_node_id vote = en_id e);
     (if (case en_leader e of
            Some l \<Rightarrow> \<not> vote > cv_into_vote (ld_committed_vote l)
          | None \<Rightarrow> False)
      then Some (False, e)
      else do {
        l \<leftarrow> cd_into_leader now c;
        Some (True, e\<lparr>en_leader := Some l\<rparr>) }) }"

definition en_leader_handler :: "engine \<Rightarrow> (forward_to_leader + leader) panics" where
  "en_leader_handler e =
     (case en_leader e of
        None \<Rightarrow> Some (Inl (rs_forward_to_leader (en_state e)))
      | Some l \<Rightarrow> do {
          ensure (cv_into_vote (ld_committed_vote l) \<ge> vote_ref (en_state e));
          Some (Inr l) })"

definition en_establish_leader :: "nat \<Rightarrow> engine \<Rightarrow> engine panics" where
  "en_establish_leader now e = do {
     candidate \<leftarrow> en_candidate e;
     (est, e1) \<leftarrow> eh_establish now candidate (e\<lparr>en_candidate := None\<rparr>);
     (if \<not> est then Some e1
      else do {
        leader \<leftarrow> en_leader e1;
        let vote = ld_committed_vote leader;
        let last_log_id = ld_last_log_id leader;
        e2 \<leftarrow> rh_rebuild_replication_streams e1;
        (res, e3) \<leftarrow> vh_update_vote now (cv_into_vote vote) e2;
        ensure (res = Inr ());
        e4 \<leftarrow> en_accept_log_io (io_id_new_log_io vote last_log_id) e3;
        lh \<leftarrow> en_leader_handler e4;
        (case lh of
           Inl _ \<Rightarrow> None
         | Inr _ \<Rightarrow> leader_append_entries [blank_entry] e4) }) }"

section \<open>Following handler\<close>

text \<open>The handler is created for the committed vote of the leader that is followed.\<close>

definition en_following_handler :: "engine \<Rightarrow> committed_vote panics" where
  "en_following_handler e = do {
     ensure (en_leader e = None);
     ensure (vote_committed (vote_ref (en_state e)));
     Some (vote_into_committed (vote_ref (en_state e))) }"

definition fh_truncate_logs :: "nat \<Rightarrow> engine \<Rightarrow> engine panics" where
  "fh_truncate_logs since e = do {
     ensure (since \<ge> next_index (rs_last_purged_log_id (en_state e)));
     (case rs_get_log_id (en_state e) since of
        None \<Rightarrow> Some e
      | Some since_log_id \<Rightarrow> do {
          ks \<leftarrow> lil_truncate since (rs_log_ids (en_state e));
          let e1 = en_push (TruncateLog since_log_id) (e\<lparr>en_state := (en_state e)\<lparr>rs_log_ids := ks\<rparr>\<rparr>);
          (ms, changed) \<leftarrow> ms_truncate since (rs_membership_state (en_state e1));
          let e2 = e1\<lparr>en_state := (en_state e1)\<lparr>rs_membership_state := ms\<rparr>\<rparr>;
          Some (case changed of Some _ \<Rightarrow> ssh_update_server_state e2 | None \<Rightarrow> e2) }) }"

text \<open>The entries in reverse order; \<open>acc\<close> holds what was found, in log order.\<close>

fun last_two_memberships_rev :: "entry list \<Rightarrow> stored_membership list \<Rightarrow> stored_membership list" where
  "last_two_memberships_rev [] acc = acc"
| "last_two_memberships_rev (x # xs) acc =
     (case entry_get_membership x of
        Some m \<Rightarrow>
          (let acc' = \<lparr>sm_log_id = Some (e_log_id x), sm_membership = m\<rparr> # acc in
           if length acc' = 2 then acc' else last_two_memberships_rev xs acc')
      | None \<Rightarrow> last_two_memberships_rev xs acc)"

definition last_two_memberships :: "entry list \<Rightarrow> stored_membership list" where
  "last_two_memberships es = last_two_memberships_rev (rev es) []"

fun append_memberships :: "stored_membership list \<Rightarrow> membership_state \<Rightarrow> membership_state panics" where
  "append_memberships [] ms = Some ms"
| "append_memberships (m # rest) ms = do {
     ms' \<leftarrow> ms_append (em_new_from_stored m) ms;
     append_memberships rest ms' }"

definition fh_append_membership :: "entry list \<Rightarrow> engine \<Rightarrow> engine panics" where
  "fh_append_membership es e =
     (let memberships = last_two_memberships es in
      if memberships = [] then Some e
      else do {
        ms \<leftarrow> append_memberships memberships (rs_membership_state (en_state e));
        Some (ssh_update_server_state (e\<lparr>en_state := (en_state e)\<lparr>rs_membership_state := ms\<rparr>\<rparr>)) })"

definition fh_do_append_entries :: "committed_vote \<Rightarrow> entry list \<Rightarrow> engine \<Rightarrow> engine panics" where
  "fh_do_append_entries leader_vote es e = do {
     first \<leftarrow> first_opt es;
     ensure (lg_index (e_log_id first) = next_index (lil_last (rs_log_ids (en_state e))));
     ensure (Some (e_log_id first) > lil_last (rs_log_ids (en_state e)));
     e1 \<leftarrow> en_on_state (rs_extend_log_ids (log_ids_of es)) e;
     e2 \<leftarrow> fh_append_membership es e1;
     Some (en_push (AppendEntries leader_vote es) e2) }"

definition fh_ensure_log_consecutive ::
  "log_id option \<Rightarrow> engine \<Rightarrow> ((reject_append_entries + unit) \<times> engine) panics" where
  "fh_ensure_log_consecutive prev_log_id e =
     (case prev_log_id of
        None \<Rightarrow> Some (Inr (), e)
      | Some prev \<Rightarrow> do {
          has \<leftarrow> rs_has_log_id (en_state e) prev;
          (if has then Some (Inr (), e)
           else do {
             let local = rs_get_log_id (en_state e) (lg_index prev);
             e1 \<leftarrow> fh_truncate_logs (lg_index prev) e;
             Some (Inl (ByConflictingLogId prev local), e1) }) })"

definition fh_append_entries :: "committed_vote \<Rightarrow> log_id option \<Rightarrow> entry list \<Rightarrow> engine \<Rightarrow> engine panics" where
  "fh_append_entries leader_vote prev_log_id es e = do {
     ensure (case first_opt es of
       Some first \<Rightarrow> lg_index (e_log_id first) = next_index prev_log_id | None \<Rightarrow> True);
     let last_log_id = max prev_log_id (map_option e_log_id (last_opt es));
     (prev_accepted, st) \<leftarrow> rs_accept_log_io (io_id_new_log_io leader_vote last_log_id) (en_state e);
     let e1 = e\<lparr>en_state := st\<rparr>;
     since \<leftarrow> rs_first_conflicting_index (en_state e1) es;
     (if since < length es
      then do {
        e2 \<leftarrow> fh_truncate_logs (lg_index (e_log_id (es ! since))) e1;
        fh_do_append_entries leader_vote (drop since es) e2 }
      else
        (let to_submit = io_id_new_log_io leader_vote last_log_id in
         if Some to_submit \<le> prev_accepted then Some e1
         else Some (en_push (UpdateIOProgress (map_option IOFlushed prev_accepted) to_submit) e1))) }"

definition fh_update_committed_membership :: "effective_membership \<Rightarrow> engine \<Rightarrow> engine panics" where
  "fh_update_committed_membership m e = do {
     (ms, _) \<leftarrow> ms_update_committed m (rs_membership_state (en_state e));
     Some (ssh_update_server_state (e\<lparr>en_state := (en_state e)\<lparr>rs_membership_state := ms\<rparr>\<rparr>)) }"

definition rs_accept_apply_and_snapshot :: "log_id \<Rightarrow> raft_state \<Rightarrow> raft_state panics" where
  "rs_accept_apply_and_snapshot l s = do {
     a \<leftarrow> io_accept l (ios_apply_progress (rs_io_state s));
     p \<leftarrow> io_accept l (ios_snapshot (rs_io_state s));
     Some (s\<lparr>rs_io_state := (rs_io_state s)\<lparr>ios_apply_progress := a, ios_snapshot := p\<rparr>\<rparr>) }"

definition fh_install_full_snapshot ::
  "committed_vote \<Rightarrow> snapshot \<Rightarrow> engine \<Rightarrow> (condition option \<times> engine) panics" where
  "fh_install_full_snapshot leader_vote snap e =
     (let meta = snap_meta snap; snap_last = snap_last_log_id meta in
      if snap_last \<le> rs_committed (en_state e) then Some (None, e)
      else do {
        snap_last_log_id \<leftarrow> snap_last;
        (case sh_update_snapshot meta e of
           (False, e1) \<Rightarrow> Some (None, e1)
         | (True, e1) \<Rightarrow> do {
             e2 \<leftarrow> (case rs_get_log_id (en_state e1) (lg_index snap_last_log_id) of
                Some local \<Rightarrow>
                  if local \<noteq> snap_last_log_id
                  then fh_truncate_logs (next_index (rs_committed (en_state e1))) e1 else Some e1
              | None \<Rightarrow> Some e1);
             let log_io_id = LogIOId leader_vote (Some snap_last_log_id);
             e3 \<leftarrow> en_accept_log_io (IOLog log_io_id) e2;
             e4 \<leftarrow> en_on_state (rs_accept_apply_and_snapshot snap_last_log_id) e3;
             e5 \<leftarrow> fh_update_committed_membership (em_new_from_stored (snap_last_membership meta)) e4;
             let e6 = en_push (StateMachine (InstallFullSnapshot log_io_id snap)) e5;
             let e7 = e6\<lparr>en_state := (en_state e6)\<lparr>rs_purge_upto := Some snap_last_log_id\<rparr>\<rparr>;
             e8 \<leftarrow> lh_purge_log e7;
             Some (Some (SnapshotAt snap_last_log_id), e8) }) })"

section \<open>The events of the engine\<close>

definition en_new_candidate :: "nat \<Rightarrow> raft_vote \<Rightarrow> engine \<Rightarrow> engine" where
  "en_new_candidate now vote e =
     (let m = em_membership (ms_effective (rs_membership_state (en_state e))) in
      e\<lparr>en_candidate := Some (candidate_new now vote (rs_last_log_id (en_state e))
          (mem_to_quorum_set m) (mem_learner_ids m))\<rparr>)"

definition en_startup :: "nat \<Rightarrow> engine \<Rightarrow> engine panics" where
  "en_startup now e =
     (if rs_is_leader (en_state e) (en_id e) then vh_update_internal_server_state now e
      else
        (let ss = (if em_is_voter (ms_effective (rs_membership_state (en_state e))) (en_id e)
           then Follower else Learner)
         in Some (e\<lparr>en_state := (en_state e)\<lparr>rs_server_state := ss\<rparr>\<rparr>)))"

definition en_check_initialize :: "engine \<Rightarrow> initialize_error + unit" where
  "en_check_initialize e =
     (if \<not> rs_is_initialized (en_state e) then Inr ()
      else Inl (NotAllowed (rs_last_log_id (en_state e)) (vote_ref (en_state e))))"

definition en_check_members_contain_me :: "membership \<Rightarrow> engine \<Rightarrow> initialize_error + unit" where
  "en_check_members_contain_me m e =
     (if \<not> mem_is_voter m (en_id e) then Inl (NotInMembers (en_id e) m) else Inr ())"

definition en_initialize :: "nat \<Rightarrow> entry \<Rightarrow> engine \<Rightarrow> ((initialize_error + unit) \<times> engine) panics" where
  "en_initialize now ent e =
     (case en_check_initialize e of
        Inl err \<Rightarrow> Some (Inl err, e)
      | Inr _ \<Rightarrow> do {
          let ent' = entry_set_log_id (LogId (LeaderId 0 0) 0) ent;
          m \<leftarrow> entry_get_membership ent';
          (case en_check_members_contain_me m e of
             Inl err \<Rightarrow> Some (Inl err, e)
           | Inr _ \<Rightarrow> do {
               let vote = Vote (LeaderId 0 (en_id e)) True;
               let e1 = e\<lparr>en_state := (en_state e)\<lparr>rs_vote := leased_update now 0 vote (rs_vote (en_state e))\<rparr>\<rparr>;
               lv \<leftarrow> en_following_handler e1;
               e2 \<leftarrow> fh_do_append_entries lv [ent'] e1;
               Some (Inr (), e2) }) })"

definition en_elect :: "nat \<Rightarrow> engine \<Rightarrow> engine panics" where
  "en_elect now e = do {
     let new_term = term_next (vote_term (vote_ref (en_state e)));
     let new_vote = Vote (LeaderId new_term (en_id e)) False;
     let e1 = en_new_candidate now new_vote e;
     c \<leftarrow> en_candidate e1;
     let last_log_id = cd_last_log_id c;
     (res, e2) \<leftarrow> vh_update_vote now new_vote e1;
     ensure (res = Inr ());
     let e3 = en_push (SendVote \<lparr>vq_vote = new_vote, vq_last_log_id = last_log_id\<rparr>) e2;
     Some (ssh_update_server_state e3) }"

definition en_handle_vote_req :: "nat \<Rightarrow> vote_request \<Rightarrow> engine \<Rightarrow> (vote_response \<times> engine) panics" where
  "en_handle_vote_req now req e =
     (let st = en_state e;
          refuse = (\<lparr>vr_vote = vote_ref st, vr_granted = False, vr_last_log_id = rs_last_log_id st\<rparr>, e) in
      if vote_committed (vote_ref st) \<and> \<not> leased_is_expired now 0 (rs_vote st) then Some refuse
      else if \<not> vq_last_log_id req \<ge> rs_last_log_id st then Some refuse
      else do {
        (res, e1) \<leftarrow> vh_update_vote now (vq_vote req) e;
        Some (\<lparr>vr_vote = vote_ref (en_state e1), vr_granted = (case res of Inr _ \<Rightarrow> True | Inl _ \<Rightarrow> False),
               vr_last_log_id = rs_last_log_id (en_state e1)\<rparr>, e1) })"

definition en_handle_vote_resp :: "nat \<Rightarrow> nat \<Rightarrow> vote_response \<Rightarrow> engine \<Rightarrow> engine panics" where
  "en_handle_vote_resp now target resp e =
     (case en_candidate e of
        None \<Rightarrow> Some e
      | Some candidate \<Rightarrow>
          if vr_granted resp \<and> vr_vote resp = cd_vote candidate
          then do {
            (quorum_granted, c1) \<leftarrow> cd_grant_by target candidate;
            let e1 = e\<lparr>en_candidate := Some c1\<rparr>;
            (if quorum_granted then en_establish_leader now e1 else Some e1) }
          else do {
            let e1 = (if vr_last_log_id resp > rs_last_log_id (en_state e)
                      then e\<lparr>en_seen_greater_log := True\<rparr> else e);
            let vote = uv_into_vote (vote_into_non_committed (vr_vote resp));
            (_, e2) \<leftarrow> vh_update_vote now vote e1;
            Some e2 })"

definition en_append_entries ::
  "nat \<Rightarrow> raft_vote \<Rightarrow> log_id option \<Rightarrow> entry list \<Rightarrow> engine \<Rightarrow> ((reject_append_entries + unit) \<times> engine) panics" where
  "en_append_entries now vote prev_log_id es e = do {
     (res, e1) \<leftarrow> vh_update_vote now vote e;
     (case res of
        Inl err \<Rightarrow> do { r \<leftarrow> reject_vote_to_append err; Some (Inl r, e1) }
      | Inr _ \<Rightarrow> do {
          lv \<leftarrow> en_following_handler e1;
          (res2, e2) \<leftarrow> fh_ensure_log_consecutive prev_log_id e1;
          (case res2 of
             Inl r \<Rightarrow> Some (Inl r, e2)
           | Inr _ \<Rightarrow> do {
               e3 \<leftarrow> fh_append_entries lv prev_log_id es e2;
               Some (Inr (), e3) }) }) }"

definition en_handle_append_entries ::
  "nat \<Rightarrow> raft_vote \<Rightarrow> log_id option \<Rightarrow> entry list \<Rightarrow> nat \<Rightarrow> engine \<Rightarrow> engine panics" where
  "en_handle_append_entries now vote prev_log_id es tx e = do {
     (res, e1) \<leftarrow> en_append_entries now vote prev_log_id es e;
     let resp = append_result_to_response res;
     cond \<leftarrow> (case res of
        Inr _ \<Rightarrow> do { i \<leftarrow> rs_accepted_log_io (en_state e1); Some (Some (IOFlushed i)) }
      | Inl _ \<Rightarrow> Some None);
     Some (en_push (Respond cond (RespondAppendEntries resp tx)) e1) }"

definition en_handle_install_full_snapshot ::
  "nat \<Rightarrow> raft_vote \<Rightarrow> snapshot \<Rightarrow> nat \<Rightarrow> engine \<Rightarrow> engine panics" where
  "en_handle_install_full_snapshot now vote snap tx e = do {
     (ok, e1) \<leftarrow> vh_accept_vote now vote
        (\<lambda>st _. RespondInstallFullSnapshot (SnapshotResponse (vote_ref st)) tx) e;
     (if \<not> ok then Some e1
      else do {
        lv \<leftarrow> en_following_handler e1;
        (cond, e2) \<leftarrow> fh_install_full_snapshot lv snap e1;
        Some (en_push (Respond cond
          (RespondInstallFullSnapshot (SnapshotResponse (vote_ref (en_state e2))) tx)) e2) }) }"

definition en_handle_begin_receiving_snapshot :: "nat \<Rightarrow> engine \<Rightarrow> engine" where
  "en_handle_begin_receiving_snapshot tx e = en_push (StateMachine (BeginReceivingSnapshot tx)) e"

definition en_leader_step_down :: "nat \<Rightarrow> engine \<Rightarrow> engine panics" where
  "en_leader_step_down now e =
     (if em_log_id (ms_effective (rs_membership_state (en_state e))) \<le> rs_committed (en_state e)
      then vh_update_internal_server_state now e else Some e)"

definition en_try_purge_log :: "engine \<Rightarrow> engine panics" where
  "en_try_purge_log e = (if en_leader e \<noteq> None then rh_try_purge_log e else lh_purge_log e)"

definition en_on_building_snapshot_done :: "snapshot_meta option \<Rightarrow> engine \<Rightarrow> engine panics" where
  "en_on_building_snapshot_done meta e =
     (let e1 = e\<lparr>en_state := (en_state e)\<lparr>rs_io_state :=
            ios_set_building_snapshot False (rs_io_state (en_state e))\<rparr>\<rparr> in
      case meta of
        None \<Rightarrow> Some e1
      | Some m \<Rightarrow> do {
          e2 \<leftarrow> (case snap_last_log_id m of
             Some l \<Rightarrow> do {
               p \<leftarrow> io_try_update_all l (ios_snapshot (rs_io_state (en_state e1)));
               Some (e1\<lparr>en_state := (en_state e1)\<lparr>rs_io_state :=
                 (rs_io_state (en_state e1))\<lparr>ios_snapshot := p\<rparr>\<rparr>\<rparr>) }
           | None \<Rightarrow> Some e1);
          (case sh_update_snapshot m e2 of
             (False, e3) \<Rightarrow> Some e3
           | (True, e3) \<Rightarrow> do {
               e4 \<leftarrow> lh_schedule_policy_based_purge e3;
               en_try_purge_log e4 }) })"

definition en_trigger_purge_log :: "nat \<Rightarrow> engine \<Rightarrow> engine panics" where
  "en_trigger_purge_log index e =
     (case rs_snapshot_last_log_id (en_state e) of
        None \<Rightarrow> Some e
      | Some snap_last \<Rightarrow>
          if index < next_index (rs_purge_upto (en_state e)) then Some e
          else do {
            let index' = (if index > lg_index snap_last then lg_index snap_last else index);
            log_id \<leftarrow> rs_get_log_id (en_state e) index';
            e1 \<leftarrow> lh_update_purge_upto log_id e;
            en_try_purge_log e1 })"

text \<open>A node that is not the leader ignores the request.\<close>

definition en_trigger_transfer_leader :: "nat \<Rightarrow> engine \<Rightarrow> engine panics" where
  "en_trigger_transfer_leader to e = do {
     lh \<leftarrow> en_leader_handler e;
     (case lh of Inl _ \<Rightarrow> Some e | Inr _ \<Rightarrow> transfer_leader to e) }"

definition en_next_progress_driven_command :: "engine \<Rightarrow> command option panics" where
  "en_next_progress_driven_command e =
     (let ap = ios_apply_progress (rs_io_state (en_state e));
          lp = ios_log_progress (rs_io_state (en_state e)) in
      if map_option io_id_vote (io_submitted lp) = map_option io_id_vote (io_accepted lp)
      then do {
        let log_submitted = Option.bind (io_submitted lp) io_id_last_log_id;
        let applicable_upto = min log_submitted (io_accepted ap);
        (if next_index (io_submitted ap) < next_index applicable_upto
         then do {
           up \<leftarrow> applicable_upto;
           Some (Some (SaveCommittedAndApply (io_submitted ap) up)) }
         else Some None) }
      else Some None)"

end
