(* ===== verification/EngineVote.thy ===== *)
theory EngineVote
imports EngineOps
begin

text \<open>
  What the engine does with votes: the local vote never decreases, a vote is granted only to a
  candidate whose log is not behind and only after the lease of the leader, and an election is
  won only with the votes of a quorum of every configuration.
\<close>

named_theorems vote_frame

section \<open>Operations that leave the vote alone\<close>

lemma vote_ref_updates [simp]:
  "vote_ref (s\<lparr>rs_log_ids := ks\<rparr>) = vote_ref s"
  "vote_ref (s\<lparr>rs_io_state := io\<rparr>) = vote_ref s"
  "vote_ref (s\<lparr>rs_membership_state := ms\<rparr>) = vote_ref s"
  "vote_ref (s\<lparr>rs_last_inflight_id := i\<rparr>) = vote_ref s"
  "vote_ref (s\<lparr>rs_server_state := ss\<rparr>) = vote_ref s"
  "vote_ref (s\<lparr>rs_purge_upto := up\<rparr>) = vote_ref s"
  "vote_ref (s\<lparr>rs_purged_next := n\<rparr>) = vote_ref s"
  "vote_ref (s\<lparr>rs_snapshot_meta := m\<rparr>) = vote_ref s"
  by (simp_all add: vote_ref_def)

lemma en_push_simps [simp]:
  "en_state (en_push c e) = en_state e" "en_leader (en_push c e) = en_leader e"
  "en_candidate (en_push c e) = en_candidate e" "en_config (en_push c e) = en_config e"
  "en_seen_greater_log (en_push c e) = en_seen_greater_log e"
  "eo_commands (en_output (en_push c e)) = eo_commands (en_output e) @ [c]"
  by (simp_all add: en_push_def push_command_def)

lemma ssh_simps [simp]:
  "vote_ref (en_state (ssh_update_server_state e)) = vote_ref (en_state e)"
  "rs_log_ids (en_state (ssh_update_server_state e)) = rs_log_ids (en_state e)"
  "rs_io_state (en_state (ssh_update_server_state e)) = rs_io_state (en_state e)"
  "rs_membership_state (en_state (ssh_update_server_state e)) = rs_membership_state (en_state e)"
  "rs_vote (en_state (ssh_update_server_state e)) = rs_vote (en_state e)"
  "rs_purged_next (en_state (ssh_update_server_state e)) = rs_purged_next (en_state e)"
  "rs_purge_upto (en_state (ssh_update_server_state e)) = rs_purge_upto (en_state e)"
  "rs_snapshot_meta (en_state (ssh_update_server_state e)) = rs_snapshot_meta (en_state e)"
  "en_leader (ssh_update_server_state e) = en_leader e"
  "en_candidate (ssh_update_server_state e) = en_candidate e"
  "en_config (ssh_update_server_state e) = en_config e"
  "en_output (ssh_update_server_state e) = en_output e"
  by (simp_all add: ssh_update_server_state_def Let_def)

lemma rs_accept_log_io_eq:
  "rs_accept_log_io i s = Some (c, s') \<Longrightarrow>
     s' = s\<lparr>rs_io_state := (rs_io_state s)\<lparr>ios_log_progress := ios_log_progress (rs_io_state s')\<rparr>\<rparr>"
  by (auto simp: rs_accept_log_io_def Let_def bind_eq_Some_conv split: if_splits)

lemma en_accept_log_io_vote [vote_frame]:
  assumes "en_accept_log_io i e = Some e'"
  shows "rs_vote (en_state e') = rs_vote (en_state e)"
  using assms by (auto simp: en_accept_log_io_def en_on_state_def rs_accept_log_io'_def bind_eq_Some_conv
      dest!: rs_accept_log_io_eq dest: arg_cong[where f = rs_vote])

lemma pe_next_send_state:
  "pe_next_send m pe st = Some (t, pe', st') \<Longrightarrow> st' = st\<lparr>rs_last_inflight_id := rs_last_inflight_id st'\<rparr>"
  by (auto simp: pe_next_send_def Let_def rs_new_inflight_id_def bind_eq_Some_conv split: if_splits)

lemma rh_initiate_from_state:
  "rh_initiate_from self m items st out = Some (items', st', out') \<Longrightarrow>
     st' = st\<lparr>rs_last_inflight_id := rs_last_inflight_id st'\<rparr> \<and> map fst items' = map fst items"
proof (induction self m items st out arbitrary: items' st' out' rule: rh_initiate_from.induct)
  case (2 self m nid pe items st out)
  show ?case
  proof (cases "nid = self")
    case True
    then show ?thesis using 2 by (auto simp: bind_eq_Some_conv)
  next
    case False
    then obtain t pe' st1 o1 is1 where *: "pe_next_send m pe st = Some (t, pe', st1)"
      "rh_initiate_from self m items st1 o1 = Some (is1, st', out')"
      "(case t of Inl x \<Rightarrow> Some out | Inr inflight \<Rightarrow> rh_send_to_target nid inflight out) = Some o1"
      "items' = (nid, pe') # is1"
      using "2.prems" by (auto simp: bind_eq_Some_conv)
    have "st' = st1\<lparr>rs_last_inflight_id := rs_last_inflight_id st'\<rparr>" "map fst is1 = map fst items"
      using "2.IH"(2)[OF False *(1) refl refl *(3) *(2)] by auto
    moreover obtain i where "st1 = st\<lparr>rs_last_inflight_id := i\<rparr>"
      using pe_next_send_state[OF *(1)] by blast
    ultimately show ?thesis using *(4) by (cases st') auto
  qed
qed simp

lemma rh_initiate_replication_frame:
  assumes "rh_initiate_replication e = Some e'"
  shows "\<exists>i. en_state e' = (en_state e)\<lparr>rs_last_inflight_id := i\<rparr>"
    "en_config e' = en_config e" "en_candidate e' = en_candidate e"
    "\<exists>l l'. en_leader e = Some l \<and> en_leader e' = Some l' \<and> ld_committed_vote l' = ld_committed_vote l
       \<and> ld_last_log_id l' = ld_last_log_id l \<and> ld_noop_log_id l' = ld_noop_log_id l
       \<and> ld_transfer_to l' = ld_transfer_to l"
proof -
  obtain l items st out where *: "en_leader e = Some l"
    "rh_initiate_from (en_id e) (ec_max_payload_entries (en_config e)) (vp_entries (ld_progress l))
       (en_state e) (en_output e) = Some (items, st, out)"
    "e' = e\<lparr>en_leader := Some (l\<lparr>ld_progress := (ld_progress l)\<lparr>vp_entries := items\<rparr>\<rparr>), en_state := st, en_output := out\<rparr>"
    using assms unfolding rh_initiate_replication_def by (clarsimp simp: bind_eq_Some_conv)
  show "\<exists>i. en_state e' = (en_state e)\<lparr>rs_last_inflight_id := i\<rparr>"
    using conjunct1[OF rh_initiate_from_state[OF *(2)]] unfolding *(3) by (intro exI) simp
  show "en_config e' = en_config e" "en_candidate e' = en_candidate e"
    "\<exists>l l'. en_leader e = Some l \<and> en_leader e' = Some l' \<and> ld_committed_vote l' = ld_committed_vote l
       \<and> ld_last_log_id l' = ld_last_log_id l \<and> ld_noop_log_id l' = ld_noop_log_id l
       \<and> ld_transfer_to l' = ld_transfer_to l"
    using *(1) unfolding *(3) by simp_all
qed

lemma rh_rebuild_streams_frame:
  assumes "rh_rebuild_replication_streams e = Some e'"
  shows "en_state e' = en_state e" "en_config e' = en_config e" "en_candidate e' = en_candidate e"
    "\<exists>l l'. en_leader e = Some l \<and> en_leader e' = Some l' \<and> ld_committed_vote l' = ld_committed_vote l
       \<and> ld_last_log_id l' = ld_last_log_id l \<and> ld_noop_log_id l' = ld_noop_log_id l
       \<and> ld_transfer_to l' = ld_transfer_to l"
  using assms by (auto simp: rh_rebuild_replication_streams_def Let_def bind_eq_Some_conv)

lemma rh_rebuild_progresses_frame:
  assumes "rh_rebuild_progresses e = Some e'"
  shows "en_state e' = en_state e" "en_config e' = en_config e" "en_candidate e' = en_candidate e"
    "\<exists>l l'. en_leader e = Some l \<and> en_leader e' = Some l' \<and> ld_committed_vote l' = ld_committed_vote l
       \<and> ld_last_log_id l' = ld_last_log_id l \<and> ld_noop_log_id l' = ld_noop_log_id l
       \<and> ld_transfer_to l' = ld_transfer_to l"
  using assms by (auto simp: rh_rebuild_progresses_def Let_def bind_eq_Some_conv)

lemma rh_append_membership_frame:
  assumes "rh_append_membership lid m e = Some e'"
  shows "\<exists>ms i. ms_append (em_new (Some lid) m) (rs_membership_state (en_state e)) = Some ms
      \<and> en_state e' = (en_state e)\<lparr>rs_membership_state := ms, rs_last_inflight_id := i\<rparr>"
    "en_config e' = en_config e" "en_candidate e' = en_candidate e"
    "\<exists>l l'. en_leader e = Some l \<and> en_leader e' = Some l' \<and> ld_committed_vote l' = ld_committed_vote l
       \<and> ld_last_log_id l' = ld_last_log_id l \<and> ld_noop_log_id l' = ld_noop_log_id l
       \<and> ld_transfer_to l' = ld_transfer_to l"
proof -
  obtain ms e2 e3 where *: "ms_append (em_new (Some lid) m) (rs_membership_state (en_state e)) = Some ms"
    "rh_rebuild_progresses (e\<lparr>en_state := (en_state e)\<lparr>rs_membership_state := ms\<rparr>\<rparr>) = Some e2"
    "rh_rebuild_replication_streams e2 = Some e3" "rh_initiate_replication e3 = Some e'"
    using assms by (auto simp: rh_append_membership_def Let_def bind_eq_Some_conv)
  note a = rh_rebuild_progresses_frame[OF *(2)] and b = rh_rebuild_streams_frame[OF *(3)]
    and c = rh_initiate_replication_frame[OF *(4)]
  have "\<exists>i. en_state e' = (en_state e)\<lparr>rs_membership_state := ms, rs_last_inflight_id := i\<rparr>"
    using a(1) b(1) c(1) by auto
  then show "\<exists>ms i. ms_append (em_new (Some lid) m) (rs_membership_state (en_state e)) = Some ms
      \<and> en_state e' = (en_state e)\<lparr>rs_membership_state := ms, rs_last_inflight_id := i\<rparr>"
    using *(1) by blast
  show "en_config e' = en_config e" "en_candidate e' = en_candidate e"
    using a(2,3) b(2,3) c(2,3) by simp_all
  show "\<exists>l l'. en_leader e = Some l \<and> en_leader e' = Some l' \<and> ld_committed_vote l' = ld_committed_vote l
       \<and> ld_last_log_id l' = ld_last_log_id l \<and> ld_noop_log_id l' = ld_noop_log_id l
       \<and> ld_transfer_to l' = ld_transfer_to l"
    using a(4) b(4) c(4) by auto
qed

text \<open>
  What appending as a leader may change: the log ids, the accepted I/O, the membership, the
  number of inflight ids and the server state. The vote, the commit and snapshot cursors, and
  what is purged stay.
\<close>

definition log_frame :: "raft_state \<Rightarrow> raft_state \<Rightarrow> bool" where
  "log_frame s s' \<longleftrightarrow> rs_vote s' = rs_vote s \<and> rs_purged_next s' = rs_purged_next s
     \<and> rs_snapshot_meta s' = rs_snapshot_meta s \<and> rs_purge_upto s' = rs_purge_upto s
     \<and> ios_building_snapshot (rs_io_state s') = ios_building_snapshot (rs_io_state s)
     \<and> ios_apply_progress (rs_io_state s') = ios_apply_progress (rs_io_state s)
     \<and> ios_snapshot (rs_io_state s') = ios_snapshot (rs_io_state s)
     \<and> ios_cluster_committed (rs_io_state s') = ios_cluster_committed (rs_io_state s)
     \<and> ios_purged (rs_io_state s') = ios_purged (rs_io_state s)"

lemma log_frame_refl [simp]: "log_frame s s"
  by (simp add: log_frame_def)

lemma log_frame_trans: "log_frame a b \<Longrightarrow> log_frame b c \<Longrightarrow> log_frame a c"
  by (auto simp: log_frame_def)

lemma log_frame_updates:
  "log_frame s (s\<lparr>rs_log_ids := ks\<rparr>)" "log_frame s (s\<lparr>rs_membership_state := ms\<rparr>)"
  "log_frame s (s\<lparr>rs_last_inflight_id := i\<rparr>)" "log_frame s (s\<lparr>rs_server_state := ss\<rparr>)"
  by (simp_all add: log_frame_def)

lemma log_frame_D:
  assumes "log_frame s s'"
  shows "vote_ref s' = vote_ref s" "rs_committed s' = rs_committed s"
    "rs_snapshot_last_log_id s' = rs_snapshot_last_log_id s"
  using assms by (simp_all add: log_frame_def vote_ref_def rs_committed_def rs_snapshot_last_log_id_def)

lemma rs_accept_log_io_frame: "rs_accept_log_io i s = Some (c, s') \<Longrightarrow> log_frame s s'"
  by (auto simp: rs_accept_log_io_def Let_def log_frame_def bind_eq_Some_conv split: if_splits)

lemma en_accept_log_io_frame:
  assumes "en_accept_log_io i e = Some e'"
  shows "log_frame (en_state e) (en_state e')" "en_config e' = en_config e"
    "en_candidate e' = en_candidate e" "en_leader e' = en_leader e" "en_output e' = en_output e"
    "rs_log_ids (en_state e') = rs_log_ids (en_state e)"
    "rs_membership_state (en_state e') = rs_membership_state (en_state e)"
  using assms by (auto simp: en_accept_log_io_def en_on_state_def rs_accept_log_io'_def bind_eq_Some_conv
      rs_accept_log_io_frame dest: rs_accept_log_io_eq[THEN arg_cong, of _ _ _ _ rs_log_ids]
      rs_accept_log_io_eq[THEN arg_cong, of _ _ _ _ rs_membership_state])

lemma ssh_log_frame: "log_frame (en_state e) (en_state (ssh_update_server_state e))"
  by (simp add: log_frame_def)

lemma ld_assign_frame:
  assumes "ld_assign_log_ids es l = Some (es', l')"
  shows "\<exists>x. l' = l\<lparr>ld_last_log_id := x\<rparr>" "length es' = length es"
proof -
  have len: "assign_from lid i es = (es'', j) \<Longrightarrow> length es'' = length es" for lid i es'' j
    by (induction lid i es arbitrary: es'' j rule: assign_from.induct) (auto split: prod.splits)
  have self: "\<exists>x. l = l\<lparr>ld_last_log_id := x\<rparr>" by (rule exI[of _ "ld_last_log_id l"]) simp
  show "\<exists>x. l' = l\<lparr>ld_last_log_id := x\<rparr>" "length es' = length es"
    using assms self by (auto simp: ld_assign_log_ids_def Let_def bind_eq_Some_conv dest: len split: if_splits prod.splits)
qed

lemma leader_append_entries_steps:
  assumes "leader_append_entries es e = Some e'" "es \<noteq> []"
  obtains l es' l1 ks st2 ms i l' where
    "en_leader e = Some l" "ld_assign_log_ids es l = Some (es', l1)"
    "lil_extend_from_same_leader (log_ids_of es') (rs_log_ids (en_state e)) = Some ks"
    "rs_accept_log_io' (io_id_new_log_io (ld_committed_vote l1) (ld_last_log_id l1))
       ((en_state e)\<lparr>rs_log_ids := ks\<rparr>) = Some st2"
    "en_state e' = st2\<lparr>rs_membership_state := ms, rs_last_inflight_id := i\<rparr>"
    "en_leader e' = Some l'" "ld_committed_vote l' = ld_committed_vote l"
    "ld_last_log_id l' = ld_last_log_id l1" "ld_noop_log_id l' = ld_noop_log_id l"
    "en_config e' = en_config e" "en_candidate e' = en_candidate e"
proof -
  obtain l es' l1 ks mem st2 e2 where *: "en_leader e = Some l" "ld_assign_log_ids es l = Some (es', l1)"
    "lil_extend_from_same_leader (log_ids_of es') (rs_log_ids (en_state e)) = Some ks"
    "rs_accept_log_io' (io_id_new_log_io (ld_committed_vote l1) (ld_last_log_id l1))
       ((en_state e)\<lparr>rs_log_ids := ks\<rparr>) = Some st2"
    "(case mem of Some (lid, m) \<Rightarrow> rh_append_membership lid m (en_push (AppendEntries (ld_committed_vote l1) es')
          (e\<lparr>en_leader := Some l1, en_state := st2\<rparr>))
      | None \<Rightarrow> Some (en_push (AppendEntries (ld_committed_vote l1) es')
          (e\<lparr>en_leader := Some l1, en_state := st2\<rparr>))) = Some e2"
    "rh_initiate_replication e2 = Some e'"
    using assms unfolding leader_append_entries_def Let_def rs_extend_log_ids_from_same_leader_def
    by (clarsimp simp: bind_eq_Some_conv)
  have l1: "ld_committed_vote l1 = ld_committed_vote l" "ld_noop_log_id l1 = ld_noop_log_id l"
    using ld_assign_frame(1)[OF *(2)] by auto
  have e2: "\<exists>ms i. en_state e2 = st2\<lparr>rs_membership_state := ms, rs_last_inflight_id := i\<rparr>"
    "en_config e2 = en_config e" "en_candidate e2 = en_candidate e"
    "\<exists>l2. en_leader e2 = Some l2 \<and> ld_committed_vote l2 = ld_committed_vote l1
       \<and> ld_last_log_id l2 = ld_last_log_id l1 \<and> ld_noop_log_id l2 = ld_noop_log_id l1"
  proof -
    show "\<exists>ms i. en_state e2 = st2\<lparr>rs_membership_state := ms, rs_last_inflight_id := i\<rparr>"
    proof (cases mem)
      case None
      then have "en_state e2 = st2\<lparr>rs_membership_state := rs_membership_state st2,
          rs_last_inflight_id := rs_last_inflight_id st2\<rparr>"
        using *(5) by auto
      then show ?thesis by blast
    next
      case (Some a)
      then show ?thesis using *(5) by (cases a) (fastforce dest: rh_append_membership_frame(1))
    qed
    show "en_config e2 = en_config e" "en_candidate e2 = en_candidate e"
      using *(5) by (auto split: option.splits dest: rh_append_membership_frame(2,3))
    show "\<exists>l2. en_leader e2 = Some l2 \<and> ld_committed_vote l2 = ld_committed_vote l1
       \<and> ld_last_log_id l2 = ld_last_log_id l1 \<and> ld_noop_log_id l2 = ld_noop_log_id l1"
      using *(5) by (auto split: option.splits dest!: rh_append_membership_frame(4))
  qed
  note r = rh_initiate_replication_frame[OF *(6)]
  obtain ms i where st: "en_state e' = st2\<lparr>rs_membership_state := ms, rs_last_inflight_id := i\<rparr>"
    using e2(1) r(1) by auto
  obtain l' where l': "en_leader e' = Some l'" "ld_committed_vote l' = ld_committed_vote l"
    "ld_last_log_id l' = ld_last_log_id l1" "ld_noop_log_id l' = ld_noop_log_id l"
    using e2(4) r(4) l1 by auto
  show ?thesis
    by (rule that[OF *(1-4) st l']) (simp_all add: r(2,3) e2(2,3))
qed

lemma leader_append_entries_frame:
  assumes "leader_append_entries es e = Some e'"
  shows "log_frame (en_state e) (en_state e') \<and> en_config e' = en_config e \<and> en_candidate e' = en_candidate e
    \<and> (\<exists>l l'. en_leader e = Some l \<and> en_leader e' = Some l' \<and> ld_committed_vote l' = ld_committed_vote l)"
proof (cases "es = []")
  case True
  then show ?thesis using assms by (auto simp: leader_append_entries_def bind_eq_Some_conv)
next
  case False
  obtain l es' l1 ks st2 ms i l' where *:
    "en_leader e = Some l" "ld_assign_log_ids es l = Some (es', l1)"
    "lil_extend_from_same_leader (log_ids_of es') (rs_log_ids (en_state e)) = Some ks"
    "rs_accept_log_io' (io_id_new_log_io (ld_committed_vote l1) (ld_last_log_id l1))
       ((en_state e)\<lparr>rs_log_ids := ks\<rparr>) = Some st2"
    "en_state e' = st2\<lparr>rs_membership_state := ms, rs_last_inflight_id := i\<rparr>"
    "en_leader e' = Some l'" "ld_committed_vote l' = ld_committed_vote l"
    "ld_last_log_id l' = ld_last_log_id l1" "ld_noop_log_id l' = ld_noop_log_id l"
    "en_config e' = en_config e" "en_candidate e' = en_candidate e"
    by (rule leader_append_entries_steps[OF assms False])
  have "log_frame (en_state e) st2"
    using *(4) log_frame_trans[OF log_frame_updates(1) rs_accept_log_io_frame]
    by (auto simp: rs_accept_log_io'_def)
  then have "log_frame (en_state e) (en_state e')"
    unfolding *(5) by (simp add: log_frame_def)
  then show ?thesis using * by auto
qed

section \<open>The vote of the acceptor\<close>

lemma vh_recreate_leader_frame:
  assumes "vh_recreate_leader now e = Some e'"
  shows "log_frame (en_state e) (en_state e') \<and> en_config e' = en_config e \<and> en_candidate e' = en_candidate e
    \<and> en_leader e' \<noteq> None"
proof -
  let ?io = "\<lambda>l. io_id_new_log_io (ld_committed_vote l) (ld_last_log_id l)"
  obtain l e1 e4 where *: "en_accept_log_io (?io l) (e\<lparr>en_leader := Some l\<rparr>) = Some e1"
    "rh_rebuild_replication_streams (ssh_update_server_state (en_push (UpdateIOProgress None (?io l)) e1)) = Some e4"
    "(if ld_last_log_id l < Some (ld_noop_log_id l) then leader_append_entries [blank_entry] e4
      else rh_initiate_replication e4) = Some e'"
    using assms unfolding vh_recreate_leader_def Let_def by (clarsimp simp: bind_eq_Some_conv)
  have a: "log_frame (en_state e) (en_state e1)" "en_config e1 = en_config e" "en_candidate e1 = en_candidate e"
    using en_accept_log_io_frame[OF *(1)] by simp_all
  have b: "log_frame (en_state e1) (en_state e4)" "en_config e4 = en_config e1" "en_candidate e4 = en_candidate e1"
    using rh_rebuild_streams_frame[OF *(2)] by (simp_all add: log_frame_def)
  have c: "log_frame (en_state e4) (en_state e') \<and> en_config e' = en_config e4
    \<and> en_candidate e' = en_candidate e4 \<and> en_leader e' \<noteq> None"
  proof (cases "ld_last_log_id l < Some (ld_noop_log_id l)")
    case True
    then have "leader_append_entries [blank_entry] e4 = Some e'" using *(3) by simp
    then show ?thesis using leader_append_entries_frame by fastforce
  next
    case False
    then have r: "rh_initiate_replication e4 = Some e'" using *(3) by simp
    show ?thesis
      using rh_initiate_replication_frame[OF r] log_frame_updates(3) by auto
  qed
  show ?thesis using a b c log_frame_trans by metis
qed

lemma vh_become_leader_frame:
  assumes "vh_become_leader now e = Some e'"
  shows "log_frame (en_state e) (en_state e') \<and> en_config e' = en_config e \<and> en_candidate e' = en_candidate e
    \<and> en_leader e' \<noteq> None"
proof -
  have re: "vh_recreate_leader now e = Some e' \<Longrightarrow> ?thesis"
    by (rule vh_recreate_leader_frame)
  show ?thesis
  proof (cases "en_leader e")
    case None
    then show ?thesis using assms re by (simp add: vh_become_leader_def)
  next
    case (Some l)
    show ?thesis
    proof (cases "vote_leader_id (cv_into_vote (ld_committed_vote l)) = vote_leader_id (vote_ref (en_state e))")
      case True
      then have "e' = ssh_update_server_state (e\<lparr>en_leader :=
                 Some (l\<lparr>ld_committed_vote := vote_into_committed (vote_ref (en_state e))\<rparr>)\<rparr>)"
        using assms Some by (simp add: vh_become_leader_def)
      then show ?thesis by (simp add: log_frame_def)
    next
      case False
      then show ?thesis using assms re Some by (simp add: vh_become_leader_def)
    qed
  qed
qed

lemma vh_become_following_eq:
  assumes "vh_become_following e = Some e'"
  shows "e' = ssh_update_server_state (e\<lparr>en_leader := None, en_candidate := None\<rparr>)"
  using assms by (simp add: vh_become_following_def)

lemma vh_update_internal_frame:
  assumes "vh_update_internal_server_state now e = Some e'"
  shows "log_frame (en_state e) (en_state e')" "en_config e' = en_config e"
proof -
  have "log_frame (en_state e) (en_state e') \<and> en_config e' = en_config e"
  proof (cases "rs_is_leader (en_state e) (en_id e)")
    case True
    then show ?thesis
      using assms vh_become_leader_frame by (simp add: vh_update_internal_server_state_def)
  next
    case f: False
    show ?thesis
    proof (cases "rs_is_leading (en_state e) (en_id e)")
      case True
      then show ?thesis using assms f by (simp add: vh_update_internal_server_state_def)
    next
      case False
      then have "vh_become_following e = Some e'"
        using assms f by (simp add: vh_update_internal_server_state_def)
      from vh_become_following_eq[OF this] show ?thesis by (simp add: log_frame_def)
    qed
  qed
  then show "log_frame (en_state e) (en_state e')" "en_config e' = en_config e" by auto
qed

lemma leased_touch_data: "leased_touch now lease l = Some l' \<Longrightarrow> l_data l' = l_data l"
  by (auto simp: leased_touch_def Let_def bind_eq_Some_conv)

lemma vh_update_vote_result:
  assumes "vh_update_vote now vote e = Some (r, e')"
  shows "vote \<ge> vote_ref (en_state e) \<Longrightarrow> r = Inr () \<and> vote_ref (en_state e') = vote \<and> en_config e' = en_config e"
    "\<not> vote \<ge> vote_ref (en_state e) \<Longrightarrow> r = Inl (ByVote (vote_ref (en_state e))) \<and> e' = e"
proof -
  assume ge: "vote \<ge> vote_ref (en_state e)"
  obtain e1 where e1: "vh_update_internal_server_state now e1 = Some e'" "r = Inr ()"
    "vote_ref (en_state e1) = vote" "en_config e1 = en_config e"
  proof (cases "vote > vote_ref (en_state e)")
    case True
    let ?e = "e\<lparr>en_state := (en_state e)\<lparr>rs_vote := leased_update now (if vote_committed vote
              then tc_leader_lease (ec_timer_config (en_config e)) else 0) vote (rs_vote (en_state e))\<rparr>\<rparr>"
    obtain e1 where *: "en_accept_log_io (io_id_new vote) ?e = Some e1"
      "vh_update_internal_server_state now (en_push (SaveVote vote) e1) = Some e'" "r = Inr ()"
      using assms True ge unfolding vh_update_vote_def by (auto simp: Let_def bind_eq_Some_conv split: if_splits)
    have "vote_ref (en_state e1) = vote"
      using log_frame_D(1)[OF en_accept_log_io_frame(1)[OF *(1)]] by (simp add: vote_ref_def leased_update_def)
    then show ?thesis using that[OF *(2,3)] en_accept_log_io_frame(2)[OF *(1)] by simp
  next
    case False
    with ge have eq: "vote = vote_ref (en_state e)" by auto
    obtain v where *: "leased_touch now (if vote_committed vote
              then tc_leader_lease (ec_timer_config (en_config e)) else 0) (rs_vote (en_state e)) = Some v"
      "vh_update_internal_server_state now (e\<lparr>en_state := (en_state e)\<lparr>rs_vote := v\<rparr>\<rparr>) = Some e'" "r = Inr ()"
      using assms False eq unfolding vh_update_vote_def by (auto simp: Let_def bind_eq_Some_conv split: if_splits)
    then show ?thesis using that[OF *(2,3)] leased_touch_data[OF *(1)] eq by (simp add: vote_ref_def)
  qed
  show "r = Inr () \<and> vote_ref (en_state e') = vote \<and> en_config e' = en_config e"
    using e1 vh_update_internal_frame[OF e1(1)] by (simp add: log_frame_D(1))
next
  assume "\<not> vote \<ge> vote_ref (en_state e)"
  then show "r = Inl (ByVote (vote_ref (en_state e))) \<and> e' = e"
    using assms by (auto simp: vh_update_vote_def)
qed

section \<open>Vote requests\<close>

text \<open>When a request is granted: the lease is over, the log is not behind, the vote is not smaller.\<close>

definition vote_req_ok :: "nat \<Rightarrow> vote_request \<Rightarrow> engine \<Rightarrow> bool" where
  "vote_req_ok now req e \<longleftrightarrow>
     (vote_committed (vote_ref (en_state e)) \<longrightarrow> leased_is_expired now 0 (rs_vote (en_state e)))
     \<and> vq_last_log_id req \<ge> rs_last_log_id (en_state e)
     \<and> vq_vote req \<ge> vote_ref (en_state e)"

text \<open>
  C4. A vote request is granted exactly when the lease of a known leader has expired, the log of
  the candidate is not behind the local log and its vote is not smaller than the local one. Then
  the local vote becomes the vote of the candidate, else nothing changes at all; the response
  reports the local vote after handling the request.
\<close>

theorem vote_request_spec:
  assumes "en_handle_vote_req now req e = Some (resp, e')"
  shows "vr_granted resp = vote_req_ok now req e \<and> vr_vote resp = vote_ref (en_state e')
    \<and> (if vr_granted resp then vote_ref (en_state e') = vq_vote req else e' = e)"
proof (cases "(vote_committed (vote_ref (en_state e)) \<longrightarrow> leased_is_expired now 0 (rs_vote (en_state e)))
     \<and> vq_last_log_id req \<ge> rs_last_log_id (en_state e)")
  case True
  then obtain res where up: "vh_update_vote now (vq_vote req) e = Some (res, e')"
    and resp: "resp = \<lparr>vr_vote = vote_ref (en_state e'), vr_granted = (case res of Inr _ \<Rightarrow> True | Inl _ \<Rightarrow> False),
               vr_last_log_id = rs_last_log_id (en_state e')\<rparr>"
    using assms by (auto simp: en_handle_vote_req_def Let_def bind_eq_Some_conv)
  show ?thesis
  proof (cases "vq_vote req \<ge> vote_ref (en_state e)")
    case ge: True
    show ?thesis using True ge vh_update_vote_result(1)[OF up ge] by (simp add: resp vote_req_ok_def)
  next
    case lt: False
    show ?thesis using lt vh_update_vote_result(2)[OF up lt] by (simp add: resp vote_req_ok_def)
  qed
next
  case False
  then show ?thesis
    using assms by (auto simp: en_handle_vote_req_def Let_def vote_req_ok_def split: if_splits)
qed

text \<open>A follower of the leader of term 1 after its lease: node 2 asks for term 2.\<close>

definition example_config :: engine_config where
  "example_config = \<lparr>ec_id = 1, ec_max_in_snapshot_log_to_keep = 1, ec_purge_batch_size = 1,
     ec_max_payload_entries = 10, ec_allow_log_reversion = False,
     ec_timer_config = \<lparr>tc_election_timeout = 150, tc_smaller_log_timeout = 200, tc_leader_lease = 150\<rparr>\<rparr>"

definition example_members :: membership where
  "example_members = mem_new_with_defaults [[1, 2, 3]] []"

definition example_state :: raft_state where
  "example_state = (rs_new 1)\<lparr>
     rs_vote := leased_new 100 150 (Vote (LeaderId 1 3) True),
     rs_log_ids := [LogId (LeaderId 0 0) 0, LogId (LeaderId 1 3) 1, LogId (LeaderId 1 3) 4],
     rs_membership_state := \<lparr>ms_committed = em_new (Some (LogId (LeaderId 0 0) 0)) example_members,
       ms_effective = em_new (Some (LogId (LeaderId 0 0) 0)) example_members\<rparr>,
     rs_io_state := ios_default\<lparr>
       ios_log_progress := io_new_synchronized (Some (IOLog (LogIOId (CommittedVote (LeaderId 1 3)) (Some (LogId (LeaderId 1 3) 4))))),
       ios_apply_progress := io_new_synchronized (Some (LogId (LeaderId 1 3) 2))\<rparr>,
     rs_server_state := Follower\<rparr>"

definition example_engine :: engine where
  "example_engine = engine_new example_state example_config"

lemmas example_defs = example_engine_def example_state_def example_members_def example_config_def

theorem vote_request_spec_witness:
  "\<exists>resp e'. en_handle_vote_req 1000 \<lparr>vq_vote = Vote (LeaderId 2 2) False,
      vq_last_log_id = Some (LogId (LeaderId 1 3) 5)\<rparr> example_engine = Some (resp, e')
    \<and> vr_granted resp \<and> vote_ref (en_state e') = Vote (LeaderId 2 2) False"
proof -
  let ?q = "\<lparr>vq_vote = Vote (LeaderId 2 2) False, vq_last_log_id = Some (LogId (LeaderId 1 3) 5)\<rparr>"
  have "en_handle_vote_req 1000 ?q example_engine \<noteq> None" "vote_req_ok 1000 ?q example_engine"
    by code_simp+
  moreover from this obtain resp e' where r: "en_handle_vote_req 1000 ?q example_engine = Some (resp, e')"
    by auto
  ultimately show ?thesis using vote_request_spec[OF r] by auto
qed

section \<open>Winning an election\<close>

lemma vh_update_vote_no_leader:
  assumes "vh_update_vote now vote e = Some (r, e')" "\<not> vote_committed vote" "en_leader e = None"
  shows "en_leader e' = None"
proof (cases "vote \<ge> vote_ref (en_state e)")
  case False
  then show ?thesis using vh_update_vote_result(2)[OF assms(1)] assms(3) by simp
next
  case True
  then obtain e1 where e1: "vh_update_internal_server_state now e1 = Some e'" "en_leader e1 = None"
    "vote_ref (en_state e1) = vote"
  proof (cases "vote > vote_ref (en_state e)")
    case gt: True
    let ?e = "e\<lparr>en_state := (en_state e)\<lparr>rs_vote := leased_update now 0 vote (rs_vote (en_state e))\<rparr>\<rparr>"
    obtain e1 where *: "en_accept_log_io (io_id_new vote) ?e = Some e1"
      "vh_update_internal_server_state now (en_push (SaveVote vote) e1) = Some e'"
      using assms True gt unfolding vh_update_vote_def by (auto simp: Let_def bind_eq_Some_conv split: if_splits)
    show ?thesis
      using that[OF *(2)] en_accept_log_io_frame(4)[OF *(1)] assms(3)
        log_frame_D(1)[OF en_accept_log_io_frame(1)[OF *(1)]]
      by (simp add: vote_ref_def leased_update_def)
  next
    case False
    with True have eq: "vote = vote_ref (en_state e)" by auto
    obtain v where *: "leased_touch now 0 (rs_vote (en_state e)) = Some v"
      "vh_update_internal_server_state now (e\<lparr>en_state := (en_state e)\<lparr>rs_vote := v\<rparr>\<rparr>) = Some e'"
      using assms False eq unfolding vh_update_vote_def by (auto simp: Let_def bind_eq_Some_conv split: if_splits)
    show ?thesis
      using that[OF *(2)] assms(3) leased_touch_data[OF *(1)] eq by (simp add: vote_ref_def)
  qed
  have nl: "\<not> rs_is_leader (en_state e1) (en_id e1)" using e1(3) assms(2) by (simp add: rs_is_leader_def)
  show ?thesis
  proof (cases "rs_is_leading (en_state e1) (en_id e1)")
    case True
    then show ?thesis using e1 nl by (simp add: vh_update_internal_server_state_def)
  next
    case False
    then have "vh_become_following e1 = Some e'" using e1(1) nl by (simp add: vh_update_internal_server_state_def)
    from vh_become_following_eq[OF this] show ?thesis by simp
  qed
qed

text \<open>
  C5. No leader without a quorum: when a vote response makes a node that is not a leader one, the
  response was a grant of the candidate's vote, and the voters that granted it, the sender
  included, are a majority of every configuration of the joint membership.
\<close>

theorem election_needs_quorum:
  assumes "en_handle_vote_resp now target resp e = Some e'" "en_leader e = None" "en_leader e' \<noteq> None"
    and "\<And>c. en_candidate e = Some c \<Longrightarrow> cd_wf c"
  shows "\<exists>c. en_candidate e = Some c \<and> vr_granted resp \<and> vr_vote resp = cd_vote c
    \<and> (\<forall>q \<in> set (cd_quorum_set c). majority_is_quorum q (remdups (target # cd_granters c)))"
proof (cases "en_candidate e")
  case None
  then show ?thesis using assms by (simp add: en_handle_vote_resp_def)
next
  case (Some c)
  show ?thesis
  proof (cases "vr_granted resp \<and> vr_vote resp = cd_vote c")
    case True
    then obtain b c1 where g: "cd_grant_by target c = Some (b, c1)"
      and e': "(if b then en_establish_leader now (e\<lparr>en_candidate := Some c1\<rparr>)
        else Some (e\<lparr>en_candidate := Some c1\<rparr>)) = Some e'"
      using assms(1) Some by (auto simp: en_handle_vote_resp_def Let_def bind_eq_Some_conv)
    have b: "b" using e' assms(2,3) by (auto split: if_splits)
    note sp = cd_grant_by_spec[OF assms(4)[OF Some] g]
    have q1: "joint_is_quorum (cd_quorum_set c) (cd_granters c1)" using sp b by simp
    have "cd_wf c1" using sp by simp
    then have d: "distinct (cd_granters c1)"
      using distinct_voters_ge[of joint_ids "cd_progress c1"] cd_granters_voters by (simp add: cd_wf_def)
    have "majority_is_quorum q (remdups (target # cd_granters c))"
      if "q \<in> set (cd_quorum_set c)" for q
    proof (rule majority_mono)
      show "set (cd_granters c1) \<subseteq> set (remdups (target # cd_granters c))" using sp by auto
    qed (use that q1 d in \<open>simp_all add: joint_is_quorum_iff\<close>)
    then show ?thesis using Some True by blast
  next
    case False
    let ?e1 = "if vr_last_log_id resp > rs_last_log_id (en_state e) then e\<lparr>en_seen_greater_log := True\<rparr> else e"
    obtain r where "vh_update_vote now (uv_into_vote (vote_into_non_committed (vr_vote resp))) ?e1 = Some (r, e')"
      using assms(1) Some False by (auto simp: en_handle_vote_resp_def Let_def bind_eq_Some_conv)
    then have "en_leader e' = None"
      by (rule vh_update_vote_no_leader) (simp_all add: vote_conv_defs assms(2))
    then show ?thesis using assms(3) by simp
  qed
qed

text \<open>Node 1 has elected itself for term 2 and granted its own vote; node 2 grants it too.\<close>

definition example_candidate :: candidate where
  "example_candidate = (candidate_new 1000 (Vote (LeaderId 2 1) False) (Some (LogId (LeaderId 1 3) 4)) [[1, 2, 3]] [])
     \<lparr>cd_progress := \<lparr>vp_quorum_set = [[1, 2, 3]], vp_accepted = False, vp_voter_count = 3,
        vp_entries = [(1, True), (2, False), (3, False)]\<rparr>\<rparr>"

definition example_voting :: engine where
  "example_voting = example_engine\<lparr>
     en_state := example_state\<lparr>rs_vote := leased_new 1000 0 (Vote (LeaderId 2 1) False),
       rs_server_state := Candidate,
       rs_io_state := (rs_io_state example_state)\<lparr>ios_log_progress := io_new_synchronized (Some (IOVote (UncommittedVote (LeaderId 2 1))))\<rparr>\<rparr>,
     en_candidate := Some example_candidate\<rparr>"

lemma example_candidate_wf: "cd_wf example_candidate"
proof -
  let ?c = "candidate_new 1000 (Vote (LeaderId 2 1) False) (Some (LogId (LeaderId 1 3) 4)) [[1, 2, 3]] []"
  have w: "cd_wf ?c" by (rule candidate_new_wf) (simp_all add: joint_wf_def)
  have "cd_grant_by 1 ?c = Some (False, example_candidate)" by code_simp
  then show ?thesis using cd_grant_by_spec[OF w] by blast
qed

theorem election_needs_quorum_witness:
  "\<exists>e'. en_handle_vote_resp 1001 2 \<lparr>vr_vote = Vote (LeaderId 2 1) False, vr_granted = True,
      vr_last_log_id = None\<rparr> example_voting = Some e'
    \<and> en_leader e' \<noteq> None \<and> majority_is_quorum [1, 2, 3] (remdups (2 # cd_granters example_candidate))"
proof -
  let ?r = "\<lparr>vr_vote = Vote (LeaderId 2 1) False, vr_granted = True, vr_last_log_id = None\<rparr>"
  have "map_option (\<lambda>e'. en_leader e' = None) (en_handle_vote_resp 1001 2 ?r example_voting) = Some False"
    by code_simp
  then obtain e' where e': "en_handle_vote_resp 1001 2 ?r example_voting = Some e'" "en_leader e' \<noteq> None"
    by auto
  have c: "en_candidate example_voting = Some example_candidate" "en_leader example_voting = None"
    by (simp_all add: example_voting_def example_engine_def engine_new_def)
  have q: "cd_quorum_set example_candidate = [[1, 2, 3]]" by (simp add: example_candidate_def candidate_new_def)
  have wf: "cd_wf x" if "en_candidate example_voting = Some x" for x
    using that c(1) example_candidate_wf by simp
  show ?thesis
    using election_needs_quorum[OF e'(1) c(2) e'(2) wf] e' c(1) q by auto
qed

end
