(* ===== verification/EngineLog.thy ===== *)
theory EngineLog
imports EngineVote
begin

text \<open>
  What the engine does with the log: the log of a follower after an append, the log of a leader
  after a proposal, commit, truncation and purge. The log of a state is the list of log ids its
  compressed key log ids stand for.
\<close>

definition log_of :: "raft_state \<Rightarrow> log_id list" where
  "log_of s = expand (rs_log_ids s)"

section \<open>Queries\<close>

lemma rs_get_log_id_spec: "kwf (rs_log_ids s) \<Longrightarrow> rs_get_log_id s i = List.find (\<lambda>x. lg_index x = i) (log_of s)"
  by (simp add: rs_get_log_id_def log_of_def lil_ref_at_expand)

lemma rs_last_log_id_spec: "rs_last_log_id s = last_opt (log_of s)"
  by (simp add: rs_last_log_id_def log_of_def lil_last_expand)

lemma log_seq_log_of: "kwf (rs_log_ids s) \<Longrightarrow> log_seq (log_of s)"
  by (simp add: log_of_def log_seq_expand)

lemma rs_has_log_id_spec:
  assumes "kwf (rs_log_ids s)"
  shows "rs_has_log_id s l = (if lg_index l < next_index (rs_committed s)
     then (if Some l \<le> rs_committed s then Some True else None) else Some (l \<in> set (log_of s)))"
proof -
  have "(case rs_get_log_id s (lg_index l) of Some local \<Rightarrow> l = local | None \<Rightarrow> False) \<longleftrightarrow> l \<in> set (log_of s)"
  proof (cases "rs_get_log_id s (lg_index l)")
    case None
    then have "\<forall>x \<in> set (log_of s). lg_index x \<noteq> lg_index l"
      by (auto simp: rs_get_log_id_spec[OF assms] find_None_iff)
    then show ?thesis using None by auto
  next
    case (Some y)
    then have "y \<in> set (log_of s)" "lg_index y = lg_index l"
      by (auto simp: rs_get_log_id_spec[OF assms] find_Some_iff)
    then show ?thesis
      using Some log_seq_unique_index[OF log_seq_log_of[OF assms]] by auto
  qed
  then show ?thesis by (simp add: rs_has_log_id_def ensure_def)
qed

text \<open>An entry is taken to be in the log when it is at or below the committed position, or it is found.\<close>

definition present :: "raft_state \<Rightarrow> log_id \<Rightarrow> bool" where
  "present s x \<longleftrightarrow> lg_index x < next_index (rs_committed s) \<or> x \<in> set (log_of s)"

lemma first_conflicting_spec:
  assumes "kwf (rs_log_ids s)"
    "\<And>x. x \<in> set (log_ids_of es) \<Longrightarrow> lg_index x < next_index (rs_committed s) \<Longrightarrow> Some x \<le> rs_committed s"
  shows "first_conflicting_from s i es = Some (i + length (takeWhile (\<lambda>e. present s (e_log_id e)) es))"
  using assms(2)
  by (induction es arbitrary: i) (auto simp: rs_has_log_id_spec[OF assms(1)] present_def)

section \<open>Logs\<close>

lemma log_seq_interval:
  assumes "log_seq xs" "a \<in> set xs" "b \<in> set xs" "lg_index a \<le> i" "i \<le> lg_index b"
  shows "\<exists>z \<in> set xs. lg_index z = i"
  using assms
proof (induction xs arbitrary: a)
  case (Cons x xs)
  show ?case
  proof (cases "xs = []")
    case True
    then show ?thesis using Cons.prems by auto
  next
    case False
    then have h: "lg_index (hd xs) = Suc (lg_index x)" "log_seq xs" using Cons.prems(1) by (auto simp: log_seq_Cons)
    note bd = log_seq_bounds[OF h(2)]
    show ?thesis
    proof (cases "i = lg_index x")
      case ne: False
      have x: "lg_index x \<le> i" using Cons.prems(2,4) bd h(1) by fastforce
      then have "b \<in> set xs" using ne Cons.prems(3,5) by auto
      moreover have "lg_index (hd xs) \<le> i" using x ne h(1) by simp
      ultimately show ?thesis using Cons.IH[OF h(2) hd_in_set[OF False]] Cons.prems(5) by auto
    qed simp
  qed
qed simp

lemma log_seq_filter_takeWhile:
  "log_seq xs \<Longrightarrow> filter (\<lambda>y. lg_index y < i) xs = takeWhile (\<lambda>y. lg_index y < i) xs"
proof (induction xs)
  case (Cons x xs)
  then have "log_seq xs" "\<And>y. y \<in> set xs \<Longrightarrow> lg_index x \<le> lg_index y"
    using log_seq_bounds[OF Cons.prems] by (auto simp: log_seq_Cons)
  note f = this
  show ?case
  proof (cases "lg_index x < i")
    case True
    then show ?thesis using Cons.IH[OF f(1)] by simp
  next
    case False
    then have "\<not> lg_index y < i" if "y \<in> set xs" for y using f(2)[OF that] by simp
    then show ?thesis using False by (simp add: filter_empty_conv)
  qed
qed simp

lemma log_seq_filter: "log_seq xs \<Longrightarrow> log_seq (filter (\<lambda>y. lg_index y < i) xs)"
  by (metis log_seq_appendD log_seq_filter_takeWhile takeWhile_dropWhile_id)

text \<open>The log below the index after one of its entries ends with that entry.\<close>

lemma last_filter_below:
  assumes "log_seq xs" "p \<in> set xs"
  shows "filter (\<lambda>y. lg_index y < Suc (lg_index p)) xs \<noteq> []"
    "last (filter (\<lambda>y. lg_index y < Suc (lg_index p)) xs) = p"
proof -
  let ?T = "filter (\<lambda>y. lg_index y < Suc (lg_index p)) xs"
  have p: "p \<in> set ?T" using assms(2) by simp
  then show ne: "?T \<noteq> []" by (metis empty_iff empty_set)
  have l: "last ?T \<in> set xs" "lg_index (last ?T) < Suc (lg_index p)"
    using last_in_set[OF ne] by (auto simp del: last_in_set)
  have "lg_index p \<le> lg_index (last ?T)"
    using log_seq_bounds[OF log_seq_filter[OF assms(1)] p] by simp
  then show "last ?T = p" using log_seq_unique_index[OF assms(1) l(1) assms(2)] l(2) by simp
qed

section \<open>A follower appends\<close>

text \<open>
  The append of Raft on the log ids: the entries that are present are skipped; from the first one
  that is not, the log is cut there and continues with the entries.
\<close>

definition raft_append :: "(log_id \<Rightarrow> bool) \<Rightarrow> log_id list \<Rightarrow> log_id list \<Rightarrow> log_id list" where
  "raft_append pres ids log =
     (case dropWhile pres ids of
        [] \<Rightarrow> log
      | x # xs \<Rightarrow> filter (\<lambda>y. lg_index y < lg_index x) log @ x # xs)"

text \<open>The log id of a membership is in the log or purged.\<close>

definition logged :: "raft_state \<Rightarrow> log_id option \<Rightarrow> bool" where
  "logged s l \<longleftrightarrow> (\<forall>x. l = Some x \<longrightarrow> x \<in> set (log_of s)
     \<or> log_of s \<noteq> [] \<and> lg_index x < lg_index (hd (log_of s)) \<and> lg_leader x \<le> lg_leader (hd (log_of s)))"

text \<open>
  What a follower relies on: its own invariant, an accepted I/O not newer than the leader, and a
  leader whose log agrees with what is committed here (leader completeness): the
  entries are consecutive to a present previous one, none contradicts a committed entry, and none
  conflicts at or below the last membership known to be committed.
\<close>

definition append_ok :: "committed_vote \<Rightarrow> log_id option \<Rightarrow> entry list \<Rightarrow> raft_state \<Rightarrow> bool" where
  "append_ok lv prev es s \<longleftrightarrow> rs_wf s
     \<and> logged s (em_log_id (ms_committed (rs_membership_state s)))
     \<and> logged s (em_log_id (ms_effective (rs_membership_state s)))
     \<and> map_option io_id_vote (io_accepted (ios_log_progress (rs_io_state s))) \<le> Some (cv_into_vote lv)
     \<and> log_seq ((case prev of None \<Rightarrow> [] | Some p \<Rightarrow> [p]) @ log_ids_of es)
     \<and> (es \<noteq> [] \<longrightarrow> lg_index (e_log_id (hd es)) = next_index prev)
     \<and> (\<forall>p. prev = Some p \<longrightarrow> present s p)
     \<and> (\<forall>x \<in> set ((case prev of None \<Rightarrow> [] | Some p \<Rightarrow> [p]) @ log_ids_of es).
          lg_index x < next_index (rs_committed s) \<longrightarrow>
            Some x \<le> rs_committed s \<and> (x \<in> set (log_of s) \<or> lg_index x < lg_index (hd (log_of s))))
     \<and> (\<forall>x \<in> set (log_ids_of es). \<not> present s x \<longrightarrow>
          next_index (em_log_id (ms_committed (rs_membership_state s))) \<le> lg_index x)"

text \<open>The entry before the first one that is not present is the last one the log keeps.\<close>

lemma append_junction:
  assumes "append_ok lv prev es s" "dropWhile (present s) (log_ids_of es) = x # xs"
  shows "next_index (last_opt (filter (\<lambda>y. lg_index y < lg_index x) (log_of s))) = lg_index x
    \<and> (filter (\<lambda>y. lg_index y < lg_index x) (log_of s) \<noteq> [] \<longrightarrow>
       lg_leader (last (filter (\<lambda>y. lg_index y < lg_index x) (log_of s))) \<le> lg_leader x)"
proof -
  let ?pl = "case prev of None \<Rightarrow> [] | Some p \<Rightarrow> [p]"
  let ?T = "filter (\<lambda>y. lg_index y < lg_index x) (log_of s)"
  define pre where "pre = takeWhile (present s) (log_ids_of es)"
  have ids: "log_ids_of es = pre @ x # xs" using assms(2) by (simp add: pre_def flip: assms(2))
  have x: "\<not> present s x" using assms(2) by (metis dropWhile_eq_Cons_conv)
  have wf: "rs_wf s" and ls: "log_seq (?pl @ pre @ x # xs)"
    and comp: "\<And>y. y \<in> set (?pl @ log_ids_of es) \<Longrightarrow> lg_index y < next_index (rs_committed s) \<Longrightarrow>
            y \<in> set (log_of s) \<or> lg_index y < lg_index (hd (log_of s))"
    and idx: "lg_index (e_log_id (hd es)) = next_index prev" and pp: "\<And>p. prev = Some p \<Longrightarrow> present s p"
    using assms(1) ids unfolding append_ok_def by auto
  have kwf: "kwf (rs_log_ids s)" using wf by (simp add: rs_wf_def)
  note seq = log_seq_log_of[OF kwf]
  show ?thesis
  proof (cases "?pl @ pre = []")
    case True
    then have z: "lg_index x = 0" using idx ids by (cases es) (auto split: option.splits)
    then show ?thesis by simp
  next
    case False
    define p where "p = last (?pl @ pre)"
    have pin: "p \<in> set (?pl @ pre)" unfolding p_def using False last_in_set by blast
    have px: "lg_index x = Suc (lg_index p)" "lg_leader p \<le> lg_leader x"
      using ls log_seq_append[OF False, of "x # xs"] by (simp_all add: p_def)
    have "present s p"
    proof (cases "p \<in> set pre")
      case True
      then show ?thesis unfolding pre_def by (auto dest: set_takeWhileD)
    next
      case False
      then show ?thesis using pin pp by (auto split: option.splits)
    qed
    moreover have "p \<in> set (log_of s)" if le: "lg_index p < next_index (rs_committed s)"
    proof -
      obtain c where c: "rs_committed s = Some c" using le by (cases "rs_committed s") auto
      have "c \<in> set (log_of s)" using wf c by (simp add: rs_wf_def log_of_def)
      then have "lg_index (hd (log_of s)) \<le> lg_index c" using log_seq_bounds[OF seq] by blast
      moreover have "lg_index c < lg_index x" using x c by (auto simp: present_def)
      ultimately have "\<not> lg_index p < lg_index (hd (log_of s)) \<or> lg_index c \<le> lg_index p" using px by auto
      moreover have "lg_index p \<le> lg_index c" using le c by simp
      ultimately show ?thesis
        using comp[of p] pin le ids \<open>lg_index (hd (log_of s)) \<le> lg_index c\<close> by auto
    qed
    ultimately have "p \<in> set (log_of s)" by (auto simp: present_def)
    from last_filter_below[OF seq this] show ?thesis using px by (simp add: last_opt_def)
  qed
qed

subsection \<open>Truncating\<close>

lemma fh_truncate_spec:
  assumes kwf: "kwf (rs_log_ids (en_state e))"
    and pu: "next_index (rs_last_purged_log_id (en_state e)) \<le> since"
    and cm: "next_index (em_log_id (ms_committed (rs_membership_state (en_state e)))) \<le> since"
    and at: "(\<exists>y \<in> set (log_of (en_state e)). lg_index y = since) \<or> (\<forall>y \<in> set (log_of (en_state e)). lg_index y < since)"
    and lo: "logged (en_state e) (em_log_id (ms_effective (rs_membership_state (en_state e))))"
  shows "\<exists>e'. fh_truncate_logs since e = Some e' \<and> kwf (rs_log_ids (en_state e'))
    \<and> log_of (en_state e') = filter (\<lambda>y. lg_index y < since) (log_of (en_state e))
    \<and> rs_membership_state (en_state e') = (let ms = rs_membership_state (en_state e) in
         if Some since \<le> opt_index (em_log_id (ms_effective ms)) then ms\<lparr>ms_effective := ms_committed ms\<rparr> else ms)
    \<and> rs_io_state (en_state e') = rs_io_state (en_state e) \<and> vote_ref (en_state e') = vote_ref (en_state e)
    \<and> rs_purged_next (en_state e') = rs_purged_next (en_state e)
    \<and> en_leader e' = en_leader e \<and> en_config e' = en_config e"
proof (cases "rs_get_log_id (en_state e) since")
  case None
  then have nf: "\<forall>y \<in> set (log_of (en_state e)). lg_index y \<noteq> since"
    by (auto simp: rs_get_log_id_spec[OF kwf] find_None_iff)
  then have all: "\<forall>y \<in> set (log_of (en_state e)). lg_index y < since" using at by blast
  have "\<not> Some since \<le> opt_index (em_log_id (ms_effective (rs_membership_state (en_state e))))"
  proof (cases "em_log_id (ms_effective (rs_membership_state (en_state e)))")
    case (Some l)
    have "lg_index l < since"
    proof (cases "l \<in> set (log_of (en_state e))")
      case False
      then have "log_of (en_state e) \<noteq> []" "lg_index l < lg_index (hd (log_of (en_state e)))"
        using lo Some by (auto simp: logged_def)
      then show ?thesis using all hd_in_set by fastforce
    qed (use all in simp)
    then show ?thesis using Some by simp
  qed simp
  moreover have "filter (\<lambda>y. lg_index y < since) (log_of (en_state e)) = log_of (en_state e)"
    using all by (simp add: filter_id_conv)
  ultimately show ?thesis using None pu kwf by (simp add: fh_truncate_logs_def Let_def ensure_def)
next
  case (Some l)
  obtain ks where ks: "lil_truncate since (rs_log_ids (en_state e)) = Some ks" "kwf ks"
    "expand ks = filter (\<lambda>x. lg_index x < since) (expand (rs_log_ids (en_state e)))"
    using lil_truncate_expand[OF kwf] by blast
  let ?ms = "rs_membership_state (en_state e)"
  show ?thesis
  proof (cases "Some since \<le> opt_index (em_log_id (ms_effective ?ms))")
    case True
    then show ?thesis
      using Some pu cm ks by (simp add: fh_truncate_logs_def Let_def ensure_def ms_truncate_def log_of_def)
  next
    case False
    then show ?thesis
      using Some pu cm ks by (simp add: fh_truncate_logs_def Let_def ensure_def ms_truncate_def log_of_def)
  qed
qed

subsection \<open>The memberships of the entries\<close>

fun memberships_of :: "entry list \<Rightarrow> stored_membership list" where
  "memberships_of [] = []"
| "memberships_of (x # xs) =
     (case entry_get_membership x of
        Some m \<Rightarrow> \<lparr>sm_log_id = Some (e_log_id x), sm_membership = m\<rparr> # memberships_of xs
      | None \<Rightarrow> memberships_of xs)"

lemma memberships_of_append: "memberships_of (xs @ ys) = memberships_of xs @ memberships_of ys"
  by (induction xs) (auto split: option.splits)

lemma memberships_of_rev: "memberships_of (rev xs) = rev (memberships_of xs)"
  by (induction xs) (auto simp: memberships_of_append split: option.splits)

lemma last_two_memberships_rev_spec:
  "length acc < 2 \<Longrightarrow> last_two_memberships_rev xs acc = rev (take (2 - length acc) (memberships_of xs)) @ acc"
proof (induction xs acc rule: last_two_memberships_rev.induct)
  case (2 x xs acc)
  then show ?case
  proof (cases "entry_get_membership x")
    case (Some m)
    show ?thesis
    proof (cases "length acc = 0")
      case True
      then show ?thesis using "2.IH"(2)[OF Some refl] Some by (simp add: Let_def numeral_2_eq_2)
    next
      case False
      then have "length acc = 1" using "2.prems" by (cases acc) auto
      then show ?thesis using Some by (simp add: Let_def)
    qed
  qed simp
qed simp

text \<open>The last two memberships of the entries, in the order of the log.\<close>

lemma last_two_memberships_spec:
  "last_two_memberships es = drop (length (memberships_of es) - 2) (memberships_of es)"
  by (simp add: last_two_memberships_def last_two_memberships_rev_spec memberships_of_rev rev_take)

definition mem_before :: "log_id option \<Rightarrow> stored_membership \<Rightarrow> bool" where
  "mem_before l m \<longleftrightarrow> l < sm_log_id m \<and> opt_index l < opt_index (sm_log_id m)"

lemma append_memberships_total:
  assumes "sorted_wrt (\<lambda>a b. mem_before (sm_log_id a) b) M"
    "\<And>m. m \<in> set M \<Longrightarrow> mem_before (em_log_id (ms_effective ms)) m"
  shows "\<exists>ms'. append_memberships M ms = Some ms'"
  using assms
proof (induction M arbitrary: ms)
  case (Cons m M)
  have "ms_append (em_new_from_stored m) ms = Some (ms\<lparr>ms_committed := ms_effective ms, ms_effective := em_new_from_stored m\<rparr>)"
    using Cons.prems(2)[of m] by (simp add: ms_append_def ensure_def mem_before_def em_new_from_stored_def)
  then show ?case
    using Cons.IH[of "ms\<lparr>ms_committed := ms_effective ms, ms_effective := em_new_from_stored m\<rparr>"] Cons.prems
    by (simp add: em_new_from_stored_def)
qed simp

lemma memberships_sorted:
  assumes "log_seq (log_ids_of es)"
  shows "sorted_wrt (\<lambda>a b. mem_before (sm_log_id a) b) (memberships_of es)
    \<and> (\<forall>m \<in> set (memberships_of es). \<exists>x \<in> set (log_ids_of es). sm_log_id m = Some x)"
  using assms
proof (induction es)
  case (Cons x es)
  have s: "log_seq (log_ids_of es)" using Cons.prems by (simp add: log_seq_Cons)
  have "lg_index (e_log_id x) < lg_index y \<and> lg_leader (e_log_id x) \<le> lg_leader y" if y: "y \<in> set (log_ids_of es)" for y
  proof -
    have "log_ids_of es \<noteq> []" using y by auto
    then have "lg_index (hd (log_ids_of es)) = Suc (lg_index (e_log_id x))"
      "lg_leader (e_log_id x) \<le> lg_leader (hd (log_ids_of es))"
      using Cons.prems by (simp_all add: log_seq_Cons del: log_ids_of_simps(5))
    then show ?thesis using log_seq_bounds[OF s y] by auto
  qed
  then have "mem_before (Some (e_log_id x)) m" if "m \<in> set (memberships_of es)" for m
    using that Cons.IH[OF s] by (fastforce simp: mem_before_def log_id_less_iff)
  then show ?case using Cons.IH[OF s] by (auto split: option.splits)
qed simp

subsection \<open>Appending\<close>

lemma logged_before:
  assumes "logged s l" "log_seq (log_of s @ ids)" "x \<in> set ids"
  shows "mem_before l \<lparr>sm_log_id = Some x, sm_membership = m\<rparr>"
proof (cases l)
  case (Some y)
  then have ne: "log_of s \<noteq> []" using assms(1) by (auto simp: logged_def)
  have ids: "ids \<noteq> []" using assms(3) by auto
  have sp: "log_seq (log_of s)" "log_seq ids" "lg_index (hd ids) = Suc (lg_index (last (log_of s)))"
    "lg_leader (last (log_of s)) \<le> lg_leader (hd ids)"
    using assms(2) log_seq_append[OF ne ids] by auto
  have "lg_index y \<le> lg_index (last (log_of s)) \<and> lg_leader y \<le> lg_leader (last (log_of s))"
  proof (cases "y \<in> set (log_of s)")
    case True
    then show ?thesis using log_seq_bounds[OF sp(1)] by simp
  next
    case False
    then show ?thesis
      using assms(1) Some log_seq_bounds[OF sp(1) last_in_set[OF ne]] by (auto simp: logged_def)
  qed
  then have "lg_index y < lg_index x \<and> lg_leader y \<le> lg_leader x"
    using sp(3,4) log_seq_bounds[OF sp(2) assms(3)] by auto
  then show ?thesis using Some by (auto simp: mem_before_def log_id_less_iff)
qed (simp add: mem_before_def)

lemma fh_do_append_spec:
  assumes kwf: "kwf (rs_log_ids (en_state e))" and ne: "es \<noteq> []"
    and seq: "log_seq (log_of (en_state e) @ log_ids_of es)"
    and first: "lg_index (e_log_id (hd es)) = next_index (last_opt (log_of (en_state e)))"
    and lo: "logged (en_state e) (em_log_id (ms_effective (rs_membership_state (en_state e))))"
  shows "\<exists>e'. fh_do_append_entries lv es e = Some e' \<and> kwf (rs_log_ids (en_state e'))
    \<and> log_of (en_state e') = log_of (en_state e) @ log_ids_of es
    \<and> rs_io_state (en_state e') = rs_io_state (en_state e) \<and> vote_ref (en_state e') = vote_ref (en_state e)
    \<and> rs_purged_next (en_state e') = rs_purged_next (en_state e) \<and> en_leader e' = en_leader e
    \<and> en_config e' = en_config e \<and> last (eo_commands (en_output e')) = AppendEntries lv es"
proof -
  obtain f fs where es: "es = f # fs" using ne by (cases es) auto
  have last: "lil_last (rs_log_ids (en_state e)) = last_opt (log_of (en_state e))"
    by (simp add: log_of_def lil_last_expand)
  have gt: "Some (e_log_id f) > last_opt (log_of (en_state e))"
  proof (cases "log_of (en_state e) = []")
    case False
    then have "lg_index (e_log_id f) = Suc (lg_index (last (log_of (en_state e))))"
      "lg_leader (last (log_of (en_state e))) \<le> lg_leader (e_log_id f)"
      using seq log_seq_append[OF False, of "log_ids_of es"] es by auto
    then show ?thesis using False by (auto simp: last_opt_def log_id_less_iff)
  qed simp
  obtain ks where ks: "lil_extend (log_ids_of es) (rs_log_ids (en_state e)) = Some ks" "kwf ks"
    "expand ks = log_of (en_state e) @ log_ids_of es"
    using lil_extend_expand[OF kwf] seq by (auto simp: log_of_def)
  let ?e1 = "e\<lparr>en_state := (en_state e)\<lparr>rs_log_ids := ks\<rparr>\<rparr>"
  have "log_seq (log_ids_of es)" using seq log_seq_appendD by blast
  note ms = memberships_sorted[OF this]
  have "mem_before (em_log_id (ms_effective (rs_membership_state (en_state e)))) m"
    if m: "m \<in> set (memberships_of es)" for m
  proof -
    obtain x where x: "x \<in> set (log_ids_of es)" "sm_log_id m = Some x" using ms m by blast
    show ?thesis using logged_before[OF lo seq x(1), of "sm_membership m"] x(2) by (simp add: mem_before_def)
  qed
  then have "\<exists>ms'. append_memberships (last_two_memberships es) (rs_membership_state (en_state e)) = Some ms'"
    unfolding last_two_memberships_spec using ms
    by (intro append_memberships_total) (auto simp: sorted_wrt_drop dest: in_set_dropD)
  then obtain ms' where ms': "append_memberships (last_two_memberships es) (rs_membership_state (en_state e)) = Some ms'"
    by blast
  have "\<exists>e2. fh_append_membership es ?e1 = Some e2 \<and> rs_log_ids (en_state e2) = ks
    \<and> rs_io_state (en_state e2) = rs_io_state (en_state e) \<and> vote_ref (en_state e2) = vote_ref (en_state e)
    \<and> rs_purged_next (en_state e2) = rs_purged_next (en_state e) \<and> en_leader e2 = en_leader e
    \<and> en_config e2 = en_config e"
    using ms' by (simp add: fh_append_membership_def Let_def)
  then obtain e2 where e2: "fh_append_membership es ?e1 = Some e2" "rs_log_ids (en_state e2) = ks"
    "rs_io_state (en_state e2) = rs_io_state (en_state e)" "vote_ref (en_state e2) = vote_ref (en_state e)"
    "rs_purged_next (en_state e2) = rs_purged_next (en_state e)" "en_leader e2 = en_leader e"
    "en_config e2 = en_config e" by blast
  have "fh_do_append_entries lv es e = Some (en_push (AppendEntries lv es) e2)"
    using first gt ks(1) e2(1) es
    by (simp add: fh_do_append_entries_def last en_on_state_def rs_extend_log_ids_def ensure_def)
  then show ?thesis using e2 ks by (simp add: log_of_def)
qed

lemma rs_accept_log_io_total:
  assumes "map_option io_id_vote (io_accepted (ios_log_progress (rs_io_state s))) \<le> Some (io_id_vote i)"
  shows "\<exists>s'. rs_accept_log_io i s = Some (io_accepted (ios_log_progress (rs_io_state s)), s')
    \<and> log_frame s s' \<and> rs_log_ids s' = rs_log_ids s \<and> rs_membership_state s' = rs_membership_state s"
  using assms by (auto simp: rs_accept_log_io_def Let_def ensure_def io_accept_def log_frame_def less_imp_le)

lemma rs_wf_purged_bound:
  assumes "rs_wf s" "next_index (rs_committed s) \<le> i"
  shows "next_index (rs_last_purged_log_id s) \<le> i"
proof (cases "rs_last_purged_log_id s")
  case (Some l)
  then have l: "lil_first (rs_log_ids s) = Some l" by (simp add: rs_last_purged_log_id_def split: if_splits)
  have v: "rs_last_purged_log_id s \<le> rs_purge_upto s" "rs_snapshot_last_log_id s \<le> rs_committed s"
    "if rs_snapshot_last_log_id s = None then rs_purge_upto s \<le> rs_committed s
     else rs_purge_upto s \<le> rs_snapshot_last_log_id s"
    using assms(1) by (auto simp: rs_wf_def rs_validate_def)
  have "Some l \<le> rs_committed s" using v Some by (auto split: if_splits intro: order_trans)
  then obtain c where c: "rs_committed s = Some c" by (cases "rs_committed s") auto
  have kwf: "kwf (rs_log_ids s)" and "c \<in> set (log_of s)"
    using assms(1) c by (simp_all add: rs_wf_def log_of_def)
  then have "lg_index (hd (log_of s)) \<le> lg_index c" using log_seq_bounds[OF log_seq_log_of] by blast
  moreover have "hd (log_of s) = l" using l by (cases "rs_log_ids s") (auto simp: lil_first_def log_of_def)
  ultimately show ?thesis using assms(2) Some c by simp
qed simp

lemma logged_filter:
  assumes "logged s l" "log_of s' = filter (\<lambda>y. lg_index y < i) (log_of s)" "next_index l \<le> i"
    "log_of s' = [] \<Longrightarrow> i = 0" "log_seq (log_of s)"
  shows "logged s' l"
proof (cases l)
  case (Some x)
  show ?thesis
  proof (cases "x \<in> set (log_of s)")
    case True
    then show ?thesis using assms(2,3) Some by (auto simp: logged_def)
  next
    case False
    have ne: "log_of s' \<noteq> []" using assms(3,4) Some by auto
    have "log_of s' = takeWhile (\<lambda>y. lg_index y < i) (log_of s)"
      using assms(2) log_seq_filter_takeWhile[OF assms(5)] by simp
    then have "hd (log_of s') = hd (log_of s)" using ne by (cases "log_of s") (auto split: if_splits)
    then show ?thesis using assms(1) Some False ne by (auto simp: logged_def)
  qed
qed (simp add: logged_def)

lemma log_ids_of_dropWhile: "log_ids_of (drop (length (takeWhile P es)) es) = log_ids_of (dropWhile P es)"
  by (simp add: dropWhile_eq_drop)

lemma log_ids_of_dropWhile_map:
  "log_ids_of (dropWhile (\<lambda>e. P (e_log_id e)) es) = dropWhile P (log_ids_of es)"
  by (induction es) auto

text \<open>
  C6. A follower that accepts entries from a leader whose log agrees with what is committed does
  not panic, and its log afterwards is the log of Raft's append: the prefix before the first
  entry it does not have, followed by the entries. What is committed is not touched.
\<close>

theorem follower_append_refines_raft:
  assumes ok: "append_ok lv prev es (en_state e)"
  shows "\<exists>e'. fh_append_entries lv prev es e = Some e'
    \<and> log_of (en_state e') = raft_append (present (en_state e)) (log_ids_of es) (log_of (en_state e))
    \<and> kwf (rs_log_ids (en_state e')) \<and> rs_committed (en_state e') = rs_committed (en_state e)
    \<and> vote_ref (en_state e') = vote_ref (en_state e)"
proof -
  let ?s = "en_state e" and ?ids = "log_ids_of es"
  let ?io = "io_id_new_log_io lv (max prev (map_option e_log_id (last_opt es)))"
  have wf: "rs_wf ?s" and kwf: "kwf (rs_log_ids ?s)"
    and lc: "logged ?s (em_log_id (ms_committed (rs_membership_state ?s)))"
    and le: "logged ?s (em_log_id (ms_effective (rs_membership_state ?s)))"
    and io: "map_option io_id_vote (io_accepted (ios_log_progress (rs_io_state ?s))) \<le> Some (cv_into_vote lv)"
    and sq: "log_seq ((case prev of None \<Rightarrow> [] | Some p \<Rightarrow> [p]) @ ?ids)"
    and fi: "es \<noteq> [] \<Longrightarrow> lg_index (e_log_id (hd es)) = next_index prev"
    and comm: "\<And>x. x \<in> set ?ids \<Longrightarrow> lg_index x < next_index (rs_committed ?s) \<Longrightarrow> Some x \<le> rs_committed ?s"
    and nc: "\<And>x. x \<in> set ?ids \<Longrightarrow> \<not> present ?s x \<Longrightarrow>
          next_index (em_log_id (ms_committed (rs_membership_state ?s))) \<le> lg_index x"
    using ok unfolding append_ok_def rs_wf_def by auto
  have sqi: "log_seq ?ids" using sq log_seq_appendD by blast
  obtain s1 where s1: "rs_accept_log_io ?io ?s = Some (io_accepted (ios_log_progress (rs_io_state ?s)), s1)"
    "log_frame ?s s1" "rs_log_ids s1 = rs_log_ids ?s" "rs_membership_state s1 = rs_membership_state ?s"
    using rs_accept_log_io_total[of ?s ?io] io by (auto simp: io_id_new_log_io_def)
  let ?e1 = "e\<lparr>en_state := s1\<rparr>"
  have log1: "log_of s1 = log_of ?s" using s1(3) by (simp add: log_of_def)
  have pr1: "present s1 = present ?s" using log_frame_D(2)[OF s1(2)] log1 by (intro ext) (simp add: present_def)
  let ?k = "length (takeWhile (\<lambda>e. present ?s (e_log_id e)) es)"
  have k: "rs_first_conflicting_index s1 es = Some ?k"
    using first_conflicting_spec[of s1 es 0] kwf comm s1(3) log_frame_D(2)[OF s1(2)]
    by (simp add: rs_first_conflicting_index_def pr1)
  have first: "(case first_opt es of Some first \<Rightarrow> lg_index (e_log_id first) = next_index prev | None \<Rightarrow> True)"
    using fi by (cases es) auto
  have head: "fh_append_entries lv prev es e =
    (if ?k < length es
     then Option.bind (fh_truncate_logs (lg_index (e_log_id (es ! ?k))) ?e1)
            (fh_do_append_entries lv (drop ?k es))
     else (if Some ?io \<le> io_accepted (ios_log_progress (rs_io_state ?s)) then Some ?e1
         else Some (en_push (UpdateIOProgress
           (map_option IOFlushed (io_accepted (ios_log_progress (rs_io_state ?s)))) ?io) ?e1)))"
    using first s1(1) k by (simp add: fh_append_entries_def Let_def ensure_def)
  have dw: "log_ids_of (drop ?k es) = dropWhile (present ?s) ?ids"
    by (simp add: log_ids_of_dropWhile log_ids_of_dropWhile_map)
  show ?thesis
  proof (cases "?k < length es")
    case False
    then have "dropWhile (present ?s) ?ids = []" using dw by simp
    then have "raft_append (present ?s) ?ids (log_of ?s) = log_of ?s"
      by (simp only: raft_append_def list.case)
    then show ?thesis using head False log_frame_D[OF s1(2)] kwf s1(3) by (auto simp: log1)
  next
    case True
    obtain x xs where x: "dropWhile (present ?s) ?ids = x # xs" "e_log_id (es ! ?k) = x"
    proof -
      have "drop ?k es = es ! ?k # drop (Suc ?k) es" using True by (simp add: Cons_nth_drop_Suc)
      then have "dropWhile (present ?s) ?ids = e_log_id (es ! ?k) # log_ids_of (drop (Suc ?k) es)"
        using dw by simp
      then show thesis using that by blast
    qed
    have xin: "x \<in> set ?ids" using x(1) set_dropWhileD[of x "present ?s" ?ids] by simp
    have xnp: "\<not> present ?s x" using x(1) by (metis dropWhile_eq_Cons_conv)
    note j = append_junction[OF ok x(1)]
    let ?T = "filter (\<lambda>y. lg_index y < lg_index x) (log_of ?s)"
    have ci: "next_index (rs_committed ?s) \<le> lg_index x" using xnp by (auto simp: present_def)
    have Tz: "?T = [] \<Longrightarrow> lg_index x = 0" using j by simp
    have at: "(\<exists>y \<in> set (log_of ?s). lg_index y = lg_index x) \<or> (\<forall>y \<in> set (log_of ?s). lg_index y < lg_index x)"
    proof (cases "\<forall>y \<in> set (log_of ?s). lg_index y < lg_index x")
      case False
      then obtain y where y: "y \<in> set (log_of ?s)" "lg_index x \<le> lg_index y" by (auto simp: not_less)
      show ?thesis
      proof (cases "?T = []")
        case ne: False
        then have "last ?T \<in> set (log_of ?s)" using last_in_set[OF ne] by auto
        moreover have "Suc (lg_index (last ?T)) = lg_index x" using j ne by (simp add: last_opt_def)
        ultimately show ?thesis using log_seq_interval[OF log_seq_log_of[OF kwf], of "last ?T" y] y by auto
      next
        case True
        then have z: "lg_index x = 0" by (rule Tz)
        have f: "first_opt (log_of ?s) = Some (hd (log_of ?s))" using y by (cases "log_of ?s") auto
        then have lf: "lil_first (rs_log_ids ?s) = Some (hd (log_of ?s))" by (simp add: lil_first_expand log_of_def)
        have "rs_purged_next ?s = 0"
          using rs_wf_purged_bound[OF wf ci] z lf by (auto simp: rs_last_purged_log_id_def split: if_splits)
        then have "opt_index (lil_first (rs_log_ids ?s)) \<le> Some 0" using wf by (simp add: rs_wf_def rs_validate_def)
        then have "lg_index (hd (log_of ?s)) = 0" using lf by simp
        then show ?thesis using y z by (intro disjI1 bexI[of _ "hd (log_of ?s)"]) (auto intro: hd_in_set)
      qed
    qed simp
    have pu: "next_index (rs_last_purged_log_id s1) \<le> lg_index x"
      using rs_wf_purged_bound[OF wf ci] s1(2,3) by (auto simp: rs_last_purged_log_id_def log_frame_def)
    have lg1: "logged s1 l = logged ?s l" for l by (simp add: logged_def log1)
    obtain e2 where e2: "fh_truncate_logs (lg_index x) ?e1 = Some e2" "kwf (rs_log_ids (en_state e2))"
      "log_of (en_state e2) = ?T"
      "rs_membership_state (en_state e2) = (let ms = rs_membership_state s1 in
         if Some (lg_index x) \<le> opt_index (em_log_id (ms_effective ms)) then ms\<lparr>ms_effective := ms_committed ms\<rparr> else ms)"
      "rs_io_state (en_state e2) = rs_io_state s1" "vote_ref (en_state e2) = vote_ref s1"
      using fh_truncate_spec[of ?e1 "lg_index x"] kwf s1(3,4) pu nc[OF xin xnp] at le by (auto simp: log1 lg1)
    let ?eff = "em_log_id (ms_effective (rs_membership_state (en_state e2)))"
    have "next_index ?eff \<le> lg_index x \<and> logged ?s ?eff"
    proof (cases "Some (lg_index x) \<le> opt_index (em_log_id (ms_effective (rs_membership_state ?s)))")
      case True
      then show ?thesis using nc[OF xin xnp] lc by (simp add: e2(4) s1(4) Let_def)
    next
      case False
      then show ?thesis
        using le by (cases "em_log_id (ms_effective (rs_membership_state ?s))") (auto simp: e2(4) s1(4) Let_def)
    qed
    note eff = this
    have lo2: "logged (en_state e2) ?eff"
    proof (rule logged_filter)
      show "logged ?s ?eff" by (rule conjunct2[OF eff])
      show "log_of (en_state e2) = ?T" by (rule e2(3))
      show "next_index ?eff \<le> lg_index x" by (rule conjunct1[OF eff])
      show "lg_index x = 0" if "log_of (en_state e2) = []" using that Tz by (simp only: e2(3))
      show "log_seq (log_of ?s)" by (rule log_seq_log_of[OF kwf])
    qed
    have d: "log_ids_of (drop ?k es) = x # xs" using dw x(1) by simp
    have sqx: "log_seq (x # xs)"
      using sqi x(1) log_seq_appendD by (metis takeWhile_dropWhile_id)
    have seq2: "log_seq (log_of (en_state e2) @ log_ids_of (drop ?k es))"
    proof (cases "?T = []")
      case True
      then show ?thesis using sqx e2(3) d by simp
    next
      case ne: False
      then have "lg_index x = Suc (lg_index (last ?T))" "lg_leader (last ?T) \<le> lg_leader x"
        using j by (simp_all add: last_opt_def)
      then show ?thesis
        using log_seq_append[OF ne, of "x # xs"] sqx log_seq_filter[OF log_seq_log_of[OF kwf]] e2(3) d by simp
    qed
    have hd: "lg_index (e_log_id (hd (drop ?k es))) = next_index (last_opt (log_of (en_state e2)))"
      using j e2(3) x(2) True by (simp add: hd_drop_conv_nth)
    obtain e3 where e3: "fh_do_append_entries lv (drop ?k es) e2 = Some e3" "kwf (rs_log_ids (en_state e3))"
      "log_of (en_state e3) = ?T @ x # xs" "rs_io_state (en_state e3) = rs_io_state (en_state e2)"
      "vote_ref (en_state e3) = vote_ref (en_state e2)"
      using fh_do_append_spec[OF e2(2) _ seq2 hd lo2, of lv] True by (auto simp: e2(3) d)
    have "raft_append (present ?s) ?ids (log_of ?s) = ?T @ x # xs" by (simp add: raft_append_def x(1))
    moreover have "rs_committed (en_state e3) = rs_committed ?s"
      using e3(4) e2(5) log_frame_D(2)[OF s1(2)] by (simp add: rs_committed_def)
    ultimately show ?thesis
      using head True x(2) e2(1,6) e3 log_frame_D(1)[OF s1(2)] by simp
  qed
qed

text \<open>The leader of term 2 replaces the last entry of the example log and appends one.\<close>

definition example_entries :: "entry list" where
  "example_entries = [entry_new (LogId (LeaderId 2 2) 4) Blank, entry_new (LogId (LeaderId 2 2) 5) Blank]"

lemma example_log: "log_of example_state =
    [LogId (LeaderId 0 0) 0, LogId (LeaderId 1 3) 1, LogId (LeaderId 1 3) 2, LogId (LeaderId 1 3) 3, LogId (LeaderId 1 3) 4]"
  by code_simp

lemma example_committed: "rs_committed example_state = Some (LogId (LeaderId 1 3) 2)"
  by code_simp

lemma example_state_wf: "rs_wf example_state"
proof -
  have "rs_validate example_state" by code_simp
  moreover have "kwf (rs_log_ids example_state)" by code_simp
  moreover have "ms_wf (rs_membership_state example_state)"
    by (simp add: example_state_def ms_wf_def ms_validate_def)
  ultimately show ?thesis
    using example_log example_committed by (simp add: rs_wf_def log_of_def)
qed

lemma example_append_ok:
  "append_ok (CommittedVote (LeaderId 2 2)) (Some (LogId (LeaderId 1 3) 3)) example_entries example_state"
proof -
  have a: "em_log_id (ms_committed (rs_membership_state example_state)) = Some (LogId (LeaderId 0 0) 0)"
    "em_log_id (ms_effective (rs_membership_state example_state)) = Some (LogId (LeaderId 0 0) 0)"
    by (simp_all add: example_state_def)
  have b: "map_option io_id_vote (io_accepted (ios_log_progress (rs_io_state example_state)))
      \<le> Some (cv_into_vote (CommittedVote (LeaderId 2 2)))" by code_simp
  have c: "log_seq ([LogId (LeaderId 1 3) 3] @ log_ids_of example_entries)" by code_simp
  show ?thesis
    unfolding append_ok_def
    using example_state_wf a b c
    by (simp add: logged_def example_log example_committed present_def example_entries_def entry_new_def)
qed

theorem follower_append_refines_raft_witness:
  "\<exists>e'. fh_append_entries (CommittedVote (LeaderId 2 2)) (Some (LogId (LeaderId 1 3) 3)) example_entries
       example_engine = Some e'
    \<and> log_of (en_state e') = [LogId (LeaderId 0 0) 0, LogId (LeaderId 1 3) 1, LogId (LeaderId 1 3) 2,
         LogId (LeaderId 1 3) 3, LogId (LeaderId 2 2) 4, LogId (LeaderId 2 2) 5]"
proof -
  have s: "en_state example_engine = example_state" by (simp add: example_engine_def engine_new_def)
  have "raft_append (present example_state) (log_ids_of example_entries) (log_of example_state) =
      [LogId (LeaderId 0 0) 0, LogId (LeaderId 1 3) 1, LogId (LeaderId 1 3) 2,
         LogId (LeaderId 1 3) 3, LogId (LeaderId 2 2) 4, LogId (LeaderId 2 2) 5]"
    by code_simp
  then show ?thesis
    using follower_append_refines_raft[of "CommittedVote (LeaderId 2 2)" "Some (LogId (LeaderId 1 3) 3)"
        example_entries example_engine] example_append_ok s by auto
qed

section \<open>A leader commits\<close>

lemma rs_update_local_committed_spec:
  assumes "rs_update_local_committed c s = Some (r, s')"
  shows "rs_committed s' = max (rs_committed s) c \<and> rs_log_ids s' = rs_log_ids s
    \<and> rs_vote s' = rs_vote s \<and> (r = None \<longleftrightarrow> \<not> rs_committed s < c)
    \<and> ms_effective (rs_membership_state s') = ms_effective (rs_membership_state s)"
proof (cases "c > rs_committed s")
  case True
  then obtain x p ms where *: "c = Some x" "io_accept x (ios_apply_progress (rs_io_state s)) = Some p"
    "ms_commit c (rs_membership_state s) = Some ms" "r = Some (rs_committed s)"
    "s' = s\<lparr>rs_io_state := (rs_io_state s)\<lparr>ios_apply_progress := p\<rparr>, rs_membership_state := ms\<rparr>"
    using assms unfolding rs_update_local_committed_def Let_def by (auto simp: bind_eq_Some_conv)
  have "io_accepted p = Some x" using *(2) by (auto simp: io_accept_def)
  moreover have "ms_effective ms = ms_effective (rs_membership_state s)"
    using *(3) by (auto simp: ms_commit_def split: if_splits)
  ultimately show ?thesis using True * by (simp add: rs_committed_def max_def less_imp_le)
next
  case False
  then have "r = None" "s' = s" using assms by (auto simp: rs_update_local_committed_def)
  then show ?thesis using False by (simp add: max_absorb1)
qed

text \<open>
  C18. A leader commits by counting replicas only log ids of its own term: a granted log id of an
  older leader changes nothing; a granted log id of this leader moves the committed position
  to the maximum of both, never back, and announces it when it moved. The log is not changed.
\<close>

theorem commit_only_own_term:
  assumes "rh_try_commit_quorum_accepted granted e = Some e'"
  shows "log_of (en_state e') = log_of (en_state e) \<and> en_leader e' = en_leader e
    \<and> (if (\<exists>c. granted = Some c \<and> \<not> vote_is_same_leader (vote_ref (en_state e)) (lg_leader c)) then e' = e
       else rs_committed (en_state e') = max (rs_committed (en_state e)) granted
         \<and> eo_commands (en_output e') = eo_commands (en_output e) @
             (if rs_committed (en_state e) < granted then [ReplicateCommitted granted] else []))"
proof (cases "\<exists>c. granted = Some c \<and> \<not> vote_is_same_leader (vote_ref (en_state e)) (lg_leader c)")
  case True
  then show ?thesis using assms by (auto simp: rh_try_commit_quorum_accepted_def Let_def)
next
  case False
  let ?s = "(en_state e)\<lparr>rs_io_state := (rs_io_state (en_state e))\<lparr>ios_cluster_committed :=
              snd (mono_try_update (LogIOId (vote_into_committed (vote_ref (en_state e))) granted)
                (ios_cluster_committed (rs_io_state (en_state e))))\<rparr>\<rparr>"
  obtain r s' where r: "rs_update_local_committed granted ?s = Some (r, s')"
    and e': "e' = (case r of Some _ \<Rightarrow> en_push (ReplicateCommitted (rs_committed s')) (e\<lparr>en_state := s'\<rparr>)
        | None \<Rightarrow> e\<lparr>en_state := s'\<rparr>)"
    using assms False
    by (auto simp: rh_try_commit_quorum_accepted_def Let_def bind_eq_Some_conv split: option.splits)
  have "rs_committed ?s = rs_committed (en_state e)" by (simp add: rs_committed_def)
  then show ?thesis
    using rs_update_local_committed_spec[OF r] False
    by (cases r) (auto simp: e' log_of_def max_def less_imp_le)
qed

theorem commit_only_own_term_witness:
  "\<exists>e'. rh_try_commit_quorum_accepted (Some (LogId (LeaderId 1 3) 4)) example_engine = Some e'
    \<and> rs_committed (en_state e') = Some (LogId (LeaderId 1 3) 4)"
proof -
  let ?g = "Some (LogId (LeaderId 1 3) 4)"
  have "rh_try_commit_quorum_accepted ?g example_engine \<noteq> None" by code_simp
  then obtain e' where e': "rh_try_commit_quorum_accepted ?g example_engine = Some e'" by auto
  have "vote_is_same_leader (vote_ref (en_state example_engine)) (LeaderId 1 3)"
    "max (rs_committed (en_state example_engine)) ?g = ?g" by code_simp+
  then show ?thesis using commit_only_own_term[OF e'] e' by auto
qed

section \<open>What is applied\<close>

text \<open>
  C19. Asking for what to apply never panics, and what the engine asks to apply is committed and
  submitted to the log store, continues what was submitted to the state machine before, and is
  asked for only when the submitted and the accepted I/O belong to the same vote.
\<close>

theorem apply_only_committed_and_submitted:
  "(\<exists>c. en_next_progress_driven_command e = Some c) \<and>
   (\<forall>x. en_next_progress_driven_command e = Some (Some x) \<longrightarrow>
     (\<exists>up. x = SaveCommittedAndApply (io_submitted (ios_apply_progress (rs_io_state (en_state e)))) up
       \<and> Some up \<le> rs_committed (en_state e)
       \<and> Some up \<le> Option.bind (io_submitted (ios_log_progress (rs_io_state (en_state e)))) io_id_last_log_id
       \<and> next_index (io_submitted (ios_apply_progress (rs_io_state (en_state e)))) \<le> lg_index up
       \<and> map_option io_id_vote (io_submitted (ios_log_progress (rs_io_state (en_state e))))
         = map_option io_id_vote (io_accepted (ios_log_progress (rs_io_state (en_state e))))))"
proof -
  let ?ap = "ios_apply_progress (rs_io_state (en_state e))" and ?lp = "ios_log_progress (rs_io_state (en_state e))"
  let ?up = "min (Option.bind (io_submitted ?lp) io_id_last_log_id) (io_accepted ?ap)"
  show ?thesis
  proof (cases "map_option io_id_vote (io_submitted ?lp) = map_option io_id_vote (io_accepted ?lp)
      \<and> next_index (io_submitted ?ap) < next_index ?up")
    case True
    then obtain up where up: "?up = Some up" by (cases ?up) auto
    have "en_next_progress_driven_command e = Some (Some (SaveCommittedAndApply (io_submitted ?ap) up))"
      using True up by (simp add: en_next_progress_driven_command_def Let_def)
    moreover have "Some up \<le> rs_committed (en_state e)"
      "Some up \<le> Option.bind (io_submitted ?lp) io_id_last_log_id"
      using min.cobounded1 min.cobounded2 by (simp_all add: rs_committed_def flip: up)
    ultimately show ?thesis using True up by auto
  next
    case False
    then have "en_next_progress_driven_command e = Some None"
      by (auto simp: en_next_progress_driven_command_def Let_def)
    then show ?thesis by simp
  qed
qed

theorem apply_only_committed_and_submitted_witness:
  "\<exists>e up. en_next_progress_driven_command e = Some (Some (SaveCommittedAndApply (Some (LogId (LeaderId 1 3) 2)) up))
     \<and> Some up \<le> rs_committed (en_state e)"
proof -
  let ?io = "rs_io_state example_state"
  let ?e = "example_engine\<lparr>en_state := example_state\<lparr>rs_io_state :=
      ?io\<lparr>ios_apply_progress := (ios_apply_progress ?io)\<lparr>io_accepted := Some (LogId (LeaderId 1 3) 4)\<rparr>\<rparr>\<rparr>\<rparr>"
  have r: "en_next_progress_driven_command ?e =
      Some (Some (SaveCommittedAndApply (Some (LogId (LeaderId 1 3) 2)) (LogId (LeaderId 1 3) 4)))"
    by code_simp
  show ?thesis
    using apply_only_committed_and_submitted[of ?e] r by blast
qed

section \<open>Purging\<close>

lemma log_seq_filter_from:
  assumes "log_seq xs" "u \<in> set xs"
  shows "filter (\<lambda>y. lg_index u \<le> lg_index y) xs \<noteq> []"
    "hd (filter (\<lambda>y. lg_index u \<le> lg_index y) xs) = u"
    "last (filter (\<lambda>y. lg_index u \<le> lg_index y) xs) = last xs"
proof -
  let ?F = "filter (\<lambda>y. lg_index u \<le> lg_index y) xs"
  show ne: "?F \<noteq> []" using assms(2) by (auto simp: filter_empty_conv)
  have xs: "xs \<noteq> []" using assms(2) by auto
  have "lg_index u \<le> lg_index (last xs)" using log_seq_bounds[OF assms] by simp
  then show "last ?F = last xs" by (cases xs rule: rev_cases) auto
  have "xs = filter (\<lambda>y. lg_index y < lg_index u) xs @ dropWhile (\<lambda>y. lg_index y < lg_index u) xs"
    by (simp add: log_seq_filter_takeWhile[OF assms(1)])
  moreover define D where "D = dropWhile (\<lambda>y. lg_index y < lg_index u) xs"
  ultimately have split: "xs = filter (\<lambda>y. lg_index y < lg_index u) xs @ D" by simp
  have D: "log_seq D" using split assms(1) log_seq_appendD by metis
  have "u \<in> set (filter (\<lambda>y. lg_index y < lg_index u) xs @ D)" using assms(2) split by simp
  then have u: "u \<in> set D" by simp
  have h: "\<not> lg_index (hd D) < lg_index u" using u unfolding D_def
    by (metis empty_iff empty_set hd_dropWhile)
  have "\<forall>y \<in> set D. lg_index u \<le> lg_index y"
    using h log_seq_bounds[OF D] by (meson le_trans not_less)
  then have "filter (\<lambda>y. lg_index u \<le> lg_index y) D = D" by (simp add: filter_id_conv)
  then have "?F = D" by (subst split) (auto simp: filter_empty_conv not_le)
  moreover have "hd D = u"
  proof (rule log_seq_unique_index[OF D])
    show "hd D \<in> set D" using u by (cases D) auto
    show "lg_index (hd D) = lg_index u" using h log_seq_bounds[OF D u] by simp
  qed (rule u)
  ultimately show "hd ?F = u" by simp
qed

lemma log_seq_le_index:
  assumes "log_seq xs" "u \<in> set xs" "c \<in> set xs" "u \<le> c"
  shows "lg_index u \<le> lg_index c"
proof (rule ccontr)
  assume "\<not> lg_index u \<le> lg_index c"
  then show False
    using log_seq_mono[OF assms(1,3,2)] assms(4) by (auto simp: log_id_le_iff)
qed

lemma rs_wf_purge_upto_le: "rs_wf s \<Longrightarrow> rs_purge_upto s \<le> rs_committed s"
  by (auto simp: rs_wf_def rs_validate_def split: if_splits intro: order_trans)

text \<open>
  C25. Purging never panics when the log id to purge up to is in the log, keeps the whole invariant
  of the state, drops exactly the entries below that log id, and keeps the committed position
  and with it every entry that is not committed yet.
\<close>

theorem purge_keeps_invariant:
  assumes wf: "rs_wf (en_state e)"
    and up: "\<And>u. rs_purge_upto (en_state e) = Some u \<Longrightarrow> rs_last_purged_log_id (en_state e) < Some u
        \<Longrightarrow> u \<in> set (log_of (en_state e))"
  shows "\<exists>e'. lh_purge_log e = Some e' \<and> rs_wf (en_state e')
    \<and> rs_committed (en_state e') = rs_committed (en_state e)
    \<and> rs_last_log_id (en_state e') = rs_last_log_id (en_state e)
    \<and> log_of (en_state e') =
        (if rs_last_purged_log_id (en_state e) < rs_purge_upto (en_state e)
         then filter (\<lambda>y. next_index (rs_purge_upto (en_state e)) \<le> Suc (lg_index y)) (log_of (en_state e))
         else log_of (en_state e))"
proof (cases "rs_last_purged_log_id (en_state e) < rs_purge_upto (en_state e)")
  case False
  then show ?thesis using wf by (auto simp: lh_purge_log_def Let_def not_less)
next
  case True
  let ?s = "en_state e"
  obtain u where u: "rs_purge_upto ?s = Some u" using True by (cases "rs_purge_upto ?s") auto
  have uin: "u \<in> set (log_of ?s)" using up[OF u] True u by simp
  have kwf: "kwf (rs_log_ids ?s)" using wf by (simp add: rs_wf_def)
  note seq = log_seq_log_of[OF kwf] and ff = log_seq_filter_from[OF log_seq_log_of[OF kwf] uin]
  have lastk: "rs_log_ids ?s \<noteq> []" "lg_index u \<le> lg_index (last (rs_log_ids ?s))"
    using uin log_seq_bounds[OF seq uin] by (auto simp: log_of_def)
  obtain ks where ks: "lil_purge u (rs_log_ids ?s) = Some ks" "kwf ks"
    "expand ks = filter (\<lambda>y. lg_index u \<le> lg_index y) (log_of ?s)"
    using lil_purge_expand[OF kwf, of u] lastk by (auto simp: last_opt_def log_of_def)
  let ?s' = "?s\<lparr>rs_purged_next := lg_index u + 1, rs_log_ids := ks\<rparr>"
  have e': "lh_purge_log e = Some (en_push (PurgeLog u) (e\<lparr>en_state := ?s'\<rparr>))"
    using True u ks(1) by (simp add: lh_purge_log_def Let_def rs_purge_log_def not_le)
  have first: "lil_first ks = Some u"
    using ff(1,2) unfolding lil_first_expand ks(3)
    by (cases "filter (\<lambda>y. lg_index u \<le> lg_index y) (log_of ?s)") simp_all
  have last: "lil_last ks = lil_last (rs_log_ids ?s)"
    using ff(1,3) ks(3) lastk(1) by (simp add: lil_last_expand last_opt_def log_of_def)
  have c: "c \<in> set (expand ks)" if "rs_committed ?s = Some c" for c
  proof -
    have "c \<in> set (log_of ?s)" using wf that by (simp add: rs_wf_def log_of_def)
    moreover have "u \<le> c" using rs_wf_purge_upto_le[OF wf] u that by simp
    ultimately show ?thesis using log_seq_le_index[OF seq uin] by (simp add: ks(3))
  qed
  have val: "rs_validate ?s" using wf by (simp add: rs_wf_def)
  have "rs_validate ?s'"
    using val first last u
    by (auto simp: rs_validate_def rs_last_purged_log_id_def rs_committed_def rs_snapshot_last_log_id_def rs_last_log_id_def)
  then have "rs_wf ?s'" using wf ks(2) c by (simp add: rs_wf_def rs_committed_def)
  then show ?thesis
    using e' last ks(3) u True by (simp add: rs_committed_def rs_last_log_id_def log_of_def)
qed

theorem purge_keeps_invariant_witness:
  "\<exists>e'. lh_purge_log (example_engine\<lparr>en_state := example_state\<lparr>rs_purge_upto := Some (LogId (LeaderId 1 3) 2)\<rparr>\<rparr>) = Some e'
    \<and> log_of (en_state e') = [LogId (LeaderId 1 3) 2, LogId (LeaderId 1 3) 3, LogId (LeaderId 1 3) 4]"
proof -
  let ?s = "example_state\<lparr>rs_purge_upto := Some (LogId (LeaderId 1 3) 2)\<rparr>"
  let ?e = "example_engine\<lparr>en_state := ?s\<rparr>"
  have "rs_validate ?s" by code_simp
  moreover have l: "log_of ?s = log_of example_state" by (simp add: log_of_def)
  ultimately have wf: "rs_wf ?s"
    using example_state_wf by (simp add: rs_wf_def rs_committed_def)
  have p: "rs_last_purged_log_id ?s = None" by code_simp
  show ?thesis
    using purge_keeps_invariant[of ?e] wf p l example_log by auto
qed

end
