(* ===== verification/StorageTraits.thy ===== *)
theory StorageTraits
imports RaftState Entry "HOL-Library.Sublist"
begin

text \<open>
  \<^verbatim>\<open>openraft/src/storage/v2\<close>: what Raft asks of a log store and a state machine, as a record of
  operations, and \<^verbatim>\<open>StorageError\<close>, the error every failing call becomes. The locale \<open>raft_store\<close>
  states what the documentation of the traits promises, over the view of a store: the vote, the
  committed log id, the log, the state machine and the current snapshot it stands for. A store may
  run out of snapshot ids; \<open>may_build\<close> tells that it has not.
\<close>

section \<open>Errors of an operation\<close>

datatype io_error = IoOther string | IoInvalidData string

type_synonym 'a io = "io_error + 'a"

record log_state =
  lst_last_purged_log_id :: "log_id option"
  lst_last_log_id :: "log_id option"

section \<open>Errors of the storage\<close>

record snapshot_signature =
  ssig_last_log_id :: "log_id option"
  ssig_last_membership_log_id :: "log_id option"
  ssig_snapshot_id :: string

definition snap_signature :: "snapshot_meta \<Rightarrow> snapshot_signature" where
  "snap_signature m = \<lparr>ssig_last_log_id = snap_last_log_id m,
     ssig_last_membership_log_id = sm_log_id (snap_last_membership m), ssig_snapshot_id = snap_id m\<rparr>"

datatype error_subject =
    SubjStore
  | SubjVote
  | SubjLogs
  | SubjLog log_id
  | SubjLogIndex nat
  | SubjApply log_id
  | SubjStateMachine
  | SubjSnapshot "snapshot_signature option"
  | SubjNone

datatype error_verb = VRead | VWrite | VSeek | VDelete

text \<open>The source is the I/O error, or none for an error the library finds itself.\<close>

record store_error =
  se_subject :: error_subject
  se_verb :: error_verb
  se_source :: "io_error option"

definition se_new :: "error_subject \<Rightarrow> error_verb \<Rightarrow> io_error option \<Rightarrow> store_error" where
  "se_new subject verb source = \<lparr>se_subject = subject, se_verb = verb, se_source = source\<rparr>"

definition se_read_log_at_index :: "nat \<Rightarrow> store_error" where
  "se_read_log_at_index i = se_new (SubjLogIndex i) VRead None"

text \<open>\<^verbatim>\<open>StorageIOResult\<close>: an I/O error becomes an error with a subject and a verb.\<close>

definition sto_err :: "error_subject \<Rightarrow> error_verb \<Rightarrow> 'a io \<Rightarrow> store_error + 'a" where
  "sto_err subject verb r = (case r of Inl e \<Rightarrow> Inl (se_new subject verb (Some e)) | Inr a \<Rightarrow> Inr a)"

section \<open>The storage traits\<close>

record ('s, 'd, 'a) storage =
  st_read_vote :: "'s \<Rightarrow> raft_vote option io panics"
  st_read_committed :: "'s \<Rightarrow> log_id option io panics"
  st_get_log_state :: "'s \<Rightarrow> log_state io panics"
  st_try_get_log_entries :: "nat \<Rightarrow> nat \<Rightarrow> 's \<Rightarrow> 'a log_entry list io panics"
  st_purge :: "log_id \<Rightarrow> 's \<Rightarrow> (unit io \<times> 's) panics"
  st_applied_state :: "'s \<Rightarrow> (log_id option \<times> stored_membership) io panics"
  st_apply :: "'a log_entry list \<Rightarrow> 's \<Rightarrow> (unit io \<times> 's) panics"
  st_get_current_snapshot :: "'s \<Rightarrow> (snapshot_meta \<times> 'd) option io panics"
  st_install_snapshot :: "snapshot_meta \<Rightarrow> 'd \<Rightarrow> 's \<Rightarrow> (unit io \<times> 's) panics"
  st_build_snapshot :: "'s \<Rightarrow> ((snapshot_meta \<times> 'd) io \<times> 's) panics"

text \<open>A query of the storage, then a step that may fail; the first error ends the chain.\<close>

definition query :: "error_subject \<Rightarrow> error_verb \<Rightarrow> 'a io panics \<Rightarrow> ('a \<Rightarrow> (store_error + 'b) panics) \<Rightarrow> (store_error + 'b) panics" where
  "query subject verb q k = do { r \<leftarrow> q; (case sto_err subject verb r of Inl e \<Rightarrow> Some (Inl e) | Inr a \<Rightarrow> k a) }"

definition update :: "error_subject \<Rightarrow> error_verb \<Rightarrow> ('a io \<times> 's) panics \<Rightarrow> ('a \<Rightarrow> 's \<Rightarrow> (store_error + 'b) panics)
    \<Rightarrow> (store_error + 'b) panics" where
  "update subject verb q k = do { (r, s) \<leftarrow> q; (case sto_err subject verb r of Inl e \<Rightarrow> Some (Inl e) | Inr a \<Rightarrow> k a s) }"

definition then_ok :: "(store_error + 'a) panics \<Rightarrow> ('a \<Rightarrow> (store_error + 'b) panics) \<Rightarrow> (store_error + 'b) panics" where
  "then_ok m k = do { r \<leftarrow> m; (case r of Inl e \<Rightarrow> Some (Inl e) | Inr a \<Rightarrow> k a) }"

lemma chain_simps [simp]:
  "query u v (Some (Inr a)) k = k a" "query u v (Some (Inl e)) k = Some (Inl (se_new u v (Some e)))"
  "update u v (Some (Inr a, s)) h = h a s" "update u v (Some (Inl e, s)) h = Some (Inl (se_new u v (Some e)))"
  "then_ok (Some (Inr b)) j = j b" "then_ok (Some (Inl f)) j = Some (Inl f)"
  by (simp_all add: query_def update_def then_ok_def sto_err_def)

lemma query_ok: "query u v q k = Some (Inr b) \<longleftrightarrow> (\<exists>a. q = Some (Inr a) \<and> k a = Some (Inr b))"
proof (cases q)
  case (Some r)
  then show ?thesis by (cases r) simp_all
qed (simp add: query_def)

lemma update_ok: "update u v q h = Some (Inr b) \<longleftrightarrow> (\<exists>a s. q = Some (Inr a, s) \<and> h a s = Some (Inr b))"
proof (cases q)
  case (Some r)
  then show ?thesis by (cases r; cases "fst r") auto
qed (simp add: update_def)

lemma then_ok: "then_ok m k = Some (Inr b) \<longleftrightarrow> (\<exists>a. m = Some (Inr a) \<and> k a = Some (Inr b))"
proof (cases m)
  case (Some r)
  then show ?thesis by (cases r) simp_all
qed (simp add: then_ok_def)

section \<open>The contract of a store\<close>

text \<open>What the state of a store stands for.\<close>

record ('a, 'm, 'd) store_view =
  sv_vote :: "raft_vote option"
  sv_committed :: "log_id option"
  sv_purged :: "log_id option"
  sv_log :: "'a log_entry list"
  sv_machine :: 'm
  sv_snapshot :: "(snapshot_meta \<times> 'd) option"

definition sv_last :: "('a, 'm, 'd) store_view \<Rightarrow> log_id option" where
  "sv_last v = (case last_opt (sv_log v) of None \<Rightarrow> sv_purged v | Some e \<Rightarrow> Some (e_log_id e))"

definition entries_between :: "nat \<Rightarrow> nat \<Rightarrow> 'a log_entry list \<Rightarrow> 'a log_entry list" where
  "entries_between a b es = filter (\<lambda>e. a \<le> e_index e \<and> e_index e < b) es"

locale raft_store =
  fixes S :: "('s, 'd, 'a) storage"
    and view :: "'s \<Rightarrow> ('a, 'm, 'd) store_view"
    and inv :: "'s \<Rightarrow> bool"
    and may_build :: "'s \<Rightarrow> bool"
    and step :: "'a log_entry \<Rightarrow> 'm \<Rightarrow> 'm"
    and applied :: "'m \<Rightarrow> log_id option \<times> stored_membership"
    and decode :: "'d \<Rightarrow> 'm"
  assumes log_sorted: "inv s \<Longrightarrow> sorted_wrt (<) (map e_index (sv_log (view s)))"
    and after_purged: "inv s \<Longrightarrow> e \<in> set (sv_log (view s)) \<Longrightarrow> next_index (sv_purged (view s)) \<le> e_index e"
    and read_vote: "inv s \<Longrightarrow> st_read_vote S s = Some (Inr (sv_vote (view s)))"
    and read_committed: "inv s \<Longrightarrow> st_read_committed S s = Some (Inr (sv_committed (view s)))"
    and get_log_state: "inv s \<Longrightarrow> st_get_log_state S s = Some (Inr
          \<lparr>lst_last_purged_log_id = sv_purged (view s), lst_last_log_id = sv_last (view s)\<rparr>)"
    and try_get_log_entries:
      "inv s \<Longrightarrow> a \<le> b \<Longrightarrow> st_try_get_log_entries S a b s = Some (Inr (entries_between a b (sv_log (view s))))"
    and purge: "inv s \<Longrightarrow> sv_purged (view s) \<le> Some l \<Longrightarrow> \<exists>s'. st_purge S l s = Some (Inr (), s')
          \<and> inv s' \<and> (may_build s \<longrightarrow> may_build s')
          \<and> view s' = (view s)\<lparr>sv_purged := Some l, sv_log := filter (\<lambda>e. lg_index l < e_index e) (sv_log (view s))\<rparr>"
    and applied_state: "inv s \<Longrightarrow> st_applied_state S s = Some (Inr (applied (sv_machine (view s))))"
    and apply_entries: "inv s \<Longrightarrow> \<exists>s'. st_apply S es s = Some (Inr (), s')
          \<and> inv s' \<and> (may_build s \<longrightarrow> may_build s')
          \<and> view s' = (view s)\<lparr>sv_machine := fold step es (sv_machine (view s))\<rparr>"
    and get_current_snapshot: "inv s \<Longrightarrow> st_get_current_snapshot S s = Some (Inr (sv_snapshot (view s)))"
    and install_snapshot: "inv s \<Longrightarrow> sv_snapshot (view s) = Some (m, d) \<Longrightarrow> \<exists>s'. st_install_snapshot S m d s = Some (Inr (), s')
          \<and> inv s' \<and> (may_build s \<longrightarrow> may_build s') \<and> view s' = (view s)\<lparr>sv_machine := decode d\<rparr>"
    and build_snapshot: "inv s \<Longrightarrow> may_build s \<Longrightarrow> \<exists>m d s'. st_build_snapshot S s = Some (Inr (m, d), s') \<and> inv s'
          \<and> decode d = sv_machine (view s) \<and> view s' = (view s)\<lparr>sv_snapshot := Some (m, d)\<rparr>"
    and snapshot_content: "inv s \<Longrightarrow> sv_snapshot (view s) = Some (m, d)
          \<Longrightarrow> applied (decode d) = (snap_last_log_id m, snap_last_membership m)"
    and step_applied: "fst (applied (step e w)) = Some (e_log_id e)"

section \<open>Log readers\<close>

text \<open>
  What the replication of a log asks of a reader: for a range with entries, some of the first
  ones. The default of the trait, \<^verbatim>\<open>limited_get_log_entries\<close>, reads them all.
\<close>

definition limited_get_log_entries :: "('s, 'd, 'a) storage \<Rightarrow> nat \<Rightarrow> nat \<Rightarrow> 's \<Rightarrow> 'a log_entry list io panics" where
  "limited_get_log_entries S a b s = st_try_get_log_entries S a b s"

locale log_reader =
  fixes limited :: "nat \<Rightarrow> nat \<Rightarrow> 's \<Rightarrow> 'a log_entry list io panics"
    and entries :: "'s \<Rightarrow> 'a log_entry list"
    and inv :: "'s \<Rightarrow> bool"
  assumes reads_some: "inv s \<Longrightarrow> a < b \<Longrightarrow> entries_between a b (entries s) \<noteq> [] \<Longrightarrow>
      \<exists>es. limited a b s = Some (Inr es) \<and> es \<noteq> [] \<and> prefix es (entries_between a b (entries s))"

sublocale raft_store \<subseteq> reader: log_reader "limited_get_log_entries S" "\<lambda>s. sv_log (view s)" inv
  by unfold_locales (auto simp: limited_get_log_entries_def try_get_log_entries)

end
