(* ===== verification/StorageHelper.thy ===== *)
theory StorageHelper
imports StorageTraits
begin

text \<open>
  \<^verbatim>\<open>openraft/src/storage/helper.rs\<close>: loading the state a node starts with from its log store and its
  state machine. The memberships in the log are found by a backward scan in chunks, committed logs
  are applied again to a state machine that lost them, and what a crash left half done is cleaned up.
\<close>

section \<open>The memberships in the log\<close>

text \<open>The entries of a chunk from the last to the first; the scan ends with two memberships.\<close>

fun scan_memberships :: "'a log_entry list \<Rightarrow> stored_membership list \<Rightarrow> stored_membership list" where
  "scan_memberships [] res = res"
| "scan_memberships (ent # es) res =
     (case entry_get_membership ent of
        Some mem \<Rightarrow>
          (let res' = \<lparr>sm_log_id = Some (e_log_id ent), sm_membership = mem\<rparr> # res in
           if length res' = 2 then res' else scan_memberships es res')
      | None \<Rightarrow> scan_memberships es res)"

function membership_chunks :: "('s, 'd, 'a) storage \<Rightarrow> 's \<Rightarrow> nat \<Rightarrow> nat \<Rightarrow> stored_membership list
    \<Rightarrow> (store_error + stored_membership list) panics" where
  "membership_chunks S s start end' res =
     (if start < end'
      then (case st_try_get_log_entries S (max start (end' - 64)) end' s of
          None \<Rightarrow> None
        | Some (Inl e) \<Rightarrow> Some (Inl (se_new SubjLogs VRead (Some e)))
        | Some (Inr es) \<Rightarrow>
            (let res' = scan_memberships (rev es) res in
             if length res' = 2 then Some (Inr res') else membership_chunks S s start (end' - 64) res'))
      else Some (Inr res))"
  by pat_completeness auto
termination by (relation "measure (\<lambda>(S, s, start, end', res). end')") auto

declare membership_chunks.simps [simp del]

definition last_membership_in_log :: "('s, 'd, 'a) storage \<Rightarrow> nat \<Rightarrow> 's \<Rightarrow> (store_error + stored_membership list) panics" where
  "last_membership_in_log S since_index s =
     query SubjLogs VRead (st_get_log_state S s) (\<lambda>st.
       membership_chunks S s (max (next_index (lst_last_purged_log_id st)) since_index)
         (next_index (lst_last_log_id st)) [])"

definition sh_get_membership :: "('s, 'd, 'a) storage \<Rightarrow> 's \<Rightarrow> (store_error + membership_state) panics" where
  "sh_get_membership S s =
     query SubjStateMachine VRead (st_applied_state S s) (\<lambda>(last_applied, sm_mem).
     then_ok (last_membership_in_log S (next_index last_applied) s) (\<lambda>log_mem.
       Some (Inr (case log_mem of
           [a, b] \<Rightarrow> \<lparr>ms_committed = em_new_from_stored a, ms_effective = em_new_from_stored b\<rparr>
         | [] \<Rightarrow> \<lparr>ms_committed = em_new_from_stored sm_mem, ms_effective = em_new_from_stored sm_mem\<rparr>
         | a # _ \<Rightarrow> \<lparr>ms_committed = em_new_from_stored sm_mem, ms_effective = em_new_from_stored a\<rparr>))))"

section \<open>Applying committed logs again\<close>

function reapply_committed :: "('s, 'd, 'a) storage \<Rightarrow> nat \<Rightarrow> nat \<Rightarrow> 's \<Rightarrow> (store_error + 's) panics" where
  "reapply_committed S start end' s =
     (if start < end'
      then (let chunk_end = min end' (start + 64) in
        case st_try_get_log_entries S start chunk_end s of
          None \<Rightarrow> None
        | Some (Inl e) \<Rightarrow> Some (Inl (se_new SubjLogs VRead (Some e)))
        | Some (Inr es) \<Rightarrow>
            if map_option e_index (first_opt es) \<noteq> Some start then Some (Inl (se_read_log_at_index start))
            else if map_option e_index (last_opt es) \<noteq> Some (chunk_end - 1)
            then Some (Inl (se_read_log_at_index (chunk_end - 1)))
            else (case st_apply S es s of
                None \<Rightarrow> None
              | Some (Inl e, s') \<Rightarrow> Some (Inl (se_new (SubjApply (e_log_id (last es))) VWrite (Some e)))
              | Some (Inr _, s') \<Rightarrow> reapply_committed S chunk_end end' s'))
      else Some (Inr s))"
  by pat_completeness auto
termination by (relation "measure (\<lambda>(S, start, end', s). end' - start)") auto

declare reapply_committed.simps [simp del]

definition restore_from_snapshot :: "('s, 'd, 'a) storage \<Rightarrow> 's \<Rightarrow> (store_error + 's) panics" where
  "restore_from_snapshot S s =
     query SubjStateMachine VRead (st_applied_state S s) (\<lambda>(last_applied, _).
     query (SubjSnapshot None) VRead (st_get_current_snapshot S s) (\<lambda>snapshot.
       case snapshot of
         None \<Rightarrow> Some (Inr s)
       | Some (meta, data) \<Rightarrow>
           if snap_last_log_id meta > last_applied
           then update (SubjSnapshot (Some (snap_signature meta))) VWrite (st_install_snapshot S meta data s) (\<lambda>_ s'. Some (Inr s'))
           else Some (Inr s)))"

text \<open>What is committed but not applied is applied again; the result is the last applied log id.\<close>

definition restore_machine :: "('s, 'd, 'a) storage \<Rightarrow> log_id option \<Rightarrow> log_id option \<Rightarrow> 's
    \<Rightarrow> (store_error + log_id option \<times> 's) panics" where
  "restore_machine S committed last_purged_log_id s0 =
     then_ok (restore_from_snapshot S s0) (\<lambda>s.
     query SubjStateMachine VRead (st_applied_state S s) (\<lambda>(last_applied, _).
       if last_applied < committed
       then (let start = next_index last_applied; end' = next_index committed in
         if start < next_index last_purged_log_id then Some (Inl (se_read_log_at_index start))
         else then_ok (reapply_committed S start end' s) (\<lambda>s'. Some (Inr (committed, s'))))
       else Some (Inr (last_applied, s))))"

section \<open>Key log ids\<close>

definition sh_get_log_id :: "('s, 'd, 'a) storage \<Rightarrow> 's \<Rightarrow> nat \<Rightarrow> (store_error + log_id) panics" where
  "sh_get_log_id S s i =
     query SubjLogs VRead (st_try_get_log_entries S i (Suc i) s) (\<lambda>es.
       case es of [] \<Rightarrow> Some (Inl (se_read_log_at_index i)) | ent # _ \<Rightarrow> Some (Inr (e_log_id ent)))"

text \<open>
  The default \<^verbatim>\<open>RaftLogReader::get_key_log_ids\<close> bisects the log; its error is the text of the error
  of the read (the text is not kept here). A panic of the reader ends the search, as \<^verbatim>\<open>None\<close> does.
\<close>

definition key_reader :: "('s, 'd, 'a) storage \<Rightarrow> 's \<Rightarrow> nat \<Rightarrow> store_error option + log_id" where
  "key_reader S s i = (case sh_get_log_id S s i of
       None \<Rightarrow> Inl None | Some (Inl e) \<Rightarrow> Inl (Some e) | Some (Inr l) \<Rightarrow> Inr l)"

definition reader_get_key_log_ids :: "('s, 'd, 'a) storage \<Rightarrow> log_id \<Rightarrow> log_id \<Rightarrow> 's \<Rightarrow> log_id list io panics" where
  "reader_get_key_log_ids S first la s = (case get_key_log_ids (key_reader S s) first la of
       None \<Rightarrow> None
     | Some (Inl None) \<Rightarrow> None
     | Some (Inl (Some e)) \<Rightarrow> Some (Inl (IoOther []))
     | Some (Inr ids) \<Rightarrow> Some (Inr ids))"

definition add_purged :: "log_id option \<Rightarrow> log_id list \<Rightarrow> log_id list" where
  "add_purged purged ids = (case (ids, purged) of
       (id0 # rest, Some p) \<Rightarrow>
         if lg_leader p = lg_leader id0 then (if length ids \<ge> 2 then p # rest else p # ids)
         else p # ids
     | _ \<Rightarrow> ids)"

definition sh_get_key_log_ids :: "('s, 'd, 'a) storage \<Rightarrow> log_id option \<Rightarrow> log_id option \<Rightarrow> 's
    \<Rightarrow> (store_error + log_id_list) panics" where
  "sh_get_key_log_ids S purged last_log s = (case last_log of
       None \<Rightarrow> Some (Inr [])
     | Some la \<Rightarrow>
         if opt_index purged = Some (lg_index la) then Some (Inr [la])
         else then_ok (sh_get_log_id S s (next_index purged)) (\<lambda>first.
              query SubjLogs VRead (reader_get_key_log_ids S first la s) (\<lambda>ids.
                Some (Inr (add_purged purged ids)))))"

section \<open>The initial state\<close>

text \<open>A snapshot was installed but the logs were not purged: the purged and the last log id after the clean-up.\<close>

definition clean_hole :: "('s, 'd, 'a) storage \<Rightarrow> log_id option \<Rightarrow> log_id option \<Rightarrow> log_id option \<Rightarrow> 's
    \<Rightarrow> (store_error + log_id option \<times> log_id option \<times> 's) panics" where
  "clean_hole S last_applied last_purged_log_id last_log_id s =
     (if last_log_id < last_applied
      then do {
        upto \<leftarrow> last_applied;
        update SubjLogs VWrite (st_purge S upto s) (\<lambda>_ s'. Some (Inr (last_applied, last_applied, s'))) }
      else Some (Inr (last_purged_log_id, last_log_id, s)))"

definition ensure_snapshot :: "('s, 'd, 'a) storage \<Rightarrow> log_id option \<Rightarrow> 's \<Rightarrow> (store_error + snapshot_meta \<times> 's) panics" where
  "ensure_snapshot S last_purged_log_id s =
     query (SubjSnapshot None) VRead (st_get_current_snapshot S s) (\<lambda>snapshot.
       case snapshot of
         Some (meta, _) \<Rightarrow> Some (Inr (meta, s))
       | None \<Rightarrow>
           if last_purged_log_id \<noteq> None
           then update (SubjSnapshot None) VWrite (st_build_snapshot S s) (\<lambda>(meta, _) s'. Some (Inr (meta, s')))
           else Some (Inr (snapshot_meta_default, s)))"

definition sh_get_initial_state :: "('s, 'd, 'a) storage \<Rightarrow> nat option \<Rightarrow> nat \<Rightarrow> 's
    \<Rightarrow> (store_error + raft_state \<times> 's) panics" where
  "sh_get_initial_state S nid now s0 =
     query SubjVote VRead (st_read_vote S s0) (\<lambda>stored_vote. do {
     vote \<leftarrow> (case stored_vote of Some v \<Rightarrow> Some v | None \<Rightarrow> map_option (\<lambda>i. Vote (LeaderId 0 i) False) nid);
     query SubjLogs VRead (st_read_committed S s0) (\<lambda>stored_committed.
     query SubjLogs VRead (st_get_log_state S s0) (\<lambda>st.
     query SubjStateMachine VRead (st_applied_state S s0) (\<lambda>(applied0, _).
     let committed = (if stored_committed < applied0 then applied0 else stored_committed) in
     then_ok (restore_machine S committed (lst_last_purged_log_id st) s0) (\<lambda>(last_applied, s1).
     then_ok (sh_get_membership S s1) (\<lambda>mem_state.
     then_ok (clean_hole S last_applied (lst_last_purged_log_id st) (lst_last_log_id st) s1)
       (\<lambda>(last_purged_log_id, last_log_id, s2).
     then_ok (sh_get_key_log_ids S last_purged_log_id last_log_id s2) (\<lambda>log_id_list.
     then_ok (ensure_snapshot S last_purged_log_id s2) (\<lambda>(snapshot_meta, s3).
       Some (Inr (
         \<lparr>rs_vote = leased_new now 0 vote, rs_purged_next = next_index last_purged_log_id,
          rs_log_ids = log_id_list, rs_membership_state = mem_state, rs_snapshot_meta = snapshot_meta,
          rs_last_inflight_id = 0, rs_server_state = Learner,
          rs_io_state = ios_new vote last_applied (snap_last_log_id snapshot_meta) last_purged_log_id,
          rs_purge_upto = last_purged_log_id\<rparr>, s3)))))))))) })"

section \<open>What is loaded\<close>

text \<open>The memberships in a log, and the two that count.\<close>

definition memberships_of :: "'a log_entry list \<Rightarrow> stored_membership list" where
  "memberships_of es = List.map_filter
     (\<lambda>e. map_option (\<lambda>m. \<lparr>sm_log_id = Some (e_log_id e), sm_membership = m\<rparr>) (entry_get_membership e)) es"

definition last_two :: "'b list \<Rightarrow> 'b list" where
  "last_two xs = drop (length xs - 2) xs"

lemma memberships_of_simps [simp]:
  "memberships_of [] = []" "memberships_of (xs @ ys) = memberships_of xs @ memberships_of ys"
  "memberships_of (e # es) = (case entry_get_membership e of None \<Rightarrow> [] | Some m \<Rightarrow> [\<lparr>sm_log_id = Some (e_log_id e), sm_membership = m\<rparr>])
     @ memberships_of es"
  by (auto simp: memberships_of_def List.map_filter_def split: option.splits)

lemma last_two_short: "length xs \<le> 2 \<Longrightarrow> last_two xs = xs"
  by (simp add: last_two_def)

lemma last_two_append: "length (last_two ys) = 2 \<Longrightarrow> last_two (xs @ ys) = last_two ys"
  by (auto simp: last_two_def)

lemma last_two_absorb: "last_two (xs @ last_two ys) = last_two (xs @ ys)"
  by (cases "length ys < 2") (auto simp: last_two_def)

lemma length_last_two: "length (last_two xs) = min 2 (length xs)"
  by (auto simp: last_two_def)

lemma scan_memberships_spec:
  "length res < 2 \<Longrightarrow> scan_memberships (rev es) res = last_two (memberships_of es @ res)"
proof (induction es arbitrary: res rule: rev_induct)
  case Nil
  then show ?case by (simp add: last_two_short)
next
  case (snoc e es)
  show ?case
  proof (cases "entry_get_membership e")
    case None
    then show ?thesis using snoc by simp
  next
    case (Some mem)
    let ?m = "\<lparr>sm_log_id = Some (e_log_id e), sm_membership = mem\<rparr>"
    show ?thesis
    proof (cases "length (?m # res) = 2")
      case True
      then have "last_two (memberships_of es @ ?m # res) = ?m # res"
        by (subst last_two_append) (simp_all add: last_two_short)
      then show ?thesis using Some True by (simp add: Let_def)
    next
      case False
      then have "res = []" using snoc.prems by (cases res) auto
      then show ?thesis using Some snoc.IH[of "[?m]"] by (simp add: Let_def)
    qed
  qed
qed

lemma entries_between_append:
  assumes "sorted_wrt (<) (map e_index es)" "a \<le> m" "m \<le> b"
  shows "entries_between a m es @ entries_between m b es = entries_between a b es"
  using assms
proof (induction es)
  case (Cons e es)
  show ?case
  proof (cases "e_index e < m")
    case True
    then show ?thesis using Cons by (auto simp: entries_between_def)
  next
    case False
    then have "entries_between a m es = []" using Cons.prems by (auto simp: entries_between_def filter_empty_conv)
    then show ?thesis using Cons False by (auto simp: entries_between_def)
  qed
qed (simp add: entries_between_def)

lemma entries_between_empty [simp]: "b \<le> a \<Longrightarrow> entries_between a b es = []"
  by (auto simp: entries_between_def filter_empty_conv)

lemma set_entries_between: "e \<in> set (entries_between a b es) \<longleftrightarrow> e \<in> set es \<and> a \<le> e_index e \<and> e_index e < b"
  by (auto simp: entries_between_def)

context raft_store
begin

lemma membership_chunks_spec:
  assumes "inv s" "length res < 2"
  shows "membership_chunks S s start end' res =
    Some (Inr (last_two (memberships_of (entries_between start end' (sv_log (view s))) @ res)))"
  using assms(2)
proof (induction end' arbitrary: res rule: less_induct)
  case (less b)
  let ?log = "sv_log (view s)" and ?lo = "max start (b - 64)"
  let ?es = "entries_between ?lo b ?log"
  show ?case
  proof (cases "start < b")
    case False
    then show ?thesis using less.prems by (simp add: membership_chunks.simps last_two_short)
  next
    case True
    have split: "entries_between start ?lo ?log @ ?es = entries_between start b ?log"
      using True by (intro entries_between_append[OF log_sorted[OF assms(1)]]) auto
    let ?res = "last_two (memberships_of ?es @ res)"
    have scan: "scan_memberships (rev ?es) res = ?res" by (rule scan_memberships_spec[OF less.prems])
    show ?thesis
    proof (cases "length ?res = 2")
      case two: True
      from last_two_append[OF two, of "memberships_of (entries_between start ?lo ?log)"]
      have "last_two (memberships_of (entries_between start b ?log) @ res) = ?res"
        by (simp flip: split)
      then show ?thesis using True two scan
        by (subst membership_chunks.simps) (simp add: try_get_log_entries[OF assms(1)] Let_def)
    next
      case False
      then have small: "length ?res < 2" by (simp add: length_last_two)
      have "entries_between start (b - 64) ?log @ ?es = entries_between start b ?log"
        using split by (cases "start \<le> b - 64") auto
      moreover have "membership_chunks S s start (b - 64) ?res =
          Some (Inr (last_two (memberships_of (entries_between start (b - 64) ?log) @ ?res)))"
        using True by (intro less.IH small) auto
      ultimately have "membership_chunks S s start (b - 64) ?res =
          Some (Inr (last_two (memberships_of (entries_between start b ?log) @ res)))"
        by (simp add: last_two_absorb flip: append_assoc memberships_of_simps(2))
      then show ?thesis using True False scan
        by (subst membership_chunks.simps) (simp add: try_get_log_entries[OF assms(1)] Let_def)
    qed
  qed
qed

lemma below_last: "inv s \<Longrightarrow> e \<in> set (sv_log (view s)) \<Longrightarrow> e_index e < next_index (sv_last (view s))"
  using log_sorted[of s] by (cases "sv_log (view s)" rule: rev_cases) (auto simp: sv_last_def last_opt_def sorted_wrt_append)

lemma last_membership_spec:
  assumes "inv s"
  shows "last_membership_in_log S since s =
    Some (Inr (last_two (memberships_of (filter (\<lambda>e. since \<le> e_index e) (sv_log (view s))))))"
proof -
  have "entries_between (max (next_index (sv_purged (view s))) since) (next_index (sv_last (view s))) (sv_log (view s))
      = filter (\<lambda>e. since \<le> e_index e) (sv_log (view s))"
    unfolding entries_between_def
    by (rule filter_cong[OF refl]) (use after_purged[OF assms] below_last[OF assms] in auto)
  then show ?thesis
    by (simp add: last_membership_in_log_def get_log_state[OF assms] membership_chunks_spec[OF assms])
qed

end

text \<open>A stretch of the log has its first (last) index exactly if the log has it.\<close>

lemma first_between:
  assumes "sorted_wrt (<) (map e_index es)" "a < b"
  shows "map_option e_index (first_opt (entries_between a b es)) = Some a \<longleftrightarrow> a \<in> e_index ` set es"
proof -
  have sorted: "sorted_wrt (<) (map e_index (entries_between a b es))"
    unfolding entries_between_def by (simp add: sorted_wrt_map sorted_wrt_filter assms(1)[unfolded sorted_wrt_map])
  show ?thesis
  proof (cases "entries_between a b es")
    case Nil
    then show ?thesis using assms(2) set_entries_between[of _ a b es] by (auto simp: first_opt_def)
  next
    case (Cons x xs)
    then have "x \<in> set es" "a \<le> e_index x" using set_entries_between[of x a b es] by auto
    moreover have "e_index x \<le> a" if "e \<in> set es" "e_index e = a" for e
      using that assms(2) sorted Cons set_entries_between[of e a b es] by fastforce
    ultimately show ?thesis using Cons by (auto simp: first_opt_def intro: antisym)
  qed
qed

lemma last_between:
  assumes "sorted_wrt (<) (map e_index es)" "a < b"
  shows "map_option e_index (last_opt (entries_between a b es)) = Some (b - 1) \<longleftrightarrow> b - 1 \<in> e_index ` set es"
proof -
  have sorted: "sorted_wrt (<) (map e_index (entries_between a b es))"
    unfolding entries_between_def by (simp add: sorted_wrt_map sorted_wrt_filter assms(1)[unfolded sorted_wrt_map])
  show ?thesis
  proof (cases "entries_between a b es" rule: rev_cases)
    case Nil
    have "e \<notin> set es" if "e_index e = b - 1" for e
      using Nil set_entries_between[of e a b es] that assms(2) by (cases b) auto
    then show ?thesis using Nil by (auto simp: last_opt_def)
  next
    case (snoc xs x)
    then have "x \<in> set es" "e_index x < b" using set_entries_between[of x a b es] by auto
    moreover have "b - 1 \<le> e_index x" if "e \<in> set es" "e_index e = b - 1" for e
      using that assms(2) sorted snoc set_entries_between[of e a b es] by (fastforce simp: sorted_wrt_append)
    ultimately show ?thesis using snoc by (auto simp: last_opt_def intro: antisym image_eqI[where x = x])
  qed
qed

lemma entries_between_single:
  "sorted_wrt (<) (map e_index es) \<Longrightarrow> e \<in> set es \<Longrightarrow> entries_between (e_index e) (Suc (e_index e)) es = [e]"
proof (induction es)
  case (Cons x es)
  then have "x = e \<Longrightarrow> filter (\<lambda>y. e_index e \<le> e_index y \<and> e_index y < Suc (e_index e)) es = []"
    by (auto simp: filter_empty_conv)
  then show ?case using Cons by (auto simp: entries_between_def)
qed simp

text \<open>A log without holes, from the purged log id on.\<close>

definition whole_log :: "('a, 'm, 'd) store_view \<Rightarrow> log_id list" where
  "whole_log v = (case sv_purged v of None \<Rightarrow> [] | Some p \<Rightarrow> [p]) @ log_ids_of (sv_log v)"

definition contiguous :: "('a, 'm, 'd) store_view \<Rightarrow> bool" where
  "contiguous v \<longleftrightarrow> log_seq (whole_log v)
     \<and> (case sv_log v of [] \<Rightarrow> True | e # _ \<Rightarrow> e_index e = next_index (sv_purged v))"

lemma machine_update_simps [simp]:
  "whole_log (v\<lparr>sv_machine := m\<rparr>) = whole_log v" "contiguous (v\<lparr>sv_machine := m\<rparr>) = contiguous v"
  "sv_last (v\<lparr>sv_machine := m\<rparr>) = sv_last v"
  by (simp_all add: whole_log_def contiguous_def sv_last_def split: option.split list.split)

lemma last_whole_log: "last_opt (whole_log v) = sv_last v"
  by (cases "sv_log v" rule: rev_cases) (auto simp: whole_log_def sv_last_def last_opt_def split: option.splits)

lemma add_purged_compress:
  assumes "log_seq (p # x # xs)"
  shows "add_purged (Some p) (compress (x # xs)) = compress (p # x # xs)"
proof (cases "lg_leader p = lg_leader x")
  case False
  then show ?thesis by (auto simp: add_purged_def Let_def)
next
  case True
  let ?F = "firsts_after (lg_leader x) xs"
  from assms have "lg_index x = Suc (lg_index p)" "log_seq (x # xs)" by (simp_all add: log_seq_def)
  then have "p \<noteq> last (x # xs)"
    using log_seq_bounds[of "x # xs" "last (x # xs)"] by (metis Suc_n_not_le_n last_in_set list.distinct(1) list.sel(1))
  then show ?thesis using True
    by (cases ?F) (auto simp: add_purged_def Let_def)
qed

definition restored_machine :: "('m \<Rightarrow> log_id option \<times> stored_membership) \<Rightarrow> ('d \<Rightarrow> 'm) \<Rightarrow> ('a, 'm, 'd) store_view \<Rightarrow> 'm" where
  "restored_machine applied decode v = (case sv_snapshot v of
       Some (meta, d) \<Rightarrow> if fst (applied (sv_machine v)) < snap_last_log_id meta then decode d else sv_machine v
     | None \<Rightarrow> sv_machine v)"

definition replayed_machine :: "('a log_entry \<Rightarrow> 'm \<Rightarrow> 'm) \<Rightarrow> ('m \<Rightarrow> log_id option \<times> stored_membership) \<Rightarrow> log_id option
    \<Rightarrow> 'a log_entry list \<Rightarrow> 'm \<Rightarrow> 'm" where
  "replayed_machine step applied committed es m =
     (if fst (applied m) < committed
      then fold step (entries_between (next_index (fst (applied m))) (next_index committed) es) m else m)"

context raft_store
begin

lemma reapply_outcome:
  assumes "inv s"
  shows "(\<exists>s'. reapply_committed S a b s = Some (Inr s') \<and> inv s' \<and> (may_build s \<longrightarrow> may_build s')
        \<and> view s' = (view s)\<lparr>sv_machine := fold step (entries_between a b (sv_log (view s))) (sv_machine (view s))\<rparr>)
    \<or> (\<exists>i. reapply_committed S a b s = Some (Inl (se_read_log_at_index i)) \<and> a \<le> i \<and> i < b
        \<and> i \<notin> e_index ` set (sv_log (view s)))"
  using assms
proof (induction "b - a" arbitrary: a s rule: less_induct)
  case less
  let ?log = "sv_log (view s)" and ?c = "min b (a + 64)"
  let ?es = "entries_between a ?c ?log"
  note sorted = log_sorted[OF less.prems] and rd0 = try_get_log_entries[OF less.prems]
  show ?case
  proof (cases "a < b")
    case False
    then show ?thesis using less.prems by (simp add: reapply_committed.simps)
  next
    case ab: True
    then have ac: "a < ?c" by simp
    then have rd: "st_try_get_log_entries S a ?c s = Some (Inr ?es)" by (intro rd0) simp
    note first = first_between[OF sorted ac] and lst = last_between[OF sorted ac]
    show ?thesis
    proof (cases "a \<in> e_index ` set ?log \<and> ?c - 1 \<in> e_index ` set ?log")
      case False
      then show ?thesis using ab first lst
        by (subst (1 2) reapply_committed.simps) (auto simp: rd Let_def)
    next
      case True
      obtain s1 where s1: "st_apply S ?es s = Some (Inr (), s1)" "inv s1"
        and b1: "may_build s \<longrightarrow> may_build s1"
        and v1: "view s1 = (view s)\<lparr>sv_machine := fold step ?es (sv_machine (view s))\<rparr>"
        using apply_entries[OF less.prems] by blast
      have ends: "map_option e_index (first_opt ?es) = Some a" "map_option e_index (last_opt ?es) = Some (?c - 1)"
        using first lst True by blast+
      have eq: "reapply_committed S a b s = reapply_committed S ?c b s1"
        by (subst reapply_committed.simps) (simp only: ab rd Let_def s1(1) ends sum.case option.case prod.case if_True if_False simp_thms)
      have split: "entries_between a ?c ?log @ entries_between ?c b ?log = entries_between a b ?log"
        by (rule entries_between_append[OF sorted]) (use ab in auto)
      have folds: "fold step (entries_between ?c b ?log) (fold step ?es m) = fold step (entries_between a b ?log) m" for m
        by (subst split[symmetric]) simp
      have "b - ?c < b - a" using ab by auto
      from less.hyps[OF this s1(2)] show ?thesis
        unfolding eq using ac by (auto simp: v1 folds intro: less_imp_le mp[OF b1])
    qed
  qed
qed

lemma restore_from_snapshot_spec:
  assumes "inv s"
  shows "\<exists>s'. restore_from_snapshot S s = Some (Inr s') \<and> inv s' \<and> (may_build s \<longrightarrow> may_build s')
    \<and> view s' = (view s)\<lparr>sv_machine := restored_machine applied decode (view s)\<rparr>"
proof -
  note simps = restore_from_snapshot_def applied_state[OF assms] get_current_snapshot[OF assms] restored_machine_def
  show ?thesis
  proof (cases "sv_snapshot (view s)")
    case None
    then show ?thesis using assms by (simp add: simps split: prod.splits)
  next
    case (Some md)
    obtain m d where md: "md = (m, d)" by (cases md)
    show ?thesis using Some install_snapshot[OF assms Some[unfolded md]] assms unfolding md
      by (auto simp: simps split: prod.splits)
  qed
qed

lemma restore_machine_outcome:
  assumes "inv s"
  defines "m0 \<equiv> restored_machine applied decode (view s)"
  shows "(\<exists>s'. restore_machine S committed (sv_purged (view s)) s = Some (Inr (max (fst (applied m0)) committed, s')) \<and> inv s' \<and> (may_build s \<longrightarrow> may_build s')
        \<and> view s' = (view s)\<lparr>sv_machine := replayed_machine step applied committed (sv_log (view s)) m0\<rparr>)
    \<or> (\<exists>i. restore_machine S committed (sv_purged (view s)) s = Some (Inl (se_read_log_at_index i))
        \<and> fst (applied m0) < committed \<and> next_index (fst (applied m0)) \<le> i
        \<and> (i < next_index committed \<or> i < next_index (sv_purged (view s))) \<and> i \<notin> e_index ` set (sv_log (view s)))"
proof -
  obtain s1 where s1: "restore_from_snapshot S s = Some (Inr s1)" "inv s1" "view s1 = (view s)\<lparr>sv_machine := m0\<rparr>"
    and b1: "may_build s \<longrightarrow> may_build s1"
    using restore_from_snapshot_spec[OF assms(1)] unfolding m0_def by blast
  let ?start = "next_index (fst (applied m0))" and ?stop = "next_index committed"
  have eq: "restore_machine S committed (sv_purged (view s)) s =
      (if fst (applied m0) < committed
       then if ?start < next_index (sv_purged (view s)) then Some (Inl (se_read_log_at_index ?start))
         else then_ok (reapply_committed S ?start ?stop s1) (\<lambda>s'. Some (Inr (committed, s')))
       else Some (Inr (fst (applied m0), s1)))"
    by (simp add: restore_machine_def s1 applied_state[OF s1(2)] split_beta Let_def)
  have "?start \<notin> e_index ` set (sv_log (view s))" if "?start < next_index (sv_purged (view s))"
    using after_purged[OF assms(1)] that by fastforce
  moreover note reapply_outcome[OF s1(2), of ?start ?stop]
  ultimately show ?thesis
    unfolding eq replayed_machine_def using s1(2,3) b1 by (auto simp: max_def)
qed

lemma sh_get_log_id_spec:
  assumes "inv s" "e \<in> set (sv_log (view s))"
  shows "sh_get_log_id S s (e_index e) = Some (Inr (e_log_id e))"
  by (simp add: sh_get_log_id_def try_get_log_entries[OF assms(1)] entries_between_single[OF log_sorted[OF assms(1)] assms(2)])

lemma key_log_ids_spec:
  assumes "inv s" "contiguous (view s)"
  shows "sh_get_key_log_ids S (sv_purged (view s)) (sv_last (view s)) s = Some (Inr (compress (whole_log (view s))))"
proof (cases "sv_log (view s)")
  case Nil
  then show ?thesis
    by (auto simp: sh_get_key_log_ids_def sv_last_def whole_log_def last_opt_def split: option.splits)
next
  case (Cons e es)
  let ?p = "sv_purged (view s)" and ?ids = "log_ids_of (sv_log (view s))"
  have ne: "?ids \<noteq> []" "hd ?ids = e_log_id e" "sv_last (view s) = Some (last ?ids)"
    using Cons by (auto simp: sv_last_def last_opt_def log_ids_of_def last_map)
  have first: "sh_get_log_id S s (next_index ?p) = Some (Inr (hd ?ids))"
    using sh_get_log_id_spec[OF assms(1), of e] assms(2) Cons ne(2) by (auto simp: contiguous_def)
  have seq: "log_seq (whole_log (view s))" using assms(2) by (simp add: contiguous_def)
  then have "log_seq ?ids" unfolding whole_log_def by (rule log_seq_appendD[THEN conjunct2])
  moreover have "\<forall>x \<in> set ?ids. key_reader S s (lg_index x) = Inr x"
    using sh_get_log_id_spec[OF assms(1)] by (auto simp: key_reader_def log_ids_of_def)
  ultimately have keys: "reader_get_key_log_ids S (hd ?ids) (last ?ids) s = Some (Inr (compress ?ids))"
    using get_key_log_ids_segment[of ?ids "key_reader S s"] ne(1) by (simp add: reader_get_key_log_ids_def)
  have "last ?ids \<in> set ?ids" using ne(1) by simp
  then obtain x where "x \<in> set (sv_log (view s))" "last ?ids = e_log_id x" by (auto simp: log_ids_of_def)
  then have "opt_index ?p \<noteq> Some (lg_index (last ?ids))"
    using after_purged[OF assms(1), of x] by (cases ?p) auto
  then have "sh_get_key_log_ids S ?p (sv_last (view s)) s = Some (Inr (add_purged ?p (compress ?ids)))"
    by (simp add: sh_get_key_log_ids_def ne(3) first keys)
  also have "add_purged ?p (compress ?ids) = compress (whole_log (view s))"
  proof (cases ?p)
    case None
    then show ?thesis by (simp add: whole_log_def add_purged_def split: list.splits)
  next
    case (Some q)
    then show ?thesis using seq Cons add_purged_compress[of q "e_log_id e" "log_ids_of es"] by (simp add: whole_log_def)
  qed
  finally show ?thesis .
qed

end

text \<open>What a store is loaded as, and the store afterwards.\<close>

definition loaded_membership :: "stored_membership \<Rightarrow> stored_membership list \<Rightarrow> membership_state" where
  "loaded_membership sm_mem log_mem = (case log_mem of
       [a, b] \<Rightarrow> \<lparr>ms_committed = em_new_from_stored a, ms_effective = em_new_from_stored b\<rparr>
     | [] \<Rightarrow> \<lparr>ms_committed = em_new_from_stored sm_mem, ms_effective = em_new_from_stored sm_mem\<rparr>
     | a # _ \<Rightarrow> \<lparr>ms_committed = em_new_from_stored sm_mem, ms_effective = em_new_from_stored a\<rparr>)"

definition committed_of :: "('m \<Rightarrow> log_id option \<times> stored_membership) \<Rightarrow> ('a, 'm, 'd) store_view \<Rightarrow> log_id option" where
  "committed_of applied v = max (sv_committed v) (fst (applied (sv_machine v)))"

definition loaded :: "('a log_entry \<Rightarrow> 'm \<Rightarrow> 'm) \<Rightarrow> ('m \<Rightarrow> log_id option \<times> stored_membership) \<Rightarrow> ('d \<Rightarrow> 'm) \<Rightarrow> raft_vote
    \<Rightarrow> ('a, 'm, 'd) store_view \<Rightarrow> raft_state \<Rightarrow> ('a, 'm, 'd) store_view \<Rightarrow> bool" where
  "loaded step applied decode vote v rs v' \<longleftrightarrow>
     (let m0 = restored_machine applied decode v;
          last_applied = max (fst (applied m0)) (committed_of applied v);
          m1 = replayed_machine step applied (committed_of applied v) (sv_log v) m0;
          hole = sv_last v < last_applied
      in sv_machine v' = m1 \<and> vote_ref rs = vote \<and> rs_server_state rs = Learner
       \<and> sv_purged v' = (if hole then last_applied else sv_purged v)
       \<and> rs_purge_upto rs = sv_purged v' \<and> rs_purged_next rs = next_index (sv_purged v')
       \<and> rs_log_ids rs = (if hole then [the last_applied] else compress (whole_log v))
       \<and> (\<not> hole \<longrightarrow> sv_log v' = sv_log v)
       \<and> rs_membership_state rs = loaded_membership (snd (applied m1))
           (last_two (memberships_of (filter (\<lambda>e. next_index (fst (applied m1)) \<le> e_index e) (sv_log v))))
       \<and> rs_io_state rs = ios_new vote last_applied (snap_last_log_id (rs_snapshot_meta rs)) (sv_purged v')
       \<and> (case sv_snapshot v' of
            None \<Rightarrow> sv_purged v' = None \<and> rs_snapshot_meta rs = snapshot_meta_default
          | Some (meta, _) \<Rightarrow> rs_snapshot_meta rs = meta)
       \<and> (sv_snapshot v' = sv_snapshot v
          \<or> sv_snapshot v = None \<and> snap_last_log_id (rs_snapshot_meta rs) = fst (applied m1)))"

context raft_store
begin

lemma sh_get_membership_spec:
  assumes "inv s"
  defines "m \<equiv> sv_machine (view s)"
  shows "sh_get_membership S s = Some (Inr (loaded_membership (snd (applied m))
    (last_two (memberships_of (filter (\<lambda>e. next_index (fst (applied m)) \<le> e_index e) (sv_log (view s)))))))"
  unfolding m_def
  by (simp add: sh_get_membership_def applied_state[OF assms(1)] last_membership_spec[OF assms(1)] split_beta
      loaded_membership_def)

lemma ensure_snapshot_spec:
  assumes "inv s" "may_build s"
  shows "\<exists>meta s'. ensure_snapshot S purged s = Some (Inr (meta, s')) \<and> inv s'
    \<and> view s' = (view s)\<lparr>sv_snapshot := sv_snapshot (view s')\<rparr>
    \<and> (case sv_snapshot (view s') of None \<Rightarrow> purged = None \<and> meta = snapshot_meta_default | Some (m, _) \<Rightarrow> meta = m)
    \<and> (sv_snapshot (view s') = sv_snapshot (view s)
        \<or> sv_snapshot (view s) = None \<and> snap_last_log_id meta = fst (applied (sv_machine (view s))))"
proof (cases "sv_snapshot (view s)")
  case None
  show ?thesis
  proof (cases "purged = None")
    case True
    then show ?thesis using None assms by (simp add: ensure_snapshot_def get_current_snapshot[OF assms(1)])
  next
    case False
    obtain m d s' where "st_build_snapshot S s = Some (Inr (m, d), s')" "inv s'"
      "decode d = sv_machine (view s)" "view s' = (view s)\<lparr>sv_snapshot := Some (m, d)\<rparr>"
      using build_snapshot[OF assms] by blast
    moreover from this snapshot_content[of s' m d] have "snap_last_log_id m = fst (applied (sv_machine (view s)))"
      by simp
    ultimately show ?thesis using None False by (simp add: ensure_snapshot_def get_current_snapshot[OF assms(1)])
  qed
next
  case (Some md)
  then show ?thesis using assms
    by (cases md) (simp add: ensure_snapshot_def get_current_snapshot[OF assms(1)])
qed

lemma purged_le_last: "contiguous v \<Longrightarrow> sv_purged v \<le> sv_last v"
  using log_seq_bounds[of "whole_log v" "last (whole_log v)"]
  by (cases "sv_purged v")
    (auto simp: contiguous_def whole_log_def last_opt_def log_id_le_iff simp flip: last_whole_log)

lemma clean_hole_spec:
  assumes "inv s" "contiguous (view s)"
  shows "\<exists>s'. clean_hole S la (sv_purged (view s)) (sv_last (view s)) s =
      Some (Inr (if sv_last (view s) < la then la else sv_purged (view s), max la (sv_last (view s)), s')) \<and> inv s' \<and> (may_build s \<longrightarrow> may_build s')
    \<and> view s' = (if sv_last (view s) < la
        then (view s)\<lparr>sv_purged := la, sv_log := filter (\<lambda>e. lg_index (the la) < e_index e) (sv_log (view s))\<rparr> else view s)"
proof (cases "sv_last (view s) < la")
  case True
  then obtain l where l: "la = Some l" by (cases la) auto
  have "sv_purged (view s) \<le> Some l"
    using purged_le_last[OF assms(2)] True l by (metis less_imp_le order_trans)
  from purge[OF assms(1) this] obtain s' where "st_purge S l s = Some (Inr (), s')" "inv s'"
    "may_build s \<longrightarrow> may_build s'"
    "view s' = (view s)\<lparr>sv_purged := Some l, sv_log := filter (\<lambda>e. lg_index l < e_index e) (sv_log (view s))\<rparr>" by blast
  moreover have "max la (sv_last (view s)) = la" using True by (intro max.absorb1) simp
  ultimately show ?thesis using True l by (simp add: clean_hole_def)
next
  case False
  then show ?thesis using assms(1) by (auto simp: clean_hole_def max_def)
qed

lemma key_log_ids_after_clean:
  assumes "inv s'" "contiguous v"
    and "view s' = (if sv_last v < la then v\<lparr>sv_purged := la, sv_log := es\<rparr> else v)"
  shows "sh_get_key_log_ids S (if sv_last v < la then la else sv_purged v) (max la (sv_last v)) s' =
    Some (Inr (if sv_last v < la then [the la] else compress (whole_log v)))"
proof (cases "sv_last v < la")
  case True
  then have "max la (sv_last v) = la" by (intro max.absorb1) simp
  with True show ?thesis by (cases la) (simp_all add: sh_get_key_log_ids_def)
next
  case False
  then have "max la (sv_last v) = sv_last v" by (intro max.absorb2) (simp add: not_less)
  moreover have "contiguous (view s')" "whole_log (view s') = whole_log v"
    "sv_purged (view s') = sv_purged v" "sv_last (view s') = sv_last v"
    using assms(2,3) False by simp_all
  ultimately show ?thesis using key_log_ids_spec[OF assms(1)] False by simp
qed

text \<open>A store that keeps its contract is always loaded, unless a log that has to be applied again is missing.\<close>

lemma initial_state_outcome:
  assumes "inv s" "contiguous (view s)" and b: "may_build s"
    and vote: "vote = (case sv_vote (view s) of Some v \<Rightarrow> v | None \<Rightarrow> Vote (LeaderId 0 i) False)"
    and nid: "nid = Some i"
  defines "m0 \<equiv> restored_machine applied decode (view s)" and "committed \<equiv> committed_of applied (view s)"
  shows "(\<exists>rs s'. sh_get_initial_state S nid now s = Some (Inr (rs, s')) \<and> inv s'
      \<and> loaded step applied decode vote (view s) rs (view s'))
    \<or> (\<exists>j. sh_get_initial_state S nid now s = Some (Inl (se_read_log_at_index j))
        \<and> fst (applied m0) < committed \<and> next_index (fst (applied m0)) \<le> j
        \<and> (j < next_index committed \<or> j < next_index (sv_purged (view s))) \<and> j \<notin> e_index ` set (sv_log (view s)))"
proof -
  have comm: "(if sv_committed (view s) < fst (applied (sv_machine (view s))) then fst (applied (sv_machine (view s)))
      else sv_committed (view s)) = committed"
    by (auto simp: committed_def committed_of_def max_def)
  have v: "(case sv_vote (view s) of None \<Rightarrow> map_option (\<lambda>i. Vote (LeaderId 0 i) False) nid | Some v \<Rightarrow> Some v) = Some vote"
    unfolding vote nid by (simp split: option.splits)
  let ?k = "\<lambda>(last_applied, s1). then_ok (sh_get_membership S s1) (\<lambda>mem_state.
      then_ok (clean_hole S last_applied (sv_purged (view s)) (sv_last (view s)) s1)
       (\<lambda>(last_purged_log_id, last_log_id, s2).
     then_ok (sh_get_key_log_ids S last_purged_log_id last_log_id s2) (\<lambda>log_id_list.
     then_ok (ensure_snapshot S last_purged_log_id s2) (\<lambda>(snapshot_meta, s3).
       Some (Inr (
         \<lparr>rs_vote = leased_new now 0 vote, rs_purged_next = next_index last_purged_log_id,
          rs_log_ids = log_id_list, rs_membership_state = mem_state, rs_snapshot_meta = snapshot_meta,
          rs_last_inflight_id = 0, rs_server_state = Learner,
          rs_io_state = ios_new vote last_applied (snap_last_log_id snapshot_meta) last_purged_log_id,
          rs_purge_upto = last_purged_log_id\<rparr>, s3))))))"
  have eq: "sh_get_initial_state S nid now s = then_ok (restore_machine S committed (sv_purged (view s)) s) ?k"
    unfolding sh_get_initial_state_def
    by (simp add: read_vote[OF assms(1)] read_committed[OF assms(1)] get_log_state[OF assms(1)]
        applied_state[OF assms(1)] split_beta Let_def comm v)
  show ?thesis
    using restore_machine_outcome[OF assms(1), of committed] unfolding m0_def[symmetric]
  proof (elim disjE exE conjE)
    fix j assume "restore_machine S committed (sv_purged (view s)) s = Some (Inl (se_read_log_at_index j))"
      "fst (applied m0) < committed" "next_index (fst (applied m0)) \<le> j"
      "j < next_index committed" "j \<notin> e_index ` set (sv_log (view s))"
    then show ?thesis unfolding eq by auto
  next
    fix j assume "restore_machine S committed (sv_purged (view s)) s = Some (Inl (se_read_log_at_index j))"
      "fst (applied m0) < committed" "next_index (fst (applied m0)) \<le> j"
      "j < next_index (sv_purged (view s))" "j \<notin> e_index ` set (sv_log (view s))"
    then show ?thesis unfolding eq by auto
  next
    fix s1
    let ?la = "max (fst (applied m0)) committed"
      and ?m1 = "replayed_machine step applied committed (sv_log (view s)) m0"
    assume r: "restore_machine S committed (sv_purged (view s)) s = Some (Inr (?la, s1))" and i1: "inv s1" and b1: "may_build s \<longrightarrow> may_build s1"
      and v1: "view s1 = (view s)\<lparr>sv_machine := ?m1\<rparr>"
    have c1: "contiguous (view s1)" "sv_purged (view s1) = sv_purged (view s)" "sv_last (view s1) = sv_last (view s)"
      using assms(2) by (simp_all add: v1)
    from clean_hole_spec[OF i1 c1(1), of ?la] obtain s2 where
      h: "clean_hole S ?la (sv_purged (view s)) (sv_last (view s)) s1 =
        Some (Inr (if sv_last (view s) < ?la then ?la else sv_purged (view s), max ?la (sv_last (view s)), s2))"
      and i2: "inv s2" and b2: "may_build s1 \<longrightarrow> may_build s2" and v2: "view s2 = (if sv_last (view s) < ?la
        then (view s1)\<lparr>sv_purged := ?la, sv_log := filter (\<lambda>e. lg_index (the ?la) < e_index e) (sv_log (view s1))\<rparr> else view s1)"
      unfolding c1 by blast
    let ?p = "if sv_last (view s) < ?la then ?la else sv_purged (view s)"
    have k: "sh_get_key_log_ids S ?p (max ?la (sv_last (view s))) s2 =
        Some (Inr (if sv_last (view s) < ?la then [the ?la] else compress (whole_log (view s1))))"
      using key_log_ids_after_clean[OF i2 c1(1), of ?la "filter (\<lambda>e. lg_index (the ?la) < e_index e) (sv_log (view s1))"] v2
      unfolding c1 by blast
    obtain meta s3 where e: "ensure_snapshot S ?p s2 = Some (Inr (meta, s3))" "inv s3"
      "view s3 = (view s2)\<lparr>sv_snapshot := sv_snapshot (view s3)\<rparr>"
      "case sv_snapshot (view s3) of None \<Rightarrow> ?p = None \<and> meta = snapshot_meta_default | Some (m, _) \<Rightarrow> meta = m"
      "sv_snapshot (view s3) = sv_snapshot (view s2)
        \<or> sv_snapshot (view s2) = None \<and> snap_last_log_id meta = fst (applied (sv_machine (view s2)))"
      using ensure_snapshot_spec[OF i2] b b1 b2 by blast
    define sn where "sn = sv_snapshot (view s3)"
    have "sv_snapshot (view s2) = sv_snapshot (view s)" "sv_machine (view s2) = ?m1" by (simp_all add: v2 v1)
    note e3 = e(3)[folded sn_def] and e4 = e(4,5)[folded sn_def, unfolded this]
    let ?rs = "\<lparr>rs_vote = leased_new now 0 vote, rs_purged_next = next_index ?p,
       rs_log_ids = (if sv_last (view s) < ?la then [the ?la] else compress (whole_log (view s))),
       rs_membership_state = loaded_membership (snd (applied ?m1))
         (last_two (memberships_of (filter (\<lambda>e. next_index (fst (applied ?m1)) \<le> e_index e) (sv_log (view s))))),
       rs_snapshot_meta = meta, rs_last_inflight_id = 0, rs_server_state = Learner,
       rs_io_state = ios_new vote ?la (snap_last_log_id meta) ?p, rs_purge_upto = ?p\<rparr>"
    have "loaded step applied decode vote (view s) ?rs (view s3)"
      unfolding loaded_def m0_def[symmetric] committed_def[symmetric] Let_def e3 v2 v1
      using e4 by (auto simp: vote_ref_def leased_new_def split: option.splits prod.splits if_splits)
    moreover have "sh_get_initial_state S nid now s = Some (Inr (?rs, s3))"
      unfolding eq r chain_simps prod.case sh_get_membership_spec[OF i1] h k e(1) by (simp add: v1)
    ultimately show ?thesis using e(2) by blast
  qed
qed

end

end
