(* ===== verification/KvDb.thy ===== *)
theory KvDb
imports OrderedMap Vote LogId Entry "HOL-Library.Word" "HOL-Library.List_Lexorder" "HOL-Library.Char_ord"
begin

text \<open>
  What the stores of \<^verbatim>\<open>kv-store/src/store\<close> are built on. RocksDB and \<^verbatim>\<open>serde_json\<close> are not part of
  the repository: their operations are the fields of the records \<open>rocks\<close> and \<open>serde\<close>, arguments
  of every definition that uses them, and the locale \<open>rocks_db\<close> states what their documentation
  promises. The keys of the log are big-endian numbers; their order as byte strings is the order
  of the indexes.
\<close>

type_synonym bytes = "8 word list"

section \<open>Keys of the log\<close>

text \<open>\<^verbatim>\<open>id_to_bin\<close> and \<^verbatim>\<open>bin_to_id\<close> of \<^verbatim>\<open>store/log_store.rs\<close>, over \<^verbatim>\<open>byteorder\<close>'s big-endian \<^verbatim>\<open>u64\<close>.\<close>

definition id_to_bin :: "64 word \<Rightarrow> bytes" where
  "id_to_bin w = map (\<lambda>k. ucast (drop_bit (8 * k) w)) [7, 6, 5, 4, 3, 2, 1, 0]"

definition bin_to_id :: "bytes \<Rightarrow> 64 word panics" where
  "bin_to_id buf = (if length buf < 8 then None
     else Some (foldl (\<lambda>acc b. acc * 256 + ucast b) 0 (take 8 buf)))"

definition be_value :: "bytes \<Rightarrow> nat" where
  "be_value bs = foldl (\<lambda>acc b. acc * 256 + unat b) 0 bs"

lemma be_value_foldl: "foldl (\<lambda>acc b. acc * 256 + unat b) a bs = a * 256 ^ length bs + be_value (bs :: bytes)"
proof (induction bs arbitrary: a)
  case (Cons b bs)
  show ?case
    using Cons.IH[of "a * 256 + unat b"] Cons.IH[of "unat b"]
    by (simp add: be_value_def algebra_simps)
qed (simp add: be_value_def)

lemma be_value_Nil [simp]: "be_value [] = 0"
  by (simp add: be_value_def)

lemma be_value_Cons [simp]: "be_value (b # bs) = unat b * 256 ^ length bs + be_value bs"
  using be_value_foldl[of "unat b" bs] by (simp add: be_value_def)

lemma byte_bound: "unat (b :: 8 word) < 256"
  using unsigned_less[of b, where ?'a = nat] by simp

lemma be_value_bound: "be_value bs < 256 ^ length bs"
proof (induction bs)
  case (Cons b bs)
  have "unat b * 256 ^ length bs + be_value bs < unat b * 256 ^ length bs + 256 ^ length bs"
    using Cons.IH by simp
  also have "\<dots> = Suc (unat b) * 256 ^ length bs" by simp
  also have "\<dots> \<le> 256 * 256 ^ length bs"
    using byte_bound[of b] by (intro mult_right_mono) simp_all
  finally show ?case by simp
qed simp

text \<open>The order of byte strings of one length is the order of the numbers they stand for.\<close>

lemma be_value_less_iff: "length a = length b \<Longrightarrow> be_value a < be_value b \<longleftrightarrow> a < b"
proof (induction a b rule: list_induct2)
  case (Cons x xs y ys)
  have step: "unat u * 256 ^ length (xs :: bytes) + be_value p < unat v * 256 ^ length xs + be_value q"
    if "u < v" "length p = length xs" for u v :: "8 word" and p q
  proof -
    have "unat u * 256 ^ length xs + be_value p < Suc (unat u) * 256 ^ length xs"
      using be_value_bound[of p] that(2) by simp
    also have "\<dots> \<le> unat v * 256 ^ length xs"
      using that(1) by (intro mult_right_mono) (simp_all add: word_less_nat_alt)
    finally show ?thesis by simp
  qed
  show ?case
  proof (cases x y rule: linorder_cases)
    case less
    then show ?thesis using step[OF less, of xs ys] Cons.hyps by simp
  next
    case equal
    then show ?thesis using Cons by simp
  next
    case greater
    then show ?thesis using step[OF greater, of ys xs] Cons.hyps by (simp add: less_not_sym)
  qed
qed simp

lemma unat_byte: "unat (ucast (drop_bit n (w :: 64 word)) :: 8 word) = unat w div 2 ^ n mod 256"
proof -
  have "unat (drop_bit n w) = unat w div 2 ^ n"
    by (metis drop_bit_eq_div unat_drop_bit_eq)
  then show ?thesis by (simp add: unsigned_ucast_eq take_bit_eq_mod)
qed

lemma id_to_bin_length [simp]: "length (id_to_bin w) = 8"
  by (simp add: id_to_bin_def)

lemma div_mod_256: "n div 256 ^ k mod 256 * 256 ^ k + n mod 256 ^ k = n mod 256 ^ Suc k" for n :: nat
  by (simp add: mod_mult2_eq mult.commute[of 256])

lemma be_value_digits:
  "be_value (map (\<lambda>k. ucast (drop_bit (8 * k) (w :: 64 word))) (rev [0..<n])) = unat w mod 256 ^ n"
proof (induction n)
  case (Suc n)
  have "(2::nat) ^ (8 * n) = 256 ^ n" by (simp add: power_mult)
  with Suc show ?case using div_mod_256[of "unat w" n] by (simp add: unat_byte)
qed simp

lemma be_value_id_to_bin: "be_value (id_to_bin w) = unat w"
proof -
  have "rev [0..<8] = [7, 6, 5, 4, 3, 2, 1, 0::nat]" by (simp add: upt_rec)
  moreover have "unat w < 256 ^ 8" using unsigned_less[of w, where ?'a = nat] by simp
  ultimately show ?thesis using be_value_digits[of w 8] by (simp add: id_to_bin_def)
qed

lemma id_to_bin_less_iff: "id_to_bin a < id_to_bin b \<longleftrightarrow> a < b"
  using be_value_less_iff[of "id_to_bin a" "id_to_bin b"] by (simp add: be_value_id_to_bin word_less_nat_alt)

lemma id_to_bin_inject [simp]: "id_to_bin a = id_to_bin b \<longleftrightarrow> a = b"
  by (metis be_value_id_to_bin word_unat_eq_iff)

lemma foldl_word_of_nat:
  "foldl (\<lambda>acc b. acc * 256 + ucast b) (of_nat a) (bs :: bytes)
   = (of_nat (foldl (\<lambda>acc b. acc * 256 + unat b) a bs) :: 64 word)"
proof (induction bs arbitrary: a)
  case (Cons b bs)
  have "of_nat a * 256 + ucast b = (of_nat (a * 256 + unat b) :: 64 word)"
    by simp
  then show ?case using Cons[of "a * 256 + unat b"] by simp
qed simp

lemma bin_to_id_append: "bin_to_id (id_to_bin a @ rest) = Some a"
proof -
  have "foldl (\<lambda>acc b. acc * 256 + ucast b) 0 (id_to_bin a) = (of_nat (be_value (id_to_bin a)) :: 64 word)"
    using foldl_word_of_nat[of 0 "id_to_bin a"] by (simp add: be_value_def)
  then show ?thesis by (simp add: bin_to_id_def be_value_id_to_bin)
qed

lemma bin_to_id_to_bin [simp]: "bin_to_id (id_to_bin a) = Some a"
  using bin_to_id_append[of a "[]"] by simp

text \<open>
  The key of a log entry can be read back, whatever follows it in the buffer, and RocksDB's
  byte order on the keys is the order of the log indexes, so that iterating the column family
  visits the log in order.
\<close>

theorem log_key_order:
  "bin_to_id (id_to_bin a @ rest) = Some a
   \<and> (id_to_bin a < id_to_bin b \<longleftrightarrow> a < b) \<and> (id_to_bin a = id_to_bin b \<longleftrightarrow> a = b)"
  by (simp add: bin_to_id_append id_to_bin_less_iff)

section \<open>RocksDB and the encoder\<close>

text \<open>
  An operation of RocksDB on the database \<open>'d\<close> fails with the text of its error. An iterator is
  the sequence of the items it yields. Column families are named by strings.
\<close>

record 'd rocks =
  cf_handle :: "'d \<Rightarrow> string \<Rightarrow> bool"
  get_cf :: "'d \<Rightarrow> string \<Rightarrow> bytes \<Rightarrow> string + bytes option"
  put_cf :: "string \<Rightarrow> bytes \<Rightarrow> bytes \<Rightarrow> 'd \<Rightarrow> (string + unit) \<times> 'd"
  delete_range_cf :: "string \<Rightarrow> bytes \<Rightarrow> bytes \<Rightarrow> 'd \<Rightarrow> (string + unit) \<times> 'd"
  iterator_from :: "'d \<Rightarrow> string \<Rightarrow> bytes \<Rightarrow> (string + bytes \<times> bytes) list"
  iterator_end :: "'d \<Rightarrow> string \<Rightarrow> (string + bytes \<times> bytes) list"
  flush_wal :: "'d \<Rightarrow> (string + unit) \<times> 'd"

record 'a serde =
  to_vec :: "'a \<Rightarrow> string + bytes"
  from_slice :: "bytes \<Rightarrow> string + 'a"

definition serde_ok :: "'a serde \<Rightarrow> bool" where
  "serde_ok S = (\<forall>x b. to_vec S x = Inr b \<longrightarrow> from_slice S b = Inr x)"

lemma serde_okD: "serde_ok S \<Longrightarrow> to_vec S x = Inr b \<Longrightarrow> from_slice S b = Inr x"
  by (simp add: serde_ok_def)

text \<open>\<open>its\<close> yields the elements of \<open>xs\<close> in order, up to the first error if there is one.\<close>

fun yields_all :: "('e + 'a) list \<Rightarrow> 'a list \<Rightarrow> bool" where
  "yields_all [] xs = (xs = [])"
| "yields_all (Inl e # its) xs = True"
| "yields_all (Inr x # its) [] = False"
| "yields_all (Inr x # its) (y # ys) = (x = y \<and> yields_all its ys)"

lemma yields_all_Inr: "yields_all (Inr x # its) xs \<longleftrightarrow> (\<exists>ys. xs = x # ys \<and> yields_all its ys)"
  by (cases xs) auto

lemma yields_all_map [simp]: "yields_all (map Inr xs) xs"
  by (induction xs) simp_all

text \<open>
  What RocksDB documents, over the content \<open>ab\<close> of the column families (each an ordered map from
  byte strings to byte strings) and the content \<open>dur\<close> that survives a crash. Nothing is promised
  of an operation that fails.
\<close>

locale rocks_db =
  fixes R :: "'d rocks"
    and ab :: "'d \<Rightarrow> string \<Rightarrow> (bytes, bytes) bt_map option"
    and dur :: "'d \<Rightarrow> string \<Rightarrow> (bytes, bytes) bt_map option"
  assumes handle: "cf_handle R d cf \<longleftrightarrow> ab d cf \<noteq> None"
    and get: "get_cf R d cf k = Inr r \<Longrightarrow> ab d cf = Some m \<Longrightarrow> r = bt_get m k"
    and put: "put_cf R cf k v d = (Inr (), d') \<Longrightarrow> ab d cf = Some m \<Longrightarrow> ab d' = (ab d)(cf \<mapsto> bt_insert k v m)"
    and delete_range: "delete_range_cf R cf a b d = (Inr (), d') \<Longrightarrow> ab d cf = Some m
      \<Longrightarrow> ab d' = (ab d)(cf \<mapsto> bt_retain (\<lambda>k _. \<not> (a \<le> k \<and> k < b)) m)"
    and iter_from: "ab d cf = Some m \<Longrightarrow> yields_all (iterator_from R d cf a) (filter (\<lambda>kv. a \<le> fst kv) m)"
    and iter_end: "ab d cf = Some m \<Longrightarrow> yields_all (iterator_end R d cf) (rev m)"
    and flush: "flush_wal R d = (Inr (), d') \<Longrightarrow> ab d' = ab d \<and> dur d' = ab d"

text \<open>A database in memory that never fails: the written and the flushed content.\<close>

type_synonym mem_content = "string \<Rightarrow> (bytes, bytes) bt_map option"

definition mem_rocks :: "(mem_content \<times> mem_content) rocks" where
  "mem_rocks = \<lparr>
     cf_handle = (\<lambda>d cf. fst d cf \<noteq> None),
     get_cf = (\<lambda>d cf k. case fst d cf of None \<Rightarrow> Inl ''column family'' | Some m \<Rightarrow> Inr (bt_get m k)),
     put_cf = (\<lambda>cf k v d. case fst d cf of None \<Rightarrow> (Inl ''column family'', d)
       | Some m \<Rightarrow> (Inr (), ((fst d)(cf \<mapsto> bt_insert k v m), snd d))),
     delete_range_cf = (\<lambda>cf a b d. case fst d cf of None \<Rightarrow> (Inl ''column family'', d)
       | Some m \<Rightarrow> (Inr (), ((fst d)(cf \<mapsto> bt_retain (\<lambda>k _. \<not> (a \<le> k \<and> k < b)) m), snd d))),
     iterator_from = (\<lambda>d cf a. case fst d cf of None \<Rightarrow> [Inl ''column family'']
       | Some m \<Rightarrow> map Inr (filter (\<lambda>kv. a \<le> fst kv) m)),
     iterator_end = (\<lambda>d cf. case fst d cf of None \<Rightarrow> [Inl ''column family''] | Some m \<Rightarrow> map Inr (rev m)),
     flush_wal = (\<lambda>d. (Inr (), (fst d, fst d)))\<rparr>"

interpretation mem: rocks_db mem_rocks fst snd
proof (unfold_locales, goal_cases)
  case (5 d cf m a)
  then show ?case by (simp add: mem_rocks_def)
next
  case (6 d cf m)
  then show ?case by (simp add: mem_rocks_def)
qed (auto simp: mem_rocks_def split: option.splits)

end
