(* ===== verification/KvCodec.thy ===== *)
theory KvCodec
imports KvDb
begin

text \<open>
  A concrete encoder for the data the stores keep: numbers are written in base 128, the lowest
  digit first, lists and strings carry their length. It stands in for \<^verbatim>\<open>serde_json\<close>, which is not
  part of the repository, wherever the laws of the stores are instantiated; like a JSON encoder it
  never fails on these data.
\<close>

record 'a codec =
  enc :: "'a \<Rightarrow> bytes option"
  dec :: "bytes \<Rightarrow> ('a \<times> bytes) option"

definition codec_ok :: "'a codec \<Rightarrow> bool" where
  "codec_ok c = (\<forall>x b rest. enc c x = Some b \<longrightarrow> dec c (b @ rest) = Some (x, rest))"

named_theorems codec_laws

lemma codec_okI: "(\<And>x b rest. enc c x = Some b \<Longrightarrow> dec c (b @ rest) = Some (x, rest)) \<Longrightarrow> codec_ok c"
  by (simp add: codec_ok_def)

lemma codec_okD: "codec_ok c \<Longrightarrow> enc c x = Some b \<Longrightarrow> dec c (b @ rest) = Some (x, rest)"
  by (simp add: codec_ok_def)

fun enc_nat :: "nat \<Rightarrow> bytes" where
  "enc_nat n = (if n < 128 then [of_nat n] else of_nat (128 + n mod 128) # enc_nat (n div 128))"

fun dec_nat :: "bytes \<Rightarrow> (nat \<times> bytes) option" where
  "dec_nat [] = None"
| "dec_nat (b # r) = (if unat b < 128 then Some (unat b, r)
     else do { (n, s) \<leftarrow> dec_nat r; Some (unat b - 128 + 128 * n, s) })"

declare enc_nat.simps [simp del]

definition c_nat :: "nat codec" where
  "c_nat = \<lparr>enc = (\<lambda>n. Some (enc_nat n)), dec = dec_nat\<rparr>"

definition c_prod :: "'a codec \<Rightarrow> 'b codec \<Rightarrow> ('a \<times> 'b) codec" where
  "c_prod c d = \<lparr>enc = (\<lambda>(x, y). do { a \<leftarrow> enc c x; b \<leftarrow> enc d y; Some (a @ b) }),
     dec = (\<lambda>b. do { (x, r) \<leftarrow> dec c b; (y, s) \<leftarrow> dec d r; Some ((x, y), s) })\<rparr>"

text \<open>An encoder through another type, into which \<open>f\<close> maps and from which \<open>g\<close> maps back.\<close>

definition c_conv :: "('b \<Rightarrow> 'a) \<Rightarrow> ('a \<Rightarrow> 'b) \<Rightarrow> 'a codec \<Rightarrow> 'b codec" where
  "c_conv f g c = \<lparr>enc = (\<lambda>x. enc c (f x)), dec = (\<lambda>b. do { (x, r) \<leftarrow> dec c b; Some (g x, r) })\<rparr>"

fun dec_many :: "(bytes \<Rightarrow> ('a \<times> bytes) option) \<Rightarrow> nat \<Rightarrow> bytes \<Rightarrow> ('a list \<times> bytes) option" where
  "dec_many d 0 b = Some ([], b)"
| "dec_many d (Suc n) b = do { (x, r) \<leftarrow> d b; (xs, s) \<leftarrow> dec_many d n r; Some (x # xs, s) }"

fun enc_many :: "('a \<Rightarrow> bytes option) \<Rightarrow> 'a list \<Rightarrow> bytes option" where
  "enc_many e [] = Some []"
| "enc_many e (x # xs) = do { a \<leftarrow> e x; b \<leftarrow> enc_many e xs; Some (a @ b) }"

definition c_list :: "'a codec \<Rightarrow> 'a list codec" where
  "c_list c = \<lparr>enc = (\<lambda>xs. do { n \<leftarrow> enc c_nat (length xs); b \<leftarrow> enc_many (enc c) xs; Some (n @ b) }),
     dec = (\<lambda>b. do { (n, r) \<leftarrow> dec c_nat b; dec_many (dec c) n r })\<rparr>"

lemma dec_enc_nat: "dec_nat (enc_nat n @ rest) = Some (n, rest)"
proof (induction n rule: enc_nat.induct)
  case (1 n)
  show ?case
  proof (cases "n < 128")
    case True
    then show ?thesis by (simp add: enc_nat.simps[of n] unat_of_nat take_bit_eq_mod)
  next
    case False
    have "128 + n mod 128 < 256" by (simp add: mod_less_divisor[of 128 n, simplified])
    then have "unat (of_nat (128 + n mod 128) :: 8 word) = 128 + n mod 128"
      by (simp add: unat_of_nat take_bit_eq_mod del: of_nat_add)
    then show ?thesis using False 1 by (simp add: enc_nat.simps[of n] del: of_nat_add)
  qed
qed

lemma c_nat_ok [codec_laws]: "codec_ok c_nat"
  by (rule codec_okI) (auto simp: c_nat_def dec_enc_nat)

lemma c_prod_ok [codec_laws]: "codec_ok c \<Longrightarrow> codec_ok d \<Longrightarrow> codec_ok (c_prod c d)"
  by (rule codec_okI) (auto simp: c_prod_def bind_eq_Some_conv codec_okD)

lemma c_conv_ok: "codec_ok c \<Longrightarrow> (\<And>x. g (f x) = x) \<Longrightarrow> codec_ok (c_conv f g c)"
  by (rule codec_okI) (auto simp: c_conv_def bind_eq_Some_conv codec_okD)

lemma dec_many_ok: "codec_ok c \<Longrightarrow> enc_many (enc c) xs = Some b \<Longrightarrow> dec_many (dec c) (length xs) (b @ rest) = Some (xs, rest)"
  by (induction xs arbitrary: b) (auto simp: bind_eq_Some_conv codec_okD)

lemma c_list_ok [codec_laws]: "codec_ok c \<Longrightarrow> codec_ok (c_list c)"
  by (rule codec_okI) (auto simp: c_list_def bind_eq_Some_conv codec_okD[OF c_nat_ok] dec_many_ok)

definition c_sum :: "'a codec \<Rightarrow> 'b codec \<Rightarrow> ('a + 'b) codec" where
  "c_sum c d = \<lparr>enc = (\<lambda>x. case x of Inl a \<Rightarrow> map_option (Cons 0) (enc c a) | Inr b \<Rightarrow> map_option (Cons 1) (enc d b)),
     dec = (\<lambda>b. case b of [] \<Rightarrow> None
       | t # r \<Rightarrow> if t = 0 then do { (x, s) \<leftarrow> dec c r; Some (Inl x, s) }
                 else do { (x, s) \<leftarrow> dec d r; Some (Inr x, s) })\<rparr>"

definition c_unit :: "unit codec" where
  "c_unit = \<lparr>enc = (\<lambda>_. Some []), dec = (\<lambda>b. Some ((), b))\<rparr>"

definition c_char :: "char codec" where
  "c_char = \<lparr>enc = (\<lambda>c. Some [of_nat (of_char c)]), dec = (\<lambda>b. case b of [] \<Rightarrow> None | x # r \<Rightarrow> Some (char_of (unat x), r))\<rparr>"

lemma c_sum_ok [codec_laws]: "codec_ok c \<Longrightarrow> codec_ok d \<Longrightarrow> codec_ok (c_sum c d)"
  by (rule codec_okI) (auto simp: c_sum_def codec_okD split: sum.splits)

lemma c_unit_ok [codec_laws]: "codec_ok c_unit"
  by (rule codec_okI) (simp add: c_unit_def)

lemma c_char_ok [codec_laws]: "codec_ok c_char"
  by (rule codec_okI) (auto simp: c_char_def unat_of_nat take_bit_eq_mod)

section \<open>The data of the stores\<close>

abbreviation c_string :: "string codec" where
  "c_string \<equiv> c_list c_char"

definition c_option :: "'a codec \<Rightarrow> 'a option codec" where
  "c_option c = c_conv (\<lambda>x. case x of None \<Rightarrow> Inl () | Some a \<Rightarrow> Inr a)
     (\<lambda>y. case y of Inl _ \<Rightarrow> None | Inr a \<Rightarrow> Some a) (c_sum c_unit c)"

definition c_leader_id :: "leader_id codec" where
  "c_leader_id = c_conv (\<lambda>l. (lid_term l, lid_node l)) (\<lambda>(t, n). LeaderId t n) (c_prod c_nat c_nat)"

definition c_log_id :: "log_id codec" where
  "c_log_id = c_conv (\<lambda>l. (lg_leader l, lg_index l)) (\<lambda>(t, n). LogId t n) (c_prod c_leader_id c_nat)"

definition c_vote :: "raft_vote codec" where
  "c_vote = c_conv (\<lambda>v. (vote_leader_id v, if vote_committed v then 1 else 0)) (\<lambda>(l, n). Vote l (n = 1))
     (c_prod c_leader_id c_nat)"

definition c_membership :: "membership codec" where
  "c_membership = c_conv (\<lambda>m. (configs m, m_nodes m)) (\<lambda>(c, n). \<lparr>configs = c, m_nodes = n\<rparr>)
     (c_prod (c_list (c_list c_nat)) (c_list (c_prod c_nat (c_conv node_addr BasicNode c_string))))"

definition c_request :: "request codec" where
  "c_request = c_conv (\<lambda>r. case r of Put k v \<Rightarrow> Inl (k, v) | Del k \<Rightarrow> Inr k)
     (\<lambda>s. case s of Inl (k, v) \<Rightarrow> Put k v | Inr k \<Rightarrow> Del k) (c_sum (c_prod c_string c_string) c_string)"

definition c_payload :: "entry_payload codec" where
  "c_payload = c_conv
     (\<lambda>p. case p of Blank \<Rightarrow> Inl () | Normal r \<Rightarrow> Inr (Inl r) | MembershipPayload m \<Rightarrow> Inr (Inr m))
     (\<lambda>s. case s of Inl _ \<Rightarrow> Blank | Inr (Inl r) \<Rightarrow> Normal r | Inr (Inr m) \<Rightarrow> MembershipPayload m)
     (c_sum c_unit (c_sum c_request c_membership))"

definition c_entry :: "entry codec" where
  "c_entry = c_conv (\<lambda>e. (e_log_id e, e_payload e)) (\<lambda>(l, p). \<lparr>e_log_id = l, e_payload = p\<rparr>)
     (c_prod c_log_id c_payload)"

lemma c_option_ok [codec_laws]: "codec_ok c \<Longrightarrow> codec_ok (c_option c)"
  unfolding c_option_def by (rule c_conv_ok) (auto simp: codec_laws split: option.splits)

lemma c_leader_id_ok [codec_laws]: "codec_ok c_leader_id"
  unfolding c_leader_id_def by (rule c_conv_ok) (auto simp: codec_laws)

lemma c_log_id_ok [codec_laws]: "codec_ok c_log_id"
  unfolding c_log_id_def by (rule c_conv_ok) (auto simp: codec_laws)

lemma c_vote_ok [codec_laws]: "codec_ok c_vote"
  unfolding c_vote_def by (rule c_conv_ok) (auto simp: codec_laws intro: vote.expand)

lemma c_node_ok [codec_laws]: "codec_ok (c_conv node_addr BasicNode c_string)"
  by (rule c_conv_ok) (auto simp: codec_laws)

lemma c_membership_ok [codec_laws]: "codec_ok c_membership"
  unfolding c_membership_def by (rule c_conv_ok) (auto simp: codec_laws)

lemma c_request_ok [codec_laws]: "codec_ok c_request"
  unfolding c_request_def by (rule c_conv_ok) (auto simp: codec_laws split: request.splits)

lemma c_payload_ok [codec_laws]: "codec_ok c_payload"
  unfolding c_payload_def by (rule c_conv_ok) (auto simp: codec_laws split: payload.splits)

lemma c_entry_ok [codec_laws]: "codec_ok c_entry"
  unfolding c_entry_def by (rule c_conv_ok) (auto simp: codec_laws)

section \<open>Encoders that never fail\<close>

definition codec_total :: "'a codec \<Rightarrow> bool" where
  "codec_total c = (\<forall>x. \<exists>b. enc c x = Some b)"

named_theorems total_laws

lemma codec_totalD: "codec_total c \<Longrightarrow> \<exists>b. enc c x = Some b"
  by (simp add: codec_total_def)

lemma c_base_total [total_laws]: "codec_total c_nat" "codec_total c_unit" "codec_total c_char"
  by (simp_all add: codec_total_def c_nat_def c_unit_def c_char_def)

lemma c_conv_total [total_laws]: "codec_total c \<Longrightarrow> codec_total (c_conv f g c)"
  by (simp add: codec_total_def c_conv_def)

lemma c_prod_total [total_laws]: "codec_total c \<Longrightarrow> codec_total d \<Longrightarrow> codec_total (c_prod c d)"
  unfolding codec_total_def c_prod_def by (simp add: split_beta) (metis bind.bind_lunit)

lemma c_sum_total [total_laws]: "codec_total c \<Longrightarrow> codec_total d \<Longrightarrow> codec_total (c_sum c d)"
  by (auto simp: codec_total_def c_sum_def split: sum.splits)

lemma enc_many_total: "codec_total c \<Longrightarrow> \<exists>b. enc_many (enc c) xs = Some b"
proof (induction xs)
  case (Cons x xs)
  then show ?case using codec_totalD[of c x] by auto
qed simp

lemma c_list_total [total_laws]: "codec_total c \<Longrightarrow> codec_total (c_list c)"
  unfolding codec_total_def
  using enc_many_total[of c] by (simp add: c_list_def c_nat_def codec_total_def) (metis bind.bind_lunit)

lemma c_option_total [total_laws]: "codec_total c \<Longrightarrow> codec_total (c_option c)"
  by (simp add: c_option_def total_laws)

section \<open>Encoders as the stores use them\<close>

definition serde_of :: "'a codec \<Rightarrow> 'a serde" where
  "serde_of c = \<lparr>to_vec = (\<lambda>x. case enc c x of None \<Rightarrow> Inl ''out of range'' | Some b \<Rightarrow> Inr b),
     from_slice = (\<lambda>b. case dec c b of Some (x, []) \<Rightarrow> Inr x | _ \<Rightarrow> Inl ''malformed'')\<rparr>"

lemma serde_of_ok: "codec_ok c \<Longrightarrow> serde_ok (serde_of c)"
  unfolding serde_ok_def serde_of_def
  using codec_okD[of c _ _ "[]"] by (auto split: option.splits)

definition serde_total :: "'a serde \<Rightarrow> bool" where
  "serde_total S = (\<forall>x. \<exists>b. to_vec S x = Inr b)"

lemma serde_of_total: "codec_total c \<Longrightarrow> serde_total (serde_of c)"
  by (auto simp: serde_total_def serde_of_def codec_total_def split: option.splits)

end
