(* ===== verification/KvLogStore.thy ===== *)
theory KvLogStore
imports KvCodec StorageTraits
begin

text \<open>
  \<^verbatim>\<open>kv-store/src/store/log_store.rs\<close>: the Raft log and the vote of a node in RocksDB. Entries live
  in the column family \<^verbatim>\<open>logs\<close> under the big-endian index, the vote and the last purged log id in
  \<^verbatim>\<open>meta\<close>. \<open>logs_rep\<close> relates the content of \<^verbatim>\<open>logs\<close> to the log it stands for; every operation
  that succeeds is proved to act on the log as the operation Raft asks for.
\<close>

section \<open>The store\<close>

record log_serde =
  sd_entry :: "entry serde"
  sd_vote :: "raft_vote serde"
  sd_log_id :: "log_id serde"

definition str_bytes :: "string \<Rightarrow> bytes" where
  "str_bytes s = map of_char s"

definition key_last_purged :: bytes where
  "key_last_purged = str_bytes ''last_purged_log_id''"

definition key_vote :: bytes where
  "key_vote = str_bytes ''vote''"

definition io_other :: "string + 'a \<Rightarrow> 'a io" where
  "io_other r = (case r of Inl e \<Rightarrow> Inl (IoOther e) | Inr a \<Rightarrow> Inr a)"

lemma io_other_simps [simp]:
  "io_other (Inl e) = Inl (IoOther e)" "io_other (Inr a) = Inr a" "io_other r = Inr a \<longleftrightarrow> r = Inr a"
  by (auto simp: io_other_def split: sum.splits)

text \<open>\<^verbatim>\<open>x + 1\<close> on \<^verbatim>\<open>u64\<close> panics when it overflows (in a debug build).\<close>

definition u64_inc :: "64 word \<Rightarrow> 64 word panics" where
  "u64_inc w = (if w = - 1 then None else Some (w + 1))"

lemma u64_inc_unat:
  assumes "u64_inc w = Some t"
  shows "unat t = Suc (unat w)"
proof -
  from assms have "w \<noteq> - 1" "t = 1 + w" by (auto simp: u64_inc_def split: if_splits)
  then show ?thesis using unatSuc[of w] by (simp add: add_eq_0_iff)
qed

definition entry_key :: "log_id \<Rightarrow> 64 word" where
  "entry_key l = of_nat (lg_index l)"

definition ls_new :: "'d rocks \<Rightarrow> 'd \<Rightarrow> 'd panics" where
  "ls_new R d = do {
     ensure (cf_handle R d ''meta'');
     ensure (cf_handle R d ''logs'');
     Some d }"

definition ls_get_meta :: "'d rocks \<Rightarrow> 'a serde \<Rightarrow> bytes \<Rightarrow> 'd \<Rightarrow> 'a option io panics" where
  "ls_get_meta R s key d = do {
     ensure (cf_handle R d ''meta'');
     Some (case get_cf R d ''meta'' key of
       Inl e \<Rightarrow> Inl (IoOther e)
     | Inr None \<Rightarrow> Inr None
     | Inr (Some b) \<Rightarrow> (case from_slice s b of Inl e \<Rightarrow> Inl (IoInvalidData e) | Inr t \<Rightarrow> Inr (Some t))) }"

definition ls_put_meta :: "'d rocks \<Rightarrow> 'a serde \<Rightarrow> bytes \<Rightarrow> 'a \<Rightarrow> 'd \<Rightarrow> (unit io \<times> 'd) panics" where
  "ls_put_meta R s key v d =
     (case to_vec s v of
        Inl e \<Rightarrow> Some (Inl (IoInvalidData e), d)
      | Inr b \<Rightarrow> do {
          ensure (cf_handle R d ''meta'');
          let (r, d') = put_cf R ''meta'' key b d;
          Some (io_other r, d') })"

section \<open>Reading\<close>

datatype bound = Included "64 word" | Excluded "64 word" | Unbounded

fun range_contains :: "bound \<times> bound \<Rightarrow> 64 word \<Rightarrow> bool" where
  "range_contains (s, t) x =
     ((case s of Included a \<Rightarrow> a \<le> x | Excluded a \<Rightarrow> a < x | Unbounded \<Rightarrow> True)
      \<and> (case t of Included b \<Rightarrow> x \<le> b | Excluded b \<Rightarrow> x < b | Unbounded \<Rightarrow> True))"

definition range_start :: "bound \<Rightarrow> 64 word panics" where
  "range_start s = (case s of Included x \<Rightarrow> Some x | Excluded x \<Rightarrow> u64_inc x | Unbounded \<Rightarrow> Some 0)"

fun read_entries :: "entry serde \<Rightarrow> (64 word \<Rightarrow> bool) \<Rightarrow> (string + bytes \<times> bytes) list \<Rightarrow> entry list
    \<Rightarrow> entry list io panics" where
  "read_entries s inside [] res = Some (Inr res)"
| "read_entries s inside (Inl e # its) res = Some (Inl (IoOther e))"
| "read_entries s inside (Inr (k, v) # its) res = do {
     i \<leftarrow> bin_to_id k;
     if \<not> inside i then Some (Inr res)
     else (case from_slice s v of
         Inl e \<Rightarrow> Some (Inl (IoOther e))
       | Inr entry \<Rightarrow> read_entries s inside its (res @ [entry])) }"

definition ls_try_get_log_entries ::
  "'d rocks \<Rightarrow> log_serde \<Rightarrow> bound \<times> bound \<Rightarrow> 'd \<Rightarrow> entry list io panics" where
  "ls_try_get_log_entries R S rg d = do {
     start \<leftarrow> range_start (fst rg);
     ensure (cf_handle R d ''logs'');
     read_entries (sd_entry S) (range_contains rg) (iterator_from R d ''logs'' (id_to_bin start)) [] }"

definition ls_read_vote :: "'d rocks \<Rightarrow> log_serde \<Rightarrow> 'd \<Rightarrow> raft_vote option io panics" where
  "ls_read_vote R S d = ls_get_meta R (sd_vote S) key_vote d"

definition ls_get_log_state :: "'d rocks \<Rightarrow> log_serde \<Rightarrow> 'd \<Rightarrow> log_state io panics" where
  "ls_get_log_state R S d = do {
     ensure (cf_handle R d ''logs'');
     (case (case iterator_end R d ''logs'' of
          [] \<Rightarrow> Inr None
        | Inl e # _ \<Rightarrow> Inl (IoOther e)
        | Inr (_, entry_bytes) # _ \<Rightarrow>
            (case from_slice (sd_entry S) entry_bytes of
               Inl e \<Rightarrow> Inl (IoOther e) | Inr ent \<Rightarrow> Inr (Some (e_log_id ent)))) of
        Inl e \<Rightarrow> Some (Inl e)
      | Inr newest \<Rightarrow> do {
          purged \<leftarrow> ls_get_meta R (sd_log_id S) key_last_purged d;
          Some (case purged of
            Inl e \<Rightarrow> Inl e
          | Inr p \<Rightarrow> Inr \<lparr>lst_last_purged_log_id = p,
                lst_last_log_id = (case newest of None \<Rightarrow> p | Some x \<Rightarrow> Some x)\<rparr>) }) }"

section \<open>Writing\<close>

text \<open>The vote is on disk before \<^verbatim>\<open>save_vote\<close> returns.\<close>

definition ls_save_vote :: "'d rocks \<Rightarrow> log_serde \<Rightarrow> raft_vote \<Rightarrow> 'd \<Rightarrow> (unit io \<times> 'd) panics" where
  "ls_save_vote R S v d = do {
     (r, d1) \<leftarrow> ls_put_meta R (sd_vote S) key_vote v d;
     (case r of
        Inl e \<Rightarrow> Some (Inl e, d1)
      | Inr _ \<Rightarrow> (let (f, d2) = flush_wal R d1 in Some (io_other f, d2))) }"

fun ls_append :: "'d rocks \<Rightarrow> log_serde \<Rightarrow> entry list \<Rightarrow> 'd \<Rightarrow> (unit io \<times> 'd) panics" where
  "ls_append R S [] d = Some (Inr (), d)"
| "ls_append R S (e # es) d = do {
     ensure (cf_handle R d ''logs'');
     (case to_vec (sd_entry S) e of
        Inl x \<Rightarrow> Some (Inl (IoInvalidData x), d)
      | Inr b \<Rightarrow>
          (case put_cf R ''logs'' (id_to_bin (entry_key (e_log_id e))) b d of
             (Inl x, d') \<Rightarrow> Some (Inl (IoOther x), d')
           | (Inr _, d') \<Rightarrow> ls_append R S es d')) }"

text \<open>
  The task an append that succeeded spawns: it flushes the write-ahead log, at any later time, and
  hands the result to the callback.
\<close>

definition ls_append_flushed :: "'d rocks \<Rightarrow> 'd \<Rightarrow> unit io \<times> 'd" where
  "ls_append_flushed R d = (let (r, d') = flush_wal R d in (io_other r, d'))"

definition ls_truncate :: "'d rocks \<Rightarrow> log_id \<Rightarrow> 'd \<Rightarrow> (unit io \<times> 'd) panics" where
  "ls_truncate R l d = do {
     let from = id_to_bin (entry_key l);
     let to = id_to_bin (- 1);
     ensure (cf_handle R d ''logs'');
     let (r, d') = delete_range_cf R ''logs'' from to d;
     Some (io_other r, d') }"

definition ls_purge :: "'d rocks \<Rightarrow> log_serde \<Rightarrow> log_id \<Rightarrow> 'd \<Rightarrow> (unit io \<times> 'd) panics" where
  "ls_purge R S l d = do {
     (r, d1) \<leftarrow> ls_put_meta R (sd_log_id S) key_last_purged l d;
     (case r of
        Inl e \<Rightarrow> Some (Inl e, d1)
      | Inr _ \<Rightarrow> do {
          let from = id_to_bin 0;
          end_index \<leftarrow> u64_inc (entry_key l);
          let to = id_to_bin end_index;
          ensure (cf_handle R d1 ''logs'');
          let (x, d2) = delete_range_cf R ''logs'' from to d1;
          Some (io_other x, d2) }) }"

section \<open>The log the column family stands for\<close>

definition entry_rep :: "log_serde \<Rightarrow> bytes \<times> bytes \<Rightarrow> entry \<Rightarrow> bool" where
  "entry_rep S kv e \<longleftrightarrow> fst kv = id_to_bin (entry_key (e_log_id e)) \<and> e_index e < 2 ^ 64
     \<and> from_slice (sd_entry S) (snd kv) = Inr e"

definition logs_rep :: "log_serde \<Rightarrow> (bytes, bytes) bt_map \<Rightarrow> entry list \<Rightarrow> bool" where
  "logs_rep S m es \<longleftrightarrow> list_all2 (entry_rep S) m es \<and> sorted_wrt (<) (map e_index es)"

text \<open>Writing an entry at its index: what is stored there is replaced.\<close>

fun put_entry :: "entry \<Rightarrow> entry list \<Rightarrow> entry list" where
  "put_entry e [] = [e]"
| "put_entry e (x # xs) =
     (if e_index e < e_index x then e # x # xs
      else if e_index e = e_index x then e # xs
      else x # put_entry e xs)"

lemma entry_key_less:
  "lg_index a < 2 ^ 64 \<Longrightarrow> lg_index b < 2 ^ 64 \<Longrightarrow> entry_key a < entry_key b \<longleftrightarrow> lg_index a < lg_index b"
  by (simp add: entry_key_def word_less_nat_alt unat_of_nat take_bit_eq_mod)

lemma entry_key_eq:
  "lg_index a < 2 ^ 64 \<Longrightarrow> lg_index b < 2 ^ 64 \<Longrightarrow> entry_key a = entry_key b \<longleftrightarrow> lg_index a = lg_index b"
  by (simp add: entry_key_def word_unat_eq_iff unat_of_nat take_bit_eq_mod)

lemma unat_entry_key: "lg_index l < 2 ^ 64 \<Longrightarrow> unat (entry_key l) = lg_index l"
  by (simp add: entry_key_def unat_of_nat take_bit_eq_mod)

lemma set_put_entry: "set (put_entry e es) \<subseteq> insert e (set es)"
  by (induction e es rule: put_entry.induct) auto

lemma put_entry_sorted: "sorted_wrt (<) (map e_index es) \<Longrightarrow> sorted_wrt (<) (map e_index (put_entry e es))"
proof (induction e es rule: put_entry.induct)
  case (2 e x xs)
  then show ?case using set_put_entry[of e xs] by (auto simp: subset_iff)
qed simp

lemma put_entry_end: "(\<forall>x \<in> set es. e_index x < e_index e) \<Longrightarrow> put_entry e es = es @ [e]"
  by (induction e es rule: put_entry.induct) auto

lemma fold_put_entry_end:
  "sorted_wrt (<) (map e_index new) \<Longrightarrow> (\<forall>x \<in> set es. \<forall>y \<in> set new. e_index x < e_index y)
    \<Longrightarrow> fold put_entry new es = es @ new"
  by (induction new arbitrary: es) (auto simp: put_entry_end)

lemma put_entry_rep:
  assumes "list_all2 (entry_rep S) m es" "entry_rep S (k, v) e"
  shows "list_all2 (entry_rep S) (bt_insert k v m) (put_entry e es)"
  using assms
proof (induction m es rule: list_all2_induct)
  case (Cons kv m x es)
  have "k = id_to_bin (entry_key (e_log_id e))" "e_index e < 2 ^ 64"
    "fst kv = id_to_bin (entry_key (e_log_id x))" "e_index x < 2 ^ 64"
    using Cons.hyps(1) Cons.prems by (simp_all add: entry_rep_def)
  then show ?case
    using Cons.hyps Cons.prems Cons.IH
    by (cases kv) (auto simp: id_to_bin_less_iff entry_key_less entry_key_eq)
qed simp

lemma logs_rep_insert:
  "logs_rep S m es \<Longrightarrow> entry_rep S (k, v) e \<Longrightarrow> logs_rep S (bt_insert k v m) (put_entry e es)"
  by (simp add: logs_rep_def put_entry_rep put_entry_sorted)

lemma entry_rep_key:
  assumes "entry_rep S kv e"
  shows "fst kv < id_to_bin a \<longleftrightarrow> e_index e < unat a" "id_to_bin a \<le> fst kv \<longleftrightarrow> unat a \<le> e_index e"
  using assms by (simp_all add: entry_rep_def id_to_bin_less_iff word_less_nat_alt unat_entry_key
      not_less[symmetric])

lemma list_all2_filter:
  "list_all2 R xs ys \<Longrightarrow> (\<And>x y. R x y \<Longrightarrow> P x = Q y) \<Longrightarrow> list_all2 R (filter P xs) (filter Q ys)"
  by (induction rule: list_all2_induct) auto

lemma sorted_wrt_map_filter: "sorted_wrt (<) (map f xs) \<Longrightarrow> sorted_wrt (<) (map f (filter P xs))"
  by (simp add: sorted_wrt_map sorted_wrt_filter)

lemma logs_rep_filter:
  assumes "logs_rep S m es" "\<And>kv e. entry_rep S kv e \<Longrightarrow> P kv = Q e"
  shows "logs_rep S (filter P m) (filter Q es)"
  using assms by (auto simp: logs_rep_def intro!: list_all2_filter sorted_wrt_map_filter)

section \<open>What the operations do\<close>

text \<open>The column families exist and \<^verbatim>\<open>logs\<close> holds the log \<open>es\<close>.\<close>

definition log_held ::
  "('d \<Rightarrow> string \<Rightarrow> (bytes, bytes) bt_map option) \<Rightarrow> log_serde \<Rightarrow> 'd \<Rightarrow> entry list \<Rightarrow> bool" where
  "log_held ab S d es \<longleftrightarrow> (\<exists>m. ab d ''logs'' = Some m \<and> logs_rep S m es) \<and> ab d ''meta'' \<noteq> None"

text \<open>The value of a key of \<^verbatim>\<open>meta\<close>.\<close>

definition meta_holds :: "(string \<Rightarrow> (bytes, bytes) bt_map option) \<Rightarrow> 'b serde \<Rightarrow> bytes \<Rightarrow> 'b \<Rightarrow> bool" where
  "meta_holds c s k v \<longleftrightarrow> (\<exists>m b. c ''meta'' = Some m \<and> bt_get m k = Some b \<and> from_slice s b = Inr v)"

lemma keys_differ [simp]: "key_vote \<noteq> key_last_purged" "key_last_purged \<noteq> key_vote"
  by (simp_all add: key_vote_def key_last_purged_def str_bytes_def)

lemma read_entries_rep:
  assumes "list_all2 (entry_rep S) m es" "yields_all its m" "sorted_wrt (<) (map e_index es)"
  shows "\<exists>r. read_entries (sd_entry S) inside its res = Some r
    \<and> (\<forall>out. r = Inr out \<longrightarrow> out = res @ takeWhile (\<lambda>e. inside (entry_key (e_log_id e))) es)"
  using assms
proof (induction its arbitrary: m es res)
  case (Cons i its)
  show ?case
  proof (cases i)
    case (Inr kv)
    then obtain m' where m: "m = kv # m'" "yields_all its m'"
      using Cons.prems(2) by (auto simp: yields_all_Inr)
    then obtain e es' where es: "es = e # es'" "entry_rep S kv e" "list_all2 (entry_rep S) m' es'"
      using Cons.prems(1) by (auto simp: list_all2_Cons1)
    show ?thesis
      using Cons.IH[OF es(3) m(2), of "res @ [e]"] Cons.prems(3) es Inr
      by (cases kv) (auto simp: entry_rep_def)
  qed simp
qed simp

lemma filter_eq_takeWhile_filter:
  fixes f :: "'x \<Rightarrow> 'y :: linorder"
  assumes "sorted_wrt (<) (map f es)" "\<And>x. P x \<Longrightarrow> Q x"
    "\<And>x y. x \<in> set es \<Longrightarrow> y \<in> set es \<Longrightarrow> f x < f y \<Longrightarrow> Q x \<Longrightarrow> P y \<Longrightarrow> P x"
  shows "takeWhile P (filter Q es) = filter P es"
  using assms
proof (induction es)
  case (Cons x es)
  have "takeWhile P (filter Q es) = filter P es" using Cons by auto
  moreover have "filter P es = []" if "Q x" "\<not> P x"
    using that Cons.prems by (auto simp: filter_empty_conv)
  ultimately show ?case using Cons.prems(2) by auto
qed simp

lemma range_contains_start:
  assumes "range_start (fst rg) = Some a"
  shows "range_contains rg x \<Longrightarrow> a \<le> x"
    and "a \<le> x \<Longrightarrow> x < y \<Longrightarrow> range_contains rg y \<Longrightarrow> range_contains rg x"
proof -
  have e: "(w < x) = (a \<le> x)" if "fst rg = Excluded w" for w
    using u64_inc_unat[of w a] assms that by (simp add: range_start_def word_less_nat_alt word_le_nat_alt Suc_le_eq)
  show "range_contains rg x \<Longrightarrow> a \<le> x"
    using assms e by (cases rg) (auto simp: range_start_def split: bound.splits)
  assume "a \<le> x" "x < y" "range_contains rg y"
  then show "range_contains rg x"
    using assms e by (cases rg) (auto simp: range_start_def split: bound.splits)
qed

locale log_storage_db = rocks_db R ab dur
  for R :: "'d rocks" and ab dur +
  fixes S :: log_serde
  assumes entry_codec: "serde_ok (sd_entry S)"
    and vote_codec: "serde_ok (sd_vote S)"
    and log_id_codec: "serde_ok (sd_log_id S)"
begin

lemma append_rep:
  assumes "ls_append R S new d = Some (Inr (), d')" "log_held ab S d es" "\<forall>e \<in> set new. e_index e < 2 ^ 64"
  shows "log_held ab S d' (fold put_entry new es) \<and> (\<forall>cf. cf \<noteq> ''logs'' \<longrightarrow> ab d' cf = ab d cf)"
  using assms
proof (induction new arbitrary: d es)
  case (Cons e new)
  obtain m where m: "ab d ''logs'' = Some m" "logs_rep S m es" "ab d ''meta'' \<noteq> None"
    using Cons.prems(2) by (auto simp: log_held_def)
  obtain b d1 where b: "to_vec (sd_entry S) e = Inr b"
    and p: "put_cf R ''logs'' (id_to_bin (entry_key (e_log_id e))) b d = (Inr (), d1)"
    and r: "ls_append R S new d1 = Some (Inr (), d')"
    using Cons.prems(1) by (auto split: sum.splits prod.splits)
  have ab1: "ab d1 = (ab d)(''logs'' \<mapsto> bt_insert (id_to_bin (entry_key (e_log_id e))) b m)"
    by (rule put[OF p m(1)])
  have "entry_rep S (id_to_bin (entry_key (e_log_id e)), b) e"
    using Cons.prems(3) serde_okD[OF entry_codec b] by (simp add: entry_rep_def)
  from logs_rep_insert[OF m(2) this]
  have "log_held ab S d1 (put_entry e es)" using m(3) by (auto simp: log_held_def ab1)
  from Cons.IH[OF r this] Cons.prems(3) show ?case by (auto simp: ab1)
qed simp

lemma truncate_rep:
  assumes "ls_truncate R l d = Some (Inr (), d')" "log_held ab S d es" "lg_index l < 2 ^ 64"
  shows "log_held ab S d' (filter (\<lambda>e. e_index e < lg_index l \<or> e_index e = 2 ^ 64 - 1) es)
    \<and> (\<forall>cf. cf \<noteq> ''logs'' \<longrightarrow> ab d' cf = ab d cf)"
proof -
  obtain m where m: "ab d ''logs'' = Some m" "logs_rep S m es" "ab d ''meta'' \<noteq> None"
    using assms(2) by (auto simp: log_held_def)
  have del: "delete_range_cf R ''logs'' (id_to_bin (entry_key l)) (id_to_bin (- 1)) d = (Inr (), d')"
    using assms(1) by (auto simp: ls_truncate_def io_other_def Let_def split: prod.splits sum.splits)
  have max: "unat (- 1 :: 64 word) = 2 ^ 64 - 1" by (simp add: unsigned_minus_1_eq_mask mask_eq_exp_minus_1)
  have "entry_rep S kv e \<Longrightarrow>
      (case kv of (k, v) \<Rightarrow> \<not> (id_to_bin (entry_key l) \<le> k \<and> k < id_to_bin (- 1)))
      = (e_index e < lg_index l \<or> e_index e = 2 ^ 64 - 1)" for kv e
    using entry_rep_key[of S kv e "entry_key l"] entry_rep_key[of S kv e "- 1"] assms(3)
    by (cases kv) (auto simp: entry_rep_def unat_entry_key max)
  from logs_rep_filter[OF m(2) this] show ?thesis
    using m(3) by (auto simp: log_held_def delete_range[OF del m(1)] bt_retain_def)
qed

lemma put_meta_rep:
  assumes "ls_put_meta R s k v d = Some (Inr (), d')" "serde_ok s" "ab d ''meta'' = Some m"
  shows "\<exists>b. from_slice s b = Inr v \<and> ab d' = (ab d)(''meta'' \<mapsto> bt_insert k b m)"
proof -
  obtain b where b: "to_vec s v = Inr b" and p: "put_cf R ''meta'' k b d = (Inr (), d')"
    using assms(1) by (auto simp: ls_put_meta_def io_other_def Let_def split: sum.splits prod.splits)
  show ?thesis using put[OF p assms(3)] serde_okD[OF assms(2) b] by blast
qed

lemma purge_rep:
  assumes "ls_purge R S l d = Some (Inr (), d')" "log_held ab S d es" "lg_index l < 2 ^ 64"
  shows "lg_index l < 2 ^ 64 - 1 \<and> log_held ab S d' (filter (\<lambda>e. lg_index l < e_index e) es)
    \<and> meta_holds (ab d') (sd_log_id S) key_last_purged l
    \<and> (\<forall>v. meta_holds (ab d') (sd_vote S) key_vote v = meta_holds (ab d) (sd_vote S) key_vote v)
    \<and> (\<forall>cf. cf \<noteq> ''logs'' \<longrightarrow> cf \<noteq> ''meta'' \<longrightarrow> ab d' cf = ab d cf)"
proof -
  obtain m mm where m: "ab d ''logs'' = Some m" "logs_rep S m es" "ab d ''meta'' = Some mm"
    using assms(2) by (auto simp: log_held_def)
  obtain d1 t where p: "ls_put_meta R (sd_log_id S) key_last_purged l d = Some (Inr (), d1)"
    and t: "u64_inc (entry_key l) = Some t"
    and del: "delete_range_cf R ''logs'' (id_to_bin 0) (id_to_bin t) d1 = (Inr (), d')"
  proof -
    obtain r d1 where p: "ls_put_meta R (sd_log_id S) key_last_purged l d = Some (r, d1)"
      using assms(1) by (auto simp: ls_purge_def bind_eq_Some_conv)
    with assms(1) show thesis
      by (cases r) (auto simp: ls_purge_def bind_eq_Some_conv Let_def case_prod_beta prod_eq_iff intro!: that)
  qed
  obtain b where b: "from_slice (sd_log_id S) b = Inr l"
    and ab1: "ab d1 = (ab d)(''meta'' \<mapsto> bt_insert key_last_purged b mm)"
    using put_meta_rep[OF p log_id_codec m(3)] by blast
  have t': "unat t = Suc (lg_index l)"
    using u64_inc_unat[OF t] assms(3) by (simp add: unat_entry_key)
  have "entry_rep S kv e \<Longrightarrow>
      (case kv of (k, v) \<Rightarrow> \<not> (id_to_bin 0 \<le> k \<and> k < id_to_bin t)) = (lg_index l < e_index e)" for kv e
    using entry_rep_key[of S kv e 0] entry_rep_key[of S kv e t] by (cases kv) (auto simp: t')
  moreover have "lg_index l < 2 ^ 64 - 1" using t' unsigned_less[of t, where ?'a = nat] by simp
  ultimately show ?thesis
    using logs_rep_filter[OF m(2), of _ "\<lambda>e. lg_index l < e_index e"] m delete_range[OF del, of m] b
    by (auto simp: log_held_def ab1 bt_retain_def meta_holds_def bt_get_insert)
qed

lemma read_rep:
  assumes "log_held ab S d es" "fst rg \<noteq> Excluded (- 1)"
  shows "\<exists>r. ls_try_get_log_entries R S rg d = Some r
    \<and> (\<forall>out. r = Inr out \<longrightarrow> out = filter (\<lambda>e. range_contains rg (entry_key (e_log_id e))) es)"
proof -
  obtain m where m: "ab d ''logs'' = Some m" "logs_rep S m es"
    using assms(1) by (auto simp: log_held_def)
  obtain a where a: "range_start (fst rg) = Some a"
    using assms(2) by (cases "fst rg") (auto simp: range_start_def u64_inc_def)
  let ?in = "\<lambda>e :: entry. range_contains rg (entry_key (e_log_id e))"
  let ?es = "filter (\<lambda>e. a \<le> entry_key (e_log_id e)) es"
  have bd: "\<forall>e \<in> set es. e_index e < 2 ^ 64"
    using m(2) by (auto simp: logs_rep_def entry_rep_def list_all2_conv_all_nth in_set_conv_nth)
  have rep: "list_all2 (entry_rep S) (filter (\<lambda>kv. id_to_bin a \<le> fst kv) m) ?es"
    using m(2) by (auto simp: logs_rep_def entry_rep_def id_to_bin_less_iff not_less[symmetric]
        intro!: list_all2_filter)
  have srt: "sorted_wrt (<) (map e_index ?es)"
    using m(2) by (simp add: logs_rep_def sorted_wrt_map_filter)
  have "takeWhile ?in ?es = filter ?in es"
  proof (rule filter_eq_takeWhile_filter[of e_index])
    show "sorted_wrt (<) (map e_index es)" using m(2) by (simp add: logs_rep_def)
    show "?in x \<Longrightarrow> a \<le> entry_key (e_log_id x)" for x by (rule range_contains_start(1)[OF a])
    show "?in x" if "x \<in> set es" "y \<in> set es" "e_index x < e_index y" "a \<le> entry_key (e_log_id x)" "?in y" for x y
      using range_contains_start(2)[OF a that(4) _ that(5)] that(1-3) bd by (simp add: entry_key_less)
  qed
  then show ?thesis
    using read_entries_rep[OF rep iter_from[OF m(1)] srt, of "range_contains rg" "[]"] m(1) a
    by (simp add: ls_try_get_log_entries_def handle ensure_def)
qed

lemma get_meta_rep:
  assumes "meta_holds (ab d) s k v"
  shows "\<exists>r. ls_get_meta R s k d = Some r \<and> (\<forall>x. r = Inr x \<longrightarrow> x = Some v)"
proof -
  obtain m where m: "ab d ''meta'' = Some m" using assms by (auto simp: meta_holds_def)
  show ?thesis
    using assms get[of d "''meta''" k _ m] m
    by (auto simp: ls_get_meta_def handle meta_holds_def ensure_def split: sum.splits option.splits)
qed

lemma log_state_rep:
  assumes "log_held ab S d es" "meta_holds (ab d) (sd_log_id S) key_last_purged p"
  shows "\<exists>r. ls_get_log_state R S d = Some r
    \<and> (\<forall>st. r = Inr st \<longrightarrow> st = \<lparr>lst_last_purged_log_id = Some p,
          lst_last_log_id = Some (if es = [] then p else e_log_id (last es))\<rparr>)"
proof -
  obtain m where m: "ab d ''logs'' = Some m" "logs_rep S m es"
    using assms(1) by (auto simp: log_held_def)
  have rep: "list_all2 (entry_rep S) (rev m) (rev es)" using m(2) by (simp add: logs_rep_def)
  obtain pr where pr: "ls_get_meta R (sd_log_id S) key_last_purged d = Some pr" "\<forall>x. pr = Inr x \<longrightarrow> x = Some p"
    using get_meta_rep[OF assms(2)] by blast
  have mm: "ab d ''meta'' \<noteq> None" using assms(2) by (auto simp: meta_holds_def)
  show ?thesis
    using iter_end[OF m(1)] rep pr m(1)
    by (cases "iterator_end R d ''logs''"; cases es rule: rev_cases; cases pr)
      (auto simp: ls_get_log_state_def handle ensure_def yields_all_Inr list_all2_Cons1 entry_rep_def
        split: sum.splits)
qed

lemma save_vote_rep:
  assumes "ls_save_vote R S v d = Some (Inr (), d')" "ab d ''meta'' = Some m"
  shows "meta_holds (dur d') (sd_vote S) key_vote v \<and> meta_holds (ab d') (sd_vote S) key_vote v
    \<and> (\<forall>cf. cf \<noteq> ''meta'' \<longrightarrow> ab d' cf = ab d cf)
    \<and> (\<forall>p. meta_holds (ab d') (sd_log_id S) key_last_purged p
          = meta_holds (ab d) (sd_log_id S) key_last_purged p)"
proof -
  obtain r d1 where p: "ls_put_meta R (sd_vote S) key_vote v d = Some (r, d1)"
    using assms(1) by (auto simp: ls_save_vote_def bind_eq_Some_conv)
  with assms(1) have r: "r = Inr ()" and f: "flush_wal R d1 = (Inr (), d')"
    by (cases r; auto simp: ls_save_vote_def case_prod_beta prod_eq_iff Let_def)+
  obtain b where "from_slice (sd_vote S) b = Inr v" "ab d1 = (ab d)(''meta'' \<mapsto> bt_insert key_vote b m)"
    using put_meta_rep[OF p[unfolded r] vote_codec assms(2)] by blast
  then show ?thesis
    using flush[OF f] assms(2) by (auto simp: meta_holds_def bt_get_insert)
qed

end

definition log_codecs :: log_serde where
  "log_codecs = \<lparr>sd_entry = serde_of c_entry, sd_vote = serde_of c_vote, sd_log_id = serde_of c_log_id\<rparr>"

interpretation mem_log: log_storage_db mem_rocks fst snd log_codecs
  by unfold_locales (simp_all add: log_codecs_def serde_of_ok codec_laws)

section \<open>Properties\<close>

text \<open>
  An append that succeeds stores every entry at its index and nothing else: reading the log
  back gives the old log with the new entries put in, which is the old log followed by
  the new entries when they continue it. The metadata and the state machine are not touched.
\<close>

theorem log_append_then_read:
  assumes "log_storage_db R ab dur S" "log_held ab S d es" "\<forall>e \<in> set new. e_index e < 2 ^ 64"
    "ls_append R S new d = Some (Inr (), d')"
  shows "\<exists>r. ls_try_get_log_entries R S (Unbounded, Unbounded) d' = Some r
    \<and> (\<forall>out. r = Inr out \<longrightarrow> out = fold put_entry new es
        \<and> (sorted_wrt (<) (map e_index new) \<and> (\<forall>x \<in> set es. \<forall>y \<in> set new. e_index x < e_index y)
            \<longrightarrow> out = es @ new))
    \<and> (\<forall>cf. cf \<noteq> ''logs'' \<longrightarrow> ab d' cf = ab d cf)"
proof -
  note a = log_storage_db.append_rep[OF assms(1,4,2,3)]
  show ?thesis
    using log_storage_db.read_rep[OF assms(1) conjunct1[OF a], of "(Unbounded, Unbounded)"] conjunct2[OF a]
    by (auto simp: fold_put_entry_end)
qed

definition mem_example :: "mem_content \<times> mem_content" where
  "mem_example = ((\<lambda>_. Some []), (\<lambda>_. Some []))"

definition example_entry :: "nat \<Rightarrow> entry_payload \<Rightarrow> entry" where
  "example_entry i p = entry_new (LogId (LeaderId 1 1) i) p"

lemma mem_example_holds: "log_held fst log_codecs mem_example []"
  by (simp add: log_held_def mem_example_def logs_rep_def)

lemmas codec_eval = log_codecs_def serde_of_def c_entry_def c_log_id_def c_leader_id_def c_vote_def c_payload_def
  c_request_def c_membership_def c_conv_def c_prod_def c_sum_def c_list_def c_unit_def c_char_def c_nat_def enc_nat.simps

theorem log_append_then_read_witness:
  "\<exists>d' r. ls_append mem_rocks log_codecs [example_entry 0 Blank, example_entry 1 (Normal (Put ''k'' ''v''))] mem_example
       = Some (Inr (), d')
     \<and> ls_try_get_log_entries mem_rocks log_codecs (Unbounded, Unbounded) d' = Some r
     \<and> (\<forall>out. r = Inr out \<longrightarrow> out = [example_entry 0 Blank, example_entry 1 (Normal (Put ''k'' ''v''))])"
proof -
  let ?new = "[example_entry 0 Blank, example_entry 1 (Normal (Put ''k'' ''v''))]"
  obtain d' where d': "ls_append mem_rocks log_codecs ?new mem_example = Some (Inr (), d')"
    by (simp add: mem_rocks_def mem_example_def codec_eval example_entry_def entry_new_def)
  have "\<forall>e \<in> set ?new. e_index e < 2 ^ 64" by (simp add: example_entry_def entry_new_def)
  from log_append_then_read[OF mem_log.log_storage_db_axioms mem_example_holds this d'] show ?thesis
    using d' by (auto simp: example_entry_def entry_new_def)
qed

text \<open>
  A truncation that succeeds removes exactly the entries from the given index on, except one
  at the greatest index \<open>2^64 - 1\<close>, which the end of the deleted range leaves out. The metadata and
  the state machine are not touched.
\<close>

theorem log_truncate_exact:
  assumes "log_storage_db R ab dur S" "log_held ab S d es" "lg_index l < 2 ^ 64"
    "ls_truncate R l d = Some (Inr (), d')"
  shows "log_held ab S d' (filter (\<lambda>e. e_index e < lg_index l \<or> e_index e = 2 ^ 64 - 1) es)
    \<and> (\<forall>cf. cf \<noteq> ''logs'' \<longrightarrow> ab d' cf = ab d cf)"
  by (rule log_storage_db.truncate_rep[OF assms(1,4,2,3)])

text \<open>
  C31. After a purge that succeeds, the entries up to the purged log id are gone and all others are
  there, the store reports that log id as the last purged one and, when the log is
  empty, as the last one, and the vote is unchanged. Purging up to index \<open>2^64 - 1\<close> never succeeds.
\<close>

theorem log_purge_state:
  assumes "log_storage_db R ab dur S" "log_held ab S d es" "lg_index l < 2 ^ 64"
    "ls_purge R S l d = Some (Inr (), d')"
  shows "lg_index l < 2 ^ 64 - 1 \<and> log_held ab S d' (filter (\<lambda>e. lg_index l < e_index e) es)
    \<and> (\<exists>r. ls_get_log_state R S d' = Some r
        \<and> (\<forall>st. r = Inr st \<longrightarrow> st = \<lparr>lst_last_purged_log_id = Some l,
              lst_last_log_id = Some (let rest = filter (\<lambda>e. lg_index l < e_index e) es
                in if rest = [] then l else e_log_id (last rest))\<rparr>))
    \<and> (\<forall>v. meta_holds (ab d') (sd_vote S) key_vote v = meta_holds (ab d) (sd_vote S) key_vote v)"
proof -
  let ?rest = "filter (\<lambda>e. lg_index l < e_index e) es"
  note p = log_storage_db.purge_rep[OF assms(1,4,2,3)]
  then have h: "log_held ab S d' ?rest" and m: "meta_holds (ab d') (sd_log_id S) key_last_purged l"
    by simp_all
  show ?thesis
    using log_storage_db.log_state_rep[OF assms(1) h m] p unfolding Let_def by simp
qed

text \<open>
  When saving a vote succeeds the vote is on disk: it survives a crash, a later read that
  does not fail returns it, and neither the log nor the last purged log id is changed.
\<close>

theorem save_vote_durable:
  assumes "log_storage_db R ab dur S" "ab d ''meta'' \<noteq> None" "ls_save_vote R S v d = Some (Inr (), d')"
  shows "meta_holds (dur d') (sd_vote S) key_vote v
    \<and> (\<exists>r. ls_read_vote R S d' = Some r \<and> (\<forall>x. r = Inr x \<longrightarrow> x = Some v))
    \<and> ab d' ''logs'' = ab d ''logs''
    \<and> (\<forall>p. meta_holds (ab d') (sd_log_id S) key_last_purged p = meta_holds (ab d) (sd_log_id S) key_last_purged p)"
proof -
  obtain m where m: "ab d ''meta'' = Some m" using assms(2) by blast
  note s = log_storage_db.save_vote_rep[OF assms(1,3) m]
  then have "meta_holds (ab d') (sd_vote S) key_vote v" by simp
  from log_storage_db.get_meta_rep[OF assms(1) this] s show ?thesis
    by (simp add: ls_read_vote_def)
qed

definition mem_logged :: "mem_content \<times> mem_content" where
  "mem_logged = snd (the (ls_append mem_rocks log_codecs
     [example_entry 3 Blank, example_entry 4 Blank, example_entry 5 Blank] mem_example))"

lemma mem_logged_holds:
  "log_held fst log_codecs mem_logged [example_entry 3 Blank, example_entry 4 Blank, example_entry 5 Blank]"
proof -
  let ?new = "[example_entry 3 Blank, example_entry 4 Blank, example_entry 5 Blank]"
  obtain d' where d': "ls_append mem_rocks log_codecs ?new mem_example = Some (Inr (), d')"
    by (simp add: mem_rocks_def mem_example_def codec_eval example_entry_def entry_new_def)
  have "\<forall>e \<in> set ?new. e_index e < 2 ^ 64" by (simp add: example_entry_def entry_new_def)
  from mem_log.append_rep[OF d' mem_example_holds this] show ?thesis
    unfolding mem_logged_def d' by (simp add: example_entry_def entry_new_def)
qed

lemma mem_logged_cf: "fst mem_logged ''meta'' \<noteq> None" "fst mem_logged ''logs'' \<noteq> None"
  using mem_logged_holds by (auto simp: log_held_def)

theorem log_truncate_exact_witness:
  "\<exists>d'. ls_truncate mem_rocks (LogId (LeaderId 1 1) 4) mem_logged = Some (Inr (), d')
     \<and> log_held fst log_codecs d' [example_entry 3 Blank]"
proof -
  obtain d' where d': "ls_truncate mem_rocks (LogId (LeaderId 1 1) 4) mem_logged = Some (Inr (), d')"
    using mem_logged_cf by (auto simp: ls_truncate_def mem_rocks_def ensure_def Let_def)
  from log_truncate_exact[OF mem_log.log_storage_db_axioms mem_logged_holds _ d'] show ?thesis
    using d' by (auto simp: example_entry_def entry_new_def)
qed

theorem log_purge_state_witness:
  "\<exists>d'. ls_purge mem_rocks log_codecs (LogId (LeaderId 1 1) 4) mem_logged = Some (Inr (), d')
     \<and> log_held fst log_codecs d' [example_entry 5 Blank]"
proof -
  have k: "entry_key (LogId l 4) \<noteq> - 1" for l by (simp add: entry_key_def)
  obtain d' where d': "ls_purge mem_rocks log_codecs (LogId (LeaderId 1 1) 4) mem_logged = Some (Inr (), d')"
    using mem_logged_cf k
    by (auto simp: ls_purge_def ls_put_meta_def mem_rocks_def ensure_def Let_def u64_inc_def codec_eval)
  from log_purge_state[OF mem_log.log_storage_db_axioms mem_logged_holds _ d'] show ?thesis
    using d' by (auto simp: example_entry_def entry_new_def)
qed

theorem save_vote_durable_witness:
  "\<exists>d'. ls_save_vote mem_rocks log_codecs (Vote (LeaderId 2 1) False) mem_logged = Some (Inr (), d')
     \<and> meta_holds (snd d') (sd_vote log_codecs) key_vote (Vote (LeaderId 2 1) False)"
proof -
  obtain d' where d': "ls_save_vote mem_rocks log_codecs (Vote (LeaderId 2 1) False) mem_logged = Some (Inr (), d')"
    using mem_logged_cf
    by (auto simp: ls_save_vote_def ls_put_meta_def mem_rocks_def ensure_def Let_def codec_eval)
  from save_vote_durable[OF mem_log.log_storage_db_axioms mem_logged_cf(1) d'] show ?thesis
    using d' by blast
qed

end
