(* ===== verification/KvStateMachine.thy ===== *)
theory KvStateMachine
imports KvLogStore MembershipState RaftState
begin

text \<open>
  \<^verbatim>\<open>kv-store/src/store/mod.rs\<close>: the key-value state machine and its snapshots, and the handlers of
  \<^verbatim>\<open>kv-store/src/network\<close> that compute something. The map of keys and the database are shared
  (\<^verbatim>\<open>Arc\<close>) by the state machine, its snapshot builders and the read handlers, so they live in a world
  of their own; what a clone copies is the record \<open>state_machine\<close>. Keys are strings as characters:
  their order is the one \<^verbatim>\<open>BTreeMap\<close> uses for strings of one-byte characters.
\<close>

section \<open>State\<close>

record stored_snapshot =
  ss_meta :: snapshot_meta
  ss_data :: bytes

type_synonym kv_map = "(string, string) bt_map"

record state_machine =
  smd_last_applied_log_id :: "log_id option"
  smd_last_membership :: stored_membership
  sms_snapshot_idx :: nat

record 'd kv_world =
  kw_kvs :: kv_map
  kw_db :: 'd

record kv_serde =
  sd_kvs :: "kv_map serde"
  sd_snapshot :: "stored_snapshot serde"

definition key_snapshot :: bytes where
  "key_snapshot = str_bytes ''snapshot''"

section \<open>Applying entries\<close>

fun sm_apply_payload :: "log_id \<Rightarrow> entry_payload \<Rightarrow> state_machine \<Rightarrow> kv_map \<Rightarrow> response \<times> state_machine \<times> kv_map" where
  "sm_apply_payload l Blank sm kvs = (Response None, sm, kvs)"
| "sm_apply_payload l (Normal (Put k v)) sm kvs = (Response (Some v), sm, bt_insert k v kvs)"
| "sm_apply_payload l (Normal (Del k)) sm kvs = (Response (Some ''Ok''), sm, bt_remove k kvs)"
| "sm_apply_payload l (MembershipPayload m) sm kvs =
     (Response None, sm\<lparr>smd_last_membership := \<lparr>sm_log_id = Some l, sm_membership = m\<rparr>\<rparr>, kvs)"

text \<open>
  The loop over the stream of entries with their responders, of any type. The
  result carries the responses sent; an error of the stream ends the loop.
\<close>

fun sm_apply :: "(io_error + entry \<times> 'tx option) list \<Rightarrow> state_machine \<Rightarrow> kv_map
    \<Rightarrow> unit io \<times> ('tx \<times> response) list \<times> state_machine \<times> kv_map" where
  "sm_apply [] sm kvs = (Inr (), [], sm, kvs)"
| "sm_apply (Inl err # rest) sm kvs = (Inl err, [], sm, kvs)"
| "sm_apply (Inr (entry, responder) # rest) sm kvs =
     (let (resp, sm1, kvs1) = sm_apply_payload (e_log_id entry) (e_payload entry)
            (sm\<lparr>smd_last_applied_log_id := Some (e_log_id entry)\<rparr>) kvs;
          (r, sent, sm2, kvs2) = sm_apply rest sm1 kvs1
      in (r, (case responder of Some tx \<Rightarrow> [(tx, resp)] | None \<Rightarrow> []) @ sent, sm2, kvs2))"

definition sm_applied_state :: "state_machine \<Rightarrow> log_id option \<times> stored_membership" where
  "sm_applied_state sm = (smd_last_applied_log_id sm, smd_last_membership sm)"

section \<open>Snapshots\<close>

definition digit_char :: "nat \<Rightarrow> char" where
  "digit_char d = char_of (48 + d)"

fun show_nat :: "nat \<Rightarrow> string" where
  "show_nat n = (if n < 10 then [digit_char n] else show_nat (n div 10) @ [digit_char (n mod 10)])"

declare show_nat.simps [simp del]

definition show_leader_id :: "leader_id \<Rightarrow> string" where
  "show_leader_id l = ''T'' @ show_nat (lid_term l) @ ''-N'' @ show_nat (lid_node l)"

definition sm_get_current_snapshot' :: "'d rocks \<Rightarrow> kv_serde \<Rightarrow> 'd \<Rightarrow> stored_snapshot option io panics" where
  "sm_get_current_snapshot' R S d = do {
     ensure (cf_handle R d ''store'');
     Some (case get_cf R d ''store'' key_snapshot of
       Inl e \<Rightarrow> Inl (IoOther e)
     | Inr None \<Rightarrow> Inr None
     | Inr (Some v) \<Rightarrow> Inr (case from_slice (sd_snapshot S) v of Inl _ \<Rightarrow> None | Inr s \<Rightarrow> Some s)) }"

definition sm_set_current_snapshot :: "'d rocks \<Rightarrow> kv_serde \<Rightarrow> stored_snapshot \<Rightarrow> 'd \<Rightarrow> (unit io \<times> 'd) panics" where
  "sm_set_current_snapshot R S snap d = do {
     ensure (cf_handle R d ''store'');
     b \<leftarrow> (case to_vec (sd_snapshot S) snap of Inl _ \<Rightarrow> None | Inr b \<Rightarrow> Some b);
     (case put_cf R ''store'' key_snapshot b d of
        (Inl e, d1) \<Rightarrow> Some (Inl (IoOther e), d1)
      | (Inr _, d1) \<Rightarrow> (let (f, d2) = flush_wal R d1 in Some (io_other f, d2))) }"

definition sm_update_state_machine ::
  "kv_serde \<Rightarrow> stored_snapshot \<Rightarrow> state_machine \<Rightarrow> kv_map \<Rightarrow> unit io \<times> state_machine \<times> kv_map" where
  "sm_update_state_machine S snap sm kvs =
     (case from_slice (sd_kvs S) (ss_data snap) of
        Inl e \<Rightarrow> (Inl (IoInvalidData e), sm, kvs)
      | Inr kvs' \<Rightarrow> (Inr (),
          sm\<lparr>smd_last_applied_log_id := snap_last_log_id (ss_meta snap),
             smd_last_membership := snap_last_membership (ss_meta snap)\<rparr>, kvs'))"

definition sm_new :: "'d rocks \<Rightarrow> kv_serde \<Rightarrow> 'd \<Rightarrow> (state_machine \<times> 'd kv_world) io panics" where
  "sm_new R S d = do {
     let sm = \<lparr>smd_last_applied_log_id = None, smd_last_membership = stored_membership_default,
               sms_snapshot_idx = 0\<rparr>;
     snapshot \<leftarrow> sm_get_current_snapshot' R S d;
     Some (case snapshot of
       Inl e \<Rightarrow> Inl e
     | Inr None \<Rightarrow> Inr (sm, \<lparr>kw_kvs = [], kw_db = d\<rparr>)
     | Inr (Some snap) \<Rightarrow>
         (case sm_update_state_machine S snap sm [] of
            (Inl e, _) \<Rightarrow> Inl e
          | (Inr _, sm1, kvs) \<Rightarrow> Inr (sm1, \<lparr>kw_kvs = kvs, kw_db = d\<rparr>))) }"

text \<open>\<^verbatim>\<open>get_snapshot_builder\<close>: the state machine and its clone, the builder. The map is shared.\<close>

definition sm_get_snapshot_builder :: "state_machine \<Rightarrow> (state_machine \<times> state_machine) panics" where
  "sm_get_snapshot_builder sm = do {
     ensure (sms_snapshot_idx sm < 2 ^ 64 - 1);
     let sm1 = sm\<lparr>sms_snapshot_idx := sms_snapshot_idx sm + 1\<rparr>;
     Some (sm1, sm1) }"

definition sm_snapshot_id :: "state_machine \<Rightarrow> string" where
  "sm_snapshot_id sm = (case smd_last_applied_log_id sm of
       Some l \<Rightarrow> show_leader_id (lg_leader l) @ ''-'' @ show_nat (lg_index l) @ ''-'' @ show_nat (sms_snapshot_idx sm)
     | None \<Rightarrow> ''--'' @ show_nat (sms_snapshot_idx sm))"

definition sm_build_snapshot ::
  "'d rocks \<Rightarrow> kv_serde \<Rightarrow> state_machine \<Rightarrow> 'd kv_world \<Rightarrow> (stored_snapshot io \<times> 'd kv_world) panics" where
  "sm_build_snapshot R S sm w =
     (case to_vec (sd_kvs S) (kw_kvs w) of
        Inl e \<Rightarrow> Some (Inl (IoInvalidData e), w)
      | Inr kv_json \<Rightarrow> do {
          let meta = \<lparr>snap_last_log_id = smd_last_applied_log_id sm,
                      snap_last_membership = smd_last_membership sm, snap_id = sm_snapshot_id sm\<rparr>;
          let snapshot = \<lparr>ss_meta = meta, ss_data = kv_json\<rparr>;
          (r, d) \<leftarrow> sm_set_current_snapshot R S snapshot (kw_db w);
          Some (case r of Inl e \<Rightarrow> Inl e | Inr _ \<Rightarrow> Inr snapshot, w\<lparr>kw_db := d\<rparr>) })"

definition sm_install_snapshot ::
  "'d rocks \<Rightarrow> kv_serde \<Rightarrow> snapshot_meta \<Rightarrow> bytes \<Rightarrow> state_machine \<Rightarrow> 'd kv_world
     \<Rightarrow> (unit io \<times> state_machine \<times> 'd kv_world) panics" where
  "sm_install_snapshot R S meta data sm w =
     (let new_snapshot = \<lparr>ss_meta = meta, ss_data = data\<rparr> in
      case sm_update_state_machine S new_snapshot sm (kw_kvs w) of
        (Inl e, sm1, kvs) \<Rightarrow> Some (Inl e, sm1, w\<lparr>kw_kvs := kvs\<rparr>)
      | (Inr _, sm1, kvs) \<Rightarrow> do {
          (r, d) \<leftarrow> sm_set_current_snapshot R S new_snapshot (kw_db w);
          Some (r, sm1, \<lparr>kw_kvs = kvs, kw_db = d\<rparr>) })"

definition sm_get_current_snapshot :: "'d rocks \<Rightarrow> kv_serde \<Rightarrow> 'd kv_world \<Rightarrow> stored_snapshot option io panics" where
  "sm_get_current_snapshot R S w = sm_get_current_snapshot' R S (kw_db w)"

section \<open>Request handlers\<close>

text \<open>\<^verbatim>\<open>network/api.rs\<close>: a key that is absent reads as the empty string.\<close>

definition api_read :: "string \<Rightarrow> 'd kv_world \<Rightarrow> string" where
  "api_read key w = (case bt_get (kw_kvs w) key of Some v \<Rightarrow> v | None \<Rightarrow> '''')"

definition api_read_all :: "'d kv_world \<Rightarrow> kv_map" where
  "api_read_all w = kw_kvs w"

text \<open>\<^verbatim>\<open>network/management.rs\<close>: the nodes a cluster is initialized with.\<close>

definition init_nodes :: "nat \<Rightarrow> string \<Rightarrow> (nat \<times> string) list \<Rightarrow> nodes" where
  "init_nodes node_id addr req =
     (if req = [] then bt_insert node_id (BasicNode addr) []
      else fold (\<lambda>(i, a) m. bt_insert i (BasicNode a) m) req [])"

section \<open>The abstract store\<close>

text \<open>What an entry does to the contents of the store, as a map from keys to values.\<close>

fun kv_step :: "entry_payload \<Rightarrow> (string \<Rightarrow> string option) \<Rightarrow> string \<Rightarrow> string option" where
  "kv_step (Normal (Put k v)) m = m(k \<mapsto> v)"
| "kv_step (Normal (Del k)) m = m(k := None)"
| "kv_step Blank m = m"
| "kv_step (MembershipPayload c) m = m"

fun kv_response :: "entry_payload \<Rightarrow> response" where
  "kv_response (Normal (Put k v)) = Response (Some v)"
| "kv_response (Normal (Del k)) = Response (Some ''Ok'')"
| "kv_response Blank = Response None"
| "kv_response (MembershipPayload c) = Response None"

definition kv_after :: "entry list \<Rightarrow> (string \<Rightarrow> string option) \<Rightarrow> string \<Rightarrow> string option" where
  "kv_after es = fold (\<lambda>e. kv_step (e_payload e)) es"

text \<open>The membership of the last entry that carries one.\<close>

definition membership_after :: "entry list \<Rightarrow> stored_membership \<Rightarrow> stored_membership" where
  "membership_after es m0 = fold (\<lambda>e m. case entry_get_membership e of
       Some c \<Rightarrow> \<lparr>sm_log_id = Some (e_log_id e), sm_membership = c\<rparr> | None \<Rightarrow> m) es m0"

definition responses_of :: "(entry \<times> 'tx option) list \<Rightarrow> ('tx \<times> response) list" where
  "responses_of xs = concat (map (\<lambda>(e, tx). case tx of Some t \<Rightarrow> [(t, kv_response (e_payload e))] | None \<Rightarrow> []) xs)"

lemma payload_cases:
  obtains (blank) "p = Blank" | (put) k v where "p = Normal (Put k v)" | (del) k where "p = Normal (Del k)"
    | (membership) m where "p = MembershipPayload m"
  by (metis payload.exhaust request.exhaust)

lemma sm_apply_payload_spec:
  assumes "sm_apply_payload l p sm kvs = (r, sm', kvs')" "bt_wf kvs"
  shows "r = kv_response p \<and> bt_wf kvs' \<and> bt_get kvs' = kv_step p (bt_get kvs)
    \<and> sm' = sm\<lparr>smd_last_membership := (case payload_get_membership p of
          Some c \<Rightarrow> \<lparr>sm_log_id = Some l, sm_membership = c\<rparr> | None \<Rightarrow> smd_last_membership sm)\<rparr>"
  using assms
  by (cases p rule: payload_cases)
    (auto simp: bt.wf_insert bt.wf_remove bt.get_insert bt.get_remove fun_eq_iff)

lemma sm_apply_spec:
  assumes "bt_wf kvs" "rest = [] \<or> (\<exists>err more. rest = Inl err # more)"
  shows "\<exists>kvs'. sm_apply (map Inr xs @ rest) sm kvs =
      ((case rest of Inl err # _ \<Rightarrow> Inl err | _ \<Rightarrow> Inr ()), responses_of xs,
       sm\<lparr>smd_last_applied_log_id := (if xs = [] then smd_last_applied_log_id sm else Some (e_log_id (fst (last xs)))),
          smd_last_membership := membership_after (map fst xs) (smd_last_membership sm)\<rparr>, kvs')
    \<and> bt_wf kvs' \<and> bt_get kvs' = kv_after (map fst xs) (bt_get kvs)"
  using assms
proof (induction xs arbitrary: sm kvs)
  case Nil
  then show ?case by (auto simp: responses_of_def membership_after_def kv_after_def)
next
  case (Cons x xs)
  obtain e tx where x: "x = (e, tx)" by fastforce
  let ?sm = "sm\<lparr>smd_last_applied_log_id := Some (e_log_id e)\<rparr>"
  obtain r sm1 kvs1 where p: "sm_apply_payload (e_log_id e) (e_payload e) ?sm kvs = (r, sm1, kvs1)"
    by (cases "sm_apply_payload (e_log_id e) (e_payload e) ?sm kvs") auto
  note s = sm_apply_payload_spec[OF p Cons.prems(1)]
  obtain kvs' where k: "sm_apply (map Inr xs @ rest) sm1 kvs1 =
      ((case rest of Inl err # _ \<Rightarrow> Inl err | _ \<Rightarrow> Inr ()), responses_of xs,
       sm1\<lparr>smd_last_applied_log_id := (if xs = [] then smd_last_applied_log_id sm1 else Some (e_log_id (fst (last xs)))),
          smd_last_membership := membership_after (map fst xs) (smd_last_membership sm1)\<rparr>, kvs')"
    "bt_wf kvs'" "bt_get kvs' = kv_after (map fst xs) (bt_get kvs1)"
    using Cons.IH[of kvs1 sm1] s Cons.prems(2) by blast
  show ?case
    using k s by (auto simp: x p responses_of_def membership_after_def kv_after_def entry_get_membership_def
        split: option.splits)
qed

section \<open>Replaying entries\<close>

definition writes :: "entry list \<Rightarrow> string \<Rightarrow> bool" where
  "writes es k \<longleftrightarrow> (\<exists>e \<in> set es. case e_payload e of Normal (Put k' v) \<Rightarrow> k' = k | Normal (Del k') \<Rightarrow> k' = k | _ \<Rightarrow> False)"

lemma kv_after_untouched: "\<not> writes es k \<Longrightarrow> kv_after es m k = m k"
proof (induction es arbitrary: m)
  case (Cons e es)
  then show ?case
    by (cases "e_payload e" rule: payload_cases)
      (auto simp: kv_after_def writes_def)
qed (simp add: kv_after_def)

lemma kv_after_touched: "writes es k \<Longrightarrow> kv_after es m k = kv_after es m' k"
proof (induction es arbitrary: m m')
  case (Cons e es)
  show ?case
  proof (cases "writes es k")
    case True
    then show ?thesis using Cons.IH by (simp add: kv_after_def)
  next
    case False
    then show ?thesis
      using Cons.prems kv_after_untouched[OF False, of "kv_step (e_payload e) m"]
        kv_after_untouched[OF False, of "kv_step (e_payload e) m'"]
      by (cases "e_payload e" rule: payload_cases)
        (auto simp: kv_after_def writes_def)
  qed
qed (simp add: writes_def)

lemma kv_after_replay: "kv_after (xs @ ys) (kv_after xs m) = kv_after (xs @ ys) m"
proof
  fix k
  show "kv_after (xs @ ys) (kv_after xs m) k = kv_after (xs @ ys) m k"
  proof (cases "writes (xs @ ys) k")
    case False
    then have "\<not> writes xs k" by (auto simp: writes_def)
    with False show ?thesis by (simp add: kv_after_untouched)
  qed (rule kv_after_touched)
qed

section \<open>Snapshots on disk\<close>

text \<open>The snapshot the column family \<^verbatim>\<open>store\<close> holds.\<close>

definition snapshot_held :: "(string \<Rightarrow> (bytes, bytes) bt_map option) \<Rightarrow> kv_serde \<Rightarrow> stored_snapshot \<Rightarrow> bool" where
  "snapshot_held c S snap \<longleftrightarrow> (\<exists>m b. c ''store'' = Some m \<and> bt_get m key_snapshot = Some b
     \<and> from_slice (sd_snapshot S) b = Inr snap)"

definition restored :: "stored_snapshot \<Rightarrow> state_machine" where
  "restored snap = \<lparr>smd_last_applied_log_id = snap_last_log_id (ss_meta snap),
     smd_last_membership = snap_last_membership (ss_meta snap), sms_snapshot_idx = 0\<rparr>"

locale state_machine_db = rocks_db R ab dur
  for R :: "'d rocks" and ab dur +
  fixes S :: kv_serde
  assumes kvs_codec: "serde_ok (sd_kvs S)"
    and snapshot_codec: "serde_ok (sd_snapshot S)"
begin

lemma set_current_snapshot_rep:
  assumes "sm_set_current_snapshot R S snap d = Some (Inr (), d')" "ab d ''store'' \<noteq> None"
  shows "snapshot_held (ab d') S snap \<and> snapshot_held (dur d') S snap
    \<and> (\<forall>cf. cf \<noteq> ''store'' \<longrightarrow> ab d' cf = ab d cf)"
proof -
  obtain m where m: "ab d ''store'' = Some m" using assms(2) by blast
  obtain b d1 where b: "to_vec (sd_snapshot S) snap = Inr b"
    and p: "put_cf R ''store'' key_snapshot b d = (Inr (), d1)" and f: "flush_wal R d1 = (Inr (), d')"
    using assms(1)
    by (auto simp: sm_set_current_snapshot_def bind_eq_Some_conv case_prod_beta prod_eq_iff Let_def
        split: sum.splits prod.splits)
  show ?thesis
    using put[OF p m] flush[OF f] serde_okD[OF snapshot_codec b]
    by (auto simp: snapshot_held_def bt_get_insert)
qed

lemma get_current_snapshot_rep:
  assumes "snapshot_held (ab d) S snap"
  shows "\<exists>r. sm_get_current_snapshot' R S d = Some r \<and> (\<forall>x. r = Inr x \<longrightarrow> x = Some snap)"
proof -
  obtain m where m: "ab d ''store'' = Some m" using assms by (auto simp: snapshot_held_def)
  show ?thesis
    using assms get[of d "''store''" key_snapshot _ m] m
    by (auto simp: sm_get_current_snapshot'_def handle snapshot_held_def ensure_def split: sum.splits option.splits)
qed

text \<open>A restart on a database that holds a snapshot.\<close>

lemma new_rep:
  assumes "snapshot_held (ab d) S snap" "from_slice (sd_kvs S) (ss_data snap) = Inr kvs"
  shows "\<exists>r. sm_new R S d = Some r \<and> (\<forall>x. r = Inr x \<longrightarrow> x = (restored snap, \<lparr>kw_kvs = kvs, kw_db = d\<rparr>))"
proof -
  obtain r where "sm_get_current_snapshot' R S d = Some r" "\<forall>x. r = Inr x \<longrightarrow> x = Some snap"
    using get_current_snapshot_rep[OF assms(1)] by blast
  then show ?thesis
    using assms(2) by (cases r) (auto simp: sm_new_def sm_update_state_machine_def restored_def Let_def)
qed

end

definition c_byte :: "8 word codec" where
  "c_byte = \<lparr>enc = (\<lambda>w. Some [w]), dec = (\<lambda>b. case b of [] \<Rightarrow> None | x # r \<Rightarrow> Some (x, r))\<rparr>"

definition c_kvs :: "kv_map codec" where
  "c_kvs = c_list (c_prod c_string c_string)"

definition c_stored_membership :: "stored_membership codec" where
  "c_stored_membership = c_conv (\<lambda>m. (sm_log_id m, sm_membership m)) (\<lambda>(l, m). \<lparr>sm_log_id = l, sm_membership = m\<rparr>)
     (c_prod (c_option c_log_id) c_membership)"

definition c_snapshot_meta :: "snapshot_meta codec" where
  "c_snapshot_meta = c_conv (\<lambda>m. (snap_last_log_id m, snap_last_membership m, snap_id m))
     (\<lambda>(l, m, i). \<lparr>snap_last_log_id = l, snap_last_membership = m, snap_id = i\<rparr>)
     (c_prod (c_option c_log_id) (c_prod c_stored_membership c_string))"

definition c_stored_snapshot :: "stored_snapshot codec" where
  "c_stored_snapshot = c_conv (\<lambda>s. (ss_meta s, ss_data s)) (\<lambda>(m, d). \<lparr>ss_meta = m, ss_data = d\<rparr>)
     (c_prod c_snapshot_meta (c_list c_byte))"

lemma c_byte_ok [codec_laws]: "codec_ok c_byte"
  by (rule codec_okI) (auto simp: c_byte_def)

lemma c_kvs_ok [codec_laws]: "codec_ok c_kvs"
  by (simp add: c_kvs_def codec_laws)

lemma c_stored_membership_ok [codec_laws]: "codec_ok c_stored_membership"
  unfolding c_stored_membership_def by (rule c_conv_ok) (auto simp: codec_laws)

lemma c_snapshot_meta_ok [codec_laws]: "codec_ok c_snapshot_meta"
  unfolding c_snapshot_meta_def by (rule c_conv_ok) (auto simp: codec_laws)

lemma c_stored_snapshot_ok [codec_laws]: "codec_ok c_stored_snapshot"
  unfolding c_stored_snapshot_def by (rule c_conv_ok) (auto simp: codec_laws)

definition kv_codecs :: kv_serde where
  "kv_codecs = \<lparr>sd_kvs = serde_of c_kvs, sd_snapshot = serde_of c_stored_snapshot\<rparr>"

lemma c_byte_total [total_laws]: "codec_total c_byte"
  by (simp add: codec_total_def c_byte_def)

lemma kv_codecs_total: "serde_total (sd_kvs kv_codecs)" "serde_total (sd_snapshot kv_codecs)"
  by (simp_all add: kv_codecs_def c_stored_snapshot_def c_snapshot_meta_def c_stored_membership_def c_kvs_def
      c_log_id_def c_leader_id_def c_membership_def total_laws serde_of_total)

interpretation mem_sm: state_machine_db mem_rocks fst snd kv_codecs
  by unfold_locales (simp_all add: kv_codecs_def serde_of_ok codec_laws)

section \<open>Properties\<close>

text \<open>
  Applying a stream of entries refines the abstract store: the map of keys becomes the one
  the entries describe, in order; the last applied log id and the membership are those of the last
  entry and of the last membership entry; every responder gets the response of its entry; and an
  error of the stream ends the application after the entries before it.
\<close>

theorem apply_refines_store:
  assumes "bt_wf kvs" "rest = [] \<or> (\<exists>err more. rest = Inl err # more)"
  shows "\<exists>kvs'. sm_apply (map Inr xs @ rest) sm kvs =
      ((case rest of Inl err # _ \<Rightarrow> Inl err | _ \<Rightarrow> Inr ()), responses_of xs,
       sm\<lparr>smd_last_applied_log_id := (if xs = [] then smd_last_applied_log_id sm else Some (e_log_id (fst (last xs)))),
          smd_last_membership := membership_after (map fst xs) (smd_last_membership sm)\<rparr>, kvs')
    \<and> bt_wf kvs' \<and> bt_get kvs' = kv_after (map fst xs) (bt_get kvs)"
  by (rule sm_apply_spec[OF assms])

definition example_sm :: state_machine where
  "example_sm = \<lparr>smd_last_applied_log_id = None, smd_last_membership = stored_membership_default,
     sms_snapshot_idx = 0\<rparr>"

theorem apply_refines_store_witness:
  "\<exists>kvs'. sm_apply [Inr (example_entry 1 (Normal (Put ''a'' ''1'')), Some 7),
        Inr (example_entry 2 (Normal (Del ''b'')), Some 8), Inl (IoOther ''closed'')] example_sm [(''b'', ''0'')]
      = (Inl (IoOther ''closed''), [(7, Response (Some ''1'')), (8, Response (Some ''Ok''))],
         example_sm\<lparr>smd_last_applied_log_id := Some (LogId (LeaderId 1 1) 2)\<rparr>, kvs')
    \<and> bt_get kvs' = [''a'' \<mapsto> ''1'']"
  using apply_refines_store[of "[(''b'', ''0'')]" "[Inl (IoOther ''closed'')]"
      "[(example_entry 1 (Normal (Put ''a'' ''1'')), Some 7), (example_entry 2 (Normal (Del ''b'')), Some 8)]" example_sm]
  by (simp add: bt_wf_def responses_of_def membership_after_def kv_after_def entry_get_membership_def
      example_entry_def entry_new_def example_sm_def fun_eq_iff)

text \<open>
  C28. A snapshot that was received and installed is the state from then on: the map is the one
  the snapshot encodes, applied log id and membership are those of its metadata, it is the
  current snapshot, and a restart after a crash restores exactly that state.
  The log and the vote are not touched.
\<close>

theorem install_snapshot_survives_restart:
  assumes "state_machine_db R ab dur S" "ab (kw_db w) ''store'' \<noteq> None"
    "sm_install_snapshot R S meta data sm w = Some (Inr (), sm', w')"
    "ab d2 = dur (kw_db w')"
  shows "\<exists>kvs. from_slice (sd_kvs S) data = Inr kvs \<and> kw_kvs w' = kvs
    \<and> sm_applied_state sm' = (snap_last_log_id meta, snap_last_membership meta)
    \<and> (\<exists>r. sm_get_current_snapshot R S w' = Some r \<and> (\<forall>x. r = Inr x \<longrightarrow> x = Some \<lparr>ss_meta = meta, ss_data = data\<rparr>))
    \<and> (\<exists>r. sm_new R S d2 = Some r \<and> (\<forall>x. r = Inr x \<longrightarrow>
          x = (sm'\<lparr>sms_snapshot_idx := 0\<rparr>, \<lparr>kw_kvs = kvs, kw_db = d2\<rparr>)))
    \<and> (\<forall>cf. cf \<noteq> ''store'' \<longrightarrow> ab (kw_db w') cf = ab (kw_db w) cf)"
proof -
  let ?snap = "\<lparr>ss_meta = meta, ss_data = data\<rparr>"
  obtain kvs where k: "from_slice (sd_kvs S) data = Inr kvs"
    using assms(3) by (auto simp: sm_install_snapshot_def sm_update_state_machine_def Let_def split: sum.splits)
  have sm': "sm' = sm\<lparr>smd_last_applied_log_id := snap_last_log_id meta, smd_last_membership := snap_last_membership meta\<rparr>"
    and w': "kw_kvs w' = kvs"
    and s: "sm_set_current_snapshot R S ?snap (kw_db w) = Some (Inr (), kw_db w')"
    using assms(3) k by (auto simp: sm_install_snapshot_def sm_update_state_machine_def Let_def bind_eq_Some_conv)
  note p = state_machine_db.set_current_snapshot_rep[OF assms(1), OF s assms(2)]
  have h: "snapshot_held (ab (kw_db w')) S ?snap" "snapshot_held (ab d2) S ?snap"
    using p assms(4) by simp_all
  have "from_slice (sd_kvs S) (ss_data ?snap) = Inr kvs" by (simp add: k)
  note n = state_machine_db.new_rep[OF assms(1), OF h(2) this]
  have "restored ?snap = sm'\<lparr>sms_snapshot_idx := 0\<rparr>" by (simp add: restored_def sm')
  with n have new: "\<exists>r. sm_new R S d2 = Some r \<and> (\<forall>x. r = Inr x \<longrightarrow>
      x = (sm'\<lparr>sms_snapshot_idx := 0\<rparr>, \<lparr>kw_kvs = kvs, kw_db = d2\<rparr>))" by simp
  have cur: "\<exists>r. sm_get_current_snapshot R S w' = Some r \<and> (\<forall>x. r = Inr x \<longrightarrow> x = Some ?snap)"
    unfolding sm_get_current_snapshot_def by (rule state_machine_db.get_current_snapshot_rep[OF assms(1), OF h(1)])
  have "sm_applied_state sm' = (snap_last_log_id meta, snap_last_membership meta)"
    by (simp add: sm_applied_state_def sm')
  with k w' new cur conjunct2[OF conjunct2[OF p]] show ?thesis by blast
qed

definition example_meta :: snapshot_meta where
  "example_meta = \<lparr>snap_last_log_id = Some (LogId (LeaderId 1 1) 5), snap_last_membership = stored_membership_default,
     snap_id = ''s''\<rparr>"

definition example_world :: "(mem_content \<times> mem_content) kv_world" where
  "example_world = \<lparr>kw_kvs = [(''old'', ''x'')], kw_db = mem_example\<rparr>"

definition example_data :: bytes where
  "example_data = the (enc c_kvs [(''a'', ''1'')])"

lemma c_byte_list: "enc_many (enc c_byte) bs = Some bs"
  by (induction bs) (simp_all add: c_byte_def)

lemmas kv_codec_eval = kv_codecs_def c_stored_snapshot_def c_snapshot_meta_def c_stored_membership_def
  c_option_def c_kvs_def c_byte_list codec_eval

lemma example_data_decodes: "from_slice (sd_kvs kv_codecs) example_data = Inr [(''a'', ''1'')]"
proof -
  obtain b where b: "enc c_kvs [(''a'', ''1'')] = Some b" by (simp add: kv_codec_eval)
  then have "to_vec (sd_kvs kv_codecs) [(''a'', ''1'')] = Inr b" by (simp add: kv_codecs_def serde_of_def)
  from serde_okD[OF mem_sm.kvs_codec this] show ?thesis unfolding example_data_def b by simp
qed

theorem install_snapshot_survives_restart_witness:
  "\<exists>w' sm'. sm_install_snapshot mem_rocks kv_codecs example_meta example_data example_sm example_world
       = Some (Inr (), sm', w')
     \<and> kw_kvs w' = [(''a'', ''1'')] \<and> smd_last_applied_log_id sm' = Some (LogId (LeaderId 1 1) 5)"
proof -
  obtain b where b: "to_vec (sd_snapshot kv_codecs) \<lparr>ss_meta = example_meta, ss_data = example_data\<rparr> = Inr b"
    using kv_codecs_total(2) by (auto simp: serde_total_def)
  obtain sm' w' where i: "sm_install_snapshot mem_rocks kv_codecs example_meta example_data example_sm example_world
       = Some (Inr (), sm', w')"
    using example_data_decodes b
    by (simp add: sm_install_snapshot_def sm_update_state_machine_def sm_set_current_snapshot_def mem_rocks_def
        example_world_def mem_example_def Let_def)
  have "fst (kw_db example_world) ''store'' \<noteq> None" by (simp add: example_world_def mem_example_def)
  from install_snapshot_survives_restart[OF mem_sm.state_machine_db_axioms this i, of "(snd (kw_db w'), snd (kw_db w'))"]
  show ?thesis using i example_data_decodes by (auto simp: sm_applied_state_def example_meta_def)
qed

text \<open>
  C29. A snapshot built by a builder whose state machine has meanwhile applied more entries has the
  metadata of the moment the builder was made and the data of the moment it is built,
  because the clone shares the map. Applying the entries again on top of that data
  changes nothing, so the replica that installs it converges, but until then it shows entries
  beyond the last log id of the snapshot.
\<close>

theorem snapshot_of_shared_map:
  assumes "state_machine_db R ab dur S" "bt_wf (kw_kvs w)"
    "sm_get_snapshot_builder sm = Some (sm1, builder)"
    "sm_apply (map Inr xs) sm1 (kw_kvs w) = (Inr (), sent, sm2, kvs2)"
    "sm_build_snapshot R S builder (w\<lparr>kw_kvs := kvs2\<rparr>) = Some (Inr snap, w')"
  shows "snap_last_log_id (ss_meta snap) = smd_last_applied_log_id sm
    \<and> snap_last_membership (ss_meta snap) = smd_last_membership sm
    \<and> from_slice (sd_kvs S) (ss_data snap) = Inr kvs2
    \<and> bt_get kvs2 = kv_after (map fst xs) (bt_get (kw_kvs w))
    \<and> (\<exists>sent' sm'. sm_apply (map Inr xs) (restored snap) kvs2 = (Inr (), sent', sm', kvs2))"
proof -
  have b: "builder = sm\<lparr>sms_snapshot_idx := sms_snapshot_idx sm + 1\<rparr>"
    using assms(3) by (auto simp: sm_get_snapshot_builder_def Let_def)
  have s: "to_vec (sd_kvs S) kvs2 = Inr (ss_data snap)
      \<and> ss_meta snap = \<lparr>snap_last_log_id = smd_last_applied_log_id builder,
          snap_last_membership = smd_last_membership builder, snap_id = sm_snapshot_id builder\<rparr>"
  proof -
    obtain j where j: "to_vec (sd_kvs S) kvs2 = Inr j"
      using assms(5) by (auto simp: sm_build_snapshot_def split: sum.splits)
    with assms(5) obtain r d where "sm_set_current_snapshot R S
        \<lparr>ss_meta = \<lparr>snap_last_log_id = smd_last_applied_log_id builder,
          snap_last_membership = smd_last_membership builder, snap_id = sm_snapshot_id builder\<rparr>, ss_data = j\<rparr>
        (kw_db w) = Some (r, d)"
      by (auto simp: sm_build_snapshot_def bind_eq_Some_conv Let_def)
    with assms(5) j show ?thesis
      by (cases r) (auto simp: sm_build_snapshot_def)
  qed
  obtain kvs' where k: "sm_apply (map Inr xs @ []) sm1 (kw_kvs w) = (Inr (), responses_of xs, sm2, kvs')"
    "bt_wf kvs'" "bt_get kvs' = kv_after (map fst xs) (bt_get (kw_kvs w))"
    using sm_apply_spec[OF assms(2), of "[]" xs sm1] assms(4) by auto
  then have kvs2: "kvs' = kvs2" using assms(4) by simp
  obtain kvs3 sent' sm' where r: "sm_apply (map Inr xs @ []) (restored snap) kvs2 = (Inr (), sent', sm', kvs3)"
    "bt_wf kvs3" "bt_get kvs3 = kv_after (map fst xs) (bt_get kvs2)"
    using sm_apply_spec[of kvs2 "[]" xs "restored snap"] k(2) kvs2 by auto
  have "bt_get kvs3 = bt_get kvs2"
    using r(3) k(3) kvs2 kv_after_replay[of "map fst xs" "[]" "bt_get (kw_kvs w)"] by simp
  then have "kvs3 = kvs2" using bt_ext[OF r(2)] k(2) kvs2 by simp
  then show ?thesis
    using s b r(1) k(3) kvs2 serde_okD[OF state_machine_db.kvs_codec[OF assms(1)]] by auto
qed

theorem snapshot_of_shared_map_witness:
  "\<exists>snap w'. sm_build_snapshot mem_rocks kv_codecs (example_sm\<lparr>sms_snapshot_idx := 1\<rparr>)
       (example_world\<lparr>kw_kvs := [(''a'', ''1''), (''old'', ''x'')]\<rparr>) = Some (Inr snap, w')
     \<and> snap_last_log_id (ss_meta snap) = None
     \<and> from_slice (sd_kvs kv_codecs) (ss_data snap) = Inr [(''a'', ''1''), (''old'', ''x'')]"
proof -
  let ?sm = "example_sm\<lparr>sms_snapshot_idx := 1\<rparr>" and ?kvs = "[(''a'', ''1''), (''old'', ''x'')]"
  have g: "sm_get_snapshot_builder example_sm = Some (?sm, ?sm)"
    by (simp add: sm_get_snapshot_builder_def example_sm_def Let_def)
  have a: "sm_apply (map Inr [(example_entry 0 (Normal (Put ''a'' ''1'')), None)]) ?sm (kw_kvs example_world)
      = (Inr (), [], ?sm\<lparr>smd_last_applied_log_id := Some (LogId (LeaderId 1 1) 0)\<rparr>, ?kvs)"
    by (simp add: example_world_def example_entry_def entry_new_def)
  have wf: "bt_wf (kw_kvs example_world)" by (simp add: example_world_def bt_wf_def)
  obtain snap w' where b: "sm_build_snapshot mem_rocks kv_codecs ?sm (example_world\<lparr>kw_kvs := ?kvs\<rparr>) = Some (Inr snap, w')"
    by (simp add: sm_build_snapshot_def sm_set_current_snapshot_def mem_rocks_def example_sm_def sm_snapshot_id_def
        example_world_def mem_example_def kv_codec_eval stored_membership_default_def membership_default_def
        show_nat.simps)
  from snapshot_of_shared_map[OF mem_sm.state_machine_db_axioms wf g a b] show ?thesis
    using b by (auto simp: example_sm_def)
qed

end
