(* ===== verification/MemStore.thy ===== *)
theory MemStore
imports StorageHelper KvStateMachine
begin

text \<open>
  \<^verbatim>\<open>stores/memstore/src/lib.rs\<close>: the log store and state machine in memory that the tests of openraft
  run on. It saves the committed log id, so a node that lost its state machine gets it back from the
  log. The JSON encoder is a parameter; \<open>mem_json\<close> states what is expected of it, and the store is
  proved to keep the contract \<open>raft_store\<close>. A blocked operation only sleeps, so the durations are kept
  and have no effect.
\<close>

section \<open>The data\<close>

record client_request =
  cr_client :: string
  cr_serial :: nat
  cr_status :: string

datatype client_response = ClientResponse "string option"

definition make_request :: "string \<Rightarrow> nat \<Rightarrow> client_request" where
  "make_request client_id serial =
     \<lparr>cr_client = client_id, cr_serial = serial, cr_status = ''request-'' @ show_nat serial\<rparr>"

record mem_snapshot =
  msn_meta :: snapshot_meta
  msn_data :: bytes

record mem_sm =
  mss_last_applied_log :: "log_id option"
  mss_last_membership :: stored_membership
  mss_client_status :: "(string, string) bt_map"

definition mem_sm_default :: mem_sm where
  "mem_sm_default = \<lparr>mss_last_applied_log = None, mss_last_membership = stored_membership_default,
     mss_client_status = []\<rparr>"

datatype block_operation = DelayBuildingSnapshot | BuildSnapshotOp | PurgeLogOp

text \<open>The derived order is the order of declaration.\<close>

fun block_rank :: "block_operation \<Rightarrow> nat" where
  "block_rank DelayBuildingSnapshot = 0"
| "block_rank BuildSnapshotOp = 1"
| "block_rank PurgeLogOp = 2"

instantiation block_operation :: linorder
begin
definition less_eq_block_operation :: "block_operation \<Rightarrow> block_operation \<Rightarrow> bool" where
  "less_eq_block_operation a b = (block_rank a \<le> block_rank b)"
definition less_block_operation :: "block_operation \<Rightarrow> block_operation \<Rightarrow> bool" where
  "less_block_operation a b = (block_rank a < block_rank b)"
instance
proof
  fix a b :: block_operation
  show "a \<le> b \<Longrightarrow> b \<le> a \<Longrightarrow> a = b"
    by (cases a; cases b) (simp_all add: less_eq_block_operation_def)
qed (auto simp: less_eq_block_operation_def less_block_operation_def)
end

type_synonym block_config = "(block_operation, nat) bt_map"

definition set_blocking :: "block_operation \<Rightarrow> nat \<Rightarrow> block_config \<Rightarrow> block_config" where
  "set_blocking b d c = bt_insert b d c"

definition get_blocking :: "block_operation \<Rightarrow> block_config \<Rightarrow> nat option" where
  "get_blocking b c = bt_get c b"

definition clear_blocking :: "block_operation \<Rightarrow> block_config \<Rightarrow> block_config" where
  "clear_blocking b c = bt_remove b c"

text \<open>The log holds the JSON text of every entry.\<close>

record mem_log_store =
  mls_last_purged_log_id :: "log_id option"
  mls_enable_saving_committed :: bool
  mls_committed :: "log_id option"
  mls_log :: "(nat, bytes) bt_map"
  mls_vote :: "raft_vote option"

definition mls_new :: mem_log_store where
  "mls_new = \<lparr>mls_last_purged_log_id = None, mls_enable_saving_committed = True, mls_committed = None,
     mls_log = [], mls_vote = None\<rparr>"

record mem_state_machine =
  msm_sm :: mem_sm
  msm_allow_build_snapshot :: bool
  msm_snapshot_idx :: nat
  msm_current_snapshot :: "mem_snapshot option"
  msm_builder_count :: "64 word"

definition msm_new :: mem_state_machine where
  "msm_new = \<lparr>msm_sm = mem_sm_default, msm_allow_build_snapshot = True, msm_snapshot_idx = 0,
     msm_current_snapshot = None, msm_builder_count = 0\<rparr>"

text \<open>The two stores and the block configuration they share.\<close>

record mem_store =
  mw_log :: mem_log_store
  mw_sm :: mem_state_machine
  mw_block :: block_config

definition new_mem_store :: mem_store where
  "new_mem_store = \<lparr>mw_log = mls_new, mw_sm = msm_new, mw_block = []\<rparr>"

definition msm_set_allow_build_snapshot :: "bool \<Rightarrow> mem_state_machine \<Rightarrow> mem_state_machine" where
  "msm_set_allow_build_snapshot allowed m = m\<lparr>msm_allow_build_snapshot := allowed\<rparr>"

definition take_builder_count :: "mem_state_machine \<Rightarrow> 64 word \<times> mem_state_machine" where
  "take_builder_count m = (msm_builder_count m, m\<lparr>msm_builder_count := 0\<rparr>)"

definition drop_snapshot :: "mem_state_machine \<Rightarrow> mem_state_machine" where
  "drop_snapshot m = m\<lparr>msm_current_snapshot := None\<rparr>"

definition clear_state_machine :: "mem_state_machine \<Rightarrow> mem_state_machine" where
  "clear_state_machine m = m\<lparr>msm_sm := mem_sm_default\<rparr>"

record mem_serde =
  mj_entry :: "client_request log_entry serde"
  mj_sm :: "mem_sm serde"
  mj_utf8 :: "bytes \<Rightarrow> bool"

section \<open>The log store\<close>

fun decode_entries :: "'e serde \<Rightarrow> bytes list \<Rightarrow> 'e list io" where
  "decode_entries J [] = Inr []"
| "decode_entries J (b # bs) = (case from_slice J b of
       Inl e \<Rightarrow> Inl (IoInvalidData e)
     | Inr ent \<Rightarrow> (case decode_entries J bs of Inl e \<Rightarrow> Inl e | Inr es \<Rightarrow> Inr (ent # es)))"

text \<open>\<^verbatim>\<open>BTreeMap::range\<close> panics when the start is greater than the end.\<close>

definition mls_try_get_log_entries :: "mem_serde \<Rightarrow> nat \<Rightarrow> nat \<Rightarrow> mem_log_store \<Rightarrow> client_request log_entry list io panics" where
  "mls_try_get_log_entries J a b m = do {
     ensure (a \<le> b);
     Some (decode_entries (mj_entry J) (map snd (filter (\<lambda>kv. a \<le> fst kv \<and> fst kv < b) (mls_log m)))) }"

definition mls_read_vote :: "mem_log_store \<Rightarrow> raft_vote option io panics" where
  "mls_read_vote m = Some (Inr (mls_vote m))"

definition mls_get_log_state :: "mem_serde \<Rightarrow> mem_log_store \<Rightarrow> log_state io panics" where
  "mls_get_log_state J m = Some (case
       (case last_opt (mls_log m) of
          None \<Rightarrow> Inr None
        | Some (_, serialized) \<Rightarrow> (case from_slice (mj_entry J) serialized of
              Inl e \<Rightarrow> Inl (IoInvalidData e) | Inr ent \<Rightarrow> Inr (Some (e_log_id ent)))) of
       Inl e \<Rightarrow> Inl e
     | Inr newest \<Rightarrow> Inr \<lparr>lst_last_purged_log_id = mls_last_purged_log_id m,
         lst_last_log_id = (case newest of None \<Rightarrow> mls_last_purged_log_id m | Some x \<Rightarrow> Some x)\<rparr>)"

definition mls_save_vote :: "raft_vote \<Rightarrow> mem_log_store \<Rightarrow> unit io \<times> mem_log_store" where
  "mls_save_vote v m = (Inr (), m\<lparr>mls_vote := Some v\<rparr>)"

definition mls_save_committed :: "log_id option \<Rightarrow> mem_log_store \<Rightarrow> unit io \<times> mem_log_store" where
  "mls_save_committed committed m =
     (Inr (), if mls_enable_saving_committed m then m\<lparr>mls_committed := committed\<rparr> else m)"

definition mls_read_committed :: "mem_log_store \<Rightarrow> log_id option io panics" where
  "mls_read_committed m = Some (Inr (if mls_enable_saving_committed m then mls_committed m else None))"

text \<open>The callback is completed when all entries are in the map; an error leaves those before it there.\<close>

fun mls_append :: "mem_serde \<Rightarrow> client_request log_entry list \<Rightarrow> mem_log_store \<Rightarrow> unit io \<times> mem_log_store" where
  "mls_append J [] m = (Inr (), m)"
| "mls_append J (ent # es) m = (case to_vec (mj_entry J) ent of
       Inl e \<Rightarrow> (Inl (IoInvalidData e), m)
     | Inr s \<Rightarrow> mls_append J es (m\<lparr>mls_log := bt_insert (e_index ent) s (mls_log m)\<rparr>))"

definition remove_keys :: "nat list \<Rightarrow> (nat, bytes) bt_map \<Rightarrow> (nat, bytes) bt_map" where
  "remove_keys ks m = fold bt_remove ks m"

definition mls_truncate :: "log_id \<Rightarrow> mem_log_store \<Rightarrow> unit io \<times> mem_log_store" where
  "mls_truncate l m = (Inr (), m\<lparr>mls_log := remove_keys (filter (\<lambda>k. lg_index l \<le> k) (bt_keys (mls_log m))) (mls_log m)\<rparr>)"

definition mls_purge :: "log_id \<Rightarrow> mem_log_store \<Rightarrow> (unit io \<times> mem_log_store) panics" where
  "mls_purge l m = do {
     ensure (mls_last_purged_log_id m \<le> Some l);
     let m1 = m\<lparr>mls_last_purged_log_id := Some l\<rparr>;
     Some (Inr (), m1\<lparr>mls_log := remove_keys (filter (\<lambda>k. k \<le> lg_index l) (bt_keys (mls_log m1))) (mls_log m1)\<rparr>) }"

section \<open>The state machine\<close>

definition msm_applied_state :: "mem_state_machine \<Rightarrow> (log_id option \<times> stored_membership) io panics" where
  "msm_applied_state m = Some (Inr (mss_last_applied_log (msm_sm m), mss_last_membership (msm_sm m)))"

fun msm_apply_payload :: "log_id \<Rightarrow> client_request payload \<Rightarrow> mem_sm \<Rightarrow> client_response \<times> mem_sm" where
  "msm_apply_payload l Blank sm = (ClientResponse None, sm)"
| "msm_apply_payload l (Normal r) sm = (ClientResponse (bt_get (mss_client_status sm) (cr_client r)),
     sm\<lparr>mss_client_status := bt_insert (cr_client r) (cr_status r) (mss_client_status sm)\<rparr>)"
| "msm_apply_payload l (MembershipPayload mem) sm = (ClientResponse None,
     sm\<lparr>mss_last_membership := \<lparr>sm_log_id = Some l, sm_membership = mem\<rparr>\<rparr>)"

text \<open>The entries come with their responders (numbers of channels); the result carries what was sent.\<close>

fun msm_apply :: "(io_error + client_request log_entry \<times> nat option) list \<Rightarrow> mem_sm
    \<Rightarrow> unit io \<times> (nat \<times> client_response) list \<times> mem_sm" where
  "msm_apply [] sm = (Inr (), [], sm)"
| "msm_apply (Inl e # rest) sm = (Inl e, [], sm)"
| "msm_apply (Inr (ent, responder) # rest) sm =
     (let (resp, sm1) = msm_apply_payload (e_log_id ent) (e_payload ent)
            (sm\<lparr>mss_last_applied_log := Some (e_log_id ent)\<rparr>);
          (r, sent, sm2) = msm_apply rest sm1
      in (r, (case responder of Some tx \<Rightarrow> [(tx, resp)] | None \<Rightarrow> []) @ sent, sm2))"

text \<open>The builder is the state machine itself; whether there is one is the result.\<close>

definition msm_try_create_snapshot_builder :: "bool \<Rightarrow> mem_state_machine \<Rightarrow> bool \<times> mem_state_machine" where
  "msm_try_create_snapshot_builder force m =
     (force \<or> msm_allow_build_snapshot m, m\<lparr>msm_builder_count := msm_builder_count m + 1\<rparr>)"

definition msm_snapshot_id :: "log_id option \<Rightarrow> nat \<Rightarrow> string" where
  "msm_snapshot_id last_log idx = (case last_log of
       Some l \<Rightarrow> show_leader_id (lg_leader l) @ ''-'' @ show_nat (lg_index l) @ ''-'' @ show_nat idx
     | None \<Rightarrow> ''--'' @ show_nat idx)"

definition msm_build_snapshot :: "mem_serde \<Rightarrow> mem_state_machine
    \<Rightarrow> ((snapshot_meta \<times> bytes) io \<times> mem_state_machine) panics" where
  "msm_build_snapshot J m = (case to_vec (mj_sm J) (msm_sm m) of
       Inl e \<Rightarrow> Some (Inl (IoInvalidData e), m)
     | Inr data \<Rightarrow> do {
         ensure (msm_snapshot_idx m < 2 ^ 64 - 1);
         let idx = msm_snapshot_idx m + 1;
         let meta = \<lparr>snap_last_log_id = mss_last_applied_log (msm_sm m),
           snap_last_membership = mss_last_membership (msm_sm m),
           snap_id = msm_snapshot_id (mss_last_applied_log (msm_sm m)) idx\<rparr>;
         Some (Inr (meta, data), m\<lparr>msm_snapshot_idx := idx,
           msm_current_snapshot := Some \<lparr>msn_meta = meta, msn_data = data\<rparr>\<rparr>) })"

definition msm_install_snapshot :: "mem_serde \<Rightarrow> snapshot_meta \<Rightarrow> bytes \<Rightarrow> mem_state_machine
    \<Rightarrow> (unit io \<times> mem_state_machine) panics" where
  "msm_install_snapshot J meta snapshot m = do {
     ensure (mj_utf8 J snapshot);
     Some (case from_slice (mj_sm J) snapshot of
       Inl e \<Rightarrow> (Inl (IoInvalidData e), m)
     | Inr new_sm \<Rightarrow> (Inr (), m\<lparr>msm_sm := new_sm,
         msm_current_snapshot := Some \<lparr>msn_meta = meta, msn_data = snapshot\<rparr>\<rparr>)) }"

definition msm_get_current_snapshot :: "mem_state_machine \<Rightarrow> (snapshot_meta \<times> bytes) option io panics" where
  "msm_get_current_snapshot m =
     Some (Inr (map_option (\<lambda>s. (msn_meta s, msn_data s)) (msm_current_snapshot m)))"

section \<open>The stores as a storage\<close>

definition mem_storage :: "mem_serde \<Rightarrow> (mem_store, bytes, client_request) storage" where
  "mem_storage J = \<lparr>
     st_read_vote = (\<lambda>w. mls_read_vote (mw_log w)),
     st_read_committed = (\<lambda>w. mls_read_committed (mw_log w)),
     st_get_log_state = (\<lambda>w. mls_get_log_state J (mw_log w)),
     st_try_get_log_entries = (\<lambda>a b w. mls_try_get_log_entries J a b (mw_log w)),
     st_purge = (\<lambda>l w. do { (r, m) \<leftarrow> mls_purge l (mw_log w); Some (r, w\<lparr>mw_log := m\<rparr>) }),
     st_applied_state = (\<lambda>w. msm_applied_state (mw_sm w)),
     st_apply = (\<lambda>es w. let (r, _, sm) = msm_apply (map (\<lambda>ent. Inr (ent, None)) es) (msm_sm (mw_sm w))
        in Some (r, w\<lparr>mw_sm := (mw_sm w)\<lparr>msm_sm := sm\<rparr>\<rparr>)),
     st_get_current_snapshot = (\<lambda>w. msm_get_current_snapshot (mw_sm w)),
     st_install_snapshot = (\<lambda>meta d w. do {
        (r, m) \<leftarrow> msm_install_snapshot J meta d (mw_sm w); Some (r, w\<lparr>mw_sm := m\<rparr>) }),
     st_build_snapshot = (\<lambda>w. do {
        let (builder, m) = msm_try_create_snapshot_builder True (mw_sm w);
        ensure builder;
        (r, m') \<leftarrow> msm_build_snapshot J m;
        Some (r, w\<lparr>mw_sm := m'\<rparr>) })\<rparr>"

section \<open>The contract\<close>

definition mem_step :: "client_request log_entry \<Rightarrow> mem_sm \<Rightarrow> mem_sm" where
  "mem_step ent sm = snd (msm_apply_payload (e_log_id ent) (e_payload ent) (sm\<lparr>mss_last_applied_log := Some (e_log_id ent)\<rparr>))"

definition mem_applied :: "mem_sm \<Rightarrow> log_id option \<times> stored_membership" where
  "mem_applied sm = (mss_last_applied_log sm, mss_last_membership sm)"

definition mem_decode :: "mem_serde \<Rightarrow> bytes \<Rightarrow> mem_sm" where
  "mem_decode J d = (case from_slice (mj_sm J) d of Inr sm \<Rightarrow> sm | Inl _ \<Rightarrow> mem_sm_default)"

definition decoded :: "'e serde \<Rightarrow> bytes list \<Rightarrow> 'e list" where
  "decoded J bs = List.map_filter (\<lambda>b. case from_slice J b of Inr e \<Rightarrow> Some e | Inl _ \<Rightarrow> None) bs"

definition mem_view :: "mem_serde \<Rightarrow> mem_store \<Rightarrow> (client_request, mem_sm, bytes) store_view" where
  "mem_view J w = \<lparr>sv_vote = mls_vote (mw_log w),
     sv_committed = (if mls_enable_saving_committed (mw_log w) then mls_committed (mw_log w) else None),
     sv_purged = mls_last_purged_log_id (mw_log w),
     sv_log = decoded (mj_entry J) (map snd (mls_log (mw_log w))),
     sv_machine = msm_sm (mw_sm w),
     sv_snapshot = map_option (\<lambda>s. (msn_meta s, msn_data s)) (msm_current_snapshot (mw_sm w))\<rparr>"

definition entry_at :: "mem_serde \<Rightarrow> nat \<times> bytes \<Rightarrow> bool" where
  "entry_at J kv = (\<exists>e. from_slice (mj_entry J) (snd kv) = Inr e \<and> e_index e = fst kv)"

definition mem_inv :: "mem_serde \<Rightarrow> mem_store \<Rightarrow> bool" where
  "mem_inv J w \<longleftrightarrow> bt_wf (mls_log (mw_log w))
     \<and> (\<forall>kv \<in> set (mls_log (mw_log w)). entry_at J kv \<and> next_index (mls_last_purged_log_id (mw_log w)) \<le> fst kv)
     \<and> (\<forall>s. msm_current_snapshot (mw_sm w) = Some s \<longrightarrow> mj_utf8 J (msn_data s)
          \<and> (\<exists>sm. from_slice (mj_sm J) (msn_data s) = Inr sm
               \<and> mem_applied sm = (snap_last_log_id (msn_meta s), snap_last_membership (msn_meta s))))"

definition mem_may_build :: "mem_store \<Rightarrow> bool" where
  "mem_may_build w \<longleftrightarrow> msm_snapshot_idx (mw_sm w) < 2 ^ 64 - 1"

locale mem_json =
  fixes J :: mem_serde
  assumes entry_ok: "serde_ok (mj_entry J)" and entry_total: "serde_total (mj_entry J)"
    and sm_ok: "serde_ok (mj_sm J)" and sm_total: "serde_total (mj_sm J)"
    and utf8: "to_vec (mj_sm J) sm = Inr b \<Longrightarrow> mj_utf8 J b"

lemma remove_keys_wf: "bt_wf m \<Longrightarrow> bt_wf (remove_keys ks m)"
  unfolding remove_keys_def by (induction ks arbitrary: m) (simp_all add: bt_remove_wf)

lemma bt_get_remove_keys: "bt_wf m \<Longrightarrow> bt_get (remove_keys ks m) k = (if k \<in> set ks then None else bt_get m k)"
  unfolding remove_keys_def by (induction ks arbitrary: m) (auto simp: bt_remove_wf bt_get_remove)

lemma remove_keys_filter:
  assumes "bt_wf m"
  shows "remove_keys (filter P (bt_keys m)) m = filter (\<lambda>kv. \<not> P (fst kv)) m"
proof -
  have "remove_keys (filter P (bt_keys m)) m = bt_retain (\<lambda>k _. \<not> P k) m"
    using assms
    by (intro bt_ext)
      (auto simp: remove_keys_wf bt_retain_wf bt_get_remove_keys bt_get_retain in_bt_keys_iff split: option.splits)
  then show ?thesis by (simp add: bt_retain_def split_beta')
qed

text \<open>The log as decoded from the map.\<close>

definition all_entries :: "mem_serde \<Rightarrow> (nat, bytes) bt_map \<Rightarrow> bool" where
  "all_entries J kvs \<longleftrightarrow> (\<forall>kv \<in> set kvs. entry_at J kv)"

lemma all_entries_simps [simp]:
  "all_entries J []" "all_entries J (kv # kvs) \<longleftrightarrow> entry_at J kv \<and> all_entries J kvs"
  "all_entries J (xs @ ys) \<longleftrightarrow> all_entries J xs \<and> all_entries J ys"
  by (auto simp: all_entries_def)

lemma all_entries_filter: "all_entries J kvs \<Longrightarrow> all_entries J (filter P kvs)"
  by (auto simp: all_entries_def)

lemma decoded_simps [simp]:
  "decoded S [] = []"
  "from_slice S b = Inr e \<Longrightarrow> decoded S (b # bs) = e # decoded S bs"
  "decoded S (as @ bs) = decoded S as @ decoded S bs"
  by (simp_all add: decoded_def List.map_filter_def)

lemma decode_all:
  "all_entries J kvs \<Longrightarrow> decode_entries (mj_entry J) (map snd kvs) = Inr (decoded (mj_entry J) (map snd kvs))"
  by (induction kvs) (auto simp: entry_at_def)

lemma decoded_keys: "all_entries J kvs \<Longrightarrow> map e_index (decoded (mj_entry J) (map snd kvs)) = map fst kvs"
  by (induction kvs) (auto simp: entry_at_def)

lemma decoded_filter:
  "all_entries J kvs \<Longrightarrow> decoded (mj_entry J) (map snd (filter (\<lambda>kv. P (fst kv)) kvs))
     = filter (\<lambda>e. P (e_index e)) (decoded (mj_entry J) (map snd kvs))"
  by (induction kvs) (auto simp: entry_at_def)

lemma decoded_last:
  assumes "all_entries J (kvs @ [kv])"
  shows "\<exists>e. from_slice (mj_entry J) (snd kv) = Inr e \<and> decoded (mj_entry J) (map snd (kvs @ [kv])) = decoded (mj_entry J) (map snd kvs) @ [e]"
  using assms by (auto simp: entry_at_def)

lemma mem_inv_entries: "mem_inv J w \<Longrightarrow> all_entries J (mls_log (mw_log w))"
  by (simp add: mem_inv_def all_entries_def)

lemma msm_apply_steps:
  "msm_apply (map (\<lambda>ent. Inr (ent, None)) es) sm = (Inr (), [], fold mem_step es sm)"
  by (induction es arbitrary: sm) (simp_all add: mem_step_def split_beta Let_def)

context mem_json
begin

lemma log_state_view:
  assumes "mem_inv J w"
  shows "mls_get_log_state J (mw_log w) = Some (Inr
    \<lparr>lst_last_purged_log_id = sv_purged (mem_view J w), lst_last_log_id = sv_last (mem_view J w)\<rparr>)"
proof (cases "mls_log (mw_log w)" rule: rev_cases)
  case Nil
  then show ?thesis by (simp add: mls_get_log_state_def mem_view_def sv_last_def last_opt_def)
next
  case (snoc kvs kv)
  from decoded_last[OF mem_inv_entries[OF assms, unfolded snoc]] show ?thesis
    by (auto simp: mls_get_log_state_def mem_view_def sv_last_def last_opt_def snoc split: prod.split)
qed

lemma store_contract: "raft_store (mem_storage J) (mem_view J) (mem_inv J) mem_may_build mem_step mem_applied (mem_decode J)"
proof
  fix w assume inv: "mem_inv J w"
  note ents = mem_inv_entries[OF inv]
  show "sorted_wrt (<) (map e_index (sv_log (mem_view J w)))"
    using inv by (simp add: mem_view_def decoded_keys[OF ents] mem_inv_def bt_wf_def)
  show "st_read_vote (mem_storage J) w = Some (Inr (sv_vote (mem_view J w)))"
    by (simp add: mem_storage_def mls_read_vote_def mem_view_def)
  show "st_read_committed (mem_storage J) w = Some (Inr (sv_committed (mem_view J w)))"
    by (simp add: mem_storage_def mls_read_committed_def mem_view_def)
  show "st_get_log_state (mem_storage J) w = Some (Inr
    \<lparr>lst_last_purged_log_id = sv_purged (mem_view J w), lst_last_log_id = sv_last (mem_view J w)\<rparr>)"
    using log_state_view[OF inv] by (simp add: mem_storage_def)
  show "st_applied_state (mem_storage J) w = Some (Inr (mem_applied (sv_machine (mem_view J w))))"
    by (simp add: mem_storage_def msm_applied_state_def mem_view_def mem_applied_def)
  show "st_get_current_snapshot (mem_storage J) w = Some (Inr (sv_snapshot (mem_view J w)))"
    by (simp add: mem_storage_def msm_get_current_snapshot_def mem_view_def)
next
  fix w e assume inv: "mem_inv J w" and "e \<in> set (sv_log (mem_view J w))"
  then have "e_index e \<in> set (map fst (mls_log (mw_log w)))"
    unfolding decoded_keys[OF mem_inv_entries[OF inv], symmetric] by (simp add: mem_view_def)
  then show "next_index (sv_purged (mem_view J w)) \<le> e_index e"
    using inv by (auto simp: mem_inv_def mem_view_def)
next
  fix w :: mem_store and a b :: nat assume inv: "mem_inv J w" and "a \<le> b"
  then show "st_try_get_log_entries (mem_storage J) a b w = Some (Inr (entries_between a b (sv_log (mem_view J w))))"
    using decode_all[OF all_entries_filter[OF mem_inv_entries[OF inv]]]
      decoded_filter[OF mem_inv_entries[OF inv], of "\<lambda>i. a \<le> i \<and> i < b"]
    by (simp add: mem_storage_def mls_try_get_log_entries_def entries_between_def mem_view_def ensure_def)
next
  fix w l assume inv: "mem_inv J w" and l: "sv_purged (mem_view J w) \<le> Some l"
  let ?log = "filter (\<lambda>kv. lg_index l < fst kv) (mls_log (mw_log w))"
  let ?w = "w\<lparr>mw_log := (mw_log w)\<lparr>mls_last_purged_log_id := Some l, mls_log := ?log\<rparr>\<rparr>"
  have wf: "bt_wf (mls_log (mw_log w))" using inv by (simp add: mem_inv_def)
  have "st_purge (mem_storage J) l w = Some (Inr (), ?w)"
    using l remove_keys_filter[OF wf, of "\<lambda>k. k \<le> lg_index l"]
    by (simp add: mem_storage_def mls_purge_def mem_view_def ensure_def not_le)
  moreover have "mem_inv J ?w"
    using inv by (auto simp: mem_inv_def bt_wf_def sorted_wrt_map sorted_wrt_filter)
  moreover have "mem_view J ?w = (mem_view J w)\<lparr>sv_purged := Some l,
      sv_log := filter (\<lambda>e. lg_index l < e_index e) (sv_log (mem_view J w))\<rparr>"
    by (simp add: mem_view_def decoded_filter[OF mem_inv_entries[OF inv], of "\<lambda>i. lg_index l < i"])
  ultimately show "\<exists>w'. st_purge (mem_storage J) l w = Some (Inr (), w') \<and> mem_inv J w' \<and> (mem_may_build w \<longrightarrow> mem_may_build w')
      \<and> mem_view J w' = (mem_view J w)\<lparr>sv_purged := Some l, sv_log := filter (\<lambda>e. lg_index l < e_index e) (sv_log (mem_view J w))\<rparr>"
    by (intro exI[of _ ?w]) (simp add: mem_may_build_def)
next
  fix w es assume inv: "mem_inv J w"
  let ?w = "w\<lparr>mw_sm := (mw_sm w)\<lparr>msm_sm := fold mem_step es (msm_sm (mw_sm w))\<rparr>\<rparr>"
  have "st_apply (mem_storage J) es w = Some (Inr (), ?w)"
    by (simp add: mem_storage_def msm_apply_steps)
  moreover have "mem_inv J ?w" using inv by (simp add: mem_inv_def)
  ultimately show "\<exists>w'. st_apply (mem_storage J) es w = Some (Inr (), w') \<and> mem_inv J w' \<and> (mem_may_build w \<longrightarrow> mem_may_build w')
      \<and> mem_view J w' = (mem_view J w)\<lparr>sv_machine := fold mem_step es (sv_machine (mem_view J w))\<rparr>"
    by (intro exI[of _ ?w]) (simp add: mem_may_build_def mem_view_def)
next
  fix w m d assume inv: "mem_inv J w" and snap: "sv_snapshot (mem_view J w) = Some (m, d)"
  then obtain s sm where s: "msm_current_snapshot (mw_sm w) = Some s" "msn_meta s = m" "msn_data s = d"
    "mj_utf8 J d" "from_slice (mj_sm J) d = Inr sm" "mem_applied sm = (snap_last_log_id m, snap_last_membership m)"
    by (auto simp: mem_view_def mem_inv_def)
  show "mem_applied (mem_decode J d) = (snap_last_log_id m, snap_last_membership m)"
    using s by (simp add: mem_decode_def)
  let ?w = "w\<lparr>mw_sm := (mw_sm w)\<lparr>msm_sm := sm, msm_current_snapshot := Some \<lparr>msn_meta = m, msn_data = d\<rparr>\<rparr>\<rparr>"
  have "st_install_snapshot (mem_storage J) m d w = Some (Inr (), ?w)"
    using s by (simp add: mem_storage_def msm_install_snapshot_def ensure_def)
  moreover have "mem_inv J ?w" using inv s by (simp add: mem_inv_def)
  ultimately show "\<exists>w'. st_install_snapshot (mem_storage J) m d w = Some (Inr (), w') \<and> mem_inv J w'
      \<and> (mem_may_build w \<longrightarrow> mem_may_build w') \<and> mem_view J w' = (mem_view J w)\<lparr>sv_machine := mem_decode J d\<rparr>"
    using s by (intro exI[of _ ?w]) (simp add: mem_may_build_def mem_view_def mem_decode_def)
next
  fix w assume inv: "mem_inv J w" and idx: "mem_may_build w"
  obtain b where b: "to_vec (mj_sm J) (msm_sm (mw_sm w)) = Inr b" using sm_total by (auto simp: serde_total_def)
  define meta where "meta = \<lparr>snap_last_log_id = mss_last_applied_log (msm_sm (mw_sm w)),
    snap_last_membership = mss_last_membership (msm_sm (mw_sm w)),
    snap_id = msm_snapshot_id (mss_last_applied_log (msm_sm (mw_sm w))) (msm_snapshot_idx (mw_sm w) + 1)\<rparr>"
  let ?w = "w\<lparr>mw_sm := (mw_sm w)\<lparr>msm_builder_count := msm_builder_count (mw_sm w) + 1,
    msm_snapshot_idx := msm_snapshot_idx (mw_sm w) + 1, msm_current_snapshot := Some \<lparr>msn_meta = meta, msn_data = b\<rparr>\<rparr>\<rparr>"
  have "st_build_snapshot (mem_storage J) w = Some (Inr (meta, b), ?w)"
    using idx b by (simp add: mem_storage_def msm_try_create_snapshot_builder_def msm_build_snapshot_def
        mem_may_build_def ensure_def meta_def Let_def)
  moreover have "mem_inv J ?w"
    using inv utf8[OF b] serde_okD[OF sm_ok b] by (simp add: mem_inv_def meta_def mem_applied_def)
  moreover have "mem_decode J b = msm_sm (mw_sm w)" using serde_okD[OF sm_ok b] by (simp add: mem_decode_def)
  ultimately show "\<exists>m d w'. st_build_snapshot (mem_storage J) w = Some (Inr (m, d), w') \<and> mem_inv J w'
      \<and> mem_decode J d = sv_machine (mem_view J w) \<and> mem_view J w' = (mem_view J w)\<lparr>sv_snapshot := Some (m, d)\<rparr>"
    by (intro exI[of _ meta] exI[of _ b] exI[of _ ?w]) (simp add: mem_view_def)
next
  fix e :: "client_request log_entry" and m
  show "fst (mem_applied (mem_step e m)) = Some (e_log_id e)"
    by (cases "e_payload e") (simp_all add: mem_applied_def mem_step_def)
qed

end

sublocale mem_json \<subseteq> store: raft_store "mem_storage J" "mem_view J" "mem_inv J" mem_may_build mem_step mem_applied "mem_decode J"
  by (rule store_contract)

text \<open>The contract is met with a concrete encoder.\<close>

definition c_request_data :: "client_request codec" where
  "c_request_data = c_conv (\<lambda>r. (cr_client r, cr_serial r, cr_status r))
     (\<lambda>(c, n, t). \<lparr>cr_client = c, cr_serial = n, cr_status = t\<rparr>) (c_prod c_string (c_prod c_nat c_string))"

definition c_mem_payload :: "client_request payload codec" where
  "c_mem_payload = c_conv
     (\<lambda>p. case p of Blank \<Rightarrow> Inl () | Normal r \<Rightarrow> Inr (Inl r) | MembershipPayload m \<Rightarrow> Inr (Inr m))
     (\<lambda>s. case s of Inl _ \<Rightarrow> Blank | Inr (Inl r) \<Rightarrow> Normal r | Inr (Inr m) \<Rightarrow> MembershipPayload m)
     (c_sum c_unit (c_sum c_request_data c_membership))"

definition c_mem_entry :: "client_request log_entry codec" where
  "c_mem_entry = c_conv (\<lambda>e. (e_log_id e, e_payload e)) (\<lambda>(l, p). \<lparr>e_log_id = l, e_payload = p\<rparr>)
     (c_prod c_log_id c_mem_payload)"

definition c_mem_sm :: "mem_sm codec" where
  "c_mem_sm = c_conv (\<lambda>m. (mss_last_applied_log m, mss_last_membership m, mss_client_status m))
     (\<lambda>(l, m, k). \<lparr>mss_last_applied_log = l, mss_last_membership = m, mss_client_status = k\<rparr>)
     (c_prod (c_option c_log_id) (c_prod c_stored_membership c_kvs))"

lemma c_mem_ok [codec_laws]: "codec_ok c_request_data" "codec_ok c_mem_payload" "codec_ok c_mem_entry" "codec_ok c_mem_sm"
proof -
  show r: "codec_ok c_request_data"
    unfolding c_request_data_def by (rule c_conv_ok) (auto simp: codec_laws)
  show p: "codec_ok c_mem_payload"
    unfolding c_mem_payload_def by (rule c_conv_ok) (auto simp: codec_laws r split: payload.splits)
  show "codec_ok c_mem_entry"
    unfolding c_mem_entry_def by (rule c_conv_ok) (auto simp: codec_laws p)
  show "codec_ok c_mem_sm"
    unfolding c_mem_sm_def by (rule c_conv_ok) (auto simp: codec_laws)
qed

definition mem_codecs :: mem_serde where
  "mem_codecs = \<lparr>mj_entry = serde_of c_mem_entry, mj_sm = serde_of c_mem_sm, mj_utf8 = (\<lambda>_. True)\<rparr>"

lemma c_mem_total [total_laws]: "codec_total c_mem_entry" "codec_total c_mem_sm"
  by (simp_all add: total_laws c_mem_entry_def c_mem_payload_def c_request_data_def c_mem_sm_def c_log_id_def
      c_leader_id_def c_membership_def c_stored_membership_def c_kvs_def)

interpretation mem_store: mem_json mem_codecs
  by unfold_locales (simp_all add: mem_codecs_def serde_of_ok serde_of_total codec_laws total_laws)

end
