(* ===== verification/RuntimeQueues.thy ===== *)
theory RuntimeQueues
imports Prelude
begin

text \<open>
  Two small structures of the runtime task: \<^verbatim>\<open>core/client_responder_queue.rs\<close>, the responders of
  the clients that wait for a log index, and \<^verbatim>\<open>core/balancer.rs\<close>, which divides the messages
  handled in one round between the clients and the internal notifications.
\<close>

section \<open>The queue of client responders\<close>

type_synonym 'r responder_queue = "(nat \<times> 'r) list"

definition crq_push :: "nat \<Rightarrow> 'r \<Rightarrow> 'r responder_queue \<Rightarrow> 'r responder_queue panics" where
  "crq_push index r q = do {
     ensure (case last_opt q of Some (last_index, _) \<Rightarrow> index > last_index | None \<Rightarrow> True);
     Some (q @ [(index, r)]) }"

fun crq_extend :: "(nat \<times> 'r) list \<Rightarrow> 'r responder_queue \<Rightarrow> 'r responder_queue panics" where
  "crq_extend [] q = Some q"
| "crq_extend ((index, r) # rs) q = do { q' \<leftarrow> crq_push index r q; crq_extend rs q' }"

text \<open>
  \<^verbatim>\<open>partition_point\<close> of a sorted queue is the length of the prefix that satisfies the predicate.
  Both drains return what they remove and the rest.
\<close>

definition crq_drain_upto :: "nat \<Rightarrow> 'r responder_queue \<Rightarrow> (nat \<times> 'r) list \<times> 'r responder_queue" where
  "crq_drain_upto last_index q =
     (let end_pos = length (takeWhile (\<lambda>(index, _). index \<le> last_index) q)
      in (take end_pos q, drop end_pos q))"

definition crq_drain_from :: "nat \<Rightarrow> 'r responder_queue \<Rightarrow> (nat \<times> 'r) list \<times> 'r responder_queue" where
  "crq_drain_from from_index q =
     (let start_pos = (case bsearch fst from_index q of Inr i \<Rightarrow> i | Inl i \<Rightarrow> i)
      in (drop start_pos q, take start_pos q))"

definition crq_first_index :: "'r responder_queue \<Rightarrow> nat option" where
  "crq_first_index q = map_option fst (first_opt q)"

text \<open>The invariant: the indexes increase.\<close>

definition crq_wf :: "'r responder_queue \<Rightarrow> bool" where
  "crq_wf q \<longleftrightarrow> sorted_wrt (<) (map fst q)"

lemma crq_wf_Nil [simp]: "crq_wf []"
  by (simp add: crq_wf_def)

lemma crq_wf_append:
  "crq_wf (a @ b) \<longleftrightarrow> crq_wf a \<and> crq_wf b \<and> (\<forall>x \<in> set a. \<forall>y \<in> set b. fst x < fst y)"
  by (auto simp: crq_wf_def sorted_wrt_append)

lemma crq_wf_le_last:
  assumes "crq_wf q" "x \<in> set q"
  shows "fst x \<le> fst (last q)"
proof -
  obtain ys y where q: "q = ys @ [y]" using assms(2) by (cases q rule: rev_cases) auto
  then show ?thesis using assms by (auto simp: crq_wf_append intro: less_imp_le)
qed

lemma crq_push_wf: "crq_wf q \<Longrightarrow> crq_push i r q = Some q' \<Longrightarrow> crq_wf q'"
proof -
  assume wf: "crq_wf q" and p: "crq_push i r q = Some q'"
  then have q': "q' = q @ [(i, r)]" and l: "q \<noteq> [] \<Longrightarrow> fst (last q) < i"
    by (auto simp: crq_push_def last_opt_def split: if_splits)
  then show "crq_wf q'"
    using wf crq_wf_le_last[OF wf] by (fastforce simp: crq_wf_append crq_wf_def[of "[(i, r)]"])
qed

lemma crq_extend_wf: "crq_wf q \<Longrightarrow> crq_extend rs q = Some q' \<Longrightarrow> crq_wf q' \<and> q' = q @ rs"
proof (induction rs q rule: crq_extend.induct)
  case (2 i r rs q)
  then obtain q1 where "crq_push i r q = Some q1" "crq_extend rs q1 = Some q'"
    by (auto simp: bind_eq_Some_conv)
  moreover from this have "q1 = q @ [(i, r)]" by (auto simp: crq_push_def)
  ultimately show ?case using 2 crq_push_wf by fastforce
qed simp

lemma crq_drain_upto_split:
  assumes "crq_wf q" "crq_drain_upto l q = (a, b)"
  shows "a @ b = q \<and> (\<forall>x \<in> set a. fst x \<le> l) \<and> (\<forall>x \<in> set b. l < fst x)"
proof -
  let ?P = "\<lambda>x. fst x \<le> l"
  have P: "(\<lambda>(index, _). index \<le> l) = ?P" by (simp add: fun_eq_iff split_beta)
  have ab: "a = takeWhile ?P q" "b = dropWhile ?P q"
    using assms(2) by (auto simp: crq_drain_upto_def Let_def P takeWhile_eq_take[symmetric] dropWhile_eq_drop[symmetric])
  have ge: "\<forall>x \<in> set b. l < fst x"
  proof (cases b)
    case (Cons y ys)
    then have y: "l < fst y" using hd_dropWhile[of ?P q] ab by auto
    have "crq_wf (a @ y # ys)" using assms(1) ab Cons by simp
    then have "\<forall>x \<in> set ys. fst y < fst x" by (auto simp: crq_wf_def sorted_wrt_append)
    then show ?thesis using y Cons by auto
  qed simp
  have "\<forall>x \<in> set a. fst x \<le> l" unfolding ab by (auto dest: set_takeWhileD)
  then show ?thesis using ge by (simp add: ab)
qed

lemma crq_drain_from_split:
  assumes "crq_wf q" "crq_drain_from f q = (a, b)"
  shows "b @ a = q \<and> (\<forall>x \<in> set a. f \<le> fst x) \<and> (\<forall>x \<in> set b. fst x < f)"
proof -
  have s: "sorted_wrt (<) (map fst q)" using assms(1) by (simp add: crq_wf_def)
  define i where "i = (case bsearch fst f q of Inr i \<Rightarrow> i | Inl i \<Rightarrow> i)"
  have ab: "a = drop i q" "b = take i q" using assms(2) by (auto simp: crq_drain_from_def i_def Let_def)
  have i: "(\<forall>j<i. fst (q ! j) < f) \<and> (i < length q \<longrightarrow> f \<le> fst (q ! i))"
  proof (cases "bsearch fst f q")
    case (Inl k)
    then show ?thesis using bsearch_Inl_before[OF Inl] bsearch_Inl_at[OF Inl] by (auto simp: i_def less_imp_le)
  next
    case (Inr k)
    then show ?thesis using bsearch_Inr[OF Inr] by (auto simp: i_def)
  qed
  have "f \<le> fst (q ! j)" if "i \<le> j" "j < length q" for j
    using i that strict_sorted_nth_mono[OF s, of i j] by (cases "i = j") auto
  then have "\<forall>x \<in> set a. f \<le> fst x" unfolding ab all_set_conv_all_nth by simp
  moreover have "\<forall>x \<in> set b. fst x < f" using i unfolding ab all_set_conv_all_nth by simp
  ultimately show ?thesis by (simp add: ab)
qed

text \<open>
  No responder is lost or answered twice: the indexes of the queue stay increasing, draining up to
  an index hands out exactly the responders at or below it and keeps the others, and draining from
  an index hands out exactly those at or above it.
\<close>

theorem responder_queue_partition:
  assumes "crq_extend rs [] = Some q"
  shows "q = rs \<and> sorted_wrt (<) (map fst q)
    \<and> crq_drain_upto i q = (filter (\<lambda>x. fst x \<le> i) q, filter (\<lambda>x. i < fst x) q)
    \<and> crq_drain_from i q = (filter (\<lambda>x. i \<le> fst x) q, filter (\<lambda>x. fst x < i) q)"
proof -
  have q: "crq_wf q" "q = rs" using crq_extend_wf[OF crq_wf_Nil assms] by auto
  have part: "a @ b = q \<Longrightarrow> \<forall>x \<in> set a. P x \<Longrightarrow> \<forall>x \<in> set b. \<not> P x \<Longrightarrow> a = filter P q \<and> b = filter (\<lambda>x. \<not> P x) q" for a b P
    by (auto simp: filter_empty_conv)
  obtain a b where u: "crq_drain_upto i q = (a, b)" by fastforce
  have ab: "a = filter (\<lambda>x. fst x \<le> i) q \<and> b = filter (\<lambda>x. \<not> fst x \<le> i) q"
    by (rule part) (use crq_drain_upto_split[OF q(1) u] in \<open>auto simp: not_le\<close>)
  obtain c d where f: "crq_drain_from i q = (c, d)" by fastforce
  have cd: "d = filter (\<lambda>x. fst x < i) q \<and> c = filter (\<lambda>x. \<not> fst x < i) q"
    by (rule part) (use crq_drain_from_split[OF q(1) f] in \<open>auto simp: not_less\<close>)
  show ?thesis using q u ab f cd by (simp add: crq_wf_def not_le not_less)
qed

theorem responder_queue_partition_witness:
  "crq_drain_upto 3 [(1, ''a''), (3, ''b''), (7, ''c'')] = ([(1, ''a''), (3, ''b'')], [(7, ''c'')])"
  using responder_queue_partition[of "[(1, ''a''), (3, ''b''), (7, ''c'')]" "[(1, ''a''), (3, ''b''), (7, ''c'')]" 3]
  by (simp add: crq_push_def)

section \<open>The balancer\<close>

record balancer =
  bl_total :: nat
  bl_raft_msg :: nat

definition balancer_new :: "nat \<Rightarrow> balancer" where
  "balancer_new t = \<lparr>bl_total = t, bl_raft_msg = t div 10\<rparr>"

definition bl_notification :: "balancer \<Rightarrow> nat panics" where
  "bl_notification b = sub_panics (bl_total b) (bl_raft_msg b)"

definition bl_increase_notification :: "balancer \<Rightarrow> balancer" where
  "bl_increase_notification b =
     (let b1 = b\<lparr>bl_raft_msg := bl_raft_msg b * 15 div 16\<rparr>
      in if bl_raft_msg b1 = 0 then b1\<lparr>bl_raft_msg := 1\<rparr> else b1)"

definition bl_increase_raft_msg :: "balancer \<Rightarrow> balancer" where
  "bl_increase_raft_msg b =
     (let b1 = b\<lparr>bl_raft_msg := bl_raft_msg b * 17 div 16\<rparr>
      in if bl_raft_msg b1 > bl_total b1 div 2 then b1\<lparr>bl_raft_msg := bl_total b1 div 2\<rparr> else b1)"

text \<open>One round of the main loop: it adjusts by what the two channels consumed of their budgets.\<close>

definition bl_adjust :: "nat \<Rightarrow> nat \<Rightarrow> balancer \<Rightarrow> balancer panics" where
  "bl_adjust raft_msg_processed notify_processed b = do {
     n \<leftarrow> bl_notification b;
     Some (if notify_processed = n then bl_increase_notification b
           else if raft_msg_processed = bl_raft_msg b then bl_increase_raft_msg b else b) }"

fun bl_rounds :: "(nat \<times> nat) list \<Rightarrow> balancer \<Rightarrow> balancer panics" where
  "bl_rounds [] b = Some b"
| "bl_rounds ((r, n) # rs) b = do { b' \<leftarrow> bl_adjust r n b; bl_rounds rs b' }"

lemma bl_adjust_bounds:
  assumes "1 \<le> bl_raft_msg b" "2 * bl_raft_msg b \<le> bl_total b"
  shows "\<exists>b'. bl_adjust r n b = Some b' \<and> bl_total b' = bl_total b
    \<and> 1 \<le> bl_raft_msg b' \<and> 2 * bl_raft_msg b' \<le> bl_total b'"
  using assms
  by (auto simp: bl_adjust_def bl_notification_def bl_increase_notification_def bl_increase_raft_msg_def
      sub_panics_def Let_def)

lemma bl_rounds_bounds:
  assumes "1 \<le> bl_raft_msg b" "2 * bl_raft_msg b \<le> bl_total b"
  shows "\<exists>b'. bl_rounds rs b = Some b' \<and> bl_total b' = bl_total b
    \<and> 1 \<le> bl_raft_msg b' \<and> 2 * bl_raft_msg b' \<le> bl_total b'"
  using assms
proof (induction rs b rule: bl_rounds.induct)
  case (2 r n rs b)
  obtain b1 where b1: "bl_adjust r n b = Some b1" "bl_total b1 = bl_total b"
    "1 \<le> bl_raft_msg b1" "2 * bl_raft_msg b1 \<le> bl_total b1"
    using bl_adjust_bounds[OF "2.prems"] by blast
  show ?case using "2.IH"[OF b1(1) b1(3,4)] b1(1,2) by simp
qed simp

text \<open>
  Neither channel starves: in every round at least one client message and at least half of the
  total, in notifications, may be handled, and the sum is the total.
\<close>

theorem balancer_no_starvation:
  assumes "10 \<le> n_total" "bl_rounds rs (balancer_new n_total) = Some b"
  shows "1 \<le> bl_raft_msg b \<and> (\<exists>n. bl_notification b = Some n \<and> n_total \<le> 2 * n \<and> bl_raft_msg b + n = n_total)"
proof -
  have "1 \<le> bl_raft_msg (balancer_new n_total)" "2 * bl_raft_msg (balancer_new n_total) \<le> bl_total (balancer_new n_total)"
    using assms(1) by (auto simp: balancer_new_def)
  from bl_rounds_bounds[OF this, of rs] show ?thesis
    using assms(2) by (auto simp: bl_notification_def sub_panics_def balancer_new_def)
qed

theorem balancer_no_starvation_witness:
  "\<exists>b. bl_rounds [(1000, 5)] (balancer_new 10000) = Some b \<and> 1 \<le> bl_raft_msg b"
proof -
  have b: "bl_rounds [(1000, 5)] (balancer_new 10000) = Some \<lparr>bl_total = 10000, bl_raft_msg = 1062\<rparr>"
    by (simp add: bl_adjust_def bl_notification_def bl_increase_raft_msg_def balancer_new_def sub_panics_def)
  show ?thesis using conjunct1[OF balancer_no_starvation[OF _ b]] b by simp
qed

lemma bl_adjust_small:
  "bl_raft_msg b < 16 \<Longrightarrow> bl_adjust r n b = Some b' \<Longrightarrow> bl_raft_msg b' < 16 \<and> bl_raft_msg b' \<le> max 1 (bl_raft_msg b)"
  by (auto simp: bl_adjust_def bl_increase_notification_def bl_increase_raft_msg_def Let_def
      bind_eq_Some_conv split: if_splits)

text \<open>
  The budget of the clients does not recover: the integer arithmetic of the increase leaves a
  budget below 16 where it is, so once the notifications have pushed it below 16 of 10000, no
  later round, however busy the clients are, raises it again.
\<close>

theorem balancer_never_recovers:
  assumes "bl_raft_msg b < 16" "1 \<le> bl_raft_msg b" "2 \<le> bl_total b" "bl_rounds rs b = Some b'"
  shows "bl_raft_msg b' \<le> bl_raft_msg b"
  using assms
proof (induction rs b rule: bl_rounds.induct)
  case (2 r n rs b)
  then obtain b1 where b1: "bl_adjust r n b = Some b1" "bl_rounds rs b1 = Some b'"
    by (auto simp: bind_eq_Some_conv)
  have s: "bl_raft_msg b1 < 16" "bl_raft_msg b1 \<le> bl_raft_msg b"
    using bl_adjust_small[OF "2.prems"(1) b1(1)] "2.prems"(2) by auto
  have p: "1 \<le> bl_raft_msg b1" "2 \<le> bl_total b1"
    using b1(1) "2.prems"(1-3)
    by (auto simp: bl_adjust_def bl_increase_notification_def bl_increase_raft_msg_def bl_notification_def
        sub_panics_def Let_def bind_eq_Some_conv split: if_splits)
  show ?case using "2.IH"[OF b1(1) s(1) p b1(2)] s(2) by simp
qed simp

text \<open>Ninety rounds that use up the budget of the notifications, then a round with only client messages.\<close>

primrec busy_notifications :: "nat \<Rightarrow> balancer \<Rightarrow> balancer" where
  "busy_notifications 0 b = b"
| "busy_notifications (Suc k) b = busy_notifications k (bl_increase_notification b)"

lemma busy_notifications_numeral [simp]:
  "busy_notifications (numeral k) b = busy_notifications (pred_numeral k) (bl_increase_notification b)"
  by (simp add: numeral_eq_Suc)

theorem balancer_never_recovers_witness:
  "busy_notifications 90 (balancer_new 10000) = \<lparr>bl_total = 10000, bl_raft_msg = 1\<rparr>
   \<and> (\<exists>b'. bl_rounds [(1, 0)] \<lparr>bl_total = 10000, bl_raft_msg = 1\<rparr> = Some b' \<and> bl_raft_msg b' \<le> 1)"
proof
  show "busy_notifications 90 (balancer_new 10000) = \<lparr>bl_total = 10000, bl_raft_msg = 1\<rparr>"
    by (simp add: balancer_new_def bl_increase_notification_def)
  have r: "bl_rounds [(1, 0)] \<lparr>bl_total = 10000, bl_raft_msg = 1\<rparr> = Some \<lparr>bl_total = 10000, bl_raft_msg = 1\<rparr>"
    by (simp add: bl_adjust_def bl_notification_def bl_increase_raft_msg_def sub_panics_def)
  show "\<exists>b'. bl_rounds [(1, 0)] \<lparr>bl_total = 10000, bl_raft_msg = 1\<rparr> = Some b' \<and> bl_raft_msg b' \<le> 1"
    using balancer_never_recovers[OF _ _ _ r] r by simp
qed

end
