(* ===== verification/RaftCore.thy ===== *)
theory RaftCore
imports EngineOps RuntimeQueues
begin

text \<open>
  \<^verbatim>\<open>openraft/src/core/raft_core.rs\<close>: the runtime task around the engine. It turns client messages and
  internal notifications into events of the engine and executes the commands the engine emits.
  What it sends outside, to the log store, the state machine worker, the network and the clients,
  is the trace of its effects; the answers come back as notifications. Whether the \<open>n\<close>-th call
  outside succeeds is the parameter \<open>sto\<close>. Channels, clients and responders are numbers.
\<close>

section \<open>Messages\<close>

record 'd append_rpc =
  ar_vote :: raft_vote
  ar_prev_log_id :: "log_id option"
  ar_entries :: "'d log_entry list"
  ar_leader_commit :: "log_id option"

type_synonym append_request = "request append_rpc"

datatype read_policy = LeaseRead | ReadIndex

record linearize_state =
  lz_node_id :: nat
  lz_read_log_id :: log_id
  lz_applied :: "log_id option"

datatype client_write_error =
    WriteForward forward_to_leader
  | WriteChange change_membership_error

datatype read_error = ReadForward forward_to_leader | ReadQuorumNotEnough membership "nat list"

datatype allow_next_revert_error = RevertForward forward_to_leader | RevertNodeNotFound node_not_found

datatype external_command =
    ExtElect
  | ExtHeartbeat
  | ExtSnapshot
  | ExtGetSnapshot nat
  | ExtPurgeLog nat
  | ExtTriggerTransferLeader nat
  | ExtAllowNextRevert nat bool nat
  | ExtStateMachineCommand sm_command

datatype raft_msg =
    MsgAppendEntries append_request nat
  | MsgRequestVote vote_request nat
  | MsgInstallFullSnapshot raft_vote snapshot nat
  | MsgBeginReceivingSnapshot nat
  | MsgClientWriteRequest request "nat option" "committed_leader_id option"
  | MsgEnsureLinearizableRead read_policy nat
  | MsgInitialize nodes nat
  | MsgChangeMembership change_members bool nat
  | MsgExternalCoreRequest
  | MsgHandleTransferLeader raft_vote nat
  | MsgExternalCommand external_command

text \<open>The calls outside that can fail, and the error of the one that did.\<close>

datatype storage_error = StoReadLogs | StoReadSnapshot | StoWriteSnapshot | StoWriteLogs | StoWriteVote | StoWrite | StoApply | StoWriteStateMachine | StoRemote

record apply_result =
  apr_since :: nat
  apr_end :: nat
  apr_last_applied :: log_id

datatype sm_response =
    BuildSnapshotDone "snapshot_meta option"
  | SmInstallSnapshot log_io_id "snapshot_meta option"
  | SmApply apply_result

datatype notification =
    NVoteResponse nat vote_response uncommitted_vote
  | NHigherVote nat raft_vote committed_vote
  | NStorageError storage_error
  | NLocalIO io_id
  | NReplicationProgress replication_session_id nat "string + replication_result" "nat option"
  | NHeartbeatProgress replication_session_id nat nat
  | NStateMachine "storage_error + sm_response"
  | NTick nat

record heartbeat_event =
  hb_time :: nat
  hb_session_id :: replication_session_id
  hb_matching :: "log_id option"
  hb_committed :: "log_id option"

record raft_metrics =
  rm_id :: nat
  rm_current_term :: nat
  rm_vote :: raft_vote
  rm_last_log_index :: "nat option"
  rm_last_applied :: "log_id option"
  rm_snapshot :: "log_id option"
  rm_purged :: "log_id option"
  rm_state :: server_state
  rm_current_leader :: "nat option"
  rm_millis_since_quorum_ack :: "nat option"
  rm_last_quorum_acked :: "nat option"
  rm_membership_config :: stored_membership
  rm_heartbeat :: "(nat \<times> nat option) list option"
  rm_replication :: "(nat \<times> log_id option) list option"

section \<open>Effects\<close>

datatype effect =
    EffRespond respond
  | EffClientError nat client_write_error
  | EffOnCommit nat log_id
  | EffRead nat "read_error + linearize_state"
  | EffReadRpc nat basic_node append_request
  | EffReadTask nat raft_vote linearize_state effective_membership
  | EffRevertReply nat "allow_next_revert_error + unit"
  | EffAppend "entry list" io_id
  | EffSaveVote raft_vote
  | EffSaveCommitted "log_id option"
  | EffPurge log_id
  | EffTruncate log_id
  | EffStateMachine sm_command
  | EffVoteRpc nat basic_node vote_request
  | EffTransferRpc nat basic_node transfer_leader_request
  | EffReplicate nat repl_data
  | EffReplicateSnapshot nat basic_node replication_session_id nat
  | EffSpawnStream nat basic_node replication_session_id "log_id option" "log_id option"
  | EffRemoveStreams
  | EffSpawnHeartbeat nat basic_node
  | EffHeartbeat nat heartbeat_event
  | EffMetrics raft_metrics

section \<open>The state of the task\<close>

datatype snapshot_policy = LogsSinceLast nat | SnapshotNever

record raft_core =
  rc_engine :: engine
  rc_snapshot_policy :: snapshot_policy
  rc_heartbeat_interval :: nat
  rc_enable_heartbeat :: bool
  rc_enable_elect :: bool
  rc_snapshot_tried_at :: "log_id option"
  rc_client_responders :: "nat responder_queue"
  rc_replications :: "(nat, replication_session_id) bt_map"
  rc_heartbeats :: "nat list"
  rc_committed_tx :: "log_id option"
  rc_rx_api :: "raft_msg list"
  rc_rx_notification :: "notification list"
  rc_balancer :: balancer
  rc_effects :: "effect list"

abbreviation rc_id :: "raft_core \<Rightarrow> nat" where
  "rc_id c \<equiv> en_id (rc_engine c)"

abbreviation rc_state :: "raft_core \<Rightarrow> raft_state" where
  "rc_state c \<equiv> en_state (rc_engine c)"

abbreviation rc_effective :: "raft_core \<Rightarrow> effective_membership" where
  "rc_effective c \<equiv> ms_effective (rs_membership_state (rc_state c))"

definition rc_emit :: "effect list \<Rightarrow> raft_core \<Rightarrow> raft_core" where
  "rc_emit fs c = c\<lparr>rc_effects := rc_effects c @ fs\<rparr>"

definition rc_notify :: "notification \<Rightarrow> raft_core \<Rightarrow> raft_core" where
  "rc_notify n c = c\<lparr>rc_rx_notification := rc_rx_notification c @ [n]\<rparr>"

text \<open>A call outside that may fail.\<close>

definition rc_call ::
  "(nat \<Rightarrow> bool) \<Rightarrow> effect \<Rightarrow> storage_error \<Rightarrow> raft_core \<Rightarrow> (storage_error + unit) \<times> raft_core" where
  "rc_call sto f err c = (if sto (length (rc_effects c)) then Inr () else Inl err, rc_emit [f] c)"

definition rc_on_engine :: "(engine \<Rightarrow> engine panics) \<Rightarrow> raft_core \<Rightarrow> raft_core panics" where
  "rc_on_engine f c = do { e \<leftarrow> f (rc_engine c); Some (c\<lparr>rc_engine := e\<rparr>) }"

definition rc_set_ios :: "io_state \<Rightarrow> raft_core \<Rightarrow> raft_core" where
  "rc_set_ios ios c = c\<lparr>rc_engine := (rc_engine c)\<lparr>en_state := (rc_state c)\<lparr>rs_io_state := ios\<rparr>\<rparr>\<rparr>"

definition rc_set_output :: "engine_output \<Rightarrow> raft_core \<Rightarrow> raft_core" where
  "rc_set_output o' c = c\<lparr>rc_engine := (rc_engine c)\<lparr>en_output := o'\<rparr>\<rparr>"

text \<open>An update of one of the three cursors of the I/O state.\<close>

definition rc_on_log_io :: "(io_id io_progress \<Rightarrow> io_id io_progress panics) \<Rightarrow> raft_core \<Rightarrow> raft_core panics" where
  "rc_on_log_io f c = do {
     p \<leftarrow> f (ios_log_progress (rs_io_state (rc_state c)));
     Some (rc_set_ios ((rs_io_state (rc_state c))\<lparr>ios_log_progress := p\<rparr>) c) }"

definition rc_on_apply_io :: "(log_id io_progress \<Rightarrow> log_id io_progress panics) \<Rightarrow> raft_core \<Rightarrow> raft_core panics" where
  "rc_on_apply_io f c = do {
     p \<leftarrow> f (ios_apply_progress (rs_io_state (rc_state c)));
     Some (rc_set_ios ((rs_io_state (rc_state c))\<lparr>ios_apply_progress := p\<rparr>) c) }"

definition rc_on_snapshot_io :: "(log_id io_progress \<Rightarrow> log_id io_progress panics) \<Rightarrow> raft_core \<Rightarrow> raft_core panics" where
  "rc_on_snapshot_io f c = do {
     p \<leftarrow> f (ios_snapshot (rs_io_state (rc_state c)));
     Some (rc_set_ios ((rs_io_state (rc_state c))\<lparr>ios_snapshot := p\<rparr>) c) }"

definition on_opt :: "('x \<Rightarrow> 'c \<Rightarrow> 'c panics) \<Rightarrow> 'x option \<Rightarrow> 'c \<Rightarrow> 'c panics" where
  "on_opt f x c = (case x of Some y \<Rightarrow> f y c | None \<Rightarrow> Some c)"

definition current_leader :: "raft_core \<Rightarrow> nat option" where
  "current_leader c =
     (let vote = vote_ref (rc_state c) in
      if \<not> vote_committed vote then None
      else (let i = lid_node (vote_leader_id vote) in
        if em_is_voter (rc_effective c) i then Some i else None))"

definition get_leader_node :: "nat option \<Rightarrow> raft_core \<Rightarrow> basic_node option" where
  "get_leader_node leader_id c = do { i \<leftarrow> leader_id; em_get_node (rc_effective c) i }"

section \<open>Executing commands\<close>

text \<open>A watch channel that only moves forward.\<close>

definition send_if_greater :: "'v::linorder \<Rightarrow> 'v \<Rightarrow> 'v" where
  "send_if_greater v cur = (if v > cur then v else cur)"

fun on_commits :: "raft_state \<Rightarrow> (nat \<times> nat) list \<Rightarrow> effect list panics" where
  "on_commits st [] = Some []"
| "on_commits st ((index, responder) # rs) = do {
     l \<leftarrow> rs_get_log_id st index;
     fs \<leftarrow> on_commits st rs;
     Some (EffOnCommit responder l # fs) }"

definition apply_to_state_machine ::
  "(nat \<Rightarrow> bool) \<Rightarrow> log_id \<Rightarrow> log_id \<Rightarrow> raft_core \<Rightarrow> ((storage_error + unit) \<times> raft_core) panics" where
  "apply_to_state_machine sto first_id last_id c = do {
     ensure (lg_index first_id \<le> lg_index last_id);
     ensure (case crq_first_index (rc_client_responders c) of
       Some first_idx \<Rightarrow> lg_index first_id \<le> first_idx | None \<Rightarrow> True);
     let (responders, rest) = crq_drain_upto (lg_index last_id) (rc_client_responders c);
     fs \<leftarrow> on_commits (rc_state c) responders;
     Some (rc_call sto (EffStateMachine (Apply first_id last_id responders)) StoApply
       (rc_emit fs (c\<lparr>rc_client_responders := rest\<rparr>))) }"

definition remove_all_replication :: "raft_core \<Rightarrow> raft_core" where
  "remove_all_replication c = rc_emit [EffRemoveStreams] (c\<lparr>rc_heartbeats := [], rc_replications := []\<rparr>)"

definition spawn_replication_stream :: "nat \<Rightarrow> progress_entry \<Rightarrow> raft_core \<Rightarrow> raft_core panics" where
  "spawn_replication_stream target pe c = do {
     node \<leftarrow> em_get_node (rc_effective c) target;
     l \<leftarrow> en_leader (rc_engine c);
     let session = ReplicationSessionId (ld_committed_vote l) (em_log_id (rc_effective c));
     Some (rc_emit [EffSpawnStream target node session (rs_committed (rc_state c)) (pe_matching pe)]
       (c\<lparr>rc_replications := bt_insert target session (rc_replications c)\<rparr>)) }"

fun spawn_streams :: "(nat \<times> progress_entry) list \<Rightarrow> raft_core \<Rightarrow> raft_core panics" where
  "spawn_streams [] c = Some c"
| "spawn_streams ((target, pe) # ts) c = do { c' \<leftarrow> spawn_replication_stream target pe c; spawn_streams ts c' }"

fun spawn_heartbeats :: "effective_membership \<Rightarrow> (nat \<times> progress_entry) list \<Rightarrow> raft_core \<Rightarrow> raft_core panics" where
  "spawn_heartbeats em [] c = Some c"
| "spawn_heartbeats em ((target, pe) # ts) c = do {
     node \<leftarrow> em_get_node em target;
     spawn_heartbeats em ts
       (rc_emit [EffSpawnHeartbeat target node] (c\<lparr>rc_heartbeats := bs_union [target] (rc_heartbeats c)\<rparr>)) }"

text \<open>The requests to every voter but this node.\<close>

fun to_voters :: "(nat \<Rightarrow> basic_node \<Rightarrow> effect) \<Rightarrow> effective_membership \<Rightarrow> nat \<Rightarrow> nat list \<Rightarrow> effect list panics" where
  "to_voters f em self [] = Some []"
| "to_voters f em self (target # ts) =
     (if target = self then to_voters f em self ts
      else do {
        node \<leftarrow> em_get_node em target;
        fs \<leftarrow> to_voters f em self ts;
        Some (f target node # fs) })"

definition spawn_parallel_vote_requests :: "vote_request \<Rightarrow> raft_core \<Rightarrow> raft_core panics" where
  "spawn_parallel_vote_requests req c = do {
     fs \<leftarrow> to_voters (\<lambda>t n. EffVoteRpc t n req) (rc_effective c) (rc_id c) (em_voter_ids (rc_effective c));
     Some (rc_emit fs c) }"

definition broadcast_transfer_leader :: "transfer_leader_request \<Rightarrow> raft_core \<Rightarrow> raft_core panics" where
  "broadcast_transfer_leader req c = do {
     fs \<leftarrow> to_voters (\<lambda>t n. EffTransferRpc t n req) (rc_effective c) (rc_id c) (em_voter_ids (rc_effective c));
     Some (rc_emit fs c) }"

fun heartbeat_events ::
  "nat \<Rightarrow> nat list \<Rightarrow> (log_id option \<Rightarrow> heartbeat_event) \<Rightarrow> (nat \<times> progress_entry) list \<Rightarrow> effect list panics" where
  "heartbeat_events self workers ev [] = Some []"
| "heartbeat_events self workers ev ((nid, pe) # items) =
     (if nid = self then heartbeat_events self workers ev items
      else do {
        ensure (nid \<in> set workers);
        fs \<leftarrow> heartbeat_events self workers ev items;
        Some (EffHeartbeat nid (ev (pe_matching pe)) # fs) })"

definition broadcast_heartbeat :: "nat \<Rightarrow> replication_session_id \<Rightarrow> raft_core \<Rightarrow> raft_core panics" where
  "broadcast_heartbeat now session c = do {
     lh \<leftarrow> en_leader_handler (rc_engine c);
     (case lh of
        Inl _ \<Rightarrow> Some c
      | Inr l \<Rightarrow>
          if ReplicationSessionId (ld_committed_vote l) (em_log_id (rc_effective c)) \<noteq> session then Some c
          else do {
            let ev = (\<lambda>matching. \<lparr>hb_time = now, hb_session_id = session, hb_matching = matching,
                        hb_committed = rs_committed (rc_state c)\<rparr>);
            fs \<leftarrow> heartbeat_events (rc_id c) (rc_heartbeats c) ev (vp_entries (ld_progress l));
            Some (rc_emit fs c) }) }"

text \<open>
  The command with its condition met. \<open>Inl\<close> is the storage error that ends the task. The session of
  the replication of a snapshot is the one the stream to the target was spawned with.
\<close>

fun exec_command ::
  "(nat \<Rightarrow> bool) \<Rightarrow> nat \<Rightarrow> command \<Rightarrow> raft_core \<Rightarrow> ((storage_error + unit) \<times> raft_core) panics" where
  "exec_command sto now (UpdateIOProgress w io_id) c = do {
     c1 \<leftarrow> rc_on_log_io (io_submit io_id) c;
     Some (Inr (), rc_notify (NLocalIO io_id) c1) }"
| "exec_command sto now (AppendEntries vote entries) c = do {
     last_entry \<leftarrow> last_opt entries;
     let io_id = io_id_new_log_io vote (Some (e_log_id last_entry));
     c1 \<leftarrow> rc_on_log_io (io_submit io_id) c;
     Some (rc_call sto (EffAppend entries io_id) StoWriteLogs c1) }"
| "exec_command sto now (SaveVote vote) c = do {
     c1 \<leftarrow> rc_on_log_io (io_submit (io_id_new vote)) c;
     (case rc_call sto (EffSaveVote vote) StoWriteVote c1 of
        (Inl err, c2) \<Rightarrow> Some (Inl err, c2)
      | (Inr _, c2) \<Rightarrow>
          (let c3 = rc_notify (NLocalIO (io_id_new vote)) c2 in
           Some (Inr (), case vote_into_vote_status vote of
             Pending non_committed \<Rightarrow> rc_notify (NVoteResponse (rc_id c)
               \<lparr>vr_vote = vote, vr_granted = True, vr_last_log_id = None\<rparr> non_committed) c3
           | Committed _ \<Rightarrow> c3))) }"
| "exec_command sto now (PurgeLog up) c =
     (case rc_call sto (EffPurge up) StoWriteLogs c of
        (Inl err, c1) \<Rightarrow> Some (Inl err, c1)
      | (Inr _, c1) \<Rightarrow> Some (Inr (), rc_set_ios (ios_update_purged (Some up) (rs_io_state (rc_state c1))) c1))"
| "exec_command sto now (TruncateLog since) c =
     (case rc_call sto (EffTruncate since) StoWriteLogs c of
        (Inl err, c1) \<Rightarrow> Some (Inl err, c1)
      | (Inr _, c1) \<Rightarrow>
          (let leader_id = current_leader c1;
               forward = ForwardToLeader leader_id (get_leader_node leader_id c1) in
           case crq_drain_from (lg_index since) (rc_client_responders c1) of
             (drained, rest) \<Rightarrow> Some (Inr (), rc_emit
               (map (\<lambda>(log_index, tx). EffClientError tx (WriteForward forward)) drained)
               (c1\<lparr>rc_client_responders := rest\<rparr>))))"
| "exec_command sto now (SendVote req) c = do {
     c1 \<leftarrow> spawn_parallel_vote_requests req c; Some (Inr (), c1) }"
| "exec_command sto now (ReplicateCommitted committed) c =
     Some (Inr (), c\<lparr>rc_committed_tx := send_if_greater committed (rc_committed_tx c)\<rparr>)"
| "exec_command sto now (BroadcastHeartbeat session) c = do {
     c1 \<leftarrow> broadcast_heartbeat now session c; Some (Inr (), c1) }"
| "exec_command sto now (SaveCommittedAndApply already_committed up) c = do {
     c1 \<leftarrow> rc_on_apply_io (io_submit up) c;
     (case rc_call sto (EffSaveCommitted (Some up)) StoWrite c1 of
        (Inl err, c2) \<Rightarrow> Some (Inl err, c2)
      | (Inr _, c2) \<Rightarrow> do {
          first_id \<leftarrow> rs_get_log_id (rc_state c2) (next_index already_committed);
          apply_to_state_machine sto first_id up c2 }) }"
| "exec_command sto now (Replicate target req) c = do {
     session \<leftarrow> bt_get (rc_replications c) target;
     Some (Inr (), rc_emit [EffReplicate target req] c) }"
| "exec_command sto now (ReplicateSnapshot target inflight_id) c = do {
     session \<leftarrow> bt_get (rc_replications c) target;
     node \<leftarrow> em_get_node (rc_effective c) target;
     Some (Inr (), rc_emit [EffReplicateSnapshot target node session inflight_id] c) }"
| "exec_command sto now (BroadcastTransferLeader req) c = do {
     c1 \<leftarrow> broadcast_transfer_leader req c; Some (Inr (), c1) }"
| "exec_command sto now (RebuildReplicationStreams targets) c = do {
     c1 \<leftarrow> spawn_streams targets (remove_all_replication c);
     c2 \<leftarrow> spawn_heartbeats (rc_effective c1) targets c1;
     Some (Inr (), c2) }"
| "exec_command sto now (StateMachine command) c = do {
     c1 \<leftarrow> on_opt (\<lambda>i. rc_on_log_io (io_submit i)) (sm_get_log_progress command) c;
     c2 \<leftarrow> on_opt (\<lambda>l. rc_on_apply_io (io_submit l)) (sm_get_apply_progress command) c1;
     c3 \<leftarrow> on_opt (\<lambda>l. rc_on_snapshot_io (io_submit l)) (sm_get_snapshot_progress command) c2;
     Some (rc_call sto (EffStateMachine command) StoWriteStateMachine c3) }"
| "exec_command sto now (Respond w r) c = Some (Inr (), rc_emit [EffRespond r] c)"

text \<open>\<open>Inr (Some cmd)\<close>: the condition is not met yet and the command comes back.\<close>

definition run_command ::
  "(nat \<Rightarrow> bool) \<Rightarrow> nat \<Rightarrow> command \<Rightarrow> raft_core \<Rightarrow> ((storage_error + command option) \<times> raft_core) panics" where
  "run_command sto now cmd c =
     (if (case command_condition cmd of
            Some w \<Rightarrow> \<not> condition_is_met w (rs_io_state (rc_state c)) | None \<Rightarrow> False)
      then Some (Inr (Some cmd), c)
      else do {
        (res, c1) \<leftarrow> exec_command sto now cmd c;
        Some (case res of Inl err \<Rightarrow> Inl err | Inr _ \<Rightarrow> Inr None, c1) })"

lemma not_Inl_unit [simp]: "(\<forall>x. a \<noteq> Inl x) \<longleftrightarrow> (a :: 'e + unit) = Inr ()"
  by (cases a) auto

lemma not_Inr_unit [simp]: "(a :: 'e + unit) \<noteq> Inr () \<longleftrightarrow> (\<exists>x. a = Inl x)"
  by (cases a) auto

text \<open>No command reaches the queue of commands of the engine: executing one only takes from it.\<close>

lemma rc_emit_simps [simp]:
  "rc_engine (rc_emit fs c) = rc_engine c" "rc_effects (rc_emit fs c) = rc_effects c @ fs"
  "rc_rx_notification (rc_emit fs c) = rc_rx_notification c"
  "rc_client_responders (rc_emit fs c) = rc_client_responders c"
  by (simp_all add: rc_emit_def)

lemma rc_notify_simps [simp]:
  "rc_engine (rc_notify n c) = rc_engine c" "rc_effects (rc_notify n c) = rc_effects c"
  "rc_rx_notification (rc_notify n c) = rc_rx_notification c @ [n]"
  by (simp_all add: rc_notify_def)

lemma rc_call_simps [simp]:
  "rc_engine (snd (rc_call sto f err c)) = rc_engine c"
  "rc_effects (snd (rc_call sto f err c)) = rc_effects c @ [f]"
  "rc_rx_notification (snd (rc_call sto f err c)) = rc_rx_notification c"
  by (simp_all add: rc_call_def)

text \<open>What an executed command may change in the engine: the I/O state.\<close>

definition io_only :: "engine \<Rightarrow> engine \<Rightarrow> bool" where
  "io_only e e' \<longleftrightarrow> (\<exists>ios. e' = e\<lparr>en_state := (en_state e)\<lparr>rs_io_state := ios\<rparr>\<rparr>)"

lemma io_only_refl [simp]: "io_only e e"
  unfolding io_only_def by (rule exI[of _ "rs_io_state (en_state e)"]) simp

lemma io_only_trans: "io_only a b \<Longrightarrow> io_only b c \<Longrightarrow> io_only a c"
  unfolding io_only_def by auto

lemma io_only_D:
  assumes "io_only e e'"
  shows "en_output e' = en_output e" "en_config e' = en_config e" "en_leader e' = en_leader e"
    "en_candidate e' = en_candidate e" "rs_vote (en_state e') = rs_vote (en_state e)"
    "rs_log_ids (en_state e') = rs_log_ids (en_state e)"
    "rs_membership_state (en_state e') = rs_membership_state (en_state e)"
    "rs_server_state (en_state e') = rs_server_state (en_state e)"
  using assms unfolding io_only_def by auto

lemma rc_set_ios_io_only [simp]:
  "io_only (rc_engine c) (rc_engine (rc_set_ios ios c))"
  "io_only (rc_engine c) (rc_engine (rc_set_ios ios (rc_emit fs c)))"
  by (auto simp: io_only_def rc_set_ios_def)

lemma rc_on_io_only:
  "rc_on_log_io f c = Some c' \<Longrightarrow> io_only (rc_engine c) (rc_engine c')"
  "rc_on_apply_io g c = Some c' \<Longrightarrow> io_only (rc_engine c) (rc_engine c')"
  "rc_on_snapshot_io g c = Some c' \<Longrightarrow> io_only (rc_engine c) (rc_engine c')"
  by (auto simp: rc_on_log_io_def rc_on_apply_io_def rc_on_snapshot_io_def bind_eq_Some_conv)

lemma on_opt_io_only:
  assumes "on_opt f x c = Some c'" "\<And>y c c'. f y c = Some c' \<Longrightarrow> io_only (rc_engine c) (rc_engine c')"
  shows "io_only (rc_engine c) (rc_engine c')"
  using assms by (auto simp: on_opt_def split: option.splits)

lemma spawn_streams_engine: "spawn_streams ts c = Some c' \<Longrightarrow> rc_engine c' = rc_engine c"
  by (induction ts c rule: spawn_streams.induct)
    (auto simp: bind_eq_Some_conv spawn_replication_stream_def Let_def)

lemma spawn_heartbeats_engine: "spawn_heartbeats em ts c = Some c' \<Longrightarrow> rc_engine c' = rc_engine c"
  by (induction em ts c rule: spawn_heartbeats.induct) (auto simp: bind_eq_Some_conv)

lemma apply_to_state_machine_engine:
  "apply_to_state_machine sto a b c = Some (r, c') \<Longrightarrow> rc_engine c' = rc_engine c"
  by (auto simp: apply_to_state_machine_def bind_eq_Some_conv rc_call_def split: prod.splits)

lemma broadcast_engine:
  "spawn_parallel_vote_requests q c = Some c' \<Longrightarrow> rc_engine c' = rc_engine c"
  "broadcast_transfer_leader t c = Some c' \<Longrightarrow> rc_engine c' = rc_engine c"
  "broadcast_heartbeat now s c = Some c' \<Longrightarrow> rc_engine c' = rc_engine c"
proof -
  assume "broadcast_heartbeat now s c = Some c'"
  then obtain lh where "en_leader_handler (rc_engine c) = Some lh"
    "broadcast_heartbeat now s c = Some c'" by (auto simp: broadcast_heartbeat_def bind_eq_Some_conv)
  then show "rc_engine c' = rc_engine c"
    by (cases lh) (auto simp: broadcast_heartbeat_def bind_eq_Some_conv Let_def split: if_splits)
qed (auto simp: spawn_parallel_vote_requests_def broadcast_transfer_leader_def bind_eq_Some_conv)

lemma exec_command_io_only:
  assumes "exec_command sto now cmd c = Some (r, c')"
  shows "io_only (rc_engine c) (rc_engine c')"
proof (cases cmd)
  case (SaveVote v)
  then show ?thesis using assms
    by (auto simp: bind_eq_Some_conv rc_call_def Let_def dest: rc_on_io_only split: if_splits vote_status.splits)
next
  case (SaveCommittedAndApply a u)
  then obtain c1 where c1: "rc_on_apply_io (io_submit u) c = Some c1"
    and r: "(case rc_call sto (EffSaveCommitted (Some u)) StoWrite c1 of
        (Inl err, c2) \<Rightarrow> Some (Inl err, c2)
      | (Inr _, c2) \<Rightarrow> do {
          first_id \<leftarrow> rs_get_log_id (rc_state c2) (next_index a);
          apply_to_state_machine sto first_id u c2 }) = Some (r, c')"
    using assms by (auto simp: bind_eq_Some_conv)
  have "rc_engine c' = rc_engine c1"
    using r by (auto simp: rc_call_def bind_eq_Some_conv split: if_splits dest: apply_to_state_machine_engine)
  then show ?thesis using rc_on_io_only(2)[OF c1] by simp
next
  case (StateMachine s)
  then obtain c1 c2 c3 where *: "on_opt (\<lambda>i. rc_on_log_io (io_submit i)) (sm_get_log_progress s) c = Some c1"
    "on_opt (\<lambda>l. rc_on_apply_io (io_submit l)) (sm_get_apply_progress s) c1 = Some c2"
    "on_opt (\<lambda>l. rc_on_snapshot_io (io_submit l)) (sm_get_snapshot_progress s) c2 = Some c3"
    "c' = snd (rc_call sto (EffStateMachine s) StoWriteStateMachine c3)"
    using assms by (auto simp: bind_eq_Some_conv)
  have "io_only (rc_engine c) (rc_engine c1)" "io_only (rc_engine c1) (rc_engine c2)" "io_only (rc_engine c2) (rc_engine c3)"
    using on_opt_io_only[OF *(1) rc_on_io_only(1)] on_opt_io_only[OF *(2) rc_on_io_only(2)]
      on_opt_io_only[OF *(3) rc_on_io_only(3)] by auto
  then show ?thesis using *(4) io_only_trans by (metis rc_call_simps(1))
qed (use assms in \<open>auto simp: bind_eq_Some_conv rc_call_def remove_all_replication_def Let_def
    dest!: rc_on_io_only spawn_streams_engine spawn_heartbeats_engine broadcast_engine split: if_splits prod.splits\<close>)

lemma run_command_io_only:
  assumes "run_command sto now cmd c = Some (r, c')"
  shows "io_only (rc_engine c) (rc_engine c')" "r = Inr (Some cmd') \<Longrightarrow> cmd' = cmd \<and> c' = c"
proof -
  have "(r = Inr (Some cmd) \<and> c' = c) \<or> (\<exists>res. exec_command sto now cmd c = Some (res, c')
      \<and> r = (case res of Inl err \<Rightarrow> Inl err | Inr _ \<Rightarrow> Inr None))"
    using assms by (auto simp: run_command_def bind_eq_Some_conv split: if_splits)
  then show "io_only (rc_engine c) (rc_engine c')" "r = Inr (Some cmd') \<Longrightarrow> cmd' = cmd \<and> c' = c"
    by (auto dest: exec_command_io_only split: sum.splits)
qed

section \<open>Running the queued commands\<close>

lemma postpone_command_shrinks:
  "postpone_command cmd o' = Some (Inr (), o2) \<Longrightarrow> eo_commands o2 = eo_commands o'"
  by (induction cmd o' rule: postpone_command.induct) auto

text \<open>
  \<^verbatim>\<open>run_engine_commands\<close>: the loop over the queue stops at a command that has to wait and cannot be
  set aside; then the commands that follow from the I/O progress run.
\<close>

function run_queue :: "(nat \<Rightarrow> bool) \<Rightarrow> nat \<Rightarrow> raft_core \<Rightarrow> ((storage_error + unit) \<times> raft_core) panics" where
  "run_queue sto now c =
     (case pop_command (en_output (rc_engine c)) of
        (None, _) \<Rightarrow> Some (Inr (), c)
      | (Some cmd, o1) \<Rightarrow>
          (case run_command sto now cmd (rc_set_output o1 c) of
             None \<Rightarrow> None
           | Some (Inl err, c1) \<Rightarrow> Some (Inl err, c1)
           | Some (Inr None, c1) \<Rightarrow> run_queue sto now c1
           | Some (Inr (Some cmd'), c1) \<Rightarrow>
               (case postpone_command cmd' (en_output (rc_engine c1)) of
                  None \<Rightarrow> None
                | Some (Inr _, o2) \<Rightarrow> run_queue sto now (rc_set_output o2 c1)
                | Some (Inl _, o2) \<Rightarrow> Some (Inr (), rc_set_output o2 c1))))"
  by pat_completeness auto

lemma rc_set_output_simps [simp]:
  "en_output (rc_engine (rc_set_output o1 c)) = o1"
  "en_state (rc_engine (rc_set_output o1 c)) = en_state (rc_engine c)"
  "en_leader (rc_engine (rc_set_output o1 c)) = en_leader (rc_engine c)"
  "en_candidate (rc_engine (rc_set_output o1 c)) = en_candidate (rc_engine c)"
  "en_config (rc_engine (rc_set_output o1 c)) = en_config (rc_engine c)"
  "rc_effects (rc_set_output o1 c) = rc_effects c"
  "rc_rx_notification (rc_set_output o1 c) = rc_rx_notification c"
  by (simp_all add: rc_set_output_def)

termination run_queue
proof (relation "measure (\<lambda>(sto, now, c). length (eo_commands (en_output (rc_engine c))))", goal_cases)
  case (2 sto now c x o1 cmd p r c1 r')
  have "en_output (rc_engine c1) = o1"
    using io_only_D(1)[OF run_command_io_only(1), of sto now cmd "rc_set_output o1 c"] 2 by auto
  then show ?case using 2 by (auto simp: pop_command_def split: list.splits)
next
  case (3 sto now c x o1 cmd p r c1 r' cmd' q ok o2)
  have "en_output (rc_engine c1) = o1"
    using io_only_D(1)[OF run_command_io_only(1), of sto now cmd "rc_set_output o1 c"] 3 by auto
  moreover have "eo_commands o2 = eo_commands (en_output (rc_engine c1))"
    using 3 postpone_command_shrinks by (cases ok) auto
  ultimately show ?case using 3 by (auto simp: pop_command_def split: list.splits)
qed simp

declare run_queue.simps [simp del]

end
