(* ===== verification/VotePromises.thy ===== *)
theory VotePromises
imports EngineVote RaftCore
begin

text \<open>
  The votes an engine works with, as a discipline on the queue of its commands: a vote is saved
  before any I/O of its leader is submitted, the saved votes increase, the last of them is the
  local vote, and the response to a vote request waits for the vote it reports. Every operation
  of the engine extends the queue by commands of this kind (\<open>keeps\<close>), most of them by none that
  matter for votes (\<open>quiet\<close>).
\<close>

named_theorems quiet_intros

lemma not_Inl_iff [simp]: "(\<forall>x. a \<noteq> Inl x) \<longleftrightarrow> (\<exists>y. a = Inr y)" "(\<forall>y. a \<noteq> Inr y) \<longleftrightarrow> (\<exists>x. a = Inl x)"
  by (cases a; simp)+

section \<open>The discipline\<close>

text \<open>The vote of the I/O a command submits.\<close>

fun command_vote :: "command \<Rightarrow> raft_vote option" where
  "command_vote (UpdateIOProgress w i) = Some (io_id_vote i)"
| "command_vote (AppendEntries v es) = Some (cv_into_vote v)"
| "command_vote (StateMachine (InstallFullSnapshot i s)) = Some (cv_into_vote (lio_committed_vote i))"
| "command_vote c = None"

fun respond_waits :: "command \<Rightarrow> bool" where
  "respond_waits (Respond w (RespondVote resp tx)) = (\<exists>i. w = Some (IOFlushed i) \<and> io_id_vote i = vr_vote resp)"
| "respond_waits c = True"

text \<open>Votes of term 0 are those of a cluster that was not initialized; they are never saved.\<close>

definition covers :: "raft_vote \<Rightarrow> raft_vote \<Rightarrow> bool" where
  "covers d v \<longleftrightarrow> vote_term v = 0 \<or> v \<le> d"

fun track :: "raft_vote \<Rightarrow> command list \<Rightarrow> raft_vote option" where
  "track d [] = Some d"
| "track d (SaveVote v # cs) = (if d < v then track v cs else None)"
| "track d (c # cs) =
     (if respond_waits c \<and> (case command_vote c of Some v \<Rightarrow> covers d v | None \<Rightarrow> True) then track d cs else None)"

definition neutral :: "command \<Rightarrow> bool" where
  "neutral c \<longleftrightarrow> (\<forall>v. c \<noteq> SaveVote v) \<and> command_vote c = None \<and> respond_waits c"

lemma track_other:
  "(\<forall>v. c \<noteq> SaveVote v) \<Longrightarrow> track d (c # cs) =
     (if respond_waits c \<and> (case command_vote c of Some v \<Rightarrow> covers d v | None \<Rightarrow> True) then track d cs else None)"
  by (cases c) auto

lemma track_append: "track d (a @ b) = Option.bind (track d a) (\<lambda>d'. track d' b)"
proof (induction a arbitrary: d)
  case (Cons c cs)
  show ?case
  proof (cases "\<exists>v. c = SaveVote v")
    case False
    then show ?thesis using Cons.IH by (simp add: track_other)
  qed (use Cons.IH in auto)
qed simp

lemma track_neutral: "\<forall>c \<in> set cs. neutral c \<Longrightarrow> track d cs = Some d"
  by (induction cs) (auto simp: track_other neutral_def)

lemma track_mono: "track d cs = Some d' \<Longrightarrow> d \<le> d'"
proof (induction cs arbitrary: d)
  case (Cons c cs)
  show ?case
  proof (cases "\<exists>v. c = SaveVote v")
    case True
    then show ?thesis using Cons by (fastforce split: if_splits intro: less_imp_le)
  next
    case False
    then show ?thesis using Cons by (auto simp: track_other split: if_splits)
  qed
qed simp

lemma covers_mono: "covers d v \<Longrightarrow> d \<le> d' \<Longrightarrow> covers d' v"
  by (auto simp: covers_def intro: order_trans)

lemma covers_refl [simp]: "v \<le> d \<Longrightarrow> covers d v"
  by (simp add: covers_def)

section \<open>Quiet operations\<close>

text \<open>The vote of the leader, if there is one.\<close>

definition leading_vote :: "engine \<Rightarrow> committed_vote option" where
  "leading_vote e = map_option ld_committed_vote (en_leader e)"

definition quiet :: "engine \<Rightarrow> engine \<Rightarrow> bool" where
  "quiet e e' \<longleftrightarrow> (\<exists>cs. eo_commands (en_output e') = eo_commands (en_output e) @ cs \<and> (\<forall>c \<in> set cs. neutral c))
     \<and> eo_pending (en_output e') = eo_pending (en_output e)
     \<and> vote_ref (en_state e') = vote_ref (en_state e) \<and> en_config e' = en_config e
     \<and> en_candidate e' = en_candidate e \<and> leading_vote e' = leading_vote e
     \<and> io_flushed (ios_log_progress (rs_io_state (en_state e'))) = io_flushed (ios_log_progress (rs_io_state (en_state e)))"

lemma quiet_refl [simp, quiet_intros]: "quiet e e"
  by (simp add: quiet_def)

lemma quiet_trans: "quiet a b \<Longrightarrow> quiet b c \<Longrightarrow> quiet a c"
  unfolding quiet_def by (elim conjE exE) (intro conjI; force)

text \<open>Changes of the state that leave the vote and the flushed I/O alone.\<close>

lemma quiet_state [quiet_intros]:
  assumes "vote_ref st = vote_ref (en_state e)"
    "io_flushed (ios_log_progress (rs_io_state st)) = io_flushed (ios_log_progress (rs_io_state (en_state e)))"
  shows "quiet e (e\<lparr>en_state := st\<rparr>)"
  using assms by (simp add: quiet_def leading_vote_def)

lemma quiet_push: "neutral c \<Longrightarrow> quiet e e' \<Longrightarrow> quiet e (en_push c e')"
  by (auto simp: quiet_def leading_vote_def) (simp add: en_push_def push_command_def)

lemma quiet_leader:
  "en_leader e = Some l \<Longrightarrow> ld_committed_vote l' = ld_committed_vote l \<Longrightarrow> quiet e (e\<lparr>en_leader := Some l'\<rparr>)"
  by (simp add: quiet_def leading_vote_def)

lemma quiet_ssh [simp]: "quiet e (ssh_update_server_state e)"
  by (simp add: quiet_def leading_vote_def)

lemma quiet_ssh': "quiet e e' \<Longrightarrow> quiet e (ssh_update_server_state e')"
  using quiet_ssh quiet_trans by blast

lemma en_push_pending [simp]: "eo_pending (en_output (en_push c e)) = eo_pending (en_output e)"
  by (simp add: en_push_def push_command_def)

lemma neutral_simps [simp]:
  "neutral (PurgeLog u0)" "neutral (TruncateLog s)" "neutral (ReplicateCommitted rc)"
  "neutral (BroadcastHeartbeat hs)" "neutral (Replicate t d)" "neutral (ReplicateSnapshot t i)"
  "neutral (BroadcastTransferLeader tq)" "neutral (RebuildReplicationStreams ts)" "neutral (SendVote q)"
  "neutral (SaveCommittedAndApply a u)" "neutral (StateMachine BuildSnapshot)" "neutral (StateMachine Func)"
  "neutral (StateMachine (GetSnapshot gtx))" "neutral (StateMachine (BeginReceivingSnapshot tx))"
  "neutral (Respond w (RespondAppendEntries r tx))" "neutral (Respond w (RespondInstallFullSnapshot sr tx))"
  "neutral (Respond w (RespondInitialize j tx))"
  by (simp_all add: neutral_def)

lemma quiet_on_state:
  assumes "en_on_state f e = Some e'"
    "\<And>st. f (en_state e) = Some st \<Longrightarrow> vote_ref st = vote_ref (en_state e)
      \<and> io_flushed (ios_log_progress (rs_io_state st)) = io_flushed (ios_log_progress (rs_io_state (en_state e)))"
  shows "quiet e e'"
  using assms by (auto simp: en_on_state_def bind_eq_Some_conv intro: quiet_state)

lemma rs_purge_log_keeps:
  "rs_purge_log u s = Some s' \<Longrightarrow> vote_ref s' = vote_ref s \<and> rs_io_state s' = rs_io_state s"
  by (auto simp: rs_purge_log_def bind_eq_Some_conv vote_ref_def)

lemma quiet_lh_purge_log: "lh_purge_log e = Some e' \<Longrightarrow> quiet e e'"
  by (auto simp: lh_purge_log_def Let_def bind_eq_Some_conv split: if_splits
      intro!: quiet_push quiet_state dest: rs_purge_log_keeps)

lemma quiet_lh_update_purge_upto: "lh_update_purge_upto u e = Some e' \<Longrightarrow> quiet e e'"
  by (auto simp: lh_update_purge_upto_def intro!: quiet_state)

lemma quiet_lh_schedule: "lh_schedule_policy_based_purge e = Some e' \<Longrightarrow> quiet e e'"
  by (auto simp: lh_schedule_policy_based_purge_def bind_eq_Some_conv split: option.splits
      intro: quiet_lh_update_purge_upto)

lemma quiet_sh_trigger: "quiet e (snd (sh_trigger_snapshot e))"
  by (auto simp: sh_trigger_snapshot_def ios_set_building_snapshot_def intro!: quiet_push quiet_state)

lemma quiet_sh_update: "sh_update_snapshot m e = (b, e') \<Longrightarrow> quiet e e'"
  by (auto simp: sh_update_snapshot_def split: if_splits intro!: quiet_state)

lemma quiet_rebuild_progresses: "rh_rebuild_progresses e = Some e' \<Longrightarrow> quiet e e'"
  by (auto simp: rh_rebuild_progresses_def Let_def bind_eq_Some_conv intro!: quiet_leader)

lemma quiet_update_leader_clock: "rh_update_leader_clock n t e = Some e' \<Longrightarrow> quiet e e'"
  by (auto simp: rh_update_leader_clock_def bind_eq_Some_conv split: sum.splits intro!: quiet_leader)

lemma rs_update_local_committed_keeps:
  "rs_update_local_committed l s = Some (r, s') \<Longrightarrow> vote_ref s' = vote_ref s
     \<and> io_flushed (ios_log_progress (rs_io_state s')) = io_flushed (ios_log_progress (rs_io_state s))"
  by (auto simp: rs_update_local_committed_def Let_def bind_eq_Some_conv vote_ref_def split: if_splits)

lemma rs_update_committed_keeps:
  "rs_update_committed l s = Some s' \<Longrightarrow> vote_ref s' = vote_ref s
     \<and> io_flushed (ios_log_progress (rs_io_state s')) = io_flushed (ios_log_progress (rs_io_state s))"
  by (auto simp: rs_update_committed_def Let_def bind_eq_Some_conv vote_ref_def
      dest!: rs_update_local_committed_keeps)

lemma quiet_try_commit: "rh_try_commit_quorum_accepted g e = Some e' \<Longrightarrow> quiet e e'"
  by (auto simp: rh_try_commit_quorum_accepted_def Let_def bind_eq_Some_conv vote_ref_def
      split: if_splits option.splits intro!: quiet_push quiet_state dest!: rs_update_local_committed_keeps)

lemma quiet_update_matching:
  assumes "rh_update_matching n l i e = Some e'"
  shows "quiet e e'"
proof -
  obtain ld g p where *: "en_leader e = Some ld"
    "rh_try_commit_quorum_accepted g (e\<lparr>en_leader := Some (ld\<lparr>ld_progress := p\<rparr>)\<rparr>) = Some e'"
    using assms by (auto simp: rh_update_matching_def bind_eq_Some_conv split: sum.splits)
  have "quiet e (e\<lparr>en_leader := Some (ld\<lparr>ld_progress := p\<rparr>)\<rparr>)" by (rule quiet_leader[OF *(1)]) simp
  then show ?thesis by (rule quiet_trans) (rule quiet_try_commit[OF *(2)])
qed

lemma quiet_set_entry: "en_leader e = Some l \<Longrightarrow> rh_set_entry n pe l e = Some e' \<Longrightarrow> quiet e e'"
  by (auto simp: rh_set_entry_def bind_eq_Some_conv intro!: quiet_leader)

lemma quiet_update_conflicting: "rh_update_conflicting n l i e = Some e' \<Longrightarrow> quiet e e'"
  by (auto simp: rh_update_conflicting_def bind_eq_Some_conv intro: quiet_set_entry)

lemma quiet_allow_next_revert: "rh_allow_next_revert n b e = Some (r, e') \<Longrightarrow> quiet e e'"
  by (auto simp: rh_allow_next_revert_def bind_eq_Some_conv split: option.splits intro: quiet_set_entry)

lemma quiet_try_purge: "rh_try_purge_log e = Some e' \<Longrightarrow> quiet e e'"
  by (auto simp: rh_try_purge_log_def Let_def bind_eq_Some_conv split: if_splits intro: quiet_lh_purge_log)

lemma quiet_update_progress:
  assumes "rh_update_progress n r i e = Some e'"
  shows "quiet e e'"
proof -
  obtain e1 where "quiet e e1" "rh_try_purge_log e1 = Some e'"
    using assms by (auto simp: rh_update_progress_def bind_eq_Some_conv split: sum.splits
        intro: quiet_update_matching quiet_update_conflicting quiet_set_entry)
  then show ?thesis using quiet_trans quiet_try_purge by blast
qed

lemma quiet_rebuild_streams: "rh_rebuild_replication_streams e = Some e' \<Longrightarrow> quiet e e'"
  by (auto simp: rh_rebuild_replication_streams_def Let_def bind_eq_Some_conv intro!: quiet_push quiet_leader)

lemma send_to_target_pushes:
  "rh_send_to_target t i o' = Some o2 \<Longrightarrow> \<exists>c. neutral c \<and> o2 = push_command c o'"
  by (cases i) (auto, metis neutral_simps(5), metis neutral_simps(6))

lemma initiate_from_pushes:
  "rh_initiate_from self m items st o' = Some (items', st', o2) \<Longrightarrow>
     (\<exists>cs. eo_commands o2 = eo_commands o' @ cs \<and> (\<forall>c \<in> set cs. neutral c)) \<and> eo_pending o2 = eo_pending o'"
proof (induction self m items st o' arbitrary: items' st' o2 rule: rh_initiate_from.induct)
  case (2 self m nid pe items st out)
  show ?case
  proof (cases "nid = self")
    case True
    then show ?thesis using 2 by (auto simp: bind_eq_Some_conv)
  next
    case False
    then obtain t pe' st1 o1 is1 where *: "pe_next_send m pe st = Some (t, pe', st1)"
      "rh_initiate_from self m items st1 o1 = Some (is1, st', o2)"
      "(case t of Inl x \<Rightarrow> Some out | Inr inflight \<Rightarrow> rh_send_to_target nid inflight out) = Some o1"
      using "2.prems" by (auto simp: bind_eq_Some_conv)
    have "o1 = out \<or> (\<exists>c. neutral c \<and> o1 = push_command c out)"
      using *(3) by (auto split: sum.splits dest: send_to_target_pushes)
    then show ?thesis
      using "2.IH"(2)[OF False *(1) refl refl *(3) *(2)] by (auto simp: push_command_def)
  qed
qed simp

lemma quiet_initiate:
  assumes "rh_initiate_replication e = Some e'"
  shows "quiet e e'"
proof -
  obtain l items st out where *: "en_leader e = Some l"
    "rh_initiate_from (en_id e) (ec_max_payload_entries (en_config e)) (vp_entries (ld_progress l))
       (en_state e) (en_output e) = Some (items, st, out)"
    "e' = e\<lparr>en_leader := Some (l\<lparr>ld_progress := (ld_progress l)\<lparr>vp_entries := items\<rparr>\<rparr>), en_state := st, en_output := out\<rparr>"
    using assms unfolding rh_initiate_replication_def by (clarsimp simp: bind_eq_Some_conv)
  have "st = (en_state e)\<lparr>rs_last_inflight_id := rs_last_inflight_id st\<rparr>"
    using rh_initiate_from_state[OF *(2)] by simp
  then obtain i where "st = (en_state e)\<lparr>rs_last_inflight_id := i\<rparr>" by blast
  then show ?thesis using initiate_from_pushes[OF *(2)] *(1,3) by (simp add: quiet_def leading_vote_def)
qed

lemma quiet_append_membership:
  assumes "rh_append_membership lid m e = Some e'"
  shows "quiet e e'"
proof -
  obtain ms e2 e3 where "rh_rebuild_progresses (e\<lparr>en_state := (en_state e)\<lparr>rs_membership_state := ms\<rparr>\<rparr>) = Some e2"
    "rh_rebuild_replication_streams e2 = Some e3" "rh_initiate_replication e3 = Some e'"
    using assms by (auto simp: rh_append_membership_def Let_def bind_eq_Some_conv)
  note * = quiet_rebuild_progresses[OF this(1)] quiet_rebuild_streams[OF this(2)] quiet_initiate[OF this(3)]
  have "quiet e (e\<lparr>en_state := (en_state e)\<lparr>rs_membership_state := ms\<rparr>\<rparr>)" by (rule quiet_state) simp_all
  then show ?thesis using * quiet_trans by blast
qed

lemma quiet_update_local_progress:
  assumes "rh_update_local_progress u e = Some e'"
  shows "quiet e e'"
  using assms
  by (auto simp: rh_update_local_progress_def bind_eq_Some_conv split: if_splits option.splits
      intro: quiet_trans[OF quiet_set_entry quiet_update_matching])

lemma quiet_send_heartbeat: "send_heartbeat e = Some e' \<Longrightarrow> quiet e e'"
  by (auto simp: send_heartbeat_def Let_def bind_eq_Some_conv intro!: quiet_push)

lemma quiet_transfer_leader: "transfer_leader t e = Some e' \<Longrightarrow> quiet e e'"
  by (auto simp: transfer_leader_def Let_def bind_eq_Some_conv ld_mark_transfer_def quiet_def leading_vote_def
      vote_ref_def leased_disable_lease_def en_push_def push_command_def)

lemmas quiet_handlers =
  quiet_lh_purge_log quiet_lh_update_purge_upto quiet_lh_schedule quiet_rebuild_progresses
  quiet_update_leader_clock quiet_try_commit quiet_update_matching quiet_update_conflicting
  quiet_allow_next_revert quiet_try_purge quiet_update_progress quiet_rebuild_streams quiet_initiate
  quiet_append_membership quiet_update_local_progress quiet_send_heartbeat quiet_transfer_leader

text \<open>Operations of the following handler and of the snapshots that leave the vote alone.\<close>

lemma quiet_truncate: "fh_truncate_logs i e = Some e' \<Longrightarrow> quiet e e'"
  by (auto simp: fh_truncate_logs_def Let_def bind_eq_Some_conv vote_ref_def quiet_def leading_vote_def
      split: option.splits if_splits)

lemma quiet_fh_append_membership: "fh_append_membership es e = Some e' \<Longrightarrow> quiet e e'"
  by (auto simp: fh_append_membership_def Let_def bind_eq_Some_conv split: if_splits
      intro!: quiet_ssh' quiet_state)

lemma quiet_ensure_consecutive: "fh_ensure_log_consecutive p e = Some (r, e') \<Longrightarrow> quiet e e'"
  by (auto simp: fh_ensure_log_consecutive_def Let_def bind_eq_Some_conv split: option.splits if_splits
      intro: quiet_truncate)

lemma quiet_update_committed_membership: "fh_update_committed_membership m e = Some e' \<Longrightarrow> quiet e e'"
  by (auto simp: fh_update_committed_membership_def bind_eq_Some_conv intro!: quiet_ssh' quiet_state)

lemma quiet_en_try_purge: "en_try_purge_log e = Some e' \<Longrightarrow> quiet e e'"
  by (auto simp: en_try_purge_log_def split: if_splits intro: quiet_handlers)

lemma io_accept_keeps: "io_accept x p = Some p' \<Longrightarrow> io_flushed p' = io_flushed p"
  by (auto simp: io_accept_def)

lemma quiet_accept_log_io: "en_accept_log_io i e = Some e' \<Longrightarrow> quiet e e'"
  by (rule quiet_on_state[of "rs_accept_log_io' i"])
    (auto simp: en_accept_log_io_def rs_accept_log_io'_def rs_accept_log_io_def Let_def bind_eq_Some_conv
      split: if_splits dest: io_accept_keeps)

lemma quiet_accept_apply: "en_on_state (rs_accept_apply_and_snapshot l) e = Some e' \<Longrightarrow> quiet e e'"
  by (rule quiet_on_state) (auto simp: rs_accept_apply_and_snapshot_def bind_eq_Some_conv)

lemma quiet_building_done:
  assumes "en_on_building_snapshot_done m e = Some e'"
  shows "quiet e e'"
proof -
  let ?e1 = "e\<lparr>en_state := (en_state e)\<lparr>rs_io_state := ios_set_building_snapshot False (rs_io_state (en_state e))\<rparr>\<rparr>"
  have q1: "quiet e ?e1" by (rule quiet_state) (simp_all add: ios_set_building_snapshot_def)
  show ?thesis
  proof (cases m)
    case None
    then show ?thesis using assms q1 by (simp add: en_on_building_snapshot_done_def)
  next
    case (Some meta)
    then obtain e2 where e2: "(case snap_last_log_id meta of
             Some l \<Rightarrow> do {
               p \<leftarrow> io_try_update_all l (ios_snapshot (rs_io_state (en_state ?e1)));
               Some (?e1\<lparr>en_state := (en_state ?e1)\<lparr>rs_io_state :=
                 (rs_io_state (en_state ?e1))\<lparr>ios_snapshot := p\<rparr>\<rparr>\<rparr>) }
           | None \<Rightarrow> Some ?e1) = Some e2"
      and r: "(case sh_update_snapshot meta e2 of
             (False, e3) \<Rightarrow> Some e3
           | (True, e3) \<Rightarrow> do {
               e4 \<leftarrow> lh_schedule_policy_based_purge e3;
               en_try_purge_log e4 }) = Some e'"
      using assms by (auto simp: en_on_building_snapshot_done_def Let_def bind_eq_Some_conv)
    have q2: "quiet ?e1 e2"
      using e2 by (auto simp: bind_eq_Some_conv quiet_def leading_vote_def vote_ref_def
          ios_set_building_snapshot_def split: option.splits)
    have q3: "quiet e2 e'"
      using r by (auto simp: bind_eq_Some_conv split: prod.splits bool.splits
          intro: quiet_sh_update quiet_trans[OF quiet_sh_update quiet_trans[OF quiet_lh_schedule quiet_en_try_purge]])
    show ?thesis using q1 q2 q3 quiet_trans by blast
  qed
qed

lemma quiet_trigger_purge: "en_trigger_purge_log i e = Some e' \<Longrightarrow> quiet e e'"
  by (auto simp: en_trigger_purge_log_def Let_def bind_eq_Some_conv split: option.splits if_splits
      intro: quiet_trans[OF quiet_lh_update_purge_upto quiet_en_try_purge])

lemma quiet_trigger_transfer: "en_trigger_transfer_leader t e = Some e' \<Longrightarrow> quiet e e'"
  by (auto simp: en_trigger_transfer_leader_def bind_eq_Some_conv split: sum.splits intro: quiet_transfer_leader)

lemma quiet_begin_receiving: "quiet e (en_handle_begin_receiving_snapshot tx e)"
  by (simp add: en_handle_begin_receiving_snapshot_def quiet_push)

section \<open>Operations that keep the discipline\<close>

text \<open>
  The general step: it extends the queue along \<open>track\<close>, keeps the pending responds, and the leader, if
  there is one, leads with a vote not above the local one.
\<close>

definition lead_le :: "engine \<Rightarrow> bool" where
  "lead_le e \<longleftrightarrow> (\<forall>v. leading_vote e = Some v \<longrightarrow> cv_into_vote v \<le> vote_ref (en_state e))"

definition extends :: "engine \<Rightarrow> engine \<Rightarrow> bool" where
  "extends e e' \<longleftrightarrow> (\<exists>cs. eo_commands (en_output e') = eo_commands (en_output e) @ cs
       \<and> track (vote_ref (en_state e)) cs = Some (vote_ref (en_state e')))
     \<and> eo_pending (en_output e') = eo_pending (en_output e) \<and> en_config e' = en_config e
     \<and> io_flushed (ios_log_progress (rs_io_state (en_state e'))) = io_flushed (ios_log_progress (rs_io_state (en_state e)))"

text \<open>The candidate stays or is given up.\<close>

definition no_new_candidate :: "engine \<Rightarrow> engine \<Rightarrow> bool" where
  "no_new_candidate e e' \<longleftrightarrow> en_candidate e' = en_candidate e \<or> en_candidate e' = None"

definition keeps :: "engine \<Rightarrow> engine \<Rightarrow> bool" where
  "keeps e e' \<longleftrightarrow> extends e e' \<and> lead_le e' \<and> no_new_candidate e e'"

lemma extends_refl [simp]: "extends e e"
  by (simp add: extends_def)

lemma extends_trans: "extends a b \<Longrightarrow> extends b c \<Longrightarrow> extends a c"
  unfolding extends_def by (elim conjE exE) (intro conjI; force simp: track_append)

lemma no_new_candidate_trans: "no_new_candidate a b \<Longrightarrow> no_new_candidate b c \<Longrightarrow> no_new_candidate a c"
  by (auto simp: no_new_candidate_def)

lemma keeps_trans: "keeps a b \<Longrightarrow> keeps b c \<Longrightarrow> keeps a c"
  unfolding keeps_def using extends_trans no_new_candidate_trans by blast

lemma keeps_refl: "lead_le e \<Longrightarrow> keeps e e"
  by (simp add: keeps_def no_new_candidate_def)

lemma quiet_extends: "quiet e e' \<Longrightarrow> extends e e'"
  by (auto simp: quiet_def extends_def track_neutral)

lemma quiet_lead_le: "quiet e e' \<Longrightarrow> lead_le e \<Longrightarrow> lead_le e'"
  by (simp add: quiet_def lead_le_def)

lemma quiet_keeps: "quiet e e' \<Longrightarrow> lead_le e \<Longrightarrow> keeps e e'"
  unfolding keeps_def no_new_candidate_def using quiet_extends quiet_lead_le by (simp add: quiet_def)

lemma keeps_lead: "keeps a b \<Longrightarrow> lead_le b"
  by (simp add: keeps_def)

lemma keeps_quiet: assumes "keeps a b" "quiet b c" shows "keeps a c"
  by (rule keeps_trans[OF assms(1) quiet_keeps[OF assms(2) keeps_lead[OF assms(1)]]])

lemma keeps_then: assumes "keeps a b" "lead_le b \<Longrightarrow> keeps b c" shows "keeps a c"
  by (rule keeps_trans[OF assms(1) assms(2)[OF keeps_lead[OF assms(1)]]])

lemma keeps_vote_mono: "keeps e e' \<Longrightarrow> vote_ref (en_state e) \<le> vote_ref (en_state e')"
  by (auto simp: keeps_def extends_def dest: track_mono)

lemma keeps_config: "keeps e e' \<Longrightarrow> en_config e' = en_config e"
  by (simp add: keeps_def extends_def)

text \<open>Pushing an I/O command of a vote that is covered.\<close>

lemma extends_push:
  assumes "extends e e'" "\<forall>v. c \<noteq> SaveVote v" "respond_waits c"
    "\<And>v. command_vote c = Some v \<Longrightarrow> covers (vote_ref (en_state e')) v"
  shows "extends e (en_push c e')"
proof -
  obtain cs where cs: "eo_commands (en_output e') = eo_commands (en_output e) @ cs"
    "track (vote_ref (en_state e)) cs = Some (vote_ref (en_state e'))"
    using assms(1) by (auto simp: extends_def)
  have "track (vote_ref (en_state e)) (cs @ [c]) = Some (vote_ref (en_state e'))"
    using cs(2) assms(2-4) by (auto simp: track_append track_other split: option.splits)
  then show ?thesis
    using assms(1) cs(1) by (auto simp: extends_def)
qed

lemma keeps_push:
  assumes "keeps e e'" "\<forall>v. c \<noteq> SaveVote v" "respond_waits c"
    "\<And>v. command_vote c = Some v \<Longrightarrow> covers (vote_ref (en_state e')) v"
  shows "keeps e (en_push c e')"
  using assms extends_push[of e e' c] by (simp add: keeps_def lead_le_def no_new_candidate_def leading_vote_def)

lemma leader_append_keeps:
  assumes "leader_append_entries es e = Some e'" "lead_le e"
  shows "keeps e e'"
proof (cases "es = []")
  case True
  then show ?thesis using assms by (auto simp: leader_append_entries_def bind_eq_Some_conv intro: keeps_refl)
next
  case False
  obtain l es' l1 ks mem st2 e2 where *: "en_leader e = Some l" "ld_assign_log_ids es l = Some (es', l1)"
    "rs_accept_log_io' (io_id_new_log_io (ld_committed_vote l1) (ld_last_log_id l1))
       ((en_state e)\<lparr>rs_log_ids := ks\<rparr>) = Some st2"
    "(case mem of Some (lid, m) \<Rightarrow> rh_append_membership lid m (en_push (AppendEntries (ld_committed_vote l1) es')
          (e\<lparr>en_leader := Some l1, en_state := st2\<rparr>))
      | None \<Rightarrow> Some (en_push (AppendEntries (ld_committed_vote l1) es')
          (e\<lparr>en_leader := Some l1, en_state := st2\<rparr>))) = Some e2"
    "rh_initiate_replication e2 = Some e'"
    using assms(1) False unfolding leader_append_entries_def Let_def rs_extend_log_ids_from_same_leader_def
    by (clarsimp simp: bind_eq_Some_conv)
  have l1: "ld_committed_vote l1 = ld_committed_vote l" using ld_assign_frame(1)[OF *(2)] by auto
  have st: "vote_ref st2 = vote_ref (en_state e)
      \<and> io_flushed (ios_log_progress (rs_io_state st2)) = io_flushed (ios_log_progress (rs_io_state (en_state e)))"
    using *(3) by (auto simp: rs_accept_log_io'_def rs_accept_log_io_def
        Let_def bind_eq_Some_conv split: if_splits dest: io_accept_keeps)
  let ?e0 = "e\<lparr>en_leader := Some l1, en_state := st2\<rparr>"
  have "quiet e ?e0"
    using *(1) l1 st by (simp add: quiet_def leading_vote_def)
  then have k0: "keeps e ?e0" by (rule quiet_keeps[OF _ assms(2)])
  have "cv_into_vote (ld_committed_vote l) \<le> vote_ref (en_state e)"
    using assms(2) *(1) by (simp add: lead_le_def leading_vote_def)
  then have k1: "keeps e (en_push (AppendEntries (ld_committed_vote l1) es') ?e0)"
    using st l1 by (intro keeps_push[OF k0]) simp_all
  have "quiet (en_push (AppendEntries (ld_committed_vote l1) es') ?e0) e2"
    using *(4) by (auto split: option.splits prod.splits intro: quiet_append_membership)
  then have "quiet (en_push (AppendEntries (ld_committed_vote l1) es') ?e0) e'"
    using quiet_initiate[OF *(5)] quiet_trans by blast
  moreover have "lead_le (en_push (AppendEntries (ld_committed_vote l1) es') ?e0)"
    using k1 by (simp add: keeps_def)
  ultimately show ?thesis by (intro keeps_trans[OF k1 quiet_keeps])
qed

section \<open>Votes and leaders\<close>

lemma leader_new_vote: "leader_new now v qs ls ids = Some l \<Longrightarrow> ld_committed_vote l = v"
  by (auto simp: leader_new_def Let_def bind_eq_Some_conv)

lemma rs_new_leader_vote: "rs_new_leader now s = Some l \<Longrightarrow> ld_committed_vote l = vote_into_committed (vote_ref s)"
  by (auto simp: rs_new_leader_def Let_def dest: leader_new_vote)

lemma into_committed_le: "vote_committed v \<Longrightarrow> cv_into_vote (vote_into_committed v) = v"
  by (cases v) (simp add: vote_conv_defs)

lemma keeps_leader:
  assumes "cv_into_vote (ld_committed_vote l) \<le> vote_ref (en_state e)"
  shows "keeps e (e\<lparr>en_leader := Some l\<rparr>)"
  using assms by (simp add: keeps_def extends_def lead_le_def leading_vote_def no_new_candidate_def)

lemma vh_recreate_leader_keeps:
  assumes "vh_recreate_leader now e = Some e'" "vote_committed (vote_ref (en_state e))"
  shows "keeps e e'"
proof -
  let ?io = "\<lambda>l. io_id_new_log_io (ld_committed_vote l) (ld_last_log_id l)"
  obtain l e1 e4 where *: "rs_new_leader now (en_state e) = Some l"
    "en_accept_log_io (?io l) (e\<lparr>en_leader := Some l\<rparr>) = Some e1"
    "rh_rebuild_replication_streams (ssh_update_server_state (en_push (UpdateIOProgress None (?io l)) e1)) = Some e4"
    "(if ld_last_log_id l < Some (ld_noop_log_id l) then leader_append_entries [blank_entry] e4
      else rh_initiate_replication e4) = Some e'"
    using assms(1) unfolding vh_recreate_leader_def Let_def by (clarsimp simp: bind_eq_Some_conv)
  have v: "cv_into_vote (ld_committed_vote l) = vote_ref (en_state e)"
    using rs_new_leader_vote[OF *(1)] into_committed_le[OF assms(2)] by simp
  have k1: "keeps e (e\<lparr>en_leader := Some l\<rparr>)" by (rule keeps_leader) (simp add: v)
  then have k2: "keeps e e1"
    by (rule keeps_quiet) (rule quiet_accept_log_io[OF *(2)])
  have "keeps e (en_push (UpdateIOProgress None (?io l)) e1)"
    using keeps_vote_mono[OF k2] v by (intro keeps_push[OF k2]) (auto simp: io_id_new_log_io_def)
  moreover have "quiet (en_push (UpdateIOProgress None (?io l)) e1) e4"
    using quiet_trans[OF quiet_ssh quiet_rebuild_streams[OF *(3)]] .
  ultimately have k4: "keeps e e4" by (rule keeps_quiet)
  then have "lead_le e4" by (simp add: keeps_def)
  then have "keeps e4 e'"
    using *(4) by (auto split: if_splits intro: leader_append_keeps quiet_keeps quiet_initiate)
  then show ?thesis by (rule keeps_trans[OF k4])
qed

lemma vh_become_leader_keeps:
  assumes "vh_become_leader now e = Some e'" "vote_committed (vote_ref (en_state e))"
  shows "keeps e e'"
proof (cases "\<exists>l. en_leader e = Some l \<and> vote_leader_id (cv_into_vote (ld_committed_vote l)) = vote_leader_id (vote_ref (en_state e))")
  case True
  then obtain l where "en_leader e = Some l" "e' = ssh_update_server_state (e\<lparr>en_leader :=
                 Some (l\<lparr>ld_committed_vote := vote_into_committed (vote_ref (en_state e))\<rparr>)\<rparr>)"
    using assms(1) by (auto simp: vh_become_leader_def)
  then show ?thesis
    using into_committed_le[OF assms(2)]
    by (auto intro!: keeps_trans[OF keeps_leader quiet_keeps[OF quiet_ssh]] simp: lead_le_def leading_vote_def)
next
  case False
  then have "vh_recreate_leader now e = Some e'"
    using assms(1) by (auto simp: vh_become_leader_def split: option.splits)
  then show ?thesis by (rule vh_recreate_leader_keeps[OF _ assms(2)])
qed

lemma vh_become_following_keeps:
  assumes "vh_become_following e = Some e'"
  shows "keeps e e'"
  unfolding vh_become_following_eq[OF assms]
  by (rule keeps_trans[OF _ quiet_keeps[OF quiet_ssh]])
    (simp_all add: keeps_def extends_def lead_le_def leading_vote_def no_new_candidate_def)

lemma vh_update_internal_keeps:
  assumes "vh_update_internal_server_state now e = Some e'" "lead_le e"
  shows "keeps e e'"
  using assms(1) keeps_refl[OF assms(2)]
  by (auto simp: vh_update_internal_server_state_def rs_is_leader_def split: if_splits
      intro: vh_become_leader_keeps vh_become_following_keeps)

text \<open>An accepted vote is saved before anything else; a leader elected with it is not above it then.\<close>

lemma vh_update_vote_accepted:
  assumes "vh_update_vote now vote e = Some (r, e')" "vote \<ge> vote_ref (en_state e)"
    "\<And>v. leading_vote e = Some v \<Longrightarrow> cv_into_vote v \<le> vote"
  shows "keeps e e'"
proof -
  obtain e1 where e1: "vh_update_internal_server_state now e1 = Some e'" "keeps e e1"
  proof (cases "vote > vote_ref (en_state e)")
    case gt: True
    let ?e = "e\<lparr>en_state := (en_state e)\<lparr>rs_vote := leased_update now (if vote_committed vote
              then tc_leader_lease (ec_timer_config (en_config e)) else 0) vote (rs_vote (en_state e))\<rparr>\<rparr>"
    obtain e1 where *: "en_accept_log_io (io_id_new vote) ?e = Some e1"
      "vh_update_internal_server_state now (en_push (SaveVote vote) e1) = Some e'"
      using assms(1,2) gt unfolding vh_update_vote_def by (auto simp: Let_def bind_eq_Some_conv split: if_splits)
    have v: "vote_ref (en_state ?e) = vote" by (simp add: vote_ref_def leased_update_def)
    have q: "quiet ?e e1" by (rule quiet_accept_log_io[OF *(1)])
    have "keeps e (en_push (SaveVote vote) e1)"
      using q v gt assms(3)
      by (auto simp: quiet_def keeps_def extends_def lead_le_def leading_vote_def no_new_candidate_def
          track_append track_neutral)
    then show ?thesis using that *(2) by blast
  next
    case False
    with assms(2) have eq: "vote = vote_ref (en_state e)" by auto
    obtain v where *: "leased_touch now (if vote_committed vote
              then tc_leader_lease (ec_timer_config (en_config e)) else 0) (rs_vote (en_state e)) = Some v"
      "vh_update_internal_server_state now (e\<lparr>en_state := (en_state e)\<lparr>rs_vote := v\<rparr>\<rparr>) = Some e'"
      using assms(1) False eq unfolding vh_update_vote_def by (auto simp: Let_def bind_eq_Some_conv split: if_splits)
    have "quiet e (e\<lparr>en_state := (en_state e)\<lparr>rs_vote := v\<rparr>\<rparr>)"
      using leased_touch_data[OF *(1)] by (intro quiet_state) (simp_all add: vote_ref_def)
    moreover have "lead_le e" using eq assms(3) by (simp add: lead_le_def)
    ultimately show ?thesis using that[OF *(2)] quiet_keeps by blast
  qed
  show ?thesis by (rule keeps_then[OF e1(2) vh_update_internal_keeps[OF e1(1)]])
qed

lemma vh_update_vote_keeps:
  assumes "vh_update_vote now vote e = Some (r, e')" "lead_le e"
  shows "keeps e e'"
proof (cases "vote \<ge> vote_ref (en_state e)")
  case False
  then show ?thesis using vh_update_vote_result(2)[OF assms(1)] keeps_refl[OF assms(2)] by simp
next
  case True
  show ?thesis
    by (rule vh_update_vote_accepted[OF assms(1) True]) (use assms(2) True in \<open>auto simp: lead_le_def\<close>)
qed

lemma vh_accept_vote_keeps:
  assumes "vh_accept_vote now vote f e = Some (b, e')" "lead_le e"
    "\<And>st err. neutral (Respond (Some (IOFlushed (io_id_new (vote_ref st)))) (f st err))"
  shows "keeps e e'"
proof -
  obtain r e1 where *: "vh_update_vote now vote e = Some (r, e1)"
    "e' = e1 \<or> (\<exists>err. e' = en_push (Respond (Some (IOFlushed (io_id_new (vote_ref (en_state e1))))) (f (en_state e1) err)) e1)"
    using assms(1) by (auto simp: vh_accept_vote_def bind_eq_Some_conv split: sum.splits)
  have k: "keeps e e1" by (rule vh_update_vote_keeps[OF *(1) assms(2)])
  then show ?thesis
    using *(2) assms(3) keeps_trans[OF k quiet_keeps[OF quiet_push[OF assms(3) quiet_refl]]]
    by (auto simp: keeps_def)
qed

end
