(* ===== verification/VoteEvents.thy ===== *)
theory VoteEvents
imports VotePromises
begin

text \<open>
  Every event of the engine keeps the discipline of \<open>VotePromises\<close>: elections, vote requests and
  responses, appends, snapshots and the start. Only an election makes a new candidate, and only a
  granted vote of a quorum turns the candidate into a leader.
\<close>

section \<open>Following\<close>

lemma following_handler_vote:
  "en_following_handler e = Some lv \<Longrightarrow> cv_into_vote lv = vote_ref (en_state e) \<and> en_leader e = None"
  by (auto simp: en_following_handler_def into_committed_le)

lemma fh_do_append_keeps:
  assumes "fh_do_append_entries lv es e = Some e'" "lead_le e" "covers (vote_ref (en_state e)) (cv_into_vote lv)"
  shows "keeps e e'"
proof -
  obtain e1 e2 where *: "en_on_state (rs_extend_log_ids (log_ids_of es)) e = Some e1"
    "fh_append_membership es e1 = Some e2" "e' = en_push (AppendEntries lv es) e2"
    using assms(1) by (auto simp: fh_do_append_entries_def bind_eq_Some_conv)
  have q1: "quiet e e1"
    by (rule quiet_on_state[OF *(1)]) (auto simp: rs_extend_log_ids_def bind_eq_Some_conv vote_ref_def)
  have k: "keeps e e2"
    by (rule quiet_keeps[OF quiet_trans[OF q1 quiet_fh_append_membership[OF *(2)]] assms(2)])
  show ?thesis
    unfolding *(3) using covers_mono[OF assms(3) keeps_vote_mono[OF k]] by (intro keeps_push[OF k]) auto
qed

lemma fh_append_entries_keeps:
  assumes "fh_append_entries lv prev es e = Some e'" "lead_le e" "covers (vote_ref (en_state e)) (cv_into_vote lv)"
  shows "keeps e e'"
proof -
  let ?io = "io_id_new_log_io lv (max prev (map_option e_log_id (last_opt es)))"
  obtain p st since where *: "rs_accept_log_io ?io (en_state e) = Some (p, st)"
    "(if since < length es
      then do {
        e2 \<leftarrow> fh_truncate_logs (lg_index (e_log_id (es ! since))) (e\<lparr>en_state := st\<rparr>);
        fh_do_append_entries lv (drop since es) e2 }
      else if Some ?io \<le> p then Some (e\<lparr>en_state := st\<rparr>)
         else Some (en_push (UpdateIOProgress (map_option IOFlushed p) ?io) (e\<lparr>en_state := st\<rparr>))) = Some e'"
    using assms(1) unfolding fh_append_entries_def Let_def by (clarsimp simp: bind_eq_Some_conv)
  have "en_accept_log_io ?io e = Some (e\<lparr>en_state := st\<rparr>)"
    using *(1) by (simp add: en_accept_log_io_def en_on_state_def rs_accept_log_io'_def)
  then have q1: "quiet e (e\<lparr>en_state := st\<rparr>)" by (rule quiet_accept_log_io)
  then have k1: "keeps e (e\<lparr>en_state := st\<rparr>)" by (rule quiet_keeps[OF _ assms(2)])
  have c1: "covers (vote_ref st) (cv_into_vote lv)"
    using covers_mono[OF assms(3) keeps_vote_mono[OF k1]] by simp
  show ?thesis
  proof (cases "since < length es")
    case True
    then obtain e2 where e2: "fh_truncate_logs (lg_index (e_log_id (es ! since))) (e\<lparr>en_state := st\<rparr>) = Some e2"
      "fh_do_append_entries lv (drop since es) e2 = Some e'"
      using *(2) by (auto simp: bind_eq_Some_conv)
    have q2: "quiet (e\<lparr>en_state := st\<rparr>) e2" by (rule quiet_truncate[OF e2(1)])
    have k2: "keeps e e2" by (rule keeps_quiet[OF k1 q2])
    have "covers (vote_ref (en_state e2)) (cv_into_vote lv)" using q2 c1 by (simp add: quiet_def)
    then show ?thesis by (intro keeps_then[OF k2 fh_do_append_keeps[OF e2(2)]])
  next
    case False
    then show ?thesis
      using *(2) k1 c1 keeps_push[OF k1, of "UpdateIOProgress (map_option IOFlushed p) ?io"]
      by (auto simp: io_id_new_log_io_def split: if_splits)
  qed
qed

lemma fh_install_keeps:
  assumes "fh_install_full_snapshot lv snap e = Some (c, e')" "lead_le e"
    "covers (vote_ref (en_state e)) (cv_into_vote lv)"
  shows "keeps e e'"
proof (cases "e' = e \<or> sh_update_snapshot (snap_meta snap) e = (False, e')")
  case True
  then show ?thesis using keeps_refl[OF assms(2)] quiet_keeps[OF quiet_sh_update assms(2)] by auto
next
  case False
  obtain b x where bx: "sh_update_snapshot (snap_meta snap) e = (b, x)" by fastforce
  with False obtain l e1 e2 e3 e4 e5 where *: "sh_update_snapshot (snap_meta snap) e = (True, e1)"
    "(case rs_get_log_id (en_state e1) (lg_index l) of
                Some local \<Rightarrow>
                  if local \<noteq> l
                  then fh_truncate_logs (next_index (rs_committed (en_state e1))) e1 else Some e1
              | None \<Rightarrow> Some e1) = Some e2"
    "en_accept_log_io (IOLog (LogIOId lv (Some l))) e2 = Some e3"
    "en_on_state (rs_accept_apply_and_snapshot l) e3 = Some e4"
    "fh_update_committed_membership (em_new_from_stored (snap_last_membership (snap_meta snap))) e4 = Some e5"
    "lh_purge_log ((en_push (StateMachine (InstallFullSnapshot (LogIOId lv (Some l)) snap)) e5)\<lparr>en_state :=
       (en_state e5)\<lparr>rs_purge_upto := Some l\<rparr>\<rparr>) = Some e'"
    using assms(1) unfolding fh_install_full_snapshot_def Let_def
    by (cases b) (clarsimp simp: bind_eq_Some_conv split: if_splits)+
  have "quiet e1 e2" using *(2) by (auto split: option.splits if_splits intro: quiet_truncate)
  then have "quiet e e5"
    using quiet_sh_update[OF *(1)] quiet_accept_log_io[OF *(3)] quiet_accept_apply[OF *(4)]
      quiet_update_committed_membership[OF *(5)] by (blast intro: quiet_trans)
  then have k5: "keeps e e5" by (rule quiet_keeps[OF _ assms(2)])
  let ?c = "StateMachine (InstallFullSnapshot (LogIOId lv (Some l)) snap)"
  have k6: "keeps e (en_push ?c e5)"
    using covers_mono[OF assms(3) keeps_vote_mono[OF k5]] by (intro keeps_push[OF k5]) auto
  have "quiet (en_push ?c e5) ((en_push ?c e5)\<lparr>en_state := (en_state e5)\<lparr>rs_purge_upto := Some l\<rparr>\<rparr>)"
    by (rule quiet_state) simp_all
  then show ?thesis
    using keeps_quiet[OF k6 quiet_trans[OF _ quiet_lh_purge_log[OF *(6)]]] by blast
qed

section \<open>The events\<close>

lemma en_startup_keeps:
  assumes "en_startup now e = Some e'" "lead_le e"
  shows "keeps e e'"
proof (cases "rs_is_leader (en_state e) (en_id e)")
  case True
  then show ?thesis using assms by (simp add: en_startup_def vh_update_internal_keeps)
next
  case False
  then obtain ss where "e' = e\<lparr>en_state := (en_state e)\<lparr>rs_server_state := ss\<rparr>\<rparr>"
    using assms(1) by (auto simp: en_startup_def)
  then show ?thesis using quiet_keeps[OF quiet_state assms(2)] by simp
qed

lemma en_leader_step_down_keeps:
  assumes "en_leader_step_down now e = Some e'" "lead_le e"
  shows "keeps e e'"
  using assms by (auto simp: en_leader_step_down_def split: if_splits intro: vh_update_internal_keeps keeps_refl)

lemma en_handle_vote_req_keeps:
  assumes "en_handle_vote_req now req e = Some (resp, e')" "lead_le e"
  shows "keeps e e'" "vr_vote resp = vote_ref (en_state e')"
proof -
  have "(e' = e \<and> vr_vote resp = vote_ref (en_state e)) \<or> (\<exists>r. vh_update_vote now (vq_vote req) e = Some (r, e')
      \<and> vr_vote resp = vote_ref (en_state e'))"
    using assms(1) by (auto simp: en_handle_vote_req_def Let_def bind_eq_Some_conv split: if_splits)
  then show "keeps e e'" "vr_vote resp = vote_ref (en_state e')"
    using keeps_refl[OF assms(2)] vh_update_vote_keeps[OF _ assms(2)] by auto
qed

lemma en_append_entries_keeps:
  assumes "en_append_entries now vote prev es e = Some (r, e')" "lead_le e"
  shows "keeps e e'"
proof -
  obtain r1 e1 where u: "vh_update_vote now vote e = Some (r1, e1)"
    using assms(1) by (auto simp: en_append_entries_def bind_eq_Some_conv)
  have k1: "keeps e e1" by (rule vh_update_vote_keeps[OF u assms(2)])
  show ?thesis
  proof (cases r1)
    case (Inl err)
    then show ?thesis using assms(1) u k1 by (auto simp: en_append_entries_def bind_eq_Some_conv)
  next
    case (Inr x)
    then obtain lv r2 e2 where *: "en_following_handler e1 = Some lv"
      "fh_ensure_log_consecutive prev e1 = Some (r2, e2)"
      "(case r2 of
             Inl r \<Rightarrow> Some (Inl r, e2)
           | Inr _ \<Rightarrow> do {
               e3 \<leftarrow> fh_append_entries lv prev es e2;
               Some (Inr (), e3) }) = Some (r, e')"
      using assms(1) u by (auto simp: en_append_entries_def bind_eq_Some_conv)
    have q: "quiet e1 e2" by (rule quiet_ensure_consecutive[OF *(2)])
    have k2: "keeps e e2" by (rule keeps_quiet[OF k1 q])
    have c: "covers (vote_ref (en_state e2)) (cv_into_vote lv)"
      using following_handler_vote[OF *(1)] q by (simp add: quiet_def)
    show ?thesis
      using *(3) k2 keeps_then[OF k2 fh_append_entries_keeps[OF _ _ c]]
      by (auto simp: bind_eq_Some_conv split: sum.splits)
  qed
qed

lemma en_handle_append_keeps:
  assumes "en_handle_append_entries now vote prev es tx e = Some e'" "lead_le e"
  shows "keeps e e'"
proof -
  obtain r e1 cond resp where *: "en_append_entries now vote prev es e = Some (r, e1)"
    "e' = en_push (Respond cond (RespondAppendEntries resp tx)) e1"
    using assms(1) by (auto simp: en_handle_append_entries_def Let_def bind_eq_Some_conv)
  show ?thesis unfolding *(2)
    by (rule keeps_quiet[OF en_append_entries_keeps[OF *(1) assms(2)] quiet_push[OF _ quiet_refl]]) simp
qed

lemma en_handle_install_keeps:
  assumes "en_handle_install_full_snapshot now vote snap tx e = Some e'" "lead_le e"
  shows "keeps e e'"
proof -
  let ?f = "\<lambda>st err. RespondInstallFullSnapshot (SnapshotResponse (vote_ref st)) tx"
  obtain ok e1 where u: "vh_accept_vote now vote ?f e = Some (ok, e1)"
    and r: "(if \<not> ok then Some e1
      else do {
        lv \<leftarrow> en_following_handler e1;
        (cond, e2) \<leftarrow> fh_install_full_snapshot lv snap e1;
        Some (en_push (Respond cond
          (RespondInstallFullSnapshot (SnapshotResponse (vote_ref (en_state e2))) tx)) e2) }) = Some e'"
    using assms(1) unfolding en_handle_install_full_snapshot_def by (auto simp: bind_eq_Some_conv)
  have k1: "keeps e e1" by (rule vh_accept_vote_keeps[OF u assms(2)]) simp
  show ?thesis
  proof (cases ok)
    case False
    then show ?thesis using r k1 by simp
  next
    case True
    then obtain lv c e2 where *: "en_following_handler e1 = Some lv"
      "fh_install_full_snapshot lv snap e1 = Some (c, e2)"
      "e' = en_push (Respond c (RespondInstallFullSnapshot (SnapshotResponse (vote_ref (en_state e2))) tx)) e2"
      using r by (auto simp: bind_eq_Some_conv)
    have k2: "keeps e e2"
      by (rule keeps_then[OF k1 fh_install_keeps[OF *(2)]]) (use following_handler_vote[OF *(1)] in auto)
    show ?thesis unfolding *(3) by (rule keeps_quiet[OF k2 quiet_push[OF _ quiet_refl]]) simp
  qed
qed

section \<open>Elections\<close>

text \<open>A candidate of this node for a term above 0, not committed.\<close>

definition candidate_ok :: "nat \<Rightarrow> candidate \<Rightarrow> bool" where
  "candidate_ok i cd \<longleftrightarrow> \<not> vote_committed (cd_vote cd) \<and> 0 < vote_term (cd_vote cd)
     \<and> vote_leader_node_id (cd_vote cd) = i
     \<and> (joint_wf (cd_quorum_set cd) \<and> (\<forall>q \<in> set (cd_quorum_set cd). q \<noteq> []) \<longrightarrow> cd_wf cd)"

lemma candidate_new_simps [simp]:
  "cd_vote (candidate_new t v la qs ls) = v" "cd_quorum_set (candidate_new t v la qs ls) = qs"
  "cd_last_log_id (candidate_new t v la qs ls) = la" "cd_granters (candidate_new t v la qs ls) = []"
  by (simp_all add: candidate_new_def cd_granters_def vp_new_def Let_def filter_empty_conv)

lemma update_internal_uncommitted:
  assumes "vh_update_internal_server_state now e = Some e'" "\<not> vote_committed (vote_ref (en_state e))"
  shows "en_output e' = en_output e" "e' = e \<or> en_leader e' = None \<and> en_candidate e' = None"
  using assms by (auto simp: vh_update_internal_server_state_def rs_is_leader_def
      dest: vh_become_following_eq split: if_splits)

lemma update_vote_uncommitted:
  assumes "vh_update_vote now vote e = Some (r, e')" "\<not> vote_committed vote"
  shows "vote_ref (en_state e) < vote \<Longrightarrow> eo_commands (en_output e') = eo_commands (en_output e) @ [SaveVote vote]"
    "en_candidate e' = None \<Longrightarrow> en_candidate e \<noteq> None \<Longrightarrow> en_leader e' = None"
proof -
  have "(vote_ref (en_state e) < vote \<longrightarrow> eo_commands (en_output e') = eo_commands (en_output e) @ [SaveVote vote])
      \<and> (en_candidate e' = None \<longrightarrow> en_candidate e \<noteq> None \<longrightarrow> en_leader e' = None)"
  proof (cases "vote \<ge> vote_ref (en_state e)")
    case False
    then show ?thesis using vh_update_vote_result(2)[OF assms(1)] by auto
  next
    case ge: True
    show ?thesis
    proof (cases "vote > vote_ref (en_state e)")
      case gt: True
      let ?e = "e\<lparr>en_state := (en_state e)\<lparr>rs_vote := leased_update now 0 vote (rs_vote (en_state e))\<rparr>\<rparr>"
      obtain e1 where *: "en_accept_log_io (io_id_new vote) ?e = Some e1"
        "vh_update_internal_server_state now (en_push (SaveVote vote) e1) = Some e'"
        using assms ge gt unfolding vh_update_vote_def by (auto simp: Let_def bind_eq_Some_conv split: if_splits)
      note f = en_accept_log_io_frame[OF *(1)]
      have "vote_ref (en_state e1) = vote" using log_frame_D(1)[OF f(1)] by (simp add: vote_ref_def leased_update_def)
      then show ?thesis
        using update_internal_uncommitted[OF *(2)] assms(2) f(3,5) by auto
    next
      case False
      with ge have eq: "vote = vote_ref (en_state e)" by auto
      obtain v where *: "leased_touch now 0 (rs_vote (en_state e)) = Some v"
        "vh_update_internal_server_state now (e\<lparr>en_state := (en_state e)\<lparr>rs_vote := v\<rparr>\<rparr>) = Some e'"
        using assms False eq unfolding vh_update_vote_def by (auto simp: Let_def bind_eq_Some_conv split: if_splits)
      have "vote_ref ((en_state e)\<lparr>rs_vote := v\<rparr>) = vote"
        using leased_touch_data[OF *(1)] eq by (simp add: vote_ref_def)
      then show ?thesis using update_internal_uncommitted(2)[OF *(2)] assms(2) eq by auto
    qed
  qed
  then show "vote_ref (en_state e) < vote \<Longrightarrow> eo_commands (en_output e') = eo_commands (en_output e) @ [SaveVote vote]"
    "en_candidate e' = None \<Longrightarrow> en_candidate e \<noteq> None \<Longrightarrow> en_leader e' = None" by blast+
qed

lemma elect_vote_greater: "vote_term v < t \<Longrightarrow> v < Vote (LeaderId t i) b"
  by (cases v; cases "vote_leader_id v") (auto simp: vote_less_iff leader_id_less_iff vote_term_def)

lemma en_elect_effect:
  assumes "en_elect now e = Some e'" "lead_le e"
  shows "extends e e' \<and> lead_le e'
    \<and> (\<exists>q. eo_commands (en_output e') = eo_commands (en_output e)
        @ [SaveVote (Vote (LeaderId (vote_term (vote_ref (en_state e)) + 1) (en_id e)) False), SendVote q])
    \<and> vote_ref (en_state e') = Vote (LeaderId (vote_term (vote_ref (en_state e)) + 1) (en_id e)) False
    \<and> (\<forall>cd. en_candidate e' = Some cd \<longrightarrow> candidate_ok (en_id e) cd \<and> cd_granters cd = [])"
proof -
  let ?v = "Vote (LeaderId (term_next (vote_term (vote_ref (en_state e)))) (en_id e)) False"
  let ?m = "em_membership (ms_effective (rs_membership_state (en_state e)))"
  let ?cd = "candidate_new now ?v (rs_last_log_id (en_state e)) (mem_to_quorum_set ?m) (mem_learner_ids ?m)"
  let ?e1 = "en_new_candidate now ?v e"
  obtain res e2 where *: "vh_update_vote now ?v ?e1 = Some (res, e2)" "res = Inr ()"
    "e' = ssh_update_server_state (en_push (SendVote \<lparr>vq_vote = ?v, vq_last_log_id = cd_last_log_id ?cd\<rparr>) e2)"
    using assms(1) unfolding en_elect_def en_new_candidate_def Let_def
    by (auto simp: bind_eq_Some_conv)
  have q1: "extends e ?e1" "lead_le ?e1" "en_candidate ?e1 = Some ?cd" "en_config ?e1 = en_config e"
    "vote_ref (en_state ?e1) = vote_ref (en_state e)"
    using assms(2) by (simp_all add: en_new_candidate_def Let_def extends_def lead_le_def leading_vote_def)
  have k2: "keeps ?e1 e2" by (rule vh_update_vote_keeps[OF *(1) q1(2)])
  have q3: "quiet e2 e'" unfolding *(3) by (intro quiet_ssh' quiet_push) simp_all
  have k3: "keeps ?e1 e'" by (rule keeps_quiet[OF k2 q3])
  have lt: "vote_ref (en_state ?e1) < ?v"
    unfolding q1(5) by (rule elect_vote_greater) (simp add: term_next_def)
  have cmds: "eo_commands (en_output e') = eo_commands (en_output e)
      @ [SaveVote ?v, SendVote \<lparr>vq_vote = ?v, vq_last_log_id = cd_last_log_id ?cd\<rparr>]"
    using update_vote_uncommitted(1)[OF *(1) _ lt] unfolding *(3) by (simp add: en_new_candidate_def Let_def)
  have "vote_ref (en_state ?e1) \<le> ?v" using lt by simp
  then have v: "vote_ref (en_state e') = ?v"
    using vh_update_vote_result(1)[OF *(1)] q3 by (simp add: quiet_def)
  have "candidate_ok (en_id e) ?cd \<and> cd_granters ?cd = []"
    using candidate_new_wf by (simp add: candidate_ok_def vote_term_def term_next_def vote_leader_node_id_def)
  then show ?thesis
    using k3 q1(1,3) extends_trans[OF q1(1)] v cmds by (auto simp: keeps_def no_new_candidate_def term_next_def)
qed

lemma vote_less_committed: "\<not> vote_committed v \<Longrightarrow> v < cv_into_vote (vote_into_committed v)"
  by (cases v) (simp add: vote_conv_defs vote_less_iff)

text \<open>
  A won election: the leader leads with the committed form of the vote of the candidate, which the
  voters have granted.
\<close>

lemma en_establish_effect:
  assumes "en_establish_leader now e = Some e'" "en_candidate e = Some cd" "candidate_ok (en_id e) cd" "lead_le e"
  shows "keeps e e'" "en_candidate e' = None"
proof -
  have "keeps e e' \<and> en_candidate e' = None"
  proof -
  let ?e0 = "e\<lparr>en_candidate := None\<rparr>"
  obtain est e1 where eh: "eh_establish now cd ?e0 = Some (est, e1)"
    and r: "(if \<not> est then Some e1
      else do {
        leader \<leftarrow> en_leader e1;
        let vote = ld_committed_vote leader;
        let last_log_id = ld_last_log_id leader;
        e2 \<leftarrow> rh_rebuild_replication_streams e1;
        (res, e3) \<leftarrow> vh_update_vote now (cv_into_vote vote) e2;
        ensure (res = Inr ());
        e4 \<leftarrow> en_accept_log_io (io_id_new_log_io vote last_log_id) e3;
        lh \<leftarrow> en_leader_handler e4;
        (case lh of
           Inl _ \<Rightarrow> None
         | Inr _ \<Rightarrow> leader_append_entries [blank_entry] e4) }) = Some e'"
    using assms(1,2) unfolding en_establish_leader_def by (auto simp: bind_eq_Some_conv)
  have k0: "keeps e ?e0" using assms(4) by (simp add: keeps_def extends_def lead_le_def leading_vote_def no_new_candidate_def)
  show ?thesis
  proof (cases est)
    case False
    then have "e1 = ?e0" using eh by (auto simp: eh_establish_def Let_def bind_eq_Some_conv split: if_splits)
    then have "e' = ?e0" using r False by simp
    then show ?thesis using k0 by simp
  next
    case True
    then obtain l where l: "cd_into_leader now cd = Some l" "e1 = ?e0\<lparr>en_leader := Some l\<rparr>"
      using eh by (auto simp: eh_establish_def Let_def bind_eq_Some_conv split: if_splits)
    have lv: "ld_committed_vote l = vote_into_committed (cd_vote cd)"
      using l(1) by (auto simp: cd_into_leader_def Let_def dest: leader_new_vote)
    let ?v = "cv_into_vote (ld_committed_vote l)"
    obtain res e2 e3 e4 where *: "rh_rebuild_replication_streams e1 = Some e2"
      "vh_update_vote now ?v e2 = Some (Inr (), e3)"
      "en_accept_log_io (io_id_new_log_io (ld_committed_vote l) (ld_last_log_id l)) e3 = Some e4"
      "leader_append_entries [blank_entry] e4 = Some e'"
      using r True l(2) by (auto simp: bind_eq_Some_conv Let_def split: sum.splits)
    have q2: "quiet e1 e2" by (rule quiet_rebuild_streams[OF *(1)])
    have ex1: "extends e e1" using l(2) by (simp add: extends_def)
    have ex2: "extends e e2" by (rule extends_trans[OF ex1 quiet_extends[OF q2]])
    have c2: "en_candidate e2 = None" "leading_vote e2 = Some (ld_committed_vote l)"
      using q2 l(2) by (auto simp: quiet_def leading_vote_def)
    have ge: "?v \<ge> vote_ref (en_state e2)"
      using vh_update_vote_result(2)[OF *(2)] by auto
    have k3: "keeps e2 e3"
      by (rule vh_update_vote_accepted[OF *(2) ge]) (simp add: c2(2))
    have k4: "keeps e2 e4" by (rule keeps_quiet[OF k3 quiet_accept_log_io[OF *(3)]])
    have k5: "keeps e2 e'" by (rule keeps_then[OF k4 leader_append_keeps[OF *(4)]])
    then show ?thesis using extends_trans[OF ex2] c2(1) by (auto simp: keeps_def no_new_candidate_def)
  qed
  qed
  then show "keeps e e'" "en_candidate e' = None" by auto
qed

text \<open>What the response to a vote request does, and when it makes a leader.\<close>

definition counts_for :: "vote_response \<Rightarrow> candidate \<Rightarrow> bool" where
  "counts_for resp cd \<longleftrightarrow> vr_granted resp \<and> vr_vote resp = cd_vote cd"

lemma cd_grant_by_frame:
  assumes "cd_grant_by t c = Some (b, c')"
  shows "cd_vote c' = cd_vote c" "cd_quorum_set c' = cd_quorum_set c"
proof -
  obtain p where "c' = c\<lparr>cd_progress := p\<rparr>"
    using assms unfolding cd_grant_by_def by (clarsimp simp: bind_eq_Some_conv)
  then show "cd_vote c' = cd_vote c" "cd_quorum_set c' = cd_quorum_set c" by simp_all
qed

lemma candidate_ok_grant:
  assumes "candidate_ok i c" "cd_grant_by t c = Some (b, c')"
  shows "candidate_ok i c'"
proof -
  have "cd_wf c'" if "cd_wf c" by (rule conjunct1[OF cd_grant_by_spec[OF that assms(2)]])
  then show ?thesis using assms(1) cd_grant_by_frame[OF assms(2)] by (simp add: candidate_ok_def)
qed

lemma en_handle_vote_resp_effect:
  assumes "en_handle_vote_resp now target resp e = Some e'" "lead_le e"
    "\<And>cd. en_candidate e = Some cd \<Longrightarrow> candidate_ok (en_id e) cd"
  shows "extends e e' \<and> lead_le e'
    \<and> (no_new_candidate e e' \<or> (\<exists>cd c1. en_candidate e = Some cd \<and> counts_for resp cd
         \<and> cd_grant_by target cd = Some (False, c1) \<and> en_candidate e' = Some c1))
    \<and> (\<forall>cd. en_candidate e = Some cd \<and> en_candidate e' = None \<and> en_leader e' \<noteq> None \<longrightarrow>
         counts_for resp cd \<and> (\<exists>c1. cd_grant_by target cd = Some (True, c1)))"
proof (cases "en_candidate e")
  case None
  then show ?thesis using assms(1,2) by (simp add: en_handle_vote_resp_def no_new_candidate_def)
next
  case (Some cd)
  show ?thesis
  proof (cases "counts_for resp cd")
    case True
    then obtain b c1 where g: "cd_grant_by target cd = Some (b, c1)"
      and e': "(if b then en_establish_leader now (e\<lparr>en_candidate := Some c1\<rparr>)
        else Some (e\<lparr>en_candidate := Some c1\<rparr>)) = Some e'"
      using assms(1) Some by (auto simp: en_handle_vote_resp_def counts_for_def Let_def bind_eq_Some_conv)
    let ?e1 = "e\<lparr>en_candidate := Some c1\<rparr>"
    have x: "extends e ?e1" "lead_le ?e1" "candidate_ok (en_id ?e1) c1"
      using assms(2) candidate_ok_grant[OF assms(3)[OF Some] g]
      by (simp_all add: extends_def lead_le_def leading_vote_def)
    show ?thesis
    proof (cases b)
      case False
      then show ?thesis using e' x Some True g by auto
    next
      case b: True
      then have es: "en_establish_leader now ?e1 = Some e'" using e' by simp
      have k: "keeps ?e1 e'" by (rule en_establish_effect(1)[OF es _ x(3,2)]) simp
      moreover have "en_candidate e' = None" by (rule en_establish_effect(2)[OF es _ x(3,2)]) simp
      ultimately show ?thesis
        using extends_trans[OF x(1)] Some True g b by (auto simp: keeps_def no_new_candidate_def)
    qed
  next
    case False
    let ?e1 = "if vr_last_log_id resp > rs_last_log_id (en_state e) then e\<lparr>en_seen_greater_log := True\<rparr> else e"
    let ?v = "uv_into_vote (vote_into_non_committed (vr_vote resp))"
    obtain r where u: "vh_update_vote now ?v ?e1 = Some (r, e')"
      using assms(1) Some False by (auto simp: en_handle_vote_resp_def counts_for_def Let_def bind_eq_Some_conv)
    have x: "extends e ?e1" "lead_le ?e1" "en_candidate ?e1 = en_candidate e"
      using assms(2) by (simp_all add: extends_def lead_le_def leading_vote_def)
    have k: "keeps ?e1 e'" by (rule vh_update_vote_keeps[OF u x(2)])
    have "\<not> vote_committed ?v" by (simp add: vote_conv_defs)
    then have "en_candidate e' = None \<Longrightarrow> en_leader e' = None"
      using update_vote_uncommitted(2)[OF u] x(3) Some by simp
    then show ?thesis using k x extends_trans[OF x(1)] Some by (auto simp: keeps_def no_new_candidate_def)
  qed
qed

end
