(* ===== verification/RaftCoreEvents.thy ===== *)
theory RaftCoreEvents
imports RaftCore
begin

text \<open>
  The rest of \<^verbatim>\<open>core/raft_core.rs\<close>: the commands driven by the I/O progress, the client messages,
  the internal notifications, and the main loop that alternates between them within the budgets
  of the balancer.
\<close>

section \<open>Running commands\<close>

text \<open>After a progress driven command nothing is left to apply, so its loop ends.\<close>

lemma io_submit_eq_Some: "io_submit x p = Some p' \<longleftrightarrow> io_submitted p \<le> Some x \<and> p' = p\<lparr>io_submitted := Some x\<rparr>"
  by (auto simp: io_submit_def)

lemma exec_apply_submits:
  assumes "exec_command sto now (SaveCommittedAndApply a u) c = Some (r, c')"
  shows "en_state (rc_engine c') = (rc_state c)\<lparr>rs_io_state := (rs_io_state (rc_state c))
    \<lparr>ios_apply_progress := (ios_apply_progress (rs_io_state (rc_state c)))\<lparr>io_submitted := Some u\<rparr>\<rparr>\<rparr>"
proof -
  obtain c1 where c1: "rc_on_apply_io (io_submit u) c = Some c1"
    and r: "(case rc_call sto (EffSaveCommitted (Some u)) StoWrite c1 of
        (Inl err, c2) \<Rightarrow> Some (Inl err, c2)
      | (Inr _, c2) \<Rightarrow> do {
          first_id \<leftarrow> rs_get_log_id (rc_state c2) (next_index a);
          apply_to_state_machine sto first_id u c2 }) = Some (r, c')"
    using assms by (auto simp: bind_eq_Some_conv)
  have "rc_engine c' = rc_engine c1"
    using r by (auto simp: rc_call_def bind_eq_Some_conv split: if_splits dest: apply_to_state_machine_engine)
  then show ?thesis
    using c1 by (auto simp: rc_on_apply_io_def rc_set_ios_def bind_eq_Some_conv io_submit_eq_Some)
qed

lemma progress_driven_once:
  assumes "en_next_progress_driven_command (rc_engine c) = Some (Some cmd)"
    "run_command sto now cmd c = Some (r, c')"
  shows "en_next_progress_driven_command (rc_engine c') = Some None"
proof -
  let ?io = "rs_io_state (rc_state c)"
  let ?up = "min (Option.bind (io_submitted (ios_log_progress ?io)) io_id_last_log_id)
      (io_accepted (ios_apply_progress ?io))"
  obtain u where u: "cmd = SaveCommittedAndApply (io_submitted (ios_apply_progress ?io)) u" "?up = Some u"
    and v: "map_option io_id_vote (io_submitted (ios_log_progress ?io))
      = map_option io_id_vote (io_accepted (ios_log_progress ?io))"
    using assms(1) by (auto simp: en_next_progress_driven_command_def Let_def bind_eq_Some_conv split: if_splits)
  obtain r' where e: "exec_command sto now cmd c = Some (r', c')"
    using assms(2) u(1) by (auto simp: run_command_def bind_eq_Some_conv)
  show ?thesis
    unfolding en_next_progress_driven_command_def exec_apply_submits[OF e[unfolded u(1)]] Let_def
    using u(2) v by simp
qed

function run_progress_driven_command ::
  "(nat \<Rightarrow> bool) \<Rightarrow> nat \<Rightarrow> raft_core \<Rightarrow> ((storage_error + unit) \<times> raft_core) panics" where
  "run_progress_driven_command sto now c =
     (case en_next_progress_driven_command (rc_engine c) of
        None \<Rightarrow> None
      | Some None \<Rightarrow> Some (Inr (), c)
      | Some (Some cmd) \<Rightarrow>
          (case run_command sto now cmd c of
             None \<Rightarrow> None
           | Some (Inl err, c1) \<Rightarrow> Some (Inl err, c1)
           | Some (Inr (Some _), c1) \<Rightarrow> None
           | Some (Inr None, c1) \<Rightarrow> run_progress_driven_command sto now c1))"
  by pat_completeness auto
termination run_progress_driven_command
  by (relation "measure (\<lambda>(sto, now, c).
      if en_next_progress_driven_command (rc_engine c) = Some None then 0 else 1)")
    (auto dest: progress_driven_once)

declare run_progress_driven_command.simps [simp del]

definition send_satisfied_responds :: "raft_core \<Rightarrow> raft_core" where
  "send_satisfied_responds c =
     (let o' = en_output (rc_engine c) in
      case drain_satisfied (rs_io_state (rc_state c)) (eo_pending o') of
        (responds, pending) \<Rightarrow> rc_emit (map (\<lambda>(_, r). EffRespond r) responds)
          (rc_set_output (o'\<lparr>eo_pending := pending\<rparr>) c))"

definition run_engine_commands ::
  "(nat \<Rightarrow> bool) \<Rightarrow> nat \<Rightarrow> raft_core \<Rightarrow> ((storage_error + unit) \<times> raft_core) panics" where
  "run_engine_commands sto now c = do {
     (res, c1) \<leftarrow> run_queue sto now (send_satisfied_responds c);
     (case res of
        Inl err \<Rightarrow> Some (Inl err, c1)
      | Inr _ \<Rightarrow> run_progress_driven_command sto now c1) }"

section \<open>Client messages\<close>

definition handle_vote_request :: "nat \<Rightarrow> vote_request \<Rightarrow> nat \<Rightarrow> raft_core \<Rightarrow> raft_core panics" where
  "handle_vote_request now req tx c = do {
     (resp, e) \<leftarrow> en_handle_vote_req now req (rc_engine c);
     Some (c\<lparr>rc_engine := en_push (Respond (Some (IOFlushed (io_id_new (vote_ref (en_state e)))))
       (RespondVote resp tx)) e\<rparr>) }"

definition handle_append_entries_request :: "nat \<Rightarrow> append_request \<Rightarrow> nat \<Rightarrow> raft_core \<Rightarrow> raft_core panics" where
  "handle_append_entries_request now req tx c = do {
     e \<leftarrow> en_handle_append_entries now (ar_vote req) (ar_prev_log_id req) (ar_entries req) tx (rc_engine c);
     let committed = LogIOId (vote_into_committed (ar_vote req)) (ar_leader_commit req);
     e' \<leftarrow> en_on_state (rs_update_committed committed) e;
     Some (c\<lparr>rc_engine := e'\<rparr>) }"

definition emit_to :: "nat option \<Rightarrow> client_write_error \<Rightarrow> raft_core \<Rightarrow> raft_core" where
  "emit_to tx err c = (case tx of Some t \<Rightarrow> rc_emit [EffClientError t err] c | None \<Rightarrow> c)"

definition write_entry :: "entry \<Rightarrow> nat option \<Rightarrow> raft_core \<Rightarrow> raft_core panics" where
  "write_entry ent tx c = do {
     lh \<leftarrow> en_leader_handler (rc_engine c);
     (case lh of
        Inl forward \<Rightarrow> Some (emit_to tx (WriteForward forward) c)
      | Inr l \<Rightarrow>
          (case ld_transfer_to l of
             Some to \<Rightarrow> Some (emit_to tx (WriteForward (rs_new_forward_to_leader (rc_state c) to)) c)
           | None \<Rightarrow> do {
               e \<leftarrow> leader_append_entries [ent] (rc_engine c);
               last_id \<leftarrow> rs_last_log_id (en_state e);
               q \<leftarrow> (case tx of
                  Some t \<Rightarrow> crq_push (lg_index last_id) t (rc_client_responders c)
                | None \<Rightarrow> Some (rc_client_responders c));
               Some (c\<lparr>rc_engine := e, rc_client_responders := q\<rparr>) })) }"

definition default_log_id :: log_id where
  "default_log_id = LogId (LeaderId 0 0) 0"

definition change_membership :: "change_members \<Rightarrow> bool \<Rightarrow> nat \<Rightarrow> raft_core \<Rightarrow> raft_core panics" where
  "change_membership changes retain tx c = do {
     res \<leftarrow> ch_apply (rs_membership_state (rc_state c)) changes retain;
     (case res of
        Inl err \<Rightarrow> Some (rc_emit [EffClientError tx (WriteChange err)] c)
      | Inr m \<Rightarrow> write_entry (entry_new default_log_id (MembershipPayload m)) (Some tx) c) }"

text \<open>The result is whether heartbeats were sent.\<close>

definition rc_send_heartbeat :: "raft_core \<Rightarrow> (bool \<times> raft_core) panics" where
  "rc_send_heartbeat c = do {
     lh \<leftarrow> en_leader_handler (rc_engine c);
     (case lh of
        Inl _ \<Rightarrow> Some (False, c)
      | Inr l \<Rightarrow>
          if ld_transfer_to l \<noteq> None then Some (False, c)
          else do { c' \<leftarrow> rc_on_engine send_heartbeat c; Some (True, c') }) }"

definition handle_initialize :: "nat \<Rightarrow> nodes \<Rightarrow> nat \<Rightarrow> raft_core \<Rightarrow> raft_core panics" where
  "handle_initialize now member_nodes tx c = do {
     let ent = entry_new default_log_id (MembershipPayload (membership_from_nodes member_nodes));
     (res, e) \<leftarrow> en_initialize now ent (rc_engine c);
     let cond = (case res of
        Inl _ \<Rightarrow> None
      | Inr _ \<Rightarrow> map_option IOFlushed (io_accepted (ios_log_progress (rs_io_state (en_state e)))));
     e' \<leftarrow> en_elect now (en_push (Respond cond (RespondInitialize res tx)) e);
     Some (c\<lparr>rc_engine := e'\<rparr>) }"

definition rc_trigger_snapshot :: "raft_core \<Rightarrow> raft_core" where
  "rc_trigger_snapshot c = c\<lparr>rc_engine := snd (sh_trigger_snapshot (rc_engine c))\<rparr>"

definition should_snapshot :: "snapshot_policy \<Rightarrow> raft_state \<Rightarrow> log_id option \<Rightarrow> log_id option" where
  "should_snapshot p st last_tried_at =
     (case p of
        LogsSinceLast threshold \<Rightarrow>
          (let committed_next = next_index (rs_committed st);
               base_log_id = max last_tried_at (rs_snapshot_last_log_id st)
           in if committed_next \<ge> next_index base_log_id + threshold then rs_committed st else None)
      | SnapshotNever \<Rightarrow> None)"

definition trigger_routine_actions :: "raft_core \<Rightarrow> raft_core panics" where
  "trigger_routine_actions c = do {
     let c1 = (case should_snapshot (rc_snapshot_policy c) (rc_state c) (rc_snapshot_tried_at c) of
         Some at \<Rightarrow> rc_trigger_snapshot (c\<lparr>rc_snapshot_tried_at := Some at\<rparr>)
       | None \<Rightarrow> c);
     lh \<leftarrow> en_leader_handler (rc_engine c1);
     (case lh of Inl _ \<Rightarrow> Some c1 | Inr _ \<Rightarrow> rc_on_engine rh_initiate_replication c1) }"

text \<open>The clock of the leader itself is brought up to date by every query.\<close>

definition rc_last_quorum_acked_time :: "nat \<Rightarrow> raft_core \<Rightarrow> (nat option \<times> raft_core) panics" where
  "rc_last_quorum_acked_time now c =
     (case en_leader (rc_engine c) of
        None \<Rightarrow> Some (None, c)
      | Some l \<Rightarrow> do {
          (t, l') \<leftarrow> ld_last_quorum_acked_time now l;
          Some (t, c\<lparr>rc_engine := (rc_engine c)\<lparr>en_leader := Some l'\<rparr>\<rparr>) })"

section \<open>Metrics\<close>

text \<open>
  The reported vote is the last flushed one. The progress of the followers is collected before the
  clock of the leader moves.
\<close>

definition report_metrics ::
  "nat \<Rightarrow> (nat \<times> log_id option) list option \<Rightarrow> (nat \<times> nat option) list option \<Rightarrow> raft_core \<Rightarrow> raft_core panics" where
  "report_metrics now replication heartbeat c = do {
     (acked, c1) \<leftarrow> rc_last_quorum_acked_time now c;
     let st = rc_state c1;
     let m = \<lparr>rm_id = rc_id c1, rm_current_term = vote_term (vote_ref st),
       rm_vote = (case io_flushed (ios_log_progress (rs_io_state st)) of
           Some i \<Rightarrow> io_id_vote i | None \<Rightarrow> vote_new_with_default_term (rc_id c1)),
       rm_last_log_index = opt_index (rs_last_log_id st), rm_last_applied = rs_io_applied st,
       rm_snapshot = ios_snapshot_log_id (rs_io_state st), rm_purged = rs_io_purged st,
       rm_state = rs_server_state st, rm_current_leader = current_leader c1,
       rm_millis_since_quorum_ack = map_option (\<lambda>t. now - t) acked, rm_last_quorum_acked = acked,
       rm_membership_config = em_stored (rc_effective c1), rm_heartbeat = heartbeat,
       rm_replication = replication\<rparr>;
     Some (rc_emit [EffMetrics m] c1) }"

definition flush_metrics :: "nat \<Rightarrow> raft_core \<Rightarrow> raft_core panics" where
  "flush_metrics now c =
     (case en_leader (rc_engine c) of
        Some l \<Rightarrow> report_metrics now
          (Some (map (\<lambda>(i, pe). (i, pe_matching pe)) (vp_entries (ld_progress l))))
          (Some (vp_entries (ld_clock_progress l))) c
      | None \<Rightarrow> report_metrics now None None c)"

section \<open>Linearizable reads\<close>

fun read_rpcs ::
  "effective_membership \<Rightarrow> nat \<Rightarrow> (log_id option \<Rightarrow> append_request) \<Rightarrow> leader_progress
    \<Rightarrow> (nat \<times> progress_entry) list \<Rightarrow> effect list panics" where
  "read_rpcs em self rpc p [] = Some []"
| "read_rpcs em self rpc p ((target, pe) # items) =
     (if vp_is_voter target p \<noteq> Some True \<or> target = self then read_rpcs em self rpc p items
      else do {
        node \<leftarrow> em_get_node em target;
        fs \<leftarrow> read_rpcs em self rpc p items;
        Some (EffReadRpc target node (rpc (pe_matching pe)) # fs) })"

text \<open>The part that runs in the task: a lease read, a single voter, or the requests to the voters.\<close>

definition handle_ensure_linearizable_read ::
  "nat \<Rightarrow> read_policy \<Rightarrow> nat \<Rightarrow> raft_core \<Rightarrow> raft_core panics" where
  "handle_ensure_linearizable_read now policy tx c = do {
     lh \<leftarrow> en_leader_handler (rc_engine c);
     (case lh of
        Inl forward \<Rightarrow> Some (rc_emit [EffRead tx (Inl (ReadForward forward))] c)
      | Inr l \<Rightarrow> do {
          read_log_id \<leftarrow> get_read_log_id (rc_engine c);
          let resp = \<lparr>lz_node_id = rc_id c, lz_read_log_id = read_log_id, lz_applied = rs_io_applied (rc_state c)\<rparr>;
          (if policy = LeaseRead
           then do {
             (acked, c1) \<leftarrow> rc_last_quorum_acked_time now c;
             Some (case acked of
               Some t \<Rightarrow>
                 if now < t + tc_leader_lease (ec_timer_config (en_config (rc_engine c)))
                 then rc_emit [EffRead tx (Inr resp)] c1
                 else rc_emit [EffRead tx (Inl (ReadForward (ForwardToLeader None None)))] c1
             | None \<Rightarrow> rc_emit [EffRead tx (Inl (ReadForward (ForwardToLeader None None)))] c1) }
           else
             (let em = rc_effective c; my_vote = vote_ref (rc_state c) in
              if em_is_quorum em [rc_id c] then Some (rc_emit [EffRead tx (Inr resp)] c)
              else do {
                let rpc = (\<lambda>matching. \<lparr>ar_vote = my_vote, ar_prev_log_id = matching, ar_entries = [],
                             ar_leader_commit = rs_committed (rc_state c)\<rparr>);
                fs \<leftarrow> read_rpcs em (rc_id c) rpc (ld_progress l) (vp_entries (ld_progress l));
                Some (rc_emit (fs @ [EffReadTask tx my_vote resp em]) c) })) }) }"

text \<open>
  The spawned part: it handles the responses as they come, \<open>None\<close> for a request that failed. The
  result is what it answers to the client, and the notification it sends to the task.
\<close>

fun read_collect ::
  "effective_membership \<Rightarrow> raft_vote \<Rightarrow> linearize_state \<Rightarrow> nat list \<Rightarrow> (nat \<times> append_entries_response) option list
    \<Rightarrow> (notification option \<times> (read_error + linearize_state)) panics" where
  "read_collect em my_vote resp granted [] =
     Some (None, Inl (ReadQuorumNotEnough (em_membership em) granted))"
| "read_collect em my_vote resp granted (None # rs) = read_collect em my_vote resp granted rs"
| "read_collect em my_vote resp granted (Some (target, r) # rs) =
     (case r of
        HigherVote v \<Rightarrow> do {
          ensure (v > my_vote);
          Some (Some (NHigherVote target v (vote_into_committed my_vote)),
                Inl (ReadForward (ForwardToLeader None None))) }
      | _ \<Rightarrow>
          (let granted' = bs_union [target] granted in
           if em_is_quorum em granted' then Some (None, Inr resp)
           else read_collect em my_vote resp granted' rs))"

definition is_ready_on_node :: "linearize_state \<Rightarrow> nat \<Rightarrow> bool" where
  "is_ready_on_node s node_id \<longleftrightarrow> lz_node_id s = node_id \<and> lz_applied s \<ge> Some (lz_read_log_id s)"

definition with_applied :: "nat \<Rightarrow> log_id option \<Rightarrow> linearize_state \<Rightarrow> linearize_state" where
  "with_applied node_id applied s = s\<lparr>lz_node_id := node_id, lz_applied := applied\<rparr>"

section \<open>The client messages\<close>

fun handle_external_command :: "nat \<Rightarrow> (nat \<Rightarrow> bool) \<Rightarrow> external_command \<Rightarrow> raft_core \<Rightarrow> raft_core panics" where
  "handle_external_command now sto ExtElect c =
     (if em_is_voter (rc_effective c) (rc_id c) then rc_on_engine (en_elect now) c else Some c)"
| "handle_external_command now sto ExtHeartbeat c = map_option snd (rc_send_heartbeat c)"
| "handle_external_command now sto ExtSnapshot c = Some (rc_trigger_snapshot c)"
| "handle_external_command now sto (ExtGetSnapshot tx) c = Some (rc_emit [EffStateMachine (GetSnapshot tx)] c)"
| "handle_external_command now sto (ExtPurgeLog up) c = rc_on_engine (en_trigger_purge_log up) c"
| "handle_external_command now sto (ExtTriggerTransferLeader to) c = rc_on_engine (en_trigger_transfer_leader to) c"
| "handle_external_command now sto (ExtAllowNextRevert to allow tx) c = do {
     lh \<leftarrow> en_leader_handler (rc_engine c);
     (case lh of
        Inl forward \<Rightarrow> Some (rc_emit [EffRevertReply tx (Inl (RevertForward forward))] c)
      | Inr _ \<Rightarrow> do {
          (res, e) \<leftarrow> rh_allow_next_revert to allow (rc_engine c);
          Some (rc_emit [EffRevertReply tx (map_sum RevertNodeNotFound (\<lambda>x. x) res)] (c\<lparr>rc_engine := e\<rparr>)) }) }"
| "handle_external_command now sto (ExtStateMachineCommand cmd) c = Some (rc_emit [EffStateMachine cmd] c)"

text \<open>\<^verbatim>\<open>ExternalCoreRequest\<close> runs a closure of the application on an immutable state.\<close>

fun handle_api_msg :: "nat \<Rightarrow> (nat \<Rightarrow> bool) \<Rightarrow> raft_msg \<Rightarrow> raft_core \<Rightarrow> raft_core panics" where
  "handle_api_msg now sto (MsgAppendEntries rpc tx) c = handle_append_entries_request now rpc tx c"
| "handle_api_msg now sto (MsgRequestVote rpc tx) c = handle_vote_request now rpc tx c"
| "handle_api_msg now sto (MsgBeginReceivingSnapshot tx) c =
     Some (c\<lparr>rc_engine := en_handle_begin_receiving_snapshot tx (rc_engine c)\<rparr>)"
| "handle_api_msg now sto (MsgInstallFullSnapshot vote snap tx) c =
     rc_on_engine (en_handle_install_full_snapshot now vote snap tx) c"
| "handle_api_msg now sto (MsgEnsureLinearizableRead policy tx) c = handle_ensure_linearizable_read now policy tx c"
| "handle_api_msg now sto (MsgClientWriteRequest app_data responder expected_leader) c =
     (if (case expected_leader of
            Some expected \<Rightarrow> vote_try_to_committed_leader_id (vote_ref (rc_state c)) \<noteq> Some expected
          | None \<Rightarrow> False)
      then Some (emit_to responder (WriteForward (rs_forward_to_leader (rc_state c))) c)
      else write_entry (entry_new default_log_id (Normal app_data)) responder c)"
| "handle_api_msg now sto (MsgInitialize members tx) c = handle_initialize now members tx c"
| "handle_api_msg now sto (MsgChangeMembership changes retain tx) c = change_membership changes retain tx c"
| "handle_api_msg now sto MsgExternalCoreRequest c = Some c"
| "handle_api_msg now sto (MsgHandleTransferLeader current_leader_vote to) c =
     (if vote_ref (rc_state c) = current_leader_vote
      then (let c1 = c\<lparr>rc_engine := (rc_engine c)\<lparr>en_state :=
                 (rc_state c)\<lparr>rs_vote := leased_disable_lease (rs_vote (rc_state c))\<rparr>\<rparr>\<rparr> in
            if rc_id c = to then rc_on_engine (en_elect now) c1 else Some c1)
      else Some c)"
| "handle_api_msg now sto (MsgExternalCommand cmd) c = handle_external_command now sto cmd c"

section \<open>Internal notifications\<close>

text \<open>Stale messages, of another candidate, leader or replication session, are ignored.\<close>

definition does_candidate_vote_match :: "uncommitted_vote \<Rightarrow> raft_core \<Rightarrow> bool" where
  "does_candidate_vote_match candidate_vote c =
     (case en_candidate (rc_engine c) of
        None \<Rightarrow> False
      | Some cd \<Rightarrow> uv_leader_id candidate_vote = vote_leader_id (cd_vote cd))"

definition does_leader_vote_match :: "committed_vote \<Rightarrow> raft_core \<Rightarrow> bool" where
  "does_leader_vote_match leader_vote c =
     (case en_leader (rc_engine c) of None \<Rightarrow> False | Some l \<Rightarrow> leader_vote = ld_committed_vote l)"

definition does_replication_session_match :: "replication_session_id \<Rightarrow> raft_core \<Rightarrow> bool" where
  "does_replication_session_match session c =
     (if \<not> does_leader_vote_match (rsi_leader_vote session) c then False
      else rsi_membership_log_id session = em_log_id (rc_effective c))"

definition handle_tick_election :: "nat \<Rightarrow> raft_core \<Rightarrow> raft_core panics" where
  "handle_tick_election now c =
     (let e = rc_engine c; tcfg = ec_timer_config (en_config e);
          election_timeout = tc_election_timeout tcfg
            + (if en_seen_greater_log e then tc_smaller_log_timeout tcfg else 0) in
      if rs_server_state (rc_state c) = Leader then Some c
      else if \<not> em_is_voter (rc_effective c) (rc_id c) then Some c
      else if \<not> rc_enable_elect c then Some c
      else if length (em_voter_ids (rc_effective c)) \<noteq> 1
        \<and> \<not> leased_is_expired now election_timeout (rs_vote (rc_state c)) then Some c
      else rc_on_engine (en_elect now) (c\<lparr>rc_engine := e\<lparr>en_seen_greater_log := False\<rparr>\<rparr>))"

definition tick_heartbeat :: "nat \<Rightarrow> raft_core \<Rightarrow> raft_core panics" where
  "tick_heartbeat now c =
     (case en_leader (rc_engine c) of
        None \<Rightarrow> Some c
      | Some l \<Rightarrow>
          if now \<ge> ld_next_heartbeat l
          then do {
            c1 \<leftarrow> (if rc_enable_heartbeat c then map_option snd (rc_send_heartbeat c) else Some c);
            Some (case en_leader (rc_engine c1) of
              None \<Rightarrow> c1
            | Some l1 \<Rightarrow> c1\<lparr>rc_engine := (rc_engine c1)\<lparr>en_leader :=
                Some (l1\<lparr>ld_next_heartbeat := now + rc_heartbeat_interval c1\<rparr>)\<rparr>\<rparr>) }
          else Some c)"

definition handle_tick :: "nat \<Rightarrow> raft_core \<Rightarrow> raft_core panics" where
  "handle_tick now c = do {
     c1 \<leftarrow> handle_tick_election now c;
     c2 \<leftarrow> tick_heartbeat now c1;
     (if rs_io_applied (rc_state c2) \<ge> em_log_id (rc_effective c2)
      then rc_on_engine (en_leader_step_down now) c2 else Some c2) }"

fun handle_sm_response :: "sm_response \<Rightarrow> raft_core \<Rightarrow> raft_core panics" where
  "handle_sm_response (BuildSnapshotDone meta) c = rc_on_engine (en_on_building_snapshot_done meta) c"
| "handle_sm_response (SmInstallSnapshot log_io_id meta) c = do {
     c1 \<leftarrow> rc_on_log_io (io_try_flush (IOLog log_io_id)) c;
     (case Option.bind meta snap_last_log_id of
        None \<Rightarrow> Some c1
      | Some l \<Rightarrow> do {
          c2 \<leftarrow> rc_on_apply_io (io_try_flush l) c1;
          rc_on_snapshot_io (io_try_flush l) c2 }) }"
| "handle_sm_response (SmApply res) c = rc_on_apply_io (io_try_flush (apr_last_applied res)) c"

text \<open>\<open>Inl\<close> is the fatal error that ends the task.\<close>

fun handle_notification :: "nat \<Rightarrow> notification \<Rightarrow> raft_core \<Rightarrow> ((storage_error + unit) \<times> raft_core) panics" where
  "handle_notification now (NVoteResponse target resp candidate_vote) c = do {
     c' \<leftarrow> (if does_candidate_vote_match candidate_vote c
            then rc_on_engine (en_handle_vote_resp now target resp) c else Some c);
     Some (Inr (), c') }"
| "handle_notification now (NHigherVote target higher leader_vote) c = do {
     c' \<leftarrow> (if does_leader_vote_match leader_vote c
            then rc_on_engine (\<lambda>e. map_option snd (vh_update_vote now higher e)) c else Some c);
     Some (Inr (), c') }"
| "handle_notification now (NTick i) c = do { c' \<leftarrow> handle_tick now c; Some (Inr (), c') }"
| "handle_notification now (NStorageError err) c = Some (Inl err, c)"
| "handle_notification now (NLocalIO io_id) c = do {
     c1 \<leftarrow> rc_on_log_io (io_try_flush io_id) c;
     c2 \<leftarrow> (case io_id of
        IOLog l \<Rightarrow>
          if does_leader_vote_match (lio_committed_vote l) c1
          then rc_on_engine (rh_update_local_progress (lio_log_id l)) c1 else Some c1
      | IOVote _ \<Rightarrow> Some c1);
     Some (Inr (), c2) }"
| "handle_notification now (NReplicationProgress session target result inflight_id) c = do {
     c' \<leftarrow> (if does_replication_session_match session c
            then rc_on_engine (rh_update_progress target result inflight_id) c else Some c);
     Some (Inr (), c') }"
| "handle_notification now (NHeartbeatProgress session sending_time target) c = do {
     c' \<leftarrow> (if does_replication_session_match session c
            then rc_on_engine (rh_update_leader_clock target sending_time) c else Some c);
     Some (Inr (), c') }"
| "handle_notification now (NStateMachine result) c =
     (case result of
        Inl err \<Rightarrow> Some (Inl err, c)
      | Inr resp \<Rightarrow> do { c' \<leftarrow> handle_sm_response resp c; Some (Inr (), c') })"

section \<open>The main loop\<close>

text \<open>
  Processing one channel within its budget. The number returned when the channel is empty counts the
  failed receive too, as the code does.
\<close>

fun process_raft_msg ::
  "(nat \<Rightarrow> bool) \<Rightarrow> nat \<Rightarrow> nat \<Rightarrow> nat \<Rightarrow> raft_core \<Rightarrow> ((storage_error + nat) \<times> raft_core) panics" where
  "process_raft_msg sto now i 0 c = Some (Inr i, c)"
| "process_raft_msg sto now i (Suc n) c =
     (case rc_rx_api c of
        [] \<Rightarrow> Some (Inr (i + 1), c)
      | msg # rest \<Rightarrow> do {
          c1 \<leftarrow> handle_api_msg now sto msg (c\<lparr>rc_rx_api := rest\<rparr>);
          (res, c2) \<leftarrow> run_engine_commands sto now c1;
          (case res of Inl err \<Rightarrow> Some (Inl err, c2) | Inr _ \<Rightarrow> process_raft_msg sto now (i + 1) n c2) })"

fun process_notification ::
  "(nat \<Rightarrow> bool) \<Rightarrow> nat \<Rightarrow> nat \<Rightarrow> nat \<Rightarrow> raft_core \<Rightarrow> ((storage_error + nat) \<times> raft_core) panics" where
  "process_notification sto now i 0 c = Some (Inr i, c)"
| "process_notification sto now i (Suc n) c =
     (case rc_rx_notification c of
        [] \<Rightarrow> Some (Inr (i + 1), c)
      | notify # rest \<Rightarrow> do {
          (res, c1) \<leftarrow> handle_notification now notify (c\<lparr>rc_rx_notification := rest\<rparr>);
          (case res of
             Inl err \<Rightarrow> Some (Inl err, c1)
           | Inr _ \<Rightarrow> do {
               (res2, c2) \<leftarrow> run_engine_commands sto now c1;
               (case res2 of
                  Inl err \<Rightarrow> Some (Inl err, c2)
                | Inr _ \<Rightarrow> process_notification sto now (i + 1) n c2) }) })"

text \<open>The first message of a turn: a notification if there is one, else a client message.\<close>

definition first_message :: "(nat \<Rightarrow> bool) \<Rightarrow> nat \<Rightarrow> raft_core \<Rightarrow> ((storage_error + unit) \<times> raft_core) panics" where
  "first_message sto now c =
     (case rc_rx_notification c of
        notify # rest \<Rightarrow> handle_notification now notify (c\<lparr>rc_rx_notification := rest\<rparr>)
      | [] \<Rightarrow>
          (case rc_rx_api c of
             msg # rest \<Rightarrow> do { c1 \<leftarrow> handle_api_msg now sto msg (c\<lparr>rc_rx_api := rest\<rparr>); Some (Inr (), c1) }
           | [] \<Rightarrow> Some (Inr (), c)))"

definition rc_balance :: "nat \<Rightarrow> nat \<Rightarrow> raft_core \<Rightarrow> raft_core panics" where
  "rc_balance raft_msg_processed notify_processed c = do {
     b \<leftarrow> bl_adjust raft_msg_processed notify_processed (rc_balancer c);
     Some (c\<lparr>rc_balancer := b\<rparr>) }"

text \<open>A step that ends the turn with the first storage error.\<close>

definition or_fatal ::
  "(raft_core \<Rightarrow> ((storage_error + 'b) \<times> raft_core) panics) \<Rightarrow> ('b \<Rightarrow> raft_core \<Rightarrow> ((storage_error + 'a) \<times> raft_core) panics)
    \<Rightarrow> raft_core \<Rightarrow> ((storage_error + 'a) \<times> raft_core) panics" where
  "or_fatal f g c = do {
     (res, c') \<leftarrow> f c;
     (case res of Inl err \<Rightarrow> Some (Inl err, c') | Inr x \<Rightarrow> g x c') }"

definition rc_turn :: "(nat \<Rightarrow> bool) \<Rightarrow> nat \<Rightarrow> raft_core \<Rightarrow> ((storage_error + unit) \<times> raft_core) panics" where
  "rc_turn sto now =
     or_fatal (\<lambda>c. do { c1 \<leftarrow> flush_metrics now c; first_message sto now c1 }) (\<lambda>_.
     or_fatal (run_engine_commands sto now) (\<lambda>_.
     or_fatal (\<lambda>c. process_raft_msg sto now 0 (bl_raft_msg (rc_balancer c)) c) (\<lambda>raft_processed.
     or_fatal (\<lambda>c. do { n \<leftarrow> bl_notification (rc_balancer c); process_notification sto now 0 n c }) (\<lambda>notify_processed c. do {
       c1 \<leftarrow> rc_balance raft_processed notify_processed c;
       c2 \<leftarrow> trigger_routine_actions c1;
       run_engine_commands sto now c2 }))))"

text \<open>The start of the task: the engine starts up, its commands run, and the metrics are initialized.\<close>

definition rc_startup :: "(nat \<Rightarrow> bool) \<Rightarrow> nat \<Rightarrow> raft_core \<Rightarrow> ((storage_error + unit) \<times> raft_core) panics" where
  "rc_startup sto now c = do {
     c1 \<leftarrow> rc_on_engine (en_startup now) c;
     or_fatal (run_engine_commands sto now) (\<lambda>u c2. do { c3 \<leftarrow> flush_metrics now c2; Some (Inr u, c3) }) c1 }"

end
