(* ===== verification/NodeVotes.thy ===== *)
theory NodeVotes
imports VoteEvents RaftCoreEvents
begin

text \<open>
  One node and its disk: whatever message, notification or command the runtime handles, the vote on
  disk only grows, a vote response leaves the node only when the vote it reports is on disk, and
  what the node still has to write is the queue of its commands.
\<close>

section \<open>The invariant of a node\<close>

fun pending_ok :: "pending_responds \<Rightarrow> bool" where
  "pending_ok p \<longleftrightarrow>
     (\<forall>x \<in> set (pd_on_log_io p). \<forall>resp tx. pr_respond x = RespondVote resp tx \<longrightarrow> io_id_vote (pr_wait_for x) = vr_vote resp)
     \<and> (\<forall>x \<in> set (pd_on_log_flush p). \<forall>resp tx. pr_respond x \<noteq> RespondVote resp tx)
     \<and> (\<forall>x \<in> set (pd_on_apply p). \<forall>resp tx. pr_respond x \<noteq> RespondVote resp tx)
     \<and> (\<forall>x \<in> set (pd_on_snapshot p). \<forall>resp tx. pr_respond x \<noteq> RespondVote resp tx)"

declare pending_ok.simps [simp del]

text \<open>What waits in the channel of the notifications is about votes on disk.\<close>

fun notif_ok :: "nat \<Rightarrow> raft_vote \<Rightarrow> notification \<Rightarrow> bool" where
  "notif_ok i d (NLocalIO io) = covers d (io_id_vote io)"
| "notif_ok i d (NVoteResponse t resp u) = (t = i \<and> covers d (vr_vote resp))"
| "notif_ok i d (NStateMachine (Inr (SmInstallSnapshot l m))) = covers d (cv_into_vote (lio_committed_vote l))"
| "notif_ok i d n = True"

text \<open>What the node has sent to its storage and to other nodes is about votes on disk.\<close>

fun effect_ok :: "raft_vote \<Rightarrow> effect \<Rightarrow> bool" where
  "effect_ok d (EffAppend es io) = covers d (io_id_vote io)"
| "effect_ok d (EffStateMachine (InstallFullSnapshot l s)) = covers d (cv_into_vote (lio_committed_vote l))"
| "effect_ok d (EffRespond (RespondVote resp tx)) = covers d (vr_vote resp)"
| "effect_ok d f = True"

definition harmless :: "effect \<Rightarrow> bool" where
  "harmless f \<longleftrightarrow> (\<forall>d. effect_ok d f) \<and> (\<forall>v. f \<noteq> EffSaveVote v)"

text \<open>The vote on disk after the calls of a trace.\<close>

fun disk_of :: "raft_vote \<Rightarrow> effect list \<Rightarrow> raft_vote" where
  "disk_of d [] = d"
| "disk_of d (EffSaveVote v # fs) = disk_of v fs"
| "disk_of d (f # fs) = disk_of d fs"

definition flushed_ok :: "raft_vote \<Rightarrow> io_state \<Rightarrow> bool" where
  "flushed_ok d ios \<longleftrightarrow> (\<forall>io. io_flushed (ios_log_progress ios) = Some io \<longrightarrow> covers d (io_id_vote io))"

definition node_inv_q :: "command list \<Rightarrow> nat \<Rightarrow> raft_vote \<Rightarrow> raft_core \<Rightarrow> bool" where
  "node_inv_q cs i d c \<longleftrightarrow> rc_id c = i \<and> track d cs = Some (vote_ref (rc_state c))
     \<and> pending_ok (eo_pending (en_output (rc_engine c))) \<and> flushed_ok d (rs_io_state (rc_state c))
     \<and> (\<forall>n \<in> set (rc_rx_notification c). notif_ok i d n)
     \<and> (\<forall>f \<in> set (rc_effects c). effect_ok d f)
     \<and> lead_le (rc_engine c)
     \<and> (\<forall>cd. en_candidate (rc_engine c) = Some cd \<longrightarrow> candidate_ok i cd)"

definition node_inv :: "nat \<Rightarrow> raft_vote \<Rightarrow> raft_core \<Rightarrow> bool" where
  "node_inv i d c \<longleftrightarrow> node_inv_q (eo_commands (en_output (rc_engine c))) i d c"

lemma vote_term_mono: "v' \<le> v \<Longrightarrow> vote_term v' \<le> vote_term v"
  by (auto simp: vote_le_iff vote_term_def leader_id_less_iff)

lemma covers_down: "covers d v \<Longrightarrow> v' \<le> v \<Longrightarrow> covers d v'"
  using vote_term_mono[of v' v] by (auto simp: covers_def intro: order_trans)

lemma io_id_new_vote [simp]: "io_id_vote (io_id_new v) = v"
  by (cases v) (simp add: io_id_new_def io_id_new_log_io_def io_id_new_vote_io_def vote_conv_defs)

lemma notif_ok_mono: "notif_ok i d n \<Longrightarrow> d \<le> d' \<Longrightarrow> notif_ok i d' n"
  by (induction i d n rule: notif_ok.induct) (auto intro: covers_mono)

lemma effect_ok_mono: "effect_ok d f \<Longrightarrow> d \<le> d' \<Longrightarrow> effect_ok d' f"
  by (induction d f rule: effect_ok.induct) (auto intro: covers_mono)

lemma flushed_ok_mono: "flushed_ok d s \<Longrightarrow> d \<le> d' \<Longrightarrow> flushed_ok d' s"
  by (auto simp: flushed_ok_def intro: covers_mono)

lemma harmless_simps [simp]:
  "harmless (EffClientError t1 e1)" "harmless (EffOnCommit t2 l2)" "harmless (EffRead t3 r3)"
  "harmless (EffReadRpc t4 n4 r4)" "harmless (EffReadTask t5 v5 l5 m5)" "harmless (EffRevertReply t6 r6)"
  "harmless (EffSaveCommitted l7)" "harmless (EffPurge l8)" "harmless (EffTruncate l9)"
  "harmless (EffVoteRpc t10 n10 q10)" "harmless (EffTransferRpc t11 n11 q11)" "harmless (EffReplicate t12 d12)"
  "harmless (EffReplicateSnapshot t13 n13 s13 i13)" "harmless (EffSpawnStream t14 n14 s14 a14 b14)"
  "harmless EffRemoveStreams" "harmless (EffSpawnHeartbeat t15 n15)" "harmless (EffHeartbeat t16 h16)"
  "harmless (EffMetrics m17)" "harmless (EffStateMachine (Apply a18 b18 r18))"
  "harmless (EffStateMachine BuildSnapshot)" "harmless (EffStateMachine (GetSnapshot t19))"
  "harmless (EffStateMachine (BeginReceivingSnapshot t20))" "harmless (EffStateMachine Func)"
  by (simp_all add: harmless_def)

lemma disk_of_append: "disk_of d (a @ b) = disk_of (disk_of d a) b"
  by (induction d a rule: disk_of.induct) auto

lemma disk_of_no_save: "\<forall>f \<in> set fs. \<forall>v. f \<noteq> EffSaveVote v \<Longrightarrow> disk_of d fs = d"
proof (induction fs arbitrary: d)
  case (Cons f fs)
  then show ?case by (cases f) auto
qed simp

lemma disk_of_harmless: "\<forall>f \<in> set fs. harmless f \<Longrightarrow> disk_of d fs = d"
  by (rule disk_of_no_save) (auto simp: harmless_def)

section \<open>Events\<close>

text \<open>
  What an event does to the invariant: the engine extends its queue, harmless effects are added,
  and a new candidate has no granted vote yet.
\<close>

definition fresh_candidate :: "nat \<Rightarrow> engine \<Rightarrow> engine \<Rightarrow> bool" where
  "fresh_candidate i e e' \<longleftrightarrow> no_new_candidate e e'
     \<or> (\<forall>cd. en_candidate e' = Some cd \<longrightarrow> candidate_ok i cd \<and> cd_granters cd = [])"

definition core_step :: "raft_core \<Rightarrow> raft_core \<Rightarrow> bool" where
  "core_step c c' \<longleftrightarrow> extends (rc_engine c) (rc_engine c') \<and> lead_le (rc_engine c')
     \<and> fresh_candidate (rc_id c) (rc_engine c) (rc_engine c')
     \<and> rc_rx_notification c' = rc_rx_notification c
     \<and> (\<exists>fs. rc_effects c' = rc_effects c @ fs \<and> (\<forall>f \<in> set fs. harmless f))"

lemma extends_inv:
  assumes "node_inv i d c" "extends (rc_engine c) (rc_engine c')" "lead_le (rc_engine c')"
    "\<And>cd. en_candidate (rc_engine c') = Some cd \<Longrightarrow> candidate_ok i cd"
    "\<And>n. n \<in> set (rc_rx_notification c') \<Longrightarrow> n \<in> set (rc_rx_notification c) \<or> notif_ok i d n"
    "\<And>f. f \<in> set (rc_effects c') \<Longrightarrow> f \<in> set (rc_effects c) \<or> effect_ok d f"
  shows "node_inv i d c'"
proof -
  have n: "\<forall>n \<in> set (rc_rx_notification c'). notif_ok i d n"
    using assms(1,5) unfolding node_inv_def node_inv_q_def by blast
  have f: "\<forall>f \<in> set (rc_effects c'). effect_ok d f"
    using assms(1,6) unfolding node_inv_def node_inv_q_def by blast
  show ?thesis
    using assms(1-4) n f by (auto simp: node_inv_def node_inv_q_def extends_def flushed_ok_def track_append)
qed

lemma core_step_inv:
  assumes "node_inv i d c" "core_step c c'"
  shows "node_inv i d c'"
proof (rule extends_inv[OF assms(1)])
  show "extends (rc_engine c) (rc_engine c')" "lead_le (rc_engine c')"
    using assms(2) by (simp_all add: core_step_def)
  show "candidate_ok i cd" if "en_candidate (rc_engine c') = Some cd" for cd
    using assms that by (auto simp: core_step_def fresh_candidate_def no_new_candidate_def node_inv_def node_inv_q_def)
  show "n \<in> set (rc_rx_notification c) \<or> notif_ok i d n" if "n \<in> set (rc_rx_notification c')" for n
    using assms(2) that by (simp add: core_step_def)
  show "f \<in> set (rc_effects c) \<or> effect_ok d f" if "f \<in> set (rc_effects c')" for f
    using assms(2) that by (auto simp: core_step_def harmless_def)
qed

lemma core_step_refl: "lead_le (rc_engine c) \<Longrightarrow> core_step c c"
  by (simp add: core_step_def fresh_candidate_def no_new_candidate_def)

lemma core_step_emit:
  assumes "core_step c c'" "\<forall>f \<in> set fs. harmless f"
  shows "core_step c (rc_emit fs c')"
  using assms by (auto simp: core_step_def)

lemma core_step_trans:
  assumes "core_step a b" "core_step b c"
  shows "core_step a c"
proof -
  have i: "en_config (rc_engine b) = en_config (rc_engine a)" using assms(1) by (simp add: core_step_def extends_def)
  obtain f1 f2 where f: "rc_effects b = rc_effects a @ f1" "\<forall>f \<in> set f1. harmless f"
    "rc_effects c = rc_effects b @ f2" "\<forall>f \<in> set f2. harmless f"
    using assms by (auto simp: core_step_def)
  have "extends (rc_engine a) (rc_engine c)"
    using extends_trans[of "rc_engine a" "rc_engine b" "rc_engine c"] assms by (simp add: core_step_def)
  moreover have "fresh_candidate (rc_id a) (rc_engine a) (rc_engine c)"
    using assms i unfolding core_step_def fresh_candidate_def no_new_candidate_def by metis
  moreover have "\<exists>fs. rc_effects c = rc_effects a @ fs \<and> (\<forall>f \<in> set fs. harmless f)"
    using f by (intro exI[of _ "f1 @ f2"]) auto
  ultimately show ?thesis using assms by (simp add: core_step_def)
qed

lemma keeps_core_step:
  assumes "keeps (rc_engine c) e" "rc_engine c' = e" "rc_rx_notification c' = rc_rx_notification c" "rc_effects c' = rc_effects c"
  shows "core_step c c'"
  using assms by (simp add: core_step_def keeps_def fresh_candidate_def)

lemma rc_on_engine_step:
  assumes "rc_on_engine f c = Some c'" "\<And>e. f (rc_engine c) = Some e \<Longrightarrow> keeps (rc_engine c) e"
  shows "core_step c c'"
  using assms by (auto simp: rc_on_engine_def bind_eq_Some_conv intro: keeps_core_step)

lemma rc_on_engine_quiet:
  assumes "rc_on_engine f c = Some c'" "lead_le (rc_engine c)" "\<And>e. f (rc_engine c) = Some e \<Longrightarrow> quiet (rc_engine c) e"
  shows "core_step c c'"
  using assms by (auto intro: rc_on_engine_step quiet_keeps)

lemma elect_step:
  assumes "rc_on_engine (en_elect now) c = Some c'" "lead_le (rc_engine c)"
  shows "core_step c c'"
  using assms en_elect_effect[OF _ assms(2)]
  by (auto simp: rc_on_engine_def bind_eq_Some_conv core_step_def fresh_candidate_def)

lemma core_step_lead: "core_step a b \<Longrightarrow> lead_le (rc_engine b)"
  by (simp add: core_step_def)

text \<open>Initialization: whether it is allowed or not, the node runs for the term after its own.\<close>

lemma handle_initialize_effect:
  assumes "handle_initialize now members tx c = Some c'" "lead_le (rc_engine c)"
  shows "core_step c c'
    \<and> vote_ref (rc_state c') = Vote (LeaderId (vote_term (vote_ref (rc_state c)) + 1) (rc_id c)) False"
proof -
  let ?e = "rc_engine c"
  let ?ent = "entry_new default_log_id (MembershipPayload (membership_from_nodes members))"
  obtain res e1 cond e2 where *: "en_initialize now ?ent ?e = Some (res, e1)"
    "en_elect now (en_push (Respond cond (RespondInitialize res tx)) e1) = Some e2" "c' = c\<lparr>rc_engine := e2\<rparr>"
    using assms(1) by (auto simp: handle_initialize_def Let_def bind_eq_Some_conv)
  let ?p = "en_push (Respond cond (RespondInitialize res tx)) e1"
  have en: "\<exists>cs. eo_commands (en_output e1) = eo_commands (en_output ?e) @ cs
      \<and> track (vote_ref (en_state ?e)) cs = Some (vote_ref (en_state ?e))
      \<and> eo_pending (en_output e1) = eo_pending (en_output ?e) \<and> en_config e1 = en_config ?e
      \<and> io_flushed (ios_log_progress (rs_io_state (en_state e1))) = io_flushed (ios_log_progress (rs_io_state (en_state ?e)))
      \<and> lead_le e1 \<and> vote_term (vote_ref (en_state e1)) = vote_term (vote_ref (en_state ?e))"
  proof (cases "e1 = ?e")
    case True
    then show ?thesis using assms(2) by simp
  next
    case False
    then obtain lv ent where n: "en_check_initialize ?e = Inr ()"
      and e1: "en_following_handler (?e\<lparr>en_state := (en_state ?e)\<lparr>rs_vote :=
           leased_update now 0 (Vote (LeaderId 0 (en_id ?e)) True) (rs_vote (en_state ?e))\<rparr>\<rparr>) = Some lv"
        "fh_do_append_entries lv [ent] (?e\<lparr>en_state := (en_state ?e)\<lparr>rs_vote :=
           leased_update now 0 (Vote (LeaderId 0 (en_id ?e)) True) (rs_vote (en_state ?e))\<rparr>\<rparr>) = Some e1"
      using *(1) by (auto simp: en_initialize_def Let_def bind_eq_Some_conv split: sum.splits)
    let ?init = "?e\<lparr>en_state := (en_state ?e)\<lparr>rs_vote :=
           leased_update now 0 (Vote (LeaderId 0 (en_id ?e)) True) (rs_vote (en_state ?e))\<rparr>\<rparr>"
    have v0: "vote_ref (en_state ?init) = Vote (LeaderId 0 (en_id ?e)) True" by (simp add: vote_ref_def leased_update_def)
    have lv: "cv_into_vote lv = Vote (LeaderId 0 (en_id ?e)) True" "en_leader ?e = None"
      using following_handler_vote[OF e1(1)] v0 by auto
    have t0: "vote_term (vote_ref (en_state ?e)) = 0"
      using n by (simp add: en_check_initialize_def rs_is_initialized_def vote_term_def split: if_splits)
    obtain e3 e4 where a: "en_on_state (rs_extend_log_ids (log_ids_of [ent])) ?init = Some e3"
      "fh_append_membership [ent] e3 = Some e4" "e1 = en_push (AppendEntries lv [ent]) e4"
      using e1(2) by (auto simp: fh_do_append_entries_def bind_eq_Some_conv)
    have q1: "quiet ?init e3"
      by (rule quiet_on_state[OF a(1)]) (auto simp: rs_extend_log_ids_def bind_eq_Some_conv vote_ref_def)
    have q: "quiet ?init e4" by (rule quiet_trans[OF q1 quiet_fh_append_membership[OF a(2)]])
    obtain ns where ns: "eo_commands (en_output e4) = eo_commands (en_output ?e) @ ns" "\<forall>x \<in> set ns. neutral x"
      using q by (auto simp: quiet_def)
    have "track (vote_ref (en_state ?e)) (ns @ [AppendEntries lv [ent]]) = Some (vote_ref (en_state ?e))"
      using ns(2) lv(1) by (simp add: track_append track_neutral covers_def vote_term_def)
    moreover have "leading_vote e4 = None" using q lv(2) by (simp add: quiet_def leading_vote_def)
    moreover have "vote_ref (en_state e4) = Vote (LeaderId 0 (en_id ?e)) True" using q v0 by (simp only: quiet_def)
    ultimately show ?thesis
      using q t0 ns(1) unfolding a(3)
      by (intro exI[of _ "ns @ [AppendEntries lv [ent]]"])
        (simp add: quiet_def lead_le_def leading_vote_def vote_term_def)
  qed
  then obtain cs where cs: "eo_commands (en_output e1) = eo_commands (en_output ?e) @ cs"
    "track (vote_ref (en_state ?e)) cs = Some (vote_ref (en_state ?e))" "lead_le e1" by blast
  have lp: "lead_le ?p" using cs(3) by (simp add: lead_le_def leading_vote_def)
  note el = en_elect_effect[OF *(2) lp]
  define v where "v = Vote (LeaderId (vote_term (vote_ref (en_state ?e)) + 1) (en_id ?e)) False"
  have v: "vote_ref (en_state e2) = v" "vote_ref (en_state ?e) < v"
    using el en elect_vote_greater by (auto simp: v_def)
  obtain q where q: "eo_commands (en_output e2) = eo_commands (en_output ?p) @ [SaveVote v, SendVote q]"
    using el en by (auto simp: v_def)
  have "extends ?e e2"
    using q v cs(1,2) en el
    by (auto simp: extends_def track_append v_def[symmetric]
        intro!: exI[of _ "cs @ [Respond cond (RespondInitialize res tx), SaveVote v, SendVote q]"])
  then show ?thesis
    using el v en unfolding *(3) v_def[symmetric] by (auto simp: core_step_def fresh_candidate_def v_def)
qed

section \<open>Client messages\<close>

lemma core_step_emit': "core_step c c' \<Longrightarrow> \<forall>f \<in> set fs. harmless f \<Longrightarrow> d = rc_emit fs c' \<Longrightarrow> core_step c d"
  using core_step_emit by blast

lemma core_step_client_error [intro]:
  "lead_le (rc_engine c) \<Longrightarrow> core_step c (emit_to tx err c)"
  by (auto simp: emit_to_def intro: core_step_refl core_step_emit split: option.splits)

lemma handle_vote_request_step:
  assumes "handle_vote_request now req tx c = Some c'" "lead_le (rc_engine c)"
  shows "core_step c c'"
proof -
  obtain resp e where *: "en_handle_vote_req now req (rc_engine c) = Some (resp, e)"
    "c' = c\<lparr>rc_engine := en_push (Respond (Some (IOFlushed (io_id_new (vote_ref (en_state e))))) (RespondVote resp tx)) e\<rparr>"
    using assms(1) by (auto simp: handle_vote_request_def bind_eq_Some_conv)
  have "keeps (rc_engine c) (rc_engine c')"
    using en_handle_vote_req_keeps[OF *(1) assms(2)] unfolding *(2) by (auto intro: keeps_push)
  then show ?thesis by (rule keeps_core_step) (simp_all add: *(2))
qed

lemma handle_append_step:
  assumes "handle_append_entries_request now rpc tx c = Some c'" "lead_le (rc_engine c)"
  shows "core_step c c'"
proof -
  obtain e e' where *: "en_handle_append_entries now (ar_vote rpc) (ar_prev_log_id rpc) (ar_entries rpc) tx (rc_engine c) = Some e"
    "en_on_state (rs_update_committed (LogIOId (vote_into_committed (ar_vote rpc)) (ar_leader_commit rpc))) e = Some e'"
    "c' = c\<lparr>rc_engine := e'\<rparr>"
    using assms(1) by (auto simp: handle_append_entries_request_def Let_def bind_eq_Some_conv)
  have "quiet e e'" by (rule quiet_on_state[OF *(2)]) (simp add: rs_update_committed_keeps)
  then have "keeps (rc_engine c) e'" by (rule keeps_quiet[OF en_handle_append_keeps[OF *(1) assms(2)]])
  then show ?thesis by (rule keeps_core_step) (simp_all add: *(3))
qed

lemma write_entry_step:
  assumes "write_entry ent tx c = Some c'" "lead_le (rc_engine c)"
  shows "core_step c c'"
proof -
  obtain lh where lh: "en_leader_handler (rc_engine c) = Some lh"
    using assms(1) by (auto simp: write_entry_def bind_eq_Some_conv)
  have "(\<exists>err. c' = emit_to tx err c)
    \<or> (leader_append_entries [ent] (rc_engine c) = Some (rc_engine c')
        \<and> rc_rx_notification c' = rc_rx_notification c \<and> rc_effects c' = rc_effects c)"
  proof (cases lh)
    case (Inr l)
    then show ?thesis
      using assms(1) lh by (cases "ld_transfer_to l"; cases tx) (auto simp: write_entry_def bind_eq_Some_conv)
  qed (use assms(1) lh in \<open>auto simp: write_entry_def\<close>)
  then show ?thesis
    using assms(2) leader_append_keeps by (auto intro: keeps_core_step)
qed

lemma change_membership_step:
  assumes "change_membership changes retain tx c = Some c'" "lead_le (rc_engine c)"
  shows "core_step c c'"
proof -
  obtain res where res: "ch_apply (rs_membership_state (rc_state c)) changes retain = Some res"
    using assms(1) by (auto simp: change_membership_def bind_eq_Some_conv)
  then show ?thesis
    using assms by (cases res)
      (auto simp: change_membership_def intro: write_entry_step core_step_emit core_step_refl)
qed

lemma rc_send_heartbeat_step:
  assumes "rc_send_heartbeat c = Some (b, c')" "lead_le (rc_engine c)"
  shows "core_step c c'"
proof -
  obtain lh where lh: "en_leader_handler (rc_engine c) = Some lh"
    using assms(1) by (auto simp: rc_send_heartbeat_def bind_eq_Some_conv)
  have "c' = c \<or> rc_on_engine send_heartbeat c = Some c'"
    using assms(1) lh by (cases lh) (auto simp: rc_send_heartbeat_def bind_eq_Some_conv split: if_splits)
  then show ?thesis
    using assms(2) core_step_refl rc_on_engine_quiet quiet_send_heartbeat by blast
qed

lemma quorum_acked_step:
  assumes "rc_last_quorum_acked_time now c = Some (t, c')" "lead_le (rc_engine c)"
  shows "core_step c c'"
proof (cases "en_leader (rc_engine c)")
  case None
  then show ?thesis using assms core_step_refl by (simp add: rc_last_quorum_acked_time_def)
next
  case (Some l)
  then obtain l' where l: "ld_last_quorum_acked_time now l = Some (t, l')"
    "c' = c\<lparr>rc_engine := (rc_engine c)\<lparr>en_leader := Some l'\<rparr>\<rparr>"
    using assms(1) by (auto simp: rc_last_quorum_acked_time_def bind_eq_Some_conv)
  have "ld_committed_vote l' = ld_committed_vote l"
    using l(1) by (auto simp: ld_last_quorum_acked_time_def Let_def bind_eq_Some_conv)
  then have "quiet (rc_engine c) (rc_engine c')" using quiet_leader[OF Some] l(2) by simp
  then show ?thesis by (intro keeps_core_step[OF quiet_keeps]) (use assms(2) l(2) in simp_all)
qed

lemma read_rpcs_harmless:
  "read_rpcs em self rpc p items = Some fs \<Longrightarrow> f \<in> set fs \<Longrightarrow> harmless f"
  by (induction em self rpc p items arbitrary: fs rule: read_rpcs.induct)
    (auto simp: bind_eq_Some_conv split: if_splits)

lemma ensure_linearizable_read_step:
  assumes "handle_ensure_linearizable_read now policy tx c = Some c'" "lead_le (rc_engine c)"
  shows "core_step c c'"
proof -
  obtain lh where lh: "en_leader_handler (rc_engine c) = Some lh"
    using assms(1) by (auto simp: handle_ensure_linearizable_read_def bind_eq_Some_conv)
  show ?thesis
  proof (cases lh)
    case (Inl f)
    then show ?thesis
      using assms lh by (auto simp: handle_ensure_linearizable_read_def intro: core_step_emit core_step_refl)
  next
    case (Inr l)
    show ?thesis
    proof (cases "policy = LeaseRead")
      case True
      obtain y acked c1 where y: "get_read_log_id (rc_engine c) = Some y"
        and c1: "rc_last_quorum_acked_time now c = Some (acked, c1)"
        using assms(1) lh Inr True by (auto simp: handle_ensure_linearizable_read_def bind_eq_Some_conv)
      have "\<exists>r. c' = rc_emit [EffRead tx r] c1"
        using assms(1) lh Inr True y c1
        by (cases acked) (auto simp: handle_ensure_linearizable_read_def Let_def split: if_splits)
      then obtain r where r: "c' = rc_emit [EffRead tx r] c1" by blast
      show ?thesis unfolding r by (rule core_step_emit[OF quorum_acked_step[OF c1 assms(2)]]) simp
    next
      case False
      have "\<exists>fs. c' = rc_emit fs c \<and> (\<forall>f \<in> set fs. harmless f)"
      proof (cases "em_is_quorum (rc_effective c) [rc_id c]")
        case True
        then show ?thesis
          using assms(1) lh Inr False
          by (auto simp: handle_ensure_linearizable_read_def bind_eq_Some_conv Let_def)
      next
        case nq: False
        obtain rpc fs x where "read_rpcs (rc_effective c) (rc_id c) rpc (ld_progress l) (vp_entries (ld_progress l)) = Some fs"
          "c' = rc_emit (fs @ [EffReadTask tx (vote_ref (rc_state c)) x (rc_effective c)]) c"
          using assms(1) lh Inr False nq
          by (auto simp: handle_ensure_linearizable_read_def bind_eq_Some_conv Let_def)
        then show ?thesis
          using read_rpcs_harmless by (intro exI[of _ "fs @ [EffReadTask tx (vote_ref (rc_state c)) x (rc_effective c)]"]) auto
      qed
      then show ?thesis using core_step_emit[OF core_step_refl[OF assms(2)]] by blast
    qed
  qed
qed

text \<open>The closures of the application on the state machine run as \<open>Func\<close>.\<close>

fun msg_ok :: "raft_msg \<Rightarrow> bool" where
  "msg_ok (MsgExternalCommand (ExtStateMachineCommand cmd)) = (cmd = Func)"
| "msg_ok m = True"

lemma elect_at_step:
  assumes "rc_on_engine (en_elect now) c1 = Some c'" "quiet (rc_engine c) (rc_engine c1)" "lead_le (rc_engine c)"
    "rc_rx_notification c1 = rc_rx_notification c" "rc_effects c1 = rc_effects c"
  shows "core_step c c'"
  by (rule core_step_trans[OF keeps_core_step[OF quiet_keeps[OF assms(2,3)]] elect_step[OF assms(1)]])
    (use assms quiet_lead_le in auto)

lemma handle_external_command_step:
  assumes "handle_external_command now sto cmd c = Some c'" "lead_le (rc_engine c)" "msg_ok (MsgExternalCommand cmd)"
  shows "core_step c c'"
proof (cases cmd)
  case ExtElect
  then show ?thesis using assms elect_step core_step_refl by (auto split: if_splits)
next
  case ExtHeartbeat
  then show ?thesis using assms rc_send_heartbeat_step by auto
next
  case ExtSnapshot
  have "quiet (rc_engine c) (rc_engine (rc_trigger_snapshot c))"
    by (simp add: rc_trigger_snapshot_def quiet_sh_trigger)
  then show ?thesis
    using assms ExtSnapshot quiet_keeps by (auto intro!: keeps_core_step simp: rc_trigger_snapshot_def)
next
  case (ExtPurgeLog x)
  then show ?thesis using assms rc_on_engine_quiet quiet_trigger_purge by fastforce
next
  case (ExtTriggerTransferLeader x)
  then show ?thesis using assms rc_on_engine_quiet quiet_trigger_transfer by fastforce
next
  case (ExtAllowNextRevert to allow tx)
  obtain lh where lh: "en_leader_handler (rc_engine c) = Some lh"
    using assms(1) ExtAllowNextRevert by (auto simp: bind_eq_Some_conv)
  show ?thesis
  proof (cases lh)
    case (Inl f)
    then show ?thesis using assms lh ExtAllowNextRevert by (auto intro: core_step_emit core_step_refl)
  next
    case (Inr l)
    then obtain res e where e: "rh_allow_next_revert to allow (rc_engine c) = Some (res, e)"
      "c' = rc_emit [EffRevertReply tx (map_sum RevertNodeNotFound (\<lambda>x. x) res)] (c\<lparr>rc_engine := e\<rparr>)"
      using assms(1) lh ExtAllowNextRevert by (auto simp: bind_eq_Some_conv)
    have "core_step c (c\<lparr>rc_engine := e\<rparr>)"
      by (rule keeps_core_step[OF quiet_keeps[OF quiet_allow_next_revert[OF e(1)] assms(2)]]) simp_all
    then show ?thesis unfolding e(2) by (rule core_step_emit) simp
  qed
qed (use assms in \<open>auto intro: core_step_emit core_step_refl\<close>)

lemma handle_api_msg_step:
  assumes "handle_api_msg now sto msg c = Some c'" "lead_le (rc_engine c)" "msg_ok msg"
  shows "core_step c c'"
proof (cases msg)
  case (MsgInstallFullSnapshot v s tx)
  then show ?thesis using assms rc_on_engine_step en_handle_install_keeps by fastforce
next
  case (MsgBeginReceivingSnapshot tx)
  then show ?thesis
    using assms quiet_keeps[OF quiet_begin_receiving] by (auto intro!: keeps_core_step)
next
  case (MsgClientWriteRequest a r ex)
  then show ?thesis using assms write_entry_step by (auto split: if_splits)
next
  case (MsgHandleTransferLeader v to)
  let ?c1 = "c\<lparr>rc_engine := (rc_engine c)\<lparr>en_state := (rc_state c)\<lparr>rs_vote := leased_disable_lease (rs_vote (rc_state c))\<rparr>\<rparr>\<rparr>"
  have q: "quiet (rc_engine c) (rc_engine ?c1)"
    by (simp add: quiet_def leading_vote_def vote_ref_def leased_disable_lease_def)
  have "c' = c \<or> c' = ?c1 \<or> rc_on_engine (en_elect now) ?c1 = Some c'"
    using assms(1) MsgHandleTransferLeader by (auto simp: Let_def split: if_splits)
  then show ?thesis
  proof (elim disjE)
    assume "c' = ?c1"
    then show ?thesis using keeps_core_step[OF quiet_keeps[OF q assms(2)]] by simp
  next
    assume "rc_on_engine (en_elect now) ?c1 = Some c'"
    then show ?thesis by (rule elect_at_step[OF _ q assms(2)]) simp_all
  qed (use assms(2) core_step_refl in simp)
next
  case (MsgExternalCommand cmd)
  then show ?thesis using assms handle_external_command_step by simp
qed (use assms handle_initialize_effect in \<open>auto intro: handle_append_step handle_vote_request_step
    ensure_linearizable_read_step change_membership_step core_step_refl\<close>)

section \<open>Notifications\<close>

text \<open>A flush of I/O whose vote is on disk.\<close>

lemma node_inv_io:
  assumes "node_inv i d c" "io_only (rc_engine c) (rc_engine c')" "flushed_ok d (rs_io_state (rc_state c'))"
    "rc_rx_notification c' = rc_rx_notification c" "rc_effects c' = rc_effects c"
  shows "node_inv i d c'"
proof -
  note io_only_D[OF assms(2)]
  then show ?thesis
    using assms(1,3-5) by (simp add: node_inv_def node_inv_q_def vote_ref_def lead_le_def leading_vote_def)
qed

lemma rc_on_io_rx [simp]:
  "rc_on_log_io f c = Some c' \<Longrightarrow> rc_rx_notification c' = rc_rx_notification c \<and> rc_effects c' = rc_effects c"
  "rc_on_apply_io g c = Some c' \<Longrightarrow> rc_rx_notification c' = rc_rx_notification c \<and> rc_effects c' = rc_effects c"
  "rc_on_snapshot_io g c = Some c' \<Longrightarrow> rc_rx_notification c' = rc_rx_notification c \<and> rc_effects c' = rc_effects c"
  by (auto simp: rc_on_log_io_def rc_on_apply_io_def rc_on_snapshot_io_def rc_set_ios_def bind_eq_Some_conv)

lemma log_flush_inv:
  assumes "node_inv i d c" "rc_on_log_io (io_try_flush io) c = Some c'" "covers d (io_id_vote io)"
  shows "node_inv i d c'"
proof (rule node_inv_io[OF assms(1) rc_on_io_only(1)[OF assms(2)]])
  have "io_flushed (ios_log_progress (rs_io_state (rc_state c'))) \<in>
      {Some io, io_flushed (ios_log_progress (rs_io_state (rc_state c)))}"
    using assms(2) by (auto simp: rc_on_log_io_def rc_set_ios_def bind_eq_Some_conv io_try_flush_def io_flush_def
        split: if_splits)
  then show "flushed_ok d (rs_io_state (rc_state c'))"
    using assms(1,3) by (auto simp: flushed_ok_def node_inv_def node_inv_q_def)
qed (use rc_on_io_rx(1)[OF assms(2)] in simp_all)

lemma apply_flush_inv:
  assumes "node_inv i d c" "rc_on_apply_io f c = Some c' \<or> rc_on_snapshot_io f c = Some c'"
  shows "node_inv i d c'"
proof (rule node_inv_io[OF assms(1)])
  show "io_only (rc_engine c) (rc_engine c')" using assms(2) rc_on_io_only by blast
  have "ios_log_progress (rs_io_state (rc_state c')) = ios_log_progress (rs_io_state (rc_state c))"
    using assms(2) by (auto simp: rc_on_apply_io_def rc_on_snapshot_io_def rc_set_ios_def bind_eq_Some_conv)
  then show "flushed_ok d (rs_io_state (rc_state c'))"
    using assms(1) by (auto simp: flushed_ok_def node_inv_def node_inv_q_def)
qed (use assms(2) in auto)

lemma handle_sm_response_inv:
  assumes "handle_sm_response resp c = Some c'" "node_inv i d c" "notif_ok i d (NStateMachine (Inr resp))"
  shows "node_inv i d c' \<and> en_candidate (rc_engine c') = en_candidate (rc_engine c)"
proof (cases resp)
  case (BuildSnapshotDone m)
  have l: "lead_le (rc_engine c)" using assms(2) by (simp add: node_inv_def node_inv_q_def)
  obtain e where e: "en_on_building_snapshot_done m (rc_engine c) = Some e" "c' = c\<lparr>rc_engine := e\<rparr>"
    using assms(1) BuildSnapshotDone by (auto simp: rc_on_engine_def bind_eq_Some_conv)
  have "core_step c c'"
    by (rule keeps_core_step[OF quiet_keeps[OF quiet_building_done[OF e(1)] l]]) (simp_all add: e(2))
  then show ?thesis
    using core_step_inv[OF assms(2)] quiet_building_done[OF e(1)] e(2) by (simp add: quiet_def)
next
  case (SmInstallSnapshot l m)
  then obtain c1 where c1: "rc_on_log_io (io_try_flush (IOLog l)) c = Some c1" using assms(1) by (auto simp: bind_eq_Some_conv)
  have i1: "node_inv i d c1" using log_flush_inv[OF assms(2) c1] assms(3) SmInstallSnapshot by simp
  show ?thesis
  proof (cases "Option.bind m snap_last_log_id")
    case None
    then show ?thesis using assms(1) SmInstallSnapshot c1 i1 io_only_D(4)[OF rc_on_io_only(1)[OF c1]] by simp
  next
    case (Some s)
    then obtain c2 where c2: "rc_on_apply_io (io_try_flush s) c1 = Some c2" "rc_on_snapshot_io (io_try_flush s) c2 = Some c'"
      using assms(1) SmInstallSnapshot c1 by (auto simp: bind_eq_Some_conv)
    have "node_inv i d c'" using apply_flush_inv[OF apply_flush_inv[OF i1]] c2 by blast
    then show ?thesis
      using io_only_D(4)[OF rc_on_io_only(1)[OF c1]] io_only_D(4)[OF rc_on_io_only(2)[OF c2(1)]]
        io_only_D(4)[OF rc_on_io_only(3)[OF c2(2)]] by simp
  qed
next
  case (SmApply r)
  then show ?thesis
    using assms apply_flush_inv[OF assms(2)] io_only_D(4)[OF rc_on_io_only(2)] by (metis handle_sm_response.simps(3))
qed

text \<open>A tick may start an election, send heartbeats and make a removed leader step down.\<close>

lemma tick_election_step:
  assumes "handle_tick_election now c = Some c'" "lead_le (rc_engine c)"
  shows "core_step c c'"
proof -
  let ?c1 = "c\<lparr>rc_engine := (rc_engine c)\<lparr>en_seen_greater_log := False\<rparr>\<rparr>"
  have q: "quiet (rc_engine c) (rc_engine ?c1)" by (simp add: quiet_def leading_vote_def)
  have "c' = c \<or> rc_on_engine (en_elect now) ?c1 = Some c'"
    using assms(1) by (auto simp: handle_tick_election_def Let_def split: if_splits)
  then show ?thesis
  proof
    assume "rc_on_engine (en_elect now) ?c1 = Some c'"
    then show ?thesis by (rule elect_at_step[OF _ q assms(2)]) simp_all
  qed (use assms(2) core_step_refl in simp)
qed

lemma tick_heartbeat_step:
  assumes "tick_heartbeat now c = Some c'" "lead_le (rc_engine c)"
  shows "core_step c c'"
proof (cases "\<exists>l. en_leader (rc_engine c) = Some l \<and> now \<ge> ld_next_heartbeat l")
  case False
  then have "c' = c" using assms(1) by (auto simp: tick_heartbeat_def split: option.splits)
  then show ?thesis using assms core_step_refl by simp
next
  case True
  then obtain c1 where c1: "(if rc_enable_heartbeat c then map_option snd (rc_send_heartbeat c) else Some c) = Some c1"
    and c': "c' = (case en_leader (rc_engine c1) of None \<Rightarrow> c1
      | Some l1 \<Rightarrow> c1\<lparr>rc_engine := (rc_engine c1)\<lparr>en_leader :=
          Some (l1\<lparr>ld_next_heartbeat := now + rc_heartbeat_interval c1\<rparr>)\<rparr>\<rparr>)"
    using assms(1) by (auto simp: tick_heartbeat_def bind_eq_Some_conv simp del: map_option_eq_Some)
  have s1: "core_step c c1"
    using c1 rc_send_heartbeat_step assms(2) core_step_refl by (auto split: if_splits)
  show ?thesis
  proof (cases "en_leader (rc_engine c1)")
    case None
    then show ?thesis using s1 c' by simp
  next
    case (Some l1)
    have "quiet (rc_engine c1) (rc_engine c')" using quiet_leader[OF Some] Some c' by simp
    then have "core_step c1 c'"
      by (intro keeps_core_step[OF quiet_keeps]) (use core_step_lead[OF s1] Some c' in simp_all)
    then show ?thesis by (rule core_step_trans[OF s1])
  qed
qed

lemma handle_tick_step:
  assumes "handle_tick now c = Some c'" "lead_le (rc_engine c)"
  shows "core_step c c'"
proof -
  obtain c1 c2 where *: "handle_tick_election now c = Some c1" "tick_heartbeat now c1 = Some c2"
    "c' = c2 \<or> rc_on_engine (en_leader_step_down now) c2 = Some c'"
    using assms(1) by (auto simp: handle_tick_def bind_eq_Some_conv split: if_splits)
  have s1: "core_step c c1" by (rule tick_election_step[OF *(1) assms(2)])
  have s2: "core_step c1 c2" by (rule tick_heartbeat_step[OF *(2) core_step_lead[OF s1]])
  have s3: "core_step c2 c'"
    using *(3) core_step_refl[OF core_step_lead[OF s2]] rc_on_engine_step en_leader_step_down_keeps core_step_lead[OF s2]
    by blast
  show ?thesis by (rule core_step_trans[OF s1 core_step_trans[OF s2 s3]])
qed

text \<open>
  A notification other than a vote response keeps the invariant and counts no grant. For a response,
  \<open>en_handle_vote_resp_effect\<close> says what is counted.
\<close>

fun is_vote_response :: "notification \<Rightarrow> bool" where
  "is_vote_response (NVoteResponse t resp u) = True"
| "is_vote_response n = False"

lemma core_step_fresh: "core_step c c' \<Longrightarrow> fresh_candidate (rc_id c) (rc_engine c) (rc_engine c')"
  by (simp add: core_step_def)

lemma core_step_effects: "core_step c c' \<Longrightarrow> \<exists>fs. rc_effects c' = rc_effects c @ fs \<and> (\<forall>f \<in> set fs. harmless f)"
  by (simp add: core_step_def)

definition sound_step :: "nat \<Rightarrow> raft_vote \<Rightarrow> raft_core \<Rightarrow> raft_core \<Rightarrow> bool" where
  "sound_step i d c c' \<longleftrightarrow> node_inv i d c' \<and> fresh_candidate i (rc_engine c) (rc_engine c')
     \<and> (\<exists>fs. rc_effects c' = rc_effects c @ fs \<and> (\<forall>f \<in> set fs. harmless f))"

lemma core_step_sound: "node_inv i d c \<Longrightarrow> core_step c c' \<Longrightarrow> sound_step i d c c'"
  using core_step_inv[of i d c c'] core_step_fresh[of c c'] core_step_effects[of c c']
  by (simp add: sound_step_def node_inv_def node_inv_q_def)

lemma sound_same_candidate:
  "node_inv i d c' \<Longrightarrow> en_candidate (rc_engine c') = en_candidate (rc_engine c) \<Longrightarrow> rc_effects c' = rc_effects c
    \<Longrightarrow> sound_step i d c c'"
  by (simp add: sound_step_def fresh_candidate_def no_new_candidate_def)

lemma sound_step_trans:
  assumes "sound_step i d a b" "sound_step i d b c"
  shows "sound_step i d a c"
proof -
  obtain f1 f2 where f: "rc_effects b = rc_effects a @ f1" "\<forall>f \<in> set f1. harmless f"
    "rc_effects c = rc_effects b @ f2" "\<forall>f \<in> set f2. harmless f"
    using assms by (auto simp: sound_step_def)
  have "\<exists>fs. rc_effects c = rc_effects a @ fs \<and> (\<forall>f \<in> set fs. harmless f)"
    using f by (intro exI[of _ "f1 @ f2"]) auto
  moreover have "fresh_candidate i (rc_engine a) (rc_engine c)"
    using assms unfolding sound_step_def fresh_candidate_def no_new_candidate_def by metis
  ultimately show ?thesis using assms(2) by (simp add: sound_step_def)
qed

lemma node_inv_lead: "node_inv i d c \<Longrightarrow> lead_le (rc_engine c)"
  by (simp add: node_inv_def node_inv_q_def)

lemma opt_engine_step:
  assumes "(if b then rc_on_engine f c else Some c) = Some c'" "lead_le (rc_engine c)"
    "\<And>e. f (rc_engine c) = Some e \<Longrightarrow> keeps (rc_engine c) e"
  shows "core_step c c'"
  using assms rc_on_engine_step[of f c c'] core_step_refl by (auto split: if_splits)

lemma handle_notification_sound:
  assumes "handle_notification now n c = Some (res, c')" "node_inv i d c" "notif_ok i d n" "\<not> is_vote_response n"
  shows "sound_step i d c c'"
proof (cases n)
  case (NHigherVote t h v)
  have "core_step c c'"
  proof (rule opt_engine_step[OF _ node_inv_lead[OF assms(2)]])
    show "(if does_leader_vote_match v c then rc_on_engine (\<lambda>e. map_option snd (vh_update_vote now h e)) c else Some c) = Some c'"
      using assms(1) NHigherVote by (simp add: bind_eq_Some_conv split: if_splits)
    show "keeps (rc_engine c) e" if "map_option snd (vh_update_vote now h (rc_engine c)) = Some e" for e
      using that vh_update_vote_keeps node_inv_lead[OF assms(2)] by auto
  qed
  then show ?thesis by (rule core_step_sound[OF assms(2)])
next
  case (NTick k)
  then show ?thesis
    using assms core_step_sound[OF assms(2) handle_tick_step[OF _ node_inv_lead[OF assms(2)]]] by (auto simp: bind_eq_Some_conv)
next
  case (NLocalIO io)
  then obtain c1 where c1: "rc_on_log_io (io_try_flush io) c = Some c1"
    and r: "(case io of
        IOLog l \<Rightarrow>
          if does_leader_vote_match (lio_committed_vote l) c1
          then rc_on_engine (rh_update_local_progress (lio_log_id l)) c1 else Some c1
      | IOVote _ \<Rightarrow> Some c1) = Some c'"
    using assms(1) by (auto simp: bind_eq_Some_conv)
  have i1: "node_inv i d c1" using log_flush_inv[OF assms(2) c1] assms(3) NLocalIO by simp
  have s1: "sound_step i d c c1"
    using sound_same_candidate[OF i1 io_only_D(4)[OF rc_on_io_only(1)[OF c1]]] rc_on_io_rx(1)[OF c1] by simp
  have "core_step c1 c'"
  proof (cases io)
    case (IOLog l)
    show ?thesis
      by (rule opt_engine_step[OF r[unfolded IOLog io_id.case] node_inv_lead[OF i1]])
        (use quiet_keeps[OF quiet_update_local_progress] node_inv_lead[OF i1] in blast)
  qed (use r core_step_refl[OF node_inv_lead[OF i1]] in simp)
  then show ?thesis using sound_step_trans[OF s1 core_step_sound[OF i1]] by blast
next
  case (NReplicationProgress ses t r k)
  have "core_step c c'"
  proof (rule opt_engine_step[OF _ node_inv_lead[OF assms(2)]])
    show "(if does_replication_session_match ses c then rc_on_engine (rh_update_progress t r k) c else Some c) = Some c'"
      using assms(1) NReplicationProgress by (simp add: bind_eq_Some_conv split: if_splits)
  qed (use quiet_keeps[OF quiet_update_progress] node_inv_lead[OF assms(2)] in blast)
  then show ?thesis by (rule core_step_sound[OF assms(2)])
next
  case (NHeartbeatProgress ses st t)
  have "core_step c c'"
  proof (rule opt_engine_step[OF _ node_inv_lead[OF assms(2)]])
    show "(if does_replication_session_match ses c then rc_on_engine (rh_update_leader_clock t st) c else Some c) = Some c'"
      using assms(1) NHeartbeatProgress by (simp add: bind_eq_Some_conv split: if_splits)
  qed (use quiet_keeps[OF quiet_update_leader_clock] node_inv_lead[OF assms(2)] in blast)
  then show ?thesis by (rule core_step_sound[OF assms(2)])
next
  case (NStateMachine r)
  show ?thesis
  proof (cases r)
    case (Inl err)
    then show ?thesis
      using assms NStateMachine core_step_sound[OF assms(2) core_step_refl[OF node_inv_lead[OF assms(2)]]] by auto
  next
    case (Inr resp)
    then have "handle_sm_response resp c = Some c'" using assms(1) NStateMachine by (auto simp: bind_eq_Some_conv)
    note h = handle_sm_response_inv[OF this assms(2)] assms(3)
    have "rc_effects c' = rc_effects c"
      using \<open>handle_sm_response resp c = Some c'\<close>
      by (induction resp c rule: handle_sm_response.induct)
        (auto simp: bind_eq_Some_conv rc_on_engine_def split: option.splits)
    then show ?thesis using h NStateMachine Inr by (auto intro: sound_same_candidate)
  qed
qed (use assms core_step_sound[OF assms(2) core_step_refl[OF node_inv_lead[OF assms(2)]]] in auto)

text \<open>What a vote response of any node does.\<close>

lemma vote_response_inv:
  assumes "handle_notification now (NVoteResponse t resp u) c = Some (res, c')" "node_inv i d c"
  shows "node_inv i d c' \<and> rc_effects c' = rc_effects c"
    "no_new_candidate (rc_engine c) (rc_engine c') \<or> (\<exists>cd c1. en_candidate (rc_engine c) = Some cd \<and> counts_for resp cd
         \<and> cd_grant_by t cd = Some (False, c1) \<and> en_candidate (rc_engine c') = Some c1)"
    "en_candidate (rc_engine c) = Some cd \<Longrightarrow> en_candidate (rc_engine c') = None \<Longrightarrow> en_leader (rc_engine c') \<noteq> None \<Longrightarrow>
         counts_for resp cd \<and> (\<exists>c1. cd_grant_by t cd = Some (True, c1))"
proof -
  let ?e = "rc_engine c" and ?e' = "rc_engine c'"
  have ok: "candidate_ok i x" if "en_candidate ?e = Some x" for x
    using assms(2) that by (simp add: node_inv_def node_inv_q_def)
  have i: "en_id ?e = i" using assms(2) by (simp add: node_inv_def node_inv_q_def)
  have fr: "rc_rx_notification c' = rc_rx_notification c" "rc_effects c' = rc_effects c"
    using assms(1) by (auto simp: bind_eq_Some_conv rc_on_engine_def split: if_splits)
  have "(?e' = ?e) \<or> en_handle_vote_resp now t resp ?e = Some ?e'"
    using assms(1) by (auto simp: bind_eq_Some_conv rc_on_engine_def split: if_splits)
  then have r: "extends ?e ?e' \<and> lead_le ?e'
    \<and> (no_new_candidate ?e ?e' \<or> (\<exists>cd c1. en_candidate ?e = Some cd \<and> counts_for resp cd
         \<and> cd_grant_by t cd = Some (False, c1) \<and> en_candidate ?e' = Some c1))
    \<and> (\<forall>cd. en_candidate ?e = Some cd \<and> en_candidate ?e' = None \<and> en_leader ?e' \<noteq> None \<longrightarrow>
         counts_for resp cd \<and> (\<exists>c1. cd_grant_by t cd = Some (True, c1)))"
  proof
    assume "en_handle_vote_resp now t resp ?e = Some ?e'"
    then show ?thesis using en_handle_vote_resp_effect[OF _ node_inv_lead[OF assms(2)]] ok i by blast
  qed (use node_inv_lead[OF assms(2)] in \<open>auto simp: no_new_candidate_def\<close>)
  show "no_new_candidate (rc_engine c) (rc_engine c') \<or> (\<exists>cd c1. en_candidate (rc_engine c) = Some cd \<and> counts_for resp cd
         \<and> cd_grant_by t cd = Some (False, c1) \<and> en_candidate (rc_engine c') = Some c1)"
    using r by blast
  show "en_candidate (rc_engine c) = Some cd \<Longrightarrow> en_candidate (rc_engine c') = None \<Longrightarrow> en_leader (rc_engine c') \<noteq> None \<Longrightarrow>
         counts_for resp cd \<and> (\<exists>c1. cd_grant_by t cd = Some (True, c1))"
    using r by blast
  have "candidate_ok i x" if "en_candidate ?e' = Some x" for x
    using r that ok candidate_ok_grant by (auto simp: no_new_candidate_def)
  then have "node_inv i d c'" using r fr by (intro extends_inv[OF assms(2)]) auto
  then show "node_inv i d c' \<and> rc_effects c' = rc_effects c" using fr by simp
qed

end
