(* ===== verification/NodeRuns.thy ===== *)
theory NodeRuns
imports NodeVotes
begin

text \<open>
  Running the commands keeps the invariant of a node: the vote on disk follows the saved votes, and
  a vote response is sent when the vote it reports is on disk. When a call to the storage fails,
  the task ends and what it had sent is still about votes on disk.
\<close>

section \<open>What a command sends\<close>

fun sends :: "nat \<Rightarrow> command \<Rightarrow> effect list \<Rightarrow> notification list \<Rightarrow> bool" where
  "sends i (SaveVote v) fs ns \<longleftrightarrow> fs = [EffSaveVote v]
     \<and> set ns \<subseteq> insert (NLocalIO (io_id_new v)) (range (NVoteResponse i \<lparr>vr_vote = v, vr_granted = True, vr_last_log_id = None\<rparr>))"
| "sends i (UpdateIOProgress w io) fs ns \<longleftrightarrow> fs = [] \<and> ns = [NLocalIO io]"
| "sends i (AppendEntries v es) fs ns \<longleftrightarrow> (\<exists>l. fs = [EffAppend es (io_id_new_log_io v l)]) \<and> ns = []"
| "sends i (StateMachine s) fs ns \<longleftrightarrow> fs = [EffStateMachine s] \<and> ns = []"
| "sends i (Respond w r) fs ns \<longleftrightarrow> fs = [EffRespond r] \<and> ns = []"
| "sends i cmd fs ns \<longleftrightarrow> (\<forall>f \<in> set fs. harmless f) \<and> ns = []"

abbreviation rc_flushed :: "raft_core \<Rightarrow> io_id option" where
  "rc_flushed c \<equiv> io_flushed (ios_log_progress (rs_io_state (rc_state c)))"

text \<open>\<open>grows c c' fs\<close>: the effects \<open>fs\<close> were added, no notification, and no I/O was flushed.\<close>

definition grows :: "raft_core \<Rightarrow> raft_core \<Rightarrow> effect list \<Rightarrow> bool" where
  "grows c c' fs \<longleftrightarrow> rc_effects c' = rc_effects c @ fs \<and> rc_rx_notification c' = rc_rx_notification c
     \<and> rc_flushed c' = rc_flushed c"

lemma grows_refl [simp]: "grows c c []"
  by (simp add: grows_def)

lemma grows_trans: "grows a b f1 \<Longrightarrow> grows b c f2 \<Longrightarrow> grows a c (f1 @ f2)"
  by (simp add: grows_def)

lemma grows_emit [simp]: "grows c (rc_emit fs c) gs \<longleftrightarrow> gs = fs"
  by (auto simp: grows_def)

lemma grows_submit:
  "rc_on_log_io (io_submit x) c = Some c' \<Longrightarrow> grows c c' []"
  "rc_on_apply_io f c = Some c' \<Longrightarrow> grows c c' []"
  "rc_on_snapshot_io f c = Some c' \<Longrightarrow> grows c c' []"
  by (auto simp: grows_def rc_on_log_io_def rc_on_apply_io_def rc_on_snapshot_io_def rc_set_ios_def bind_eq_Some_conv
      io_submit_def)

lemma on_commits_harmless: "on_commits st rs = Some fs \<Longrightarrow> \<forall>f \<in> set fs. harmless f"
  by (induction st rs arbitrary: fs rule: on_commits.induct) (auto simp: bind_eq_Some_conv)

lemma to_voters_harmless:
  assumes "to_voters f em self ts = Some fs" "\<And>t n. harmless (f t n)"
  shows "\<forall>g \<in> set fs. harmless g"
  using assms
  by (induction f em self ts arbitrary: fs rule: to_voters.induct) (auto simp: bind_eq_Some_conv split: if_splits)

lemma heartbeat_events_harmless: "heartbeat_events self ws ev items = Some fs \<Longrightarrow> \<forall>f \<in> set fs. harmless f"
  by (induction self ws ev items arbitrary: fs rule: heartbeat_events.induct)
    (auto simp: bind_eq_Some_conv split: if_splits)

lemma spawn_streams_grows:
  "spawn_streams ts c = Some c' \<Longrightarrow> \<exists>fs. grows c c' fs \<and> (\<forall>f \<in> set fs. harmless f)"
proof (induction ts c rule: spawn_streams.induct)
  case (2 t pe ts c)
  then obtain c1 f where c1: "spawn_streams ts c1 = Some c'" "grows c c1 [f]" "harmless f"
    "spawn_replication_stream t pe c = Some c1"
    by (auto simp: bind_eq_Some_conv spawn_replication_stream_def Let_def grows_def)
  then obtain fs where "grows c1 c' fs" "\<forall>f \<in> set fs. harmless f" using 2 by blast
  then show ?case using c1 grows_trans[OF c1(2)] by (intro exI[of _ "f # fs"]) auto
qed (intro exI[of _ "[]"], simp)

lemma spawn_heartbeats_grows:
  "spawn_heartbeats em ts c = Some c' \<Longrightarrow> \<exists>fs. grows c c' fs \<and> (\<forall>f \<in> set fs. harmless f)"
proof (induction em ts c rule: spawn_heartbeats.induct)
  case (2 em t pe ts c)
  then obtain n where n: "em_get_node em t = Some n" by (auto simp: bind_eq_Some_conv)
  let ?c1 = "rc_emit [EffSpawnHeartbeat t n] (c\<lparr>rc_heartbeats := bs_union [t] (rc_heartbeats c)\<rparr>)"
  obtain fs where fs: "grows ?c1 c' fs" "\<forall>f \<in> set fs. harmless f" using 2 n by auto
  have "grows c ?c1 [EffSpawnHeartbeat t n]" by (simp add: grows_def)
  from grows_trans[OF this fs(1)] show ?case using fs(2) by (intro exI) auto
qed (intro exI[of _ "[]"], simp)

lemma rc_call_grows: "rc_call sto f err c = (r, c') \<Longrightarrow> grows c c' [f]"
  by (auto simp: rc_call_def grows_def)

lemma apply_grows:
  assumes "apply_to_state_machine sto a b c = Some (r, c')"
  shows "\<exists>fs. grows c c' fs \<and> fs \<noteq> [] \<and> (\<forall>f \<in> set fs. harmless f)"
proof -
  obtain rs rest fs where *: "crq_drain_upto (lg_index b) (rc_client_responders c) = (rs, rest)"
    "on_commits (rc_state c) rs = Some fs"
    "rc_call sto (EffStateMachine (Apply a b rs)) StoApply (rc_emit fs (c\<lparr>rc_client_responders := rest\<rparr>)) = (r, c')"
    using assms by (auto simp: apply_to_state_machine_def bind_eq_Some_conv split: prod.splits)
  have "grows c (rc_emit fs (c\<lparr>rc_client_responders := rest\<rparr>)) fs" by (simp add: grows_def)
  from grows_trans[OF this rc_call_grows[OF *(3)]] show ?thesis
    using on_commits_harmless[OF *(2)] by (intro exI[of _ "fs @ [EffStateMachine (Apply a b rs)]"]) auto
qed

lemma broadcast_grows:
  "spawn_parallel_vote_requests q c = Some c' \<Longrightarrow> \<exists>fs. grows c c' fs \<and> (\<forall>f \<in> set fs. harmless f)"
  "broadcast_transfer_leader t c = Some c' \<Longrightarrow> \<exists>fs. grows c c' fs \<and> (\<forall>f \<in> set fs. harmless f)"
  "broadcast_heartbeat now s c = Some c' \<Longrightarrow> \<exists>fs. grows c c' fs \<and> (\<forall>f \<in> set fs. harmless f)"
proof -
  show "spawn_parallel_vote_requests q c = Some c' \<Longrightarrow> \<exists>fs. grows c c' fs \<and> (\<forall>f \<in> set fs. harmless f)"
    by (auto simp: spawn_parallel_vote_requests_def bind_eq_Some_conv dest: to_voters_harmless)
  show "broadcast_transfer_leader t c = Some c' \<Longrightarrow> \<exists>fs. grows c c' fs \<and> (\<forall>f \<in> set fs. harmless f)"
    by (auto simp: broadcast_transfer_leader_def bind_eq_Some_conv dest: to_voters_harmless)
  assume b: "broadcast_heartbeat now s c = Some c'"
  then obtain lh where lh: "en_leader_handler (rc_engine c) = Some lh"
    by (auto simp: broadcast_heartbeat_def bind_eq_Some_conv)
  show "\<exists>fs. grows c c' fs \<and> (\<forall>f \<in> set fs. harmless f)"
  proof (cases "c' = c")
    case False
    then obtain self ws ev items fs where "heartbeat_events self ws ev items = Some fs" "c' = rc_emit fs c"
      using b lh by (cases lh) (auto simp: broadcast_heartbeat_def bind_eq_Some_conv Let_def split: if_splits)
    then show ?thesis using heartbeat_events_harmless by auto
  qed (intro exI[of _ "[]"], simp)
qed

text \<open>What \<open>exec_command\<close> adds, for every command. A failed call is the last effect.\<close>

lemma exec_command_sends:
  assumes "exec_command sto now cmd c = Some (r, c')"
  shows "\<exists>fs ns. sends (rc_id c) cmd fs ns \<and> rc_effects c' = rc_effects c @ fs
     \<and> rc_rx_notification c' = rc_rx_notification c @ ns \<and> rc_flushed c' = rc_flushed c
     \<and> (r \<noteq> Inr () \<longrightarrow> fs \<noteq> [])"
proof (cases cmd)
  case (UpdateIOProgress w io)
  then obtain c1 where "rc_on_log_io (io_submit io) c = Some c1" "r = Inr ()" "c' = rc_notify (NLocalIO io) c1"
    using assms by (auto simp: bind_eq_Some_conv)
  then show ?thesis using grows_submit(1) UpdateIOProgress by (auto simp: grows_def)
next
  case (AppendEntries v es)
  then obtain c1 l where "rc_on_log_io (io_submit (io_id_new_log_io v l)) c = Some c1"
    "rc_call sto (EffAppend es (io_id_new_log_io v l)) StoWriteLogs c1 = (r, c')"
    using assms by (auto simp: bind_eq_Some_conv Let_def)
  note grows_trans[OF grows_submit(1)[OF this(1)] rc_call_grows[OF this(2)]]
  then show ?thesis using AppendEntries by (auto simp: grows_def)
next
  case (SaveVote v)
  then obtain c1 where c1: "rc_on_log_io (io_submit (io_id_new v)) c = Some c1"
    using assms by (auto simp: bind_eq_Some_conv)
  have i: "rc_id c1 = rc_id c" using io_only_D(2)[OF rc_on_io_only(1)[OF c1]] by simp
  show ?thesis
    using assms SaveVote c1 i grows_submit(1)[OF c1]
    by (cases "vote_into_vote_status v") (auto simp: rc_call_def grows_def split: if_splits)
next
  case (PurgeLog u)
  then show ?thesis using assms by (auto simp: rc_call_def rc_set_ios_def ios_update_purged_def split: if_splits)
next
  case (TruncateLog l)
  then show ?thesis using assms by (auto simp: rc_call_def Let_def split: if_splits prod.splits)
next
  case (SendVote q)
  then show ?thesis using assms broadcast_grows(1) by (fastforce simp: bind_eq_Some_conv grows_def)
next
  case (BroadcastHeartbeat s)
  then show ?thesis using assms broadcast_grows(3) by (fastforce simp: bind_eq_Some_conv grows_def)
next
  case (BroadcastTransferLeader t)
  then show ?thesis using assms broadcast_grows(2) by (fastforce simp: bind_eq_Some_conv grows_def)
next
  case (SaveCommittedAndApply a u)
  then obtain c1 c2 res where c1: "rc_on_apply_io (io_submit u) c = Some c1"
    "rc_call sto (EffSaveCommitted (Some u)) StoWrite c1 = (res, c2)"
    and r: "(r, c') = (res, c2) \<and> r \<noteq> Inr () \<or> (\<exists>first_id. apply_to_state_machine sto first_id u c2 = Some (r, c'))"
    using assms by (auto simp: bind_eq_Some_conv rc_call_def split: if_splits)
  have g: "grows c c2 [EffSaveCommitted (Some u)]"
    using grows_trans[OF grows_submit(2)[OF c1(1)] rc_call_grows[OF c1(2)]] by simp
  then have "\<exists>fs. grows c c' fs \<and> fs \<noteq> [] \<and> (\<forall>f \<in> set fs. harmless f)"
    using r
  proof (elim disjE)
    assume "(r, c') = (res, c2) \<and> r \<noteq> Inr ()"
    then show ?thesis using g by auto
  next
    assume "\<exists>first_id. apply_to_state_machine sto first_id u c2 = Some (r, c')"
    then obtain fs where "grows c2 c' fs" "\<forall>f \<in> set fs. harmless f" using apply_grows by blast
    then show ?thesis using grows_trans[OF g] by (intro exI[of _ "EffSaveCommitted (Some u) # fs"]) auto
  qed
  then show ?thesis using SaveCommittedAndApply by (auto simp: grows_def)
next
  case (RebuildReplicationStreams ts)
  then obtain c1 where c1: "spawn_streams ts (remove_all_replication c) = Some c1"
    "spawn_heartbeats (rc_effective c1) ts c1 = Some c'" "r = Inr ()"
    using assms by (auto simp: bind_eq_Some_conv)
  obtain f1 f2 where f: "grows (remove_all_replication c) c1 f1" "\<forall>f \<in> set f1. harmless f"
    "grows c1 c' f2" "\<forall>f \<in> set f2. harmless f"
    using spawn_streams_grows[OF c1(1)] spawn_heartbeats_grows[OF c1(2)] by blast
  have "grows c (remove_all_replication c) [EffRemoveStreams]" by (simp add: grows_def remove_all_replication_def)
  from grows_trans[OF grows_trans[OF this f(1)] f(3)] show ?thesis
    using f(2,4) c1(3) RebuildReplicationStreams by (auto simp: grows_def)
next
  case (StateMachine s)
  then obtain c1 c2 c3 where *: "on_opt (\<lambda>i. rc_on_log_io (io_submit i)) (sm_get_log_progress s) c = Some c1"
    "on_opt (\<lambda>l. rc_on_apply_io (io_submit l)) (sm_get_apply_progress s) c1 = Some c2"
    "on_opt (\<lambda>l. rc_on_snapshot_io (io_submit l)) (sm_get_snapshot_progress s) c2 = Some c3"
    "rc_call sto (EffStateMachine s) StoWriteStateMachine c3 = (r, c')"
    using assms by (auto simp: bind_eq_Some_conv)
  have "grows c c1 []" "grows c1 c2 []" "grows c2 c3 []"
    using *(1-3) grows_submit by (auto simp: on_opt_def split: option.splits)
  note grows_trans[OF grows_trans[OF grows_trans[OF this(1,2)] this(3)] rc_call_grows[OF *(4)]]
  then show ?thesis using StateMachine by (auto simp: grows_def)
qed (use assms in \<open>auto simp: bind_eq_Some_conv\<close>)

section \<open>The invariant along the commands\<close>

text \<open>
  The outcome of a run that started with \<open>d\<close> on disk and leaves the queue \<open>q\<close>. When it ends with an
  error the last call failed, and it is not known whether it had its effect.
\<close>

definition run_to ::
  "command list \<Rightarrow> nat \<Rightarrow> raft_vote \<Rightarrow> raft_core \<Rightarrow> storage_error + 'r \<Rightarrow> raft_core \<Rightarrow> bool" where
  "run_to q i d c r c' \<longleftrightarrow> en_candidate (rc_engine c') = en_candidate (rc_engine c)
     \<and> (\<exists>fs. rc_effects c' = rc_effects c @ fs \<and>
         (case r of
            Inr _ \<Rightarrow> d \<le> disk_of d fs \<and> node_inv_q q i (disk_of d fs) c'
          | Inl _ \<Rightarrow> fs \<noteq> [] \<and> d \<le> disk_of d (butlast fs) \<and> disk_of d (butlast fs) \<le> disk_of d fs
              \<and> (\<forall>f \<in> set (rc_effects c'). effect_ok (disk_of d (butlast fs)) f)))"

lemma run_to_trans:
  assumes "run_to q1 i d a (Inr x) b" "\<And>d'. node_inv_q q1 i d' b \<Longrightarrow> run_to q2 i d' b r c"
  shows "run_to q2 i d a r c"
proof -
  obtain f1 where f1: "rc_effects b = rc_effects a @ f1" "d \<le> disk_of d f1" "node_inv_q q1 i (disk_of d f1) b"
    "en_candidate (rc_engine b) = en_candidate (rc_engine a)"
    using assms(1) by (auto simp: run_to_def)
  obtain f2 where f2: "rc_effects c = rc_effects b @ f2" and o2: "(case r of
      Inr _ \<Rightarrow> disk_of d f1 \<le> disk_of (disk_of d f1) f2 \<and> node_inv_q q2 i (disk_of (disk_of d f1) f2) c
    | Inl _ \<Rightarrow> f2 \<noteq> [] \<and> disk_of d f1 \<le> disk_of (disk_of d f1) (butlast f2)
        \<and> disk_of (disk_of d f1) (butlast f2) \<le> disk_of (disk_of d f1) f2
        \<and> (\<forall>f \<in> set (rc_effects c). effect_ok (disk_of (disk_of d f1) (butlast f2)) f))"
    "en_candidate (rc_engine c) = en_candidate (rc_engine b)"
    using assms(2)[OF f1(3)] by (auto simp: run_to_def)
  show ?thesis
    unfolding run_to_def
    using f1 f2 o2 by (intro conjI exI[of _ "f1 @ f2"]) (auto simp: disk_of_append butlast_append split: sum.splits)
qed

lemma io_id_vote_new_log_io [simp]: "io_id_vote (io_id_new_log_io v l) = cv_into_vote v"
  by (simp add: io_id_new_log_io_def)

lemma sends_ok:
  assumes "node_inv_q (cmd # q) i d c" "sends i cmd fs ns"
    "\<And>w. command_condition cmd = Some w \<Longrightarrow> condition_is_met w (rs_io_state (rc_state c))"
  shows "d \<le> disk_of d fs \<and> track (disk_of d fs) q = Some (vote_ref (rc_state c))
     \<and> (\<forall>f \<in> set fs. effect_ok (disk_of d (butlast fs)) f) \<and> (\<forall>n \<in> set ns. notif_ok i (disk_of d fs) n)"
proof (cases "\<exists>v. cmd = SaveVote v")
  case True
  then obtain v where v: "cmd = SaveVote v" by blast
  have "\<forall>n \<in> set ns. notif_ok i v n"
    using assms(2) v by fastforce
  then show ?thesis
    using assms(1,2) v by (auto simp: node_inv_q_def split: if_splits)
next
  case False
  then have t: "respond_waits cmd" "case command_vote cmd of Some v \<Rightarrow> covers d v | None \<Rightarrow> True"
    "track d q = Some (vote_ref (rc_state c))"
    using assms(1) by (auto simp: node_inv_q_def track_other split: if_splits)
  have "(\<forall>f \<in> set fs. effect_ok d f \<and> (\<forall>v. f \<noteq> EffSaveVote v)) \<and> (\<forall>n \<in> set ns. notif_ok i d n)"
  proof (cases cmd)
    case (StateMachine s)
    then show ?thesis using assms(2) t by (cases s) auto
  next
    case (Respond w r)
    show ?thesis
    proof (cases r)
      case (RespondVote resp tx)
      then obtain io where io: "w = Some (IOFlushed io)" "io_id_vote io = vr_vote resp" using t(1) Respond by auto
      then obtain x where x: "rc_flushed c = Some x" "io \<le> x"
        using assms(3) Respond by (auto simp: is_satisfied_by_def split: option.splits)
      then have "covers d (io_id_vote x)" using assms(1) by (simp add: node_inv_q_def flushed_ok_def)
      then have "covers d (vr_vote resp)" using covers_down[OF _ io_id_vote_mono[OF x(2)]] io(2) by simp
      then show ?thesis using assms(2) Respond RespondVote by simp
    qed (use assms(2) Respond in simp_all)
  qed (use assms(2) t False in \<open>auto simp: harmless_def\<close>)
  moreover have "disk_of d fs = d" "disk_of d (butlast fs) = d"
    using calculation by (auto intro!: disk_of_no_save dest: in_set_butlastD)
  ultimately show ?thesis using t(3) by simp
qed

lemma exec_command_inv:
  assumes "exec_command sto now cmd c = Some (r, c')" "node_inv_q (cmd # q) i d c"
    "\<And>w. command_condition cmd = Some w \<Longrightarrow> condition_is_met w (rs_io_state (rc_state c))"
  shows "run_to q i d c r c'"
proof -
  have i: "rc_id c = i" using assms(2) by (simp add: node_inv_q_def)
  obtain fs ns where fs: "sends i cmd fs ns" "rc_effects c' = rc_effects c @ fs"
    "rc_rx_notification c' = rc_rx_notification c @ ns" "rc_flushed c' = rc_flushed c" "r \<noteq> Inr () \<Longrightarrow> fs \<noteq> []"
    using exec_command_sends[OF assms(1)] i by auto
  note ok = sends_ok[OF assms(2) fs(1) assms(3)]
  note io = io_only_D[OF exec_command_io_only[OF assms(1)]]
  have mono: "disk_of d (butlast fs) \<le> disk_of d fs" "d \<le> disk_of d (butlast fs)"
  proof -
    have "disk_of d (butlast fs) = d"
    proof (cases "\<exists>v. cmd = SaveVote v")
      case True
      then show ?thesis using fs(1) by auto
    next
      case False
      have "\<forall>f \<in> set fs. \<forall>v. f \<noteq> EffSaveVote v"
        using fs(1) False by (cases cmd) (auto simp: harmless_def)
      then show ?thesis by (intro disk_of_no_save) (auto dest: in_set_butlastD)
    qed
    then show "disk_of d (butlast fs) \<le> disk_of d fs" "d \<le> disk_of d (butlast fs)" using ok by simp_all
  qed
  have old: "\<forall>f \<in> set (rc_effects c). effect_ok d f" "\<forall>n \<in> set (rc_rx_notification c). notif_ok i d n"
    "flushed_ok d (rs_io_state (rc_state c))"
    using assms(2) by (simp_all add: node_inv_q_def)
  have e: "\<forall>f \<in> set (rc_effects c'). effect_ok (disk_of d (butlast fs)) f"
    using old(1) ok mono(2) fs(2) effect_ok_mono by auto
  have n: "\<forall>n \<in> set (rc_rx_notification c'). notif_ok i (disk_of d fs) n"
    using old(2) ok fs(3) notif_ok_mono by auto
  have "node_inv_q q i (disk_of d fs) c'"
    using assms(2) ok e n mono(1) effect_ok_mono flushed_ok_mono[OF old(3)] fs(4) io i
    by (auto simp: node_inv_q_def vote_ref_def lead_le_def leading_vote_def flushed_ok_def)
  then show ?thesis
    using fs(2,5) ok mono e io(4) by (auto simp: run_to_def split: sum.splits)
qed

section \<open>The responds that waited\<close>

lemma in_yields: "(ph', r) \<in> set (yields ph c s q) \<Longrightarrow> \<exists>x \<in> set q. met c s x \<and> pr_respond x = r"
  by (auto simp: yields_def dest: set_takeWhileD)

lemma drained:
  assumes "drain_satisfied s p = (rs, p')" "pending_ok p"
  shows "pending_ok p'"
    "(ph, RespondVote resp tx) \<in> set rs \<Longrightarrow> \<exists>io. io_id_vote io = vr_vote resp \<and> condition_is_met (IOFlushed io) s"
proof -
  have rs: "rs = yields PhaseLogIO IOFlushed s (pd_on_log_io p) @ yields PhaseLogFlush LogFlushed s (pd_on_log_flush p)
      @ yields PhaseApply Applied s (pd_on_apply p) @ yields PhaseSnapshot SnapshotAt s (pd_on_snapshot p)"
    and p': "p' = \<lparr>pd_on_log_io = dropWhile (met IOFlushed s) (pd_on_log_io p),
      pd_on_log_flush = dropWhile (met LogFlushed s) (pd_on_log_flush p),
      pd_on_apply = dropWhile (met Applied s) (pd_on_apply p),
      pd_on_snapshot = dropWhile (met SnapshotAt s) (pd_on_snapshot p)\<rparr>"
    using assms(1) by (auto simp: drain_satisfied_def drain_log_io drain_log_flush drain_apply drain_snapshot drain_done)
  show "pending_ok p'"
    using assms(2) unfolding p' pending_ok.simps by (auto dest: set_dropWhileD)
  assume r: "(ph, RespondVote resp tx) \<in> set rs"
  then have "\<exists>x \<in> set (pd_on_log_io p). met IOFlushed s x \<and> pr_respond x = RespondVote resp tx"
  proof -
    have "(ph, RespondVote resp tx) \<notin> set (yields PhaseLogFlush LogFlushed s (pd_on_log_flush p))"
      "(ph, RespondVote resp tx) \<notin> set (yields PhaseApply Applied s (pd_on_apply p))"
      "(ph, RespondVote resp tx) \<notin> set (yields PhaseSnapshot SnapshotAt s (pd_on_snapshot p))"
      using assms(2) unfolding pending_ok.simps by (blast dest: in_yields)+
    then show ?thesis using r in_yields unfolding rs by simp blast
  qed
  then show "\<exists>io. io_id_vote io = vr_vote resp \<and> condition_is_met (IOFlushed io) s"
    using assms(2) unfolding pending_ok.simps met_def by blast
qed

lemma flushed_covers:
  "flushed_ok d s \<Longrightarrow> condition_is_met (IOFlushed io) s \<Longrightarrow> covers d (io_id_vote io)"
  using covers_down io_id_vote_mono by (fastforce simp: flushed_ok_def is_satisfied_by_def split: option.splits)

lemma respond_effect_ok: "(\<And>resp tx. r = RespondVote resp tx \<Longrightarrow> covers d (vr_vote resp)) \<Longrightarrow> effect_ok d (EffRespond r)"
  by (cases r) auto

lemma respond_not_save: "EffRespond r \<noteq> EffSaveVote v"
  by simp

text \<open>The queue of the commands is an argument of the invariant: a command may be taken from it.\<close>

lemma node_inv_q_output:
  assumes "node_inv_q q i d c" "pending_ok (eo_pending o')"
  shows "node_inv_q q i d (rc_set_output o' c)"
  using assms by (simp add: node_inv_q_def lead_le_def leading_vote_def)

lemma send_satisfied_run:
  assumes "node_inv_q q i d c"
  shows "run_to q i d c (Inr ()) (send_satisfied_responds c)"
proof -
  let ?s = "rs_io_state (rc_state c)" and ?o = "en_output (rc_engine c)"
  obtain rs p' where dr: "drain_satisfied ?s (eo_pending ?o) = (rs, p')" by fastforce
  let ?fs = "map (\<lambda>(_, r). EffRespond r) rs"
  have c': "send_satisfied_responds c = rc_emit ?fs (rc_set_output (?o\<lparr>eo_pending := p'\<rparr>) c)"
    by (simp add: send_satisfied_responds_def dr)
  have ok: "pending_ok (eo_pending ?o)" "flushed_ok d ?s" using assms by (simp_all add: node_inv_q_def)
  note d = drained[OF dr ok(1)]
  have f: "\<forall>f \<in> set ?fs. effect_ok d f"
    using d(2) flushed_covers[OF ok(2)] by (auto intro!: respond_effect_ok) metis
  have k: "disk_of d ?fs = d" by (rule disk_of_no_save) auto
  have "node_inv_q q i d (rc_set_output (?o\<lparr>eo_pending := p'\<rparr>) c)"
    by (rule node_inv_q_output[OF assms]) (simp add: d(1))
  then have "node_inv_q q i d (send_satisfied_responds c)"
    unfolding c' using f by (auto simp: node_inv_q_def)
  then show ?thesis unfolding run_to_def using k c' by (intro conjI exI[of _ ?fs]) auto
qed

section \<open>The loops\<close>

lemma run_command_inv:
  assumes "run_command sto now cmd c = Some (r, c')" "node_inv_q (cmd # q) i d c"
  shows "(r = Inr (Some cmd) \<and> c' = c) \<or> ((\<forall>x. r \<noteq> Inr (Some x)) \<and> run_to q i d c r c')"
proof (cases "case command_condition cmd of Some w \<Rightarrow> \<not> condition_is_met w (rs_io_state (rc_state c)) | None \<Rightarrow> False")
  case True
  then show ?thesis using assms(1) by (simp add: run_command_def)
next
  case False
  then obtain res where res: "exec_command sto now cmd c = Some (res, c')"
    "r = (case res of Inl err \<Rightarrow> Inl err | Inr _ \<Rightarrow> Inr None)"
    using assms(1) by (auto simp: run_command_def bind_eq_Some_conv)
  have "run_to q i d c res c'"
    by (rule exec_command_inv[OF res(1) assms(2)]) (use False in auto)
  then show ?thesis using res(2) by (cases res) (auto simp: run_to_def)
qed

lemma run_to_output:
  "run_to q i d (rc_set_output o' c) r c' \<Longrightarrow> run_to q i d c r c'"
  by (simp add: run_to_def)

lemma run_to_refl: "node_inv_q q i d c \<Longrightarrow> run_to q i d c (Inr x) c"
  by (auto simp: run_to_def)

lemma pending_ok_add:
  assumes "pending_ok p" "respond_waits (Respond (Some w) r)"
  shows "w = IOFlushed io \<Longrightarrow> pending_ok (p\<lparr>pd_on_log_io := pd_on_log_io p @ [PendingRespond io r]\<rparr>)"
    "w = LogFlushed l \<Longrightarrow> pending_ok (p\<lparr>pd_on_log_flush := pd_on_log_flush p @ [PendingRespond l r]\<rparr>)"
    "w = Applied l \<Longrightarrow> pending_ok (p\<lparr>pd_on_apply := pd_on_apply p @ [PendingRespond l r]\<rparr>)"
    "w = SnapshotAt l \<Longrightarrow> pending_ok (p\<lparr>pd_on_snapshot := pd_on_snapshot p @ [PendingRespond l r]\<rparr>)"
  using assms by (cases r; simp add: pending_ok.simps)+

lemma postpone_respond:
  assumes "postpone_command (Respond (Some w) r) o' = Some (k, o2)" "pending_ok (eo_pending o')"
    "respond_waits (Respond (Some w) r)"
  shows "eo_commands o2 = eo_commands o' \<and> pending_ok (eo_pending o2)"
  using assms(1) pending_ok_add[OF assms(2,3)] by (cases w) (auto simp del: pending_responds.simps)

lemma postpone_inv:
  assumes "postpone_command cmd (en_output (rc_engine c)) = Some (k, o2)" "node_inv_q (cmd # q) i d c"
    "eo_commands (en_output (rc_engine c)) = q"
  shows "node_inv i d (rc_set_output o2 c)" "k = Inr () \<Longrightarrow> eo_commands o2 = q"
proof -
  have ok: "pending_ok (eo_pending (en_output (rc_engine c)))" using assms(2) by (simp add: node_inv_q_def)
  have "eo_commands o2 = cmd # q \<and> eo_pending o2 = eo_pending (en_output (rc_engine c)) \<and> k = Inl ()
    \<or> (\<exists>w r. cmd = Respond w r) \<and> eo_commands o2 = q \<and> pending_ok (eo_pending o2)"
  proof (cases "\<exists>w r. cmd = Respond (Some w) r")
    case True
    then obtain w r where cmd: "cmd = Respond (Some w) r" by blast
    have "respond_waits cmd" using assms(2) by (auto simp: cmd node_inv_q_def track_other split: if_splits)
    then show ?thesis
      using postpone_respond[of w r "en_output (rc_engine c)" k o2] assms(1,3) ok cmd by simp
  next
    case False
    then have "\<forall>w r. cmd \<noteq> Respond w r"
      using assms(1) by (metis option.exhaust option.distinct(1) postpone_command.simps(1))
    then show ?thesis using assms(1,3) by (cases cmd) auto
  qed
  then show "node_inv i d (rc_set_output o2 c)" "k = Inr () \<Longrightarrow> eo_commands o2 = q"
    using assms(2) ok
    by (auto simp: node_inv_def node_inv_q_def lead_le_def leading_vote_def track_other split: if_splits)
qed

abbreviation rc_queue :: "raft_core \<Rightarrow> command list" where
  "rc_queue c \<equiv> eo_commands (en_output (rc_engine c))"

lemma run_command_queue:
  "run_command sto now cmd c = Some (r, c') \<Longrightarrow> rc_queue c' = rc_queue c"
  using io_only_D(1)[OF run_command_io_only(1)] by metis

lemma run_queue_inv:
  assumes "run_queue sto now c = Some (r, c')" "node_inv i d c"
  shows "run_to (rc_queue c') i d c r c'"
  using assms
proof (induction sto now c arbitrary: d rule: run_queue.induct)
  case (1 sto now c)
  obtain p o1 where pop: "pop_command (en_output (rc_engine c)) = (p, o1)" by fastforce
  show ?case
  proof (cases p)
    case None
    then have "r = Inr ()" "c' = c" using "1.prems"(1) pop by (simp_all add: run_queue.simps)
    then show ?thesis using "1.prems"(2) run_to_refl by (simp add: node_inv_def)
  next
    case (Some cmd)
    let ?c1 = "rc_set_output o1 c"
    have q: "rc_queue c = cmd # eo_commands o1" "eo_pending o1 = eo_pending (en_output (rc_engine c))"
      using pop Some by (auto simp: pop_command_def split: list.splits)
    have inv: "node_inv_q (cmd # rc_queue ?c1) i d ?c1"
    proof -
      have "node_inv_q (cmd # eo_commands o1) i d c" using "1.prems"(2) q(1) by (simp add: node_inv_def)
      moreover from this have "pending_ok (eo_pending o1)" using q(2) by (simp add: node_inv_q_def)
      ultimately show ?thesis using node_inv_q_output by simp
    qed
    obtain res c2 where rc: "run_command sto now cmd ?c1 = Some (res, c2)"
      using "1.prems"(1) pop Some by (auto simp: run_queue.simps[of _ _ c] split: option.splits prod.splits)
    have qq: "rc_queue c2 = rc_queue ?c1" by (rule run_command_queue[OF rc])
    note out = run_command_inv[OF rc inv]
    show ?thesis
    proof (cases res)
      case (Inl err)
      then have "r = Inl err" "c' = c2" using "1.prems"(1) pop Some rc by (auto simp: run_queue.simps[of _ _ c])
      then show ?thesis using out Inl run_to_output qq by (auto simp: run_to_def)
    next
      case (Inr k)
      show ?thesis
      proof (cases k)
        case None
        then have rest: "run_queue sto now c2 = Some (r, c')"
          using "1.prems"(1) pop Some rc Inr by (simp add: run_queue.simps[of _ _ c])
        have a: "run_to (rc_queue c2) i d c (Inr None :: storage_error + command option) c2"
          using out Inr None run_to_output qq by simp
        show ?thesis
        proof (rule run_to_trans[OF a])
          fix d' assume "node_inv_q (rc_queue c2) i d' c2"
          then have "node_inv i d' c2" by (simp add: node_inv_def)
          then show "run_to (rc_queue c') i d' c2 r c'"
            using "1.IH"(1)[OF pop[symmetric] Some rc] Inr None rest by blast
        qed
      next
        case k: (Some cmd')
        then have c2: "cmd' = cmd" "c2 = ?c1" using out Inr by auto
        obtain ok o2 where po: "postpone_command cmd (en_output (rc_engine c2)) = Some (ok, o2)"
          using "1.prems"(1) pop Some rc Inr k c2
          by (auto simp: run_queue.simps[of _ _ c] split: option.splits prod.splits)
        have inv2: "node_inv_q (cmd # rc_queue c2) i d c2" using inv c2 by simp
        note pi = postpone_inv[OF po inv2 refl]
        have a: "run_to (rc_queue (rc_set_output o2 c2)) i d c (Inr ()) (rc_set_output o2 c2)"
          using pi(1) c2 by (auto simp: run_to_def node_inv_def)
        show ?thesis
        proof (cases ok)
          case (Inl u)
          then have "r = Inr ()" "c' = rc_set_output o2 c2"
            using "1.prems"(1) pop Some rc Inr k c2 po by (auto simp: run_queue.simps[of _ _ c])
          then show ?thesis using a by simp
        next
          case ok: (Inr u)
          then have rest: "run_queue sto now (rc_set_output o2 c2) = Some (r, c')"
            using "1.prems"(1) pop Some rc Inr k c2 po by (simp add: run_queue.simps[of _ _ c])
          show ?thesis
          proof (rule run_to_trans[OF a])
            fix d' assume "node_inv_q (rc_queue (rc_set_output o2 c2)) i d' (rc_set_output o2 c2)"
            then have "node_inv i d' (rc_set_output o2 c2)" by (simp add: node_inv_def)
            then show "run_to (rc_queue c') i d' (rc_set_output o2 c2) r c'"
              using "1.IH"(2)[OF pop[symmetric] Some rc] Inr k c2 po ok rest by blast
          qed
        qed
      qed
    qed
  qed
qed

lemma progress_driven_is_apply:
  "en_next_progress_driven_command e = Some (Some cmd) \<Longrightarrow> \<exists>a u. cmd = SaveCommittedAndApply a u"
  by (auto simp: en_next_progress_driven_command_def Let_def bind_eq_Some_conv split: if_splits)

lemma run_progress_inv:
  assumes "run_progress_driven_command sto now c = Some (r, c')" "node_inv i d c"
  shows "run_to (rc_queue c') i d c r c'"
  using assms
proof (induction sto now c arbitrary: d rule: run_progress_driven_command.induct)
  case (1 sto now c)
  obtain n where n: "en_next_progress_driven_command (rc_engine c) = Some n"
    using "1.prems"(1) by (auto simp: run_progress_driven_command.simps[of _ _ c] split: option.splits)
  show ?case
  proof (cases n)
    case None
    then have "r = Inr ()" "c' = c" using "1.prems"(1) n by (simp_all add: run_progress_driven_command.simps[of _ _ c])
    then show ?thesis using "1.prems"(2) run_to_refl by (simp add: node_inv_def)
  next
    case (Some cmd)
    obtain a u where cmd: "cmd = SaveCommittedAndApply a u" using progress_driven_is_apply n Some by blast
    have inv: "node_inv_q (cmd # rc_queue c) i d c"
      using "1.prems"(2) cmd by (simp add: node_inv_def node_inv_q_def)
    obtain res c1 where rc: "run_command sto now cmd c = Some (res, c1)"
      using "1.prems"(1) n Some by (auto simp: run_progress_driven_command.simps[of _ _ c] split: option.splits prod.splits)
    have nw: "res \<noteq> Inr (Some x)" for x
      using "1.prems"(1) n Some rc by (auto simp: run_progress_driven_command.simps[of _ _ c])
    have out: "run_to (rc_queue c) i d c res c1" using run_command_inv[OF rc inv] nw by blast
    have qq: "rc_queue c1 = rc_queue c" by (rule run_command_queue[OF rc])
    show ?thesis
    proof (cases res)
      case (Inl err)
      then have "r = Inl err" "c' = c1" using "1.prems"(1) n Some rc by (auto simp: run_progress_driven_command.simps[of _ _ c])
      then show ?thesis using out Inl by (auto simp: run_to_def)
    next
      case (Inr k)
      then have k: "k = None" using nw by (cases k) auto
      then have rest: "run_progress_driven_command sto now c1 = Some (r, c')"
        using "1.prems"(1) n Some rc Inr by (simp add: run_progress_driven_command.simps[of _ _ c])
      show ?thesis
      proof (rule run_to_trans[OF out[unfolded Inr]])
        fix d' assume "node_inv_q (rc_queue c) i d' c1"
        then have "node_inv i d' c1" using qq by (simp add: node_inv_def)
        then show "run_to (rc_queue c') i d' c1 r c'"
          using "1.IH"[OF n Some rc] Inr k rest by blast
      qed
    qed
  qed
qed

lemma run_engine_commands_inv:
  assumes "run_engine_commands sto now c = Some (r, c')" "node_inv i d c"
  shows "run_to (rc_queue c') i d c r c'"
proof -
  let ?c1 = "send_satisfied_responds c"
  obtain res c2 where c2: "run_queue sto now ?c1 = Some (res, c2)"
    "case res of Inl err \<Rightarrow> r = Inl err \<and> c' = c2 | Inr _ \<Rightarrow> run_progress_driven_command sto now c2 = Some (r, c')"
    using assms(1) by (auto simp: run_engine_commands_def bind_eq_Some_conv split: sum.splits)
  have q1: "rc_queue ?c1 = rc_queue c" by (simp add: send_satisfied_responds_def Let_def split: prod.splits)
  have a: "run_to (rc_queue c) i d c (Inr ()) ?c1"
    by (rule send_satisfied_run) (use assms(2) in \<open>simp add: node_inv_def\<close>)
  have b: "run_to (rc_queue c2) i d c res c2"
    by (rule run_to_trans[OF a]) (use run_queue_inv[OF c2(1)] q1 in \<open>simp add: node_inv_def\<close>)
  show ?thesis
  proof (cases res)
    case (Inl err)
    then show ?thesis using b c2(2) by (auto simp: run_to_def)
  next
    case (Inr u)
    have "run_to (rc_queue c') i d' c2 r c'" if "node_inv_q (rc_queue c2) i d' c2" for d'
      using run_progress_inv[of sto now c2 r c' i d'] c2(2) Inr that by (simp add: node_inv_def)
    then show ?thesis by (rule run_to_trans[OF b[unfolded Inr]])
  qed
qed

end
