(* ===== verification/Cluster.thy ===== *)
theory Cluster
imports NodeRuns
begin

text \<open>
  The nodes of a cluster, their disks and the elections they win, as a step relation over the
  operations of the runtime task. Client messages and the requests of other nodes are arbitrary;
  what is constrained is that a vote response was sent by the node it comes from, and that the
  completion of an I/O is reported for an I/O that was submitted. A node may stop at any time, also
  when a call to its storage fails, and restarts from the vote on its disk.
\<close>

section \<open>Nodes\<close>

record election =
  el_node :: nat
  el_vote :: raft_vote
  el_quorum_set :: joint
  el_voters :: "nat list"

text \<open>The election a notification decides: the candidate becomes a leader by a vote response.\<close>

definition elections :: "notification \<Rightarrow> engine \<Rightarrow> engine \<Rightarrow> election list" where
  "elections n e e' =
     (case (n, en_candidate e) of
        (NVoteResponse t resp u, Some cd) \<Rightarrow>
          if en_candidate e' = None \<and> en_leader e' \<noteq> None
          then [\<lparr>el_node = en_id e, el_vote = cd_vote cd, el_quorum_set = cd_quorum_set cd,
                 el_voters = (case cd_grant_by t cd of Some (_, cd') \<Rightarrow> cd_granters cd' | None \<Rightarrow> [])\<rparr>]
          else []
      | _ \<Rightarrow> [])"

text \<open>
  The state a task starts with, as \<^verbatim>\<open>Engine::new\<close> and \<^verbatim>\<open>StorageHelper::get_initial_state\<close> build it. The
  trace of what the node has sent stays.
\<close>

definition booted :: "nat \<Rightarrow> raft_vote \<Rightarrow> raft_core \<Rightarrow> bool" where
  "booted i d c \<longleftrightarrow> rc_rx_notification c = [] \<and> vote_ref (rc_state c) = d \<and> rc_flushed c = Some (io_id_new d)
     \<and> rc_engine c = engine_new (rc_state c) (en_config (rc_engine c)) \<and> rc_id c = i"

text \<open>The notifications that come from outside the task; \<open>sent j\<close> is the trace of node \<open>j\<close>.\<close>

fun delivered :: "(nat \<Rightarrow> effect list) \<Rightarrow> nat \<Rightarrow> notification \<Rightarrow> bool" where
  "delivered sent i (NLocalIO io) \<longleftrightarrow> (\<exists>es. EffAppend es io \<in> set (sent i))"
| "delivered sent i (NVoteResponse t resp u) \<longleftrightarrow> (\<exists>tx. EffRespond (RespondVote resp tx) \<in> set (sent t))"
| "delivered sent i (NStateMachine (Inr (SmInstallSnapshot l m))) \<longleftrightarrow>
     (\<exists>s. EffStateMachine (InstallFullSnapshot l s) \<in> set (sent i))"
| "delivered sent i n \<longleftrightarrow> True"

inductive node_step ::
  "(nat \<Rightarrow> effect list) \<Rightarrow> nat \<Rightarrow> raft_vote \<Rightarrow> raft_core \<Rightarrow> raft_vote \<Rightarrow> raft_core \<Rightarrow> election list \<Rightarrow> bool"
  for sent i d c where
  client_message: "handle_api_msg now sto msg c = Some c' \<Longrightarrow> msg_ok msg \<Longrightarrow> node_step sent i d c d c' []"
| own_notification: "rc_rx_notification c = n # rest
    \<Longrightarrow> handle_notification now n (c\<lparr>rc_rx_notification := rest\<rparr>) = Some (res, c')
    \<Longrightarrow> node_step sent i d c d c' (elections n (rc_engine c) (rc_engine c'))"
| notification: "delivered sent i n \<Longrightarrow> handle_notification now n c = Some (res, c')
    \<Longrightarrow> node_step sent i d c d c' (elections n (rc_engine c) (rc_engine c'))"
| routine: "trigger_routine_actions c = Some c' \<Longrightarrow> node_step sent i d c d c' []"
| metrics: "flush_metrics now c = Some c' \<Longrightarrow> node_step sent i d c d c' []"
| commands: "run_engine_commands sto now c = Some (Inr (), c') \<Longrightarrow> rc_effects c' = rc_effects c @ fs
    \<Longrightarrow> node_step sent i d c (disk_of d fs) c' []"
| storage_failure: "run_engine_commands sto now c = Some (Inl err, c1) \<Longrightarrow> rc_effects c1 = rc_effects c @ fs
    \<Longrightarrow> d' = disk_of d fs \<or> d' = disk_of d (butlast fs) \<Longrightarrow> booted i d' c2 \<Longrightarrow> rc_effects c2 = rc_effects c1
    \<Longrightarrow> rc_on_engine (en_startup now') c2 = Some c' \<Longrightarrow> node_step sent i d c d' c' []"
| restart: "booted i d c2 \<Longrightarrow> rc_effects c2 = rc_effects c
    \<Longrightarrow> rc_on_engine (en_startup now) c2 = Some c' \<Longrightarrow> node_step sent i d c d c' []"

section \<open>The cluster\<close>

record cluster =
  cl_core :: "nat \<Rightarrow> raft_core"
  cl_disk :: "nat \<Rightarrow> raft_vote"
  cl_won :: "election list"

definition cl_sent :: "cluster \<Rightarrow> nat \<Rightarrow> effect list" where
  "cl_sent s j = rc_effects (cl_core s j)"

definition cl_update :: "nat \<Rightarrow> raft_vote \<Rightarrow> raft_core \<Rightarrow> election list \<Rightarrow> cluster \<Rightarrow> cluster" where
  "cl_update i d c ws s = s\<lparr>cl_core := (cl_core s)(i := c), cl_disk := (cl_disk s)(i := d), cl_won := cl_won s @ ws\<rparr>"

inductive cluster_step :: "cluster \<Rightarrow> cluster \<Rightarrow> bool" where
  "node_step (cl_sent s) i (cl_disk s i) (cl_core s i) d' c' ws \<Longrightarrow> cluster_step s (cl_update i d' c' ws s)"

text \<open>At the beginning nothing was sent and every node has booted with a vote of its own.\<close>

definition cluster_init :: "cluster \<Rightarrow> bool" where
  "cluster_init s \<longleftrightarrow> (\<forall>i. booted i (cl_disk s i) (cl_core s i) \<and> cl_sent s i = []) \<and> cl_won s = []"

inductive cluster_reachable :: "cluster \<Rightarrow> bool" where
  init: "cluster_init s \<Longrightarrow> cluster_reachable s"
| step: "cluster_reachable s \<Longrightarrow> cluster_step s s' \<Longrightarrow> cluster_reachable s'"

section \<open>The steps of a node keep its invariant\<close>

lemma booted_inv:
  assumes "booted i d c" "\<forall>f \<in> set (rc_effects c). effect_ok d f"
  shows "node_inv i d c" "en_candidate (rc_engine c) = None"
proof -
  have e: "rc_engine c = engine_new (rc_state c) (en_config (rc_engine c))" using assms(1) by (simp add: booted_def)
  have "en_output (rc_engine c) = engine_output_new" "en_leader (rc_engine c) = None"
    by (subst e, simp add: engine_new_def)+
  show n: "en_candidate (rc_engine c) = None" by (subst e, simp add: engine_new_def)
  show "node_inv i d c"
    using assms n \<open>en_output (rc_engine c) = engine_output_new\<close> \<open>en_leader (rc_engine c) = None\<close>
    by (simp add: node_inv_def node_inv_q_def booted_def engine_output_new_def pending_responds_new_def pending_ok.simps
        flushed_ok_def lead_le_def leading_vote_def)
qed

lemma startup_inv:
  assumes "booted i d c" "\<forall>f \<in> set (rc_effects c). effect_ok d f" "rc_on_engine (en_startup now) c = Some c'"
  shows "node_inv i d c'" "en_candidate (rc_engine c') = None"
proof -
  note b = booted_inv[OF assms(1,2)]
  obtain e where e: "en_startup now (rc_engine c) = Some e" "c' = c\<lparr>rc_engine := e\<rparr>"
    using assms(3) by (auto simp: rc_on_engine_def bind_eq_Some_conv)
  note k = en_startup_keeps[OF e(1) node_inv_lead[OF b(1)]]
  show "node_inv i d c'"
    by (rule core_step_inv[OF b(1) keeps_core_step[OF k]]) (simp_all add: e(2))
  show "en_candidate (rc_engine c') = None" using k b(2) e(2) by (auto simp: keeps_def no_new_candidate_def)
qed

lemma routine_step:
  assumes "trigger_routine_actions c = Some c'" "lead_le (rc_engine c)"
  shows "core_step c c'"
proof -
  have t: "core_step a (rc_trigger_snapshot a)" if "lead_le (rc_engine a)" for a
    by (rule keeps_core_step[OF quiet_keeps[OF _ that]]) (simp_all add: rc_trigger_snapshot_def quiet_sh_trigger)
  obtain c1 where c1: "core_step c c1" "c' = c1 \<or> rc_on_engine rh_initiate_replication c1 = Some c'"
  proof (cases "should_snapshot (rc_snapshot_policy c) (rc_state c) (rc_snapshot_tried_at c)")
    case None
    then show ?thesis
      using assms that[of c] core_step_refl
      by (auto simp: trigger_routine_actions_def bind_eq_Some_conv split: sum.splits)
  next
    case (Some at)
    let ?c1 = "rc_trigger_snapshot (c\<lparr>rc_snapshot_tried_at := Some at\<rparr>)"
    have "core_step c (c\<lparr>rc_snapshot_tried_at := Some at\<rparr>)"
      using core_step_refl[OF assms(2)] by (simp add: core_step_def)
    then have "core_step c ?c1" by (rule core_step_trans) (rule t, use assms(2) in simp)
    moreover have "c' = ?c1 \<or> rc_on_engine rh_initiate_replication ?c1 = Some c'"
      using assms(1) Some by (auto simp: trigger_routine_actions_def Let_def bind_eq_Some_conv split: sum.splits)
    ultimately show ?thesis by (rule that)
  qed
  then show ?thesis
    using core_step_trans[OF c1(1)] rc_on_engine_quiet[OF _ core_step_lead[OF c1(1)] quiet_initiate] by blast
qed

lemma metrics_step:
  assumes "flush_metrics now c = Some c'" "lead_le (rc_engine c)"
  shows "core_step c c'"
proof -
  obtain r h where "report_metrics now r h c = Some c'"
    using assms(1) by (auto simp: flush_metrics_def split: option.splits)
  then obtain t c1 m where "rc_last_quorum_acked_time now c = Some (t, c1)" "c' = rc_emit [EffMetrics m] c1"
    by (auto simp: report_metrics_def Let_def bind_eq_Some_conv)
  then show ?thesis using core_step_emit[OF quorum_acked_step[OF _ assms(2)]] by simp
qed

section \<open>Promises\<close>

definition proper :: "joint \<Rightarrow> bool" where
  "proper q \<longleftrightarrow> joint_wf q \<and> (\<forall>c \<in> set q. c \<noteq> [])"

text \<open>\<open>D j\<close> is the vote on the disk of node \<open>j\<close>.\<close>

definition supported :: "(nat \<Rightarrow> raft_vote) \<Rightarrow> candidate \<Rightarrow> bool" where
  "supported D cd \<longleftrightarrow> (proper (cd_quorum_set cd) \<longrightarrow> (\<forall>g \<in> set (cd_granters cd). cd_vote cd \<le> D g))"

definition election_ok :: "(nat \<Rightarrow> raft_vote) \<Rightarrow> election \<Rightarrow> bool" where
  "election_ok D w \<longleftrightarrow> vote_leader_node_id (el_vote w) = el_node w \<and> 0 < vote_term (el_vote w)
     \<and> (proper (el_quorum_set w) \<longrightarrow> joint_is_quorum (el_quorum_set w) (el_voters w) \<and> distinct (el_voters w)
          \<and> (\<forall>g \<in> set (el_voters w). el_vote w \<le> D g))"

definition sent_ok :: "(nat \<Rightarrow> raft_vote) \<Rightarrow> (nat \<Rightarrow> effect list) \<Rightarrow> bool" where
  "sent_ok D sent \<longleftrightarrow> (\<forall>j. \<forall>f \<in> set (sent j). effect_ok (D j) f)"

lemma supported_empty [simp]: "cd_granters cd = [] \<Longrightarrow> supported D cd"
  by (simp add: supported_def)

lemma supported_mono: "supported D cd \<Longrightarrow> (\<And>j. D j \<le> D' j) \<Longrightarrow> supported D' cd"
  by (meson supported_def order_trans)

lemma election_ok_mono: "election_ok D w \<Longrightarrow> (\<And>j. D j \<le> D' j) \<Longrightarrow> election_ok D' w"
  by (meson election_ok_def order_trans)

text \<open>A counted grant adds the node it comes from to the granters.\<close>

lemma counted_grant:
  assumes "candidate_ok i cd" "supported D cd" "counts_for resp cd" "cd_grant_by t cd = Some (b, c1)"
    "covers (D t) (vr_vote resp)"
  shows "supported D c1"
    "proper (cd_quorum_set cd) \<Longrightarrow> (b \<longleftrightarrow> joint_is_quorum (cd_quorum_set cd) (cd_granters c1)) \<and> distinct (cd_granters c1)
      \<and> (\<forall>g \<in> set (cd_granters c1). cd_vote cd \<le> D g)"
proof -
  have t: "cd_vote cd \<le> D t"
    using assms(1,3,5) by (auto simp: candidate_ok_def counts_for_def covers_def)
  note fr = cd_grant_by_frame[OF assms(4)]
  have *: "(b \<longleftrightarrow> joint_is_quorum (cd_quorum_set cd) (cd_granters c1)) \<and> distinct (cd_granters c1)
      \<and> (\<forall>g \<in> set (cd_granters c1). cd_vote cd \<le> D g)" if "proper (cd_quorum_set cd)"
  proof -
    have wf: "cd_wf cd" using assms(1) that by (simp add: candidate_ok_def proper_def)
    note sp = cd_grant_by_spec[OF wf assms(4)]
    have "distinct (cd_granters c1)"
      using distinct_voters_ge[of joint_ids "cd_progress c1"] cd_granters_voters sp by (simp add: cd_wf_def)
    then show ?thesis using sp t assms(2) that by (auto simp: supported_def)
  qed
  show "proper (cd_quorum_set cd) \<Longrightarrow> (b \<longleftrightarrow> joint_is_quorum (cd_quorum_set cd) (cd_granters c1)) \<and> distinct (cd_granters c1)
      \<and> (\<forall>g \<in> set (cd_granters c1). cd_vote cd \<le> D g)"
    by (rule *)
  show "supported D c1" unfolding supported_def fr using * by blast
qed

lemma fresh_supported:
  assumes "fresh_candidate i e e'" "\<And>cd. en_candidate e = Some cd \<Longrightarrow> supported D cd" "en_candidate e' = Some cd"
  shows "supported D cd"
  using assms by (auto simp: fresh_candidate_def no_new_candidate_def)

lemma elections_none: "\<not> is_vote_response n \<Longrightarrow> elections n e e' = []"
  by (cases n) (auto simp: elections_def split: option.splits)

text \<open>A notification, of the node itself or delivered to it.\<close>

lemma notification_step:
  assumes "handle_notification now n c = Some (res, c')" "node_inv i d c"
    "case n of NVoteResponse t resp u \<Rightarrow> covers (D t) (vr_vote resp) | _ \<Rightarrow> notif_ok i d n"
    "\<And>cd. en_candidate (rc_engine c) = Some cd \<Longrightarrow> supported D cd"
  shows "node_inv i d c' \<and> (\<forall>cd. en_candidate (rc_engine c') = Some cd \<longrightarrow> supported D cd)
    \<and> (\<forall>w \<in> set (elections n (rc_engine c) (rc_engine c')). election_ok D w)"
proof (cases "is_vote_response n")
  case False
  then have "notif_ok i d n" using assms(3) by (cases n) auto
  then have s: "sound_step i d c c'" by (rule handle_notification_sound[OF assms(1,2) _ False])
  show ?thesis
    using s elections_none[OF False] fresh_supported[of i "rc_engine c" "rc_engine c'" D] assms(4)
    by (auto simp: sound_step_def)
next
  case True
  then obtain t resp u where n: "n = NVoteResponse t resp u" by (cases n) auto
  have cov: "covers (D t) (vr_vote resp)" using assms(3) n by simp
  note vr = vote_response_inv[OF assms(1)[unfolded n] assms(2)]
  have ok: "candidate_ok i cd" "en_id (rc_engine c) = i" if "en_candidate (rc_engine c) = Some cd" for cd
    using assms(2) that by (simp_all add: node_inv_def node_inv_q_def)
  have "supported D cd'" if c': "en_candidate (rc_engine c') = Some cd'" for cd'
    using vr(2)
  proof
    assume "no_new_candidate (rc_engine c) (rc_engine c')"
    then show ?thesis using assms(4) c' by (auto simp: no_new_candidate_def)
  next
    assume "\<exists>cd c1. en_candidate (rc_engine c) = Some cd \<and> counts_for resp cd
       \<and> cd_grant_by t cd = Some (False, c1) \<and> en_candidate (rc_engine c') = Some c1"
    then obtain cd where "en_candidate (rc_engine c) = Some cd" "counts_for resp cd" "cd_grant_by t cd = Some (False, cd')"
      using c' by auto
    then show ?thesis using counted_grant(1)[OF ok(1) assms(4)] cov by blast
  qed
  moreover have "election_ok D w" if w: "w \<in> set (elections n (rc_engine c) (rc_engine c'))" for w
  proof -
    obtain cd where cd0: "en_candidate (rc_engine c) = Some cd"
      using w n by (cases "en_candidate (rc_engine c)") (auto simp: elections_def)
    have cd: "en_candidate (rc_engine c) = Some cd" "en_candidate (rc_engine c') = None" "en_leader (rc_engine c') \<noteq> None"
      and w': "w = \<lparr>el_node = en_id (rc_engine c), el_vote = cd_vote cd, el_quorum_set = cd_quorum_set cd,
         el_voters = (case cd_grant_by t cd of Some (_, cd') \<Rightarrow> cd_granters cd' | None \<Rightarrow> [])\<rparr>"
      using w n cd0 unfolding elections_def by (auto split: if_splits)
    obtain c1 where c1: "counts_for resp cd" "cd_grant_by t cd = Some (True, c1)" using vr(3)[OF cd] by blast
    have "vote_leader_node_id (cd_vote cd) = i" "0 < vote_term (cd_vote cd)"
      using ok(1)[OF cd(1)] by (simp_all add: candidate_ok_def)
    then show ?thesis
      using counted_grant(2)[OF ok(1)[OF cd(1)] assms(4)[OF cd(1)] c1 cov] ok(2)[OF cd(1)] c1(2)
      by (simp add: w' election_ok_def)
  qed
  ultimately show ?thesis using vr(1) by blast
qed

lemma delivered_ok:
  assumes "delivered sent i n" "sent_ok D sent" "D i = d"
  shows "case n of NVoteResponse t resp u \<Rightarrow> covers (D t) (vr_vote resp) | _ \<Rightarrow> notif_ok i d n"
  using assms(1)
proof (cases "(sent, i, n)" rule: delivered.cases)
  case (1 _ _ io)
  then show ?thesis using assms by (force simp: sent_ok_def)
next
  case (2 _ _ t resp u)
  then show ?thesis using assms(1,2) by (force simp: sent_ok_def)
next
  case (3 _ _ l m)
  then show ?thesis using assms by (force simp: sent_ok_def)
qed auto

lemma own_ok:
  assumes "notif_ok i d n" "D i = d"
  shows "case n of NVoteResponse t resp u \<Rightarrow> covers (D t) (vr_vote resp) | _ \<Rightarrow> notif_ok i d n"
  using assms by (cases n) auto

lemma pop_notification_inv:
  assumes "node_inv i d c" "rc_rx_notification c = n # rest"
  shows "node_inv i d (c\<lparr>rc_rx_notification := rest\<rparr>)" "notif_ok i d n"
  using assms by (simp_all add: node_inv_def node_inv_q_def)

lemma run_to_effects:
  assumes "run_to q i d c r c'" "rc_effects c' = rc_effects c @ fs"
  shows "r = Inr x \<Longrightarrow> d \<le> disk_of d fs \<and> node_inv_q q i (disk_of d fs) c'"
    "r = Inl err \<Longrightarrow> d \<le> disk_of d (butlast fs) \<and> disk_of d (butlast fs) \<le> disk_of d fs
      \<and> (\<forall>f \<in> set (rc_effects c'). effect_ok (disk_of d (butlast fs)) f)"
    "en_candidate (rc_engine c') = en_candidate (rc_engine c)"
  using assms by (auto simp: run_to_def)

lemma node_step_inv:
  assumes "node_step sent i d c d' c' ws" "node_inv i d c" "D i = d" "sent_ok D sent"
    "\<And>cd. en_candidate (rc_engine c) = Some cd \<Longrightarrow> supported D cd"
  shows "d \<le> d' \<and> node_inv i d' c' \<and> (\<forall>cd. en_candidate (rc_engine c') = Some cd \<longrightarrow> supported D cd)
    \<and> (\<forall>w \<in> set ws. election_ok D w)"
  using assms(1)
proof (cases rule: node_step.cases)
  case (client_message now sto msg)
  have "core_step c c'" by (rule handle_api_msg_step[OF client_message(3) node_inv_lead[OF assms(2)] client_message(4)])
  then show ?thesis
    using core_step_inv[OF assms(2)] fresh_supported[OF core_step_fresh] assms(5) client_message(1,2) by simp
next
  case (own_notification n rest now res)
  note p = pop_notification_inv[OF assms(2) own_notification(3)]
  show ?thesis
    using notification_step[OF own_notification(4) p(1) own_ok[where D = D, OF p(2) assms(3)]] assms(5) own_notification(1,2) by simp
next
  case (notification n now res)
  show ?thesis
    using notification_step[OF notification(4) assms(2) delivered_ok[where D = D, OF notification(3) assms(4,3)]] assms(5)
      notification(1,2) by simp
next
  case routine
  have "core_step c c'" by (rule routine_step[OF routine(3) node_inv_lead[OF assms(2)]])
  then show ?thesis
    using core_step_inv[OF assms(2)] fresh_supported[OF core_step_fresh] assms(5) routine(1,2) by simp
next
  case (metrics now)
  have "core_step c c'" by (rule metrics_step[OF metrics(3) node_inv_lead[OF assms(2)]])
  then show ?thesis
    using core_step_inv[OF assms(2)] fresh_supported[OF core_step_fresh] assms(5) metrics(1,2) by simp
next
  case (commands sto now fs)
  note r = run_to_effects[OF run_engine_commands_inv[OF commands(3) assms(2)] commands(4)]
  show ?thesis using r(1) r(3) assms(5) commands(1,2) by (simp add: node_inv_def)
next
  case (storage_failure sto now err c1 fs c2 now')
  note r = run_to_effects[OF run_engine_commands_inv[OF storage_failure(2) assms(2)] storage_failure(3)]
  have "d \<le> d'" "\<forall>f \<in> set (rc_effects c2). effect_ok d' f"
    using r(2) storage_failure(4,6) effect_ok_mono by auto
  then show ?thesis using startup_inv[OF storage_failure(5) _ storage_failure(7)] storage_failure(1) by simp
next
  case (restart c2 now)
  have "\<forall>f \<in> set (rc_effects c2). effect_ok d f"
    using assms(2) restart(4) by (simp add: node_inv_def node_inv_q_def)
  then show ?thesis using startup_inv[OF restart(3) _ restart(5)] restart(1,2) by simp
qed

section \<open>The invariant of the cluster\<close>

definition cluster_inv :: "cluster \<Rightarrow> bool" where
  "cluster_inv s \<longleftrightarrow> (\<forall>i. node_inv i (cl_disk s i) (cl_core s i))
     \<and> (\<forall>i cd. en_candidate (rc_engine (cl_core s i)) = Some cd \<longrightarrow> supported (cl_disk s) cd)
     \<and> (\<forall>w \<in> set (cl_won s). election_ok (cl_disk s) w)"

lemma cluster_inv_sent: "cluster_inv s \<Longrightarrow> sent_ok (cl_disk s) (cl_sent s)"
  by (simp add: cluster_inv_def sent_ok_def cl_sent_def node_inv_def node_inv_q_def)

lemma cluster_step_inv:
  assumes "cluster_step s s'" "cluster_inv s"
  shows "cluster_inv s'" "cl_disk s j \<le> cl_disk s' j"
proof -
  obtain i d c ws where st: "node_step (cl_sent s) i (cl_disk s i) (cl_core s i) d c ws"
    and s': "s' = cl_update i d c ws s"
    using assms(1) by (auto elim: cluster_step.cases)
  have i: "node_inv i (cl_disk s i) (cl_core s i)" using assms(2) by (simp add: cluster_inv_def)
  have sup: "supported (cl_disk s) cd" if "en_candidate (rc_engine (cl_core s k)) = Some cd" for k cd
    using assms(2) that by (auto simp: cluster_inv_def)
  note n = node_step_inv[OF st i refl cluster_inv_sent[OF assms(2)] sup]
  have mono: "cl_disk s k \<le> cl_disk s' k" for k using n by (simp add: s' cl_update_def)
  show "cl_disk s j \<le> cl_disk s' j" by (rule mono)
  have "node_inv k (cl_disk s' k) (cl_core s' k)" for k
    using n assms(2) by (simp add: s' cl_update_def cluster_inv_def)
  moreover have "supported (cl_disk s') cd" if c: "en_candidate (rc_engine (cl_core s' k)) = Some cd" for k cd
  proof -
    have "supported (cl_disk s) cd" using c n sup by (auto simp: s' cl_update_def split: if_splits)
    then show ?thesis using supported_mono mono by blast
  qed
  moreover have "election_ok (cl_disk s') w" if w: "w \<in> set (cl_won s')" for w
  proof -
    have "election_ok (cl_disk s) w" using w n assms(2) by (auto simp: s' cl_update_def cluster_inv_def)
    then show ?thesis using election_ok_mono mono by blast
  qed
  ultimately show "cluster_inv s'" by (simp add: cluster_inv_def)
qed

lemma cluster_init_inv:
  assumes "cluster_init s"
  shows "cluster_inv s"
proof -
  have b: "booted i (cl_disk s i) (cl_core s i)" "rc_effects (cl_core s i) = []" for i
    using assms by (simp_all add: cluster_init_def cl_sent_def)
  then have "node_inv i (cl_disk s i) (cl_core s i)" "en_candidate (rc_engine (cl_core s i)) = None" for i
    using booted_inv[OF b(1)] b(2) by simp_all
  then show ?thesis using assms by (simp add: cluster_inv_def cluster_init_def)
qed

lemma cluster_reachable_inv: "cluster_reachable s \<Longrightarrow> cluster_inv s"
  by (induction rule: cluster_reachable.induct) (auto intro: cluster_init_inv cluster_step_inv)

lemma same_election:
  assumes "election_ok D a" "election_ok D b" "proper (el_quorum_set a)" "proper (el_quorum_set b)"
    "joint_is_coherent_with (el_quorum_set a) (el_quorum_set b)"
  shows "\<exists>g \<in> set (el_voters a) \<inter> set (el_voters b). el_vote a \<le> D g \<and> el_vote b \<le> D g"
proof -
  have "set (el_voters a) \<inter> set (el_voters b) \<noteq> {}"
    using joint.coherent_intersect[OF _ _ assms(5)] assms(1-4) by (simp add: election_ok_def proper_def)
  then show ?thesis using assms(1-4) by (force simp: election_ok_def)
qed

end
