(* ===== verification/Config.thy ===== *)
theory Config
imports RaftCore KvStateMachine
begin

text \<open>
  \<^verbatim>\<open>openraft/src/config/config.rs\<close>: the configuration of a node, its defaults, the checks a program
  runs on it before it starts a node, and what the engine takes from it. The random number
  generator and the parser of byte sizes are parameters; parsing the command line is left out.
\<close>

section \<open>The configuration\<close>

record config =
  cf_cluster_name :: string
  cf_election_timeout_min :: nat
  cf_election_timeout_max :: nat
  cf_heartbeat_interval :: nat
  cf_install_snapshot_timeout :: nat
  cf_send_snapshot_timeout :: nat
  cf_max_payload_entries :: nat
  cf_replication_lag_threshold :: nat
  cf_snapshot_policy :: snapshot_policy
  cf_snapshot_max_chunk_size :: nat
  cf_max_in_snapshot_log_to_keep :: nat
  cf_purge_batch_size :: nat
  cf_api_channel_size :: "nat option"
  cf_notification_channel_size :: "nat option"
  cf_enable_tick :: bool
  cf_enable_heartbeat :: bool
  cf_enable_elect :: bool
  cf_allow_log_reversion :: "bool option"

datatype config_error =
    ParseError string "string list"
  | ElectionTimeout nat nat
  | MaxPayloadIs0
  | ElectionTimeoutLTHeartBeat nat nat
  | InvalidSnapshotPolicy string string
  | InvalidNumber string string

text \<open>The defaults are the default values of the command line arguments; 3 MiB is 3145728 bytes.\<close>

definition config_default :: config where
  "config_default = \<lparr>cf_cluster_name = ''foo'', cf_election_timeout_min = 150, cf_election_timeout_max = 300,
     cf_heartbeat_interval = 50, cf_install_snapshot_timeout = 200, cf_send_snapshot_timeout = 0,
     cf_max_payload_entries = 300, cf_replication_lag_threshold = 5000, cf_snapshot_policy = LogsSinceLast 5000,
     cf_snapshot_max_chunk_size = 3145728, cf_max_in_snapshot_log_to_keep = 1000, cf_purge_batch_size = 1,
     cf_api_channel_size = Some 65536, cf_notification_channel_size = Some 65536, cf_enable_tick = True,
     cf_enable_heartbeat = True, cf_enable_elect = True, cf_allow_log_reversion = None\<rparr>"

definition config_validate :: "config \<Rightarrow> config_error + config" where
  "config_validate c =
     (if cf_election_timeout_min c \<ge> cf_election_timeout_max c
      then Inl (ElectionTimeout (cf_election_timeout_min c) (cf_election_timeout_max c))
      else if cf_election_timeout_min c \<le> cf_heartbeat_interval c
      then Inl (ElectionTimeoutLTHeartBeat (cf_election_timeout_min c) (cf_heartbeat_interval c))
      else if cf_max_payload_entries c = 0 then Inl MaxPayloadIs0
      else Inr c)"

definition config_send_snapshot_timeout :: "config \<Rightarrow> nat" where
  "config_send_snapshot_timeout c =
     (if cf_send_snapshot_timeout c > 0 then cf_send_snapshot_timeout c else cf_install_snapshot_timeout c)"

definition config_allow_log_reversion :: "config \<Rightarrow> bool" where
  "config_allow_log_reversion c = (case cf_allow_log_reversion c of Some b \<Rightarrow> b | None \<Rightarrow> False)"

definition config_api_channel_size :: "config \<Rightarrow> nat" where
  "config_api_channel_size c = (case cf_api_channel_size c of Some n \<Rightarrow> n | None \<Rightarrow> 65536)"

definition config_notification_channel_size :: "config \<Rightarrow> nat" where
  "config_notification_channel_size c = (case cf_notification_channel_size c of Some n \<Rightarrow> n | None \<Rightarrow> 65536)"

text \<open>\<^verbatim>\<open>random_range(min..max)\<close> panics on an empty range; \<open>rand\<close> picks a value of the range.\<close>

definition new_rand_election_timeout :: "(nat \<Rightarrow> nat \<Rightarrow> nat) \<Rightarrow> config \<Rightarrow> nat panics" where
  "new_rand_election_timeout rand c = do {
     ensure (cf_election_timeout_min c < cf_election_timeout_max c);
     Some (rand (cf_election_timeout_min c) (cf_election_timeout_max c)) }"

text \<open>\<^verbatim>\<open>EngineConfig::new\<close>; doubling the timeout panics when it overflows a \<^verbatim>\<open>u64\<close> (in a debug build).\<close>

definition engine_config_new :: "(nat \<Rightarrow> nat \<Rightarrow> nat) \<Rightarrow> nat \<Rightarrow> config \<Rightarrow> engine_config panics" where
  "engine_config_new rand nid c = do {
     election_timeout \<leftarrow> new_rand_election_timeout rand c;
     ensure (cf_election_timeout_max c * 2 < 2 ^ 64);
     Some \<lparr>ec_id = nid, ec_max_in_snapshot_log_to_keep = cf_max_in_snapshot_log_to_keep c,
       ec_purge_batch_size = cf_purge_batch_size c, ec_max_payload_entries = cf_max_payload_entries c,
       ec_allow_log_reversion = config_allow_log_reversion c,
       ec_timer_config = \<lparr>tc_election_timeout = election_timeout,
         tc_smaller_log_timeout = cf_election_timeout_max c * 2,
         tc_leader_lease = cf_election_timeout_max c\<rparr>\<rparr> }"

section \<open>Parsing\<close>

text \<open>\<^verbatim>\<open>str::split\<close> and \<^verbatim>\<open>str::parse::<u64>\<close> of the standard library.\<close>

fun split_on :: "char \<Rightarrow> string \<Rightarrow> string list" where
  "split_on c [] = [[]]"
| "split_on c (x # xs) = (if x = c then [] # split_on c xs
     else (case split_on c xs of [] \<Rightarrow> [[x]] | w # ws \<Rightarrow> (x # w) # ws))"

definition digit_value :: "char \<Rightarrow> nat option" where
  "digit_value c = (let n = of_char c in if 48 \<le> n \<and> n \<le> 57 then Some (n - 48) else None)"

fun parse_digits :: "nat \<Rightarrow> string \<Rightarrow> string + nat" where
  "parse_digits acc [] = Inr acc"
| "parse_digits acc (c # cs) = (case digit_value c of
       None \<Rightarrow> Inl ''invalid digit found in string''
     | Some d \<Rightarrow> if acc * 10 + d < 2 ^ 64 then parse_digits (acc * 10 + d) cs
         else Inl ''number too large to fit in target type'')"

definition parse_u64 :: "string \<Rightarrow> string + nat" where
  "parse_u64 s = (case s of
       [] \<Rightarrow> Inl ''cannot parse integer from empty string''
     | c # cs \<Rightarrow> if c = CHR ''+'' \<and> cs \<noteq> [] then parse_digits 0 cs else parse_digits 0 s)"

definition parse_snapshot_policy :: "string \<Rightarrow> config_error + snapshot_policy" where
  "parse_snapshot_policy src =
     (if src = ''never'' then Inr SnapshotNever
      else (case split_on CHR '':'' src of
          [kind, n] \<Rightarrow>
            if kind \<noteq> ''since_last'' then Inl (InvalidSnapshotPolicy src ''never|since_last:<num>'')
            else (case parse_u64 n of Inl e \<Rightarrow> Inl (InvalidNumber src e) | Inr k \<Rightarrow> Inr (LogsSinceLast k))
        | _ \<Rightarrow> Inl (InvalidSnapshotPolicy src ''never|since_last:<num>'')))"

definition parse_bytes_with_unit :: "(string \<Rightarrow> string + nat) \<Rightarrow> string \<Rightarrow> config_error + nat" where
  "parse_bytes_with_unit byte_from_str src = (case byte_from_str src of Inl e \<Rightarrow> Inl (InvalidNumber src e) | Inr n \<Rightarrow> Inr n)"

section \<open>Lemmas\<close>

lemma config_validate_iff:
  "config_validate c = Inr c' \<longleftrightarrow> c' = c \<and> cf_heartbeat_interval c < cf_election_timeout_min c
     \<and> cf_election_timeout_min c < cf_election_timeout_max c \<and> cf_max_payload_entries c > 0"
  by (auto simp: config_validate_def)

lemma digit_value_char: "d < 10 \<Longrightarrow> digit_value (digit_char d) = Some d"
  by (simp add: digit_value_def digit_char_def Let_def)

lemma parse_digits_append:
  "parse_digits acc xs = Inr a \<Longrightarrow> parse_digits acc (xs @ ys) = parse_digits a ys"
  by (induction acc xs rule: parse_digits.induct) (auto split: option.splits if_splits)

lemma parse_show_nat: "n < 2 ^ 64 \<Longrightarrow> parse_digits 0 (show_nat n) = Inr n"
proof (induction n rule: show_nat.induct)
  case (1 n)
  show ?case
  proof (cases "n < 10")
    case True
    then show ?thesis by (simp add: show_nat.simps[of n] digit_value_char)
  next
    case False
    then have "parse_digits 0 (show_nat (n div 10)) = Inr (n div 10)" using 1 by simp
    then show ?thesis using False 1(2)
      by (simp add: show_nat.simps[of n] parse_digits_append digit_value_char)
  qed
qed

lemma show_nat_digits: "c \<in> set (show_nat n) \<Longrightarrow> digit_value c \<noteq> None"
proof (induction n rule: show_nat.induct)
  case (1 n)
  then show ?case
    by (cases "n < 10") (auto simp: show_nat.simps[of n] digit_value_char)
qed

lemma show_nat_not_Nil [simp]: "show_nat n \<noteq> []"
  by (subst show_nat.simps) simp

lemma split_on_absent: "c \<notin> set s \<Longrightarrow> split_on c s = [s]"
  by (induction s) auto

lemma split_on_once: "c \<notin> set s \<Longrightarrow> split_on c (s @ c # t) = s # split_on c t"
  by (induction s) auto

lemma parse_u64_show: "n < 2 ^ 64 \<Longrightarrow> parse_u64 (show_nat n) = Inr n"
proof -
  assume n: "n < 2 ^ 64"
  have "CHR ''+'' \<notin> set (show_nat n)" using show_nat_digits[of "CHR ''+''" n] by (auto simp: digit_value_def)
  then show ?thesis using parse_show_nat[OF n] by (cases "show_nat n") (auto simp: parse_u64_def)
qed

lemma since_last_roundtrip:
  assumes "n < 2 ^ 64"
  shows "parse_snapshot_policy (''since_last:'' @ show_nat n) = Inr (LogsSinceLast n)"
proof -
  have "CHR '':'' \<notin> set (show_nat n)" using show_nat_digits[of "CHR '':''" n] by (auto simp: digit_value_def)
  then have "split_on CHR '':'' (''since_last'' @ CHR '':'' # show_nat n) = [''since_last'', show_nat n]"
    by (subst split_on_once) (simp_all add: split_on_absent)
  then show ?thesis using parse_u64_show[OF assms] by (simp add: parse_snapshot_policy_def)
qed

text \<open>
  A configuration that passes the checks starts an engine whose timers follow the Raft timing
  rule: a heartbeat comes before any election timeout, an election timeout ends before the
  lease of a leader, and a node with a smaller log waits longer than a lease.
\<close>

theorem validated_config_timing:
  assumes "config_validate c = Inr c'" "cf_election_timeout_max c < 2 ^ 63"
    and "\<forall>a b. a < b \<longrightarrow> a \<le> rand a b \<and> rand a b < b"
  shows "\<exists>ec. engine_config_new rand nid c' = Some ec \<and> ec_id ec = nid \<and> ec_max_payload_entries ec > 0
    \<and> cf_heartbeat_interval c' < tc_election_timeout (ec_timer_config ec)
    \<and> tc_election_timeout (ec_timer_config ec) < tc_leader_lease (ec_timer_config ec)
    \<and> tc_leader_lease (ec_timer_config ec) < tc_smaller_log_timeout (ec_timer_config ec)"
proof -
  from assms(1) have c: "c' = c" "cf_heartbeat_interval c < cf_election_timeout_min c"
    "cf_election_timeout_min c < cf_election_timeout_max c" "cf_max_payload_entries c > 0"
    by (simp_all add: config_validate_iff)
  with assms(3) have "cf_election_timeout_min c \<le> rand (cf_election_timeout_min c) (cf_election_timeout_max c)"
    "rand (cf_election_timeout_min c) (cf_election_timeout_max c) < cf_election_timeout_max c" by blast+
  then show ?thesis using c assms(2)
    by (simp add: engine_config_new_def new_rand_election_timeout_def ensure_def)
qed

theorem validated_config_timing_witness:
  "\<exists>ec. engine_config_new (\<lambda>a b. a) 3 config_default = Some ec
    \<and> cf_heartbeat_interval config_default < tc_election_timeout (ec_timer_config ec)"
proof -
  have "config_validate config_default = Inr config_default" "cf_election_timeout_max config_default < 2 ^ 63"
    by (simp_all add: config_validate_iff config_default_def)
  from validated_config_timing[OF this, of "\<lambda>a b. a" 3] show ?thesis by auto
qed

end
