(* ===== verification/Restart.thy ===== *)
theory Restart
imports MemStore Cluster Config
begin

text \<open>
  Starting a node: \<^verbatim>\<open>Raft::new\<close> of \<^verbatim>\<open>openraft/src/raft/mod.rs\<close> loads the state from the stores and builds the
  runtime task. The loaded state is proved to satisfy the invariant all operations of the engine
  keep, a state machine that lost everything is restored from the log, and the task is the one a
  node of the cluster model boots with.
\<close>

section \<open>The key log ids of the log\<close>

lemma compress_starts: "\<exists>ks. compress (y # ys) = y # ks"
  by (simp add: Let_def)

lemma compress_neq_Nil [simp]: "compress xs = [] \<longleftrightarrow> xs = []"
  by (cases xs) (simp_all add: Let_def)

lemma first_compress: "first_opt (compress xs) = first_opt xs"
  by (cases xs) (simp_all add: Let_def first_opt_def)

lemma last_compress: "last_opt (compress xs) = last_opt xs"
  by (cases xs) (simp_all add: Let_def last_opt_def)

lemma compress_leader_change:
  "lg_leader x \<noteq> lg_leader y \<Longrightarrow> compress (x # y # ys) = x # compress (y # ys)"
  by (simp add: Let_def)

declare compress.simps(2) [simp del]

lemma compress_same_leader:
  assumes "log_seq (x # y # ys)" "lg_leader x = lg_leader y"
  shows "compress (x # y # ys) = x # (case compress (y # ys) of [k] \<Rightarrow> [k] | k # ks \<Rightarrow> ks | [] \<Rightarrow> [])"
proof -
  have "add_purged (Some x) (compress (y # ys)) = compress (x # y # ys)" by (rule add_purged_compress[OF assms(1)])
  moreover obtain ks where "compress (y # ys) = y # ks" using compress_starts by blast
  ultimately show ?thesis using assms(2) by (cases ks) (simp_all add: add_purged_def)
qed

lemma fill_step:
  "lg_index y = Suc (lg_index x) \<Longrightarrow> lg_leader x = lg_leader y \<Longrightarrow> lg_index y < n \<Longrightarrow> fill x n = y # fill y n"
  by (cases y) (simp add: fill_def upt_conv_Cons)

lemma expand_compress: "log_seq xs \<Longrightarrow> kwf (compress xs) \<and> expand (compress xs) = xs"
proof (induction xs)
  case (Cons x xs)
  show ?case
  proof (cases xs)
    case Nil
    then show ?thesis by (simp add: compress.simps(2))
  next
    case (Cons y ys)
    have seq: "log_seq (x # y # ys)" and i: "lg_index y = Suc (lg_index x)" and l: "lg_leader x \<le> lg_leader y"
      using Cons.prems Cons by (simp_all add: log_seq_Cons)
    have IH: "kwf (compress (y # ys))" "expand (compress (y # ys)) = y # ys"
      using Cons.IH Cons.prems Cons by (simp_all add: log_seq_Cons)
    obtain ks where c: "compress (y # ys) = y # ks" using compress_starts by blast
    show ?thesis
    proof (cases "lg_leader x = lg_leader y")
      case False
      then have e: "compress (x # xs) = x # y # ks" using compress_leader_change[of x y ys] Cons c by simp
      have "kwf (x # y # ks)" using IH(1) order_le_neq_trans[OF l False] i l unfolding c by (simp add: kwf_Cons2)
      then show ?thesis unfolding e using IH(2) i Cons unfolding c by (simp add: fill_def)
    next
      case True
      show ?thesis
      proof (cases ks)
        case Nil
        then have e: "compress (x # xs) = [x, y]" using compress_same_leader[OF seq True] Cons c by simp
        show ?thesis unfolding e using IH(2) i l Cons unfolding c Nil by (simp add: kwf_Cons2 fill_def)
      next
        case (Cons z r)
        then have e: "compress (x # xs) = x # z # r"
          using compress_same_leader[OF seq True] \<open>xs = y # ys\<close> c by simp
        have z: "lg_index y < lg_index z" "lg_leader y \<le> lg_leader z" "r \<noteq> [] \<longrightarrow> lg_leader y < lg_leader z" "kwf (z # r)"
          using IH(1) unfolding c Cons by (simp_all add: kwf_Cons2)
        then have "kwf (x # z # r)" using i True by (simp add: kwf_Cons2)
        then show ?thesis unfolding e using IH(2) fill_step[OF i True z(1)] \<open>xs = y # ys\<close> unfolding c Cons by simp
      qed
    qed
  qed
qed simp

section \<open>The loaded state\<close>

text \<open>
  What holds of the stores of a node at any moment: the log has no holes, what was purged is in the
  snapshot (or was applied, when there is none yet), the last log to apply is in the log or, when
  the log was not yet cleaned after a snapshot was installed, is the end of the snapshot, and
  memberships were applied in order.
\<close>

definition stores_ok :: "('a log_entry \<Rightarrow> 'm \<Rightarrow> 'm) \<Rightarrow> ('m \<Rightarrow> log_id option \<times> stored_membership) \<Rightarrow> ('d \<Rightarrow> 'm)
    \<Rightarrow> ('a, 'm, 'd) store_view \<Rightarrow> bool" where
  "stores_ok step applied decode v \<longleftrightarrow>
     (let m0 = restored_machine applied decode v;
          la = max (fst (applied m0)) (committed_of applied v);
          m1 = replayed_machine step applied (committed_of applied v) (sv_log v) m0
      in contiguous v
       \<and> (case sv_snapshot v of None \<Rightarrow> sv_purged v \<le> la | Some (m, _) \<Rightarrow> sv_purged v \<le> snap_last_log_id m)
       \<and> (if sv_last v < la then (\<exists>m d. sv_snapshot v = Some (m, d) \<and> snap_last_log_id m = la)
            \<and> next_index (sv_last v) \<le> next_index la
          else \<forall>l. la = Some l \<longrightarrow> l \<in> set (whole_log v))
       \<and> fst (applied m1) = la \<and> sm_log_id (snd (applied m1)) \<le> la
       \<and> opt_index (sm_log_id (snd (applied m1))) \<le> opt_index la
       \<and> (\<forall>m d. sv_snapshot v = Some (m, d) \<longrightarrow> applied (decode d) = (snap_last_log_id m, snap_last_membership m)))"

lemma membership_ids_between:
  assumes "contiguous v" "m \<in> set (memberships_of (filter (\<lambda>e. next_index la \<le> e_index e) (sv_log v)))"
  shows "\<exists>e \<in> set (sv_log v). sm_log_id m = Some (e_log_id e) \<and> next_index la \<le> e_index e"
  using assms(2) by (auto simp: memberships_of_def List.map_filter_def)

lemma snapshot_le_applied:
  assumes "\<forall>m d. sv_snapshot v = Some (m, d) \<longrightarrow> applied (decode d) = (snap_last_log_id m, snap_last_membership m)"
    and "sv_snapshot v = Some (m, d)"
  shows "snap_last_log_id m \<le> fst (applied (restored_machine applied decode v))"
  using assms by (auto simp: restored_machine_def not_less)

lemma whole_log_entries: "e \<in> set (sv_log v) \<Longrightarrow> e_log_id e \<in> set (whole_log v)"
  by (auto simp: whole_log_def log_ids_of_def)

lemma entry_le_last: "contiguous v \<Longrightarrow> e \<in> set (sv_log v) \<Longrightarrow> e_index e < next_index (sv_last v)"
  using log_seq_bounds[of "whole_log v" "e_log_id e"] whole_log_entries[of e v]
  by (cases "whole_log v = []") (auto simp: contiguous_def last_opt_def simp flip: last_whole_log)

lemma log_seq_sorted: "log_seq xs \<Longrightarrow> sorted_wrt (\<lambda>x y. lg_index x < lg_index y \<and> x < y) xs"
proof (induction xs)
  case (Cons x xs)
  then show ?case
    using log_seq_bounds[of xs] by (cases "xs = []") (force simp: log_seq_Cons log_id_less_iff)+
qed simp

lemma log_memberships_sorted:
  "sorted_wrt (\<lambda>x y. lg_index x < lg_index y \<and> x < y) (log_ids_of es) \<Longrightarrow>
   sorted_wrt (\<lambda>a b. sm_log_id a \<le> sm_log_id b \<and> opt_index (sm_log_id a) \<le> opt_index (sm_log_id b)) (memberships_of es)"
proof (induction es)
  case (Cons e es)
  have "\<exists>f \<in> set es. sm_log_id m = Some (e_log_id f)" if "m \<in> set (memberships_of es)" for m
    using that by (auto simp: memberships_of_def List.map_filter_def)
  then show ?case using Cons by (fastforce simp: log_ids_of_def less_imp_le split: option.split)
qed simp

lemma last_two_cases:
  obtains "last_two xs = []" | a where "last_two xs = [a]" "a \<in> set xs"
    | a b ys where "last_two xs = [a, b]" "xs = ys @ [a, b]"
proof (cases xs rule: rev_cases)
  case (snoc zs b)
  then show ?thesis using that by (cases zs rule: rev_cases) (auto simp: last_two_def)
qed (use that in \<open>simp add: last_two_def\<close>)

text \<open>The two memberships of a loaded state are in log order.\<close>

lemma loaded_membership_wf:
  assumes "contiguous v" "sm_log_id sm_mem \<le> la" "opt_index (sm_log_id sm_mem) \<le> opt_index la"
    and la: "if sv_last v < la then next_index (sv_last v) \<le> next_index la else \<forall>l. la = Some l \<longrightarrow> l \<in> set (whole_log v)"
  shows "ms_wf (loaded_membership sm_mem (last_two (memberships_of (filter (\<lambda>e. next_index la \<le> e_index e) (sv_log v)))))"
proof -
  let ?es = "filter (\<lambda>e. next_index la \<le> e_index e) (sv_log v)"
  have seq: "log_seq (whole_log v)" using assms(1) by (simp add: contiguous_def)
  have after: "la \<le> Some (e_log_id e) \<and> opt_index la \<le> Some (e_index e)" if "e \<in> set ?es" for e
  proof -
    have e: "e \<in> set (sv_log v)" "next_index la \<le> e_index e" using that by auto
    with entry_le_last[OF assms(1) e(1)] la have "\<forall>l. la = Some l \<longrightarrow> l \<in> set (whole_log v)"
      by (auto split: if_splits)
    then show ?thesis
      using e(2) log_seq_mono[OF seq _ whole_log_entries[OF e(1)]] by (cases la) (auto simp: log_id_le_iff intro: le_neq_trans)
  qed
  have mems: "sm_log_id sm_mem \<le> sm_log_id m \<and> opt_index (sm_log_id sm_mem) \<le> opt_index (sm_log_id m)"
    if "m \<in> set (memberships_of ?es)" for m
  proof -
    from membership_ids_between[OF assms(1) that]
    obtain e where e: "e \<in> set (sv_log v)" "next_index la \<le> e_index e" "sm_log_id m = Some (e_log_id e)" by blast
    then have "la \<le> sm_log_id m" "opt_index la \<le> opt_index (sm_log_id m)" using after[of e] by simp_all
    then show ?thesis using order_trans[OF assms(2)] order_trans[OF assms(3)] by blast
  qed
  have "sorted_wrt (\<lambda>x y. lg_index x < lg_index y \<and> x < y) (log_ids_of ?es)"
    using log_seq_sorted[OF seq]
    by (auto simp: whole_log_def log_ids_of_def sorted_wrt_append sorted_wrt_map sorted_wrt_filter split: option.splits)
  note sorted = log_memberships_sorted[OF this]
  show ?thesis
    using last_two_cases[of "memberships_of ?es"]
  proof cases
    case 1
    then show ?thesis by (simp add: loaded_membership_def ms_wf_def ms_validate_def em_new_from_stored_def)
  next
    case (2 a)
    then show ?thesis using mems[of a]
      by (simp add: loaded_membership_def ms_wf_def ms_validate_def em_new_from_stored_def)
  next
    case (3 a b ys)
    then show ?thesis using sorted
      by (simp add: loaded_membership_def ms_wf_def ms_validate_def em_new_from_stored_def sorted_wrt_append)
  qed
qed

text \<open>The key log ids of a loaded state, with and without a hole in the log.\<close>

lemma loaded_key_log_ids:
  assumes "contiguous v" and la: "if sv_last v < la then la \<noteq> None else \<forall>l. la = Some l \<longrightarrow> l \<in> set (whole_log v)"
  defines "hole \<equiv> sv_last v < la"
  defines "ids \<equiv> if hole then [the la] else compress (whole_log v)" and "p \<equiv> if hole then la else sv_purged v"
  shows "kwf ids" "la \<le> last_opt ids" "la = Some l \<Longrightarrow> l \<in> set (expand ids)"
    "case p of None \<Rightarrow> opt_index (first_opt ids) \<le> Some 0 | Some q \<Rightarrow> first_opt ids = Some q"
proof -
  have seq: "log_seq (whole_log v)" using assms(1) by (simp add: contiguous_def)
  have "kwf ids \<and> la \<le> last_opt ids \<and> (la = Some l \<longrightarrow> l \<in> set (expand ids))
    \<and> (case p of None \<Rightarrow> opt_index (first_opt ids) \<le> Some 0 | Some q \<Rightarrow> first_opt ids = Some q)"
  proof (cases hole)
    case True
    then obtain a where "la = Some a" using la by (auto simp: hole_def)
    then show ?thesis using True by (simp add: ids_def p_def last_opt_def first_opt_def)
  next
    case False
    have "last_opt (compress (whole_log v)) = sv_last v" by (simp add: last_compress last_whole_log)
    moreover have "case sv_purged v of None \<Rightarrow> opt_index (first_opt (compress (whole_log v))) \<le> Some 0
        | Some q \<Rightarrow> first_opt (compress (whole_log v)) = Some q"
      unfolding first_compress using assms(1)
      by (cases "sv_log v")
        (auto simp: contiguous_def whole_log_def first_opt_def log_ids_of_def split: option.splits)
    moreover have "ids = compress (whole_log v)" "p = sv_purged v" using False by (simp_all add: ids_def p_def)
    moreover have "la \<le> sv_last v" "la = Some l \<longrightarrow> l \<in> set (whole_log v)" using False la by (auto simp: hole_def not_less)
    ultimately show ?thesis using expand_compress[OF seq] by (cases "sv_purged v") simp_all
  qed
  then show "kwf ids" "la \<le> last_opt ids" "la = Some l \<Longrightarrow> l \<in> set (expand ids)"
    "case p of None \<Rightarrow> opt_index (first_opt ids) \<le> Some 0 | Some q \<Rightarrow> first_opt ids = Some q"
    by auto
qed

lemma loaded_wf:
  assumes "loaded step applied decode vote v rs v'" "stores_ok step applied decode v"
  shows "rs_wf rs"
proof -
  let ?m0 = "restored_machine applied decode v"
  define la where "la = max (fst (applied ?m0)) (committed_of applied v)"
  define hole where "hole \<longleftrightarrow> sv_last v < la"
  define p where "p = (if hole then la else sv_purged v)"
  define snap where "snap = snap_last_log_id (rs_snapshot_meta rs)"
  let ?m1 = "replayed_machine step applied (committed_of applied v) (sv_log v) ?m0"
  note l = assms(1)[unfolded loaded_def Let_def, folded la_def, folded hole_def, folded p_def]
  note ok = assms(2)[unfolded stores_ok_def Let_def, folded la_def]
  have cont: "contiguous v" using ok by blast
  have "if sv_last v < la then la \<noteq> None else \<forall>l. la = Some l \<longrightarrow> l \<in> set (whole_log v)"
    using ok by (cases la) auto
  note keys = loaded_key_log_ids[OF cont this, folded hole_def, folded p_def]
  have ids: "rs_log_ids rs = (if hole then [the la] else compress (whole_log v))"
    and pn: "rs_purged_next rs = next_index p" "rs_purge_upto rs = p"
    and io: "rs_io_state rs = ios_new vote la snap p" using l by (simp_all add: snap_def)
  have mem: "ms_wf (rs_membership_state rs)"
    using loaded_membership_wf[OF cont, of "snd (applied ?m1)" la] ok l by (auto split: if_splits)
  have snap: "snap \<le> la \<and> p \<le> snap"
  proof (cases "sv_snapshot v")
    case None
    then have "\<not> hole" "p \<le> la" using ok by (auto simp: hole_def p_def split: if_splits)
    moreover have "snap = None \<and> p = None \<or> snap = la"
      using l ok None by (auto simp: snap_def snapshot_meta_default_def split: option.splits)
    ultimately show ?thesis by auto
  next
    case (Some md)
    obtain m d where md: "md = (m, d)" by (cases md)
    have "snap = snap_last_log_id m" using l Some md by (auto simp: snap_def split: option.splits)
    moreover have "snap_last_log_id m \<le> la"
      using snapshot_le_applied[of v applied decode m d] ok Some md by (auto simp: la_def le_max_iff_disj)
    moreover have "p \<le> snap_last_log_id m" using ok Some md by (auto simp: p_def hole_def split: if_splits)
    ultimately show ?thesis by simp
  qed
  have comm: "rs_committed rs = la" "rs_snapshot_last_log_id rs = snap" "rs_last_log_id rs = last_opt (rs_log_ids rs)"
    by (simp_all add: rs_committed_def io ios_new_def io_new_synchronized_def rs_snapshot_last_log_id_def snap_def
        rs_last_log_id_def lil_last_def)
  have purged: "rs_last_purged_log_id rs = p"
    using keys(4) by (cases p) (simp_all add: rs_last_purged_log_id_def pn ids lil_first_def)
  have "rs_validate rs"
    unfolding rs_validate_def comm purged pn ids
    using keys(2,4) mem snap
    by (cases p) (auto simp: lil_first_def ms_wf_def io ios_validate_def ios_new_def io_validate_def io_new_synchronized_def)
  then show ?thesis
    unfolding rs_wf_def comm ids using keys(1,3) mem by blast
qed

section \<open>Starting a node\<close>

text \<open>
  \<^verbatim>\<open>Raft::new\<close>: the task that \<^verbatim>\<open>RaftCore::main\<close> then runs, and the stores after loading. The channels,
  the worker and tick tasks it spawns are not part of the model. The balancer is the one the main
  loop creates.
\<close>

definition raft_new :: "('s, 'd, 'a) storage \<Rightarrow> (nat \<Rightarrow> nat \<Rightarrow> nat) \<Rightarrow> nat \<Rightarrow> config \<Rightarrow> nat \<Rightarrow> 's
    \<Rightarrow> (store_error + raft_core \<times> 's) panics" where
  "raft_new S rand nid cfg now s = do {
     eng_config \<leftarrow> engine_config_new rand nid cfg;
     then_ok (sh_get_initial_state S (Some nid) now s) (\<lambda>(state, s'). Some (Inr (
       \<lparr>rc_engine = engine_new state eng_config, rc_snapshot_policy = cf_snapshot_policy cfg,
        rc_heartbeat_interval = cf_heartbeat_interval cfg, rc_enable_heartbeat = cf_enable_heartbeat cfg,
        rc_enable_elect = cf_enable_elect cfg, rc_snapshot_tried_at = None, rc_client_responders = [],
        rc_replications = [], rc_heartbeats = [], rc_committed_tx = None, rc_rx_api = [], rc_rx_notification = [],
        rc_balancer = balancer_new 10000, rc_effects = []\<rparr>, s'))) }"

definition first_vote :: "nat \<Rightarrow> raft_vote option \<Rightarrow> raft_vote" where
  "first_vote nid v = (case v of Some w \<Rightarrow> w | None \<Rightarrow> Vote (LeaderId 0 nid) False)"

lemma log_seq_covers:
  "log_seq xs \<Longrightarrow> xs \<noteq> [] \<Longrightarrow> lg_index (hd xs) \<le> j \<Longrightarrow> j \<le> lg_index (last xs) \<Longrightarrow> \<exists>x \<in> set xs. lg_index x = j"
proof (induction xs)
  case (Cons x xs)
  show ?case
  proof (cases "lg_index x = j \<or> xs = []")
    case False
    then show ?thesis using Cons by (auto simp: log_seq_Cons)
  qed (use Cons in auto)
qed simp

lemma contiguous_covers:
  assumes "contiguous v" "e \<in> set (sv_log v)" "next_index (sv_purged v) \<le> j" "j \<le> e_index e"
  shows "j \<in> e_index ` set (sv_log v)"
proof -
  let ?ids = "log_ids_of (sv_log v)"
  have "log_seq ?ids" using assms(1) log_seq_appendD unfolding contiguous_def whole_log_def by blast
  moreover have "?ids \<noteq> []" "lg_index (hd ?ids) \<le> j"
    using assms by (auto simp: contiguous_def log_ids_of_def split: list.splits)
  moreover have "j \<le> lg_index (last ?ids)"
    using log_seq_bounds[OF calculation(1), of "e_log_id e"] assms(2,4) by (auto simp: log_ids_of_def)
  ultimately show ?thesis using log_seq_covers[of ?ids j] by (force simp: log_ids_of_def)
qed

lemma raft_new_loads:
  assumes "raft_store S view I may_build step applied decode" "I s" "may_build s" "contiguous (view s)"
    and "raft_new S rand nid cfg now s = Some (Inr (c, s'))"
  shows "loaded step applied decode (first_vote nid (sv_vote (view s))) (view s) (rc_state c) (view s') \<and> I s'
    \<and> booted nid (first_vote nid (sv_vote (view s))) c"
proof -
  obtain ec where ec: "engine_config_new rand nid cfg = Some ec" "ec_id ec = nid"
    using assms(5) by (auto simp: raft_new_def bind_eq_Some_conv engine_config_new_def)
  from raft_store.initial_state_outcome[OF assms(1,2,4,3) first_vote_def refl, of nid now]
  show ?thesis
  proof (elim disjE exE conjE)
    fix rs s1 assume i: "sh_get_initial_state S (Some nid) now s = Some (Inr (rs, s1))" "I s1"
      "loaded step applied decode (first_vote nid (sv_vote (view s))) (view s) rs (view s1)"
    have c: "rc_state c = rs" "s' = s1" "rc_rx_notification c = []" "rc_engine c = engine_new rs ec"
      using assms(5) ec(1) i(1) by (auto simp: raft_new_def engine_new_def)
    have "vote_ref rs = first_vote nid (sv_vote (view s))"
      "io_flushed (ios_log_progress (rs_io_state rs)) = Some (io_id_new (first_vote nid (sv_vote (view s))))"
      using i(3) by (auto simp: loaded_def Let_def ios_new_def io_new_synchronized_def)
    then show ?thesis using i c ec(2) by (simp add: booted_def engine_new_def)
  qed (use assms(5) ec(1) in \<open>auto simp: raft_new_def\<close>)
qed

section \<open>An example store\<close>

definition mem_entry :: "nat \<Rightarrow> client_request payload \<Rightarrow> client_request log_entry" where
  "mem_entry i p = entry_new (LogId (LeaderId 1 1) i) p"

definition entry_text :: "client_request log_entry \<Rightarrow> bytes" where
  "entry_text e = (case to_vec (mj_entry mem_codecs) e of Inr b \<Rightarrow> b | Inl _ \<Rightarrow> [])"

definition lost_entries :: "client_request log_entry list" where
  "lost_entries = [mem_entry 0 (MembershipPayload \<lparr>configs = [[1]], m_nodes = []\<rparr>), mem_entry 1 (Normal (make_request ''c'' 1)),
     mem_entry 2 Blank]"

text \<open>Two of the three entries are committed and applied.\<close>

definition example_store :: mem_store where
  "example_store = new_mem_store\<lparr>
     mw_log := mls_new\<lparr>mls_committed := Some (LogId (LeaderId 1 1) 1), mls_vote := Some (Vote (LeaderId 1 1) True),
       mls_log := map (\<lambda>e. (e_index e, entry_text e)) lost_entries\<rparr>,
     mw_sm := msm_new\<lparr>msm_sm := fold mem_step (take 2 lost_entries) mem_sm_default\<rparr>\<rparr>"

lemma entry_text_decodes: "from_slice (mj_entry mem_codecs) (entry_text e) = Inr e"
proof -
  obtain b where "to_vec (mj_entry mem_codecs) e = Inr b"
    using mem_store.entry_total by (auto simp: serde_total_def)
  then show ?thesis using serde_okD[OF mem_store.entry_ok] by (simp add: entry_text_def)
qed

lemma example_store_view:
  "mem_view mem_codecs example_store = \<lparr>sv_vote = Some (Vote (LeaderId 1 1) True),
     sv_committed = Some (LogId (LeaderId 1 1) 1), sv_purged = None, sv_log = lost_entries,
     sv_machine = fold mem_step (take 2 lost_entries) mem_sm_default, sv_snapshot = None\<rparr>"
  by (simp add: mem_view_def example_store_def new_mem_store_def mls_new_def msm_new_def lost_entries_def entry_text_decodes)

lemma example_store_ok: "mem_inv mem_codecs example_store" "mem_may_build example_store"
  by (simp_all add: mem_inv_def mem_may_build_def example_store_def new_mem_store_def mls_new_def msm_new_def
      lost_entries_def entry_at_def entry_text_decodes mem_entry_def entry_new_def bt_wf_def)

lemma example_store_contiguous: "contiguous (mem_view mem_codecs example_store)"
  by (simp add: example_store_view contiguous_def whole_log_def lost_entries_def mem_entry_def entry_new_def log_seq_def)

lemma example_applied:
  "mem_applied (fold mem_step (take 2 lost_entries) mem_sm_default) = (Some (LogId (LeaderId 1 1) 1),
     \<lparr>sm_log_id = Some (LogId (LeaderId 1 1) 0), sm_membership = \<lparr>configs = [[1]], m_nodes = []\<rparr>\<rparr>)"
  by (simp add: lost_entries_def mem_entry_def entry_new_def mem_step_def mem_applied_def)

lemma example_stores_ok: "stores_ok mem_step mem_applied (mem_decode mem_codecs) (mem_view mem_codecs example_store)"
proof -
  have "sv_last (mem_view mem_codecs example_store) = Some (LogId (LeaderId 1 1) 2)"
    by (simp add: example_store_view sv_last_def lost_entries_def mem_entry_def entry_new_def last_opt_def)
  moreover have "LogId (LeaderId 1 1) 1 \<in> set (whole_log (mem_view mem_codecs example_store))"
    by (simp add: example_store_view whole_log_def lost_entries_def mem_entry_def entry_new_def)
  moreover have "restored_machine mem_applied (mem_decode mem_codecs) (mem_view mem_codecs example_store)
      = fold mem_step (take 2 lost_entries) mem_sm_default"
    "committed_of mem_applied (mem_view mem_codecs example_store) = Some (LogId (LeaderId 1 1) 1)"
    by (simp_all add: example_store_view restored_machine_def committed_of_def example_applied)
  ultimately show ?thesis
    using example_store_contiguous
    by (simp add: stores_ok_def replayed_machine_def example_applied example_store_view log_id_less_iff log_id_le_iff)
qed

lemmas example_contract = mem_store.store_contract

section \<open>Properties\<close>

text \<open>
  C10. The backward scan for memberships, in chunks of 64 entries, finds exactly the last two
  memberships of the log from the given index on, whatever the store is, provided that the store
  keeps its contract.
\<close>

theorem membership_scan_exact:
  assumes "raft_store S view I may_build step applied decode" "I s"
  shows "last_membership_in_log S since s =
    Some (Inr (last_two (memberships_of (filter (\<lambda>e. since \<le> e_index e) (sv_log (view s))))))"
  by (rule raft_store.last_membership_spec[OF assms])

theorem membership_scan_exact_witness:
  "last_membership_in_log (mem_storage mem_codecs) 0 example_store =
    Some (Inr [\<lparr>sm_log_id = Some (LogId (LeaderId 1 1) 0), sm_membership = \<lparr>configs = [[1]], m_nodes = []\<rparr>\<rparr>])"
  using membership_scan_exact[OF example_contract example_store_ok(1), of 0]
  by (simp add: example_store_view lost_entries_def mem_entry_def entry_new_def entry_get_membership_def last_two_def)

text \<open>
  C9. The state that \<^verbatim>\<open>Raft::new\<close> loads from consistent stores satisfies the full invariant of the Raft
  state, which every operation of the engine assumes and keeps.
\<close>

theorem loaded_state_wf:
  assumes "raft_store S view I may_build step applied decode" "I s" "may_build s"
    "stores_ok step applied decode (view s)" "raft_new S rand nid cfg now s = Some (Inr (c, s'))"
  shows "rs_wf (rc_state c)"
proof -
  have "contiguous (view s)" using assms(4) by (simp add: stores_ok_def Let_def)
  from raft_new_loads[OF assms(1-3) this assms(5)] show ?thesis
    using loaded_wf[OF _ assms(4)] by blast
qed

lemma example_boots: "\<exists>c w'. raft_new (mem_storage mem_codecs) (\<lambda>a b. a) 1 config_default 0 example_store = Some (Inr (c, w'))"
proof -
  have "\<not> fst (mem_applied (restored_machine mem_applied (mem_decode mem_codecs) (mem_view mem_codecs example_store)))
      < committed_of mem_applied (mem_view mem_codecs example_store)"
    by (simp add: example_store_view restored_machine_def committed_of_def example_applied)
  with raft_store.initial_state_outcome[OF example_contract example_store_ok(1) example_store_contiguous example_store_ok(2)
      refl refl, of 1 0]
  obtain rs w' where "sh_get_initial_state (mem_storage mem_codecs) (Some 1) 0 example_store = Some (Inr (rs, w'))"
    by blast
  then show ?thesis
    by (simp add: raft_new_def engine_config_new_def new_rand_election_timeout_def ensure_def config_default_def)
qed

theorem loaded_state_wf_witness:
  "\<exists>c w'. raft_new (mem_storage mem_codecs) (\<lambda>a b. a) 1 config_default 0 example_store = Some (Inr (c, w'))
    \<and> rs_wf (rc_state c)"
  using example_boots loaded_state_wf[OF example_contract example_store_ok example_stores_ok] by blast

text \<open>
  C8. A node that starts on its stores boots as the cluster model lets it boot: with the vote it had
  persisted (or the first vote of a node that never voted), nothing pending, and the vote already
  flushed. Its state machine has everything up to the committed log id it had saved.
\<close>

theorem raft_new_boots:
  assumes "raft_store S view I may_build step applied decode" "I s" "may_build s" "contiguous (view s)"
    "raft_new S rand nid cfg now s = Some (Inr (c, s'))"
  shows "booted nid (first_vote nid (sv_vote (view s))) c
    \<and> sv_machine (view s') = replayed_machine step applied (committed_of applied (view s)) (sv_log (view s))
        (restored_machine applied decode (view s))"
  using raft_new_loads[OF assms] by (simp add: loaded_def Let_def)

theorem raft_new_boots_witness:
  "\<exists>c w'. raft_new (mem_storage mem_codecs) (\<lambda>a b. a) 1 config_default 0 example_store = Some (Inr (c, w'))
    \<and> booted 1 (Vote (LeaderId 1 1) True) c"
  using example_boots raft_new_boots[OF example_contract example_store_ok example_store_contiguous]
  by (force simp: example_store_view first_vote_def)

text \<open>
  C11. A state machine in memory that is lost together with its snapshot comes back: loading the
  node applies the saved committed logs again and gives the very state machine that was lost.
\<close>

theorem lost_state_machine_restored:
  assumes "mem_json J" "mem_inv J w" "mem_may_build w" "contiguous (mem_view J w)"
    and "sv_purged (mem_view J w) = None" "sv_committed (mem_view J w) = Some (e_log_id e)" "e \<in> set (sv_log (mem_view J w))"
    and "msm_sm (mw_sm w) = fold mem_step (filter (\<lambda>x. e_index x \<le> e_index e) (sv_log (mem_view J w))) mem_sm_default"
  shows "\<exists>rs w'. sh_get_initial_state (mem_storage J) (Some i) now
        (w\<lparr>mw_sm := clear_state_machine (drop_snapshot (mw_sm w))\<rparr>) = Some (Inr (rs, w'))
    \<and> msm_sm (mw_sm w') = msm_sm (mw_sm w)"
proof -
  let ?w = "w\<lparr>mw_sm := clear_state_machine (drop_snapshot (mw_sm w))\<rparr>"
  have v: "mem_view J ?w = (mem_view J w)\<lparr>sv_machine := mem_sm_default, sv_snapshot := None\<rparr>"
    by (simp add: mem_view_def clear_state_machine_def drop_snapshot_def)
  have w: "mem_inv J ?w" "mem_may_build ?w"
    using assms(2,3) by (simp_all add: mem_inv_def mem_may_build_def clear_state_machine_def drop_snapshot_def)
  have c: "contiguous (mem_view J ?w)" unfolding v using assms(4) by (auto simp: contiguous_def whole_log_def split: list.splits option.splits)
  have m0: "restored_machine mem_applied (mem_decode J) (mem_view J ?w) = mem_sm_default"
    "fst (mem_applied mem_sm_default) = None"
    by (simp_all add: v restored_machine_def mem_applied_def mem_sm_default_def)
  have comm: "committed_of mem_applied (mem_view J ?w) = Some (e_log_id e)"
    using assms(6) m0(2) by (simp add: v committed_of_def)
  from raft_store.initial_state_outcome[OF mem_json.store_contract[OF assms(1)] w(1) c w(2) refl refl, of i now]
  show ?thesis
  proof (elim disjE exE conjE)
    fix rs w' assume "sh_get_initial_state (mem_storage J) (Some i) now ?w = Some (Inr (rs, w'))"
      and l: "loaded mem_step mem_applied (mem_decode J) (case sv_vote (mem_view J ?w) of Some v \<Rightarrow> v
        | None \<Rightarrow> Vote (LeaderId 0 i) False) (mem_view J ?w) rs (mem_view J w')"
    have "entries_between 0 (Suc (e_index e)) (sv_log (mem_view J w)) = filter (\<lambda>x. e_index x \<le> e_index e) (sv_log (mem_view J w))"
      by (simp add: entries_between_def less_Suc_eq_le)
    moreover have "sv_machine (mem_view J w') = msm_sm (mw_sm w')" by (simp add: mem_view_def)
    ultimately have "msm_sm (mw_sm w') = msm_sm (mw_sm w)"
      using l m0 comm assms(8) by (simp add: loaded_def Let_def replayed_machine_def v)
    then show ?thesis using \<open>sh_get_initial_state _ _ _ _ = _\<close> by blast
  qed (use contiguous_covers[OF assms(4,7)] assms(5) m0 comm in \<open>auto simp: v less_Suc_eq_le\<close>)
qed


theorem lost_state_machine_restored_witness:
  "\<exists>rs w'. sh_get_initial_state (mem_storage mem_codecs) (Some 1) 0
        (example_store\<lparr>mw_sm := clear_state_machine (drop_snapshot (mw_sm example_store))\<rparr>) = Some (Inr (rs, w'))
    \<and> msm_sm (mw_sm w') = fold mem_step (take 2 lost_entries) mem_sm_default"
proof -
  let ?e = "lost_entries ! 1"
  have "sv_purged (mem_view mem_codecs example_store) = None"
    "sv_committed (mem_view mem_codecs example_store) = Some (e_log_id ?e)"
    "?e \<in> set (sv_log (mem_view mem_codecs example_store))"
    by (simp_all add: example_store_view lost_entries_def mem_entry_def entry_new_def)
  moreover have m: "msm_sm (mw_sm example_store) = fold mem_step (take 2 lost_entries) mem_sm_default"
    by (simp add: example_store_def msm_new_def new_mem_store_def)
  moreover have "take 2 lost_entries = filter (\<lambda>x. e_index x \<le> e_index ?e) (sv_log (mem_view mem_codecs example_store))"
    by (simp add: example_store_view lost_entries_def mem_entry_def entry_new_def)
  ultimately show ?thesis
    using lost_state_machine_restored[OF mem_store.mem_json_axioms example_store_ok example_store_contiguous, of ?e 1 0] by simp
qed

end
