(* ===== verification/Replication.thy ===== *)
theory Replication
imports Restart
begin

text \<open>
  \<^verbatim>\<open>openraft/src/replication\<close>: the task of a leader that replicates its log to one follower. It reads
  the entries of a range in bounded chunks, makes a stream of append requests of them, hands the
  stream to the network and turns the answers into notifications for the runtime. The network is
  the sequence of its events: it pulls the next request, gets the answer to the oldest request it
  has not answered, or fails; \<^verbatim>\<open>stream_append\<close> of \<^verbatim>\<open>network/v2/network.rs\<close> and of \<^verbatim>\<open>raft/stream_append.rs\<close>
  are two such networks. A pull carries the time and the state of the log store it reads.
\<close>

section \<open>Data\<close>

record repl_log_state =
  rls_committed :: "log_id option"
  rls_last :: "log_id option"

record replication_state =
  rst_stream_id :: nat
  rst_purged :: "log_id option"
  rst_local :: repl_log_state
  rst_remote :: repl_log_state
  rst_searching_end :: nat

datatype replicate = RepCommitted "log_id option" | RepData repl_data

definition replicate_logs :: "log_id_range \<Rightarrow> nat \<Rightarrow> replicate" where
  "replicate_logs r i = RepData (Data i r)"

fun replicate_inflight_id :: "replicate \<Rightarrow> nat option" where
  "replicate_inflight_id (RepCommitted c) = None"
| "replicate_inflight_id (RepData d) = Some (rd_inflight_id d)"

definition data_default :: repl_data where
  "data_default = Data 0 (LogIdRange None None)"

text \<open>An error of the network, with its text.\<close>

datatype rpc_error = RpcTimeout string | RpcUnreachable string | RpcNetwork string | RpcRemote string

fun rpc_backoff_rank :: "rpc_error \<Rightarrow> nat" where
  "rpc_backoff_rank (RpcTimeout m) = 2"
| "rpc_backoff_rank (RpcUnreachable m) = 100"
| "rpc_backoff_rank (RpcNetwork m) = 2"
| "rpc_backoff_rank (RpcRemote m) = 100"

fun rpc_error_text :: "rpc_error \<Rightarrow> string" where
  "rpc_error_text (RpcTimeout m) = m"
| "rpc_error_text (RpcUnreachable m) = m"
| "rpc_error_text (RpcNetwork m) = m"
| "rpc_error_text (RpcRemote m) = m"

text \<open>\<^verbatim>\<open>Backoff\<close>: an iterator of durations, by the number of durations taken from it.\<close>

record backoff =
  bo_duration :: "nat \<Rightarrow> nat option"
  bo_taken :: nat

definition backoff_next :: "backoff \<Rightarrow> nat option \<times> backoff" where
  "backoff_next b = (bo_duration b (bo_taken b), b\<lparr>bo_taken := bo_taken b + 1\<rparr>)"

definition network_backoff :: backoff where
  "network_backoff = \<lparr>bo_duration = (\<lambda>_. Some 200), bo_taken = 0\<rparr>"

section \<open>Append requests\<close>

definition req_last_log_id :: "'d append_rpc \<Rightarrow> log_id option" where
  "req_last_log_id req = (case last_opt (ar_entries req) of Some e \<Rightarrow> Some (e_log_id e) | None \<Rightarrow> ar_prev_log_id req)"

definition req_log_id_range :: "'d append_rpc \<Rightarrow> log_id_range" where
  "req_log_id_range req = LogIdRange (ar_prev_log_id req) (req_last_log_id req)"

section \<open>Requests in flight\<close>

record inflight_append =
  ia_sending_time :: nat
  ia_last_log_id :: "log_id option"

definition inflight_push :: "nat \<Rightarrow> log_id option \<Rightarrow> inflight_append list \<Rightarrow> inflight_append list" where
  "inflight_push now l q = q @ [\<lparr>ia_sending_time = now, ia_last_log_id = l\<rparr>]"

fun drain_acked_loop :: "log_id option \<Rightarrow> nat option \<Rightarrow> inflight_append list \<Rightarrow> nat option \<times> inflight_append list" where
  "drain_acked_loop m t [] = (t, [])"
| "drain_acked_loop m t (x # q) =
     (if m \<ge> ia_last_log_id x then drain_acked_loop m (Some (ia_sending_time x)) q else (t, x # q))"

definition drain_acked :: "log_id option \<Rightarrow> inflight_append list \<Rightarrow> nat option \<times> inflight_append list" where
  "drain_acked m q = drain_acked_loop m None q"

section \<open>The state of the stream\<close>

text \<open>What the tasks of one target share, and the request generator; \<^verbatim>\<open>cancel_rx\<close> only ends a sleep early.\<close>

record replication_context =
  rx_id :: nat
  rx_target :: nat
  rx_session_id :: replication_session_id
  rx_config :: config

record stream_state =
  ss_context :: replication_context
  ss_log_id_range :: "log_id_range option"
  ss_leader_committed :: "log_id option"
  ss_inflight_id :: "nat option"
  ss_backoff :: "backoff option"

datatype repl_effect = RNotify notification | RSleep nat

text \<open>
  Reading the entries of a range: at most \<^verbatim>\<open>max_payload_entries\<close> of them, and at least one, or the
  task panics. The addition of two \<^verbatim>\<open>u64\<close> panics on overflow in a debug build.
\<close>

type_synonym ('s, 'd) log_read = "nat \<Rightarrow> nat \<Rightarrow> 's \<Rightarrow> 'd log_entry list io panics"

definition read_log_entries ::
  "('s, 'd) log_read \<Rightarrow> nat \<Rightarrow> 's \<Rightarrow> log_id_range \<Rightarrow> (store_error + 'd log_entry list \<times> log_id_range) panics" where
  "read_log_entries limited max_entries s rng =
     (let start = next_index (lir_prev rng); end1 = next_index (lir_last rng) in
      if start = end1 then Some (Inr ([], LogIdRange (lir_prev rng) (lir_prev rng)))
      else do {
        ensure (start + max_entries < 2 ^ 64);
        let end2 = min end1 (start + max_entries);
        query SubjLogs VRead (limited start end2 s) (\<lambda>logs. do {
          first \<leftarrow> first_opt logs;
          la \<leftarrow> last_opt logs;
          n \<leftarrow> sub_panics end2 start;
          ensure (length logs \<le> n);
          Some (Inr (logs, LogIdRange (lir_prev rng) (Some (e_log_id la)))) }) })"

definition update_log_id_range :: "log_id option \<Rightarrow> stream_state \<Rightarrow> stream_state panics" where
  "update_log_id_range matching ss =
     (case ss_log_id_range ss of
        None \<Rightarrow> Some ss
      | Some r \<Rightarrow> do {
          let r' = LogIdRange matching (lir_last r);
          n \<leftarrow> log_id_range_len r';
          Some (ss\<lparr>ss_log_id_range := if n = 0 then None else Some r'\<rparr>) })"

definition backoff_if_enabled :: "stream_state \<Rightarrow> stream_state \<times> repl_effect list" where
  "backoff_if_enabled ss =
     (case ss_backoff ss of
        None \<Rightarrow> (ss, [])
      | Some b \<Rightarrow> (case backoff_next b of (d, b') \<Rightarrow>
          (ss\<lparr>ss_backoff := Some b'\<rparr>, [RSleep (case d of Some t \<Rightarrow> t | None \<Rightarrow> 500)])))"

definition next_request ::
  "('s, 'd) log_read \<Rightarrow> 's \<Rightarrow> stream_state \<Rightarrow> ('d append_rpc option \<times> stream_state \<times> repl_effect list) panics" where
  "next_request limited s ss =
     (case ss_log_id_range ss of
        None \<Rightarrow> Some (None, ss, [])
      | Some rng \<Rightarrow> do {
          res \<leftarrow> read_log_entries limited (cf_max_payload_entries (rx_config (ss_context ss))) s rng;
          (case res of
             Inl err \<Rightarrow> Some (None, ss, [RNotify (NStorageError StoReadLogs)])
           | Inr (entries, sending) \<Rightarrow> do {
               ss1 \<leftarrow> update_log_id_range (lir_last sending) ss;
               let req = \<lparr>ar_vote = cv_into_vote (rsi_leader_vote (rx_session_id (ss_context ss))),
                          ar_prev_log_id = lir_prev sending, ar_entries = entries,
                          ar_leader_commit = ss_leader_committed ss1\<rparr>;
               let (ss2, effs) = backoff_if_enabled ss1;
               Some (Some req, ss2, effs) }) })"

section \<open>The replication task\<close>

record repl_core =
  rp_stream :: stream_state
  rp_next_action :: "replicate option"
  rp_inflight_id :: "nat option"
  rp_state :: replication_state
  rp_backoff_rank :: nat

abbreviation rp_target :: "repl_core \<Rightarrow> nat" where
  "rp_target c \<equiv> rx_target (ss_context (rp_stream c))"

abbreviation rp_session :: "repl_core \<Rightarrow> replication_session_id" where
  "rp_session c \<equiv> rx_session_id (ss_context (rp_stream c))"

abbreviation rp_remote_last :: "repl_core \<Rightarrow> log_id option" where
  "rp_remote_last c \<equiv> rls_last (rst_remote (rp_state c))"

definition set_remote_last :: "log_id option \<Rightarrow> repl_core \<Rightarrow> repl_core" where
  "set_remote_last m c = c\<lparr>rp_state := (rp_state c)\<lparr>rst_remote := (rst_remote (rp_state c))\<lparr>rls_last := m\<rparr>\<rparr>\<rparr>"

definition repl_spawn :: "nat \<Rightarrow> replication_session_id \<Rightarrow> config \<Rightarrow> log_id option \<Rightarrow> log_id option \<Rightarrow> repl_core" where
  "repl_spawn target session cfg committed matching =
     \<lparr>rp_stream = \<lparr>ss_context = \<lparr>rx_id = cv_node_id (rsi_leader_vote session), rx_target = target,
          rx_session_id = session, rx_config = cfg\<rparr>,
        ss_log_id_range = None, ss_leader_committed = None, ss_inflight_id = None, ss_backoff = None\<rparr>,
      rp_next_action = None, rp_inflight_id = None,
      rp_state = \<lparr>rst_stream_id = 0, rst_purged = None,
        rst_local = \<lparr>rls_committed = committed, rls_last = None\<rparr>,
        rst_remote = \<lparr>rls_committed = None, rls_last = matching\<rparr>, rst_searching_end = 0\<rparr>,
      rp_backoff_rank = 0\<rparr>"

definition send_progress_error :: "rpc_error \<Rightarrow> repl_core \<Rightarrow> repl_effect list" where
  "send_progress_error err c =
     (case rp_inflight_id c of
        None \<Rightarrow> []
      | Some i \<Rightarrow> [RNotify (NReplicationProgress (rp_session c) (rp_target c) (Inl (rpc_error_text err)) (Some i))])"

definition notify_heartbeat_progress :: "nat \<Rightarrow> repl_core \<Rightarrow> repl_effect list" where
  "notify_heartbeat_progress sending_time c = [RNotify (NHeartbeatProgress (rp_session c) sending_time (rp_target c))]"

text \<open>A matching log id is recorded; none of them is not worth a notification.\<close>

definition notify_progress :: "log_id + log_id option \<Rightarrow> repl_core \<Rightarrow> repl_core \<times> repl_effect list" where
  "notify_progress res c =
     (let note = RNotify (NReplicationProgress (rp_session c) (rp_target c) (Inr res) (rp_inflight_id c)) in
      case res of
        Inr matching \<Rightarrow>
          (let c1 = set_remote_last matching c in if matching = None then (c1, []) else (c1, [note]))
      | Inl conflict \<Rightarrow> (c, [note]))"

definition enable_backoff :: "backoff \<Rightarrow> repl_core \<Rightarrow> repl_core" where
  "enable_backoff b c = c\<lparr>rp_stream := (rp_stream c)\<lparr>ss_backoff :=
     (case ss_backoff (rp_stream c) of None \<Rightarrow> Some b | Some b' \<Rightarrow> Some b')\<rparr>\<rparr>"

definition disable_backoff :: "repl_core \<Rightarrow> repl_core" where
  "disable_backoff c = c\<lparr>rp_stream := (rp_stream c)\<lparr>ss_backoff := None\<rparr>\<rparr>"

section \<open>Events from the runtime\<close>

text \<open>
  \<^verbatim>\<open>event_watcher.rs\<close>: the receivers of two watch channels. A receiver has the value, whether it has
  changed since it was seen, and whether the sender is gone; a wait that is not over is \<open>None\<close>.
  \<^verbatim>\<open>select!\<close> polls the two in an order it draws.
\<close>

record 'v watch_rx =
  wx_value :: 'v
  wx_changed :: bool
  wx_closed :: bool

definition watch_changed :: "'v watch_rx \<Rightarrow> (unit + 'v watch_rx) option" where
  "watch_changed w =
     (if wx_changed w then Some (Inr (w\<lparr>wx_changed := False\<rparr>)) else if wx_closed w then Some (Inl ()) else None)"

record event_watcher =
  ew_entries_rx :: "repl_data watch_rx"
  ew_committed_rx :: "log_id option watch_rx"

definition watch_entries :: "event_watcher \<Rightarrow> (unit + replicate \<times> event_watcher) option" where
  "watch_entries w = (case watch_changed (ew_entries_rx w) of
       None \<Rightarrow> None
     | Some (Inl _) \<Rightarrow> Some (Inl ())
     | Some (Inr rx) \<Rightarrow> Some (Inr (RepData (wx_value rx), w\<lparr>ew_entries_rx := rx\<rparr>)))"

definition watch_committed :: "event_watcher \<Rightarrow> (unit + replicate \<times> event_watcher) option" where
  "watch_committed w = (case watch_changed (ew_committed_rx w) of
       None \<Rightarrow> None
     | Some (Inl _) \<Rightarrow> Some (Inl ())
     | Some (Inr rx) \<Rightarrow> Some (Inr (RepCommitted (wx_value rx), w\<lparr>ew_committed_rx := rx\<rparr>)))"

definition event_watcher_recv :: "bool \<Rightarrow> event_watcher \<Rightarrow> (unit + replicate \<times> event_watcher) option" where
  "event_watcher_recv entries_first w =
     (if entries_first then (case watch_entries w of None \<Rightarrow> watch_committed w | Some r \<Rightarrow> Some r)
      else (case watch_committed w of None \<Rightarrow> watch_entries w | Some r \<Rightarrow> Some r))"

text \<open>No event is lost: the other one stays to be received.\<close>

lemma event_watcher_recv_keeps:
  assumes "event_watcher_recv f w = Some (Inr (a, w'))"
  shows "(\<exists>d. a = RepData d \<and> d = wx_value (ew_entries_rx w) \<and> wx_changed (ew_entries_rx w) \<and> ew_committed_rx w' = ew_committed_rx w)
    \<or> (\<exists>m. a = RepCommitted m \<and> m = wx_value (ew_committed_rx w) \<and> wx_changed (ew_committed_rx w) \<and> ew_entries_rx w' = ew_entries_rx w)"
  using assms
  by (auto simp: event_watcher_recv_def watch_entries_def watch_committed_def watch_changed_def split: if_splits)

section \<open>Responses\<close>

text \<open>One item of the response stream; \<open>Inl\<close> ends the stream with an error.\<close>

fun handle_response ::
  "rpc_error + (stream_append_error + log_id option) \<Rightarrow> repl_core \<Rightarrow> inflight_append list
    \<Rightarrow> (string + unit) \<times> repl_core \<times> inflight_append list \<times> repl_effect list" where
  "handle_response (Inl rpc_err) c q =
     (let c1 = c\<lparr>rp_backoff_rank := rp_backoff_rank c + rpc_backoff_rank rpc_err\<rparr> in
      (Inl ''RPCError'', c1, q, send_progress_error rpc_err c1))"
| "handle_response (Inr (Inr matching)) c q =
     (let c1 = c\<lparr>rp_backoff_rank := 0\<rparr>;
          (acked, q1) = drain_acked matching q;
          beat = (case acked of Some t \<Rightarrow> notify_heartbeat_progress t c1 | None \<Rightarrow> []);
          c2 = set_remote_last matching c1;
          (c3, notes) = notify_progress (Inr matching) c2
      in (Inr (), c3, q1, beat @ notes))"
| "handle_response (Inr (Inl (StreamConflict conflict))) c q =
     (let c1 = c\<lparr>rp_backoff_rank := 0\<rparr>; (c2, notes) = notify_progress (Inl conflict) c1
      in (Inl ''AppendError'', c2, q, notes))"
| "handle_response (Inr (Inl (StreamHigherVote higher))) c q =
     (let c1 = c\<lparr>rp_backoff_rank := 0\<rparr>
      in (Inl ''AppendError'', c1, q, [RNotify (NHigherVote (rp_target c1) higher (rsi_leader_vote (rp_session c1)))]))"

section \<open>The stream through a network\<close>

text \<open>
  \<^verbatim>\<open>sr_pending\<close> are the ranges of the requests the network has pulled and not answered, oldest
  first; an \<^verbatim>\<open>Unfold\<close> stream panics when it is polled after its end.
\<close>

datatype 's net_event = Pull nat 's | Answer append_entries_response | Fail rpc_error

record 'd stream_run =
  sr_core :: repl_core
  sr_queue :: "inflight_append list"
  sr_done :: bool
  sr_pending :: "log_id_range list"
  sr_sent :: "'d append_rpc list"
  sr_effects :: "repl_effect list"

definition new_stream :: "repl_core \<Rightarrow> 'd stream_run" where
  "new_stream c = \<lparr>sr_core = c, sr_queue = [], sr_done = False, sr_pending = [], sr_sent = [], sr_effects = []\<rparr>"

definition next_append_request ::
  "('s, 'd) log_read \<Rightarrow> nat \<Rightarrow> 's \<Rightarrow> 'd stream_run \<Rightarrow> 'd stream_run panics" where
  "next_append_request limited now s r = do {
     ensure (\<not> sr_done r);
     (req, ss, effs) \<leftarrow> next_request limited s (rp_stream (sr_core r));
     let r1 = r\<lparr>sr_core := (sr_core r)\<lparr>rp_stream := ss\<rparr>, sr_effects := sr_effects r @ effs\<rparr>;
     (case req of
        None \<Rightarrow> Some (r1\<lparr>sr_done := True\<rparr>)
      | Some rpc \<Rightarrow> Some (r1\<lparr>sr_queue := inflight_push now (req_last_log_id rpc) (sr_queue r1),
          sr_pending := sr_pending r1 @ [req_log_id_range rpc], sr_sent := sr_sent r1 @ [rpc]\<rparr>)) }"

definition stream_response ::
  "rpc_error + (stream_append_error + log_id option) \<Rightarrow> 'd stream_run \<Rightarrow> (string + unit) \<times> 'd stream_run" where
  "stream_response res r =
     (case handle_response res (sr_core r) (sr_queue r) of
        (out, c, q, effs) \<Rightarrow> (out, r\<lparr>sr_core := c, sr_queue := q, sr_effects := sr_effects r @ effs\<rparr>))"

fun stream_event :: "('s, 'd) log_read \<Rightarrow> 's net_event \<Rightarrow> 'd stream_run \<Rightarrow> ((string + unit) \<times> 'd stream_run) panics" where
  "stream_event limited (Pull now s) r = do { r' \<leftarrow> next_append_request limited now s r; Some (Inr (), r') }"
| "stream_event limited (Answer resp) r =
     (case sr_pending r of
        [] \<Rightarrow> None
      | rng # rest \<Rightarrow> do {
          res \<leftarrow> into_stream_result resp (lir_prev rng) (lir_last rng);
          Some (stream_response (Inr res) (r\<lparr>sr_pending := rest\<rparr>)) })"
| "stream_event limited (Fail err) r = Some (stream_response (Inl err) r)"

fun handle_response_stream ::
  "('s, 'd) log_read \<Rightarrow> 's net_event list \<Rightarrow> 'd stream_run \<Rightarrow> ((string + unit) \<times> 'd stream_run) panics" where
  "handle_response_stream limited [] r = Some (Inr (), r)"
| "handle_response_stream limited (ev # evs) r = do {
     (out, r') \<leftarrow> stream_event limited ev r;
     (case out of Inl e \<Rightarrow> Some (Inl e, r') | Inr _ \<Rightarrow> handle_response_stream limited evs r') }"

section \<open>The main loop\<close>

text \<open>
  One turn: \<open>recv\<close> is the event that \<^verbatim>\<open>drain_events\<close> would wait for, none when the runtime has closed
  the channel; \<open>net\<close> is what \<^verbatim>\<open>stream_append\<close> does, an error or the events of the stream. The result
  is whether the task goes on.
\<close>

definition turn_backoff :: "backoff \<Rightarrow> repl_core \<Rightarrow> repl_core" where
  "turn_backoff b c = (let c1 = c\<lparr>rp_inflight_id := None\<rparr> in
     if rp_backoff_rank c1 > 20 then enable_backoff b c1 else disable_backoff c1)"

fun turn_range :: "replicate \<Rightarrow> repl_core \<Rightarrow> log_id_range \<times> repl_core" where
  "turn_range (RepCommitted committed) c =
     (let c1 = c\<lparr>rp_state := (rp_state c)\<lparr>rst_local := (rst_local (rp_state c))\<lparr>rls_committed := committed\<rparr>\<rparr>\<rparr>
      in (LogIdRange (rp_remote_last c1) (rp_remote_last c1), c1))"
| "turn_range (RepData d) c = (rd_range d, c)"

definition turn_begin :: "replicate \<Rightarrow> repl_core \<Rightarrow> log_id_range \<times> repl_core" where
  "turn_begin action c =
     (let c1 = c\<lparr>rp_next_action := None, rp_inflight_id := replicate_inflight_id action\<rparr>;
          (rng, c2) = turn_range action c1
      in (rng, c2\<lparr>rp_stream := (rp_stream c2)\<lparr>ss_inflight_id := rp_inflight_id c2, ss_log_id_range := Some rng,
             ss_leader_committed := rls_committed (rst_local (rp_state c2))\<rparr>\<rparr>))"

text \<open>Whatever of the range the follower has not acknowledged is the next action.\<close>

definition turn_rest :: "log_id_range \<Rightarrow> repl_core \<Rightarrow> repl_core panics" where
  "turn_rest rng c = do {
     let rng1 = LogIdRange (rp_remote_last c) (lir_last rng);
     n \<leftarrow> log_id_range_len rng1;
     (if n > 0 then do { i \<leftarrow> rp_inflight_id c; Some (c\<lparr>rp_next_action := Some (replicate_logs rng1 i)\<rparr>) }
      else Some c) }"

definition repl_turn ::
  "('s, 'd) log_read \<Rightarrow> backoff \<Rightarrow> replicate option \<Rightarrow> rpc_error + 's net_event list \<Rightarrow> repl_core
    \<Rightarrow> (bool \<times> repl_core \<times> repl_effect list) panics" where
  "repl_turn limited b recv net c =
     (let c1 = turn_backoff b c in
      case (case rp_next_action c1 of Some a \<Rightarrow> Some a | None \<Rightarrow> recv) of
        None \<Rightarrow> Some (False, c1, [])
      | Some action \<Rightarrow>
          (let (rng, c2) = turn_begin action c1 in
           case net of
             Inl err \<Rightarrow>
               (let c3 = c2\<lparr>rp_backoff_rank := rp_backoff_rank c2 + rpc_backoff_rank err\<rparr>
                in Some (True, c3, send_progress_error err c3))
           | Inr evs \<Rightarrow> do {
               (out, r) \<leftarrow> handle_response_stream limited evs (new_stream c2);
               c3 \<leftarrow> (case out of Inr _ \<Rightarrow> turn_rest rng (sr_core r) | Inl _ \<Rightarrow> Some (sr_core r));
               Some (True, c3, sr_effects r) }))"

section \<open>The queue of requests in flight\<close>

text \<open>An acknowledgement takes the requests it covers off the front; the time is that of the newest of them.\<close>

lemma drain_acked_loop_spec:
  "drain_acked_loop m t q =
     (case last_opt (takeWhile (\<lambda>x. ia_last_log_id x \<le> m) q) of None \<Rightarrow> t | Some x \<Rightarrow> Some (ia_sending_time x),
      dropWhile (\<lambda>x. ia_last_log_id x \<le> m) q)"
  by (induction m t q rule: drain_acked_loop.induct) (auto simp: last_opt_def)

lemma drain_acked_spec:
  "drain_acked m q =
     (map_option ia_sending_time (last_opt (takeWhile (\<lambda>x. ia_last_log_id x \<le> m) q)),
      dropWhile (\<lambda>x. ia_last_log_id x \<le> m) q)"
  by (simp add: drain_acked_def drain_acked_loop_spec split: option.splits)

section \<open>The entries of a range\<close>

text \<open>\<open>es\<close> are the entries of the range: consecutive, and the last one is the last log id of the range.\<close>

definition range_entries :: "log_id_range \<Rightarrow> 'd log_entry list \<Rightarrow> bool" where
  "range_entries rng es \<longleftrightarrow> map e_index es = [next_index (lir_prev rng)..<next_index (lir_last rng)]
     \<and> (if es = [] then lir_prev rng = lir_last rng else Some (e_log_id (last es)) = lir_last rng)"

definition range_of :: "log_id_range \<Rightarrow> 'd log_entry list \<Rightarrow> 'd log_entry list" where
  "range_of rng log = entries_between (next_index (lir_prev rng)) (next_index (lir_last rng)) log"

lemma range_entries_le: "range_entries rng es \<Longrightarrow> next_index (lir_prev rng) \<le> next_index (lir_last rng)"
  unfolding range_entries_def by (metis linorder_not_le list.map_disc_iff nat_less_le order_refl upt_eq_Nil_conv)

lemma range_entries_length:
  "range_entries rng es \<Longrightarrow> length es = next_index (lir_last rng) - next_index (lir_prev rng)"
  by (auto simp: range_entries_def dest: arg_cong[where f = length])

lemma range_entries_nth:
  assumes "range_entries rng es" "i < length es"
  shows "e_index (es ! i) = next_index (lir_prev rng) + i"
proof -
  have "map e_index es ! i = [next_index (lir_prev rng)..<next_index (lir_last rng)] ! i"
    using assms(1) by (simp add: range_entries_def)
  then show ?thesis using assms range_entries_length[OF assms(1)] by simp
qed

text \<open>What a request of the first \<open>k\<close> entries leaves.\<close>

definition after_entries :: "log_id option \<Rightarrow> 'd log_entry list \<Rightarrow> log_id option" where
  "after_entries p es = (case last_opt es of Some e \<Rightarrow> Some (e_log_id e) | None \<Rightarrow> p)"

lemma range_entries_drop:
  assumes "range_entries (LogIdRange p l) es" "0 < k" "k \<le> length es"
  shows "range_entries (LogIdRange (after_entries p (take k es)) l) (drop k es)"
    and "next_index (after_entries p (take k es)) = next_index p + k"
proof -
  have "last (take k es) = es ! (k - 1)" using assms(2,3) by (intro last_take) auto
  moreover have "e_index (es ! (k - 1)) = next_index p + (k - 1)" using range_entries_nth[OF assms(1), of "k - 1"] assms by simp
  ultimately show n: "next_index (after_entries p (take k es)) = next_index p + k"
    using assms(2,3) by (auto simp: after_entries_def last_opt_def)
  have m: "map e_index (drop k es) = [next_index p + k..<next_index l]"
    using assms(1) by (simp add: range_entries_def drop_map[symmetric] drop_upt)
  show "range_entries (LogIdRange (after_entries p (take k es)) l) (drop k es)"
  proof (cases "k = length es")
    case True
    then have "after_entries p (take k es) = l"
      using assms by (auto simp: after_entries_def last_opt_def range_entries_def)
    then show ?thesis using True by (simp add: range_entries_def)
  next
    case False
    then have "k < length es" "es \<noteq> []" using assms(2,3) by auto
    then show ?thesis using assms(1) m n by (simp add: range_entries_def)
  qed
qed

lemma range_of_drop:
  assumes "range_entries (LogIdRange p l) es" "range_of (LogIdRange p l) log = es" "0 < k" "k \<le> length es"
  shows "range_of (LogIdRange (after_entries p (take k es)) l) log = drop k es"
proof -
  have "range_of (LogIdRange (after_entries p (take k es)) l) log
      = filter (\<lambda>e. next_index p + k \<le> e_index e) (range_of (LogIdRange p l) log)"
    unfolding range_of_def entries_between_def using range_entries_drop(2)[OF assms(1,3,4)] by (auto intro: filter_cong)
  also have "\<dots> = filter (\<lambda>e. next_index p + k \<le> e_index e) (take k es @ drop k es)" using assms(2) by simp
  also have "\<dots> = drop k es"
    unfolding filter_append
    using range_entries_nth[OF assms(1)] assms(4)
    by (subst filter_False, force simp: in_set_conv_nth, subst filter_True) (auto simp: in_set_conv_nth)
  finally show ?thesis .
qed

lemma entries_between_take:
  assumes "range_entries (LogIdRange p l) es" "range_of (LogIdRange p l) log = es"
  shows "entries_between (next_index p) (min (next_index l) (next_index p + m)) log = take m es"
proof -
  have "entries_between (next_index p) (min (next_index l) (next_index p + m)) log
      = filter (\<lambda>e. e_index e < next_index p + m) (take m es @ drop m es)"
    using assms(2) by (auto simp: range_of_def entries_between_def intro: filter_cong)
  also have "\<dots> = take m es"
    unfolding filter_append using range_entries_nth[OF assms(1)]
    by (subst filter_True, force simp: in_set_conv_nth, subst filter_False) (auto simp: in_set_conv_nth)
  finally show ?thesis .
qed

context log_reader
begin

lemma read_log_entries_spec:
  assumes "range_entries (LogIdRange p l) es" "range_of (LogIdRange p l) (entries s) = es" "inv s"
    "0 < m" "next_index l + m < 2 ^ 64"
  shows "\<exists>k. read_log_entries limited m s (LogIdRange p l) = Some (Inr (take k es, LogIdRange p (after_entries p (take k es))))
    \<and> k \<le> m \<and> k \<le> length es \<and> (es \<noteq> [] \<longrightarrow> 0 < k)"
proof (cases "es = []")
  case True
  then show ?thesis using assms(1) by (intro exI[of _ 0]) (auto simp: range_entries_def read_log_entries_def Let_def after_entries_def)
next
  case False
  let ?e = "min (next_index l) (next_index p + m)"
  have len: "length es = next_index l - next_index p" using range_entries_length[OF assms(1)] by simp
  then have lt: "next_index p < next_index l" using False by (cases "next_index p < next_index l") auto
  have seg: "entries_between (next_index p) ?e (entries s) = take m es" by (rule entries_between_take[OF assms(1,2)])
  then have "entries_between (next_index p) ?e (entries s) \<noteq> []" using False assms(4) by simp
  then obtain xs where xs: "limited (next_index p) ?e s = Some (Inr xs)" "xs \<noteq> []" "prefix xs (take m es)"
    using reads_some[OF assms(3), of "next_index p" ?e] lt assms(4) seg by auto
  obtain ys where ys: "take m es = xs @ ys" using xs(3) by (auto simp: prefix_def)
  then have "es = xs @ ys @ drop m es" by (metis append.assoc append_take_drop_id)
  then have "xs = take (length xs) es" by (metis append_eq_conv_conj)
  moreover have "length (take m es) = length xs + length ys" using ys by simp
  then have "length xs \<le> m" "length xs \<le> length es" by auto
  moreover have "read_log_entries limited m s (LogIdRange p l) = Some (Inr (xs, LogIdRange p (after_entries p xs)))"
  proof -
    have "length xs \<le> ?e - next_index p" using calculation(2,3) len by simp
    then show ?thesis
      using xs(1,2) lt assms(5)
      by (cases xs) (simp_all add: read_log_entries_def Let_def after_entries_def sub_panics_def ensure_def)
  qed
  ultimately show ?thesis using xs(2) by (intro exI[of _ "length xs"]) simp
qed

end

section \<open>The requests of a stream\<close>

text \<open>Every request continues where the one before it ends.\<close>

fun request_chain :: "log_id option \<Rightarrow> 'd append_rpc list \<Rightarrow> bool" where
  "request_chain p [] = True"
| "request_chain p (req # reqs) = (ar_prev_log_id req = p \<and> request_chain (req_last_log_id req) reqs)"

definition sent_entries :: "'d append_rpc list \<Rightarrow> 'd log_entry list" where
  "sent_entries reqs = concat (map ar_entries reqs)"

lemma after_entries_simps [simp]:
  "after_entries p [] = p" "after_entries p (es @ [e]) = Some (e_log_id e)"
  "after_entries (after_entries p es) fs = after_entries p (es @ fs)"
  by (auto simp: after_entries_def last_opt_def)

lemma req_last_after: "req_last_log_id req = after_entries (ar_prev_log_id req) (ar_entries req)"
  by (simp add: req_last_log_id_def after_entries_def)

lemma request_chain_append:
  "request_chain p (reqs @ [req]) \<longleftrightarrow> request_chain p reqs \<and> ar_prev_log_id req = after_entries p (sent_entries reqs)"
  by (induction reqs arbitrary: p) (auto simp: sent_entries_def req_last_after)

definition request_ok :: "nat \<Rightarrow> raft_vote \<Rightarrow> log_id option \<Rightarrow> log_id_range \<Rightarrow> 'd append_rpc \<Rightarrow> bool" where
  "request_ok m v lc rng req \<longleftrightarrow> length (ar_entries req) \<le> m \<and> ar_vote req = v \<and> ar_leader_commit req = lc
     \<and> (lir_prev rng \<noteq> lir_last rng \<longrightarrow> ar_entries req \<noteq> [])
     \<and> next_index (lir_prev rng) \<le> next_index (ar_prev_log_id req)
     \<and> next_index (ar_prev_log_id req) \<le> next_index (req_last_log_id req)
     \<and> next_index (req_last_log_id req) \<le> next_index (lir_last rng)"

text \<open>What holds of a stream of the entries \<open>es\<close> of the range from \<open>p\<close> to \<open>l\<close>, at any time.\<close>

definition stream_inv :: "replication_context \<Rightarrow> log_id option \<Rightarrow> 'd log_entry list \<Rightarrow> log_id option \<Rightarrow> log_id option
    \<Rightarrow> 'd stream_run \<Rightarrow> bool" where
  "stream_inv cx lc es p l r \<longleftrightarrow>
     ss_context (rp_stream (sr_core r)) = cx \<and> ss_leader_committed (rp_stream (sr_core r)) = lc
     \<and> request_chain p (sr_sent r)
     \<and> (\<forall>req \<in> set (sr_sent r). request_ok (cf_max_payload_entries (rx_config cx))
          (cv_into_vote (rsi_leader_vote (rx_session_id cx))) lc (LogIdRange p l) req)
     \<and> set (sr_pending r) \<subseteq> req_log_id_range ` set (sr_sent r)
     \<and> (case ss_log_id_range (rp_stream (sr_core r)) of
          None \<Rightarrow> sent_entries (sr_sent r) = es \<and> sr_sent r \<noteq> []
        | Some rng \<Rightarrow> \<not> sr_done r \<and> rng = LogIdRange (after_entries p (sent_entries (sr_sent r))) l
            \<and> (\<exists>rest. es = sent_entries (sr_sent r) @ rest \<and> range_entries rng rest \<and> (sr_sent r \<noteq> [] \<longrightarrow> rest \<noteq> [])))"

lemma handle_response_frame: "handle_response res c q = (out, c', q', effs) \<Longrightarrow>
    rp_stream c' = rp_stream c \<and> rp_inflight_id c' = rp_inflight_id c \<and> rp_next_action c' = rp_next_action c
    \<and> rst_local (rp_state c') = rst_local (rp_state c)
    \<and> rp_remote_last c' = (case res of Inr (Inr m) \<Rightarrow> m | _ \<Rightarrow> rp_remote_last c)
    \<and> (case res of Inr (Inr m) \<Rightarrow> out = Inr () | _ \<Rightarrow> \<exists>e. out = Inl e)"
  by (induction res c q rule: handle_response.induct)
    (auto simp: Let_def notify_progress_def set_remote_last_def split: prod.splits option.splits if_splits)

lemma stream_response_frame:
  assumes "stream_response res r = (out, r')"
  shows "rp_stream (sr_core r') = rp_stream (sr_core r)" "sr_sent r' = sr_sent r" "sr_pending r' = sr_pending r"
    "sr_done r' = sr_done r" "rp_inflight_id (sr_core r') = rp_inflight_id (sr_core r)"
    "rp_next_action (sr_core r') = rp_next_action (sr_core r)"
    "rp_remote_last (sr_core r') = (case res of Inr (Inr m) \<Rightarrow> m | _ \<Rightarrow> rp_remote_last (sr_core r))"
    "case res of Inr (Inr m) \<Rightarrow> out = Inr () | _ \<Rightarrow> \<exists>e. out = Inl e"
  using assms by (auto simp: stream_response_def split: prod.splits dest!: handle_response_frame)

lemma stream_inv_response: "stream_inv cx lc es p l r \<Longrightarrow> stream_response res r = (out, r') \<Longrightarrow> stream_inv cx lc es p l r'"
  by (simp add: stream_inv_def stream_response_frame cong: option.case_cong)

lemma stream_inv_pending: "stream_inv cx lc es p l r \<Longrightarrow> sr_pending r = x # rest \<Longrightarrow> stream_inv cx lc es p l (r\<lparr>sr_pending := rest\<rparr>)"
  by (simp add: stream_inv_def split: option.splits)

lemma stream_inv_new:
  assumes "range_entries (LogIdRange p l) es" "ss_log_id_range (rp_stream c) = Some (LogIdRange p l)"
  shows "stream_inv (ss_context (rp_stream c)) (ss_leader_committed (rp_stream c)) es p l (new_stream c)"
  using assms by (simp add: stream_inv_def new_stream_def sent_entries_def)

text \<open>A pull of a request, while the store keeps the entries of the range.\<close>

lemma backoff_if_enabled_frame:
  assumes "backoff_if_enabled ss = (ss', effs)"
  shows "ss_context ss' = ss_context ss" "ss_leader_committed ss' = ss_leader_committed ss"
    "ss_log_id_range ss' = ss_log_id_range ss" "ss_inflight_id ss' = ss_inflight_id ss" "set effs \<subseteq> range RSleep"
  using assms by (auto simp: backoff_if_enabled_def split: option.splits prod.splits)

context log_reader
begin

lemma next_request_spec:
  fixes ss :: stream_state
  defines "m \<equiv> cf_max_payload_entries (rx_config (ss_context ss))"
  assumes "ss_log_id_range ss = Some (LogIdRange p l)" "range_entries (LogIdRange p l) es"
    "range_of (LogIdRange p l) (entries s) = es" "inv s" "0 < m" "next_index l + m < 2 ^ 64"
  shows "\<exists>k ss' effs. next_request limited s ss = Some (Some \<lparr>ar_vote = cv_into_vote (rsi_leader_vote (rx_session_id (ss_context ss))),
        ar_prev_log_id = p, ar_entries = take k es, ar_leader_commit = ss_leader_committed ss\<rparr>, ss', effs)
    \<and> k \<le> m \<and> k \<le> length es \<and> (es \<noteq> [] \<longrightarrow> 0 < k)
    \<and> ss_context ss' = ss_context ss \<and> ss_leader_committed ss' = ss_leader_committed ss \<and> set effs \<subseteq> range RSleep
    \<and> ss_log_id_range ss' = (if drop k es = [] then None else Some (LogIdRange (after_entries p (take k es)) l))"
proof -
  obtain k where k: "read_log_entries limited m s (LogIdRange p l) = Some (Inr (take k es, LogIdRange p (after_entries p (take k es))))"
    "k \<le> m" "k \<le> length es" "es \<noteq> [] \<longrightarrow> 0 < k"
    using read_log_entries_spec[OF assms(3-7)] by blast
  let ?p = "after_entries p (take k es)"
  have r: "range_entries (LogIdRange ?p l) (drop k es)"
  proof (cases "k = 0")
    case True
    then show ?thesis using assms(3) by simp
  qed (use range_entries_drop(1)[OF assms(3)] k(3) in simp)
  have "next_index l - next_index ?p = length (drop k es)" "next_index ?p \<le> next_index l"
    using range_entries_length[OF r] range_entries_le[OF r] by simp_all
  then have u: "update_log_id_range ?p ss
      = Some (ss\<lparr>ss_log_id_range := if drop k es = [] then None else Some (LogIdRange ?p l)\<rparr>)"
    using assms(2) by (simp add: update_log_id_range_def log_id_range_len_def sub_panics_def Let_def)
  obtain ss' effs where b: "backoff_if_enabled (ss\<lparr>ss_log_id_range := if drop k es = [] then None else Some (LogIdRange ?p l)\<rparr>) = (ss', effs)"
    by force
  note bf = backoff_if_enabled_frame[OF b]
  show ?thesis
    using assms(2) k u b bf
    by (intro exI[of _ k] exI[of _ ss'] exI[of _ effs]) (simp add: next_request_def m_def Let_def)
qed

lemma next_append_request_spec:
  assumes ri: "stream_inv cx lc es p l r" and nd: "\<not> sr_done r"
    and st: "range_of (LogIdRange p l) (entries s) = es" "inv s" and es: "range_entries (LogIdRange p l) es"
    and m: "0 < cf_max_payload_entries (rx_config cx)" "next_index l + cf_max_payload_entries (rx_config cx) < 2 ^ 64"
  shows "\<exists>r'. next_append_request limited now s r = Some r' \<and> stream_inv cx lc es p l r'
    \<and> (\<exists>effs. set effs \<subseteq> range RSleep \<and> sr_effects r' = sr_effects r @ effs)
    \<and> sr_core r' = (sr_core r)\<lparr>rp_stream := rp_stream (sr_core r')\<rparr>
    \<and> (if ss_log_id_range (rp_stream (sr_core r)) = None
       then sr_done r' \<and> sr_sent r' = sr_sent r \<and> sr_pending r' = sr_pending r \<and> sr_queue r' = sr_queue r
       else \<not> sr_done r' \<and> (\<exists>req. sr_sent r' = sr_sent r @ [req] \<and> sr_pending r' = sr_pending r @ [req_log_id_range req]
            \<and> sr_queue r' = inflight_push now (req_last_log_id req) (sr_queue r)))"
proof (cases "ss_log_id_range (rp_stream (sr_core r))")
  case None
  then show ?thesis
    using ri nd by (simp add: next_append_request_def next_request_def stream_inv_def)
next
  case (Some rng)
  let ?S = "sent_entries (sr_sent r)" and ?ss = "rp_stream (sr_core r)"
  let ?q = "after_entries p ?S"
  obtain rest where rest: "rng = LogIdRange ?q l" "es = ?S @ rest" "range_entries rng rest" "sr_sent r \<noteq> [] \<longrightarrow> rest \<noteq> []"
    and cx: "ss_context ?ss = cx" "ss_leader_committed ?ss = lc" and ch: "request_chain p (sr_sent r)"
    and ok: "\<forall>req \<in> set (sr_sent r). request_ok (cf_max_payload_entries (rx_config cx))
          (cv_into_vote (rsi_leader_vote (rx_session_id cx))) lc (LogIdRange p l) req"
    and pe: "set (sr_pending r) \<subseteq> req_log_id_range ` set (sr_sent r)"
    using ri Some by (auto simp: stream_inv_def)
  have ro: "range_of (LogIdRange ?q l) (entries s) = rest"
  proof (cases "?S = []")
    case False
    then show ?thesis using range_of_drop[OF es st(1), of "length ?S"] rest(2) by simp
  qed (use st rest(2) in simp)
  obtain k ss' effs where k: "next_request limited s ?ss = Some (Some \<lparr>ar_vote = cv_into_vote (rsi_leader_vote (rx_session_id cx)),
        ar_prev_log_id = ?q, ar_entries = take k rest, ar_leader_commit = lc\<rparr>, ss', effs)"
    "k \<le> cf_max_payload_entries (rx_config cx)" "k \<le> length rest" "rest \<noteq> [] \<longrightarrow> 0 < k"
    "ss_context ss' = cx" "ss_leader_committed ss' = lc" "set effs \<subseteq> range RSleep"
    "ss_log_id_range ss' = (if drop k rest = [] then None else Some (LogIdRange (after_entries ?q (take k rest)) l))"
    using next_request_spec[of ?ss ?q l rest s] Some rest(1,3) ro st(2) m unfolding cx by blast
  define req :: "'a append_rpc" where "req = \<lparr>ar_vote = cv_into_vote (rsi_leader_vote (rx_session_id cx)),
        ar_prev_log_id = ?q, ar_entries = take k rest, ar_leader_commit = lc\<rparr>"
  define r' where "r' = r\<lparr>sr_core := (sr_core r)\<lparr>rp_stream := ss'\<rparr>, sr_effects := sr_effects r @ effs,
    sr_queue := inflight_push now (req_last_log_id req) (sr_queue r),
    sr_pending := sr_pending r @ [req_log_id_range req], sr_sent := sr_sent r @ [req]\<rparr>"
  have step: "next_append_request limited now s r = Some r'"
    using k(1) nd by (simp add: next_append_request_def r'_def req_def)
  have s': "sent_entries (sr_sent r @ [req]) = ?S @ take k rest" by (simp add: sent_entries_def req_def)
  have re: "range_entries (LogIdRange ?q l) rest" using rest(1,3) by simp
  have rd: "range_entries (LogIdRange (after_entries ?q (take k rest)) l) (drop k rest)"
    "next_index (after_entries ?q (take k rest)) = next_index ?q + k"
    using range_entries_drop[OF re, of k] k(3,4) re by (cases "k = 0"; simp)+
  have pq: "next_index p \<le> next_index ?q"
  proof (cases "?S = []")
    case False
    then show ?thesis using range_entries_drop(2)[OF es, of "length ?S"] rest(2) by simp
  qed simp
  have "p \<noteq> l \<Longrightarrow> rest \<noteq> []"
    using rest es by (cases "sr_sent r = []") (auto simp: sent_entries_def range_entries_def)
  then have okr: "request_ok (cf_max_payload_entries (rx_config cx))
          (cv_into_vote (rsi_leader_vote (rx_session_id cx))) lc (LogIdRange p l) req"
    using k(2-4) rd pq range_entries_le[OF rd(1)] by (auto simp: request_ok_def req_def req_last_after)
  have cat: "es = (?S @ take k rest) @ drop k rest" using rest(2) by simp
  have "stream_inv cx lc es p l r'"
  proof (cases "drop k rest = []")
    case True
    then show ?thesis
      unfolding stream_inv_def using ch ok okr pe k(5,6,8) rest(2) s'
      by (auto simp: r'_def request_chain_append req_def[THEN arg_cong[where f = ar_prev_log_id]])
  next
    case False
    then have "\<exists>resta. es = (?S @ take k rest) @ resta \<and> range_entries (LogIdRange (after_entries p (?S @ take k rest)) l) resta
        \<and> resta \<noteq> []"
      using cat rd(1) by (intro exI[of _ "drop k rest"]) simp
    then show ?thesis
      unfolding stream_inv_def using False ch ok okr pe k(5,6,8) nd s'
      by (auto simp: r'_def request_chain_append req_def[THEN arg_cong[where f = ar_prev_log_id]] simp del: append_assoc)
  qed
  then show ?thesis using step Some nd k(7) by (auto simp: r'_def)
qed

end

section \<open>Streams of a network that keeps its contract\<close>

text \<open>
  A network answers the requests it has pulled, in their order, with what a follower may answer: a
  partial success lies within the request, a conflict has a previous log id.
\<close>

fun answer_within :: "log_id_range \<Rightarrow> append_entries_response \<Rightarrow> bool" where
  "answer_within rng AppendSuccess = True"
| "answer_within rng (PartialSuccess m) = (next_index (lir_prev rng) \<le> next_index m \<and> next_index m \<le> next_index (lir_last rng))"
| "answer_within rng Conflict = (lir_prev rng \<noteq> None)"
| "answer_within rng (HigherVote v) = True"

fun event_allowed :: "'s net_event \<Rightarrow> 'd stream_run \<Rightarrow> bool" where
  "event_allowed (Pull now s) r = (\<not> sr_done r)"
| "event_allowed (Answer resp) r = (case sr_pending r of [] \<Rightarrow> False | rng # _ \<Rightarrow> answer_within rng resp)"
| "event_allowed (Fail err) r = True"

fun network_keeps :: "('s, 'd) log_read \<Rightarrow> 's net_event list \<Rightarrow> 'd stream_run \<Rightarrow> bool" where
  "network_keeps limited [] r = True"
| "network_keeps limited (ev # evs) r = (event_allowed ev r \<and>
     (case stream_event limited ev r of Some (Inr _, r') \<Rightarrow> network_keeps limited evs r' | _ \<Rightarrow> True))"

text \<open>What a stream reports: progress and heartbeats of its session, a higher vote, the waits of a backoff.\<close>

fun reports :: "repl_core \<Rightarrow> repl_effect \<Rightarrow> bool" where
  "reports c (RSleep t) = True"
| "reports c (RNotify (NReplicationProgress session target res i)) =
     (session = rp_session c \<and> target = rp_target c \<and> i = rp_inflight_id c)"
| "reports c (RNotify (NHeartbeatProgress session t target)) = (session = rp_session c \<and> target = rp_target c)"
| "reports c (RNotify (NHigherVote target v leader_vote)) = (target = rp_target c \<and> leader_vote = rsi_leader_vote (rp_session c))"
| "reports c (RNotify (NVoteResponse target resp v)) = False"
| "reports c (RNotify (NStorageError err)) = False"
| "reports c (RNotify (NLocalIO i)) = False"
| "reports c (RNotify (NStateMachine res)) = False"
| "reports c (RNotify (NTick i)) = False"

lemma handle_response_reports:
  assumes "handle_response res c q = (out, c', q', effs)" "e \<in> set effs"
  shows "reports c e"
  using assms
  by (induction res c q rule: handle_response.induct)
    (auto simp: Let_def notify_progress_def send_progress_error_def notify_heartbeat_progress_def set_remote_last_def
      split: prod.splits option.splits if_splits)

definition same_task :: "repl_core \<Rightarrow> repl_core \<Rightarrow> bool" where
  "same_task c c' \<longleftrightarrow> ss_context (rp_stream c') = ss_context (rp_stream c) \<and> rp_inflight_id c' = rp_inflight_id c
     \<and> rp_next_action c' = rp_next_action c"

lemma reports_same: "same_task c c' \<Longrightarrow> reports c' e = reports c e"
  by (induction c e rule: reports.induct) (auto simp: same_task_def)

lemma stream_response_step:
  assumes "stream_response res r = (out, r')"
  shows "same_task (sr_core r) (sr_core r') \<and> (\<exists>effs. sr_effects r' = sr_effects r @ effs \<and> (\<forall>e \<in> set effs. reports (sr_core r) e))"
proof -
  obtain c q effs where h: "handle_response res (sr_core r) (sr_queue r) = (out, c, q, effs)"
    "r' = r\<lparr>sr_core := c, sr_queue := q, sr_effects := sr_effects r @ effs\<rparr>"
    using assms by (auto simp: stream_response_def split: prod.splits)
  then show ?thesis
    using handle_response_frame[OF h(1)] handle_response_reports[OF h(1)] by (simp add: same_task_def)
qed

text \<open>The store keeps the entries \<open>es\<close> of the range at every pull.\<close>

definition pulls_keep :: "('s \<Rightarrow> 'd log_entry list) \<Rightarrow> ('s \<Rightarrow> bool) \<Rightarrow> log_id_range \<Rightarrow> 'd log_entry list \<Rightarrow> 's net_event list \<Rightarrow> bool" where
  "pulls_keep entries I rng es evs \<longleftrightarrow> (\<forall>now s. Pull now s \<in> set evs \<longrightarrow> I s \<and> range_of rng (entries s) = es)"

context log_reader
begin

lemma stream_event_step:
  assumes ri: "stream_inv cx lc es p l r" and al: "event_allowed ev r" and pk: "pulls_keep entries inv (LogIdRange p l) es [ev]"
    and es: "range_entries (LogIdRange p l) es"
    and m: "0 < cf_max_payload_entries (rx_config cx)" "next_index l + cf_max_payload_entries (rx_config cx) < 2 ^ 64"
    and rl: "next_index (rp_remote_last (sr_core r)) \<in> {lb..next_index l}" and lb: "lb \<le> next_index p"
  shows "\<exists>out r'. stream_event limited ev r = Some (out, r') \<and> stream_inv cx lc es p l r'
    \<and> next_index (rp_remote_last (sr_core r')) \<in> {lb..next_index l} \<and> same_task (sr_core r) (sr_core r')
    \<and> (\<exists>effs. sr_effects r' = sr_effects r @ effs \<and> (\<forall>e \<in> set effs. reports (sr_core r) e))"
proof (cases ev)
  case (Pull now s)
  have st: "range_of (LogIdRange p l) (entries s) = es" "inv s" using pk Pull by (auto simp: pulls_keep_def)
  obtain r' where r': "next_append_request limited now s r = Some r'" "stream_inv cx lc es p l r'"
    "\<exists>effs. set effs \<subseteq> range RSleep \<and> sr_effects r' = sr_effects r @ effs"
    "sr_core r' = (sr_core r)\<lparr>rp_stream := rp_stream (sr_core r')\<rparr>"
    using next_append_request_spec[OF ri _ st es m] al Pull by fastforce
  have "rp_state (sr_core r') = rp_state (sr_core r)" "rp_inflight_id (sr_core r') = rp_inflight_id (sr_core r)"
    "rp_next_action (sr_core r') = rp_next_action (sr_core r)"
    by (subst r'(4), simp)+
  then have "same_task (sr_core r) (sr_core r')" "rp_remote_last (sr_core r') = rp_remote_last (sr_core r)"
    using ri r'(2) by (simp_all add: same_task_def stream_inv_def)
  then show ?thesis using r'(1-3) rl Pull by (fastforce simp: subset_iff image_iff)
next
  case (Answer resp)
  then obtain rng rest where pe: "sr_pending r = rng # rest" "answer_within rng resp"
    using al by (auto split: list.splits)
  then obtain req where req: "req \<in> set (sr_sent r)" "rng = req_log_id_range req"
    using ri by (auto simp: stream_inv_def)
  have le: "next_index (lir_last rng) \<le> next_index l" "lb \<le> next_index (lir_prev rng)"
    "next_index (lir_prev rng) \<le> next_index (lir_last rng)"
    using ri req lb by (auto simp: stream_inv_def request_ok_def req_log_id_range_def intro: order_trans)
  obtain res where res: "into_stream_result resp (lir_prev rng) (lir_last rng) = Some res"
    using pe(2) by (cases resp) auto
  have mt: "next_index mt \<in> {lb..next_index l}" if "res = Inr mt" for mt
    using res that pe(2) le by (cases resp) (auto simp: bind_eq_Some_conv)
  let ?r = "r\<lparr>sr_pending := rest\<rparr>"
  obtain out r' where o: "stream_response (Inr res) ?r = (out, r')" by force
  have "stream_inv cx lc es p l r'" using stream_inv_response[OF stream_inv_pending[OF ri pe(1)] o] .
  moreover have "next_index (rp_remote_last (sr_core r')) \<in> {lb..next_index l}"
    using mt rl stream_response_frame(7)[OF o] by (cases res) auto
  ultimately show ?thesis using stream_response_step[OF o] Answer pe(1) res o by auto
next
  case (Fail err)
  obtain out r' where o: "stream_response (Inl err) r = (out, r')" by force
  then show ?thesis
    using stream_response_step[OF o] stream_inv_response[OF ri o] stream_response_frame(7)[OF o] rl Fail by auto
qed

lemma handle_response_stream_runs:
  assumes "stream_inv cx lc es p l r" "network_keeps limited evs r" "pulls_keep entries inv (LogIdRange p l) es evs"
    "range_entries (LogIdRange p l) es"
    "0 < cf_max_payload_entries (rx_config cx)" "next_index l + cf_max_payload_entries (rx_config cx) < 2 ^ 64"
    "next_index (rp_remote_last (sr_core r)) \<in> {lb..next_index l}" "lb \<le> next_index p"
  shows "\<exists>out r'. handle_response_stream limited evs r = Some (out, r') \<and> stream_inv cx lc es p l r'
    \<and> next_index (rp_remote_last (sr_core r')) \<in> {lb..next_index l} \<and> same_task (sr_core r) (sr_core r')
    \<and> (\<exists>effs. sr_effects r' = sr_effects r @ effs \<and> (\<forall>e \<in> set effs. reports (sr_core r) e))"
  using assms(1-3,7)
proof (induction evs arbitrary: r)
  case Nil
  then show ?case by (simp add: same_task_def)
next
  case (Cons ev evs)
  have al: "event_allowed ev r" and pk: "pulls_keep entries inv (LogIdRange p l) es [ev]" "pulls_keep entries inv (LogIdRange p l) es evs"
    using Cons.prems(2,3) by (auto simp: pulls_keep_def)
  obtain out r1 effs where s: "stream_event limited ev r = Some (out, r1)" "stream_inv cx lc es p l r1"
    "next_index (rp_remote_last (sr_core r1)) \<in> {lb..next_index l}" "same_task (sr_core r) (sr_core r1)"
    "sr_effects r1 = sr_effects r @ effs" "\<forall>e \<in> set effs. reports (sr_core r) e"
    using stream_event_step[OF Cons.prems(1) al pk(1) assms(4-6) Cons.prems(4) assms(8)] by auto
  show ?case
  proof (cases out)
    case (Inl e)
    then show ?thesis using s by auto
  next
    case (Inr u)
    then have "network_keeps limited evs r1" using Cons.prems(2) s(1) by simp
    then obtain out2 r2 effs2 where t: "handle_response_stream limited evs r1 = Some (out2, r2)" "stream_inv cx lc es p l r2"
      "next_index (rp_remote_last (sr_core r2)) \<in> {lb..next_index l}" "same_task (sr_core r1) (sr_core r2)"
      "sr_effects r2 = sr_effects r1 @ effs2" "\<forall>e \<in> set effs2. reports (sr_core r1) e"
      using Cons.IH[OF s(2) _ pk(2) s(3)] by blast
    have "same_task (sr_core r) (sr_core r2)" using s(4) t(4) by (simp add: same_task_def)
    moreover have "\<forall>e \<in> set (effs @ effs2). reports (sr_core r) e"
      using s(6) t(6) reports_same[OF s(4)] by auto
    ultimately show ?thesis using s t Inr by auto
  qed
qed

end

section \<open>Turns of the main loop\<close>

lemma turn_begin_frame:
  assumes "turn_begin action c = (rng, c')"
  shows "ss_context (rp_stream c') = ss_context (rp_stream c)" "ss_log_id_range (rp_stream c') = Some rng"
    "rp_inflight_id c' = replicate_inflight_id action" "rp_next_action c' = None"
    "rp_remote_last c' = rp_remote_last c" "ss_backoff (rp_stream c') = ss_backoff (rp_stream c)"
    "rng = (case action of RepCommitted m \<Rightarrow> LogIdRange (rp_remote_last c) (rp_remote_last c) | RepData d \<Rightarrow> rd_range d)"
    "ss_leader_committed (rp_stream c') =
       (case action of RepCommitted m \<Rightarrow> m | RepData d \<Rightarrow> rls_committed (rst_local (rp_state c)))"
  using assms by (cases action; auto simp: turn_begin_def Let_def)+

lemma turn_backoff_frame [simp]:
  "ss_context (rp_stream (turn_backoff b c)) = ss_context (rp_stream c)" "rp_next_action (turn_backoff b c) = rp_next_action c"
  "rp_state (turn_backoff b c) = rp_state c"
  by (simp_all add: turn_backoff_def Let_def enable_backoff_def disable_backoff_def)

text \<open>What a turn for an action starts its stream with.\<close>

definition turn_start :: "backoff \<Rightarrow> replicate \<Rightarrow> repl_core \<Rightarrow> repl_core" where
  "turn_start b action c = snd (turn_begin action (turn_backoff b c))"

definition turn_range_of :: "replicate \<Rightarrow> repl_core \<Rightarrow> log_id_range" where
  "turn_range_of action c =
     (case action of RepCommitted m \<Rightarrow> LogIdRange (rp_remote_last c) (rp_remote_last c) | RepData d \<Rightarrow> rd_range d)"

lemma turn_begin_start: "turn_begin action (turn_backoff b c) = (turn_range_of action c, turn_start b action c)"
  by (cases "turn_begin action (turn_backoff b c)")
    (auto simp: turn_start_def turn_range_of_def dest: turn_begin_frame(7) split: replicate.splits)

lemmas turn_start_frame = turn_begin_frame[OF turn_begin_start]

context log_reader
begin

lemma repl_turn_safe:
  fixes c :: repl_core
  defines "m \<equiv> cf_max_payload_entries (rx_config (ss_context (rp_stream c)))"
  assumes na: "rp_next_action c = None" and rng: "turn_range_of action c = LogIdRange p l"
    and es: "range_entries (LogIdRange p l) es"
    and rl: "next_index (rp_remote_last c) \<le> next_index l" and m: "0 < m" "next_index l + m < 2 ^ 64"
    and net: "network_keeps limited evs (new_stream (turn_start b action c))" "pulls_keep entries inv (LogIdRange p l) es evs"
  shows "\<exists>out r c'. handle_response_stream limited evs (new_stream (turn_start b action c)) = Some (out, r)
    \<and> stream_inv (ss_context (rp_stream c)) (ss_leader_committed (rp_stream (turn_start b action c))) es p l r
    \<and> repl_turn limited b (Some action) (Inr evs) c = Some (True, c', sr_effects r)
    \<and> rp_remote_last c' = rp_remote_last (sr_core r) \<and> next_index (rp_remote_last c') \<le> next_index l
    \<and> (\<forall>e \<in> set (sr_effects r). reports (turn_start b action c) e)
    \<and> rp_next_action c' = (if (\<exists>e. out = Inl e) \<or> next_index (rp_remote_last c') = next_index l then None
         else map_option (replicate_logs (LogIdRange (rp_remote_last c') l)) (replicate_inflight_id action))"
proof -
  define s where "s = turn_start b action c"
  note fr = turn_start_frame[where b = b and action = action and c = c, simplified, folded s_def]
  define lb where "lb = min (next_index p) (next_index (rp_remote_last c))"
  have "stream_inv (ss_context (rp_stream c)) (ss_leader_committed (rp_stream s)) es p l (new_stream s)"
    using stream_inv_new[OF es, of s] fr(1,2) rng by simp
  moreover have "next_index (rp_remote_last (sr_core (new_stream s))) \<in> {lb..next_index l}" "lb \<le> next_index p"
    using rl fr(5) by (simp_all add: new_stream_def lb_def)
  ultimately obtain out r where r: "handle_response_stream limited evs (new_stream s) = Some (out, r)"
    "stream_inv (ss_context (rp_stream c)) (ss_leader_committed (rp_stream s)) es p l r"
    "next_index (rp_remote_last (sr_core r)) \<in> {lb..next_index l}" "same_task s (sr_core r)"
    "\<forall>e \<in> set (sr_effects r). reports s e"
    using handle_response_stream_runs[OF _ net[folded s_def] es m[unfolded m_def]] by (force simp: new_stream_def)
  have turn: "repl_turn limited b (Some action) (Inr evs) c = (do {
      c3 \<leftarrow> (case out of Inr _ \<Rightarrow> turn_rest (LogIdRange p l) (sr_core r) | Inl _ \<Rightarrow> Some (sr_core r));
      Some (True, c3, sr_effects r) })"
    using na r(1) rng turn_begin_start[of action b c] by (simp add: repl_turn_def Let_def s_def)
  have inf: "rp_inflight_id (sr_core r) = replicate_inflight_id action" "rp_next_action (sr_core r) = None"
    using r(4) fr(3,4) by (simp_all add: same_task_def)
  have heartbeat: "next_index (rp_remote_last (sr_core r)) = next_index l" if "replicate_inflight_id action = None"
    using that r(3) rng by (cases action) (auto simp: turn_range_of_def lb_def)
  have "(case out of Inr _ \<Rightarrow> turn_rest (LogIdRange p l) (sr_core r) | Inl _ \<Rightarrow> Some (sr_core r))
      = Some (if (\<exists>e. out = Inl e) \<or> next_index (rp_remote_last (sr_core r)) = next_index l then sr_core r
         else (sr_core r)\<lparr>rp_next_action := map_option (replicate_logs (LogIdRange (rp_remote_last (sr_core r)) l))
           (replicate_inflight_id action)\<rparr>)"
    using r(3) inf heartbeat
    by (cases out; cases "replicate_inflight_id action")
      (auto simp: turn_rest_def Let_def log_id_range_len_def sub_panics_def)
  then show ?thesis using r turn inf unfolding s_def[symmetric] by auto
qed

end

section \<open>The default network\<close>

text \<open>
  The default of \<^verbatim>\<open>stream_append\<close> in \<^verbatim>\<open>network/v2/network.rs\<close>: it pulls a request, sends it with
  \<^verbatim>\<open>append_entries\<close> and waits for the answer before it pulls the next one. \<open>ae\<close> is \<^verbatim>\<open>append_entries\<close>
  over the state of the other side; \<open>env\<close> are the time and the store at the successive pulls. The
  result is the sequence of its events.
\<close>

fun default_stream_append ::
  "('s, 'd) log_read \<Rightarrow> ('d append_rpc \<Rightarrow> 'n \<Rightarrow> (rpc_error + append_entries_response) \<times> 'n) \<Rightarrow> (nat \<times> 's) list
    \<Rightarrow> 'd stream_run \<Rightarrow> 'n \<Rightarrow> ('s net_event list \<times> 'n) panics" where
  "default_stream_append limited ae [] r n = None"
| "default_stream_append limited ae ((now, s) # env) r n = do {
     (_, r1) \<leftarrow> stream_event limited (Pull now s) r;
     (if sr_done r1 then Some ([Pull now s], n)
      else case ae (last (sr_sent r1)) n of
          (Inl err, n1) \<Rightarrow> Some ([Pull now s, Fail err], n1)
        | (Inr resp, n1) \<Rightarrow> do {
            (out, r2) \<leftarrow> stream_event limited (Answer resp) r1;
            (case out of
               Inl e \<Rightarrow> Some ([Pull now s, Answer resp], n1)
             | Inr _ \<Rightarrow> do {
                 (evs, n2) \<leftarrow> default_stream_append limited ae env r2 n1;
                 Some (Pull now s # Answer resp # evs, n2) }) }) }"

lemma stream_response_ok:
  "stream_response (Inr (Inr m)) r = (Inr (), r') \<Longrightarrow> rp_backoff_rank (sr_core r') = 0"
  by (auto simp: stream_response_def Let_def notify_progress_def set_remote_last_def split: prod.splits option.splits if_splits)

text \<open>
  A node that accepts what it is sent: it answers the requests of a stream of \<open>es\<close> with success, and
  what it has become after the requests \<open>reqs\<close> is \<open>Q reqs\<close>.
\<close>

definition accepts_stream ::
  "('d append_rpc \<Rightarrow> 'n \<Rightarrow> (rpc_error + append_entries_response) \<times> 'n) \<Rightarrow> raft_vote \<Rightarrow> log_id option \<Rightarrow> log_id option
    \<Rightarrow> 'd log_entry list \<Rightarrow> ('d append_rpc list \<Rightarrow> 'n \<Rightarrow> bool) \<Rightarrow> bool" where
  "accepts_stream ae v lc p es Q \<longleftrightarrow> (\<forall>reqs req n. Q reqs n \<and> request_chain p (reqs @ [req]) \<and> prefix (sent_entries (reqs @ [req])) es
     \<and> ar_vote req = v \<and> ar_leader_commit req = lc
     \<longrightarrow> fst (ae req n) = Inr AppendSuccess \<and> Q (reqs @ [req]) (snd (ae req n)))"

text \<open>How many pulls are enough: one for every entry left, and one that finds the end.\<close>

definition pulls_left :: "'d log_entry list \<Rightarrow> 'd stream_run \<Rightarrow> nat" where
  "pulls_left es r = length es - length (sent_entries (sr_sent r))
     + (if es = [] \<and> ss_log_id_range (rp_stream (sr_core r)) \<noteq> None then 2 else 1)"

context log_reader
begin

lemma default_stream_success:
  assumes es: "range_entries (LogIdRange p l) es"
    and m: "0 < cf_max_payload_entries (rx_config cx)" "next_index l + cf_max_payload_entries (rx_config cx) < 2 ^ 64"
    and env: "\<forall>(now, s) \<in> set env. inv s \<and> range_of (LogIdRange p l) (entries s) = es"
    and node: "accepts_stream ae (cv_into_vote (rsi_leader_vote (rx_session_id cx))) lc p es Q"
    and "stream_inv cx lc es p l r" "\<not> sr_done r" "sr_pending r = []" "Q (sr_sent r) n" "pulls_left es r \<le> length env"
    "sr_sent r \<noteq> [] \<longrightarrow> rp_remote_last (sr_core r) = after_entries p (sent_entries (sr_sent r)) \<and> rp_backoff_rank (sr_core r) = 0"
  shows "\<exists>evs n' r'. default_stream_append limited ae env r n = Some (evs, n')
    \<and> network_keeps limited evs r \<and> pulls_keep entries inv (LogIdRange p l) es evs
    \<and> handle_response_stream limited evs r = Some (Inr (), r') \<and> sr_done r' \<and> Q (sr_sent r') n'
    \<and> stream_inv cx lc es p l r' \<and> rp_remote_last (sr_core r') = l \<and> rp_backoff_rank (sr_core r') = 0"
  using env assms(6-)
proof (induction env arbitrary: r n)
  case Nil
  then show ?case by (simp add: pulls_left_def split: if_splits)
next
  case (Cons x env)
  obtain now s where x: "x = (now, s)" by force
  have st: "inv s" "range_of (LogIdRange p l) (entries s) = es" using Cons.prems(1) x by auto
  obtain r1 where r1: "next_append_request limited now s r = Some r1" "stream_inv cx lc es p l r1"
    "sr_core r1 = (sr_core r)\<lparr>rp_stream := rp_stream (sr_core r1)\<rparr>"
    "if ss_log_id_range (rp_stream (sr_core r)) = None
       then sr_done r1 \<and> sr_sent r1 = sr_sent r \<and> sr_pending r1 = sr_pending r \<and> sr_queue r1 = sr_queue r
       else \<not> sr_done r1 \<and> (\<exists>req. sr_sent r1 = sr_sent r @ [req] \<and> sr_pending r1 = sr_pending r @ [req_log_id_range req]
            \<and> sr_queue r1 = inflight_push now (req_last_log_id req) (sr_queue r))"
    using next_append_request_spec[OF Cons.prems(2,3) st(2,1) es m, of now] by blast
  have pull: "stream_event limited (Pull now s) r = Some (Inr (), r1)" using r1(1) by simp
  have fr: "rp_remote_last (sr_core r1) = rp_remote_last (sr_core r)" "rp_backoff_rank (sr_core r1) = rp_backoff_rank (sr_core r)"
    by (subst r1(3), simp)+
  show ?case
  proof (cases "ss_log_id_range (rp_stream (sr_core r)) = None")
    case True
    then have sent: "sent_entries (sr_sent r) = es" "sr_sent r \<noteq> []" using Cons.prems(2) by (auto simp: stream_inv_def)
    have "after_entries p es = l" using es by (auto simp: range_entries_def after_entries_def last_opt_def split: if_splits)
    then show ?thesis
      using True pull r1 fr sent Cons.prems x by (simp add: pulls_keep_def)
  next
    case False
    then obtain req where req: "sr_sent r1 = sr_sent r @ [req]" "sr_pending r1 = [req_log_id_range req]" "\<not> sr_done r1"
      using r1(4) Cons.prems(4) by auto
    have "request_chain p (sr_sent r @ [req])" "prefix (sent_entries (sr_sent r @ [req])) es" and
      rq: "request_ok (cf_max_payload_entries (rx_config cx)) (cv_into_vote (rsi_leader_vote (rx_session_id cx))) lc (LogIdRange p l) req"
      using r1(2) unfolding stream_inv_def req(1) by (auto split: option.splits)
    then have ans: "fst (ae req n) = Inr AppendSuccess" "Q (sr_sent r @ [req]) (snd (ae req n))"
      using node Cons.prems(5) unfolding accepts_stream_def request_ok_def by blast+
    obtain out r2 where o: "stream_response (Inr (Inr (req_last_log_id req))) (r1\<lparr>sr_pending := []\<rparr>) = (out, r2)" by force
    note f2 = stream_response_frame[OF o]
    have out: "out = Inr ()" using f2(8) by simp
    have answer: "stream_event limited (Answer AppendSuccess) r1 = Some (Inr (), r2)"
      using req(2) o out by (simp add: req_log_id_range_def)
    have i2: "stream_inv cx lc es p l r2" using stream_inv_response[OF stream_inv_pending[OF r1(2) req(2)] o] .
    have e2: "sent_entries (sr_sent r2) = sent_entries (sr_sent r) @ ar_entries req"
      using f2(2) req(1) by (simp add: sent_entries_def)
    have "ar_prev_log_id req = after_entries p (sent_entries (sr_sent r))"
      using i2 f2(2) req(1) by (simp add: stream_inv_def request_chain_append)
    then have rl2: "rp_remote_last (sr_core r2) = after_entries p (sent_entries (sr_sent r2))"
      using f2(7) e2 by (simp add: req_last_after)
    have rank: "rp_backoff_rank (sr_core r2) = 0" using stream_response_ok[of "req_last_log_id req"] o out by simp
    have len: "length (sent_entries (sr_sent r2)) \<le> length es" using i2 by (auto simp: stream_inv_def split: option.splits)
    have "es = [] \<Longrightarrow> ss_log_id_range (rp_stream (sr_core r2)) = None"
      using i2 f2(2) req(1) by (auto simp: stream_inv_def split: option.splits)
    moreover have "es \<noteq> [] \<Longrightarrow> ar_entries req \<noteq> []"
      using rq es by (auto simp: request_ok_def range_entries_def)
    ultimately have left: "pulls_left es r2 \<le> length env"
      using Cons.prems(6) e2 len False by (cases "es = []"; cases "ar_entries req") (auto simp: pulls_left_def)
    have env: "\<forall>(now, s) \<in> set env. inv s \<and> range_of (LogIdRange p l) (entries s) = es" using Cons.prems(1) by simp
    have prems2: "\<not> sr_done r2" "sr_pending r2 = []" "Q (sr_sent r2) (snd (ae req n))"
      "sr_sent r2 \<noteq> [] \<longrightarrow> rp_remote_last (sr_core r2) = after_entries p (sent_entries (sr_sent r2)) \<and> rp_backoff_rank (sr_core r2) = 0"
      using f2(2-4) req ans(2) rl2 rank by simp_all
    obtain evs n' r' where ih: "default_stream_append limited ae env r2 (snd (ae req n)) = Some (evs, n')"
      "network_keeps limited evs r2" "pulls_keep entries inv (LogIdRange p l) es evs"
      "handle_response_stream limited evs r2 = Some (Inr (), r')" "sr_done r'" "Q (sr_sent r') n'"
      "stream_inv cx lc es p l r'" "rp_remote_last (sr_core r') = l" "rp_backoff_rank (sr_core r') = 0"
      using Cons.IH[OF env i2 prems2(1-3) left prems2(4)] by blast
    have d: "default_stream_append limited ae (x # env) r n = Some (Pull now s # Answer AppendSuccess # evs, n')"
      using x pull answer req ans(1) ih(1) by (cases "ae req n") simp
    have k: "network_keeps limited (Pull now s # Answer AppendSuccess # evs) r"
      using Cons.prems(3) pull answer req(2) ih(2) by simp
    have h: "handle_response_stream limited (Pull now s # Answer AppendSuccess # evs) r = Some (Inr (), r')"
      using pull answer ih(4) by simp
    have "pulls_keep entries inv (LogIdRange p l) es (Pull now s # Answer AppendSuccess # evs)"
      using ih(3) st by (auto simp: pulls_keep_def)
    then show ?thesis using d k h ih(5-) by blast
  qed
qed

end

section \<open>What the streams guarantee\<close>

text \<open>
  C12. The requests of a stream, whatever network carries it: it does not panic, the requests follow
  one another without a gap from the start of the range, carry its entries in order and at most
  \<^verbatim>\<open>max_payload_entries\<close> each, under the vote and the committed log id of the leader; a stream that
  has ended has sent them all, in at least one request.
\<close>

theorem stream_requests_exact:
  fixes c :: repl_core
  defines "m \<equiv> cf_max_payload_entries (rx_config (ss_context (rp_stream c)))"
  assumes reader: "log_reader limited entries I"
    and rng: "ss_log_id_range (rp_stream c) = Some (LogIdRange p l)" and es: "range_entries (LogIdRange p l) es"
    and m: "0 < m" "next_index l + m < 2 ^ 64" and rl: "next_index (rp_remote_last c) \<le> next_index l"
    and net: "network_keeps limited evs (new_stream c)" "pulls_keep entries I (LogIdRange p l) es evs"
  shows "\<exists>out r. handle_response_stream limited evs (new_stream c) = Some (out, r)
    \<and> request_chain p (sr_sent r) \<and> prefix (sent_entries (sr_sent r)) es
    \<and> (\<forall>req \<in> set (sr_sent r). length (ar_entries req) \<le> m \<and> (p \<noteq> l \<longrightarrow> ar_entries req \<noteq> [])
        \<and> ar_vote req = cv_into_vote (rsi_leader_vote (rp_session c)) \<and> ar_leader_commit req = ss_leader_committed (rp_stream c))
    \<and> (sr_done r \<longrightarrow> sent_entries (sr_sent r) = es \<and> sr_sent r \<noteq> [])"
proof -
  define lb where "lb = min (next_index p) (next_index (rp_remote_last c))"
  have "next_index (rp_remote_last (sr_core (new_stream c))) \<in> {lb..next_index l}" "lb \<le> next_index p"
    using rl by (simp_all add: new_stream_def lb_def)
  then obtain out r where "handle_response_stream limited evs (new_stream c) = Some (out, r)"
    "stream_inv (ss_context (rp_stream c)) (ss_leader_committed (rp_stream c)) es p l r"
    using log_reader.handle_response_stream_runs[OF reader stream_inv_new[OF es rng] net es m[unfolded m_def]] by blast
  then show ?thesis by (auto simp: stream_inv_def request_ok_def m_def split: option.splits)
qed

text \<open>
  C13. A turn of the task over any network that keeps its contract: it does not panic; it reports only
  progress and heartbeats of its own session, under the inflight id of the action, and higher votes;
  and the next action is the part of the range the follower has not acknowledged, under the same
  inflight id, unless the stream failed or nothing is left.
\<close>

theorem replication_turn_safe:
  fixes c :: repl_core
  defines "m \<equiv> cf_max_payload_entries (rx_config (ss_context (rp_stream c)))"
  assumes "log_reader limited entries I" "rp_next_action c = None" "turn_range_of action c = LogIdRange p l"
    "range_entries (LogIdRange p l) es" "next_index (rp_remote_last c) \<le> next_index l" "0 < m" "next_index l + m < 2 ^ 64"
    "network_keeps limited evs (new_stream (turn_start b action c))" "pulls_keep entries I (LogIdRange p l) es evs"
  shows "\<exists>out r c'. handle_response_stream limited evs (new_stream (turn_start b action c)) = Some (out, r)
    \<and> repl_turn limited b (Some action) (Inr evs) c = Some (True, c', sr_effects r)
    \<and> next_index (rp_remote_last c') \<le> next_index l
    \<and> (\<forall>e \<in> set (sr_effects r). reports (turn_start b action c) e)
    \<and> rp_next_action c' = (if (\<exists>e. out = Inl e) \<or> next_index (rp_remote_last c') = next_index l then None
         else map_option (replicate_logs (LogIdRange (rp_remote_last c') l)) (replicate_inflight_id action))"
  using log_reader.repl_turn_safe[OF assms(2-10)[unfolded m_def]] by blast

text \<open>
  C14. Over the default network, to a node that accepts what it is sent: a turn ends, the node has
  received all the entries of the range, in order and in one chain of requests, the last log id of
  the range is acknowledged and nothing is left to do. \<open>Q\<close> is any property of the node that its
  answers to such requests keep.
\<close>

theorem default_network_replicates:
  fixes c :: repl_core
  defines "cx \<equiv> ss_context (rp_stream c)"
  assumes reader: "log_reader limited entries I" and na: "rp_next_action c = None"
    and rng: "turn_range_of action c = LogIdRange p l" and es: "range_entries (LogIdRange p l) es"
    and rl: "next_index (rp_remote_last c) \<le> next_index l"
    and m: "0 < cf_max_payload_entries (rx_config cx)" "next_index l + cf_max_payload_entries (rx_config cx) < 2 ^ 64"
    and env: "\<forall>(now, s) \<in> set env. I s \<and> range_of (LogIdRange p l) (entries s) = es" "length es + 2 \<le> length env"
    and Q: "Q [] n"
    and node: "accepts_stream ae (cv_into_vote (rsi_leader_vote (rx_session_id cx)))
          (ss_leader_committed (rp_stream (turn_start b action c))) p es Q"
  shows "\<exists>evs n' c' effs reqs. default_stream_append limited ae env (new_stream (turn_start b action c)) n = Some (evs, n')
    \<and> repl_turn limited b (Some action) (Inr evs) c = Some (True, c', effs)
    \<and> Q reqs n' \<and> request_chain p reqs \<and> sent_entries reqs = es
    \<and> rp_remote_last c' = l \<and> rp_next_action c' = None"
proof -
  define s where "s = turn_start b action c"
  note fr = turn_start_frame[where b = b and action = action and c = c, simplified, folded s_def]
  have new: "stream_inv cx (ss_leader_committed (rp_stream s)) es p l (new_stream s)"
    using stream_inv_new[OF es, of s] fr(1,2) rng by (simp add: cx_def)
  have start: "\<not> sr_done (new_stream s)" "sr_pending (new_stream s) = []" "Q (sr_sent (new_stream s)) n"
    "pulls_left es (new_stream s) \<le> length env" "sr_sent (new_stream s) = []"
    using env(2) Q by (simp_all add: new_stream_def pulls_left_def sent_entries_def)
  obtain evs n' r where d: "default_stream_append limited ae env (new_stream s) n = Some (evs, n')"
    "network_keeps limited evs (new_stream s)" "pulls_keep entries I (LogIdRange p l) es evs"
    "handle_response_stream limited evs (new_stream s) = Some (Inr (), r)" "sr_done r" "Q (sr_sent r) n'"
    "stream_inv cx (ss_leader_committed (rp_stream s)) es p l r" "rp_remote_last (sr_core r) = l"
    using log_reader.default_stream_success[OF reader es m env(1) node[folded s_def] new start(1-4)] start(5) by blast
  obtain c' where "repl_turn limited b (Some action) (Inr evs) c = Some (True, c', sr_effects r)"
    "rp_remote_last c' = l" "rp_next_action c' = None"
    using log_reader.repl_turn_safe[OF reader na rng es rl m[unfolded cx_def] d(2)[unfolded s_def] d(3)] d(4,8)
    unfolding s_def by auto
  moreover have "request_chain p (sr_sent r)" "sent_entries (sr_sent r) = es"
    using d(5,7) by (auto simp: stream_inv_def split: option.splits)
  ultimately show ?thesis using d(1,6) unfolding s_def by blast
qed

subsection \<open>An example\<close>

text \<open>The three entries of the example store, two at a time, to node 2; the follower keeps two of them only.\<close>

definition example_session :: replication_session_id where
  "example_session = ReplicationSessionId (CommittedVote (LeaderId 1 1)) None"

definition example_task :: repl_core where
  "example_task = repl_spawn 2 example_session (config_default\<lparr>cf_max_payload_entries := 2\<rparr>) None None"

definition example_range :: log_id_range where
  "example_range = LogIdRange None (Some (LogId (LeaderId 1 1) 2))"

definition example_action :: replicate where
  "example_action = RepData (Data 7 example_range)"

definition example_events :: "mem_store net_event list" where
  "example_events = [Pull 5 example_store, Pull 6 example_store, Answer AppendSuccess, Pull 7 example_store,
     Answer (PartialSuccess (Some (LogId (LeaderId 1 1) 1)))]"

abbreviation mem_reader :: "(mem_store, client_request) log_read" where
  "mem_reader \<equiv> limited_get_log_entries (mem_storage mem_codecs)"

abbreviation mem_entries :: "mem_store \<Rightarrow> client_request log_entry list" where
  "mem_entries s \<equiv> sv_log (mem_view mem_codecs s)"

lemma mem_reader_ok: "log_reader mem_reader mem_entries (mem_inv mem_codecs)"
  by (rule mem_store.store.reader.log_reader_axioms)

lemma example_read: "a \<le> b \<Longrightarrow> mem_reader a b example_store = Some (Inr (entries_between a b lost_entries))"
  using mem_store.store.try_get_log_entries[OF example_store_ok(1)] by (simp add: limited_get_log_entries_def example_store_view)

lemma example_entries: "range_entries example_range lost_entries" "range_of example_range (mem_entries example_store) = lost_entries"
  by (simp_all add: range_entries_def range_of_def entries_between_def example_range_def example_store_view lost_entries_def
      mem_entry_def entry_new_def upt_rec)

lemma example_turn: "rp_next_action example_task = None" "turn_range_of example_action example_task = example_range"
  "rp_remote_last example_task = None"
  by (simp_all add: example_task_def repl_spawn_def turn_range_of_def example_action_def)

lemma example_start:
  "turn_start network_backoff example_action example_task = example_task\<lparr>rp_inflight_id := Some 7,
     rp_stream := (rp_stream example_task)\<lparr>ss_inflight_id := Some 7, ss_log_id_range := Some example_range\<rparr>\<rparr>"
  by (simp add: turn_start_def turn_begin_def turn_backoff_def disable_backoff_def example_action_def example_task_def
      repl_spawn_def Let_def)

lemmas stream_eval = next_append_request_def next_request_def read_log_entries_def update_log_id_range_def
  backoff_if_enabled_def log_id_range_len_def sub_panics_def req_last_log_id_def req_log_id_range_def inflight_push_def
  stream_response_def drain_acked_def notify_progress_def notify_heartbeat_progress_def set_remote_last_def new_stream_def

lemmas example_eval = example_read example_task_def repl_spawn_def example_range_def example_events_def
  entries_between_def lost_entries_def mem_entry_def entry_new_def config_default_def

lemma example_keeps:
  "network_keeps mem_reader example_events (new_stream (turn_start network_backoff example_action example_task))"
  "pulls_keep mem_entries (mem_inv mem_codecs) example_range lost_entries example_events"
proof -
  show "network_keeps mem_reader example_events (new_stream (turn_start network_backoff example_action example_task))"
    unfolding example_start by (simp add: stream_eval example_eval Let_def)
  show "pulls_keep mem_entries (mem_inv mem_codecs) example_range lost_entries example_events"
    using example_entries(2) example_store_ok(1) by (simp add: pulls_keep_def example_events_def)
qed

subsection \<open>Witnesses\<close>

abbreviation example_start_core :: repl_core where
  "example_start_core \<equiv> turn_start network_backoff example_action example_task"

theorem stream_requests_exact_witness:
  "\<exists>out r. handle_response_stream mem_reader example_events (new_stream example_start_core) = Some (out, r)
     \<and> request_chain None (sr_sent r) \<and> prefix (sent_entries (sr_sent r)) lost_entries"
proof -
  have "ss_log_id_range (rp_stream example_start_core) = Some (LogIdRange None (Some (LogId (LeaderId 1 1) 2)))"
    "rp_remote_last example_start_core = None" "cf_max_payload_entries (rx_config (ss_context (rp_stream example_start_core))) = 2"
    unfolding example_start by (simp_all add: example_range_def example_task_def repl_spawn_def config_default_def)
  then show ?thesis
    using stream_requests_exact[OF mem_reader_ok _ example_entries(1)[unfolded example_range_def] _ _ _ example_keeps(1)
        example_keeps(2)[unfolded example_range_def]] by fastforce
qed

theorem replication_turn_safe_witness:
  "\<exists>c' effs. repl_turn mem_reader network_backoff (Some example_action) (Inr example_events) example_task = Some (True, c', effs)
     \<and> next_index (rp_remote_last c') \<le> 3 \<and> rp_next_action c' \<in> {None, Some (replicate_logs (LogIdRange (rp_remote_last c')
          (Some (LogId (LeaderId 1 1) 2))) 7)}"
proof -
  have "cf_max_payload_entries (rx_config (ss_context (rp_stream example_task))) = 2"
    by (simp add: example_task_def repl_spawn_def config_default_def)
  then show ?thesis
    using replication_turn_safe[OF mem_reader_ok example_turn(1) example_turn(2)[unfolded example_range_def]
        example_entries(1)[unfolded example_range_def] _ _ _ example_keeps(1) example_keeps(2)[unfolded example_range_def]]
      example_turn(3) by (fastforce simp: example_action_def split: if_splits)
qed

theorem default_network_replicates_witness:
  "\<exists>evs c' effs. default_stream_append mem_reader (\<lambda>req n. (Inr AppendSuccess, n @ ar_entries req))
       (replicate 5 (9, example_store)) (new_stream example_start_core) [] = Some (evs, lost_entries)
     \<and> repl_turn mem_reader network_backoff (Some example_action) (Inr evs) example_task = Some (True, c', effs)
     \<and> rp_remote_last c' = Some (LogId (LeaderId 1 1) 2) \<and> rp_next_action c' = None"
proof -
  have m: "cf_max_payload_entries (rx_config (ss_context (rp_stream example_task))) = 2"
    by (simp add: example_task_def repl_spawn_def config_default_def)
  have env: "\<forall>(now, s) \<in> set (replicate 5 (9, example_store)). mem_inv mem_codecs s
      \<and> range_of (LogIdRange None (Some (LogId (LeaderId 1 1) 2))) (mem_entries s) = lost_entries"
    using example_entries(2) example_store_ok(1) by (simp add: example_range_def)
  have node: "accepts_stream (\<lambda>req n. (Inr AppendSuccess, n @ ar_entries req)) v lc q es (\<lambda>reqs n. n = sent_entries reqs)"
    for v lc q and es :: "client_request log_entry list"
    by (simp add: accepts_stream_def sent_entries_def)
  have "length lost_entries + 2 \<le> length (replicate 5 (9 :: nat, example_store))" by (simp add: lost_entries_def)
  from default_network_replicates[OF mem_reader_ok example_turn(1) example_turn(2)[unfolded example_range_def]
      example_entries(1)[unfolded example_range_def] _ _ _ env this _ node] m example_turn(3)
  show ?thesis by (fastforce simp: sent_entries_def)
qed

text \<open>A payload limit of \<^verbatim>\<open>u64::MAX\<close> passes the validation of the configuration, and the first read with it panics.\<close>

lemma unlimited_payload_panics:
  assumes "ss_log_id_range ss = Some (LogIdRange (Some p) l)" "next_index l \<noteq> next_index (Some p)"
    "cf_max_payload_entries (rx_config (ss_context ss)) = 2 ^ 64 - 1"
  shows "next_request limited s ss = None"
    "config_validate (config_default\<lparr>cf_max_payload_entries := 2 ^ 64 - 1\<rparr>) = Inr (config_default\<lparr>cf_max_payload_entries := 2 ^ 64 - 1\<rparr>)"
  using assms by (simp_all add: next_request_def read_log_entries_def Let_def config_validate_def config_default_def)

end
