(* ===== verification/SnapshotTransport.thy ===== *)
theory SnapshotTransport
imports Replication
begin

text \<open>
  \<^verbatim>\<open>openraft/src/network/snapshot_transport.rs\<close>, \<^verbatim>\<open>Raft::install_snapshot\<close> of \<^verbatim>\<open>raft/mod.rs\<close> and
  \<^verbatim>\<open>replication/snapshot_transmitter.rs\<close>: a leader sends a snapshot to a follower in chunks, the
  follower writes them into a file and installs it when the last one has come. The snapshot data is
  the \<^verbatim>\<open>Cursor<Vec<u8>>\<close> of the key-value store, whose operations do not fail. A transport is the
  sender, the receiver and a network that may lose a request or a response, or deliver one late.
\<close>

section \<open>The snapshot data\<close>

record cursor =
  cur_pos :: nat
  cur_bytes :: string

definition cursor_new :: cursor where
  "cursor_new = \<lparr>cur_pos = 0, cur_bytes = []\<rparr>"

definition cursor_seek_start :: "nat \<Rightarrow> cursor \<Rightarrow> cursor" where
  "cursor_seek_start n c = c\<lparr>cur_pos := n\<rparr>"

text \<open>A write beyond the end fills the gap with zeros.\<close>

definition cursor_write_all :: "string \<Rightarrow> cursor \<Rightarrow> cursor" where
  "cursor_write_all bs c =
     (let old = cur_bytes c; p = cur_pos c;
          padded = old @ replicate (p - length old) (CHR 0x00)
      in \<lparr>cur_pos = p + length bs, cur_bytes = take p padded @ bs @ drop (p + length bs) padded\<rparr>)"

section \<open>Receiving\<close>

record install_snapshot_request =
  isr_vote :: raft_vote
  isr_meta :: snapshot_meta
  isr_offset :: nat
  isr_data :: string
  isr_done :: bool

record streaming =
  stm_offset :: nat
  stm_snapshot_id :: string
  stm_data :: cursor

definition streaming_new :: "string \<Rightarrow> cursor \<Rightarrow> streaming" where
  "streaming_new i d = \<lparr>stm_offset = 0, stm_snapshot_id = i, stm_data = d\<rparr>"

definition streaming_receive :: "install_snapshot_request \<Rightarrow> streaming \<Rightarrow> bool \<times> streaming" where
  "streaming_receive req s =
     (let s1 = (if isr_offset req \<noteq> stm_offset s
                then s\<lparr>stm_data := cursor_seek_start (isr_offset req) (stm_data s), stm_offset := isr_offset req\<rparr> else s);
          s2 = s1\<lparr>stm_data := cursor_write_all (isr_data req) (stm_data s1),
                  stm_offset := stm_offset s1 + length (isr_data req)\<rparr>
      in (isr_done req, s2))"

text \<open>An error of the API of a node: the runtime has stopped, or the error of the call.\<close>

datatype 'e raft_error = Fatal string | APIError 'e

text \<open>\<open>begin_data\<close> is the answer of \<^verbatim>\<open>begin_receiving_snapshot\<close>.\<close>

definition receive_snapshot ::
  "string + cursor \<Rightarrow> install_snapshot_request \<Rightarrow> streaming option
    \<Rightarrow> (install_snapshot_error raft_error + snapshot option) \<times> streaming option" where
  "receive_snapshot begin_data req st =
     (let i = snap_id (isr_meta req);
          begun = (if map_option stm_snapshot_id st \<noteq> Some i
            then (if isr_offset req \<noteq> 0 then Inl (APIError (SnapshotMismatch (i, 0) (i, isr_offset req)))
                  else case begin_data of Inl e \<Rightarrow> Inl (Fatal e) | Inr d \<Rightarrow> Inr (Some (streaming_new i d)))
            else Inr st)
      in case begun of
           Inl err \<Rightarrow> (Inl err, st)
         | Inr None \<Rightarrow> (Inr None, None)
         | Inr (Some s) \<Rightarrow>
             (let (_, s1) = streaming_receive req s in
              if isr_done req
              then (Inr (Some \<lparr>snap_meta = isr_meta req, snap_data = cur_bytes (stm_data s1)\<rparr>), None)
              else (Inr None, Some s1)))"

text \<open>
  \<^verbatim>\<open>Raft::install_snapshot\<close>: \<open>my_vote\<close> is the vote of the node, \<open>install\<close> the answer of
  \<^verbatim>\<open>install_full_snapshot\<close> to the finished snapshot. The last result is the snapshot it installed.
\<close>

definition install_snapshot_api ::
  "string + raft_vote \<Rightarrow> string + cursor \<Rightarrow> (raft_vote \<Rightarrow> snapshot \<Rightarrow> string + raft_vote) \<Rightarrow> install_snapshot_request
    \<Rightarrow> streaming option \<Rightarrow> (install_snapshot_error raft_error + raft_vote) \<times> streaming option \<times> snapshot option" where
  "install_snapshot_api my_vote begin_data install req st =
     (case my_vote of
        Inl e \<Rightarrow> (Inl (Fatal e), st, None)
      | Inr mine \<Rightarrow>
          (if \<not> isr_vote req \<ge> mine then (Inr mine, st, None)
           else case receive_snapshot begin_data req st of
               (Inl err, st1) \<Rightarrow> (Inl err, st1, None)
             | (Inr None, st1) \<Rightarrow> (Inr mine, st1, None)
             | (Inr (Some snap), st1) \<Rightarrow>
                 (case install (isr_vote req) snap of
                    Inl e \<Rightarrow> (Inl (Fatal e), st1, Some snap)
                  | Inr v \<Rightarrow> (Inr v, st1, Some snap))))"

section \<open>Sending\<close>

datatype chunk_outcome =
    ChunkElapsed
  | ChunkTimeout
  | ChunkUnreachable
  | ChunkNetwork
  | ChunkRemote "install_snapshot_error raft_error"
  | ChunkOk raft_vote

definition snapshot_chunk :: "nat \<Rightarrow> raft_vote \<Rightarrow> snapshot \<Rightarrow> nat \<Rightarrow> install_snapshot_request" where
  "snapshot_chunk chunk_size vote snap offset =
     (let buf = take chunk_size (drop offset (snap_data snap)) in
      \<lparr>isr_vote = vote, isr_meta = snap_meta snap, isr_offset = offset, isr_data = buf,
       isr_done = (offset + length buf = length (snap_data snap))\<rparr>)"

text \<open>What the sender does with the outcome of a chunk: the next offset, and the response it ends with.\<close>

fun on_chunk :: "install_snapshot_request \<Rightarrow> chunk_outcome \<Rightarrow> nat \<Rightarrow> nat \<times> raft_vote option" where
  "on_chunk req ChunkElapsed offset = (offset, None)"
| "on_chunk req ChunkTimeout offset = (offset, None)"
| "on_chunk req ChunkUnreachable offset = (offset, None)"
| "on_chunk req ChunkNetwork offset = (offset, None)"
| "on_chunk req (ChunkRemote (Fatal e)) offset = (offset, None)"
| "on_chunk req (ChunkRemote (APIError (SnapshotMismatch e g))) offset = (0, None)"
| "on_chunk req (ChunkOk v) offset =
     (if v > isr_vote req then (offset, Some v)
      else if isr_done req then (offset, Some v)
      else (offset + length (isr_data req), None))"

section \<open>The transmitter\<close>

datatype streaming_error =
    SeClosed string
  | SeStorage
  | SeTimeout string
  | SeUnreachable string
  | SeNetwork string

datatype replication_error =
    ReHigherVote (re_higher: raft_vote) (re_sender: raft_vote)
  | ReClosed string
  | ReStorage
  | ReRpc rpc_error

fun streaming_to_replication_error :: "streaming_error \<Rightarrow> replication_error" where
  "streaming_to_replication_error (SeClosed r) = ReClosed r"
| "streaming_to_replication_error SeStorage = ReStorage"
| "streaming_to_replication_error (SeTimeout m) = ReRpc (RpcTimeout m)"
| "streaming_to_replication_error (SeUnreachable m) = ReRpc (RpcUnreachable m)"
| "streaming_to_replication_error (SeNetwork m) = ReRpc (RpcNetwork m)"

lemma streaming_error_no_vote [simp]: "streaming_to_replication_error e \<noteq> ReHigherVote h v"
  by (cases e) simp_all

record transmitter =
  sx_context :: replication_context
  sx_inflight_id :: nat
  sx_backoff :: "backoff option"

definition transmitter_spawn :: "replication_context \<Rightarrow> nat \<Rightarrow> transmitter" where
  "transmitter_spawn cx i = \<lparr>sx_context = cx, sx_inflight_id = i, sx_backoff = None\<rparr>"

text \<open>
  One try: the snapshot the state machine answers with, the time the transfer starts, what
  \<^verbatim>\<open>full_snapshot\<close> returns, and whether the task is cancelled while it waits for the next try.
\<close>

record transmit_try =
  tt_snapshot :: "string + snapshot option"
  tt_start :: nat
  tt_response :: "streaming_error + raft_vote"
  tt_cancelled :: bool

definition send_snapshot :: "snapshot \<Rightarrow> transmit_try \<Rightarrow> transmitter \<Rightarrow> (replication_error + unit) \<times> repl_effect list" where
  "send_snapshot snap a x =
     (let session = rx_session_id (sx_context x); target = rx_target (sx_context x);
          sender_vote = cv_into_vote (rsi_leader_vote session) in
      case tt_response a of
        Inl e \<Rightarrow> (Inl (streaming_to_replication_error e), [])
      | Inr v \<Rightarrow>
          (if v > sender_vote then (Inl (ReHigherVote v sender_vote), [])
           else (Inr (), [RNotify (NHeartbeatProgress session (tt_start a) target),
              RNotify (NReplicationProgress session target (Inr (Inr (snap_last_log_id (snap_meta snap)))) (Some (sx_inflight_id x)))])))"

definition read_and_send_snapshot :: "transmit_try \<Rightarrow> transmitter \<Rightarrow> (replication_error + unit) \<times> repl_effect list" where
  "read_and_send_snapshot a x =
     (case tt_snapshot a of
        Inl reason \<Rightarrow> (Inl (ReClosed reason), [])
      | Inr None \<Rightarrow> (Inl ReStorage, [])
      | Inr (Some snap) \<Rightarrow> send_snapshot snap a x)"

fun transmit_backoff :: "backoff \<Rightarrow> rpc_error \<Rightarrow> backoff option \<Rightarrow> backoff option" where
  "transmit_backoff nb (RpcUnreachable m) b = (case b of None \<Rightarrow> Some nb | Some b' \<Rightarrow> Some b')"
| "transmit_backoff nb (RpcTimeout m) b = None"
| "transmit_backoff nb (RpcNetwork m) b = None"
| "transmit_backoff nb (RpcRemote m) b = None"

text \<open>The tries of the task; the result is whether it has ended.\<close>

fun stream_snapshot :: "backoff \<Rightarrow> transmit_try list \<Rightarrow> transmitter \<Rightarrow> bool \<times> transmitter \<times> repl_effect list" where
  "stream_snapshot nb [] x = (False, x, [])"
| "stream_snapshot nb (a # as) x =
     (case read_and_send_snapshot a x of
        (Inr _, effs) \<Rightarrow> (True, x, effs)
      | (Inl (ReClosed r), effs) \<Rightarrow> (True, x, effs)
      | (Inl (ReHigherVote h v), effs) \<Rightarrow>
          (True, x, effs @ [RNotify (NHigherVote (rx_target (sx_context x)) h (rsi_leader_vote (rx_session_id (sx_context x))))])
      | (Inl ReStorage, effs) \<Rightarrow> (True, x, effs @ [RNotify (NStorageError StoReadSnapshot)])
      | (Inl (ReRpc err), effs) \<Rightarrow>
          (case transmit_backoff nb err (sx_backoff x) of
             None \<Rightarrow> (case stream_snapshot nb as (x\<lparr>sx_backoff := None\<rparr>) of (fin, x', later) \<Rightarrow> (fin, x', effs @ later))
           | Some b \<Rightarrow>
               (case backoff_next b of (d, b1) \<Rightarrow>
                 (let x1 = x\<lparr>sx_backoff := Some b1\<rparr>;
                      sleep = [RSleep (case d of Some t \<Rightarrow> t | None \<Rightarrow> 500)] in
                  if tt_cancelled a then (True, x1, effs @ sleep)
                  else (case stream_snapshot nb as x1 of (fin, x', later) \<Rightarrow> (fin, x', effs @ sleep @ later))))))"

text \<open>
  A transmitter notifies once, at its end: of nothing, of a higher vote, of a missing snapshot, or of a
  heartbeat and the last log id of the snapshot the follower has taken.
\<close>

definition notified :: "repl_effect list \<Rightarrow> notification list" where
  "notified effs = concat (map (\<lambda>e. case e of RNotify n \<Rightarrow> [n] | RSleep t \<Rightarrow> []) effs)"

lemma notified_simps [simp]: "notified [] = []" "notified (RNotify n # es) = n # notified es" "notified (RSleep t # es) = notified es"
  "notified (xs @ ys) = notified xs @ notified ys"
  by (simp_all add: notified_def)

lemma transmitter_reports:
  assumes "stream_snapshot nb as x = (fin, x', effs)"
  defines "session \<equiv> rx_session_id (sx_context x)" and "target \<equiv> rx_target (sx_context x)"
  shows "(\<not> fin \<longrightarrow> notified effs = []) \<and>
    (notified effs = [] \<or> notified effs = [NStorageError StoReadSnapshot]
     \<or> (\<exists>v. v > cv_into_vote (rsi_leader_vote session) \<and> notified effs = [NHigherVote target v (rsi_leader_vote session)])
     \<or> (\<exists>a \<in> set as. \<exists>snap v. tt_snapshot a = Inr (Some snap) \<and> tt_response a = Inr v \<and> v \<le> cv_into_vote (rsi_leader_vote session)
         \<and> notified effs = [NHeartbeatProgress session (tt_start a) target,
             NReplicationProgress session target (Inr (Inr (snap_last_log_id (snap_meta snap)))) (Some (sx_inflight_id x))]))"
  using assms(1) unfolding session_def target_def
proof (induction as arbitrary: x effs)
  case (Cons a as)
  obtain res effs0 where r: "read_and_send_snapshot a x = (res, effs0)" by force
  show ?case
  proof (cases "\<exists>err. res = Inl (ReRpc err)")
    case True
    then obtain err where err: "res = Inl (ReRpc err)" by blast
    then have "effs0 = []"
      using r by (auto simp: read_and_send_snapshot_def send_snapshot_def Let_def split: sum.splits option.splits if_splits)
    note e0 = this
    show ?thesis
    proof (cases "transmit_backoff nb err (sx_backoff x)")
      case None
      then have "stream_snapshot nb as (x\<lparr>sx_backoff := None\<rparr>) = (fin, x', effs)"
        using Cons.prems r err e0 by (auto split: prod.splits)
      from Cons.IH[OF this] show ?thesis by auto
    next
      case (Some b)
      obtain d b1 where b1: "backoff_next b = (d, b1)" by force
      show ?thesis
      proof (cases "tt_cancelled a")
        case True
        then show ?thesis using Cons.prems r err e0 Some b1 by (auto simp: Let_def)
      next
        case False
        then obtain later where m: "stream_snapshot nb as (x\<lparr>sx_backoff := Some b1\<rparr>) = (fin, x', later)" "notified effs = notified later"
          using Cons.prems r err e0 Some b1 by (auto simp: Let_def split: prod.splits)
        from Cons.IH[OF m(1)] show ?thesis using m(2) by auto
      qed
    qed
  next
    case False
    then show ?thesis
      using Cons.prems r
      by (auto simp: read_and_send_snapshot_def send_snapshot_def Let_def not_less
          split: sum.splits option.splits if_splits replication_error.splits)
  qed
qed simp

section \<open>A transport\<close>

record transport =
  tp_offset :: nat
  tp_result :: "raft_vote option"
  tp_sent :: "install_snapshot_request list"
  tp_streaming :: "streaming option"
  tp_vote :: raft_vote
  tp_installed :: "snapshot list"

text \<open>
  A chunk is delivered and answered, or its request or its response is lost; the receiver restarts,
  sees a greater vote, gets a chunk of another sender, or gets an earlier request again.
\<close>

datatype transport_event =
    Deliver
  | LoseRequest
  | LoseResponse
  | ReceiverRestart
  | ReceiverVote raft_vote
  | OtherChunk install_snapshot_request
  | LateChunk nat

text \<open>The receiver answers with the vote of the snapshot it installs.\<close>

definition receiver_gets :: "install_snapshot_request \<Rightarrow> transport \<Rightarrow> chunk_outcome \<times> transport" where
  "receiver_gets req t =
     (case install_snapshot_api (Inr (tp_vote t)) (Inr cursor_new) (\<lambda>v _. Inr v) req (tp_streaming t) of
        (res, st, done) \<Rightarrow>
          (case res of Inl err \<Rightarrow> ChunkRemote err | Inr v \<Rightarrow> ChunkOk v,
           t\<lparr>tp_streaming := st, tp_vote := (case done of Some _ \<Rightarrow> isr_vote req | None \<Rightarrow> tp_vote t),
             tp_installed := tp_installed t @ (case done of Some s \<Rightarrow> [s] | None \<Rightarrow> [])\<rparr>))"

definition sender_gets :: "install_snapshot_request \<Rightarrow> chunk_outcome \<Rightarrow> transport \<Rightarrow> transport" where
  "sender_gets req out t =
     (case on_chunk req out (tp_offset t) of (offset, res) \<Rightarrow> t\<lparr>tp_offset := offset, tp_result := res, tp_sent := tp_sent t @ [req]\<rparr>)"

fun transport_step :: "nat \<Rightarrow> raft_vote \<Rightarrow> snapshot \<Rightarrow> transport_event \<Rightarrow> transport \<Rightarrow> transport" where
  "transport_step csize vote snap Deliver t =
     (if tp_result t \<noteq> None then t
      else let req = snapshot_chunk csize vote snap (tp_offset t); (out, t1) = receiver_gets req t in sender_gets req out t1)"
| "transport_step csize vote snap LoseRequest t =
     (if tp_result t \<noteq> None then t
      else sender_gets (snapshot_chunk csize vote snap (tp_offset t)) ChunkElapsed t)"
| "transport_step csize vote snap LoseResponse t =
     (if tp_result t \<noteq> None then t
      else let req = snapshot_chunk csize vote snap (tp_offset t) in sender_gets req ChunkElapsed (snd (receiver_gets req t)))"
| "transport_step csize vote snap ReceiverRestart t = t\<lparr>tp_streaming := None\<rparr>"
| "transport_step csize vote snap (ReceiverVote v) t = t\<lparr>tp_vote := max v (tp_vote t)\<rparr>"
| "transport_step csize vote snap (OtherChunk req) t = snd (receiver_gets req t)"
| "transport_step csize vote snap (LateChunk i) t =
     (if i < length (tp_sent t) then snd (receiver_gets (tp_sent t ! i) t) else t)"

definition transport_run :: "nat \<Rightarrow> raft_vote \<Rightarrow> snapshot \<Rightarrow> transport_event list \<Rightarrow> transport \<Rightarrow> transport" where
  "transport_run csize vote snap evs t = fold (transport_step csize vote snap) evs t"

text \<open>The sender starts; the receiver may be in the middle of another stream.\<close>

definition transport_start :: "raft_vote \<Rightarrow> streaming option \<Rightarrow> transport" where
  "transport_start v st = \<lparr>tp_offset = 0, tp_result = None, tp_sent = [], tp_streaming = st, tp_vote = v, tp_installed = []\<rparr>"

section \<open>What a receiver writes\<close>

text \<open>A chunk of the data, written at or before the end of a prefix of the data, leaves a prefix of it.\<close>

lemma write_chunk_prefix:
  assumes "p \<le> k" "k \<le> length d"
  shows "take p (take k d) @ take n (drop p d) @ drop (p + length (take n (drop p d))) (take k d)
      = take (max k (p + length (take n (drop p d)))) d"
proof -
  let ?m = "p + length (take n (drop p d))"
  have "take n (drop p d) = take (length (take n (drop p d))) (drop p d)" by (metis append_eq_conv_conj append_take_drop_id)
  then have "take n (drop p d) = take (?m - p) (drop p d)" by (metis diff_add_inverse)
  then have a: "take p (take k d) @ take n (drop p d) = take ?m d"
    using assms by (metis le_add1 le_add_diff_inverse min.absorb1 take_add take_take)
  have "drop ?m (take k d) = take (k - ?m) (drop ?m d)" by (rule drop_take)
  then have "take ?m d @ drop ?m (take k d) = take (?m + (k - ?m)) d" by (simp add: take_add)
  moreover have "?m + (k - ?m) = max k ?m" by simp
  ultimately show ?thesis by (metis a append.assoc)
qed

text \<open>The stream of \<open>snap\<close>: what is written is a prefix of its data, at least up to \<open>o\<close>.\<close>

definition stream_prefix :: "snapshot \<Rightarrow> nat \<Rightarrow> streaming \<Rightarrow> bool" where
  "stream_prefix snap off st \<longleftrightarrow> stm_offset st = cur_pos (stm_data st)
     \<and> (\<exists>k \<le> length (snap_data snap). cur_bytes (stm_data st) = take k (snap_data snap) \<and> off \<le> k)"

lemma streaming_receive_chunk:
  assumes "stream_prefix snap off st" "streaming_receive (snapshot_chunk csize v snap off) st = (done, st')"
  shows "stream_prefix snap (off + length (isr_data (snapshot_chunk csize v snap off))) st'"
    "stm_snapshot_id st' = stm_snapshot_id st" "done = isr_done (snapshot_chunk csize v snap off)"
    "done \<Longrightarrow> cur_bytes (stm_data st') = snap_data snap"
proof -
  let ?d = "snap_data snap" and ?c = "take csize (drop off (snap_data snap))"
  obtain k where k: "k \<le> length ?d" "cur_bytes (stm_data st) = take k ?d" "off \<le> k" "stm_offset st = cur_pos (stm_data st)"
    using assms(1) by (auto simp: stream_prefix_def)
  have st': "cur_bytes (stm_data st') = take (max k (off + length ?c)) ?d" "cur_pos (stm_data st') = off + length ?c"
    "stm_offset st' = off + length ?c" "stm_snapshot_id st' = stm_snapshot_id st"
    "done = isr_done (snapshot_chunk csize v snap off)"
    using assms(2) k write_chunk_prefix[OF k(3,1), of csize]
    by (auto simp: streaming_receive_def snapshot_chunk_def cursor_write_all_def cursor_seek_start_def Let_def split: if_splits)
  have "max k (off + length ?c) \<le> length ?d" using k(1,3) by simp
  then show "stream_prefix snap (off + length (isr_data (snapshot_chunk csize v snap off))) st'"
    using st' by (auto simp: stream_prefix_def snapshot_chunk_def Let_def intro!: exI[of _ "max k (off + length ?c)"])
  show "stm_snapshot_id st' = stm_snapshot_id st" "done = isr_done (snapshot_chunk csize v snap off)" using st' by simp_all
  assume "done"
  then have "off + length ?c = length ?d" using st'(5) by (simp add: snapshot_chunk_def Let_def)
  then show "cur_bytes (stm_data st') = ?d" using st'(1) by simp
qed

section \<open>The invariant of a transport\<close>

text \<open>
  With the events of a network that does not reorder: if the receiver is in the stream of the
  snapshot it has written everything up to the offset of the sender; what it installed under the id
  of the snapshot is the snapshot; a sender that has ended has seen it installed, or a greater vote.
\<close>

definition transport_inv :: "raft_vote \<Rightarrow> snapshot \<Rightarrow> transport \<Rightarrow> bool" where
  "transport_inv vote snap t \<longleftrightarrow> tp_offset t \<le> length (snap_data snap)
     \<and> (\<forall>st. tp_streaming t = Some st \<longrightarrow> stm_snapshot_id st = snap_id (snap_meta snap) \<longrightarrow> stream_prefix snap (tp_offset t) st)
     \<and> (\<forall>s \<in> set (tp_installed t). snap_id (snap_meta s) = snap_id (snap_meta snap) \<longrightarrow> s = snap)
     \<and> (\<forall>v. tp_result t = Some v \<longrightarrow> v > vote \<or> snap \<in> set (tp_installed t))"

fun in_order :: "snapshot \<Rightarrow> transport_event \<Rightarrow> bool" where
  "in_order snap (OtherChunk req) = (snap_id (isr_meta req) \<noteq> snap_id (snap_meta snap))"
| "in_order snap (LateChunk i) = False"
| "in_order snap Deliver = True"
| "in_order snap LoseRequest = True"
| "in_order snap LoseResponse = True"
| "in_order snap ReceiverRestart = True"
| "in_order snap (ReceiverVote v) = True"

lemma stream_prefix_mono: "stream_prefix snap a st \<Longrightarrow> b \<le> a \<Longrightarrow> stream_prefix snap b st"
  by (auto simp: stream_prefix_def intro: order_trans)

lemma stream_prefix_new: "stream_prefix snap 0 (streaming_new i cursor_new)"
  by (auto simp: stream_prefix_def streaming_new_def cursor_new_def)

lemma snapshot_chunk_length: "off \<le> length (snap_data snap) \<Longrightarrow>
    off + length (isr_data (snapshot_chunk csize v snap off)) \<le> length (snap_data snap)"
  by (simp add: snapshot_chunk_def Let_def)

lemma snapshot_chunk_simps [simp]:
  "isr_vote (snapshot_chunk csize v snap off) = v" "isr_meta (snapshot_chunk csize v snap off) = snap_meta snap"
  "isr_offset (snapshot_chunk csize v snap off) = off"
  by (simp_all add: snapshot_chunk_def Let_def)

text \<open>A chunk of the sender reaches the receiver.\<close>

definition chunk_taken :: "nat \<Rightarrow> raft_vote \<Rightarrow> snapshot \<Rightarrow> transport \<Rightarrow> transport \<Rightarrow> bool" where
  "chunk_taken csize vote snap t t' \<longleftrightarrow>
     (let req = snapshot_chunk csize vote snap (tp_offset t) in
      if isr_done req then snap \<in> set (tp_installed t')
      else \<forall>st. tp_streaming t' = Some st \<longrightarrow> stm_snapshot_id st = snap_id (snap_meta snap) \<longrightarrow>
              stream_prefix snap (tp_offset t + length (isr_data req)) st)"

lemma receiver_gets_chunk:
  assumes i: "transport_inv vote snap t" and r: "receiver_gets (snapshot_chunk csize vote snap (tp_offset t)) t = (out, t')"
  shows "transport_inv vote snap t' \<and> tp_offset t' = tp_offset t \<and> tp_result t' = tp_result t \<and> tp_sent t' = tp_sent t
    \<and> (\<forall>v. out = ChunkOk v \<longrightarrow> v > vote \<or> chunk_taken csize vote snap t t')"
proof (cases "vote \<ge> tp_vote t")
  case False
  then show ?thesis using assms by (auto simp: receiver_gets_def install_snapshot_api_def)
next
  case True
  let ?req = "snapshot_chunk csize vote snap (tp_offset t)" and ?id = "snap_id (snap_meta snap)"
  show ?thesis
  proof (cases "map_option stm_snapshot_id (tp_streaming t) \<noteq> Some ?id \<and> tp_offset t \<noteq> 0")
    case True
    then show ?thesis
      using r i \<open>vote \<ge> tp_vote t\<close> by (auto simp: receiver_gets_def install_snapshot_api_def receive_snapshot_def Let_def)
  next
    case False
    define s where "s = (if map_option stm_snapshot_id (tp_streaming t) = Some ?id then the (tp_streaming t)
      else streaming_new ?id cursor_new)"
    have s: "stream_prefix snap (tp_offset t) s" "stm_snapshot_id s = ?id"
      using i False stream_prefix_new by (auto simp: s_def transport_inv_def streaming_new_def)
    obtain d s1 where rc: "streaming_receive ?req s = (d, s1)" by force
    note w = streaming_receive_chunk[OF s(1) rc]
    have rs: "receive_snapshot (Inr cursor_new) ?req (tp_streaming t) =
        (if isr_done ?req then (Inr (Some \<lparr>snap_meta = snap_meta snap, snap_data = cur_bytes (stm_data s1)\<rparr>), None)
         else (Inr None, Some s1))"
      using False rc by (auto simp: receive_snapshot_def Let_def s_def split: option.splits)
    show ?thesis
    proof (cases "isr_done ?req")
      case True
      then have "\<lparr>snap_meta = snap_meta snap, snap_data = cur_bytes (stm_data s1)\<rparr> = snap" using w(3,4) by simp
      then show ?thesis
        using r rs i True \<open>vote \<ge> tp_vote t\<close>
        by (auto simp: receiver_gets_def install_snapshot_api_def transport_inv_def chunk_taken_def Let_def)
    next
      case nd: False
      then have t': "t' = t\<lparr>tp_streaming := Some s1\<rparr>" "out = ChunkOk (tp_vote t)"
        using r rs \<open>vote \<ge> tp_vote t\<close> by (auto simp: receiver_gets_def install_snapshot_api_def)
      have "stream_prefix snap (tp_offset t) s1" using stream_prefix_mono[OF w(1)] by simp
      then show ?thesis using t' w(1) nd i by (auto simp: transport_inv_def chunk_taken_def Let_def)
    qed
  qed
qed

lemma sender_gets_inv:
  assumes i: "transport_inv vote snap t" and n: "tp_result t = None"
    and out: "\<And>v. out = ChunkOk v \<Longrightarrow> v > vote \<or> chunk_taken csize vote snap t t"
  shows "transport_inv vote snap (sender_gets (snapshot_chunk csize vote snap (tp_offset t)) out t)"
proof -
  let ?req = "snapshot_chunk csize vote snap (tp_offset t)"
  have zero: "transport_inv vote snap (t\<lparr>tp_offset := 0, tp_result := None, tp_sent := tp_sent t @ [?req]\<rparr>)"
    and same: "transport_inv vote snap (t\<lparr>tp_result := None, tp_sent := tp_sent t @ [?req]\<rparr>)"
    using i n stream_prefix_mono by (fastforce simp: transport_inv_def)+
  show ?thesis
  proof (cases out)
    case (ChunkOk v)
    note o = out[OF ChunkOk] and le = snapshot_chunk_length[of "tp_offset t" snap csize vote]
    show ?thesis
    proof (cases "v > vote \<or> isr_done ?req")
      case True
      then have "v > vote \<or> snap \<in> set (tp_installed t)" using o by (auto simp: chunk_taken_def Let_def)
      then show ?thesis using True ChunkOk i by (auto simp: sender_gets_def transport_inv_def)
    next
      case False
      then show ?thesis
        using ChunkOk i n o le by (auto simp: sender_gets_def transport_inv_def chunk_taken_def Let_def)
    qed
  next
    case (ChunkRemote err)
    show ?thesis
    proof (cases err)
      case (APIError e)
      then show ?thesis using ChunkRemote zero by (cases e) (simp add: sender_gets_def)
    qed (use ChunkRemote same n in \<open>simp add: sender_gets_def\<close>)
  qed (use same n in \<open>simp_all add: sender_gets_def\<close>)
qed

lemma receive_snapshot_ids:
  assumes "receive_snapshot b req st = (res, st')"
  shows "(st' = st \<or> st' = None \<or> (\<exists>s'. st' = Some s' \<and> stm_snapshot_id s' = snap_id (isr_meta req)))
    \<and> (\<forall>s. res = Inr (Some s) \<longrightarrow> snap_meta s = isr_meta req)"
proof -
  have id: "streaming_receive req s = (d, s') \<Longrightarrow> stm_snapshot_id s' = stm_snapshot_id s" for s d s'
    by (auto simp: streaming_receive_def Let_def)
  show ?thesis
    using assms
    by (auto simp: receive_snapshot_def streaming_new_def Let_def dest!: id split: prod.splits option.splits sum.splits if_splits)
qed

lemma receiver_gets_other:
  assumes "transport_inv vote snap t" "snap_id (isr_meta req) \<noteq> snap_id (snap_meta snap)"
  shows "transport_inv vote snap (snd (receiver_gets req t))"
proof (cases "isr_vote req \<ge> tp_vote t")
  case True
  obtain res st' where r: "receive_snapshot (Inr cursor_new) req (tp_streaming t) = (res, st')" by force
  note ids = receive_snapshot_ids[OF r]
  have inv: "transport_inv vote snap (t\<lparr>tp_streaming := st', tp_vote := w\<rparr>)" for w
    using ids assms by (auto simp: transport_inv_def)
  show ?thesis
  proof (cases "\<exists>s. res = Inr (Some s)")
    case True
    then obtain s where "res = Inr (Some s)" "snap_meta s = isr_meta req" using ids by blast
    then show ?thesis
      using inv[of "isr_vote req"] r assms(2) \<open>isr_vote req \<ge> tp_vote t\<close>
      by (auto simp: receiver_gets_def install_snapshot_api_def transport_inv_def)
  next
    case False
    then have "snd (receiver_gets req t) = t\<lparr>tp_streaming := st', tp_vote := tp_vote t\<rparr>"
      using r \<open>isr_vote req \<ge> tp_vote t\<close>
      by (auto simp: receiver_gets_def install_snapshot_api_def split: sum.splits option.splits)
    then show ?thesis using inv[of "tp_vote t"] by (simp only:)
  qed
qed (use assms in \<open>simp add: receiver_gets_def install_snapshot_api_def\<close>)

lemma transport_step_inv:
  assumes i: "transport_inv vote snap t" and o: "in_order snap ev"
  shows "transport_inv vote snap (transport_step csize vote snap ev t)"
proof -
  let ?req = "snapshot_chunk csize vote snap (tp_offset t)"
  obtain out t1 where r: "receiver_gets ?req t = (out, t1)" by force
  note g = receiver_gets_chunk[OF i r]
  have same: "chunk_taken csize vote snap t1 t1 = chunk_taken csize vote snap t t1" using g by (simp add: chunk_taken_def)
  show ?thesis
  proof (cases ev)
    case Deliver
    then show ?thesis
      using r g same i sender_gets_inv[of vote snap t1 out csize] by (auto simp: Let_def)
  next
    case LoseRequest
    then show ?thesis using sender_gets_inv[OF i, of ChunkElapsed csize] i by auto
  next
    case LoseResponse
    then show ?thesis using r g i sender_gets_inv[of vote snap t1 ChunkElapsed csize] by (auto simp: Let_def)
  next
    case (OtherChunk req)
    then show ?thesis using receiver_gets_other[OF i] o by simp
  qed (use i o in \<open>simp_all add: transport_inv_def\<close>)
qed

lemma transport_run_inv:
  assumes "\<forall>ev \<in> set evs. in_order snap ev" "transport_inv vote snap t"
  shows "transport_inv vote snap (transport_run csize vote snap evs t)"
  using assms by (induction evs arbitrary: t) (auto simp: transport_run_def transport_step_inv)

lemma transport_start_inv:
  "\<forall>s. st = Some s \<longrightarrow> stm_snapshot_id s \<noteq> snap_id (snap_meta snap) \<Longrightarrow> transport_inv vote snap (transport_start v st)"
  by (simp add: transport_inv_def transport_start_def)

section \<open>A transport ends\<close>

definition synced :: "snapshot \<Rightarrow> transport \<Rightarrow> bool" where
  "synced snap t \<longleftrightarrow> tp_offset t = 0 \<or> map_option stm_snapshot_id (tp_streaming t) = Some (snap_id (snap_meta snap))"

lemma deliver_synced:
  assumes i: "transport_inv vote snap t" and v: "tp_vote t \<le> vote" and n: "tp_result t = None" and s: "synced snap t"
    and c: "0 < csize"
  defines "t' \<equiv> transport_step csize vote snap Deliver t"
  shows "if length (snap_data snap) \<le> tp_offset t + csize then tp_result t' = Some vote
    else tp_result t' = None \<and> tp_offset t' = tp_offset t + csize \<and> synced snap t' \<and> tp_vote t' \<le> vote"
proof -
  let ?req = "snapshot_chunk csize vote snap (tp_offset t)" and ?id = "snap_id (snap_meta snap)"
  have off: "tp_offset t \<le> length (snap_data snap)" using i by (simp add: transport_inv_def)
  have dn: "isr_done ?req \<longleftrightarrow> length (snap_data snap) \<le> tp_offset t + csize"
    using off c by (auto simp: snapshot_chunk_def Let_def)
  have len: "\<not> isr_done ?req \<Longrightarrow> length (isr_data ?req) = csize"
    using dn off by (auto simp: snapshot_chunk_def Let_def)
  obtain s0 where s0: "stm_snapshot_id s0 = ?id"
    "receive_snapshot (Inr cursor_new) ?req (tp_streaming t) = (let (_, s1) = streaming_receive ?req s0 in
        if isr_done ?req then (Inr (Some \<lparr>snap_meta = snap_meta snap, snap_data = cur_bytes (stm_data s1)\<rparr>), None)
        else (Inr None, Some s1))"
  proof (cases "map_option stm_snapshot_id (tp_streaming t) = Some ?id")
    case True
    then obtain x where "tp_streaming t = Some x" "stm_snapshot_id x = ?id" by auto
    then show ?thesis using that[of x] by (simp add: receive_snapshot_def Let_def case_prod_beta)
  next
    case False
    then have "tp_offset t = 0" using s by (auto simp: synced_def)
    then show ?thesis
      using False that[of "streaming_new ?id cursor_new"] by (simp add: receive_snapshot_def Let_def streaming_new_def case_prod_beta)
  qed
  obtain d s1 where s1: "streaming_receive ?req s0 = (d, s1)" by force
  have id1: "stm_snapshot_id s1 = ?id" using s1 s0(1) by (auto simp: streaming_receive_def Let_def)
  show ?thesis
  proof (cases "isr_done ?req")
    case True
    then show ?thesis
      using dn v n s0(2) s1
      by (auto simp: t'_def Let_def receiver_gets_def install_snapshot_api_def sender_gets_def split: prod.splits)
  next
    case False
    then show ?thesis
      using dn len v n s0(2) s1 id1
      by (auto simp: t'_def Let_def receiver_gets_def install_snapshot_api_def sender_gets_def synced_def split: prod.splits)
  qed
qed

lemma deliver_run:
  assumes "transport_inv vote snap t" "tp_vote t \<le> vote" "tp_result t = None" "synced snap t" "0 < csize"
    "length (snap_data snap) \<le> tp_offset t + Suc n * csize"
  shows "tp_result (transport_run csize vote snap (replicate (Suc n) Deliver) t) = Some vote"
  using assms
proof (induction n arbitrary: t)
  case 0
  then show ?case using deliver_synced[OF 0(1-5)] by (simp add: transport_run_def)
next
  case (Suc n)
  let ?t = "transport_step csize vote snap Deliver t"
  have ended: "transport_run csize vote snap (replicate k Deliver) t' = t'" if "tp_result t' \<noteq> None" for k t'
    using that by (induction k) (auto simp: transport_run_def)
  show ?case
  proof (cases "length (snap_data snap) \<le> tp_offset t + csize")
    case True
    then have "tp_result ?t = Some vote" using deliver_synced[OF Suc.prems(1-5)] by simp
    then show ?thesis using ended[of ?t "Suc n"] by (simp add: transport_run_def)
  next
    case False
    then have "tp_result ?t = None" "tp_offset ?t = tp_offset t + csize" "synced snap ?t" "tp_vote ?t \<le> vote"
      using deliver_synced[OF Suc.prems(1-5)] by simp_all
    moreover have "transport_inv vote snap ?t" by (rule transport_step_inv[OF Suc.prems(1)]) simp
    ultimately have "tp_result (transport_run csize vote snap (replicate (Suc n) Deliver) ?t) = Some vote"
      using Suc.IH[of ?t] Suc.prems(5,6) by (simp add: algebra_simps)
    then show ?thesis by (simp add: transport_run_def)
  qed
qed

lemma transport_run_append: "transport_run csize vote snap (xs @ ys) t = transport_run csize vote snap ys (transport_run csize vote snap xs t)"
  by (simp add: transport_run_def)

lemma transport_run_ended: "tp_result t \<noteq> None \<Longrightarrow> transport_run csize vote snap (replicate k Deliver) t = t"
  by (induction k) (auto simp: transport_run_def)

text \<open>From any state: one chunk that is refused sends the sender back to the start.\<close>

lemma deliver_resyncs:
  fixes csize :: nat
  assumes "\<not> synced snap t" "tp_vote t \<le> vote" "tp_result t = None"
  defines "t' \<equiv> transport_step csize vote snap Deliver t"
  shows "tp_result t' = None \<and> tp_offset t' = 0 \<and> tp_vote t' = tp_vote t"
proof -
  have "receive_snapshot (Inr cursor_new) (snapshot_chunk csize vote snap (tp_offset t)) (tp_streaming t)
      = (Inl (APIError (SnapshotMismatch (snap_id (snap_meta snap), 0) (snap_id (snap_meta snap), tp_offset t))), tp_streaming t)"
    using assms(1) by (auto simp: synced_def receive_snapshot_def Let_def)
  then show ?thesis
    using assms(2,3) by (simp add: t'_def Let_def receiver_gets_def install_snapshot_api_def sender_gets_def)
qed

lemma deliver_all:
  assumes i: "transport_inv vote snap t" and v: "tp_vote t \<le> vote" and n: "tp_result t = None" and c: "0 < csize"
    and k: "length (snap_data snap) div csize + 2 \<le> k"
  shows "tp_result (transport_run csize vote snap (replicate k Deliver) t) = Some vote"
proof -
  let ?n = "length (snap_data snap) div csize"
  have len: "length (snap_data snap) \<le> Suc ?n * csize"
    using dividend_less_div_times[OF c, of "length (snap_data snap)"] by simp
  have run: "tp_result (transport_run csize vote snap (replicate m Deliver) t') = Some vote"
    if "transport_inv vote snap t'" "tp_vote t' \<le> vote" "tp_result t' = None" "synced snap t'" "Suc ?n \<le> m" for t' m
  proof -
    have "tp_result (transport_run csize vote snap (replicate (Suc ?n) Deliver) t') = Some vote"
      using deliver_run[OF that(1-4) c] len by (simp add: trans_le_add2)
    moreover have "replicate m Deliver = replicate (Suc ?n) Deliver @ replicate (m - Suc ?n) Deliver"
      using that(5) by (metis le_add_diff_inverse replicate_add)
    ultimately show ?thesis by (simp add: transport_run_append transport_run_ended del: replicate_Suc)
  qed
  show ?thesis
  proof (cases "synced snap t")
    case False
    let ?t = "transport_step csize vote snap Deliver t"
    have "tp_result ?t = None" "synced snap ?t" "tp_vote ?t \<le> vote"
      using deliver_resyncs[OF False v n, of csize] v by (simp_all add: synced_def)
    moreover have "transport_inv vote snap ?t" by (rule transport_step_inv[OF i]) simp
    moreover obtain m where "k = Suc m" "Suc ?n \<le> m" using k by (cases k) auto
    ultimately show ?thesis using run[of ?t m] by (simp add: transport_run_def)
  qed (use run[OF i v n] k in simp)
qed

section \<open>What a transport guarantees\<close>

text \<open>
  C15. Over a network that loses requests and responses but does not deliver late, with a receiver that
  restarts, votes for others and takes chunks of other snapshots in between: every snapshot installed
  under the id of the sent one is the sent one, byte for byte, and a sender that ends has seen it
  installed or a greater vote.
\<close>

theorem chunked_transport_exact:
  fixes csize :: nat and vote v0 :: raft_vote
  assumes "\<forall>s. st = Some s \<longrightarrow> stm_snapshot_id s \<noteq> snap_id (snap_meta snap)" "\<forall>ev \<in> set evs. in_order snap ev"
  defines "t \<equiv> transport_run csize vote snap evs (transport_start v0 st)"
  shows "(\<forall>s \<in> set (tp_installed t). snap_id (snap_meta s) = snap_id (snap_meta snap) \<longrightarrow> s = snap)
    \<and> (\<forall>v. tp_result t = Some v \<longrightarrow> v > vote \<or> snap \<in> set (tp_installed t))"
  using transport_run_inv[OF assms(2) transport_start_inv[OF assms(1)]] unfolding t_def by (simp add: transport_inv_def)

text \<open>
  C16. Whatever has happened before, once chunks get through and no greater vote is seen the sender ends
  after at most two chunks more than the data needs, and the snapshot is installed.
\<close>

theorem chunked_transport_ends:
  fixes csize :: nat and vote v0 :: raft_vote
  assumes "\<forall>s. st = Some s \<longrightarrow> stm_snapshot_id s \<noteq> snap_id (snap_meta snap)" "\<forall>ev \<in> set evs. in_order snap ev" "0 < csize"
  defines "t \<equiv> transport_run csize vote snap evs (transport_start v0 st)"
  assumes "tp_vote t \<le> vote" "tp_result t = None"
  defines "t' \<equiv> transport_run csize vote snap (replicate (length (snap_data snap) div csize + 2) Deliver) t"
  shows "tp_result t' = Some vote \<and> snap \<in> set (tp_installed t')"
proof -
  have i: "transport_inv vote snap t"
    unfolding t_def by (rule transport_run_inv[OF assms(2) transport_start_inv[OF assms(1)]])
  have "transport_inv vote snap t'" unfolding t'_def by (rule transport_run_inv[OF _ i]) simp
  moreover have "tp_result t' = Some vote" unfolding t'_def by (rule deliver_all[OF i assms(5,6,3)]) simp
  ultimately show ?thesis by (simp add: transport_inv_def)
qed

text \<open>The transport when the first \<open>k\<close> chunks have been written since the sender last started.\<close>

definition written :: "nat \<Rightarrow> snapshot \<Rightarrow> nat \<Rightarrow> streaming option" where
  "written c snap k = (if k = 0 then None else Some \<lparr>stm_offset = k * c, stm_snapshot_id = snap_id (snap_meta snap),
     stm_data = \<lparr>cur_pos = k * c, cur_bytes = take (k * c) (snap_data snap)\<rparr>\<rparr>)"

definition chunks_written :: "nat \<Rightarrow> raft_vote \<Rightarrow> snapshot \<Rightarrow> install_snapshot_request list \<Rightarrow> nat \<Rightarrow> transport" where
  "chunks_written c vote snap sent k = \<lparr>tp_offset = k * c, tp_result = None, tp_sent = sent,
     tp_streaming = written c snap k, tp_vote = vote, tp_installed = []\<rparr>"

lemma take_chunk: "take (k * c) d @ take c (drop (k * c) d) = take (Suc k * c) d"
  by (metis add.commute mult_Suc take_add)

lemma deliver_written:
  assumes "Suc k * c < length (snap_data snap)"
  shows "transport_step c vote snap Deliver (chunks_written c vote snap sent k)
    = chunks_written c vote snap (sent @ [snapshot_chunk c vote snap (k * c)]) (Suc k)"
proof -
  have len: "length (take (k * c) (snap_data snap)) = k * c" "length (take c (drop (k * c) (snap_data snap))) = c"
    using assms by simp_all
  show ?thesis
    unfolding chunks_written_def
    using assms len take_chunk[of k c "snap_data snap"]
    by (cases k) (simp_all add: snapshot_chunk_def receiver_gets_def sender_gets_def install_snapshot_api_def receive_snapshot_def
        streaming_receive_def streaming_new_def cursor_new_def cursor_write_all_def written_def Let_def)
qed

lemma deliver_written_many:
  "(k + j) * c < length (snap_data snap) \<Longrightarrow>
     \<exists>more. length more = j \<and> transport_run c vote snap (replicate j Deliver) (chunks_written c vote snap sent k)
       = chunks_written c vote snap (sent @ more) (k + j)"
proof (induction j arbitrary: k sent)
  case 0
  then show ?case by (simp add: transport_run_def)
next
  case (Suc j)
  have "Suc k * c \<le> (k + Suc j) * c" by simp
  then have k: "Suc k * c < length (snap_data snap)" using Suc.prems by linarith
  have "(Suc k + j) * c < length (snap_data snap)" using Suc.prems by simp
  from Suc.IH[OF this, of "sent @ [snapshot_chunk c vote snap (k * c)]"]
  obtain more where m: "length more = j" "transport_run c vote snap (replicate j Deliver)
      (chunks_written c vote snap (sent @ [snapshot_chunk c vote snap (k * c)]) (Suc k))
    = chunks_written c vote snap (sent @ snapshot_chunk c vote snap (k * c) # more) (Suc k + j)" by auto
  have "transport_run c vote snap (replicate (Suc j) Deliver) (chunks_written c vote snap sent k)
    = chunks_written c vote snap (sent @ snapshot_chunk c vote snap (k * c) # more) (k + Suc j)"
    using m(2) deliver_written[OF k, of vote sent] by (simp add: transport_run_def)
  then show ?case using m(1) by (intro exI[of _ "snapshot_chunk c vote snap (k * c) # more"]) simp
qed

text \<open>
  C17. A chunk that arrives late corrupts a snapshot, whatever its data, its chunk size and the number of its
  chunks: the last chunk is held up after \<open>m\<close> others, the receiver restarts, the sender starts again and
  has sent its first \<open>j\<close> chunks when the held one arrives. It is written behind a gap of zeros in place of the
  chunks from \<open>j\<close> to \<open>m\<close>, and the snapshot is installed like that, under its id; the sender knows nothing. What is
  installed is not the snapshot unless those chunks are all zeros.
\<close>

theorem late_chunk_corrupts:
  fixes c m j :: nat and vote :: raft_vote
  assumes "0 < j" "j < m" "m * c < length (snap_data snap)" "length (snap_data snap) \<le> Suc m * c"
  defines "t \<equiv> transport_run c vote snap
      (replicate m Deliver @ [LoseRequest, ReceiverRestart, Deliver] @ replicate j Deliver @ [LateChunk m]) (transport_start vote None)"
  shows "tp_installed t = [snap\<lparr>snap_data := take (j * c) (snap_data snap) @ replicate ((m - j) * c) (CHR 0x00)
        @ drop (m * c) (snap_data snap)\<rparr>] \<and> tp_result t = None
    \<and> (snap \<in> set (tp_installed t) \<longrightarrow> (\<forall>k. j * c \<le> k \<and> k < m * c \<longrightarrow> snap_data snap ! k = CHR 0x00))"
proof -
  let ?d = "snap_data snap"
  let ?last = "snapshot_chunk c vote snap (m * c)"
  have last: "?last = \<lparr>isr_vote = vote, isr_meta = snap_meta snap, isr_offset = m * c, isr_data = drop (m * c) ?d, isr_done = True\<rparr>"
    using assms(3,4) by (simp add: snapshot_chunk_def)
  have c: "0 < c" using assms(3,4) by (cases c) auto
  have jm: "j * c < m * c" using c assms(2) by simp
  have start: "transport_start vote None = chunks_written c vote snap [] 0"
    by (simp add: transport_start_def chunks_written_def written_def)
  obtain first where f: "length first = m" "transport_run c vote snap (replicate m Deliver) (transport_start vote None)
      = chunks_written c vote snap first m"
    using deliver_written_many[of 0 m c snap vote "[]"] assms(3) start by auto
  have restart: "transport_run c vote snap [LoseRequest, ReceiverRestart, Deliver] (chunks_written c vote snap first m)
      = chunks_written c vote snap (first @ [?last, ?last]) 0"
    using assms(1,2) c by (simp add: transport_run_def chunks_written_def written_def sender_gets_def receiver_gets_def last
        install_snapshot_api_def receive_snapshot_def Let_def)
  obtain more where more: "transport_run c vote snap (replicate j Deliver) (chunks_written c vote snap (first @ [?last, ?last]) 0)
      = chunks_written c vote snap (first @ [?last, ?last] @ more) j"
    using deliver_written_many[of 0 j c snap vote "first @ [?last, ?last]"] jm assms(3) by auto
  have t: "t = transport_step c vote snap (LateChunk m) (chunks_written c vote snap (first @ [?last, ?last] @ more) j)"
    unfolding t_def transport_run_append f(2) restart more by (simp add: transport_run_def)
  have len: "length (take (j * c) ?d) = j * c" "m * c - j * c = (m - j) * c"
    using less_trans[OF jm assms(3)] by (simp_all add: diff_mult_distrib)
  have res: "tp_installed t = [snap\<lparr>snap_data := take (j * c) ?d @ replicate ((m - j) * c) (CHR 0x00) @ drop (m * c) ?d\<rparr>]
      \<and> tp_result t = None"
    using f(1) assms(1) jm len
    by (simp add: t nth_append last chunks_written_def written_def receiver_gets_def install_snapshot_api_def receive_snapshot_def
        streaming_receive_def cursor_seek_start_def cursor_write_all_def Let_def)
  have "?d ! k = CHR 0x00" if "snap \<in> set (tp_installed t)" "j * c \<le> k" "k < m * c" for k
  proof -
    have "snap = snap\<lparr>snap_data := take (j * c) ?d @ replicate ((m - j) * c) (CHR 0x00) @ drop (m * c) ?d\<rparr>"
      using that(1) unfolding conjunct1[OF res] by (simp only: list.set insert_iff empty_iff simp_thms)
    from arg_cong[OF this, of snap_data]
    have "?d ! k = (take (j * c) ?d @ replicate ((m - j) * c) (CHR 0x00) @ drop (m * c) ?d) ! k" by simp
    moreover have "k - j * c < (m - j) * c" using that(2,3) len(2) by linarith
    ultimately show ?thesis using that(2) len(1) by (simp add: nth_append)
  qed
  then show ?thesis using res by blast
qed

text \<open>With a chunk size of 0, which the validation of the configuration accepts, only a greater vote ends the sender.\<close>

lemma zero_chunk_step:
  fixes ev :: transport_event
  assumes "snap_data snap \<noteq> []" "tp_offset t = 0" "\<forall>v. tp_result t = Some v \<longrightarrow> v > vote"
  defines "t' \<equiv> transport_step 0 vote snap ev t"
  shows "tp_offset t' = 0 \<and> (\<forall>v. tp_result t' = Some v \<longrightarrow> v > vote)"
proof -
  have r: "receiver_gets req t = (out, t1) \<Longrightarrow> tp_offset t1 = tp_offset t \<and> tp_result t1 = tp_result t" for req out t1
    by (auto simp: receiver_gets_def split: prod.splits)
  have r2: "tp_offset (snd (receiver_gets req t)) = tp_offset t" "tp_result (snd (receiver_gets req t)) = tp_result t" for req
    by (auto simp: receiver_gets_def split: prod.splits)
  have chunk: "\<not> isr_done (snapshot_chunk 0 vote snap 0)" "isr_data (snapshot_chunk 0 vote snap 0) = []"
    using assms(1) by (simp_all add: snapshot_chunk_def)
  have on: "on_chunk (snapshot_chunk 0 vote snap 0) out 0 = (off, res) \<Longrightarrow> off = 0 \<and> (\<forall>v. res = Some v \<longrightarrow> v > vote)" for out off res
    using chunk by (induction "snapshot_chunk 0 vote snap 0" out "0 :: nat" rule: on_chunk.induct) (auto split: if_splits)
  have s: "tp_offset t1 = 0 \<Longrightarrow> tp_offset (sender_gets (snapshot_chunk 0 vote snap 0) out t1) = 0
      \<and> (\<forall>v. tp_result (sender_gets (snapshot_chunk 0 vote snap 0) out t1) = Some v \<longrightarrow> v > vote)" for out t1
    using on[of out] by (auto simp: sender_gets_def split: prod.splits)
  show ?thesis
  proof (cases ev)
    case Deliver
    obtain a b where ab: "receiver_gets (snapshot_chunk 0 vote snap 0) t = (a, b)" by force
    then show ?thesis using assms(2,3) r[OF ab] s[of b a] Deliver by (auto simp: t'_def Let_def)
  next
    case LoseResponse
    then show ?thesis
      using assms(2,3) r2 s[of "snd (receiver_gets (snapshot_chunk 0 vote snap 0) t)" ChunkElapsed]
      by (auto simp: t'_def Let_def)
  qed (use assms(2,3) r2 s[of t ChunkElapsed] in \<open>auto simp: t'_def Let_def\<close>)
qed

lemma zero_chunk_never_ends:
  assumes "snap_data snap \<noteq> []"
  shows "tp_result (transport_run 0 vote snap evs (transport_start v0 st)) = Some v \<Longrightarrow> v > vote"
    "config_validate (config_default\<lparr>cf_snapshot_max_chunk_size := 0\<rparr>) = Inr (config_default\<lparr>cf_snapshot_max_chunk_size := 0\<rparr>)"
proof -
  have run: "tp_offset t = 0 \<Longrightarrow> \<forall>v. tp_result t = Some v \<longrightarrow> v > vote
    \<Longrightarrow> \<forall>v. tp_result (transport_run 0 vote snap evs t) = Some v \<longrightarrow> v > vote" for t
  proof (induction evs arbitrary: t)
    case (Cons ev evs)
    show ?case
      using Cons.IH[of "transport_step 0 vote snap ev t"] zero_chunk_step[OF assms Cons.prems, of ev]
      by (simp add: transport_run_def)
  qed (simp add: transport_run_def)
  show "tp_result (transport_run 0 vote snap evs (transport_start v0 st)) = Some v \<Longrightarrow> v > vote"
    using run[of "transport_start v0 st"] by (auto simp: transport_start_def)
qed (simp add: config_validate_def config_default_def)

section \<open>Witnesses\<close>

definition sent_meta :: "string \<Rightarrow> snapshot_meta" where
  "sent_meta i = \<lparr>snap_last_log_id = Some (LogId (LeaderId 1 1) 1),
     snap_last_membership = \<lparr>sm_log_id = None, sm_membership = \<lparr>configs = [[1, 2]], m_nodes = []\<rparr>\<rparr>, snap_id = i\<rparr>"

definition sent_snapshot :: snapshot where
  "sent_snapshot = \<lparr>snap_meta = sent_meta ''a'', snap_data = ''ABC''\<rparr>"

text \<open>A lost response, a restart and a chunk of another snapshot.\<close>

definition sent_faults :: "transport_event list" where
  "sent_faults = [Deliver, LoseResponse, ReceiverRestart, Deliver,
     OtherChunk \<lparr>isr_vote = Vote (LeaderId 1 1) True, isr_meta = sent_meta ''b'', isr_offset = 0, isr_data = ''X'', isr_done = True\<rparr>]"

lemmas transport_eval = transport_run_def transport_start_def receiver_gets_def sender_gets_def install_snapshot_api_def
  receive_snapshot_def streaming_receive_def streaming_new_def cursor_new_def cursor_write_all_def cursor_seek_start_def
  snapshot_chunk_def Let_def

lemma sent_in_order: "\<forall>ev \<in> set sent_faults. in_order sent_snapshot ev"
  by (simp add: sent_faults_def sent_snapshot_def sent_meta_def)

abbreviation sender_vote :: raft_vote where
  "sender_vote \<equiv> Vote (LeaderId 1 1) True"

theorem late_chunk_corrupts_witness:
  "map snap_data (tp_installed (transport_run 4 sender_vote (sent_snapshot\<lparr>snap_data := ''ABCDEFGHIJ''\<rparr>)
      (replicate 2 Deliver @ [LoseRequest, ReceiverRestart, Deliver] @ replicate 1 Deliver @ [LateChunk 2])
      (transport_start sender_vote None))) = [''ABCD'' @ replicate 4 (CHR 0x00) @ ''IJ'']"
  using late_chunk_corrupts[of 1 2 4 "sent_snapshot\<lparr>snap_data := ''ABCDEFGHIJ''\<rparr>" sender_vote] by simp

abbreviation faulty_transport :: transport where
  "faulty_transport \<equiv> transport_run 2 sender_vote sent_snapshot sent_faults (transport_start sender_vote None)"

lemma faulty_transport_state: "tp_result faulty_transport = None" "tp_vote faulty_transport = sender_vote"
  by (simp_all add: transport_eval sent_faults_def sent_snapshot_def sent_meta_def numeral_2_eq_2)

theorem chunked_transport_exact_witness:
  "tp_result (transport_run 2 sender_vote sent_snapshot (sent_faults @ [Deliver, Deliver])
      (transport_start sender_vote None)) = Some sender_vote
   \<and> sent_snapshot \<in> set (tp_installed (transport_run 2 sender_vote sent_snapshot
      (sent_faults @ [Deliver, Deliver]) (transport_start sender_vote None)))"
proof -
  let ?t = "transport_run 2 sender_vote sent_snapshot (sent_faults @ [Deliver, Deliver])
      (transport_start sender_vote None)"
  have r: "tp_result ?t = Some sender_vote"
    by (simp add: transport_eval sent_faults_def sent_snapshot_def sent_meta_def numeral_2_eq_2)
  have "\<forall>ev \<in> set (sent_faults @ [Deliver, Deliver]). in_order sent_snapshot ev" using sent_in_order by simp
  from chunked_transport_exact[OF _ this, of None 2 sender_vote sender_vote] r show ?thesis by auto
qed

theorem chunked_transport_ends_witness:
  "tp_result (transport_run 2 sender_vote sent_snapshot (replicate 3 Deliver) faulty_transport) = Some sender_vote
   \<and> sent_snapshot \<in> set (tp_installed (transport_run 2 sender_vote sent_snapshot (replicate 3 Deliver) faulty_transport))"
proof -
  have "length (snap_data sent_snapshot) div 2 + 2 = (3 :: nat)" by (simp add: sent_snapshot_def)
  from chunked_transport_ends[of None sent_snapshot sent_faults 2 sender_vote sender_vote, unfolded this]
  show ?thesis using sent_in_order faulty_transport_state by fastforce
qed

end
