(* ===== verification/ClusterVotes.thy ===== *)
theory ClusterVotes
imports Cluster
begin

text \<open>
  What the votes of a cluster guarantee, in every reachable state and across crashes, and a run of
  three nodes in which node 1 is elected by node 2.
\<close>

section \<open>A run of three nodes\<close>

definition boot_core :: "nat \<Rightarrow> raft_core" where
  "boot_core i = \<lparr>rc_engine = engine_new ((rs_new i)\<lparr>rs_log_ids := [LogId (LeaderId 0 0) 0],
       rs_membership_state := \<lparr>ms_committed = em_new (Some (LogId (LeaderId 0 0) 0)) example_members,
         ms_effective = em_new (Some (LogId (LeaderId 0 0) 0)) example_members\<rparr>,
       rs_io_state := ios_new (Vote (LeaderId 0 i) False) (Some (LogId (LeaderId 0 0) 0)) None None\<rparr>)
     (example_config\<lparr>ec_id := i\<rparr>),
   rc_snapshot_policy = SnapshotNever, rc_heartbeat_interval = 5, rc_enable_heartbeat = True, rc_enable_elect = True,
   rc_snapshot_tried_at = None, rc_client_responders = [], rc_replications = [], rc_heartbeats = [],
   rc_committed_tx = None, rc_rx_api = [], rc_rx_notification = [], rc_balancer = balancer_new 10, rc_effects = []\<rparr>"

definition boot_cluster :: cluster where
  "boot_cluster = \<lparr>cl_core = boot_core, cl_disk = (\<lambda>i. Vote (LeaderId 0 i) False), cl_won = []\<rparr>"

definition good :: "nat \<Rightarrow> bool" where
  "good n = True"

definition run :: "raft_core \<Rightarrow> raft_core" where
  "run c = snd (the (run_engine_commands good 9 c))"

definition take_own :: "raft_core \<Rightarrow> raft_core" where
  "take_own c = snd (the (handle_notification 9 (hd (rc_rx_notification c))
     (c\<lparr>rc_rx_notification := tl (rc_rx_notification c)\<rparr>)))"

abbreviation example_vote :: raft_vote where
  "example_vote \<equiv> Vote (LeaderId 1 1) False"

abbreviation example_request :: vote_request where
  "example_request \<equiv> \<lparr>vq_vote = example_vote, vq_last_log_id = Some (LogId (LeaderId 0 0) 0)\<rparr>"

abbreviation example_response :: vote_response where
  "example_response \<equiv> \<lparr>vr_vote = example_vote, vr_granted = True, vr_last_log_id = Some (LogId (LeaderId 0 0) 0)\<rparr>"

text \<open>Node 1 runs for election, saves its vote and grants it to itself; node 2 grants it.\<close>

definition elect1 :: raft_core where
  "elect1 = the (handle_api_msg 9 good (MsgExternalCommand ExtElect) (boot_core 1))"

definition voted1 :: raft_core where
  "voted1 = take_own (take_own (run elect1))"

definition asked2 :: raft_core where
  "asked2 = the (handle_api_msg 9 good (MsgRequestVote example_request 7) (boot_core 2))"

definition saved2 :: raft_core where
  "saved2 = take_own (run asked2)"

definition led1 :: raft_core where
  "led1 = snd (the (handle_notification 9 (NVoteResponse 2 example_response (UncommittedVote (LeaderId 1 1))) voted1))"

definition led_cluster :: cluster where
  "led_cluster = cl_update 1 example_vote led1
     (elections (NVoteResponse 2 example_response (UncommittedVote (LeaderId 1 1))) (rc_engine voted1) (rc_engine led1))
     (cl_update 2 example_vote (run saved2) [] (cl_update 1 example_vote voted1 [] boot_cluster))"

lemma reach_step:
  "cluster_reachable s \<Longrightarrow> node_step (cl_sent s) i (cl_disk s i) (cl_core s i) d c ws \<Longrightarrow> cluster_reachable (cl_update i d c ws s)"
  by (rule cluster_reachable.step[OF _ cluster_step.intros])

lemma cl_update_simps [simp]:
  "cl_core (cl_update i d c ws s) j = (if j = i then c else cl_core s j)"
  "cl_disk (cl_update i d c ws s) j = (if j = i then d else cl_disk s j)"
  "cl_won (cl_update i d c ws s) = cl_won s @ ws"
  "cl_sent (cl_update i d c ws s) j = (if j = i then rc_effects c else cl_sent s j)"
  by (simp_all add: cl_update_def cl_sent_def)

lemma cl_update_again [simp]:
  "cl_update i d c ws (cl_update i d' c' [] s) = cl_update i d c ws s"
  by (simp add: cl_update_def)

lemma boot_cluster_init: "cluster_init boot_cluster"
  by (simp add: cluster_init_def boot_cluster_def booted_def boot_core_def cl_sent_def engine_new_def vote_ref_def
      rs_new_def leased_without_last_update_def vote_new_with_default_term_def lid_new_with_default_term_def
      example_config_def ios_new_def io_new_synchronized_def)

lemma run_step:
  assumes "map_option fst (run_engine_commands good 9 c) = Some (Inr ())" "rc_effects (run c) = rc_effects c @ fs"
  shows "node_step sent i d c (disk_of d fs) (run c) []"
proof (rule commands[OF _ assms(2)])
  show "run_engine_commands good 9 c = Some (Inr (), run c)" using assms(1) by (auto simp: run_def)
qed

lemma take_own_step:
  assumes "rc_rx_notification c = n # rest" "handle_notification 9 n (c\<lparr>rc_rx_notification := rest\<rparr>) \<noteq> None"
  shows "node_step sent i d c d (take_own c) (elections n (rc_engine c) (rc_engine (take_own c)))"
proof (rule own_notification[OF assms(1)])
  let ?r = "the (handle_notification 9 n (c\<lparr>rc_rx_notification := rest\<rparr>))"
  show "handle_notification 9 n (c\<lparr>rc_rx_notification := rest\<rparr>) = Some (fst ?r, take_own c)"
    using assms by (auto simp: take_own_def)
qed

lemma node1_runs:
  "handle_api_msg 9 good (MsgExternalCommand ExtElect) (boot_core 1) \<noteq> None"
  "map_option fst (run_engine_commands good 9 elect1) = Some (Inr ())"
  "rc_effects elect1 = []"
  "rc_effects (run elect1) = [EffSaveVote example_vote, EffVoteRpc 2 (BasicNode []) example_request, EffVoteRpc 3 (BasicNode []) example_request]"
  by code_simp+

lemma node1_votes:
  "rc_rx_notification (run elect1) = [NLocalIO (io_id_new example_vote),
     NVoteResponse 1 \<lparr>vr_vote = example_vote, vr_granted = True, vr_last_log_id = None\<rparr> (UncommittedVote (LeaderId 1 1))]"
  "handle_notification 9 (NLocalIO (io_id_new example_vote)) ((run elect1)\<lparr>rc_rx_notification :=
     [NVoteResponse 1 \<lparr>vr_vote = example_vote, vr_granted = True, vr_last_log_id = None\<rparr> (UncommittedVote (LeaderId 1 1))]\<rparr>) \<noteq> None"
  "rc_rx_notification (take_own (run elect1)) =
     [NVoteResponse 1 \<lparr>vr_vote = example_vote, vr_granted = True, vr_last_log_id = None\<rparr> (UncommittedVote (LeaderId 1 1))]"
  "handle_notification 9 (NVoteResponse 1 \<lparr>vr_vote = example_vote, vr_granted = True, vr_last_log_id = None\<rparr> (UncommittedVote (LeaderId 1 1)))
     ((take_own (run elect1))\<lparr>rc_rx_notification := []\<rparr>) \<noteq> None"
  by code_simp+

lemma node1_waits: "elections n (rc_engine c) (rc_engine voted1) = []"
proof -
  have "en_candidate (rc_engine voted1) \<noteq> None" by code_simp
  then show ?thesis by (auto simp: elections_def split: notification.splits option.splits)
qed

lemma node2_runs:
  "handle_api_msg 9 good (MsgRequestVote example_request 7) (boot_core 2) \<noteq> None"
  "map_option fst (run_engine_commands good 9 asked2) = Some (Inr ())"
  "rc_effects asked2 = []"
  "rc_effects (run asked2) = [EffSaveVote example_vote]"
  "hd (rc_rx_notification (run asked2)) = NLocalIO (io_id_new example_vote)"
  "handle_notification 9 (NLocalIO (io_id_new example_vote)) ((run asked2)\<lparr>rc_rx_notification := tl (rc_rx_notification (run asked2))\<rparr>) \<noteq> None"
  "rc_rx_notification (run asked2) \<noteq> []"
  "map_option fst (run_engine_commands good 9 saved2) = Some (Inr ())"
  "rc_effects saved2 = [EffSaveVote example_vote]"
  "rc_effects (run saved2) = [EffSaveVote example_vote, EffRespond (RespondVote example_response 7)]"
  by code_simp+

lemma node1_leads:
  "handle_notification 9 (NVoteResponse 2 example_response (UncommittedVote (LeaderId 1 1))) voted1 \<noteq> None"
  "elections (NVoteResponse 2 example_response (UncommittedVote (LeaderId 1 1))) (rc_engine voted1) (rc_engine led1)
     = [\<lparr>el_node = 1, el_vote = example_vote, el_quorum_set = [[1, 2, 3]], el_voters = [1, 2]\<rparr>]"
  by code_simp+

lemma voted1_reachable: "cluster_reachable (cl_update 1 example_vote voted1 [] boot_cluster)"
proof -
  let ?s0 = "boot_cluster"
  have "node_step (cl_sent ?s0) 1 (cl_disk ?s0 1) (cl_core ?s0 1) (cl_disk ?s0 1) elect1 []"
    by (rule client_message[of 9 good "MsgExternalCommand ExtElect"])
      (use node1_runs(1) in \<open>auto simp: elect1_def boot_cluster_def\<close>)
  note r1 = reach_step[OF cluster_reachable.init[OF boot_cluster_init] this]
  let ?s1 = "cl_update 1 (cl_disk ?s0 1) elect1 [] ?s0"
  have "node_step (cl_sent ?s1) 1 (cl_disk ?s1 1) (cl_core ?s1 1) example_vote (run elect1) []"
    using run_step[OF node1_runs(2), of _ "cl_sent ?s1" 1 "cl_disk ?s1 1"] node1_runs(3,4) by simp
  note r2 = reach_step[OF r1 this]
  let ?s2 = "cl_update 1 example_vote (run elect1) [] ?s0"
  have "node_step (cl_sent ?s2) 1 (cl_disk ?s2 1) (cl_core ?s2 1) (cl_disk ?s2 1) (take_own (run elect1)) []"
    using take_own_step[OF node1_votes(1,2), of "cl_sent ?s2" 1 "cl_disk ?s2 1"] elections_none by simp
  note r3 = reach_step[OF r2[unfolded cl_update_again] this]
  let ?s3 = "cl_update 1 example_vote (take_own (run elect1)) [] ?s0"
  have "node_step (cl_sent ?s3) 1 (cl_disk ?s3 1) (cl_core ?s3 1) (cl_disk ?s3 1) voted1 []"
    using take_own_step[OF node1_votes(3,4), of "cl_sent ?s3" 1 "cl_disk ?s3 1"]
    by (simp add: node1_waits del: One_nat_def flip: voted1_def)
  note n4 = this
  have "cluster_reachable ?s3" using r3 by (simp del: One_nat_def)
  from reach_step[OF this n4] show ?thesis by (simp del: One_nat_def)
qed

lemma led_reachable: "cluster_reachable led_cluster"
proof -
  let ?s0 = "cl_update 1 example_vote voted1 [] boot_cluster"
  have c2: "cl_core boot_cluster 2 = boot_core 2" by (simp add: boot_cluster_def)
  have "node_step (cl_sent ?s0) 2 (cl_disk ?s0 2) (cl_core ?s0 2) (cl_disk ?s0 2) asked2 []"
    by (rule client_message[of 9 good "MsgRequestVote example_request 7"])
      (use node2_runs(1) in \<open>auto simp: asked2_def c2\<close>)
  note r1 = reach_step[OF voted1_reachable this]
  let ?s1 = "cl_update 2 (cl_disk ?s0 2) asked2 [] ?s0"
  have "node_step (cl_sent ?s1) 2 (cl_disk ?s1 2) (cl_core ?s1 2) example_vote (run asked2) []"
    using run_step[OF node2_runs(2), of _ "cl_sent ?s1" 2 "cl_disk ?s1 2"] node2_runs(3,4) by simp
  note r2 = reach_step[OF r1 this]
  let ?s2 = "cl_update 2 example_vote (run asked2) [] ?s0"
  obtain n rest where n: "rc_rx_notification (run asked2) = n # rest" "n = NLocalIO (io_id_new example_vote)"
    using node2_runs(5,7) by (cases "rc_rx_notification (run asked2)") auto
  have h: "handle_notification 9 n ((run asked2)\<lparr>rc_rx_notification := rest\<rparr>) \<noteq> None"
    using node2_runs(6) unfolding n(1) list.sel n(2) .
  have "node_step (cl_sent ?s2) 2 (cl_disk ?s2 2) (cl_core ?s2 2) (cl_disk ?s2 2) saved2 []"
    using take_own_step[OF n(1) h, of "cl_sent ?s2" 2 "cl_disk ?s2 2"] elections_none[of n] n(2)
    by (simp flip: saved2_def)
  note r3 = reach_step[OF r2[unfolded cl_update_again] this]
  let ?s3 = "cl_update 2 example_vote saved2 [] ?s0"
  have "node_step (cl_sent ?s3) 2 (cl_disk ?s3 2) (cl_core ?s3 2) example_vote (run saved2) []"
    using run_step[OF node2_runs(8), of "[EffRespond (RespondVote example_response 7)]" "cl_sent ?s3" 2 "cl_disk ?s3 2"]
      node2_runs(9,10) by simp
  from r3 have "cluster_reachable ?s3" by simp
  note r4 = reach_step[OF this \<open>node_step (cl_sent ?s3) 2 (cl_disk ?s3 2) (cl_core ?s3 2) example_vote (run saved2) []\<close>]
  let ?s4 = "cl_update 2 example_vote (run saved2) [] ?s0"
  let ?n = "NVoteResponse 2 example_response (UncommittedVote (LeaderId 1 1))"
  have "delivered (cl_sent ?s4) 1 ?n" using node2_runs(10) by auto
  note d = this
  have c4: "cl_core ?s4 1 = voted1" by simp
  have hn: "handle_notification 9 ?n (cl_core ?s4 1) = Some (fst (the (handle_notification 9 ?n voted1)), led1)"
    using node1_leads(1) unfolding c4 by (auto simp: led1_def)
  note n5 = node_step.notification[OF d hn, of "cl_disk ?s4 1"]
  have "cluster_reachable ?s4" using r4 by simp
  from reach_step[OF this n5] show ?thesis by (simp add: led_cluster_def)
qed

lemma led_won: "cl_won led_cluster = [\<lparr>el_node = 1, el_vote = example_vote, el_quorum_set = [[1, 2, 3]], el_voters = [1, 2]\<rparr>]"
  using node1_leads(2) by (simp add: led_cluster_def boot_cluster_def)

lemma led_sent: "EffRespond (RespondVote example_response 7) \<in> set (cl_sent led_cluster 2)"
  using node2_runs(10) by (simp add: led_cluster_def)

section \<open>Properties\<close>

text \<open>
  C7. Persist before answering: when a node has answered a vote request, the vote it reported is on
  its disk, and neither a later step nor a crash of any node takes it back.
\<close>

theorem vote_response_durable:
  assumes "cluster_reachable s" "EffRespond (RespondVote resp tx) \<in> set (cl_sent s j)"
    "0 < vote_term (vr_vote resp)" "cluster_step\<^sup>*\<^sup>* s s'"
  shows "vr_vote resp \<le> cl_disk s j \<and> vr_vote resp \<le> cl_disk s' j"
proof -
  have "effect_ok (cl_disk s j) (EffRespond (RespondVote resp tx))"
    using cluster_inv_sent[OF cluster_reachable_inv[OF assms(1)]] assms(2) by (simp only: sent_ok_def)
  then have d: "vr_vote resp \<le> cl_disk s j" using assms(3) by (simp add: covers_def)
  have "cluster_inv s' \<and> cl_disk s j \<le> cl_disk s' j"
    using assms(4) cluster_reachable_inv[OF assms(1)]
    by (induction rule: rtranclp_induct) (auto intro: cluster_step_inv order_trans)
  then show ?thesis using d by (auto intro: order_trans)
qed

theorem vote_response_durable_witness:
  "cluster_reachable led_cluster \<and> example_vote \<le> cl_disk led_cluster 2"
  using vote_response_durable[OF led_reachable led_sent _ rtranclp.rtrancl_refl] led_reachable by (simp add: vote_term_def)

text \<open>
  A won election: the voters that granted the vote of the leader are a quorum of every configuration
  of its membership, each of them has that vote, or a greater one, on its disk, and the vote names
  the node that won.
\<close>

theorem won_election_promised:
  assumes "cluster_reachable s" "w \<in> set (cl_won s)" "proper (el_quorum_set w)"
  shows "joint_is_quorum (el_quorum_set w) (el_voters w) \<and> distinct (el_voters w)
    \<and> (\<forall>g \<in> set (el_voters w). el_vote w \<le> cl_disk s g) \<and> vote_leader_node_id (el_vote w) = el_node w"
  using cluster_reachable_inv[OF assms(1)] assms(2,3) by (auto simp: cluster_inv_def election_ok_def)

theorem won_election_promised_witness:
  "joint_is_quorum [[1, 2, 3]] [1, 2] \<and> (\<exists>g. g = 2 \<and> example_vote \<le> cl_disk led_cluster g)"
proof -
  have "proper [[1, 2, 3]]" by (simp add: proper_def joint_wf_def)
  then show ?thesis using won_election_promised[OF led_reachable, of "hd (cl_won led_cluster)"]
    by (simp add: led_won joint_is_quorum_iff)
qed

text \<open>
  C1. Elections exclude each other: any two elections won in memberships that are equal or follow each
  other by a membership change share a voter that has promised both votes, and one vote elects
  only one node.
\<close>

theorem elections_share_voter:
  assumes "cluster_reachable s" "a \<in> set (cl_won s)" "b \<in> set (cl_won s)"
    "proper (el_quorum_set a)" "proper (el_quorum_set b)"
    "joint_is_coherent_with (el_quorum_set a) (el_quorum_set b)"
  shows "(\<exists>g \<in> set (el_voters a) \<inter> set (el_voters b). max (el_vote a) (el_vote b) \<le> cl_disk s g)
    \<and> (el_vote a = el_vote b \<longrightarrow> el_node a = el_node b)"
proof -
  have ok: "election_ok (cl_disk s) a" "election_ok (cl_disk s) b"
    using cluster_reachable_inv[OF assms(1)] assms(2,3) by (simp_all add: cluster_inv_def)
  then show ?thesis using same_election[OF ok assms(4-6)] by (auto simp: election_ok_def)
qed

theorem elections_share_voter_witness:
  "\<exists>g. g \<in> {1, 2} \<and> example_vote \<le> cl_disk led_cluster g"
proof -
  have "proper [[1, 2, 3]]" "joint_is_coherent_with [[1, 2, 3]] [[1, 2, 3]]"
    by (simp_all add: proper_def joint_wf_def joint_is_coherent_with_iff)
  then show ?thesis
    using elections_share_voter[OF led_reachable, of "hd (cl_won led_cluster)" "hd (cl_won led_cluster)"]
    by (auto simp: led_won)
qed

end
