(* ===== verification/CoreProperties.thy ===== *)
theory CoreProperties
imports ClusterVotes
begin

text \<open>
  Properties of the runtime task: a linearizable read is confirmed by a quorum and no newer leader
  was elected before it, the commands run until they are done or have to wait, and a refused
  initialization.
\<close>

section \<open>Reads\<close>

text \<open>The nodes whose response counts: every response but \<^verbatim>\<open>HigherVote\<close>.\<close>

fun read_acks :: "(nat \<times> append_entries_response) option list \<Rightarrow> nat list" where
  "read_acks [] = []"
| "read_acks (None # rs) = read_acks rs"
| "read_acks (Some (t, HigherVote v) # rs) = read_acks rs"
| "read_acks (Some (t, r) # rs) = t # read_acks rs"

fun read_result_ok ::
  "effective_membership \<Rightarrow> raft_vote \<Rightarrow> linearize_state \<Rightarrow> nat list \<Rightarrow> (nat \<times> append_entries_response) option list
    \<Rightarrow> notification option \<Rightarrow> (read_error + linearize_state) \<Rightarrow> bool" where
  "read_result_ok em v resp granted rs n (Inr resp') \<longleftrightarrow> resp' = resp \<and> n = None
     \<and> (\<exists>k g. k \<le> length rs \<and> (\<forall>t hv. Some (t, HigherVote hv) \<notin> set (take k rs)) \<and> bs_wf g
          \<and> set g = set granted \<union> set (read_acks (take k rs)) \<and> em_is_quorum em g)"
| "read_result_ok em v resp granted rs n (Inl (ReadForward f)) \<longleftrightarrow> f = ForwardToLeader None None
     \<and> (\<exists>t hv. Some (t, HigherVote hv) \<in> set rs \<and> v < hv \<and> n = Some (NHigherVote t hv (vote_into_committed v)))"
| "read_result_ok em v resp granted rs n (Inl (ReadQuorumNotEnough m got)) \<longleftrightarrow> n = None \<and> m = em_membership em
     \<and> (\<forall>t hv. Some (t, HigherVote hv) \<notin> set rs) \<and> set got = set granted \<union> set (read_acks rs)"

lemma bs_union_single: "bs_wf g \<Longrightarrow> bs_wf (bs_union [t] g) \<and> set (bs_union [t] g) = insert t (set g)"
  by simp

lemma read_result_ok_Cons:
  assumes "read_result_ok em v resp g' rs n res" "set g' = set g \<union> set (read_acks [x])"
    "\<forall>t hv. x \<noteq> Some (t, HigherVote hv)"
  shows "read_result_ok em v resp g (x # rs) n res"
  using assms
proof (induction em v resp g' rs n res rule: read_result_ok.induct)
  case (1 em v resp g' rs n resp')
  obtain k h where k: "k \<le> length rs" "\<forall>t hv. Some (t, HigherVote hv) \<notin> set (take k rs)" "bs_wf h"
    "set h = set g' \<union> set (read_acks (take k rs))" "em_is_quorum em h" "resp' = resp" "n = None"
    using "1.prems"(1) by auto
  have "set (read_acks (x # take k rs)) = set (read_acks [x]) \<union> set (read_acks (take k rs))"
    by (cases "x # take k rs" rule: read_acks.cases) auto
  then show ?case
    using k "1.prems"(2,3) by (auto intro!: exI[of _ "Suc k"] exI[of _ h])
next
  case (3 em v resp g' rs n m got)
  have "set (read_acks (x # rs)) = set (read_acks [x]) \<union> set (read_acks rs)"
    by (cases "x # rs" rule: read_acks.cases) auto
  then show ?case using "3.prems" by auto
qed auto

lemma read_collect_ok:
  assumes "read_collect em v resp granted rs = Some (n, res)" "bs_wf granted"
  shows "read_result_ok em v resp granted rs n res"
  using assms
proof (induction em v resp granted rs rule: read_collect.induct)
  case (1 em v resp granted)
  then show ?case by auto
next
  case (2 em v resp granted rs)
  then show ?case using read_result_ok_Cons[of em v resp granted rs n res granted None] by simp
next
  case (3 em v resp granted t r rs)
  show ?case
  proof (cases "\<exists>hv. r = HigherVote hv")
    case True
    then show ?thesis using "3.prems"(1) by (auto simp: bind_eq_Some_conv)
  next
    case False
    let ?g = "bs_union [t] granted"
    have acks: "read_acks [Some (t, r)] = [t]" using False by (cases r) auto
    have s: "bs_wf ?g" "set ?g = insert t (set granted)" using bs_union_single[OF "3.prems"(2)] by simp_all
    show ?thesis
    proof (cases "em_is_quorum em ?g")
      case True
      then have "n = None" "res = Inr resp" using "3.prems"(1) False by (cases r; simp)+
      then show ?thesis
        using True s acks False by (auto intro!: exI[of _ 1] exI[of _ ?g])
    next
      case nq: False
      then have "read_collect em v resp ?g rs = Some (n, res)" using "3.prems"(1) False by (cases r) simp_all
      then have "read_result_ok em v resp ?g rs n res" using "3.IH" False nq s(1) by (cases r) auto
      then show ?thesis by (rule read_result_ok_Cons) (use s(2) acks False in auto)
    qed
  qed
qed

text \<open>
  The answer of a linearizable read: it is confirmed only after a quorum, the node itself included,
  answered without a greater vote; a greater vote ends it, and is reported to the task; with
  neither, the error lists exactly the nodes that answered.
\<close>

theorem read_collect_spec:
  assumes "read_collect em v resp granted rs = Some (n, res)" "bs_wf granted"
  shows "read_result_ok em v resp granted rs n res"
  using assms by (rule read_collect_ok)

text \<open>A node answers an append request that comes with the vote \<open>v\<close>.\<close>

definition answers_append :: "cluster \<Rightarrow> nat \<Rightarrow> raft_vote \<Rightarrow> append_entries_response \<Rightarrow> bool" where
  "answers_append s g v r \<longleftrightarrow> (\<exists>now rpc tx c' cond qs.
     handle_append_entries_request now rpc tx (cl_core s g) = Some c' \<and> ar_vote rpc = v
     \<and> rc_queue c' = qs @ [Respond cond (RespondAppendEntries r tx)])"

lemma append_answer_vote:
  assumes "handle_append_entries_request now rpc tx c = Some c'"
    "rc_queue c' = qs @ [Respond cond (RespondAppendEntries r tx)]" "\<forall>h. r \<noteq> HigherVote h"
  shows "vote_ref (rc_state c) \<le> ar_vote rpc"
proof (rule ccontr)
  assume less: "\<not> vote_ref (rc_state c) \<le> ar_vote rpc"
  obtain e e' where *: "en_handle_append_entries now (ar_vote rpc) (ar_prev_log_id rpc) (ar_entries rpc) tx (rc_engine c) = Some e"
    "en_on_state (rs_update_committed (LogIOId (vote_into_committed (ar_vote rpc)) (ar_leader_commit rpc))) e = Some e'"
    "c' = c\<lparr>rc_engine := e'\<rparr>"
    using assms(1) by (auto simp: handle_append_entries_request_def Let_def bind_eq_Some_conv)
  obtain r1 e1 where e1: "en_append_entries now (ar_vote rpc) (ar_prev_log_id rpc) (ar_entries rpc) (rc_engine c) = Some (r1, e1)"
    "\<exists>cd. e = en_push (Respond cd (RespondAppendEntries (append_result_to_response r1) tx)) e1"
    using *(1) by (auto simp: en_handle_append_entries_def Let_def bind_eq_Some_conv)
  obtain r2 e2 where u: "vh_update_vote now (ar_vote rpc) (rc_engine c) = Some (r2, e2)"
    using e1(1) by (auto simp: en_append_entries_def bind_eq_Some_conv)
  have "r1 = Inl (RejectByVote (vote_ref (rc_state c)))"
    using e1(1) u vh_update_vote_result(2)[OF u less] by (auto simp: en_append_entries_def)
  moreover have "eo_commands (en_output e') = eo_commands (en_output e)"
    using *(2) by (auto simp: en_on_state_def bind_eq_Some_conv)
  ultimately show False using e1(2) assms(2,3) *(3) by (auto simp: en_push_def push_command_def)
qed

lemma steps_mono:
  assumes "cluster_step\<^sup>*\<^sup>* s s'" "cluster_inv s"
  shows "cluster_inv s' \<and> set (cl_won s) \<subseteq> set (cl_won s') \<and> cl_disk s j \<le> cl_disk s' j"
  using assms
proof (induction rule: rtranclp_induct)
  case (step s1 s2)
  have "set (cl_won s1) \<subseteq> set (cl_won s2)"
    using step(2) by (auto elim!: cluster_step.cases)
  then show ?case using step cluster_step_inv[OF step(2)] by (auto intro: order_trans)
qed simp

lemma disk_le_local: "node_inv i d c \<Longrightarrow> d \<le> vote_ref (rc_state c)"
  by (auto simp: node_inv_def node_inv_q_def dest: track_mono)

text \<open>
  C2. A confirmed linearizable read sees the newest leader: when node \<open>i\<close> asks with its vote \<open>v\<close> in the
  state \<open>s\<close>, and the responses it collects were given in later states, then no election won before,
  in a membership coherent with the one of the read, has a vote greater than \<open>v\<close>.
\<close>

theorem read_sees_newest_leader:
  assumes "cluster_reachable s" "vote_ref (rc_state (cl_core s i)) = v"
    "read_collect em v resp [i] rs = Some (n, Inr resp')"
    "\<And>t r. Some (t, r) \<in> set rs \<Longrightarrow> \<exists>s'. cluster_step\<^sup>*\<^sup>* s s' \<and> answers_append s' t v r"
    "a \<in> set (cl_won s)" "proper (em_quorum_set em)" "proper (el_quorum_set a)"
    "joint_is_coherent_with (em_quorum_set em) (el_quorum_set a)"
  shows "el_vote a \<le> v"
proof -
  have wf: "bs_wf [i]" by (simp add: bs_wf_def)
  obtain k g where g: "\<forall>t hv. Some (t, HigherVote hv) \<notin> set (take k rs)" "bs_wf g"
    "set g = insert i (set (read_acks (take k rs)))" "joint_is_quorum (em_quorum_set em) g"
    using read_collect_ok[OF assms(3) wf] by (auto simp: em_is_quorum_def)
  note inv = cluster_reachable_inv[OF assms(1)]
  have bound: "el_vote a \<le> cl_disk s t" if "t \<in> set (el_voters a)" for t
    using inv assms(5,7) that by (auto simp: cluster_inv_def election_ok_def)
  have ack: "\<exists>r. Some (t, r) \<in> set rs \<and> (\<forall>h. r \<noteq> HigherVote h)" if "t \<in> set (read_acks (take k rs))" for t
  proof -
    have "t \<in> set (read_acks xs) \<Longrightarrow> \<exists>r. Some (t, r) \<in> set xs" for xs
      by (induction xs rule: read_acks.induct) auto
    then obtain r where "Some (t, r) \<in> set (take k rs)" using \<open>t \<in> set (read_acks (take k rs))\<close> by blast
    then show ?thesis using g(1) in_set_takeD by fast
  qed
  have disk: "cl_disk s t \<le> v" if "t \<in> set g" for t
  proof (cases "t = i")
    case True
    then show ?thesis using inv assms(2) disk_le_local by (auto simp: cluster_inv_def)
  next
    case False
    then have "t \<in> set (read_acks (take k rs))" using that g(3) by simp
    then obtain r where r0: "Some (t, r) \<in> set rs" "\<forall>h. r \<noteq> HigherVote h" using ack by blast
    obtain s' where r: "cluster_step\<^sup>*\<^sup>* s s'" "answers_append s' t v r" "\<forall>h. r \<noteq> HigherVote h"
      using assms(4)[OF r0(1)] r0(2) by blast
    note m = steps_mono[OF r(1) inv, of t]
    have "cl_disk s' t \<le> vote_ref (rc_state (cl_core s' t))"
      using m disk_le_local by (auto simp: cluster_inv_def)
    also have "\<dots> \<le> v" using r(2,3) append_answer_vote by (auto simp: answers_append_def)
    finally show ?thesis using m by (auto intro: order_trans)
  qed
  have "distinct g" using g(2) by (simp add: bs_wf_def strict_sorted_iff)
  then have "set g \<inter> set (el_voters a) \<noteq> {}"
    using joint.coherent_intersect[OF _ _ assms(8)] assms(5-7) g(4) inv
    by (simp add: proper_def cluster_inv_def election_ok_def)
  then show ?thesis using bound disk by (auto intro: order_trans)
qed

definition example_em :: effective_membership where
  "example_em = em_new (Some (LogId (LeaderId 0 0) 0)) example_members"

definition example_read :: linearize_state where
  "example_read = \<lparr>lz_node_id = 1, lz_read_log_id = LogId (LeaderId 1 1) 1, lz_applied = None\<rparr>"

lemma example_read_confirmed:
  "read_collect example_em (Vote (LeaderId 1 1) True) example_read [1] [None, Some (2, AppendSuccess)] = Some (None, Inr example_read)"
  by code_simp

theorem read_collect_spec_witness:
  "read_result_ok example_em (Vote (LeaderId 1 1) True) example_read [1] [None, Some (2, AppendSuccess)] None (Inr example_read)"
  using read_collect_spec[OF example_read_confirmed] by (simp add: bs_wf_def)

definition example_heartbeat :: append_request where
  "example_heartbeat = \<lparr>ar_vote = Vote (LeaderId 1 1) True, ar_prev_log_id = None, ar_entries = [], ar_leader_commit = None\<rparr>"

lemma node2_answers: "answers_append led_cluster 2 (Vote (LeaderId 1 1) True) AppendSuccess"
proof -
  have "case handle_append_entries_request 9 example_heartbeat 8 (run saved2) of
      Some c \<Rightarrow> (case rev (rc_queue c) of Respond w (RespondAppendEntries AppendSuccess tx) # qs \<Rightarrow> tx = 8 | _ \<Rightarrow> False)
    | None \<Rightarrow> False"
    by code_simp
  then obtain c' w qs where c': "handle_append_entries_request 9 example_heartbeat 8 (run saved2) = Some c'"
    "rev (rc_queue c') = Respond w (RespondAppendEntries AppendSuccess 8) # qs"
    by (auto split: option.splits list.splits command.splits respond.splits append_entries_response.splits)
  have "rc_queue c' = rev qs @ [Respond w (RespondAppendEntries AppendSuccess 8)]"
    using c'(2) by (simp add: rev_eq_Cons_iff)
  then show ?thesis
    using c'(1) unfolding answers_append_def
    by (intro exI[of _ 9] exI[of _ example_heartbeat] exI[of _ 8] exI[of _ c'] exI[of _ w] exI[of _ "rev qs"])
      (simp add: led_cluster_def example_heartbeat_def)
qed

theorem read_sees_newest_leader_witness:
  "\<exists>a. a \<in> set (cl_won led_cluster) \<and> el_vote a \<le> Vote (LeaderId 1 1) True"
proof -
  let ?a = "hd (cl_won led_cluster)"
  have v: "vote_ref (rc_state (cl_core led_cluster 1)) = Vote (LeaderId 1 1) True"
    by (simp add: led_cluster_def del: One_nat_def) code_simp
  have qs: "em_quorum_set example_em = [[1, 2, 3]]" by code_simp
  have "proper [[1, 2, 3]]" "joint_is_coherent_with [[1, 2, 3]] [[1, 2, 3]]"
    by (simp_all add: proper_def joint_wf_def joint_is_coherent_with_iff)
  then have "el_vote ?a \<le> Vote (LeaderId 1 1) True"
    by (intro read_sees_newest_leader[OF led_reachable v example_read_confirmed])
      (use node2_answers in \<open>auto simp: led_won qs simp del: One_nat_def\<close>)
  then show ?thesis using led_won by (intro exI[of _ ?a]) simp
qed

section \<open>Commands\<close>

definition head_waits :: "raft_core \<Rightarrow> bool" where
  "head_waits c \<longleftrightarrow> (\<exists>cmd q w. rc_queue c = cmd # q \<and> (\<forall>u r. cmd \<noteq> Respond u r) \<and> command_condition cmd = Some w
     \<and> \<not> condition_is_met w (rs_io_state (rc_state c)))"

lemma postpone_back:
  "postpone_command cmd o' = Some (Inl u, o2) \<Longrightarrow> eo_commands o2 = cmd # eo_commands o' \<and> (\<forall>w r. cmd \<noteq> Respond w r)"
  by (cases "(cmd, o')" rule: postpone_command.cases) auto

lemma run_command_postponed:
  "run_command sto now cmd c = Some (Inr (Some cmd'), c') \<Longrightarrow>
     cmd' = cmd \<and> c' = c \<and> (\<exists>w. command_condition cmd = Some w \<and> \<not> condition_is_met w (rs_io_state (rc_state c)))"
  by (auto simp: run_command_def bind_eq_Some_conv split: if_splits option.splits sum.splits)

lemma run_queue_settles:
  assumes "run_queue sto now c = Some (Inr (), c')"
  shows "rc_queue c' = [] \<or> head_waits c'"
  using assms
proof (induction sto now c rule: run_queue.induct)
  case (1 sto now c)
  obtain p o1 where pop: "pop_command (en_output (rc_engine c)) = (p, o1)" by fastforce
  show ?case
  proof (cases p)
    case None
    then show ?thesis
      using "1.prems" pop by (auto simp: run_queue.simps[of _ _ c] pop_command_def split: list.splits)
  next
    case (Some cmd)
    let ?c1 = "rc_set_output o1 c"
    obtain k c2 where rc: "run_command sto now cmd ?c1 = Some (Inr k, c2)"
      using "1.prems" pop Some by (auto simp: run_queue.simps[of _ _ c] split: option.splits prod.splits sum.splits)
    show ?thesis
    proof (cases k)
      case None
      then have "run_queue sto now c2 = Some (Inr (), c')"
        using "1.prems" pop Some rc by (simp add: run_queue.simps[of _ _ c])
      then show ?thesis using "1.IH"(1)[OF pop[symmetric] Some rc] None by blast
    next
      case k: (Some cmd')
      note w = run_command_postponed[OF rc[unfolded k]]
      obtain ok o2 where po: "postpone_command cmd (en_output (rc_engine c2)) = Some (ok, o2)"
        using "1.prems" pop Some rc k w by (auto simp: run_queue.simps[of _ _ c] split: option.splits prod.splits)
      show ?thesis
      proof (cases ok)
        case (Inl u)
        then have "c' = rc_set_output o2 c2"
          using "1.prems" pop Some rc k w po by (auto simp: run_queue.simps[of _ _ c])
        then show ?thesis using postpone_back[OF po[unfolded Inl]] w by (auto simp: head_waits_def)
      next
        case (Inr u)
        then have "run_queue sto now (rc_set_output o2 c2) = Some (Inr (), c')"
          using "1.prems" pop Some rc k w po by (simp add: run_queue.simps[of _ _ c])
        then show ?thesis using "1.IH"(2)[OF pop[symmetric] Some rc] Inr k w po by blast
      qed
    qed
  qed
qed

lemma condition_flushed:
  assumes "io_flushed (ios_log_progress s) = io_flushed (ios_log_progress s')"
    "io_flushed (ios_apply_progress s) = io_flushed (ios_apply_progress s')"
    "io_flushed (ios_snapshot s) = io_flushed (ios_snapshot s')"
  shows "condition_is_met w s = condition_is_met w s'"
  using assms by (cases w) simp_all

lemma run_progress_settles:
  assumes "run_progress_driven_command sto now c = Some (Inr (), c')"
  shows "en_next_progress_driven_command (rc_engine c') = Some None \<and> rc_queue c' = rc_queue c
    \<and> (\<forall>w. condition_is_met w (rs_io_state (rc_state c')) = condition_is_met w (rs_io_state (rc_state c)))"
  using assms
proof (induction sto now c rule: run_progress_driven_command.induct)
  case (1 sto now c)
  obtain n where n: "en_next_progress_driven_command (rc_engine c) = Some n"
    using "1.prems" by (auto simp: run_progress_driven_command.simps[of _ _ c] split: option.splits)
  show ?case
  proof (cases n)
    case None
    then show ?thesis using "1.prems" n by (simp add: run_progress_driven_command.simps[of _ _ c])
  next
    case (Some cmd)
    obtain a u where cmd: "cmd = SaveCommittedAndApply a u" using progress_driven_is_apply n Some by blast
    obtain c1 where rc: "run_command sto now cmd c = Some (Inr None, c1)"
      and rest: "run_progress_driven_command sto now c1 = Some (Inr (), c')"
      using "1.prems" n Some
      by (auto simp: run_progress_driven_command.simps[of _ _ c] split: option.splits prod.splits sum.splits)
    obtain r where e: "exec_command sto now (SaveCommittedAndApply a u) c = Some (r, c1)"
      using rc cmd by (auto simp: run_command_def bind_eq_Some_conv)
    have "condition_is_met w (rs_io_state (rc_state c1)) = condition_is_met w (rs_io_state (rc_state c))" for w
      by (rule condition_flushed) (simp_all add: exec_apply_submits[OF e])
    then show ?thesis
      using "1.IH"[OF n Some rc refl refl refl rest] run_command_queue[OF rc] by simp
  qed
qed

lemma nothing_to_apply:
  assumes "en_next_progress_driven_command e = Some None"
    "map_option io_id_vote (io_submitted (ios_log_progress (rs_io_state (en_state e))))
      = map_option io_id_vote (io_accepted (ios_log_progress (rs_io_state (en_state e))))"
  shows "next_index (min (Option.bind (io_submitted (ios_log_progress (rs_io_state (en_state e)))) io_id_last_log_id)
      (rs_committed (en_state e))) \<le> next_index (io_submitted (ios_apply_progress (rs_io_state (en_state e))))"
  using assms
  by (auto simp: en_next_progress_driven_command_def Let_def rs_committed_def bind_eq_Some_conv not_less split: if_splits)

text \<open>
  C21. The commands run until nothing is left: when \<^verbatim>\<open>run_engine_commands\<close> returns without an error, the
  queue is empty or starts with a command that is not a respond and whose condition is not met. And
  nothing waits to be applied: when the submitted and the accepted log I/O belong to the same vote,
  every index up to the smaller one of the committed log id and the last log id submitted to the log
  store has been handed to the state machine.
\<close>

theorem run_engine_commands_settles:
  assumes "run_engine_commands sto now c = Some (Inr (), c')"
  shows "(rc_queue c' = [] \<or> head_waits c') \<and>
    (let io = rs_io_state (rc_state c') in
      map_option io_id_vote (io_submitted (ios_log_progress io)) = map_option io_id_vote (io_accepted (ios_log_progress io)) \<longrightarrow>
      next_index (min (Option.bind (io_submitted (ios_log_progress io)) io_id_last_log_id) (rs_committed (rc_state c')))
        \<le> next_index (io_submitted (ios_apply_progress io)))"
proof -
  obtain c1 where c1: "run_queue sto now (send_satisfied_responds c) = Some (Inr (), c1)"
    "run_progress_driven_command sto now c1 = Some (Inr (), c')"
    using assms by (auto simp: run_engine_commands_def bind_eq_Some_conv split: sum.splits)
  note p = run_progress_settles[OF c1(2)]
  have "rc_queue c' = [] \<or> head_waits c'" using run_queue_settles[OF c1(1)] p by (auto simp: head_waits_def)
  moreover have "en_next_progress_driven_command (rc_engine c') = Some None" using p by simp
  ultimately show ?thesis using nothing_to_apply[of "rc_engine c'"] by (simp add: Let_def)
qed

text \<open>The first entry of the leader is on its disk and on node 2: it commits, and is handed to the state machine.\<close>

definition flushed1 :: raft_core where
  "flushed1 = snd (the (handle_notification 20
     (NLocalIO (IOLog (LogIOId (CommittedVote (LeaderId 1 1)) (Some (LogId (LeaderId 1 1) 1))))) (run led1)))"

definition committed1 :: raft_core where
  "committed1 = snd (the (handle_notification 20
     (NReplicationProgress (ReplicationSessionId (CommittedVote (LeaderId 1 1)) (Some (LogId (LeaderId 0 0) 0)))
       2 (Inr (Inr (Some (LogId (LeaderId 1 1) 1)))) (Some 1)) flushed1))"

lemma committed1_runs:
  "map_option fst (run_engine_commands good 9 committed1) = Some (Inr ())"
  "io_submitted (ios_apply_progress (rs_io_state (rc_state committed1))) = Some (LogId (LeaderId 0 0) 0)"
  "rs_committed (rc_state (run committed1)) = Some (LogId (LeaderId 1 1) 1)"
  "io_submitted (ios_log_progress (rs_io_state (rc_state (run committed1))))
     = Some (IOLog (LogIOId (CommittedVote (LeaderId 1 1)) (Some (LogId (LeaderId 1 1) 1))))"
  "io_accepted (ios_log_progress (rs_io_state (rc_state (run committed1))))
     = Some (IOLog (LogIOId (CommittedVote (LeaderId 1 1)) (Some (LogId (LeaderId 1 1) 1))))"
  by code_simp+

theorem run_engine_commands_settles_witness:
  "next_index (io_submitted (ios_apply_progress (rs_io_state (rc_state committed1)))) = 1
    \<and> next_index (io_submitted (ios_apply_progress (rs_io_state (rc_state (run committed1))))) \<ge> 2
    \<and> (rc_queue (run committed1) = [] \<or> head_waits (run committed1))"
proof -
  have "run_engine_commands good 9 committed1 = Some (Inr (), run committed1)" using committed1_runs(1) by (auto simp: run_def)
  from run_engine_commands_settles[OF this] show ?thesis
    using committed1_runs(2-5) by (simp add: Let_def next_index_def)
qed

section \<open>Initialization\<close>

text \<open>
  C24. A refused initialization disturbs the cluster: on an initialized node the request is answered with
  \<open>NotAllowed\<close>, and the node still runs for election: it takes a vote for the term after its own, which
  it saves and sends to the voters. The documentation calls the error safe to ignore.
\<close>

theorem refused_initialize_elects:
  assumes "rs_is_initialized (rc_state c)" "lead_le (rc_engine c)" "handle_initialize now members tx c = Some c'"
  shows "\<exists>v q. v = Vote (LeaderId (vote_term (vote_ref (rc_state c)) + 1) (rc_id c)) False \<and> vote_ref (rc_state c') = v
    \<and> rc_queue c' = rc_queue c @ [Respond None (RespondInitialize
          (Inl (NotAllowed (rs_last_log_id (rc_state c)) (vote_ref (rc_state c)))) tx), SaveVote v, SendVote q]"
proof -
  let ?r = "Respond None (RespondInitialize (Inl (NotAllowed (rs_last_log_id (rc_state c)) (vote_ref (rc_state c)))) tx)"
  obtain e where e: "en_elect now (en_push ?r (rc_engine c)) = Some e" "c' = c\<lparr>rc_engine := e\<rparr>"
    using assms(1,3) by (auto simp: handle_initialize_def en_initialize_def en_check_initialize_def Let_def bind_eq_Some_conv)
  have "lead_le (en_push ?r (rc_engine c))" using assms(2) by (simp add: lead_le_def leading_vote_def)
  from en_elect_effect[OF e(1) this] show ?thesis using e(2) by (auto simp: en_push_def push_command_def)
qed

theorem refused_initialize_elects_witness:
  "\<exists>c'. handle_initialize 9 [] 3 (boot_core 1) = Some c' \<and> vote_ref (rc_state c') = Vote (LeaderId 1 1) False"
proof -
  have "handle_initialize 9 [] 3 (boot_core 1) \<noteq> None" "rs_is_initialized (rc_state (boot_core 1))"
    "vote_ref (rc_state (boot_core 1)) = Vote (LeaderId 0 1) False" "rc_id (boot_core 1) = 1"
    by code_simp+
  moreover have "lead_le (rc_engine (boot_core 1))" by (simp add: boot_core_def engine_new_def lead_le_def leading_vote_def)
  moreover from calculation obtain c' where c': "handle_initialize 9 [] 3 (boot_core 1) = Some c'" by auto
  ultimately show ?thesis using refused_initialize_elects[OF _ _ c'] c' by (auto simp: vote_term_def)
qed

end
