(* ===== verification/SmWorker.thy ===== *)
theory SmWorker
imports ClusterVotes KvStateMachine
begin

text \<open>
  \<^verbatim>\<open>openraft/src/core/sm\<close>: the task that owns the state machine. It takes commands from a queue, applies
  ranges of the log and answers the clients that wait for their entries, builds, reads and installs
  snapshots, and reports to the task of Raft. Snapshots are built by tasks of their own, so a run is
  a sequence of events: a command is sent, the next command is executed, a builder finishes, the log
  store is written by another task. The contract of the state machine is the locale
  \<open>worker_machine\<close>; the key-value store on RocksDB is proved to keep it.
\<close>

section \<open>Responders of applied entries\<close>

text \<open>\<^verbatim>\<open>storage/v2/entry_responder.rs\<close>, \<^verbatim>\<open>apply_responder_inner.rs\<close>: a client waits on a numbered channel.\<close>

datatype apply_responder =
    ApplyNormal log_id nat
  | ApplyMembership log_id membership nat

record client_write_response =
  cwr_log_id :: log_id
  cwr_data :: response
  cwr_membership :: "membership option"

fun ar_send :: "response \<Rightarrow> apply_responder \<Rightarrow> nat \<times> client_write_response" where
  "ar_send resp (ApplyNormal l tx) = (tx, \<lparr>cwr_log_id = l, cwr_data = resp, cwr_membership = None\<rparr>)"
| "ar_send resp (ApplyMembership l m tx) = (tx, \<lparr>cwr_log_id = l, cwr_data = resp, cwr_membership = Some m\<rparr>)"

definition into_parts :: "entry \<Rightarrow> nat option \<Rightarrow> entry \<times> apply_responder option" where
  "into_parts ent responder = (case responder of
       None \<Rightarrow> (ent, None)
     | Some tx \<Rightarrow> (ent, Some (case entry_get_membership ent of
           Some m \<Rightarrow> ApplyMembership (e_log_id ent) m tx
         | None \<Rightarrow> ApplyNormal (e_log_id ent) tx)))"

text \<open>
  The closure \<^verbatim>\<open>apply\<close> maps over the stream of entries: it peeks at the next responder and takes it
  when its index is the one of the entry.
\<close>

fun with_responders ::
  "(io_error + entry) list \<Rightarrow> (nat \<times> nat) list \<Rightarrow> (io_error + entry \<times> apply_responder option) list" where
  "with_responders [] chans = []"
| "with_responders (Inl e # strm) chans = Inl e # with_responders strm chans"
| "with_responders (Inr ent # strm) chans = (case chans of
       (index, tx) # rest \<Rightarrow>
         if index = e_index ent then Inr (into_parts ent (Some tx)) # with_responders strm rest
         else Inr (into_parts ent None) # with_responders strm chans
     | [] \<Rightarrow> Inr (into_parts ent None) # with_responders strm [])"

text \<open>What the closure has stored after the state machine pulled \<open>n\<close> items.\<close>

definition last_pulled :: "nat \<Rightarrow> (io_error + entry \<times> apply_responder option) list \<Rightarrow> nat" where
  "last_pulled n strm = fold (\<lambda>x i. case x of Inl _ \<Rightarrow> i | Inr (ent, _) \<Rightarrow> e_index ent) (take n strm) 0"

section \<open>The state machine and the log reader of a worker\<close>

text \<open>
  The operations over the state \<open>'s\<close> that the state machine and the store share. \<open>wo_apply\<close>
  gets the stream and returns the responses it sent and the number of items it pulled.
\<close>

record ('s, 'b) worker_ops =
  wo_read :: "nat \<Rightarrow> nat \<Rightarrow> 's \<Rightarrow> entry list io panics"
  wo_apply :: "(io_error + entry \<times> apply_responder option) list \<Rightarrow> 's
     \<Rightarrow> (unit io \<times> (apply_responder \<times> response) list \<times> nat \<times> 's) panics"
  wo_try_create_builder :: "'s \<Rightarrow> ('b option \<times> 's) panics"
  wo_build :: "'b \<Rightarrow> 's \<Rightarrow> (snapshot_meta io \<times> 's) panics"
  wo_install :: "snapshot \<Rightarrow> 's \<Rightarrow> (unit io \<times> 's) panics"
  wo_current :: "'s \<Rightarrow> snapshot option io panics"
  wo_begin_receiving :: "'s \<Rightarrow> string io panics"

text \<open>\<^verbatim>\<open>RaftLogReader::entries_stream\<close>: an error of the read is the only item.\<close>

definition entries_stream :: "entry list io \<Rightarrow> (io_error + entry) list" where
  "entries_stream r = (case r of Inl e \<Rightarrow> [Inl e] | Inr es \<Rightarrow> map Inr es)"

datatype worker_reply =
    ReplySnapshot nat "snapshot option"
  | ReplySnapshotData nat string
  | ReplyWrite nat client_write_response

text \<open>The kind of an error, as the task of Raft tells them apart.\<close>

fun storage_error_of :: "store_error \<Rightarrow> storage_error" where
  "storage_error_of e = (case (se_subject e, se_verb e) of
       (SubjApply _, _) \<Rightarrow> StoApply
     | (SubjSnapshot _, VRead) \<Rightarrow> StoReadSnapshot
     | (SubjSnapshot _, _) \<Rightarrow> StoWriteSnapshot
     | (SubjStateMachine, _) \<Rightarrow> StoWriteStateMachine
     | (SubjLogs, VRead) \<Rightarrow> StoReadLogs
     | (SubjLogs, _) \<Rightarrow> StoWriteLogs
     | (SubjVote, _) \<Rightarrow> StoWriteVote
     | _ \<Rightarrow> StoWrite)"

datatype worker_status = WorkerRunning | WorkerQuit | WorkerFailed

record ('s, 'b) sm_worker =
  wk_machine :: 's
  wk_queue :: "sm_command list"
  wk_closed :: bool
  wk_builders :: "'b list"
  wk_status :: worker_status
  wk_notes :: "notification list"
  wk_replies :: "worker_reply list"

definition worker_spawn :: "'s \<Rightarrow> ('s, 'b) sm_worker" where
  "worker_spawn s = \<lparr>wk_machine = s, wk_queue = [], wk_closed = False, wk_builders = [],
     wk_status = WorkerRunning, wk_notes = [], wk_replies = []\<rparr>"

definition wk_notify :: "store_error + sm_response \<Rightarrow> ('s, 'b) sm_worker \<Rightarrow> ('s, 'b) sm_worker" where
  "wk_notify r w = w\<lparr>wk_notes := wk_notes w @ [NStateMachine (map_sum storage_error_of id r)]\<rparr>"

definition wk_reply :: "worker_reply list \<Rightarrow> ('s, 'b) sm_worker \<Rightarrow> ('s, 'b) sm_worker" where
  "wk_reply rs w = w\<lparr>wk_replies := wk_replies w @ rs\<rparr>"

section \<open>Commands\<close>

text \<open>\<^verbatim>\<open>apply\<close>: the result, the answers that were sent and the state. The assertion is of a debug build.\<close>

definition worker_apply ::
  "('s, 'b) worker_ops \<Rightarrow> log_id \<Rightarrow> log_id \<Rightarrow> (nat \<times> nat) list \<Rightarrow> 's
     \<Rightarrow> ((store_error + apply_result) \<times> (nat \<times> client_write_response) list \<times> 's) panics" where
  "worker_apply W first_id last_id chans s = do {
     let since = lg_index first_id;
     ensure (lg_index last_id < 2 ^ 64 - 1);
     let upto = lg_index last_id + 1;
     entries \<leftarrow> wo_read W since upto s;
     let strm = with_responders (entries_stream entries) chans;
     (r, sent, pulled, s') \<leftarrow> wo_apply W strm s;
     let answers = map (\<lambda>(responder, resp). ar_send resp responder) sent;
     (case sto_err (SubjApply last_id) VWrite r of
        Inl e \<Rightarrow> Some (Inl e, answers, s')
      | Inr _ \<Rightarrow> do {
          ensure (upto - 1 = last_pulled pulled strm);
          Some (Inr \<lparr>apr_since = since, apr_end = upto, apr_last_applied = last_id\<rparr>, answers, s') }) }"

definition worker_build_snapshot :: "('s, 'b) worker_ops \<Rightarrow> ('s, 'b) sm_worker \<Rightarrow> ('s, 'b) sm_worker panics" where
  "worker_build_snapshot W w = do {
     (builder, s) \<leftarrow> wo_try_create_builder W (wk_machine w);
     let w1 = w\<lparr>wk_machine := s\<rparr>;
     Some (case builder of
         None \<Rightarrow> wk_notify (Inr (BuildSnapshotDone None)) w1
       | Some b \<Rightarrow> w1\<lparr>wk_builders := wk_builders w1 @ [b]\<rparr>) }"

definition worker_get_snapshot ::
  "('s, 'b) worker_ops \<Rightarrow> nat \<Rightarrow> ('s, 'b) sm_worker \<Rightarrow> ((store_error + unit) \<times> ('s, 'b) sm_worker) panics" where
  "worker_get_snapshot W tx w = do {
     r \<leftarrow> wo_current W (wk_machine w);
     Some (case sto_err (SubjSnapshot None) VRead r of
         Inl e \<Rightarrow> (Inl e, w)
       | Inr snapshot \<Rightarrow> (Inr (), wk_reply [ReplySnapshot tx snapshot] w)) }"

fun worker_command ::
  "('s, 'b) worker_ops \<Rightarrow> ('s \<Rightarrow> 's) \<Rightarrow> sm_command \<Rightarrow> ('s, 'b) sm_worker \<Rightarrow> ((store_error + unit) \<times> ('s, 'b) sm_worker) panics" where
  "worker_command W user BuildSnapshot w = map_option (Pair (Inr ())) (worker_build_snapshot W w)"
| "worker_command W user (GetSnapshot tx) w = worker_get_snapshot W tx w"
| "worker_command W user (InstallFullSnapshot io_id snapshot) w = do {
     (r, s) \<leftarrow> wo_install W snapshot (wk_machine w);
     let w1 = w\<lparr>wk_machine := s\<rparr>;
     Some (case sto_err (SubjSnapshot (Some (snap_signature (snap_meta snapshot)))) VWrite r of
         Inl e \<Rightarrow> (Inl e, w1)
       | Inr _ \<Rightarrow> (Inr (), wk_notify (Inr (SmInstallSnapshot io_id (Some (snap_meta snapshot)))) w1)) }"
| "worker_command W user (BeginReceivingSnapshot tx) w = do {
     r \<leftarrow> wo_begin_receiving W (wk_machine w);
     Some (case sto_err (SubjSnapshot None) VWrite r of
         Inl e \<Rightarrow> (Inl e, w)
       | Inr data \<Rightarrow> (Inr (), wk_reply [ReplySnapshotData tx data] w)) }"
| "worker_command W user (Apply first_id last_id chans) w = do {
     (r, answers, s) \<leftarrow> worker_apply W first_id last_id chans (wk_machine w);
     let w1 = wk_reply (map (\<lambda>(tx, resp). ReplyWrite tx resp) answers) (w\<lparr>wk_machine := s\<rparr>);
     Some (case r of
         Inl e \<Rightarrow> (Inl e, w1)
       | Inr res \<Rightarrow> (Inr (), wk_notify (Inr (SmApply res)) w1)) }"
| "worker_command W user Func w = Some (Inr (), w\<lparr>wk_machine := user (wk_machine w)\<rparr>)"

section \<open>The worker and its events\<close>

text \<open>\<^verbatim>\<open>Handle::send\<close>: \<open>False\<close> is the error of a channel whose receiver is gone.\<close>

definition handle_send :: "sm_command \<Rightarrow> ('s, 'b) sm_worker \<Rightarrow> bool \<times> ('s, 'b) sm_worker" where
  "handle_send cmd w =
     (if wk_status w = WorkerRunning then (True, w\<lparr>wk_queue := wk_queue w @ [cmd]\<rparr>) else (False, w))"

text \<open>
  One turn of \<^verbatim>\<open>worker_loop\<close>, for a worker that is running; an error ends the task, after a last
  notification. \<open>user\<close> is what the user's function of a \<open>Func\<close> does to the state machine.
\<close>

definition worker_turn ::
  "('s, 'b) worker_ops \<Rightarrow> ('s \<Rightarrow> 's) \<Rightarrow> ('s, 'b) sm_worker \<Rightarrow> ('s, 'b) sm_worker panics" where
  "worker_turn W user w = (case wk_queue w of
       [] \<Rightarrow> Some (if wk_closed w then w\<lparr>wk_status := WorkerQuit\<rparr> else w)
     | cmd # rest \<Rightarrow> do {
         (r, w1) \<leftarrow> worker_command W user cmd (w\<lparr>wk_queue := rest\<rparr>);
         Some (case r of
             Inl e \<Rightarrow> (wk_notify (Inl e) w1)\<lparr>wk_status := WorkerFailed\<rparr>
           | Inr _ \<Rightarrow> w1) })"

text \<open>The task of the builder \<open>i\<close>.\<close>

definition builder_task :: "('s, 'b) worker_ops \<Rightarrow> nat \<Rightarrow> ('s, 'b) sm_worker \<Rightarrow> ('s, 'b) sm_worker panics" where
  "builder_task W i w = (if length (wk_builders w) \<le> i then Some w else do {
     (r, s) \<leftarrow> wo_build W (wk_builders w ! i) (wk_machine w);
     let w1 = w\<lparr>wk_machine := s, wk_builders := take i (wk_builders w) @ drop (Suc i) (wk_builders w)\<rparr>;
     Some (wk_notify (map_sum id (\<lambda>meta. BuildSnapshotDone (Some meta)) (sto_err (SubjSnapshot None) VWrite r)) w1) })"

datatype 's worker_event =
    WSend sm_command
  | WClose
  | WTurn "'s \<Rightarrow> 's"
  | WBuilt nat
  | WStore "'s \<Rightarrow> 's"

fun worker_step :: "('s, 'b) worker_ops \<Rightarrow> 's worker_event \<Rightarrow> ('s, 'b) sm_worker \<Rightarrow> ('s, 'b) sm_worker panics" where
  "worker_step W (WSend cmd) w = Some (if wk_closed w then w else snd (handle_send cmd w))"
| "worker_step W WClose w = Some (w\<lparr>wk_closed := True\<rparr>)"
| "worker_step W (WTurn user) w = (if wk_status w = WorkerRunning then worker_turn W user w else Some w)"
| "worker_step W (WBuilt i) w = builder_task W i w"
| "worker_step W (WStore g) w = Some (w\<lparr>wk_machine := g (wk_machine w)\<rparr>)"

fun worker_run :: "('s, 'b) worker_ops \<Rightarrow> 's worker_event list \<Rightarrow> ('s, 'b) sm_worker \<Rightarrow> ('s, 'b) sm_worker panics" where
  "worker_run W [] w = Some w"
| "worker_run W (ev # evs) w = do { w1 \<leftarrow> worker_step W ev w; worker_run W evs w1 }"

text \<open>\<^verbatim>\<open>SnapshotReader::get_snapshot\<close>: what the caller finds once the worker has replied or is gone.\<close>

definition snapshot_reader_result :: "nat \<Rightarrow> ('s, 'b) sm_worker \<Rightarrow> (string + snapshot option) option" where
  "snapshot_reader_result tx w =
     (case filter (\<lambda>r. case r of ReplySnapshot t _ \<Rightarrow> t = tx | _ \<Rightarrow> False) (wk_replies w) of
        ReplySnapshot _ snapshot # _ \<Rightarrow> Some (Inr snapshot)
      | _ \<Rightarrow> if wk_status w = WorkerRunning then None
             else Some (Inl ''failed to receive snapshot, sm::Worker may have shutdown''))"


section \<open>What the commands mean\<close>

definition answer_of :: "(entry \<Rightarrow> response) \<Rightarrow> entry \<Rightarrow> client_write_response" where
  "answer_of resp ent = \<lparr>cwr_log_id = e_log_id ent, cwr_data = resp ent, cwr_membership = entry_get_membership ent\<rparr>"

lemma ar_send_into_parts:
  "into_parts ent (Some tx) = (ent, Some r) \<Longrightarrow> ar_send (resp ent) r = (tx, answer_of resp ent)"
  by (auto simp: into_parts_def answer_of_def split: option.splits)

text \<open>The answers for the entries of a range, and the effect of a command on the machine, given the log.\<close>

fun entry_answers :: "(entry \<Rightarrow> response) \<Rightarrow> entry list \<Rightarrow> (nat \<times> nat) list \<Rightarrow> (nat \<times> client_write_response) list" where
  "entry_answers resp [] chans = []"
| "entry_answers resp (ent # es) chans = (case chans of
       (index, tx) # rest \<Rightarrow>
         if index = e_index ent then (tx, answer_of resp ent) # entry_answers resp es rest
         else entry_answers resp es chans
     | [] \<Rightarrow> [])"

lemma entry_answers_Nil [simp]: "entry_answers resp es [] = []"
  by (cases es) simp_all

definition applied_range :: "log_id \<Rightarrow> log_id \<Rightarrow> entry list \<Rightarrow> entry list" where
  "applied_range first_id last_id L = entries_between (lg_index first_id) (lg_index last_id + 1) L"

fun cmd_answers :: "(entry \<Rightarrow> response) \<Rightarrow> entry list \<Rightarrow> sm_command \<Rightarrow> worker_reply list" where
  "cmd_answers resp L (Apply first_id last_id chans) =
     map (\<lambda>(tx, r). ReplyWrite tx r) (entry_answers resp (applied_range first_id last_id L) chans)"
| "cmd_answers resp L cmd = []"

fun cmd_progress :: "sm_command \<Rightarrow> notification list" where
  "cmd_progress (Apply first_id last_id chans) = [NStateMachine (Inr (SmApply
     \<lparr>apr_since = lg_index first_id, apr_end = lg_index last_id + 1, apr_last_applied = last_id\<rparr>))]"
| "cmd_progress (InstallFullSnapshot io_id snapshot) =
     [NStateMachine (Inr (SmInstallSnapshot io_id (Some (snap_meta snapshot))))]"
| "cmd_progress cmd = []"

fun reports_progress :: "notification \<Rightarrow> bool" where
  "reports_progress (NStateMachine (Inr (SmApply res))) = True"
| "reports_progress (NStateMachine (Inr (SmInstallSnapshot io_id meta))) = True"
| "reports_progress n = False"

fun is_write_reply :: "worker_reply \<Rightarrow> bool" where
  "is_write_reply (ReplyWrite tx r) = True"
| "is_write_reply r = False"

definition has_error :: "('s, 'b) sm_worker \<Rightarrow> bool" where
  "has_error w \<longleftrightarrow> (\<exists>e. NStateMachine (Inl e) \<in> set (wk_notes w))"

definition builds :: "sm_command list \<Rightarrow> nat" where
  "builds cmds = length (filter ((=) BuildSnapshot) cmds)"

text \<open>The commands that enter the queue: none does once the senders are dropped.\<close>

fun accepted :: "bool \<Rightarrow> 's worker_event list \<Rightarrow> sm_command list" where
  "accepted closed [] = []"
| "accepted closed (WSend cmd # evs) = (if closed then [] else [cmd]) @ accepted closed evs"
| "accepted closed (WClose # evs) = accepted True evs"
| "accepted closed (WTurn user # evs) = accepted closed evs"
| "accepted closed (WBuilt i # evs) = accepted closed evs"
| "accepted closed (WStore g # evs) = accepted closed evs"

text \<open>What a command does to the content of the machine, when it succeeds.\<close>

fun cmd_effect :: "(entry \<Rightarrow> 'm \<Rightarrow> 'm) \<Rightarrow> (snapshot \<Rightarrow> 'm) \<Rightarrow> entry list \<Rightarrow> sm_command \<Rightarrow> 'm \<Rightarrow> 'm" where
  "cmd_effect step loaded L (Apply first_id last_id chans) m = fold step (applied_range first_id last_id L) m"
| "cmd_effect step loaded L (InstallFullSnapshot io_id snapshot) m = loaded snapshot"
| "cmd_effect step loaded L cmd m = m"

text \<open>A range that the log covers; a snapshot that decodes.\<close>

fun cmd_ok :: "(snapshot \<Rightarrow> bool) \<Rightarrow> entry list \<Rightarrow> sm_command \<Rightarrow> bool" where
  "cmd_ok decodes L (Apply first_id last_id chans) \<longleftrightarrow> lg_index first_id \<le> lg_index last_id
     \<and> lg_index last_id < 2 ^ 64 - 1 \<and> lg_index last_id \<in> e_index ` set L"
| "cmd_ok decodes L (InstallFullSnapshot io_id snapshot) \<longleftrightarrow> decodes snapshot"
| "cmd_ok decodes L cmd \<longleftrightarrow> True"

text \<open>What another task, or the function of the user, may do to the shared state.\<close>

definition keeps :: "('s \<Rightarrow> bool) \<Rightarrow> ('s \<Rightarrow> nat) \<Rightarrow> ('s \<Rightarrow> 'm) \<Rightarrow> ('s \<Rightarrow> 's) \<Rightarrow> bool" where
  "keeps ok_state budget content g \<longleftrightarrow>
     (\<forall>s. ok_state s \<longrightarrow> ok_state (g s) \<and> budget s \<le> budget (g s) \<and> content (g s) = content s)"

fun event_ok :: "(sm_command \<Rightarrow> bool) \<Rightarrow> (('s \<Rightarrow> 's) \<Rightarrow> bool) \<Rightarrow> 's worker_event \<Rightarrow> bool" where
  "event_ok ok kept (WSend cmd) \<longleftrightarrow> ok cmd"
| "event_ok ok kept (WTurn user) \<longleftrightarrow> kept user"
| "event_ok ok kept (WStore g) \<longleftrightarrow> kept g"
| "event_ok ok kept WClose \<longleftrightarrow> True"
| "event_ok ok kept (WBuilt i) \<longleftrightarrow> True"

text \<open>
  A worker that has executed the commands \<open>executed\<close>, and nothing else: the content of the machine, the
  answers to the clients and the progress it reported are those of \<open>executed\<close>, in order.
\<close>

definition worker_has_run ::
  "(entry \<Rightarrow> 'm \<Rightarrow> 'm) \<Rightarrow> (snapshot \<Rightarrow> 'm) \<Rightarrow> (entry \<Rightarrow> response) \<Rightarrow> ('s \<Rightarrow> 'm) \<Rightarrow> entry list \<Rightarrow> 'm
     \<Rightarrow> sm_command list \<Rightarrow> ('s, 'b) sm_worker \<Rightarrow> bool" where
  "worker_has_run step loaded resp content L m0 executed w \<longleftrightarrow>
     content (wk_machine w) = fold (cmd_effect step loaded L) executed m0
     \<and> filter is_write_reply (wk_replies w) = concat (map (cmd_answers resp L) executed)
     \<and> filter reports_progress (wk_notes w) = concat (map cmd_progress executed)"

section \<open>Pairing entries with responders\<close>

lemma with_responders_pairs:
  "\<exists>xs. with_responders (map Inr es) chans = map Inr xs \<and> map fst xs = es
     \<and> map (\<lambda>(r, x). ar_send x r) (concat (map (\<lambda>(ent, tx). case tx of Some t \<Rightarrow> [(t, resp ent)] | None \<Rightarrow> []) xs))
       = entry_answers resp es chans"
proof (induction es arbitrary: chans)
  case (Cons ent es)
  show ?case
  proof (cases chans)
    case Nil
    obtain xs where "with_responders (map Inr es) [] = map Inr xs" "map fst xs = es"
      "map (\<lambda>(r, x). ar_send x r) (concat (map (\<lambda>(ent, tx). case tx of Some t \<Rightarrow> [(t, resp ent)] | None \<Rightarrow> []) xs))
       = entry_answers resp es []"
      using Cons.IH by blast
    then show ?thesis using Nil
      by (intro exI[of _ "(ent, None) # xs"]) (simp add: into_parts_def)
  next
    case (Cons c rest)
    obtain i tx where c: "c = (i, tx)" by fastforce
    let ?rest = "if i = e_index ent then rest else chans"
    obtain xs where xs: "with_responders (map Inr es) ?rest = map Inr xs" "map fst xs = es"
      "map (\<lambda>(r, x). ar_send x r) (concat (map (\<lambda>(ent, tx). case tx of Some t \<Rightarrow> [(t, resp ent)] | None \<Rightarrow> []) xs))
       = entry_answers resp es ?rest"
      using Cons.IH by blast
    obtain r where r: "into_parts ent (Some tx) = (ent, Some r)" by (simp add: into_parts_def)
    show ?thesis
    proof (cases "i = e_index ent")
      case True
      then show ?thesis using xs Cons c r ar_send_into_parts[OF r]
        by (intro exI[of _ "(ent, Some r) # xs"]) simp
    next
      case False
      then show ?thesis using xs Cons c
        by (intro exI[of _ "(ent, None) # xs"]) (simp add: into_parts_def)
    qed
  qed
qed simp

text \<open>Sorted responders whose entries are in the range are all answered, each with its own entry.\<close>

lemma entry_answers_own:
  assumes "sorted_wrt (<) (map e_index es)" "sorted_wrt (<) (map fst chans)" "fst ` set chans \<subseteq> e_index ` set es"
  shows "list_all2 (\<lambda>(index, tx) (tx', r). tx' = tx \<and> (\<exists>ent \<in> set es. e_index ent = index \<and> r = answer_of resp ent))
    chans (entry_answers resp es chans)"
  using assms
proof (induction es arbitrary: chans)
  case (Cons ent es)
  show ?case
  proof (cases chans)
    case (Cons c rest)
    obtain i tx where c: "c = (i, tx)" by fastforce
    show ?thesis
    proof (cases "i = e_index ent")
      case True
      have "fst ` set rest \<subseteq> e_index ` set es"
        using Cons.prems(2,3) Cons c True by fastforce
      then have "list_all2 (\<lambda>(index, tx) (tx', r). tx' = tx \<and> (\<exists>ent \<in> set es. e_index ent = index \<and> r = answer_of resp ent))
          rest (entry_answers resp es rest)"
        using Cons.IH[of rest] Cons.prems(1,2) Cons by simp
      then have "list_all2 (\<lambda>(index, tx) (tx', r). tx' = tx \<and> (\<exists>e \<in> set (ent # es). e_index e = index \<and> r = answer_of resp e))
          rest (entry_answers resp es rest)"
        by (rule list_all2_mono) auto
      then show ?thesis using Cons c True by simp
    next
      case False
      then have "i \<in> e_index ` set es" using Cons.prems(3) Cons c by auto
      then have "e_index ent < i" using Cons.prems(1) by auto
      then have "fst ` set chans \<subseteq> e_index ` set es"
        using Cons.prems(2,3) Cons c by fastforce
      then have "list_all2 (\<lambda>(index, tx) (tx', r). tx' = tx \<and> (\<exists>ent \<in> set es. e_index ent = index \<and> r = answer_of resp ent))
          chans (entry_answers resp es chans)"
        using Cons.IH[of chans] Cons.prems(1,2) by simp
      then have "list_all2 (\<lambda>(index, tx) (tx', r). tx' = tx \<and> (\<exists>e \<in> set (ent # es). e_index e = index \<and> r = answer_of resp e))
          chans (entry_answers resp es chans)"
        by (rule list_all2_mono) auto
      then show ?thesis using Cons c False by simp
    qed
  qed simp
qed simp

lemma last_pulled_entries:
  "map fst xs = es \<Longrightarrow> es \<noteq> [] \<Longrightarrow> last_pulled (length xs) (map Inr xs) = e_index (last es)"
proof (induction xs arbitrary: es rule: rev_induct)
  case (snoc x xs)
  then show ?case by (cases x) (auto simp: last_pulled_def)
qed simp


section \<open>The contract of a state machine\<close>

text \<open>
  \<open>holds L s\<close>: the store holds the committed log \<open>L\<close>, perhaps followed by entries that are not
  committed. Snapshots that are \<open>decodes\<close> are read as \<open>loaded\<close>; \<open>budget\<close> is the number of builders that can be
  made before a counter overflows. An operation that fails promises nothing.
\<close>

locale worker_machine =
  fixes W :: "('s, 'b) worker_ops"
    and holds :: "entry list \<Rightarrow> 's \<Rightarrow> bool"
    and content :: "'s \<Rightarrow> 'm"
    and step :: "entry \<Rightarrow> 'm \<Rightarrow> 'm"
    and resp :: "entry \<Rightarrow> response"
    and decodes :: "snapshot \<Rightarrow> bool"
    and loaded :: "snapshot \<Rightarrow> 'm"
    and budget :: "'s \<Rightarrow> nat"
  assumes log_sorted: "holds L s \<Longrightarrow> sorted_wrt (<) (map e_index L)"
    and read: "holds L s \<Longrightarrow> ent \<in> set L \<Longrightarrow> a \<le> e_index ent \<Longrightarrow> e_index ent < 2 ^ 64 - 1 \<Longrightarrow>
      \<exists>r. wo_read W a (e_index ent + 1) s = Some r \<and> (\<forall>es. r = Inr es \<longrightarrow> es = entries_between a (e_index ent + 1) L)"
    and apply_entries: "holds L s \<Longrightarrow> \<exists>s'. wo_apply W (map Inr xs) s = Some (Inr (),
        concat (map (\<lambda>(ent, tx). case tx of Some t \<Rightarrow> [(t, resp ent)] | None \<Rightarrow> []) xs), length xs, s')
      \<and> holds L s' \<and> budget s \<le> budget s' \<and> content s' = fold step (map fst xs) (content s)"
    and apply_error: "holds L s \<Longrightarrow> \<exists>n s'. wo_apply W [Inl e] s = Some (Inl e, [], n, s')"
    and try_create_builder: "holds L s \<Longrightarrow> 0 < budget s \<Longrightarrow> \<exists>b s'. wo_try_create_builder W s = Some (b, s')
      \<and> holds L s' \<and> budget s \<le> Suc (budget s') \<and> content s' = content s"
    and build: "holds L s \<Longrightarrow> \<exists>r s'. wo_build W b s = Some (r, s')
      \<and> (\<forall>m. r = Inr m \<longrightarrow> holds L s' \<and> budget s \<le> budget s' \<and> content s' = content s)"
    and install: "holds L s \<Longrightarrow> decodes snapshot \<Longrightarrow> \<exists>r s'. wo_install W snapshot s = Some (r, s')
      \<and> (r = Inr () \<longrightarrow> holds L s' \<and> budget s \<le> budget s' \<and> content s' = loaded snapshot)"
    and current: "holds L s \<Longrightarrow> \<exists>r. wo_current W s = Some r"
    and begin_receiving: "holds L s \<Longrightarrow> \<exists>r. wo_begin_receiving W s = Some r"
begin

lemma last_entries_between:
  assumes "sorted_wrt (<) (map e_index L)" "ent \<in> set L" "a \<le> e_index ent"
  shows "entries_between a (e_index ent + 1) L \<noteq> [] \<and> e_index (last (entries_between a (e_index ent + 1) L)) = e_index ent"
proof -
  let ?es = "entries_between a (e_index ent + 1) L"
  have m: "ent \<in> set ?es" using assms(2,3) by (simp add: entries_between_def)
  have s: "sorted_wrt (<) (map e_index ?es)"
    using assms(1) by (simp add: entries_between_def sorted_wrt_map sorted_wrt_filter)
  from m obtain xs where xs: "?es = xs @ [last ?es]" by (metis append_butlast_last_id list.distinct(1) empty_iff list.set(1))
  have "e_index ent \<le> e_index (last ?es)"
  proof (cases "ent = last ?es")
    case False
    then have "ent \<in> set xs" using m by (metis xs UnE append_is_Nil_conv empty_iff empty_set set_ConsD set_append)
    moreover have "\<forall>x \<in> set xs. e_index x < e_index (last ?es)" using s by (subst (asm) xs) (auto simp: sorted_wrt_append)
    ultimately show ?thesis by (simp add: less_imp_le)
  qed simp
  moreover have "last ?es \<in> set ?es" using m by (auto intro: last_in_set)
  then have "e_index (last ?es) \<le> e_index ent" by (simp add: entries_between_def)
  ultimately show ?thesis using m by (metis le_antisym empty_iff empty_set)
qed

lemma worker_apply_spec:
  assumes "holds L s" "cmd_ok decodes L (Apply first_id last_id chans)"
  shows "\<exists>r answers s'. worker_apply W first_id last_id chans s = Some (r, answers, s') \<and>
    (case r of
       Inl e \<Rightarrow> answers = []
     | Inr res \<Rightarrow> res = \<lparr>apr_since = lg_index first_id, apr_end = lg_index last_id + 1, apr_last_applied = last_id\<rparr>
         \<and> answers = entry_answers resp (applied_range first_id last_id L) chans
         \<and> holds L s' \<and> budget s \<le> budget s' \<and> content s' = fold step (applied_range first_id last_id L) (content s))"
proof -
  obtain ent where ent: "ent \<in> set L" "lg_index last_id = e_index ent" using assms(2) by auto
  have b: "lg_index first_id \<le> e_index ent" "e_index ent < 2 ^ 64 - 1" using assms(2) ent by auto
  obtain q where q: "wo_read W (lg_index first_id) (e_index ent + 1) s = Some q"
    "\<forall>es. q = Inr es \<longrightarrow> es = entries_between (lg_index first_id) (e_index ent + 1) L"
    using read[OF assms(1) ent(1) b] by blast
  show ?thesis
  proof (cases q)
    case (Inl e)
    obtain n s' where "wo_apply W [Inl e] s = Some (Inl e, [], n, s')" using apply_error[OF assms(1)] by blast
    then show ?thesis
      using q(1) Inl b by (simp add: worker_apply_def ent(2) entries_stream_def sto_err_def)
  next
    case (Inr es)
    then have es: "es = applied_range first_id last_id L" using q(2) by (simp add: applied_range_def ent(2))
    obtain xs where xs: "with_responders (map Inr es) chans = map Inr xs" "map fst xs = es"
      "map (\<lambda>(r, x). ar_send x r) (concat (map (\<lambda>(ent, tx). case tx of Some t \<Rightarrow> [(t, resp ent)] | None \<Rightarrow> []) xs))
       = entry_answers resp es chans"
      using with_responders_pairs by blast
    obtain s' where s': "wo_apply W (map Inr xs) s = Some (Inr (),
        concat (map (\<lambda>(ent, tx). case tx of Some t \<Rightarrow> [(t, resp ent)] | None \<Rightarrow> []) xs), length xs, s')"
      "holds L s'" "budget s \<le> budget s'" "content s' = fold step (map fst xs) (content s)"
      using apply_entries[OF assms(1)] by blast
    have "es \<noteq> []" "e_index (last es) = e_index ent"
      using last_entries_between[OF log_sorted[OF assms(1)] ent(1) b(1)] by (simp_all add: es applied_range_def ent(2))
    then have "last_pulled (length xs) (map Inr xs) = e_index ent" using last_pulled_entries[OF xs(2)] by simp
    then show ?thesis
      using q(1) Inr b xs s' by (simp add: worker_apply_def ent(2) entries_stream_def sto_err_def es)
  qed
qed

definition worker_inv :: "entry list \<Rightarrow> 'm \<Rightarrow> sm_command list \<Rightarrow> ('s, 'b) sm_worker \<Rightarrow> bool" where
  "worker_inv L m0 cmds w \<longleftrightarrow> holds L (wk_machine w) \<and> \<not> has_error w
     \<and> (wk_status w = WorkerRunning \<or> wk_status w = WorkerQuit \<and> wk_closed w)
     \<and> (\<forall>cmd \<in> set (wk_queue w). cmd_ok decodes L cmd)
     \<and> (\<exists>executed. cmds = executed @ wk_queue w \<and> worker_has_run step loaded resp content L m0 executed w)"

definition command_done :: "entry list \<Rightarrow> sm_command \<Rightarrow> ('s, 'b) sm_worker \<Rightarrow> ('s, 'b) sm_worker \<Rightarrow> bool" where
  "command_done L cmd w w' \<longleftrightarrow> holds L (wk_machine w')
     \<and> budget (wk_machine w) \<le> budget (wk_machine w') + builds [cmd]
     \<and> content (wk_machine w') = cmd_effect step loaded L cmd (content (wk_machine w))
     \<and> wk_queue w' = wk_queue w \<and> wk_status w' = wk_status w \<and> wk_closed w' = wk_closed w
     \<and> filter is_write_reply (wk_replies w') = filter is_write_reply (wk_replies w) @ cmd_answers resp L cmd
     \<and> filter reports_progress (wk_notes w') = filter reports_progress (wk_notes w) @ cmd_progress cmd
     \<and> has_error w' = has_error w"

lemma filter_replies [simp]:
  "filter is_write_reply (map (\<lambda>(tx, r). ReplyWrite tx r) xs) = map (\<lambda>(tx, r). ReplyWrite tx r) xs"
  by (induction xs) auto

lemma command_spec:
  assumes "holds L (wk_machine w)" "cmd_ok decodes L cmd" "keeps (holds L) budget content user"
    "cmd = BuildSnapshot \<Longrightarrow> 0 < budget (wk_machine w)"
  shows "\<exists>r w'. worker_command W user cmd w = Some (r, w') \<and> (r = Inr () \<longrightarrow> command_done L cmd w w')"
proof (cases cmd)
  case BuildSnapshot
  obtain b s where "wo_try_create_builder W (wk_machine w) = Some (b, s)"
    "holds L s" "budget (wk_machine w) \<le> Suc (budget s)" "content s = content (wk_machine w)"
    using try_create_builder[OF assms(1) assms(4)[OF BuildSnapshot]] by blast
  then show ?thesis
    by (cases b) (auto simp: BuildSnapshot worker_build_snapshot_def command_done_def wk_notify_def has_error_def
        builds_def Let_def)
next
  case (GetSnapshot tx)
  obtain r where "wo_current W (wk_machine w) = Some r" using current[OF assms(1)] by blast
  then show ?thesis
    using assms(1) by (cases r) (auto simp: GetSnapshot worker_get_snapshot_def command_done_def wk_reply_def
        has_error_def builds_def sto_err_def)
next
  case (BeginReceivingSnapshot tx)
  obtain r where "wo_begin_receiving W (wk_machine w) = Some r" using begin_receiving[OF assms(1)] by blast
  then show ?thesis
    using assms(1) by (cases r) (auto simp: BeginReceivingSnapshot command_done_def wk_reply_def
        has_error_def builds_def sto_err_def)
next
  case (InstallFullSnapshot io_id snapshot)
  then have "decodes snapshot" using assms(2) by simp
  then obtain r s where "wo_install W snapshot (wk_machine w) = Some (r, s)"
    "r = Inr () \<longrightarrow> holds L s \<and> budget (wk_machine w) \<le> budget s \<and> content s = loaded snapshot"
    using install[OF assms(1)] by blast
  then show ?thesis
    by (cases r) (auto simp: InstallFullSnapshot command_done_def wk_notify_def has_error_def builds_def sto_err_def)
next
  case (Apply first_id last_id chans)
  obtain r answers s where a: "worker_apply W first_id last_id chans (wk_machine w) = Some (r, answers, s)"
    and p: "case r of
       Inl e \<Rightarrow> answers = []
     | Inr res \<Rightarrow> res = \<lparr>apr_since = lg_index first_id, apr_end = lg_index last_id + 1, apr_last_applied = last_id\<rparr>
         \<and> answers = entry_answers resp (applied_range first_id last_id L) chans
         \<and> holds L s \<and> budget (wk_machine w) \<le> budget s
         \<and> content s = fold step (applied_range first_id last_id L) (content (wk_machine w))"
    using worker_apply_spec[OF assms(1) assms(2)[unfolded Apply]] by blast
  show ?thesis
  proof (cases r)
    case (Inl e)
    then show ?thesis using a by (simp add: Apply)
  next
    case (Inr res)
    then show ?thesis
      using a p by (auto simp: Apply command_done_def wk_notify_def wk_reply_def has_error_def builds_def)
  qed
next
  case Func
  then show ?thesis using assms(1,3) by (auto simp: command_done_def keeps_def has_error_def builds_def)
qed

lemma turn_spec:
  assumes "worker_inv L m0 cmds w" "wk_status w = WorkerRunning" "keeps (holds L) budget content user"
    "builds (wk_queue w) \<le> budget (wk_machine w)"
  shows "\<exists>w'. worker_turn W user w = Some w' \<and> (has_error w' \<or> worker_inv L m0 cmds w'
    \<and> wk_closed w' = wk_closed w \<and> builds (wk_queue w') \<le> budget (wk_machine w')
    \<and> budget (wk_machine w) + builds (wk_queue w') \<le> budget (wk_machine w') + builds (wk_queue w))"
proof (cases "wk_queue w")
  case Nil
  then show ?thesis
    using assms by (auto simp: worker_turn_def worker_inv_def worker_has_run_def has_error_def)
next
  case (Cons cmd rest)
  let ?w = "w\<lparr>wk_queue := rest\<rparr>"
  have q: "builds (wk_queue w) = builds [cmd] + builds rest" by (simp add: Cons builds_def)
  have "cmd = BuildSnapshot \<Longrightarrow> 0 < budget (wk_machine ?w)"
    using assms(4) by (simp add: Cons builds_def)
  then obtain r w' where c: "worker_command W user cmd ?w = Some (r, w')" "r = Inr () \<longrightarrow> command_done L cmd ?w w'"
    using command_spec[of L ?w cmd user] assms(1,3) Cons by (auto simp: worker_inv_def)
  show ?thesis
  proof (cases r)
    case (Inl e)
    then show ?thesis using c(1) Cons by (auto simp: worker_turn_def has_error_def wk_notify_def)
  next
    case (Inr u)
    then have d: "command_done L cmd ?w w'" using c(2) by simp
    obtain executed where r: "cmds = executed @ wk_queue w" "worker_has_run step loaded resp content L m0 executed w"
      using assms(1) by (auto simp: worker_inv_def)
    have "worker_has_run step loaded resp content L m0 (executed @ [cmd]) w'"
      using r(2) d by (simp add: worker_has_run_def command_done_def)
    moreover have "cmds = (executed @ [cmd]) @ wk_queue w'" using r(1) d Cons by (simp add: command_done_def)
    ultimately have "worker_inv L m0 cmds w'"
      using assms(1,2) d Cons unfolding worker_inv_def command_done_def has_error_def by auto
    then show ?thesis
      using c(1) Cons Inr d q assms(4) by (simp add: worker_turn_def command_done_def)
  qed
qed

lemma builder_spec:
  assumes "worker_inv L m0 cmds w"
  shows "\<exists>w'. builder_task W i w = Some w' \<and> (has_error w' \<or> worker_inv L m0 cmds w'
    \<and> wk_closed w' = wk_closed w \<and> wk_queue w' = wk_queue w \<and> budget (wk_machine w) \<le> budget (wk_machine w'))"
proof (cases "length (wk_builders w) \<le> i")
  case True
  then show ?thesis using assms by (simp add: builder_task_def)
next
  case False
  obtain r s where b: "wo_build W (wk_builders w ! i) (wk_machine w) = Some (r, s)"
    "\<forall>m. r = Inr m \<longrightarrow> holds L s \<and> budget (wk_machine w) \<le> budget s \<and> content s = content (wk_machine w)"
    using build assms unfolding worker_inv_def by blast
  show ?thesis
  proof (cases r)
    case (Inl e)
    then show ?thesis using b(1) False by (auto simp: builder_task_def has_error_def wk_notify_def sto_err_def Let_def)
  next
    case (Inr m)
    then show ?thesis using b False assms
      by (auto simp: builder_task_def has_error_def wk_notify_def sto_err_def worker_inv_def worker_has_run_def Let_def)
  qed
qed

lemma step_spec:
  assumes "worker_inv L m0 cmds w" "event_ok (cmd_ok decodes L) (keeps (holds L) budget content) ev"
    "builds (wk_queue w) \<le> budget (wk_machine w)"
  shows "\<exists>w'. worker_step W ev w = Some w' \<and> (has_error w' \<or>
    worker_inv L m0 (cmds @ accepted (wk_status w \<noteq> WorkerRunning \<or> wk_closed w) [ev]) w'
    \<and> wk_closed w' = (wk_closed w \<or> ev = WClose)
    \<and> budget (wk_machine w) + builds (wk_queue w')
      \<le> budget (wk_machine w') + builds (wk_queue w) + builds (accepted (wk_closed w) [ev]))"
proof (cases ev)
  case (WSend cmd)
  then show ?thesis
    using assms by (auto simp: handle_send_def worker_inv_def worker_has_run_def has_error_def builds_def)
next
  case WClose
  then show ?thesis using assms by (auto simp: worker_inv_def worker_has_run_def has_error_def)
next
  case (WTurn user)
  then have k: "keeps (holds L) budget content user" using assms(2) by simp
  show ?thesis
  proof (cases "wk_status w = WorkerRunning")
    case True
    then show ?thesis using turn_spec[OF assms(1) True k assms(3)] WTurn by auto
  next
    case False
    then show ?thesis using assms(1) WTurn by auto
  qed
next
  case (WBuilt i)
  then show ?thesis using builder_spec[OF assms(1), of i] by auto
next
  case (WStore g)
  then show ?thesis
    using assms by (fastforce simp: worker_inv_def worker_has_run_def has_error_def keeps_def)
qed

lemma has_status: "worker_inv L m0 cmds w \<Longrightarrow> (wk_status w \<noteq> WorkerRunning \<or> wk_closed w) = wk_closed w"
  by (auto simp: worker_inv_def)

lemma accepted_Cons: "accepted closed (ev # evs) = accepted closed [ev] @ accepted (closed \<or> ev = WClose) evs"
  by (cases ev) simp_all

text \<open>A run that meets no error of the storage executes the commands in order; it never panics.\<close>

lemma run_spec:
  assumes "worker_inv L m0 cmds w" "\<forall>ev \<in> set evs. event_ok (cmd_ok decodes L) (keeps (holds L) budget content) ev"
    "builds (wk_queue w @ accepted (wk_closed w) evs) \<le> budget (wk_machine w)"
  shows "(\<exists>w'. worker_run W evs w = Some w' \<and> worker_inv L m0 (cmds @ accepted (wk_closed w) evs) w')
    \<or> (\<exists>evs1 evs2 w'. evs = evs1 @ evs2 \<and> worker_run W evs1 w = Some w' \<and> has_error w')"
  using assms
proof (induction evs arbitrary: cmds w)
  case (Cons ev evs)
  have b: "builds (xs @ ys) = builds xs + builds ys" for xs ys by (simp add: builds_def)
  have q: "builds (wk_queue w) \<le> budget (wk_machine w)" using Cons.prems(3) by (simp add: b)
  obtain w1 where w1: "worker_step W ev w = Some w1"
    "has_error w1 \<or> worker_inv L m0 (cmds @ accepted (wk_closed w) [ev]) w1
      \<and> wk_closed w1 = (wk_closed w \<or> ev = WClose)
      \<and> budget (wk_machine w) + builds (wk_queue w1)
        \<le> budget (wk_machine w1) + builds (wk_queue w) + builds (accepted (wk_closed w) [ev])"
    using step_spec[OF Cons.prems(1) _ q, of ev] Cons.prems(2) has_status[OF Cons.prems(1)] by auto
  show ?case
  proof (cases "has_error w1")
    case True
    then have "worker_run W [ev] w = Some w1 \<and> has_error w1" using w1(1) by simp
    then show ?thesis by (metis append_Cons append_Nil)
  next
    case False
    then have i: "worker_inv L m0 (cmds @ accepted (wk_closed w) [ev]) w1"
      and c: "wk_closed w1 = (wk_closed w \<or> ev = WClose)" using w1(2) by auto
    have "builds (wk_queue w1 @ accepted (wk_closed w1) evs) \<le> budget (wk_machine w1)"
      using w1(2) False Cons.prems(3) accepted_Cons[of "wk_closed w" ev evs] c by (simp add: b)
    from Cons.IH[OF i _ this] Cons.prems(2)
    have "(\<exists>w'. worker_run W evs w1 = Some w' \<and> worker_inv L m0 (cmds @ accepted (wk_closed w) (ev # evs)) w')
      \<or> (\<exists>evs1 evs2 w'. evs = evs1 @ evs2 \<and> worker_run W evs1 w1 = Some w' \<and> has_error w')"
      using accepted_Cons[of "wk_closed w" ev evs] c by simp
    then show ?thesis
    proof
      assume "\<exists>w'. worker_run W evs w1 = Some w' \<and> worker_inv L m0 (cmds @ accepted (wk_closed w) (ev # evs)) w'"
      then show ?thesis using w1(1) by simp
    next
      assume "\<exists>evs1 evs2 w'. evs = evs1 @ evs2 \<and> worker_run W evs1 w1 = Some w' \<and> has_error w'"
      then obtain evs1 evs2 w' where "evs = evs1 @ evs2" "worker_run W evs1 w1 = Some w'" "has_error w'" by blast
      then have "ev # evs = (ev # evs1) @ evs2 \<and> worker_run W (ev # evs1) w = Some w' \<and> has_error w'"
        using w1(1) by simp
      then show ?thesis by blast
    qed
  qed
qed simp

text \<open>The run of a worker that was just spawned.\<close>

lemma spawned_run:
  assumes "holds L s" "\<forall>ev \<in> set evs. event_ok (cmd_ok decodes L) (keeps (holds L) budget content) ev"
    "builds (accepted False evs) \<le> budget s"
  shows "(\<exists>w' executed. worker_run W evs (worker_spawn s) = Some w'
      \<and> accepted False evs = executed @ wk_queue w' \<and> \<not> has_error w'
      \<and> worker_has_run step loaded resp content L (content s) executed w')
    \<or> (\<exists>evs1 evs2 w'. evs = evs1 @ evs2 \<and> worker_run W evs1 (worker_spawn s) = Some w' \<and> has_error w')"
proof -
  have "worker_inv L (content s) [] (worker_spawn s)"
    using assms(1) by (simp add: worker_inv_def worker_spawn_def has_error_def worker_has_run_def)
  from run_spec[OF this assms(2)] assms(3) show ?thesis
    by (fastforce simp: worker_spawn_def worker_inv_def)
qed

end

section \<open>The key-value store as the state machine\<close>

definition bytes_str :: "bytes \<Rightarrow> string" where
  "bytes_str b = map (\<lambda>x. char_of (unat x)) b"

definition pulled_items :: "(io_error + 'a) list \<Rightarrow> nat" where
  "pulled_items strm = length (takeWhile (\<lambda>x. case x of Inl _ \<Rightarrow> False | Inr _ \<Rightarrow> True) strm)"

definition kv_worker_ops :: "'d rocks \<Rightarrow> kv_serde \<Rightarrow> log_serde \<Rightarrow> (state_machine \<times> 'd kv_world, state_machine) worker_ops" where
  "kv_worker_ops R S LS = \<lparr>
     wo_read = (\<lambda>a b (sm, w). ls_try_get_log_entries R LS (Included (of_nat a), Excluded (of_nat b)) (kw_db w)),
     wo_apply = (\<lambda>strm (sm, w). let (r, sent, sm', kvs) = sm_apply strm sm (kw_kvs w)
        in Some (r, sent, pulled_items strm, (sm', w\<lparr>kw_kvs := kvs\<rparr>))),
     wo_try_create_builder = (\<lambda>(sm, w). do { (sm', b) \<leftarrow> sm_get_snapshot_builder sm; Some (Some b, (sm', w)) }),
     wo_build = (\<lambda>b (sm, w). do { (r, w') \<leftarrow> sm_build_snapshot R S b w; Some (map_sum id ss_meta r, (sm, w')) }),
     wo_install = (\<lambda>snapshot (sm, w). do {
        (r, sm', w') \<leftarrow> sm_install_snapshot R S (snap_meta snapshot) (str_bytes (snap_data snapshot)) sm w;
        Some (r, (sm', w')) }),
     wo_current = (\<lambda>(sm, w). map_option (map_sum id (map_option
        (\<lambda>s. \<lparr>snap_meta = ss_meta s, snap_data = bytes_str (ss_data s)\<rparr>))) (sm_get_current_snapshot R S w)),
     wo_begin_receiving = (\<lambda>s. Some (Inr []))\<rparr>"

definition kv_holds ::
  "('d \<Rightarrow> string \<Rightarrow> (bytes, bytes) bt_map option) \<Rightarrow> log_serde \<Rightarrow> entry list \<Rightarrow> state_machine \<times> 'd kv_world \<Rightarrow> bool" where
  "kv_holds ab LS L s \<longleftrightarrow> bt_wf (kw_kvs (snd s)) \<and> sms_snapshot_idx (fst s) < 2 ^ 64
     \<and> ab (kw_db (snd s)) ''store'' \<noteq> None \<and> (\<exists>es. log_held ab LS (kw_db (snd s)) es \<and> prefix L es)"

definition kv_content :: "state_machine \<times> 'd kv_world \<Rightarrow> (string \<Rightarrow> string option) \<times> log_id option \<times> stored_membership" where
  "kv_content s = (bt_get (kw_kvs (snd s)), sm_applied_state (fst s))"

definition kv_apply_step :: "entry \<Rightarrow> (string \<Rightarrow> string option) \<times> log_id option \<times> stored_membership
    \<Rightarrow> (string \<Rightarrow> string option) \<times> log_id option \<times> stored_membership" where
  "kv_apply_step ent = (\<lambda>(m, applied, mem). (kv_step (e_payload ent) m, Some (e_log_id ent),
     case entry_get_membership ent of Some c \<Rightarrow> \<lparr>sm_log_id = Some (e_log_id ent), sm_membership = c\<rparr> | None \<Rightarrow> mem))"

definition kv_decodes :: "kv_serde \<Rightarrow> snapshot \<Rightarrow> bool" where
  "kv_decodes S snapshot \<longleftrightarrow> (case from_slice (sd_kvs S) (str_bytes (snap_data snapshot)) of
     Inl _ \<Rightarrow> False | Inr kvs \<Rightarrow> bt_wf kvs)"

definition kv_loaded :: "kv_serde \<Rightarrow> snapshot \<Rightarrow> (string \<Rightarrow> string option) \<times> log_id option \<times> stored_membership" where
  "kv_loaded S snapshot = (case from_slice (sd_kvs S) (str_bytes (snap_data snapshot)) of
       Inl _ \<Rightarrow> Map.empty | Inr kvs \<Rightarrow> bt_get kvs,
     snap_last_log_id (snap_meta snapshot), snap_last_membership (snap_meta snapshot))"

definition kv_budget :: "state_machine \<times> 'd kv_world \<Rightarrow> nat" where
  "kv_budget s = 2 ^ 64 - 1 - sms_snapshot_idx (fst s)"

lemma fold_kv_apply_step:
  "fold kv_apply_step es (m, applied, mem) =
     (kv_after es m, if es = [] then applied else Some (e_log_id (last es)), membership_after es mem)"
  by (induction es arbitrary: m applied mem)
    (auto simp: kv_apply_step_def kv_after_def membership_after_def)

lemma log_held_cong:
  "log_held ab LS d es \<Longrightarrow> \<forall>cf. cf \<noteq> ''store'' \<longrightarrow> ab d' cf = ab d cf \<Longrightarrow> log_held ab LS d' es"
  by (simp add: log_held_def)

lemma kv_holds_db:
  assumes "kv_holds ab LS L (sm, w)"
    "snapshot_held (ab d') S snap \<and> (\<forall>cf. cf \<noteq> ''store'' \<longrightarrow> ab d' cf = ab (kw_db w) cf)"
  shows "kv_holds ab LS L (sm, w\<lparr>kw_db := d'\<rparr>)"
    "bt_wf kvs \<Longrightarrow> sms_snapshot_idx sm' = sms_snapshot_idx sm \<Longrightarrow> kv_holds ab LS L (sm', \<lparr>kw_kvs = kvs, kw_db = d'\<rparr>)"
proof -
  obtain es where es: "log_held ab LS (kw_db w) es" "prefix L es" using assms(1) by (auto simp: kv_holds_def)
  have "log_held ab LS d' es" using log_held_cong[OF es(1)] assms(2) by blast
  moreover have "ab d' ''store'' \<noteq> None" using assms(2) by (auto simp: snapshot_held_def)
  ultimately show "kv_holds ab LS L (sm, w\<lparr>kw_db := d'\<rparr>)"
    "bt_wf kvs \<Longrightarrow> sms_snapshot_idx sm' = sms_snapshot_idx sm \<Longrightarrow> kv_holds ab LS L (sm', \<lparr>kw_kvs = kvs, kw_db = d'\<rparr>)"
    using assms(1) es(2) unfolding kv_holds_def by auto
qed

lemma pulled_items_all [simp]: "pulled_items (map Inr xs) = length xs"
  by (induction xs) (simp_all add: pulled_items_def)

locale kv_worker = state_machine_db R ab dur S + log_storage_db R ab dur LS
  for R :: "'d rocks" and ab dur and S :: kv_serde and LS :: log_serde +
  assumes snapshot_total: "serde_total (sd_snapshot S)"
begin

lemma set_current_snapshot_some:
  assumes "ab d ''store'' \<noteq> None"
  shows "\<exists>r d'. sm_set_current_snapshot R S snap d = Some (r, d')"
proof -
  obtain b where "to_vec (sd_snapshot S) snap = Inr b" using snapshot_total by (auto simp: serde_total_def)
  then show ?thesis
    using assms handle[of d "''store''"]
    by (cases "put_cf R ''store'' key_snapshot b d"; cases "fst (put_cf R ''store'' key_snapshot b d)";
        cases "flush_wal R (snd (put_cf R ''store'' key_snapshot b d))")
      (auto simp: sm_set_current_snapshot_def Let_def)
qed

lemma read_committed_range:
  assumes "log_held ab LS d es" "prefix L es" "ent \<in> set L" "a \<le> e_index ent" "e_index ent < 2 ^ 64 - 1"
  shows "\<exists>r. ls_try_get_log_entries R LS (Included (of_nat a), Excluded (of_nat (e_index ent + 1))) d = Some r
    \<and> (\<forall>out. r = Inr out \<longrightarrow> out = entries_between a (e_index ent + 1) L)"
proof -
  let ?rg = "(Included (of_nat a), Excluded (of_nat (e_index ent + 1)))" and ?b = "e_index ent + 1"
  obtain m where m: "logs_rep LS m es" using assms(1) by (auto simp: log_held_def)
  have bound: "e_index x < 2 ^ 64" if "x \<in> set es" for x
    using m that by (auto simp: logs_rep_def entry_rep_def list_all2_conv_all_nth in_set_conv_nth)
  have nat: "unat (of_nat a :: 64 word) = a" "unat (of_nat ?b :: 64 word) = ?b"
    using assms(4,5) by (simp_all add: unat_of_nat take_bit_eq_mod del: of_nat_add of_nat_Suc)
  have "range_contains ?rg (entry_key (e_log_id x)) \<longleftrightarrow> a \<le> e_index x \<and> e_index x < ?b" if "x \<in> set es" for x
    using bound[OF that] nat by (simp add: word_le_nat_alt word_less_nat_alt unat_entry_key del: of_nat_add of_nat_Suc)
  then have "filter (\<lambda>x. range_contains ?rg (entry_key (e_log_id x))) es = entries_between a ?b es"
    by (auto simp: entries_between_def intro: filter_cong)
  moreover have "entries_between a ?b es = entries_between a ?b L"
  proof -
    obtain rest where es: "es = L @ rest" using assms(2) by (auto elim: prefixE)
    have "sorted_wrt (<) (map e_index es)" using m by (simp add: logs_rep_def)
    then have "\<forall>x \<in> set rest. e_index ent < e_index x" using assms(3) by (auto simp: es sorted_wrt_append)
    then show ?thesis by (auto simp: entries_between_def es filter_empty_conv)
  qed
  ultimately show ?thesis using read_rep[OF assms(1), of ?rg] by simp
qed

lemma kv_sm_apply:
  assumes "bt_wf kvs" "rest = [] \<or> (\<exists>err more. rest = Inl err # more)"
  obtains kvs' where "sm_apply (map Inr xs @ rest) sm kvs =
      ((case rest of Inl err # _ \<Rightarrow> Inl err | _ \<Rightarrow> Inr ()), responses_of xs,
       sm\<lparr>smd_last_applied_log_id := (if xs = [] then smd_last_applied_log_id sm else Some (e_log_id (fst (last xs)))),
          smd_last_membership := membership_after (map fst xs) (smd_last_membership sm)\<rparr>, kvs')"
    "bt_wf kvs'" "bt_get kvs' = kv_after (map fst xs) (bt_get kvs)"
  using sm_apply_spec[OF assms] by blast

lemma contract:
  "worker_machine (kv_worker_ops R S LS) (kv_holds ab LS) kv_content kv_apply_step (\<lambda>ent. kv_response (e_payload ent))
     (kv_decodes S) (kv_loaded S) kv_budget"
proof (unfold_locales, goal_cases)
  case (1 L s)
  then show ?case
    by (auto simp: kv_holds_def log_held_def logs_rep_def sorted_wrt_append elim!: prefixE)
next
  case (2 L s ent a)
  obtain sm w where s: "s = (sm, w)" by fastforce
  then show ?case using 2 read_committed_range by (auto simp: kv_holds_def kv_worker_ops_def)
next
  case (3 L s xs)
  obtain sm w where s: "s = (sm, w)" by fastforce
  have wf: "bt_wf (kw_kvs w)" using 3 by (simp add: kv_holds_def s)
  have resp: "concat (map (\<lambda>(ent, tx). case tx of Some t \<Rightarrow> [(t, kv_response (e_payload ent))] | None \<Rightarrow> []) xs)
      = responses_of xs" by (simp add: responses_of_def)
  obtain kvs' where k: "sm_apply (map Inr xs @ []) sm (kw_kvs w) = (Inr (), responses_of xs,
       sm\<lparr>smd_last_applied_log_id := (if xs = [] then smd_last_applied_log_id sm else Some (e_log_id (fst (last xs)))),
          smd_last_membership := membership_after (map fst xs) (smd_last_membership sm)\<rparr>, kvs')"
    "bt_wf kvs'" "bt_get kvs' = kv_after (map fst xs) (bt_get (kw_kvs w))"
    by (rule kv_sm_apply[OF wf, of "[]"]) auto
  show ?case
    using 3 k by (simp add: s resp kv_worker_ops_def kv_holds_def kv_content_def kv_budget_def sm_applied_state_def
        fold_kv_apply_step last_map)
next
  case (4 L s err)
  then show ?case by (cases s) (simp add: kv_worker_ops_def)
next
  case (5 L s)
  obtain sm w where s: "s = (sm, w)" by fastforce
  have "sms_snapshot_idx sm < 2 ^ 64 - 1" using 5 by (simp add: kv_budget_def s)
  then show ?case using 5
    by (auto simp: s kv_worker_ops_def sm_get_snapshot_builder_def kv_holds_def kv_budget_def kv_content_def
        sm_applied_state_def Let_def)
next
  case (6 L s b)
  obtain sm w where s: "s = (sm, w)" by fastforce
  show ?case
  proof (cases "to_vec (sd_kvs S) (kw_kvs w)")
    case (Inl err)
    then show ?thesis by (simp add: s kv_worker_ops_def sm_build_snapshot_def)
  next
    case (Inr j)
    let ?snap = "\<lparr>ss_meta = \<lparr>snap_last_log_id = smd_last_applied_log_id b,
          snap_last_membership = smd_last_membership b, snap_id = sm_snapshot_id b\<rparr>, ss_data = j\<rparr>"
    have st: "ab (kw_db w) ''store'' \<noteq> None" using 6 by (simp add: kv_holds_def s)
    obtain r d' where d: "sm_set_current_snapshot R S ?snap (kw_db w) = Some (r, d')"
      using set_current_snapshot_some[OF st] by blast
    show ?thesis
    proof (cases r)
      case (Inl err)
      then show ?thesis using d \<open>to_vec _ _ = Inr j\<close> by (simp add: s kv_worker_ops_def sm_build_snapshot_def)
    next
      case (Inr u)
      then have "snapshot_held (ab d') S ?snap \<and> (\<forall>cf. cf \<noteq> ''store'' \<longrightarrow> ab d' cf = ab (kw_db w) cf)"
        using set_current_snapshot_rep[of ?snap "kw_db w" d'] d st by simp
      then have "kv_holds ab LS L (sm, w\<lparr>kw_db := d'\<rparr>)" using kv_holds_db(1)[of ab LS L sm w d' S ?snap] 6 s by simp
      then show ?thesis using d \<open>to_vec _ _ = Inr j\<close> Inr
        by (simp add: s kv_worker_ops_def sm_build_snapshot_def kv_budget_def kv_content_def)
    qed
  qed
next
  case (7 L s snapshot)
  obtain sm w where s: "s = (sm, w)" by fastforce
  obtain kvs where k: "from_slice (sd_kvs S) (str_bytes (snap_data snapshot)) = Inr kvs" "bt_wf kvs"
    using 7(2) by (auto simp: kv_decodes_def split: sum.splits)
  let ?snap = "\<lparr>ss_meta = snap_meta snapshot, ss_data = str_bytes (snap_data snapshot)\<rparr>"
  have st: "ab (kw_db w) ''store'' \<noteq> None" using 7 by (simp add: kv_holds_def s)
  obtain r d' where d: "sm_set_current_snapshot R S ?snap (kw_db w) = Some (r, d')"
    using set_current_snapshot_some[OF st] by blast
  let ?sm = "sm\<lparr>smd_last_applied_log_id := snap_last_log_id (snap_meta snapshot),
             smd_last_membership := snap_last_membership (snap_meta snapshot)\<rparr>"
  have i: "wo_install (kv_worker_ops R S LS) snapshot s = Some (r, (?sm, \<lparr>kw_kvs = kvs, kw_db = d'\<rparr>))"
    using d k(1) by (simp add: s kv_worker_ops_def sm_install_snapshot_def sm_update_state_machine_def Let_def)
  moreover have "kv_holds ab LS L (?sm, \<lparr>kw_kvs = kvs, kw_db = d'\<rparr>)" if "r = Inr ()"
  proof -
    have "snapshot_held (ab d') S ?snap \<and> (\<forall>cf. cf \<noteq> ''store'' \<longrightarrow> ab d' cf = ab (kw_db w) cf)"
      using set_current_snapshot_rep[of ?snap "kw_db w" d'] d st that by simp
    then show ?thesis using kv_holds_db(2)[of ab LS L sm w d' S ?snap kvs ?sm] 7(1) k(2) s by simp
  qed
  ultimately show ?case
    by (simp add: kv_budget_def kv_content_def sm_applied_state_def kv_loaded_def k(1) s)
next
  case (8 L s)
  obtain sm w where s: "s = (sm, w)" by fastforce
  have "cf_handle R (kw_db w) ''store''" using 8 handle by (simp add: kv_holds_def s)
  then show ?case by (simp add: s kv_worker_ops_def sm_get_current_snapshot_def sm_get_current_snapshot'_def)
next
  case (9 L s)
  then show ?case by (simp add: kv_worker_ops_def)
qed

end

sublocale kv_worker \<subseteq> worker: worker_machine "kv_worker_ops R S LS" "kv_holds ab LS" kv_content kv_apply_step
  "\<lambda>ent. kv_response (e_payload ent)" "kv_decodes S" "kv_loaded S" kv_budget
  by (rule contract)


interpretation mem_worker: kv_worker mem_rocks fst snd kv_codecs log_codecs
  by unfold_locales (rule kv_codecs_total)

section \<open>The task of Raft beside the worker\<close>

text \<open>An append of entries that are not committed, by the task of Raft, when it succeeds.\<close>

definition kv_store_append ::
  "'d rocks \<Rightarrow> log_serde \<Rightarrow> entry list \<Rightarrow> state_machine \<times> 'd kv_world \<Rightarrow> state_machine \<times> 'd kv_world" where
  "kv_store_append R LS new s = (case ls_append R LS new (kw_db (snd s)) of
       Some (Inr _, d) \<Rightarrow> (fst s, (snd s)\<lparr>kw_db := d\<rparr>)
     | _ \<Rightarrow> s)"

lemma put_entry_after: "\<forall>x \<in> set L. e_index x < e_index ent \<Longrightarrow> put_entry ent (L @ es) = L @ put_entry ent es"
  by (induction L) auto

lemma fold_put_entry_after:
  "\<forall>x \<in> set L. \<forall>ent \<in> set new. e_index x < e_index ent \<Longrightarrow> fold put_entry new (L @ es) = L @ fold put_entry new es"
  by (induction new arbitrary: es) (simp_all add: put_entry_after)

lemma append_keeps:
  assumes "kv_worker R ab dur S LS" "\<forall>ent \<in> set new. e_index ent < 2 ^ 64"
    "\<forall>x \<in> set L. \<forall>ent \<in> set new. e_index x < e_index ent"
  shows "keeps (kv_holds ab LS L) kv_budget kv_content (kv_store_append R LS new)"
proof -
  have step: "kv_holds ab LS L (sm, w\<lparr>kw_db := d\<rparr>)"
    if h: "kv_holds ab LS L (sm, w)" and a: "ls_append R LS new (kw_db w) = Some (Inr (), d)" for sm w d
  proof -
    obtain es where es: "log_held ab LS (kw_db w) es" "prefix L es" using h by (auto simp: kv_holds_def)
    have ls: "log_storage_db R ab dur LS" using assms(1) by (simp add: kv_worker_def)
    note p = log_storage_db.append_rep[OF ls a es(1) assms(2)]
    obtain tail where "es = L @ tail" using es(2) by (rule prefixE)
    then have pre: "prefix L (fold put_entry new es)" using fold_put_entry_after[OF assms(3), of tail] by (simp add: prefix_def)
    have "ab d ''store'' \<noteq> None" using h p by (simp add: kv_holds_def)
    moreover have "\<exists>es. log_held ab LS d es \<and> prefix L es" using p pre by blast
    ultimately show ?thesis using h by (simp add: kv_holds_def)
  qed
  then have k: "kv_holds ab LS L (kv_store_append R LS new s)" if "kv_holds ab LS L s" for s
  proof (cases "\<exists>d. ls_append R LS new (kw_db (snd s)) = Some (Inr (), d)")
    case True
    then obtain d where d: "ls_append R LS new (kw_db (snd s)) = Some (Inr (), d)" by blast
    then have "kv_store_append R LS new s = (fst s, (snd s)\<lparr>kw_db := d\<rparr>)" by (simp add: kv_store_append_def)
    then show ?thesis using step[of "fst s" "snd s" d] d that by simp
  next
    case False
    then have "kv_store_append R LS new s = s"
      by (auto simp: kv_store_append_def split: option.split prod.split sum.split)
    then show ?thesis using that by simp
  qed
  have "fst (kv_store_append R LS new s) = fst s \<and> kw_kvs (snd (kv_store_append R LS new s)) = kw_kvs (snd s)" for s
    by (simp add: kv_store_append_def split: option.split prod.split sum.split)
  with k show ?thesis by (simp add: keeps_def kv_budget_def kv_content_def)
qed

lemma apply_to_state_machine_drains:
  assumes "apply_to_state_machine sto first_id last_id c = Some (Inr (), c')" "crq_wf (rc_client_responders c)"
  obtains chans where "rc_client_responders c = chans @ rc_client_responders c'"
    "EffStateMachine (Apply first_id last_id chans) \<in> set (rc_effects c')" "lg_index first_id \<le> lg_index last_id"
    "sorted_wrt (<) (map fst chans)" "\<forall>x \<in> set chans. lg_index first_id \<le> fst x \<and> fst x \<le> lg_index last_id"
    "\<forall>x \<in> set (rc_client_responders c'). lg_index last_id < fst x"
proof -
  let ?q = "rc_client_responders c"
  obtain chans rest fs where *: "crq_drain_upto (lg_index last_id) ?q = (chans, rest)"
    "rc_call sto (EffStateMachine (Apply first_id last_id chans)) StoApply
       (rc_emit fs (c\<lparr>rc_client_responders := rest\<rparr>)) = (Inr (), c')"
    "lg_index first_id \<le> lg_index last_id"
    "case crq_first_index ?q of Some first_idx \<Rightarrow> lg_index first_id \<le> first_idx | None \<Rightarrow> True"
    using assms(1) by (auto simp: apply_to_state_machine_def bind_eq_Some_conv split: prod.splits)
  note d = crq_drain_upto_split[OF assms(2) *(1)]
  have c': "rc_client_responders c' = rest" "EffStateMachine (Apply first_id last_id chans) \<in> set (rc_effects c')"
    using *(2) by (auto simp: rc_call_def rc_emit_def)
  have q: "sorted_wrt (<) (map fst ?q)" using assms(2) by (simp add: crq_wf_def)
  have ge: "lg_index first_id \<le> fst x" if "x \<in> set ?q" for x
  proof (cases ?q)
    case (Cons y ys)
    then have "lg_index first_id \<le> fst y" using *(4) by (simp add: crq_first_index_def first_opt_def)
    moreover have "fst y \<le> fst x" using q that Cons by auto
    ultimately show ?thesis by simp
  qed (use that in simp)
  show thesis
  proof (rule that)
    show "?q = chans @ rc_client_responders c'" using d c'(1) by simp
    show "sorted_wrt (<) (map fst chans)" using q d by (metis map_append sorted_wrt_append)
    show "\<forall>x \<in> set chans. lg_index first_id \<le> fst x \<and> fst x \<le> lg_index last_id"
      using d ge by (metis UnCI set_append)
    show "\<forall>x \<in> set (rc_client_responders c'). lg_index last_id < fst x" using d c'(1) by simp
  qed (fact c'(2) *(3))+
qed

section \<open>Properties\<close>

text \<open>
  C27. The worker over the key-value store refines the list of its commands: in any interleaving of
  commands, turns, builders and appends of the task of Raft, as long as RocksDB does not fail, it
  does not panic, and the map, the applied log id, the membership, the answers to the clients
  and the progress reported are exactly those of the commands executed, in the order they were sent;
  the others still wait in the queue. Otherwise it comes to a storage error, which is reported.
\<close>

theorem worker_refines_commands:
  assumes "kv_worker R ab dur S LS" "kv_holds ab LS L s"
    "\<forall>ev \<in> set evs. event_ok (cmd_ok (kv_decodes S) L) (keeps (kv_holds ab LS L) kv_budget kv_content) ev"
    "builds (accepted False evs) \<le> kv_budget s"
  shows "(\<exists>w' executed. worker_run (kv_worker_ops R S LS) evs (worker_spawn s) = Some w'
      \<and> accepted False evs = executed @ wk_queue w' \<and> \<not> has_error w'
      \<and> worker_has_run kv_apply_step (kv_loaded S) (\<lambda>ent. kv_response (e_payload ent)) kv_content L (kv_content s)
          executed w')
    \<or> (\<exists>evs1 evs2 w'. evs = evs1 @ evs2
      \<and> worker_run (kv_worker_ops R S LS) evs1 (worker_spawn s) = Some w' \<and> has_error w')"
  by (rule worker_machine.spawned_run[OF kv_worker.contract[OF assms(1)] assms(2-4)])

text \<open>
  C30. Every client that waits for an entry is answered once, with the result of its own entry: when the task
  of Raft hands a range to the worker it hands over exactly the waiting clients of that range, and unless
  the log cannot be read the worker answers each, in order, with the log id, the response and the
  membership of the entry at its index. An error leaves them all unanswered, and none is lost from
  the queue.
\<close>

theorem clients_get_own_answers:
  assumes "kv_worker R ab dur S LS" "kv_holds ab LS L s" "crq_wf (rc_client_responders c)"
    "apply_to_state_machine sto first_id last_id c = Some (Inr (), c')"
    "{lg_index first_id .. lg_index last_id} \<subseteq> e_index ` set L" "lg_index last_id < 2 ^ 64 - 1"
  shows "\<exists>chans r answers s'. rc_client_responders c = chans @ rc_client_responders c'
    \<and> (\<forall>x \<in> set (rc_client_responders c'). lg_index last_id < fst x)
    \<and> EffStateMachine (Apply first_id last_id chans) \<in> set (rc_effects c')
    \<and> worker_apply (kv_worker_ops R S LS) first_id last_id chans s = Some (r, answers, s')
    \<and> (case r of
         Inl e \<Rightarrow> answers = []
       | Inr res \<Rightarrow> apr_last_applied res = last_id
           \<and> list_all2 (\<lambda>(index, tx) (tx', a). tx' = tx \<and> (\<exists>ent \<in> set L. e_index ent = index
               \<and> a = \<lparr>cwr_log_id = e_log_id ent, cwr_data = kv_response (e_payload ent),
                      cwr_membership = entry_get_membership ent\<rparr>)) chans answers)"
proof -
  obtain chans where ch: "rc_client_responders c = chans @ rc_client_responders c'"
    "EffStateMachine (Apply first_id last_id chans) \<in> set (rc_effects c')" "lg_index first_id \<le> lg_index last_id"
    "sorted_wrt (<) (map fst chans)" "\<forall>x \<in> set chans. lg_index first_id \<le> fst x \<and> fst x \<le> lg_index last_id"
    "\<forall>x \<in> set (rc_client_responders c'). lg_index last_id < fst x"
    by (rule apply_to_state_machine_drains[OF assms(4,3)])
  let ?es = "applied_range first_id last_id L" and ?resp = "\<lambda>ent. kv_response (e_payload ent)"
  have m: "worker_machine (kv_worker_ops R S LS) (kv_holds ab LS) kv_content kv_apply_step ?resp
      (kv_decodes S) (kv_loaded S) kv_budget"
    by (rule kv_worker.contract[OF assms(1)])
  have ok: "cmd_ok (kv_decodes S) L (Apply first_id last_id chans)" using ch(3) assms(5,6) by auto
  obtain r answers s' where w: "worker_apply (kv_worker_ops R S LS) first_id last_id chans s = Some (r, answers, s')"
    "case r of Inl e \<Rightarrow> answers = []
     | Inr res \<Rightarrow> res = \<lparr>apr_since = lg_index first_id, apr_end = lg_index last_id + 1, apr_last_applied = last_id\<rparr>
         \<and> answers = entry_answers ?resp ?es chans
         \<and> kv_holds ab LS L s' \<and> kv_budget s \<le> kv_budget s' \<and> kv_content s' = fold kv_apply_step ?es (kv_content s)"
    using worker_machine.worker_apply_spec[OF m assms(2) ok] by blast
  have "sorted_wrt (<) (map e_index ?es)"
    using worker_machine.log_sorted[OF m assms(2)]
    by (simp add: applied_range_def entries_between_def sorted_wrt_map sorted_wrt_filter)
  moreover have "fst ` set chans \<subseteq> e_index ` set ?es"
  proof
    fix i
    assume "i \<in> fst ` set chans"
    then have i: "lg_index first_id \<le> i" "i \<le> lg_index last_id" using ch(5) by auto
    then obtain ent where "ent \<in> set L" "i = e_index ent" using assms(5) by (meson atLeastAtMost_iff imageE subsetD)
    then show "i \<in> e_index ` set ?es" using i by (auto simp: applied_range_def entries_between_def)
  qed
  ultimately have "list_all2 (\<lambda>(index, tx) (tx', r). tx' = tx
      \<and> (\<exists>ent \<in> set ?es. e_index ent = index \<and> r = answer_of ?resp ent)) chans (entry_answers ?resp ?es chans)"
    using entry_answers_own ch(4) by blast
  then have "list_all2 (\<lambda>(index, tx) (tx', a). tx' = tx \<and> (\<exists>ent \<in> set L. e_index ent = index
               \<and> a = \<lparr>cwr_log_id = e_log_id ent, cwr_data = kv_response (e_payload ent),
                      cwr_membership = entry_get_membership ent\<rparr>)) chans (entry_answers ?resp ?es chans)"
    by (rule list_all2_mono) (auto simp: answer_of_def applied_range_def entries_between_def)
  then show ?thesis
    using w ch by (intro exI[of _ chans] exI[of _ r] exI[of _ answers] exI[of _ s']) (cases r; simp)
qed


definition example_store :: "mem_content \<times> mem_content" where
  "example_store = snd (the (ls_append mem_rocks log_codecs
     [example_entry 0 (Normal (Put ''a'' ''1'')), example_entry 1 (Normal (Del ''b''))] mem_example))"

definition example_state :: "state_machine \<times> (mem_content \<times> mem_content) kv_world" where
  "example_state = (example_sm, \<lparr>kw_kvs = [(''b'', ''0'')], kw_db = example_store\<rparr>)"

definition example_log :: "entry list" where
  "example_log = [example_entry 0 (Normal (Put ''a'' ''1'')), example_entry 1 (Normal (Del ''b''))]"

lemma example_state_holds: "kv_holds fst log_codecs example_log example_state"
proof -
  obtain d where d: "ls_append mem_rocks log_codecs example_log mem_example = Some (Inr (), d)"
    by (simp add: mem_rocks_def mem_example_def codec_eval example_entry_def entry_new_def example_log_def)
  have b: "\<forall>e \<in> set example_log. e_index e < 2 ^ 64" by (simp add: example_log_def example_entry_def entry_new_def)
  have st: "fst mem_example ''store'' \<noteq> None" by (simp add: mem_example_def)
  note p = mem_log.append_rep[OF d mem_example_holds b]
  have "fold put_entry example_log [] = example_log" by (simp add: example_log_def example_entry_def entry_new_def)
  moreover have "example_store = d" using d by (simp add: example_store_def example_log_def)
  ultimately show ?thesis
    using p st by (auto simp: kv_holds_def example_state_def bt_wf_def example_sm_def)
qed

text \<open>Both entries are applied while a snapshot is built, and the clients are answered.\<close>

definition example_events :: "(state_machine \<times> (mem_content \<times> mem_content) kv_world) worker_event list" where
  "example_events = [WSend BuildSnapshot, WTurn id,
     WSend (Apply (LogId (LeaderId 1 1) 0) (LogId (LeaderId 1 1) 1) [(1, 7)]), WTurn id, WBuilt 0]"

theorem worker_refines_commands_witness:
  "(\<exists>w' executed. worker_run (kv_worker_ops mem_rocks kv_codecs log_codecs) example_events (worker_spawn example_state) = Some w'
     \<and> [BuildSnapshot, Apply (LogId (LeaderId 1 1) 0) (LogId (LeaderId 1 1) 1) [(1, 7)]] = executed @ wk_queue w'
     \<and> filter is_write_reply (wk_replies w')
         = concat (map (cmd_answers (\<lambda>ent. kv_response (e_payload ent)) example_log) executed))
   \<or> (\<exists>evs1 evs2 w'. example_events = evs1 @ evs2
      \<and> worker_run (kv_worker_ops mem_rocks kv_codecs log_codecs) evs1 (worker_spawn example_state) = Some w'
      \<and> has_error w')"
proof -
  have ok: "\<forall>ev \<in> set example_events. event_ok (cmd_ok (kv_decodes kv_codecs) example_log)
      (keeps (kv_holds fst log_codecs example_log) kv_budget kv_content) ev"
    by (simp add: example_events_def keeps_def example_log_def example_entry_def entry_new_def)
  have acc: "accepted False example_events = [BuildSnapshot, Apply (LogId (LeaderId 1 1) 0) (LogId (LeaderId 1 1) 1) [(1, 7)]]"
    by (simp add: example_events_def)
  then have "builds (accepted False example_events) \<le> kv_budget example_state"
    by (simp add: builds_def kv_budget_def example_state_def example_sm_def)
  from worker_refines_commands[OF mem_worker.kv_worker_axioms example_state_holds ok this]
  show ?thesis unfolding acc worker_has_run_def by blast
qed

definition waiting_core :: raft_core where
  "waiting_core = (boot_core 1)\<lparr>rc_client_responders := [(0, 7), (5, 9)]\<rparr>"

theorem clients_get_own_answers_witness:
  "\<exists>c' s' r a. apply_to_state_machine good (LogId (LeaderId 0 0) 0) (LogId (LeaderId 0 0) 0) waiting_core = Some (Inr (), c')
     \<and> rc_client_responders c' = [(5, 9)]
     \<and> worker_apply (kv_worker_ops mem_rocks kv_codecs log_codecs) (LogId (LeaderId 0 0) 0) (LogId (LeaderId 0 0) 0)
         [(0, 7)] example_state = Some (r, a, s')
     \<and> (case r of Inl e \<Rightarrow> a = []
         | Inr res \<Rightarrow> a = [(7, \<lparr>cwr_log_id = LogId (LeaderId 1 1) 0, cwr_data = Response (Some ''1''), cwr_membership = None\<rparr>)])"
proof -
  let ?l = "LogId (LeaderId 0 0) 0"
  obtain c' where c': "apply_to_state_machine good ?l ?l waiting_core = Some (Inr (), c')"
    "rc_client_responders c' = [(5, 9)]"
    by (simp add: apply_to_state_machine_def waiting_core_def boot_core_def crq_drain_upto_def crq_first_index_def
        rs_get_log_id_def engine_new_def rs_new_def lil_ref_at_def rc_call_def good_def rc_emit_def first_opt_def ensure_def bsearch_def)
  have i: "e_index (example_entry n p) = n" for n p by (simp add: example_entry_def entry_new_def)
  have wf: "crq_wf (rc_client_responders waiting_core)" by (simp add: crq_wf_def waiting_core_def)
  have cov: "{lg_index ?l .. lg_index ?l} \<subseteq> e_index ` set example_log" by (simp add: example_log_def i)
  obtain chans r a s' where x: "rc_client_responders waiting_core = chans @ rc_client_responders c'"
    "worker_apply (kv_worker_ops mem_rocks kv_codecs log_codecs) ?l ?l chans example_state = Some (r, a, s')"
    "case r of Inl e \<Rightarrow> a = []
       | Inr res \<Rightarrow> apr_last_applied res = ?l
           \<and> list_all2 (\<lambda>(index, tx) (tx', a). tx' = tx \<and> (\<exists>ent \<in> set example_log. e_index ent = index
               \<and> a = \<lparr>cwr_log_id = e_log_id ent, cwr_data = kv_response (e_payload ent),
                      cwr_membership = entry_get_membership ent\<rparr>)) chans a"
    using clients_get_own_answers[OF mem_worker.kv_worker_axioms example_state_holds wf c'(1) cov] by auto
  then have ch: "chans = [(0, 7)]" using c'(2) by (simp add: waiting_core_def)
  show ?thesis
    using c' x unfolding ch
    by (cases r) (auto simp: list_all2_Cons1 example_log_def i example_entry_def entry_new_def entry_get_membership_def)
qed

end
