(* ===== verification/RaftInner.thy ===== *)
theory RaftInner
imports CoreProperties SmWorker StorageHelper
begin

text \<open>
  \<^verbatim>\<open>raft/raft_inner.rs\<close>, \<^verbatim>\<open>raft/core_state.rs\<close>, \<^verbatim>\<open>metrics/\<close> and \<^verbatim>\<open>raft/linearizable_read/\<close>: what the callers of a
  \<^verbatim>\<open>Raft\<close> share. A call that finds the task of Raft gone joins it, and several callers agree on one
  error; a caller waits for a condition of the published metrics; a linearizable read waits until this
  node has applied the log the leader confirmed.
\<close>

section \<open>The end of the task\<close>

datatype fatal = FatalStorage storage_error | FatalPanicked | FatalStopped

datatype task_end = TaskPanicked | TaskCancelled | TaskReturned fatal

text \<open>\<open>CoreJoining\<close>: some caller awaits the handle of the task, the others a watch channel.\<close>

datatype core_state = CoreRunning | CoreJoining | CoreDone fatal

definition core_is_running :: "core_state \<Rightarrow> bool" where
  "core_is_running s = (s = CoreRunning)"

datatype joiner = AwaitsTask | AwaitsWatch | Joined

record raft_inner =
  ri_core_state :: core_state
  ri_task :: "task_end option"
  ri_watch :: bool
  ri_watch_open :: bool
  ri_joiners :: "(nat \<times> joiner) list"

definition inner_new :: raft_inner where
  "inner_new = \<lparr>ri_core_state = CoreRunning, ri_task = None, ri_watch = False, ri_watch_open = False, ri_joiners = []\<rparr>"

definition join_result :: "task_end \<Rightarrow> fatal" where
  "join_result e = (case e of TaskPanicked \<Rightarrow> FatalPanicked | TaskCancelled \<Rightarrow> FatalStopped | TaskReturned f \<Rightarrow> f)"

text \<open>\<^verbatim>\<open>join_core_task\<close> up to its first await.\<close>

definition join_begin :: "nat \<Rightarrow> raft_inner \<Rightarrow> raft_inner" where
  "join_begin i s = (case ri_core_state s of
       CoreRunning \<Rightarrow> s\<lparr>ri_core_state := CoreJoining, ri_watch := False, ri_watch_open := True,
         ri_joiners := bt_insert i AwaitsTask (ri_joiners s)\<rparr>
     | CoreJoining \<Rightarrow> s\<lparr>ri_joiners := bt_insert i AwaitsWatch (ri_joiners s)\<rparr>
     | CoreDone _ \<Rightarrow> s\<lparr>ri_joiners := bt_insert i Joined (ri_joiners s)\<rparr>)"

text \<open>
  What an awaiting caller does when it is polled. The watch channel changes once, and its sender is
  dropped right after; a change that came before the receiver looked is still seen.
\<close>

definition join_poll :: "nat \<Rightarrow> raft_inner \<Rightarrow> raft_inner" where
  "join_poll i s = (case bt_get (ri_joiners s) i of
       Some AwaitsTask \<Rightarrow> (case ri_task s of
           None \<Rightarrow> s
         | Some e \<Rightarrow> s\<lparr>ri_core_state := CoreDone (join_result e), ri_watch := True, ri_watch_open := False,
             ri_joiners := bt_insert i Joined (ri_joiners s)\<rparr>)
     | Some AwaitsWatch \<Rightarrow>
         if ri_watch s \<or> \<not> ri_watch_open s then s\<lparr>ri_joiners := bt_insert i Joined (ri_joiners s)\<rparr> else s
     | _ \<Rightarrow> s)"

text \<open>The future of a caller is dropped before it is ready; the one that owns the sender closes the channel.\<close>

definition join_drop :: "nat \<Rightarrow> raft_inner \<Rightarrow> raft_inner" where
  "join_drop i s = (case bt_get (ri_joiners s) i of
       Some AwaitsTask \<Rightarrow> s\<lparr>ri_watch_open := False, ri_joiners := bt_remove i (ri_joiners s)\<rparr>
     | _ \<Rightarrow> s\<lparr>ri_joiners := bt_remove i (ri_joiners s)\<rparr>)"

text \<open>\<^verbatim>\<open>get_core_stop_error\<close> after it joined: the state must be \<^verbatim>\<open>Done\<close>.\<close>

definition core_stop_error :: "raft_inner \<Rightarrow> fatal panics" where
  "core_stop_error s = (case ri_core_state s of CoreDone f \<Rightarrow> Some f | _ \<Rightarrow> None)"

text \<open>A number names one call.\<close>

datatype join_event = JoinBegin nat | JoinPoll nat | JoinDrop nat | TaskEnds task_end

fun join_step :: "join_event \<Rightarrow> raft_inner \<Rightarrow> raft_inner" where
  "join_step (JoinBegin i) s = (if bt_contains (ri_joiners s) i then s else join_begin i s)"
| "join_step (JoinPoll i) s = join_poll i s"
| "join_step (JoinDrop i) s = join_drop i s"
| "join_step (TaskEnds e) s = (if ri_task s = None then s\<lparr>ri_task := Some e\<rparr> else s)"

definition join_run :: "join_event list \<Rightarrow> raft_inner \<Rightarrow> raft_inner" where
  "join_run evs s = fold join_step evs s"

text \<open>A call of the task: the message is delivered or not, and answered or its channel dropped.\<close>

definition call_core :: "bool \<Rightarrow> 'a option \<Rightarrow> raft_inner \<Rightarrow> (fatal + 'a) panics" where
  "call_core sent answer s = (case (sent, answer) of
       (True, Some x) \<Rightarrow> Some (Inr x)
     | _ \<Rightarrow> map_option Inl (core_stop_error s))"

definition into_raft_result :: "fatal + ('e + 'a) \<Rightarrow> (fatal + 'e) + 'a" where
  "into_raft_result r = (case r of
       Inr (Inr t) \<Rightarrow> Inr t
     | Inr (Inl e) \<Rightarrow> Inl (Inr e)
     | Inl f \<Rightarrow> Inl (Inl f))"

section \<open>Waiting for metrics\<close>

datatype wait_error = WaitTimeout | WaitShuttingDown

text \<open>
  What ends the sleep of a waiting caller: new metrics and the time then, the timer, or a closed
  channel. The watch channel keeps the latest metrics only, so those are the metrics that are seen.
\<close>

datatype 'm wait_event = MetricsChanged 'm nat | SleepEnded | MetricsClosed

text \<open>\<^verbatim>\<open>Wait::metrics\<close>: \<open>None\<close> while it still waits.\<close>

fun wait_metrics :: "('m \<Rightarrow> bool) \<Rightarrow> nat \<Rightarrow> nat \<Rightarrow> 'm \<Rightarrow> 'm wait_event list \<Rightarrow> (wait_error + 'm) option" where
  "wait_metrics f timeout_at now latest [] =
     (if f latest then Some (Inr latest) else if timeout_at \<le> now then Some (Inl WaitTimeout) else None)"
| "wait_metrics f timeout_at now latest (ev # evs) =
     (if f latest then Some (Inr latest) else if timeout_at \<le> now then Some (Inl WaitTimeout)
      else (case ev of
          MetricsChanged m t \<Rightarrow> wait_metrics f timeout_at t m evs
        | SleepEnded \<Rightarrow> Some (Inl WaitTimeout)
        | MetricsClosed \<Rightarrow> Some (Inl WaitShuttingDown)))"

datatype metric =
    MetricTerm nat
  | MetricVote raft_vote
  | MetricLastLogIndex "nat option"
  | MetricApplied "log_id option"
  | MetricAppliedIndex "nat option"
  | MetricSnapshot "log_id option"
  | MetricPurged "log_id option"

fun metric_eq :: "raft_metrics \<Rightarrow> metric \<Rightarrow> bool" where
  "metric_eq m (MetricTerm v) = (rm_current_term m = v)"
| "metric_eq m (MetricVote v) = (rm_vote m = v)"
| "metric_eq m (MetricLastLogIndex v) = (rm_last_log_index m = v)"
| "metric_eq m (MetricApplied v) = (rm_last_applied m = v)"
| "metric_eq m (MetricAppliedIndex v) = (opt_index (rm_last_applied m) = v)"
| "metric_eq m (MetricSnapshot v) = (rm_snapshot m = v)"
| "metric_eq m (MetricPurged v) = (rm_purged m = v)"

fun metric_ge :: "raft_metrics \<Rightarrow> metric \<Rightarrow> bool" where
  "metric_ge m (MetricTerm v) = (rm_current_term m \<ge> v)"
| "metric_ge m (MetricVote v) = (rm_vote m \<ge> v)"
| "metric_ge m (MetricLastLogIndex v) = (rm_last_log_index m \<ge> v)"
| "metric_ge m (MetricApplied v) = (rm_last_applied m \<ge> v)"
| "metric_ge m (MetricAppliedIndex v) = (opt_index (rm_last_applied m) \<ge> v)"
| "metric_ge m (MetricSnapshot v) = (rm_snapshot m \<ge> v)"
| "metric_ge m (MetricPurged v) = (rm_purged m \<ge> v)"

datatype wait_condition = WaitGE metric | WaitEQ metric

definition wait_until :: "wait_condition \<Rightarrow> nat \<Rightarrow> nat \<Rightarrow> raft_metrics \<Rightarrow> raft_metrics wait_event list
    \<Rightarrow> (wait_error + raft_metrics) option" where
  "wait_until cond = wait_metrics (case cond of WaitGE v \<Rightarrow> (\<lambda>m. metric_ge m v) | WaitEQ v \<Rightarrow> (\<lambda>m. metric_eq m v))"

definition wait_applied_index_at_least :: "nat option \<Rightarrow> nat \<Rightarrow> nat \<Rightarrow> raft_metrics \<Rightarrow> raft_metrics wait_event list
    \<Rightarrow> (wait_error + raft_metrics) option" where
  "wait_applied_index_at_least i = wait_until (WaitGE (MetricAppliedIndex i))"

definition wait_ge :: "metric \<Rightarrow> nat \<Rightarrow> nat \<Rightarrow> raft_metrics \<Rightarrow> raft_metrics wait_event list \<Rightarrow> (wait_error + raft_metrics) option" where
  "wait_ge v = wait_until (WaitGE v)"

definition wait_eq :: "metric \<Rightarrow> nat \<Rightarrow> nat \<Rightarrow> raft_metrics \<Rightarrow> raft_metrics wait_event list \<Rightarrow> (wait_error + raft_metrics) option" where
  "wait_eq v = wait_until (WaitEQ v)"

definition wait_vote :: "raft_vote \<Rightarrow> nat \<Rightarrow> nat \<Rightarrow> raft_metrics \<Rightarrow> raft_metrics wait_event list \<Rightarrow> (wait_error + raft_metrics) option" where
  "wait_vote want = wait_eq (MetricVote want)"

definition wait_current_leader :: "nat \<Rightarrow> nat \<Rightarrow> nat \<Rightarrow> raft_metrics \<Rightarrow> raft_metrics wait_event list \<Rightarrow> (wait_error + raft_metrics) option" where
  "wait_current_leader leader_id = wait_metrics (\<lambda>m. rm_current_leader m = Some leader_id)"

definition wait_log_index :: "nat option \<Rightarrow> nat \<Rightarrow> nat \<Rightarrow> raft_metrics \<Rightarrow> raft_metrics wait_event list \<Rightarrow> (wait_error + raft_metrics) option" where
  "wait_log_index i = wait_eq (MetricLastLogIndex i)"

definition wait_log_index_at_least :: "nat option \<Rightarrow> nat \<Rightarrow> nat \<Rightarrow> raft_metrics \<Rightarrow> raft_metrics wait_event list
    \<Rightarrow> (wait_error + raft_metrics) option" where
  "wait_log_index_at_least i = wait_ge (MetricLastLogIndex i)"

definition wait_applied_index :: "nat option \<Rightarrow> nat \<Rightarrow> nat \<Rightarrow> raft_metrics \<Rightarrow> raft_metrics wait_event list
    \<Rightarrow> (wait_error + raft_metrics) option" where
  "wait_applied_index i = wait_eq (MetricAppliedIndex i)"

definition wait_state :: "server_state \<Rightarrow> nat \<Rightarrow> nat \<Rightarrow> raft_metrics \<Rightarrow> raft_metrics wait_event list \<Rightarrow> (wait_error + raft_metrics) option" where
  "wait_state want = wait_metrics (\<lambda>m. rm_state m = want)"

definition wait_voter_ids :: "nat list \<Rightarrow> nat \<Rightarrow> nat \<Rightarrow> raft_metrics \<Rightarrow> raft_metrics wait_event list \<Rightarrow> (wait_error + raft_metrics) option" where
  "wait_voter_ids want = wait_metrics (\<lambda>m. bs_of want = mem_voter_ids (sm_membership (rm_membership_config m)))"

definition wait_snapshot :: "log_id \<Rightarrow> nat \<Rightarrow> nat \<Rightarrow> raft_metrics \<Rightarrow> raft_metrics wait_event list \<Rightarrow> (wait_error + raft_metrics) option" where
  "wait_snapshot l = wait_eq (MetricSnapshot (Some l))"

definition wait_purged :: "log_id option \<Rightarrow> nat \<Rightarrow> nat \<Rightarrow> raft_metrics \<Rightarrow> raft_metrics wait_event list \<Rightarrow> (wait_error + raft_metrics) option" where
  "wait_purged want = wait_eq (MetricPurged want)"

section \<open>Linearizable reads\<close>

text \<open>
  \<^verbatim>\<open>Linearizer::try_await_ready\<close>: \<open>reread\<close> are the metrics it reads after a timeout. The outer \<open>Inl\<close>
  is the fatal error, the inner one the state of a read that is not ready. \<open>stop\<close> is the state of
  the inner Raft when the channel was closed.
\<close>

definition try_await_ready ::
  "nat \<Rightarrow> nat \<Rightarrow> nat \<Rightarrow> raft_metrics \<Rightarrow> raft_metrics wait_event list \<Rightarrow> raft_metrics \<Rightarrow> raft_inner \<Rightarrow> linearize_state
     \<Rightarrow> (fatal + (linearize_state + linearize_state)) panics option" where
  "try_await_ready this_id timeout_at now latest evs reread stop st =
     (if is_ready_on_node st this_id then Some (Some (Inr (Inr st)))
      else map_option (\<lambda>res. case res of
          Inr m \<Rightarrow> Some (Inr (Inr (with_applied this_id (rm_last_applied m) st)))
        | Inl WaitTimeout \<Rightarrow>
            (let st' = with_applied this_id (rm_last_applied reread) st
             in Some (Inr (if is_ready_on_node st' this_id then Inr st' else Inl st')))
        | Inl WaitShuttingDown \<Rightarrow> map_option Inl (core_stop_error stop))
       (wait_applied_index_at_least (Some (lg_index (lz_read_log_id st))) timeout_at now latest evs))"

text \<open>The timeout of \<^verbatim>\<open>await_ready\<close>, in milliseconds.\<close>

definition hundred_years :: nat where
  "hundred_years = 86400 * 365 * 100 * 1000"

text \<open>\<^verbatim>\<open>ensure_linearizable\<close> after the leader confirmed the read: \<^verbatim>\<open>unwrap\<close> of the state that is not ready.\<close>

definition await_ready ::
  "nat \<Rightarrow> nat \<Rightarrow> raft_metrics \<Rightarrow> raft_metrics wait_event list \<Rightarrow> raft_metrics \<Rightarrow> raft_inner \<Rightarrow> linearize_state
     \<Rightarrow> (fatal + linearize_state) panics option" where
  "await_ready this_id now latest evs reread stop st =
     map_option (\<lambda>r. do { x \<leftarrow> r; (case x of
         Inl f \<Rightarrow> Some (Inl f)
       | Inr (Inr st') \<Rightarrow> Some (Inr st')
       | Inr (Inl st') \<Rightarrow> None) })
     (try_await_ready this_id (now + hundred_years) now latest evs reread stop st)"


section \<open>Callers that join agree\<close>

definition has_joiner :: "joiner \<Rightarrow> raft_inner \<Rightarrow> bool" where
  "has_joiner j s \<longleftrightarrow> (\<exists>i. bt_get (ri_joiners s) i = Some j)"

definition join_inv :: "raft_inner \<Rightarrow> bool" where
  "join_inv s \<longleftrightarrow> bt_wf (ri_joiners s) \<and> (case ri_core_state s of
       CoreRunning \<Rightarrow> ri_joiners s = []
     | CoreJoining \<Rightarrow> \<not> ri_watch s \<and> ri_watch_open s \<and> has_joiner AwaitsTask s \<and> \<not> has_joiner Joined s
     | CoreDone f \<Rightarrow> ri_watch s \<and> \<not> has_joiner AwaitsTask s \<and> (\<exists>e. ri_task s = Some e \<and> f = join_result e))"

definition one_owner :: "raft_inner \<Rightarrow> bool" where
  "one_owner s \<longleftrightarrow> (\<forall>i j. bt_get (ri_joiners s) i = Some AwaitsTask \<longrightarrow> bt_get (ri_joiners s) j = Some AwaitsTask \<longrightarrow> i = j)"

lemma join_step_inv:
  assumes "join_inv s" "one_owner s" "\<forall>i. ev \<noteq> JoinDrop i"
  shows "join_inv (join_step ev s) \<and> one_owner (join_step ev s)"
proof (cases ev)
  case (JoinBegin i)
  show ?thesis
  proof (cases "bt_contains (ri_joiners s) i")
    case False
    then have g: "bt_get (ri_joiners s) i = None" by (simp add: in_bt_keys_iff)
    have wf: "bt_wf (ri_joiners s)" using assms(1) by (simp add: join_inv_def)
    show ?thesis
    proof (cases "ri_core_state s")
      case CoreRunning
      then show ?thesis using assms(1) False
        by (simp add: JoinBegin join_begin_def join_inv_def one_owner_def has_joiner_def bt_wf_def)
    next
      case CoreJoining
      then obtain o1 where "bt_get (ri_joiners s) o1 = Some AwaitsTask"
        using assms(1) by (auto simp: join_inv_def has_joiner_def)
      moreover from this g have "o1 \<noteq> i" by auto
      ultimately show ?thesis using assms CoreJoining False wf
        by (auto simp: JoinBegin join_begin_def join_inv_def one_owner_def has_joiner_def bt_insert_wf bt_get_insert)
    next
      case (CoreDone f)
      then show ?thesis using assms False wf
        by (auto simp: JoinBegin join_begin_def join_inv_def one_owner_def has_joiner_def bt_insert_wf bt_get_insert)
    qed
  qed (use assms JoinBegin in simp)
next
  case (JoinPoll i)
  have wf: "bt_wf (ri_joiners s)" using assms(1) by (simp add: join_inv_def)
  show ?thesis
  proof (cases "bt_get (ri_joiners s) i")
    case None
    then show ?thesis using assms by (simp add: JoinPoll join_poll_def)
  next
    case (Some j)
    then show ?thesis
      using assms(1,2) wf
      by (cases j; cases "ri_core_state s"; cases "ri_task s")
        (auto simp: JoinPoll join_poll_def join_inv_def one_owner_def has_joiner_def bt_insert_wf bt_get_insert
          split: if_splits)
  qed
next
  case (JoinDrop i)
  then show ?thesis using assms(3) by simp
next
  case (TaskEnds e)
  then show ?thesis
    using assms by (cases "ri_core_state s") (auto simp: join_inv_def one_owner_def has_joiner_def)
qed

lemma join_run_inv:
  assumes "join_inv s" "one_owner s" "\<forall>i. JoinDrop i \<notin> set evs"
  shows "join_inv (join_run evs s) \<and> one_owner (join_run evs s)"
  using assms
proof (induction evs arbitrary: s)
  case (Cons ev evs)
  then show ?case using join_step_inv[of s ev] by (auto simp: join_run_def)
qed (simp add: join_run_def)

lemma inner_new_inv: "join_inv inner_new \<and> one_owner inner_new"
  by (simp add: inner_new_def join_inv_def one_owner_def bt_wf_def)


text \<open>Once the task has ended every caller returns after two rounds of polls.\<close>

definition joiner_ids :: "raft_inner \<Rightarrow> nat set" where
  "joiner_ids s = {i. bt_get (ri_joiners s) i \<noteq> None}"

lemma poll_done:
  assumes "join_inv s" "ri_core_state s = CoreDone f"
  shows "join_inv (join_poll i s) \<and> ri_core_state (join_poll i s) = CoreDone f
    \<and> joiner_ids (join_poll i s) = joiner_ids s
    \<and> bt_get (ri_joiners (join_poll i s)) j = (if i = j \<and> i \<in> joiner_ids s then Some Joined else bt_get (ri_joiners s) j)"
proof (cases "bt_get (ri_joiners s) i")
  case None
  then show ?thesis using assms by (simp add: join_poll_def joiner_ids_def)
next
  case (Some j)
  then show ?thesis using assms
    by (cases j) (auto simp: join_poll_def join_inv_def joiner_ids_def has_joiner_def bt_insert_wf bt_get_insert)
qed

lemma polls_done:
  assumes "join_inv s" "ri_core_state s = CoreDone f"
  shows "ri_core_state (fold join_poll is s) = CoreDone f \<and> joiner_ids (fold join_poll is s) = joiner_ids s
    \<and> (\<forall>i \<in> joiner_ids s. i \<in> set is \<or> bt_get (ri_joiners s) i = Some Joined
         \<longrightarrow> bt_get (ri_joiners (fold join_poll is s)) i = Some Joined)"
  using assms
proof (induction "is" arbitrary: s)
  case (Cons i "is")
  note p = poll_done[OF Cons.prems]
  show ?case using Cons.IH[of "join_poll i s"] p by auto
qed simp

lemma poll_joining:
  assumes "join_inv s" "one_owner s" "ri_core_state s = CoreJoining" "ri_task s = Some e"
  shows "join_inv (join_poll i s) \<and> one_owner (join_poll i s) \<and> ri_task (join_poll i s) = Some e
    \<and> joiner_ids (join_poll i s) = joiner_ids s
    \<and> (if bt_get (ri_joiners s) i = Some AwaitsTask then ri_core_state (join_poll i s) = CoreDone (join_result e)
       else join_poll i s = s)"
proof -
  have "join_inv (join_poll i s) \<and> one_owner (join_poll i s)"
    using join_step_inv[OF assms(1,2), of "JoinPoll i"] by simp
  then show ?thesis
    using assms
    by (cases "bt_get (ri_joiners s) i"; cases "the (bt_get (ri_joiners s) i)")
      (auto simp: join_poll_def join_inv_def joiner_ids_def has_joiner_def bt_get_insert)
qed

lemma polls_end:
  assumes "join_inv s" "one_owner s" "ri_core_state s \<noteq> CoreRunning" "ri_task s = Some e" "joiner_ids s \<subseteq> set is"
  shows "join_inv (fold join_poll is s) \<and> ri_core_state (fold join_poll is s) = CoreDone (join_result e)
    \<and> joiner_ids (fold join_poll is s) = joiner_ids s"
proof -
  have at_end: "join_inv (fold join_poll is s) \<and> ri_core_state (fold join_poll is s) = CoreDone f
      \<and> joiner_ids (fold join_poll is s) = joiner_ids s"
    if "join_inv s" "ri_core_state s = CoreDone f" for "is" s f
    using that
  proof (induction "is" arbitrary: s)
    case (Cons i "is")
    then show ?case using poll_done[OF Cons.prems] by simp
  qed simp
  have joining: "join_inv (fold join_poll is s) \<and> ri_core_state (fold join_poll is s) = CoreDone (join_result e)
      \<and> joiner_ids (fold join_poll is s) = joiner_ids s"
    if "join_inv s" "one_owner s" "ri_core_state s = CoreJoining" "ri_task s = Some e"
      "\<exists>i \<in> set is. bt_get (ri_joiners s) i = Some AwaitsTask" for "is" s
    using that
  proof (induction "is" arbitrary: s)
    case (Cons i "is")
    note p = poll_joining[OF Cons.prems(1-4), of i]
    show ?case
    proof (cases "bt_get (ri_joiners s) i = Some AwaitsTask")
      case True
      then show ?thesis using at_end[of "join_poll i s" "join_result e" "is"] p by simp
    next
      case False
      then show ?thesis using Cons p by auto
    qed
  qed simp
  show ?thesis
  proof (cases "ri_core_state s")
    case CoreRunning
    then show ?thesis using assms(3) by simp
  next
    case CoreJoining
    then obtain i where "bt_get (ri_joiners s) i = Some AwaitsTask"
      using assms(1) by (auto simp: join_inv_def has_joiner_def)
    then show ?thesis using joining[OF assms(1,2) CoreJoining assms(4), of "is"] assms(5) by (auto simp: joiner_ids_def)
  next
    case (CoreDone f)
    then show ?thesis using at_end[OF assms(1) CoreDone, of "is"] assms(1,4) by (auto simp: join_inv_def)
  qed
qed

lemma join_run_polls: "join_run (map JoinPoll is) s = fold join_poll is s"
  by (induction "is" arbitrary: s) (simp_all add: join_run_def)

text \<open>After the owner of the handle is gone the state is never done: the next caller waits for nothing and panics.\<close>

definition orphaned :: "raft_inner \<Rightarrow> bool" where
  "orphaned s \<longleftrightarrow> ri_core_state s = CoreJoining \<and> \<not> ri_watch_open s \<and> bt_wf (ri_joiners s) \<and> \<not> has_joiner AwaitsTask s"

lemma orphaned_step: "orphaned s \<Longrightarrow> orphaned (join_step ev s)"
proof (cases ev)
  case (JoinPoll i)
  assume o1: "orphaned s"
  show ?thesis
  proof (cases "bt_get (ri_joiners s) i")
    case (Some j)
    then show ?thesis using o1
      by (cases j) (auto simp: JoinPoll join_poll_def orphaned_def has_joiner_def bt_insert_wf bt_get_insert)
  qed (use o1 JoinPoll in \<open>simp add: join_poll_def\<close>)
next
  case (JoinDrop i)
  assume o1: "orphaned s"
  then show ?thesis
    by (auto simp: JoinDrop join_drop_def orphaned_def has_joiner_def bt_remove_wf bt_get_remove
        split: option.split joiner.split)
qed (auto simp: join_begin_def orphaned_def has_joiner_def bt_insert_wf bt_get_insert split: core_state.splits)

lemma orphaned_run: "orphaned s \<Longrightarrow> orphaned (join_run evs s)"
  by (induction evs arbitrary: s) (simp_all add: join_run_def orphaned_step)


section \<open>What a wait returns\<close>

lemma wait_metrics_ok: "wait_metrics f at now latest evs = Some (Inr m) \<Longrightarrow> f m"
  by (induction f at now latest evs rule: wait_metrics.induct)
    (auto split: if_splits wait_event.splits)

lemma wait_metrics_seen:
  "wait_metrics f at now latest evs = Some (Inr m) \<Longrightarrow> m = latest \<or> (\<exists>t. MetricsChanged m t \<in> set evs)"
  by (induction f at now latest evs rule: wait_metrics.induct)
    (auto split: if_splits wait_event.splits)

lemma wait_ge_ok:
  assumes "wait_ge v at now latest evs = Some (Inr m)"
  shows "metric_ge m v \<and> (m = latest \<or> (\<exists>t. MetricsChanged m t \<in> set evs))"
proof -
  have "wait_metrics (\<lambda>m. metric_ge m v) at now latest evs = Some (Inr m)"
    using assms by (simp add: wait_ge_def wait_until_def)
  from wait_metrics_ok[OF this] wait_metrics_seen[OF this] show ?thesis by simp
qed

lemma wait_eq_ok:
  assumes "wait_eq v at now latest evs = Some (Inr m)"
  shows "metric_eq m v \<and> (m = latest \<or> (\<exists>t. MetricsChanged m t \<in> set evs))"
proof -
  have "wait_metrics (\<lambda>m. metric_eq m v) at now latest evs = Some (Inr m)"
    using assms by (simp add: wait_eq_def wait_until_def)
  from wait_metrics_ok[OF this] wait_metrics_seen[OF this] show ?thesis by simp
qed

lemma await_ready_spec:
  assumes "await_ready this_id now latest evs reread stop st = Some (Some (Inr st'))"
    "on_one_log (lz_applied st) (Some (lz_read_log_id st))" "on_one_log (lz_applied st') (Some (lz_read_log_id st))"
  shows "lz_node_id st' = this_id \<and> lz_read_log_id st' = lz_read_log_id st
    \<and> Some (lz_read_log_id st) \<le> lz_applied st' \<and> Some (lg_index (lz_read_log_id st)) \<le> opt_index (lz_applied st')"
proof -
  obtain r where r: "try_await_ready this_id (now + hundred_years) now latest evs reread stop st = Some (Some (Inr (Inr st')))"
    using assms(1) by (auto simp: await_ready_def bind_eq_Some_conv split: sum.splits)
  show ?thesis
  proof (cases "is_ready_on_node st this_id")
    case True
    then show ?thesis using r assms(2) by (auto simp: try_await_ready_def is_ready_on_node_def on_one_log_def)
  next
    case False
    then obtain w where w: "wait_applied_index_at_least (Some (lg_index (lz_read_log_id st))) (now + hundred_years) now latest evs = Some w"
      "(case w of
          Inr m \<Rightarrow> Some (Inr (Inr (with_applied this_id (rm_last_applied m) st)))
        | Inl WaitTimeout \<Rightarrow>
            (let st' = with_applied this_id (rm_last_applied reread) st
             in Some (Inr (if is_ready_on_node st' this_id then Inr st' else Inl st')))
        | Inl WaitShuttingDown \<Rightarrow> map_option Inl (core_stop_error stop)) = Some (Inr (Inr st'))"
      using r by (auto simp: try_await_ready_def)
    show ?thesis
    proof (cases w)
      case (Inr m)
      then have st': "st' = with_applied this_id (rm_last_applied m) st" using w(2) by simp
      have "metric_ge m (MetricAppliedIndex (Some (lg_index (lz_read_log_id st))))"
        using w(1) Inr wait_metrics_ok by (fastforce simp: wait_applied_index_at_least_def wait_until_def)
      then show ?thesis using assms(3) by (auto simp: st' with_applied_def on_one_log_def)
    next
      case (Inl e)
      then show ?thesis using w(2) assms(3)
        by (cases e) (auto simp: Let_def is_ready_on_node_def with_applied_def on_one_log_def split: if_splits)
    qed
  qed
qed

text \<open>The state that the leader answers, or hands to the task that asks the voters.\<close>

definition read_states :: "raft_core \<Rightarrow> raft_core \<Rightarrow> linearize_state set" where
  "read_states c c' = {st. \<exists>tx v em f. f \<in> set (drop (length (rc_effects c)) (rc_effects c'))
     \<and> (f = EffRead tx (Inr st) \<or> f = EffReadTask tx v st em)}"

lemma read_rpcs_effects:
  "read_rpcs em self rpc p items = Some fs \<Longrightarrow> \<forall>f \<in> set fs. \<exists>t n r. f = EffReadRpc t n r"
  by (induction em self rpc p items arbitrary: fs rule: read_rpcs.induct)
    (auto simp: bind_eq_Some_conv split: if_splits)

lemma read_state_covers_committed:
  assumes "handle_ensure_linearizable_read now policy tx c = Some c'" "st \<in> read_states c c'"
  shows "rs_committed (rc_state c) \<le> Some (lz_read_log_id st)"
proof -
  obtain lh where lh: "en_leader_handler (rc_engine c) = Some lh"
    using assms(1) by (auto simp: handle_ensure_linearizable_read_def bind_eq_Some_conv)
  show ?thesis
  proof (cases lh)
    case (Inl f)
    then show ?thesis using assms lh
      by (auto simp: handle_ensure_linearizable_read_def read_states_def rc_emit_def)
  next
    case (Inr l)
    obtain rid where rid: "get_read_log_id (rc_engine c) = Some rid"
      using assms(1) lh Inr by (auto simp: handle_ensure_linearizable_read_def bind_eq_Some_conv)
    let ?resp = "\<lparr>lz_node_id = rc_id c, lz_read_log_id = rid, lz_applied = rs_io_applied (rc_state c)\<rparr>"
    have st: "st = ?resp"
    proof (cases "policy = LeaseRead")
      case True
      then obtain acked c1 where a: "rc_last_quorum_acked_time now c = Some (acked, c1)"
        using assms(1) lh Inr rid by (auto simp: handle_ensure_linearizable_read_def bind_eq_Some_conv Let_def)
      moreover from a have "rc_effects c1 = rc_effects c"
        by (auto simp: rc_last_quorum_acked_time_def bind_eq_Some_conv split: option.splits)
      ultimately show ?thesis using assms lh Inr rid True
        by (auto simp: handle_ensure_linearizable_read_def read_states_def rc_emit_def Let_def split: option.splits if_splits)
    next
      case False
      then show ?thesis
        using assms lh Inr rid
        by (fastforce simp: handle_ensure_linearizable_read_def read_states_def rc_emit_def Let_def bind_eq_Some_conv
            split: if_splits dest: read_rpcs_effects)
    qed
    show ?thesis using rid
      by (cases "rs_committed (rc_state c)") (auto simp: st get_read_log_id_def bind_eq_Some_conv)
  qed
qed


section \<open>The log a worker has applied\<close>

text \<open>The commands apply the log from index \<open>n\<close> on without a gap; the result is the next index.\<close>

fun tiled :: "nat \<Rightarrow> sm_command list \<Rightarrow> nat option" where
  "tiled n [] = Some n"
| "tiled n (Apply first_id last_id chans # cmds) =
     (if lg_index first_id = n then tiled (lg_index last_id + 1) cmds else None)"
| "tiled n (InstallFullSnapshot io_id snapshot # cmds) = None"
| "tiled n (cmd # cmds) = tiled n cmds"

lemma tiled_prefix: "tiled n (xs @ ys) = Some k \<Longrightarrow> \<exists>j. tiled n xs = Some j"
  by (induction n xs rule: tiled.induct) (auto split: if_splits)

lemma tiled_ge: "tiled n cmds = Some k \<Longrightarrow> \<forall>cmd \<in> set cmds. cmd_ok decodes L cmd \<Longrightarrow> n \<le> k"
  by (induction n cmds rule: tiled.induct) (fastforce split: if_splits)+

lemma tiled_effect:
  assumes "tiled n cmds = Some k" "\<forall>cmd \<in> set cmds. cmd_ok decodes L cmd" "sorted_wrt (<) (map e_index L)"
  shows "fold (cmd_effect step from_snap L) cmds m = fold step (entries_between n k L) m"
  using assms
proof (induction n cmds arbitrary: m rule: tiled.induct)
  case (1 n)
  have "entries_between k k L = []" by (simp add: entries_between_def filter_empty_conv)
  with 1 show ?case by simp
next
  case (2 n first_id last_id chans cmds)
  then have n: "lg_index first_id = n" "tiled (lg_index last_id + 1) cmds = Some k" by (auto split: if_splits)
  have "n \<le> lg_index last_id + 1" using 2(3) n by auto
  moreover have "lg_index last_id + 1 \<le> k" using tiled_ge[OF n(2)] 2(3) by auto
  ultimately have "entries_between n k L = entries_between n (lg_index last_id + 1) L @ entries_between (lg_index last_id + 1) k L"
    using entries_between_append[OF 2(4)] by simp
  then show ?case using 2 n by (simp add: applied_range_def)
qed auto

lemma tiled_applied:
  "tiled n cmds = Some k \<Longrightarrow> \<forall>cmd \<in> set cmds. cmd_ok decodes L cmd \<Longrightarrow> Apply f l ch \<in> set cmds \<Longrightarrow> lg_index l < k"
proof (induction n cmds rule: tiled.induct)
  case (2 n first_id last_id chans cmds)
  then have "tiled (lg_index last_id + 1) cmds = Some k" by (auto split: if_splits)
  with 2 tiled_ge[OF this] show ?case by (auto split: if_splits simp: Suc_le_eq)
qed auto

lemma accepted_ok:
  "\<forall>ev \<in> set evs. event_ok ok kept ev \<Longrightarrow> \<forall>cmd \<in> set (accepted closed evs). ok cmd"
  by (induction closed evs rule: accepted.induct) auto

lemma progress_of_command:
  "NStateMachine (Inr (SmApply res)) \<in> set (concat (map cmd_progress cmds)) \<Longrightarrow>
     \<exists>f ch. Apply f (apr_last_applied res) ch \<in> set cmds"
proof -
  assume "NStateMachine (Inr (SmApply res)) \<in> set (concat (map cmd_progress cmds))"
  then obtain cmd where c: "cmd \<in> set cmds" "NStateMachine (Inr (SmApply res)) \<in> set (cmd_progress cmd)" by auto
  show ?thesis
  proof (cases cmd)
    case (Apply f l ch)
    with c(2) have "apr_last_applied res = l" by simp
    with c(1) Apply show ?thesis by blast
  qed (use c(2) in simp_all)
qed

text \<open>Errors stay in the notifications.\<close>

lemma command_notes:
  assumes "worker_command W user cmd w = Some (r, w')"
  shows "\<exists>ns. wk_notes w' = wk_notes w @ ns"
proof (cases cmd)
  case BuildSnapshot
  then show ?thesis using assms
    by (auto simp: worker_build_snapshot_def bind_eq_Some_conv Let_def wk_notify_def split: option.splits)
next
  case (GetSnapshot tx)
  then obtain y where "(case sto_err (SubjSnapshot None) VRead y of
      Inl e \<Rightarrow> (Inl e, w) | Inr snapshot \<Rightarrow> (Inr (), wk_reply [ReplySnapshot tx snapshot] w)) = (r, w')"
    using assms by (auto simp: worker_get_snapshot_def bind_eq_Some_conv)
  then show ?thesis by (cases "sto_err (SubjSnapshot None) VRead y") (auto simp: wk_reply_def)
next
  case (BeginReceivingSnapshot tx)
  then obtain y where "(case sto_err (SubjSnapshot None) VWrite y of
      Inl e \<Rightarrow> (Inl e, w) | Inr data \<Rightarrow> (Inr (), wk_reply [ReplySnapshotData tx data] w)) = (r, w')"
    using assms by (auto simp: bind_eq_Some_conv)
  then show ?thesis by (cases "sto_err (SubjSnapshot None) VWrite y") (auto simp: wk_reply_def)
next
  case (InstallFullSnapshot io_id snapshot)
  then obtain y :: "unit io" and s1 where "(case sto_err (SubjSnapshot (Some (snap_signature (snap_meta snapshot)))) VWrite y of
      Inl e \<Rightarrow> (Inl e, w\<lparr>wk_machine := s1\<rparr>)
    | Inr _ \<Rightarrow> (Inr (), wk_notify (Inr (SmInstallSnapshot io_id (Some (snap_meta snapshot)))) (w\<lparr>wk_machine := s1\<rparr>))) = (r, w')"
    using assms by (auto simp: bind_eq_Some_conv Let_def)
  then show ?thesis
    by (cases "sto_err (SubjSnapshot (Some (snap_signature (snap_meta snapshot)))) VWrite y") (auto simp: wk_notify_def)
next
  case (Apply f l ch)
  then obtain y a s1 where "(let w1 = wk_reply (map (\<lambda>(tx, resp). ReplyWrite tx resp) a) (w\<lparr>wk_machine := s1\<rparr>)
      in case y of Inl e \<Rightarrow> (Inl e, w1) | Inr res \<Rightarrow> (Inr (), wk_notify (Inr (SmApply res)) w1)) = (r, w')"
    using assms by (auto simp: bind_eq_Some_conv Let_def)
  then show ?thesis by (cases y) (auto simp: wk_notify_def wk_reply_def)
next
  case Func
  then show ?thesis using assms by auto
qed

lemma step_notes: "worker_step W ev w = Some w' \<Longrightarrow> \<exists>ns. wk_notes w' = wk_notes w @ ns"
proof (cases ev)
  case (WTurn user)
  assume s: "worker_step W ev w = Some w'"
  show ?thesis
  proof (cases "wk_status w = WorkerRunning \<and> wk_queue w \<noteq> []")
    case True
    then obtain cmd rest where q: "wk_queue w = cmd # rest" by (cases "wk_queue w") auto
    with s True WTurn obtain r w1 where c: "worker_command W user cmd (w\<lparr>wk_queue := rest\<rparr>) = Some (r, w1)"
      "w' = (case r of Inl e \<Rightarrow> (wk_notify (Inl e) w1)\<lparr>wk_status := WorkerFailed\<rparr> | Inr _ \<Rightarrow> w1)"
      by (auto simp: worker_turn_def bind_eq_Some_conv)
    from command_notes[OF c(1)] show ?thesis by (auto simp: c(2) wk_notify_def split: sum.split)
  qed (use s WTurn in \<open>auto simp: worker_turn_def split: if_splits list.splits\<close>)
next
  case (WBuilt i)
  assume "worker_step W ev w = Some w'"
  then show ?thesis using WBuilt
    by (auto simp: builder_task_def bind_eq_Some_conv Let_def wk_notify_def split: if_splits)
qed (auto simp: handle_send_def split: if_splits)

lemma run_keeps_error: "worker_run W evs w = Some w' \<Longrightarrow> has_error w \<Longrightarrow> has_error w'"
proof (induction evs arbitrary: w)
  case (Cons ev evs)
  then obtain w1 where w1: "worker_step W ev w = Some w1" "worker_run W evs w1 = Some w'" by (auto simp: bind_eq_Some_conv)
  have "has_error w1" using step_notes[OF w1(1)] Cons.prems(2) by (auto simp: has_error_def)
  with Cons.IH[OF w1(2)] show ?case .
qed simp

lemma run_split: "worker_run W (xs @ ys) w = Option.bind (worker_run W xs w) (worker_run W ys)"
  by (induction xs arbitrary: w) (auto split: bind_splits)


text \<open>Without an error, the content is the log up to where the commands reach, and what was reported is below.\<close>

lemma worker_read:
  assumes k: "kv_worker R ab dur S LS" "kv_holds ab LS L s"
    and evs: "\<forall>ev \<in> set evs. event_ok (cmd_ok (kv_decodes S) L) (keeps (kv_holds ab LS L) kv_budget kv_content) ev"
      "builds (accepted False evs) \<le> kv_budget s" "tiled n (accepted False evs) = Some m"
    and r: "worker_run (kv_worker_ops R S LS) evs (worker_spawn s) = Some w" "\<not> has_error w"
      "NStateMachine (Inr (SmApply res)) \<in> set (wk_notes w)"
  shows "\<exists>k. lg_index (apr_last_applied res) < k \<and> n \<le> k
    \<and> bt_get (kw_kvs (snd (wk_machine w))) = kv_after (entries_between n k L) (bt_get (kw_kvs (snd s)))"
proof -
  have no_error: "\<not> (\<exists>evs1 evs2 w'. evs = evs1 @ evs2
      \<and> worker_run (kv_worker_ops R S LS) evs1 (worker_spawn s) = Some w' \<and> has_error w')"
    using r(1,2) run_keeps_error by (fastforce simp: run_split)
  then obtain executed where ex: "accepted False evs = executed @ wk_queue w"
    "worker_has_run kv_apply_step (kv_loaded S) (\<lambda>ent. kv_response (e_payload ent)) kv_content L (kv_content s) executed w"
    using worker_machine.spawned_run[OF kv_worker.contract[OF k(1)] k(2) evs(1,2)] r(1) by auto
  obtain k where til: "tiled n executed = Some k" using evs(3) tiled_prefix unfolding ex(1) by blast
  have ok: "\<forall>cmd \<in> set executed. cmd_ok (kv_decodes S) L cmd"
    using accepted_ok[OF evs(1), of False] ex(1) by auto
  have sorted: "sorted_wrt (<) (map e_index L)"
    using worker_machine.log_sorted[OF kv_worker.contract[OF k(1)] k(2)] .
  have "kv_content (wk_machine w) = fold kv_apply_step (entries_between n k L) (kv_content s)"
    using ex(2) tiled_effect[OF til ok sorted] by (simp add: worker_has_run_def)
  then have "bt_get (kw_kvs (snd (wk_machine w))) = kv_after (entries_between n k L) (bt_get (kw_kvs (snd s)))"
    by (cases "sm_applied_state (fst s)") (simp add: kv_content_def fold_kv_apply_step)
  moreover have "NStateMachine (Inr (SmApply res)) \<in> set (concat (map cmd_progress executed))"
    using ex(2) r(3) unfolding worker_has_run_def 
    by (metis (no_types, lifting) mem_Collect_eq reports_progress.simps(1) set_filter)
  then obtain f ch where "Apply f (apr_last_applied res) ch \<in> set executed" using progress_of_command by blast
  then have "lg_index (apr_last_applied res) < k" using tiled_applied[OF til ok] by blast
  ultimately show ?thesis using tiled_ge[OF til ok] by blast
qed

section \<open>Properties\<close>

lemma join_done_stays: "join_inv s \<Longrightarrow> ri_core_state s = CoreDone f \<Longrightarrow> ri_core_state (join_step ev s) = CoreDone f"
  by (cases ev) (auto simp: join_begin_def join_poll_def join_drop_def join_inv_def has_joiner_def
      split: option.splits joiner.splits)

lemma join_run_done:
  "join_inv s \<Longrightarrow> one_owner s \<Longrightarrow> ri_core_state s = CoreDone f \<Longrightarrow> \<forall>i. JoinDrop i \<notin> set evs
    \<Longrightarrow> ri_core_state (join_run evs s) = CoreDone f"
proof (induction evs arbitrary: s)
  case (Cons ev evs)
  then have "join_inv (join_step ev s) \<and> one_owner (join_step ev s)" by (intro join_step_inv) auto
  with Cons join_done_stays[OF Cons.prems(1,3), of ev] show ?case by (auto simp: join_run_def)
qed (simp add: join_run_def)

lemma join_run_append: "join_run (xs @ ys) s = join_run ys (join_run xs s)"
  by (simp add: join_run_def)

text \<open>
  C36. Callers that find the task of Raft gone agree on why, in any interleaving of calls, polls and the end
  of the task, as long as no caller is cancelled while it joins: a caller that has joined reads the
  error the task ended with and never another later; and once the task has ended, two rounds of
  polls let every caller that joins return with that error.
\<close>

theorem callers_agree_on_stop:
  assumes "\<forall>i. JoinDrop i \<notin> set evs" "s = join_run evs inner_new"
  shows "(\<forall>i later. bt_get (ri_joiners s) i = Some Joined \<longrightarrow> (\<forall>j. JoinDrop j \<notin> set later) \<longrightarrow>
      (\<exists>e. ri_task s = Some e \<and> core_stop_error s = Some (join_result e)
        \<and> core_stop_error (join_run later s) = Some (join_result e)))
    \<and> (\<forall>e is. ri_task s = Some e \<longrightarrow> ri_core_state s \<noteq> CoreRunning \<longrightarrow> joiner_ids s \<subseteq> set is \<longrightarrow>
      core_stop_error (join_run (map JoinPoll (is @ is)) s) = Some (join_result e)
        \<and> (\<forall>i \<in> joiner_ids s. bt_get (ri_joiners (join_run (map JoinPoll (is @ is)) s)) i = Some Joined))"
proof -
  have inv: "join_inv s" "one_owner s" using join_run_inv[OF _ _ assms(1), of inner_new] inner_new_inv assms(2) by auto
  have "\<exists>e. ri_task s = Some e \<and> core_stop_error s = Some (join_result e)
        \<and> core_stop_error (join_run later s) = Some (join_result e)"
    if "bt_get (ri_joiners s) i = Some Joined" "\<forall>j. JoinDrop j \<notin> set later" for i later
  proof (cases "ri_core_state s")
    case (CoreDone f)
    then show ?thesis using inv join_run_done[OF inv CoreDone that(2)]
      by (auto simp: join_inv_def core_stop_error_def)
  qed (use inv that(1) in \<open>auto simp: join_inv_def has_joiner_def\<close>)
  moreover have "core_stop_error (join_run (map JoinPoll (is @ is)) s) = Some (join_result e)
        \<and> (\<forall>i \<in> joiner_ids s. bt_get (ri_joiners (join_run (map JoinPoll (is @ is)) s)) i = Some Joined)"
    if "ri_task s = Some e" "ri_core_state s \<noteq> CoreRunning" "joiner_ids s \<subseteq> set is" for e "is"
  proof -
    let ?s1 = "fold join_poll is s"
    have a: "join_inv ?s1" "ri_core_state ?s1 = CoreDone (join_result e)" "joiner_ids ?s1 = joiner_ids s"
      using polls_end[OF inv that(2,1,3)] by auto
    have "join_run (map JoinPoll (is @ is)) s = fold join_poll is ?s1" unfolding join_run_polls by simp
    then show ?thesis using polls_done[OF a(1,2), of "is"] a(3) that(3) by (auto simp: core_stop_error_def)
  qed
  ultimately show ?thesis by blast
qed

text \<open>
  C39. The caller that owns the handle of the task must not be cancelled while it joins: from then on, whatever
  happens, the state is never done, so that every caller that joins later returns from the join at
  once and finds no error to report; its \<^verbatim>\<open>unwrap\<close> panics.
\<close>

theorem dropped_join_panics:
  "core_stop_error (join_run ([JoinBegin i, JoinDrop i] @ evs) inner_new) = None
    \<and> bt_get (ri_joiners (join_run ([JoinBegin i, JoinDrop i] @ evs @ [JoinBegin j, JoinPoll j]) inner_new)) j = Some Joined"
proof -
  have o1: "orphaned (join_run [JoinBegin i, JoinDrop i] inner_new)"
    by (auto simp: join_run_def orphaned_def inner_new_def join_begin_def join_drop_def bt_wf_def has_joiner_def bt_get_remove bt_keys_def)
  let ?s = "join_run ([JoinBegin i, JoinDrop i] @ evs) inner_new"
  have o: "orphaned ?s" unfolding join_run_append by (rule orphaned_run[OF o1])
  have "bt_get (ri_joiners (join_run [JoinBegin j, JoinPoll j] ?s)) j = Some Joined"
  proof (cases "bt_get (ri_joiners ?s) j")
    case None
    then show ?thesis using o
      by (simp add: join_run_def join_begin_def join_poll_def orphaned_def bt_get_insert in_bt_keys_iff bt_insert_wf)
  next
    case (Some x)
    then show ?thesis using o
      by (cases x) (auto simp: join_run_def join_begin_def join_poll_def orphaned_def has_joiner_def bt_get_insert
          in_bt_keys_iff bt_insert_wf)
  qed
  moreover have "core_stop_error ?s = None" using o by (simp add: core_stop_error_def orphaned_def)
  ultimately show ?thesis by (simp only: append_assoc[symmetric] join_run_append)
qed

text \<open>
  C3. A linearizable read sees the log the leader confirmed: when \<^verbatim>\<open>handle_ensure_linearizable_read\<close> of a leader
  answers a read state, or hands it to the task that asks the voters, and a node that waits for it sees
  as applied a log id its worker has reported, then the map of the key-value store on that node is the
  one the log defines up to an index beyond everything that the leader had committed.
\<close>

theorem linearizable_read_sees_log:
  assumes "handle_ensure_linearizable_read now policy tx c = Some c'" "st \<in> read_states c c'"
    "await_ready this_id now' latest mevs reread stop st = Some (Some (Inr st'))"
    "lz_applied st' = Some (apr_last_applied res)"
    "on_one_log (lz_applied st) (Some (lz_read_log_id st))" "on_one_log (lz_applied st') (Some (lz_read_log_id st))"
    "on_one_log (rs_committed (rc_state c)) (Some (lz_read_log_id st))"
    "kv_worker R ab dur S LS" "kv_holds ab LS L s"
    "\<forall>ev \<in> set evs. event_ok (cmd_ok (kv_decodes S) L) (keeps (kv_holds ab LS L) kv_budget kv_content) ev"
    "builds (accepted False evs) \<le> kv_budget s" "tiled n (accepted False evs) = Some m"
    "worker_run (kv_worker_ops R S LS) evs (worker_spawn s) = Some w" "\<not> has_error w"
    "NStateMachine (Inr (SmApply res)) \<in> set (wk_notes w)"
  shows "\<exists>k. opt_index (rs_committed (rc_state c)) < Some k
    \<and> bt_get (kw_kvs (snd (wk_machine w))) = kv_after (entries_between n k L) (bt_get (kw_kvs (snd s)))"
proof -
  obtain k where k: "lg_index (apr_last_applied res) < k"
    "bt_get (kw_kvs (snd (wk_machine w))) = kv_after (entries_between n k L) (bt_get (kw_kvs (snd s)))"
    using worker_read[OF assms(8-15)] by blast
  have "Some (lg_index (lz_read_log_id st)) \<le> opt_index (lz_applied st')"
    using await_ready_spec[OF assms(3,5,6)] by blast
  moreover have "opt_index (rs_committed (rc_state c)) \<le> Some (lg_index (lz_read_log_id st))"
    using read_state_covers_committed[OF assms(1,2)] assms(7) by (simp add: on_one_log_def)
  ultimately have "opt_index (rs_committed (rc_state c)) < Some k"
    using k(1) assms(4) by (cases "rs_committed (rc_state c)") auto
  with k(2) show ?thesis by blast
qed


section \<open>Witnesses\<close>

theorem callers_agree_on_stop_witness:
  "let s = join_run [JoinBegin 4, JoinBegin 5, TaskEnds TaskPanicked, JoinPoll 4] inner_new
   in core_stop_error s = Some FatalPanicked
     \<and> core_stop_error (join_run (map JoinPoll ([5, 4] @ [5, 4])) s) = Some FatalPanicked
     \<and> bt_get (ri_joiners (join_run (map JoinPoll ([5, 4] @ [5, 4])) s)) 5 = Some Joined"
proof -
  let ?evs = "[JoinBegin 4, JoinBegin 5, TaskEnds TaskPanicked, JoinPoll 4]"
  let ?s = "join_run ?evs inner_new"
  have s: "?s = \<lparr>ri_core_state = CoreDone FatalPanicked, ri_task = Some TaskPanicked, ri_watch = True,
      ri_watch_open = False, ri_joiners = [(4, Joined), (5, AwaitsWatch)]\<rparr>"
    by code_simp
  have nd: "\<forall>i. JoinDrop i \<notin> set ?evs" by simp
  note a = callers_agree_on_stop[OF nd refl]
  have "core_stop_error ?s = Some (join_result TaskPanicked)"
    using conjunct1[OF a, rule_format, of 4 "[]"] by (simp add: s)
  moreover have "joiner_ids ?s \<subseteq> set [5, 4]" "5 \<in> joiner_ids ?s" by (auto simp: s joiner_ids_def split: if_splits)
  moreover from this have "core_stop_error (join_run (map JoinPoll ([5, 4] @ [5, 4])) ?s) = Some (join_result TaskPanicked)
      \<and> bt_get (ri_joiners (join_run (map JoinPoll ([5, 4] @ [5, 4])) ?s)) 5 = Some Joined"
    using conjunct2[OF a, rule_format, of TaskPanicked "[5, 4]"] by (simp add: s)
  ultimately show ?thesis by (simp add: Let_def join_result_def)
qed

text \<open>The RocksDB of the witnesses does not fail, so that an \<open>Apply\<close> succeeds on it.\<close>

lemma mem_reads:
  assumes "log_held fst log_codecs d es" "fst rg \<noteq> Excluded (- 1)"
  shows "\<exists>out. ls_try_get_log_entries mem_rocks log_codecs rg d = Some (Inr out)"
proof -
  obtain m where m: "fst d ''logs'' = Some m" "logs_rep log_codecs m es" using assms(1) by (auto simp: log_held_def)
  obtain a where a: "range_start (fst rg) = Some a"
    using assms(2) by (cases "fst rg") (auto simp: range_start_def u64_inc_def)
  have reads: "\<exists>out. read_entries (sd_entry log_codecs) inside (map Inr its) res = Some (Inr out)"
    if "\<forall>kv \<in> set its. \<exists>e. entry_rep log_codecs kv e" for inside its res
    using that
  proof (induction its arbitrary: res)
    case (Cons kv its)
    then obtain e where e: "entry_rep log_codecs kv e" by auto
    show ?case using e Cons by (cases kv) (auto simp: entry_rep_def)
  qed simp
  have "\<forall>kv \<in> set m. \<exists>e. entry_rep log_codecs kv e"
    using m(2) by (fastforce simp: logs_rep_def list_all2_conv_all_nth in_set_conv_nth)
  then show ?thesis
    using reads[of "filter (\<lambda>kv. id_to_bin a \<le> fst kv) m" "range_contains rg" "[]"] m(1)
    by (simp add: ls_try_get_log_entries_def a mem_rocks_def ensure_def)
qed

lemma mem_apply_succeeds:
  assumes "kv_holds fst log_codecs L s" "cmd_ok (kv_decodes kv_codecs) L (Apply f l chans)"
  shows "\<exists>res answers s'. worker_apply (kv_worker_ops mem_rocks kv_codecs log_codecs) f l chans s = Some (Inr res, answers, s')
    \<and> apr_last_applied res = l"
proof -
  obtain sm w where s: "s = (sm, w)" by fastforce
  obtain es where "log_held fst log_codecs (kw_db w) es" "bt_wf (kw_kvs w)" using assms(1) by (auto simp: kv_holds_def s)
  then obtain out where out: "ls_try_get_log_entries mem_rocks log_codecs
      (Included (of_nat (lg_index f)), Excluded (of_nat (lg_index l + 1))) (kw_db w) = Some (Inr out)"
    and wf: "bt_wf (kw_kvs w)" using mem_reads by fastforce
  obtain xs where xs: "with_responders (map Inr out) chans = map Inr xs" using with_responders_pairs by blast
  obtain kvs' where ap: "sm_apply (map Inr xs) sm (kw_kvs w) = (Inr (), responses_of xs,
       sm\<lparr>smd_last_applied_log_id := (if xs = [] then smd_last_applied_log_id sm else Some (e_log_id (fst (last xs)))),
          smd_last_membership := membership_after (map fst xs) (smd_last_membership sm)\<rparr>, kvs')"
    using mem_worker.kv_sm_apply[OF wf, of "[]" xs sm] by auto
  obtain r answers s' where r: "worker_apply (kv_worker_ops mem_rocks kv_codecs log_codecs) f l chans s = Some (r, answers, s')"
    "case r of Inl e \<Rightarrow> answers = [] | Inr res \<Rightarrow> apr_last_applied res = l"
    using worker_machine.worker_apply_spec[OF mem_worker.contract assms] by (fastforce split: sum.splits)
  show ?thesis
  proof (cases r)
    case (Inr res)
    then show ?thesis using r by simp
  next
    case (Inl e)
    then show ?thesis
      using r(1) out xs ap
      by (auto simp: worker_apply_def kv_worker_ops_def s entries_stream_def sto_err_def bind_eq_Some_conv Let_def)
  qed
qed


lemma led1_reads:
  "case handle_ensure_linearizable_read 9 ReadIndex 3 led1 of
     Some c \<Rightarrow> (case rev (drop (length (rc_effects led1)) (rc_effects c)) of
         EffReadTask tx v st em # fs \<Rightarrow> st = example_read\<lparr>lz_applied := Some (LogId (LeaderId 0 0) 0)\<rparr> | _ \<Rightarrow> False)
   | None \<Rightarrow> False"
  "rs_committed (rc_state led1) = Some (LogId (LeaderId 0 0) 0)"
  by code_simp+

definition waited_metrics :: "log_id option \<Rightarrow> raft_metrics" where
  "waited_metrics applied = \<lparr>rm_id = 3, rm_current_term = 1, rm_vote = Vote (LeaderId 1 1) True, rm_last_log_index = Some 1,
     rm_last_applied = applied, rm_snapshot = None, rm_purged = None, rm_state = Follower, rm_current_leader = Some 1,
     rm_millis_since_quorum_ack = None, rm_last_quorum_acked = None,
     rm_membership_config = stored_membership_default, rm_heartbeat = None, rm_replication = None\<rparr>"

text \<open>Node 3 waits for the read that node 1 confirmed, and applies both entries.\<close>

theorem linearizable_read_sees_log_witness:
  "\<exists>w k. worker_run (kv_worker_ops mem_rocks kv_codecs log_codecs)
      [WSend (Apply (LogId (LeaderId 1 1) 0) (LogId (LeaderId 1 1) 1) [(1, 7)]), WTurn id] (worker_spawn example_state) = Some w
    \<and> bt_get (kw_kvs (snd (wk_machine w))) = kv_after (entries_between 0 k example_log) (bt_get [(''b'', ''0'')])
    \<and> opt_index (rs_committed (rc_state led1)) < Some k"
proof -
  let ?read = "example_read\<lparr>lz_applied := Some (LogId (LeaderId 0 0) 0)\<rparr>"
  let ?f = "LogId (LeaderId 1 1) 0" and ?l = "LogId (LeaderId 1 1) 1"
  let ?evs = "[WSend (Apply ?f ?l [(1, 7)]), WTurn id] :: (state_machine \<times> (mem_content \<times> mem_content) kv_world) worker_event list"
  let ?W = "kv_worker_ops mem_rocks kv_codecs log_codecs"
  have cmd: "cmd_ok (kv_decodes kv_codecs) example_log (Apply ?f ?l [(1, 7)])"
    by (simp add: example_log_def example_entry_def entry_new_def)
  obtain res answers s' where a: "worker_apply ?W ?f ?l [(1, 7)] example_state = Some (Inr res, answers, s')"
    "apr_last_applied res = ?l"
    using mem_apply_succeeds[OF example_state_holds cmd] by blast
  obtain w where w: "worker_run ?W ?evs (worker_spawn example_state) = Some w" "wk_notes w = [NStateMachine (Inr (SmApply res))]"
    using a(1) by (simp add: worker_spawn_def handle_send_def worker_turn_def wk_notify_def wk_reply_def)
  have ok: "\<forall>ev \<in> set ?evs. event_ok (cmd_ok (kv_decodes kv_codecs) example_log)
      (keeps (kv_holds fst log_codecs example_log) kv_budget kv_content) ev"
    using cmd by (simp add: keeps_def)
  have b: "builds (accepted False ?evs) \<le> kv_budget example_state" by (simp add: builds_def)
  have til: "tiled 0 (accepted False ?evs) = Some 2" by simp
  have ne: "\<not> has_error w" "NStateMachine (Inr (SmApply res)) \<in> set (wk_notes w)"
    by (simp_all add: has_error_def w(2))
  obtain c' tx v em fs where c': "handle_ensure_linearizable_read 9 ReadIndex 3 led1 = Some c'"
    "rev (drop (length (rc_effects led1)) (rc_effects c')) = EffReadTask tx v ?read em # fs"
    using led1_reads(1) by (auto split: option.splits list.splits effect.splits)
  have "EffReadTask tx v ?read em \<in> set (drop (length (rc_effects led1)) (rc_effects c'))"
    using arg_cong[OF c'(2), of set] by simp
  then have st: "?read \<in> read_states led1 c'" unfolding read_states_def by blast
  let ?st = "example_read\<lparr>lz_node_id := 3, lz_applied := Some ?l\<rparr>"
  have aw: "await_ready 3 0 (waited_metrics None) [MetricsChanged (waited_metrics (Some ?l)) 5] (waited_metrics None) inner_new
      ?read = Some (Some (Inr ?st))"
    by (simp add: await_ready_def try_await_ready_def is_ready_on_node_def example_read_def wait_applied_index_at_least_def
        wait_until_def waited_metrics_def hundred_years_def with_applied_def)
  have "\<exists>k. opt_index (rs_committed (rc_state led1)) < Some k
      \<and> bt_get (kw_kvs (snd (wk_machine w))) = kv_after (entries_between 0 k example_log) (bt_get (kw_kvs (snd example_state)))"
    by (rule linearizable_read_sees_log[OF c'(1) st aw _ _ _ _ mem_worker.kv_worker_axioms example_state_holds ok b til w(1) ne])
      (simp_all add: a(2) example_read_def on_one_log_def led1_reads(2) less_eq_log_id_def less_log_id_def
        less_eq_leader_id_def less_leader_id_def)
  then show ?thesis using w(1) by (auto simp: example_state_def)
qed

end
