(* ===== verification/ClientApi.thy ===== *)
theory ClientApi
imports RaftInner Replication
begin

text \<open>
  \<^verbatim>\<open>raft/api/\<close> and \<^verbatim>\<open>raft/stream_append.rs\<close>: what a client of \<^verbatim>\<open>Raft\<close> gets from calls that are more than one
  message: a membership change in two steps, adding a learner and waiting for it, taking over the
  leadership, and the pipelined stream of append requests. The answer of the task to a message is an
  argument: \<open>Inl\<close> the fatal error, \<open>Inr\<close> what it answered.
\<close>

section \<open>Changing the membership\<close>

type_synonym client_write_result = "client_write_error + client_write_response"

text \<open>The second message of \<^verbatim>\<open>ManagementApi::change_membership\<close>: a change that does nothing but flatten the joint config.\<close>

definition flatten_change :: change_members where
  "flatten_change = AddVoterIds []"

text \<open>Whether the first answer leads to a second message; the \<^verbatim>\<open>unwrap\<close> of the membership may panic.\<close>

definition needs_second :: "fatal + client_write_result \<Rightarrow> bool panics" where
  "needs_second first = (case first of
       Inr (Inr resp) \<Rightarrow> do { joint \<leftarrow> cwr_membership resp; Some (length (configs joint) \<noteq> 1) }
     | Inr (Inl _) \<Rightarrow> Some False
     | Inl _ \<Rightarrow> Some False)"

definition api_change_membership ::
  "fatal + client_write_result \<Rightarrow> fatal + client_write_result \<Rightarrow> (fatal + client_write_result) panics" where
  "api_change_membership first second = do {
     more \<leftarrow> needs_second first;
     Some (if more then second else first) }"

section \<open>Adding a learner\<close>

definition replication_lag :: "nat option \<Rightarrow> nat option \<Rightarrow> nat" where
  "replication_lag matched last_index = index_next last_index - index_next matched"

text \<open>\<open>Inl\<close>: keep waiting.\<close>

definition check_replication_upto_date ::
  "nat \<Rightarrow> raft_metrics \<Rightarrow> nat \<Rightarrow> log_id option \<Rightarrow> unit + log_id option" where
  "check_replication_upto_date threshold m nid membership_log_id =
     (if sm_log_id (rm_membership_config m) < membership_log_id then Inl ()
      else if mem_get_node (sm_membership (rm_membership_config m)) nid = None then Inr None
      else (case rm_replication m of
          None \<Rightarrow> Inr None
        | Some repl \<Rightarrow> (case bt_get repl nid of
            None \<Rightarrow> Inl ()
          | Some matched \<Rightarrow>
              if replication_lag (opt_index matched) (rm_last_log_index m) \<le> threshold then Inr matched else Inl ())))"

definition learner_change :: "nat \<Rightarrow> basic_node \<Rightarrow> change_members" where
  "learner_change nid node = AddNodes [(nid, node)]"

text \<open>\<^verbatim>\<open>add_learner\<close>, \<open>None\<close> while it waits; how the wait ends is only logged.\<close>

definition api_add_learner ::
  "nat \<Rightarrow> nat \<Rightarrow> nat \<Rightarrow> bool \<Rightarrow> fatal + client_write_result \<Rightarrow> nat \<Rightarrow> raft_metrics \<Rightarrow> raft_metrics wait_event list
     \<Rightarrow> (fatal + client_write_result) option" where
  "api_add_learner self_id threshold nid blocking answer now latest evs = (case answer of
       Inr (Inr resp) \<Rightarrow>
         if \<not> blocking \<or> self_id = nid then Some (Inr (Inr resp))
         else map_option (\<lambda>_. Inr (Inr resp))
           (wait_metrics (\<lambda>m. case check_replication_upto_date threshold m nid (Some (cwr_log_id resp)) of
               Inr _ \<Rightarrow> True | Inl _ \<Rightarrow> False) (now + hundred_years) now latest evs)
     | Inr (Inl e) \<Rightarrow> Some (Inr (Inl e))
     | Inl f \<Rightarrow> Some (Inl f))"

section \<open>Taking over the leadership\<close>

definition transfer_ok :: "transfer_leader_request \<Rightarrow> raft_metrics \<Rightarrow> bool" where
  "transfer_ok req m \<longleftrightarrow> tlr_from_leader req = rm_vote m \<and> index_next (rm_last_log_index m) \<ge> next_index (tlr_last_log_id req)"

definition transfer_fail :: "transfer_leader_request \<Rightarrow> raft_metrics \<Rightarrow> bool" where
  "transfer_fail req m \<longleftrightarrow> \<not> tlr_from_leader req \<ge> rm_vote m"

text \<open>\<^verbatim>\<open>ensure_log_flushed_for_transfer_leader\<close>: it returns whatever ended the wait; \<open>None\<close> while it waits.\<close>

definition ensure_log_flushed ::
  "transfer_leader_request \<Rightarrow> nat \<Rightarrow> nat \<Rightarrow> raft_metrics \<Rightarrow> raft_metrics wait_event list \<Rightarrow> (wait_error + raft_metrics) option" where
  "ensure_log_flushed req election_timeout_min now latest evs =
     wait_metrics (\<lambda>m. transfer_ok req m \<or> transfer_fail req m) (now + election_timeout_min) now latest evs"

text \<open>The message that is sent to the task, \<open>None\<close> while the assigned leader waits.\<close>

definition api_handle_transfer_leader ::
  "nat \<Rightarrow> transfer_leader_request \<Rightarrow> nat \<Rightarrow> nat \<Rightarrow> raft_metrics \<Rightarrow> raft_metrics wait_event list \<Rightarrow> raft_msg option" where
  "api_handle_transfer_leader self_id req election_timeout_min now latest evs =
     map_option (\<lambda>_. MsgHandleTransferLeader (tlr_from_leader req) (tlr_to_node_id req))
       (if tlr_to_node_id req = self_id then map_option (\<lambda>_. ()) (ensure_log_flushed req election_timeout_min now latest evs)
        else Some ())"

section \<open>The pipelined stream of append requests\<close>

definition pipeline_buffer_size :: nat where
  "pipeline_buffer_size = 64"

text \<open>
  The reading task and the returned stream around the channel of pending requests. A request is known by
  its position among those sent to the task of Raft. \<open>pl_held\<close>: sent, and waiting for room in the channel.
  \<open>pl_awaited\<close>: taken out of the channel by the stream, which waits for its answer.
\<close>

record pipeline =
  pl_input :: "append_request list"
  pl_sent :: "append_request list"
  pl_held :: "(nat \<times> log_id_range) option"
  pl_buffer :: "(nat \<times> log_id_range) list"
  pl_awaited :: "(nat \<times> log_id_range) option"
  pl_reader_done :: bool
  pl_stopped :: bool
  pl_answers :: "(nat, append_entries_response) bt_map"
  pl_out :: "(stream_append_error + log_id option) list"
  pl_ended :: bool

definition stream_append_new :: "append_request list \<Rightarrow> pipeline" where
  "stream_append_new input = \<lparr>pl_input = input, pl_sent = [], pl_held = None, pl_buffer = [], pl_awaited = None, pl_reader_done = False,
     pl_stopped = False, pl_answers = [], pl_out = [], pl_ended = False\<rparr>"

text \<open>The reading task: the next request goes to the task of Raft, which may have stopped.\<close>

definition pl_read :: "pipeline \<Rightarrow> pipeline" where
  "pl_read s = (if pl_reader_done s \<or> pl_held s \<noteq> None then s
     else (case pl_input s of
         [] \<Rightarrow> s\<lparr>pl_reader_done := True\<rparr>
       | req # rest \<Rightarrow>
           if pl_stopped s then s\<lparr>pl_input := rest, pl_reader_done := True\<rparr>
           else s\<lparr>pl_input := rest, pl_sent := pl_sent s @ [req],
                  pl_held := Some (length (pl_sent s), req_log_id_range req)\<rparr>))"

text \<open>Sending to the channel waits for room, and fails once the stream is dropped.\<close>

definition pl_push :: "pipeline \<Rightarrow> pipeline" where
  "pl_push s = (case pl_held s of
       None \<Rightarrow> s
     | Some p \<Rightarrow>
         if pl_ended s then s\<lparr>pl_held := None, pl_reader_done := True\<rparr>
         else if length (pl_buffer s) < pipeline_buffer_size then s\<lparr>pl_held := None, pl_buffer := pl_buffer s @ [p]\<rparr>
         else s)"

text \<open>
  The stream takes the next item from the channel, which makes room for another, or finds the channel closed
  and empty; then it waits until the answer of the item has come, or cannot come any more.
\<close>

definition pl_recv :: "pipeline \<Rightarrow> pipeline" where
  "pl_recv s = (case pl_buffer s of
       [] \<Rightarrow> if pl_reader_done s \<and> pl_held s = None then s\<lparr>pl_ended := True\<rparr> else s
     | p # rest \<Rightarrow> s\<lparr>pl_buffer := rest, pl_awaited := Some p\<rparr>)"

definition pl_next :: "pipeline \<Rightarrow> pipeline panics" where
  "pl_next s = (if pl_ended s then Some s
     else (case pl_awaited s of
         None \<Rightarrow> Some (pl_recv s)
       | Some (i, rng) \<Rightarrow> (case bt_get (pl_answers s) i of
             Some resp \<Rightarrow> do {
               res \<leftarrow> into_stream_result resp (lir_prev rng) (lir_last rng);
               Some (s\<lparr>pl_awaited := None, pl_out := pl_out s @ [res], pl_ended := isl res\<rparr>) }
           | None \<Rightarrow> Some (if pl_stopped s then s\<lparr>pl_awaited := None, pl_ended := True\<rparr> else s))))"

datatype pipeline_event = PlRead | PlPush | PlNext | PlAnswer nat append_entries_response | PlStop

fun pl_step :: "pipeline_event \<Rightarrow> pipeline \<Rightarrow> pipeline panics" where
  "pl_step PlRead s = Some (pl_read s)"
| "pl_step PlPush s = Some (pl_push s)"
| "pl_step PlNext s = pl_next s"
| "pl_step (PlAnswer i resp) s =
     Some (if i < length (pl_sent s) \<and> bt_get (pl_answers s) i = None \<and> \<not> pl_stopped s
           then s\<lparr>pl_answers := bt_insert i resp (pl_answers s)\<rparr> else s)"
| "pl_step PlStop s = Some (s\<lparr>pl_stopped := True\<rparr>)"

fun pl_run :: "pipeline_event list \<Rightarrow> pipeline \<Rightarrow> pipeline panics" where
  "pl_run [] s = Some s"
| "pl_run (ev # evs) s = do { s1 \<leftarrow> pl_step ev s; pl_run evs s1 }"

section \<open>What a leader answers to a change\<close>

text \<open>
  The task answers the responder \<open>tx\<close> of a change with an error at once, or, once the entry it appended
  for it is applied, with the log id and the membership of that entry.
\<close>

definition change_appends ::
  "change_members \<Rightarrow> bool \<Rightarrow> raft_core \<Rightarrow> raft_core \<Rightarrow> nat \<Rightarrow> entry \<Rightarrow> bool" where
  "change_appends changes retain c c' tx ent \<longleftrightarrow> change_membership changes retain tx c = Some c'
     \<and> rc_client_responders c' = rc_client_responders c @ [(e_index ent, tx)]
     \<and> (\<exists>cv es. AppendEntries cv es \<in> set (drop (length (rc_queue c)) (rc_queue c')) \<and> ent \<in> set es)"

definition answers_change :: "change_members \<Rightarrow> bool \<Rightarrow> raft_core \<Rightarrow> client_write_result \<Rightarrow> bool" where
  "answers_change changes retain c r \<longleftrightarrow> (case r of
       Inl err \<Rightarrow> \<exists>tx c'. change_membership changes retain tx c = Some c'
         \<and> EffClientError tx err \<in> set (drop (length (rc_effects c)) (rc_effects c'))
     | Inr resp \<Rightarrow> \<exists>tx c' ent. change_appends changes retain c c' tx ent
         \<and> resp = answer_of (\<lambda>ent. kv_response (e_payload ent)) ent)"

lemma initiate_from_commands:
  "rh_initiate_from self n items st o' = Some (items', st', o2) \<Longrightarrow>
     \<exists>xs. eo_commands o2 = eo_commands o' @ xs \<and> (\<forall>x \<in> set xs. \<forall>cv es. x \<noteq> AppendEntries cv es)"
proof (induction self n items st o' arbitrary: items' st' o2 rule: rh_initiate_from.induct)
  case (2 self n nid pe items st o')
  show ?case
  proof (cases "nid = self")
    case True
    then show ?thesis using 2 by (auto simp: bind_eq_Some_conv)
  next
    case False
    then obtain t pe' st1 o1 items1 where *: "pe_next_send n pe st = Some (t, pe', st1)"
      "(case t of Inr inflight \<Rightarrow> rh_send_to_target nid inflight o' | Inl _ \<Rightarrow> Some o') = Some o1"
      "rh_initiate_from self n items st1 o1 = Some (items1, st', o2)"
      using 2(3) by (auto simp: bind_eq_Some_conv)
    have "\<exists>ys. eo_commands o1 = eo_commands o' @ ys \<and> (\<forall>x \<in> set ys. \<forall>cv es. x \<noteq> AppendEntries cv es)"
    proof (cases t)
      case (Inr i)
      then show ?thesis using *(2) by (cases i) (auto simp: push_command_def)
    qed (use *(2) in simp)
    with 2(2)[OF False *(1) refl refl *(2,3)] show ?thesis by fastforce
  qed
qed simp

definition no_append_since :: "engine \<Rightarrow> engine \<Rightarrow> bool" where
  "no_append_since e e' \<longleftrightarrow> (\<exists>xs. eo_commands (en_output e') = eo_commands (en_output e) @ xs
     \<and> (\<forall>x \<in> set xs. \<forall>cv es. x \<noteq> AppendEntries cv es))"

lemma no_append_refl: "eo_commands (en_output e') = eo_commands (en_output e) \<Longrightarrow> no_append_since e e'"
  by (simp add: no_append_since_def)

lemma no_append_trans: "no_append_since e e1 \<Longrightarrow> no_append_since e1 e2 \<Longrightarrow> no_append_since e e2"
  by (fastforce simp: no_append_since_def)

lemma initiate_no_append: "rh_initiate_replication e = Some e' \<Longrightarrow> no_append_since e e'"
  by (auto simp: rh_initiate_replication_def bind_eq_Some_conv no_append_since_def dest!: initiate_from_commands)

lemma append_membership_no_append:
  assumes "rh_append_membership l m e = Some e'"
  shows "no_append_since e e' \<and> ms_effective (rs_membership_state (en_state e')) = em_new (Some l) m"
proof -
  obtain ms e2 e3 where *: "ms_append (em_new (Some l) m) (rs_membership_state (en_state e)) = Some ms"
    "rh_rebuild_progresses (e\<lparr>en_state := (en_state e)\<lparr>rs_membership_state := ms\<rparr>\<rparr>) = Some e2"
    "rh_rebuild_replication_streams e2 = Some e3" "rh_initiate_replication e3 = Some e'"
    using assms by (auto simp: rh_append_membership_def bind_eq_Some_conv Let_def)
  have "no_append_since e e2" using *(2)
    by (intro no_append_refl) (auto simp: rh_rebuild_progresses_def bind_eq_Some_conv Let_def)
  moreover have "no_append_since e2 e3" using *(3)
    by (auto simp: rh_rebuild_replication_streams_def bind_eq_Some_conv Let_def no_append_since_def en_push_def push_command_def)
  moreover note initiate_no_append[OF *(4)]
  moreover have "ms_effective ms = em_new (Some l) m" using *(1) by (auto simp: ms_append_def)
  moreover have "rs_membership_state (en_state e') = ms"
    using *(2-4) rh_initiate_replication_frame by (fastforce simp: rh_rebuild_progresses_def rh_rebuild_replication_streams_def
        bind_eq_Some_conv Let_def en_push_def)
  ultimately show ?thesis using no_append_trans by blast
qed

lemma leader_append_one:
  assumes "leader_append_entries [entry_new l0 (MembershipPayload m)] e = Some e'"
  shows "\<exists>ent xs cv. eo_commands (en_output e') = eo_commands (en_output e) @ AppendEntries cv [ent] # xs
    \<and> (\<forall>x \<in> set xs. \<forall>cv es. x \<noteq> AppendEntries cv es) \<and> e_payload ent = MembershipPayload m
    \<and> ms_effective (rs_membership_state (en_state e')) = em_new (Some (e_log_id ent)) m"
proof -
  let ?ent = "entry_new l0 (MembershipPayload m)"
  obtain l es' l1 mem st2 e2 where *: "en_leader e = Some l" "ld_assign_log_ids [?ent] l = Some (es', l1)"
    "batch_membership es' None = Some mem"
    and r: "(case mem of Some (lid, m) \<Rightarrow> rh_append_membership lid m
                  (en_push (AppendEntries (ld_committed_vote l1) es') (e\<lparr>en_leader := Some l1, en_state := st2\<rparr>))
              | None \<Rightarrow> Some (en_push (AppendEntries (ld_committed_vote l1) es') (e\<lparr>en_leader := Some l1, en_state := st2\<rparr>)))
            = Some e2"
    and e2: "rh_initiate_replication e2 = Some e'"
    using assms by (auto simp: leader_append_entries_def bind_eq_Some_conv Let_def)
  obtain lid where es': "es' = [?ent\<lparr>e_log_id := lid\<rparr>]"
    using *(2) by (auto simp: assign_log_ids_spec upt_conv_Cons split: if_splits)
  then have mem: "mem = Some (lid, m)"
    using *(3) by (simp add: entry_get_membership_def entry_new_def ensure_def)
  let ?e1 = "en_push (AppendEntries (ld_committed_vote l1) es') (e\<lparr>en_leader := Some l1, en_state := st2\<rparr>)"
  have "rh_append_membership lid m ?e1 = Some e2" using r by (simp add: mem)
  note a = append_membership_no_append[OF this]
  have "no_append_since ?e1 e'" using a initiate_no_append[OF e2] no_append_trans by blast
  then obtain xs where xs: "eo_commands (en_output e') = eo_commands (en_output ?e1) @ xs"
    "\<forall>x \<in> set xs. \<forall>cv es. x \<noteq> AppendEntries cv es" by (auto simp: no_append_since_def)
  have "rs_membership_state (en_state e') = rs_membership_state (en_state e2)"
    using rh_initiate_replication_frame(1)[OF e2] by auto
  then show ?thesis
    using xs a by (intro exI[of _ "?ent\<lparr>e_log_id := lid\<rparr>"] exI[of _ xs] exI[of _ "ld_committed_vote l1"])
      (simp add: es' en_push_def push_command_def entry_new_def)
qed

lemma change_appends_entry:
  assumes "change_appends changes retain c c' tx ent"
  shows "\<exists>m. mem_change (em_membership (rc_effective c)) changes retain = Some (Inr m)
    \<and> entry_get_membership ent = Some m \<and> rc_effective c' = em_new (Some (e_log_id ent)) m"
proof -
  have cm: "change_membership changes retain tx c = Some c'"
    and q: "rc_client_responders c' \<noteq> rc_client_responders c"
    and ap: "\<exists>cv es. AppendEntries cv es \<in> set (drop (length (rc_queue c)) (rc_queue c')) \<and> ent \<in> set es"
    using assms by (auto simp: change_appends_def)
  obtain res where res: "ch_apply (rs_membership_state (rc_state c)) changes retain = Some res"
    using cm by (auto simp: change_membership_def bind_eq_Some_conv)
  obtain m where m: "res = Inr m" "write_entry (entry_new default_log_id (MembershipPayload m)) (Some tx) c = Some c'"
    using cm q res by (cases res) (auto simp: change_membership_def)
  obtain lh where lh: "en_leader_handler (rc_engine c) = Some lh"
    using m(2) by (auto simp: write_entry_def bind_eq_Some_conv)
  have "leader_append_entries [entry_new default_log_id (MembershipPayload m)] (rc_engine c) = Some (rc_engine c')"
  proof (cases lh)
    case (Inl f)
    then show ?thesis using m(2) q lh by (auto simp: write_entry_def emit_to_def)
  next
    case (Inr l)
    then show ?thesis using m(2) q lh by (cases "ld_transfer_to l") (auto simp: write_entry_def emit_to_def bind_eq_Some_conv)
  qed
  from leader_append_one[OF this] obtain ent' xs cv where
    e: "rc_queue c' = rc_queue c @ AppendEntries cv [ent'] # xs" "\<forall>x \<in> set xs. \<forall>cv es. x \<noteq> AppendEntries cv es"
      "e_payload ent' = MembershipPayload m" "rc_effective c' = em_new (Some (e_log_id ent')) m"
    by auto
  then have "ent = ent'" using ap by auto
  then show ?thesis
    using res m(1) e by (auto simp: ch_apply_def entry_get_membership_def split: sum.splits)
qed

lemma mem_change_configs:
  assumes "mem_change m changes retain = Some (Inr m')"
  shows "\<exists>goal. last_opt (configs (compute_target_membership changes m)) = Some goal
    \<and> configs m' = find_coherent (configs m) goal \<and> mem_valid m'"
proof -
  obtain goal where g: "last_opt (configs (compute_target_membership changes m)) = Some goal"
    "(case mem_ensure_valid (next_coherent (m\<lparr>m_nodes := m_nodes (compute_target_membership changes m)\<rparr>) goal retain) of
        Inl e \<Rightarrow> Inl (membership_error_into e)
      | Inr _ \<Rightarrow> Inr (next_coherent (m\<lparr>m_nodes := m_nodes (compute_target_membership changes m)\<rparr>) goal retain)) = Inr m'"
    using assms by (auto simp: mem_change_def bind_eq_Some_conv Let_def)
  then show ?thesis
    by (auto simp: next_coherent_def mem_new_unchecked_def Let_def mem_ensure_valid_iff[symmetric] split: sum.splits)
qed

lemma change_answer:
  assumes "answers_change changes retain c (Inr resp)"
  shows "\<exists>m goal. cwr_membership resp = Some m \<and> last_opt (configs (compute_target_membership changes (em_membership (rc_effective c)))) = Some goal
    \<and> configs m = find_coherent (configs (em_membership (rc_effective c))) goal \<and> mem_valid m"
proof -
  obtain tx c' ent where a: "change_appends changes retain c c' tx ent"
    "resp = answer_of (\<lambda>ent. kv_response (e_payload ent)) ent"
    using assms by (auto simp: answers_change_def)
  obtain m where m: "mem_change (em_membership (rc_effective c)) changes retain = Some (Inr m)" "entry_get_membership ent = Some m"
    using change_appends_entry[OF a(1)] by blast
  then show ?thesis using mem_change_configs[OF m(1)] by (auto simp: a(2) answer_of_def)
qed

lemma find_coherent_one: "length (find_coherent cs goal) = 1 \<Longrightarrow> find_coherent cs goal = [goal]"
  by (auto simp: find_coherent_def split: if_splits option.splits)

lemma flatten_goal:
  assumes "mem_wf m" "configs m \<noteq> []" "last_opt (configs (compute_target_membership flatten_change m)) = Some goal"
  shows "last_opt (configs m) = Some goal" "find_coherent (configs m) goal = [goal]"
proof -
  let ?l = "last (configs m)"
  have "last_config m = ?l" "bs_wf ?l" using assms(1,2) by (auto simp: last_config_def last_opt_def mem_wf_def)
  moreover have "bs_union ?l [] = ?l" using \<open>bs_wf ?l\<close> by (intro bs_ext) auto
  ultimately have g: "goal = ?l" using assms(3) by (simp add: flatten_change_def last_opt_def)
  then show "last_opt (configs m) = Some goal" using assms(2) by (simp add: last_opt_def)
  have "joint_is_coherent_with_uniform (configs m) goal"
    using g assms(2) by (auto simp: joint_is_coherent_with_uniform_iff)
  then show "find_coherent (configs m) goal = [goal]" by (simp add: find_coherent_def)
qed

section \<open>What the stream yields\<close>

text \<open>The items without a result: the awaited one, those in the channel, the one that waits for room.\<close>

definition held_items :: "pipeline \<Rightarrow> (nat \<times> log_id_range) list" where
  "held_items s = (case pl_awaited s of Some p \<Rightarrow> [p] | None \<Rightarrow> []) @ pl_buffer s @ (case pl_held s of Some p \<Rightarrow> [p] | None \<Rightarrow> [])"

text \<open>The results are those of the first requests, in order; only the last may be an error.\<close>

definition results_of :: "pipeline \<Rightarrow> bool" where
  "results_of s \<longleftrightarrow> length (pl_out s) \<le> length (pl_sent s)
     \<and> (\<forall>k < length (pl_out s). \<exists>resp. bt_get (pl_answers s) k = Some resp
          \<and> into_stream_result resp (ar_prev_log_id (pl_sent s ! k)) (req_last_log_id (pl_sent s ! k)) = Some (pl_out s ! k)
          \<and> (isl (pl_out s ! k) \<longrightarrow> k = length (pl_out s) - 1 \<and> pl_ended s))"

definition pl_inv :: "append_request list \<Rightarrow> pipeline \<Rightarrow> bool" where
  "pl_inv reqs s \<longleftrightarrow> bt_wf (pl_answers s) \<and> results_of s
     \<and> (\<exists>dropped. reqs = pl_sent s @ dropped @ pl_input s \<and> (dropped = [] \<or> pl_stopped s))
     \<and> length (pl_buffer s) \<le> pipeline_buffer_size
     \<and> (pl_reader_done s \<longrightarrow> pl_held s = None \<and> (pl_input s = [] \<or> pl_stopped s \<or> pl_ended s))
     \<and> (if pl_ended s then (\<exists>r \<in> set (pl_out s). isl r) \<or> pl_stopped s \<or> length (pl_out s) = length reqs
        else held_items s = map (\<lambda>k. (k, req_log_id_range (pl_sent s ! k))) [length (pl_out s)..<length (pl_sent s)])"

lemma results_of_cong:
  "results_of s \<Longrightarrow> pl_out s' = pl_out s \<Longrightarrow> pl_answers s' = pl_answers s \<Longrightarrow> pl_ended s' = pl_ended s
     \<Longrightarrow> pl_sent s' = pl_sent s @ extra \<Longrightarrow> results_of s'"
  by (fastforce simp: results_of_def nth_append)

lemma pl_read_inv: "pl_inv reqs s \<Longrightarrow> pl_inv reqs (pl_read s)"
proof -
  assume i: "pl_inv reqs s"
  show ?thesis
  proof (cases "pl_reader_done s \<or> pl_held s \<noteq> None")
    case busy: False
    then have False: "\<not> pl_reader_done s" "pl_held s = None" by (cases "pl_held s"; simp)+
    show ?thesis
    proof (cases "pl_input s")
      case Nil
      then show ?thesis using i False
        by (auto simp: pl_inv_def pl_read_def held_items_def intro: results_of_cong[where extra = "[]"])
    next
      case (Cons req rest)
      obtain dropped where d: "reqs = pl_sent s @ dropped @ pl_input s" "dropped = [] \<or> pl_stopped s"
        using i by (auto simp: pl_inv_def)
      have res: "results_of (pl_read s)"
        using i False Cons results_of_cong[of s _ "if pl_stopped s then [] else [req]"]
        by (simp add: pl_inv_def pl_read_def)
      show ?thesis
      proof (cases "pl_stopped s")
        case True
        have "\<exists>dropped. reqs = pl_sent s @ dropped @ rest" using d(1) Cons by (intro exI[of _ "dropped @ [req]"]) simp
        then show ?thesis using i res False True Cons by (auto simp: pl_inv_def pl_read_def held_items_def)
      next
        case no_stop: False
        have l: "length (pl_out s) \<le> length (pl_sent s)" using i by (simp add: pl_inv_def results_of_def)
        have "map (\<lambda>k. (k, req_log_id_range ((pl_sent s @ [req]) ! k))) [length (pl_out s)..<length (pl_sent s)]
            = map (\<lambda>k. (k, req_log_id_range (pl_sent s ! k))) [length (pl_out s)..<length (pl_sent s)]"
          by (simp add: nth_append)
        then show ?thesis using i res False no_stop Cons d l by (auto simp: pl_inv_def pl_read_def held_items_def)
      qed
    qed
  qed (use i in \<open>simp add: pl_read_def\<close>)
qed

lemma pl_push_inv: "pl_inv reqs s \<Longrightarrow> pl_inv reqs (pl_push s)"
proof (cases "pl_held s")
  case (Some p)
  assume i: "pl_inv reqs s"
  have "results_of (pl_push s)"
    using i Some by (auto simp: pl_inv_def pl_push_def intro: results_of_cong[where extra = "[]"])
  then show ?thesis using i Some by (auto simp: pl_inv_def pl_push_def held_items_def)
qed (simp add: pl_push_def)

lemma pl_recv_inv:
  assumes "pl_inv reqs s" "\<not> pl_ended s" "pl_awaited s = None"
  shows "pl_inv reqs (pl_recv s)"
proof (cases "pl_buffer s")
  case Nil
  have h: "held_items s = map (\<lambda>k. (k, req_log_id_range (pl_sent s ! k))) [length (pl_out s)..<length (pl_sent s)]"
    using assms(1,2) by (simp add: pl_inv_def)
  show ?thesis
  proof (cases "pl_reader_done s \<and> pl_held s = None")
    case True
    then have "length (pl_sent s) \<le> length (pl_out s)" using h Nil assms(3) by (auto simp: held_items_def)
    then have l: "length (pl_out s) = length (pl_sent s)" using assms(1) by (simp add: pl_inv_def results_of_def)
    have s': "pl_recv s = s\<lparr>pl_ended := True\<rparr>" using Nil True by (simp add: pl_recv_def)
    have r: "results_of (pl_recv s)" using assms(1,2) unfolding s' by (auto simp: pl_inv_def results_of_def)
    show ?thesis using assms(1) r True l Nil by (auto simp: s' pl_inv_def)
  next
    case False
    then have "pl_recv s = s" using Nil by (auto simp: pl_recv_def)
    then show ?thesis using assms(1) by simp
  qed
next
  case (Cons p rest)
  then show ?thesis using assms by (auto simp: pl_recv_def pl_inv_def results_of_def held_items_def)
qed

lemma pl_next_inv:
  assumes "pl_inv reqs s" "pl_next s = Some s'"
  shows "pl_inv reqs s'"
proof (cases "pl_ended s")
  case False
  then have h: "held_items s = map (\<lambda>k. (k, req_log_id_range (pl_sent s ! k))) [length (pl_out s)..<length (pl_sent s)]"
    using assms(1) by (simp add: pl_inv_def)
  show ?thesis
  proof (cases "pl_awaited s")
    case None
    then have "s' = pl_recv s" using assms(2) False by (simp add: pl_next_def)
    then show ?thesis using pl_recv_inv[OF assms(1) False None] by simp
  next
    case (Some it)
    obtain i rng where it: "it = (i, rng)" by fastforce
    have lt: "length (pl_out s) < length (pl_sent s)" using h Some by (auto simp: held_items_def upt_conv_Cons intro: ccontr)
    then have i: "i = length (pl_out s)" "rng = req_log_id_range (pl_sent s ! i)"
      and rest: "pl_buffer s @ (case pl_held s of Some p \<Rightarrow> [p] | None \<Rightarrow> [])
          = map (\<lambda>k. (k, req_log_id_range (pl_sent s ! k))) [Suc (length (pl_out s))..<length (pl_sent s)]"
      using h Some it by (auto simp: held_items_def upt_conv_Cons)
    show ?thesis
    proof (cases "bt_get (pl_answers s) i")
      case None
      then show ?thesis using assms False Some it
        by (auto simp: pl_next_def pl_inv_def results_of_def split: if_splits)
    next
      case (Some resp)
      obtain res where res: "into_stream_result resp (lir_prev rng) (lir_last rng) = Some res"
        and s': "s' = s\<lparr>pl_awaited := None, pl_out := pl_out s @ [res], pl_ended := isl res\<rparr>"
        using assms(2) False \<open>pl_awaited s = Some it\<close> it Some by (auto simp: pl_next_def bind_eq_Some_conv)
      have "results_of s'"
        using assms(1) False Some res lt i
        by (auto simp: s' pl_inv_def results_of_def nth_append less_Suc_eq req_log_id_range_def)
      then show ?thesis using assms(1) rest False by (auto simp: s' pl_inv_def held_items_def)
    qed
  qed
qed (use assms in \<open>simp add: pl_next_def\<close>)

lemma pl_step_inv:
  assumes "pl_inv reqs s" "pl_step ev s = Some s'"
  shows "pl_inv reqs s'"
proof (cases ev)
  case (PlAnswer i resp)
  show ?thesis
  proof (cases "i < length (pl_sent s) \<and> bt_get (pl_answers s) i = None \<and> \<not> pl_stopped s")
    case True
    then have s': "s' = s\<lparr>pl_answers := bt_insert i resp (pl_answers s)\<rparr>" using assms(2) PlAnswer by simp
    have "\<forall>k < length (pl_out s). k \<noteq> i" using assms(1) True by (auto simp: pl_inv_def results_of_def)
    then have "results_of s'"
      using assms(1) by (auto simp: s' pl_inv_def results_of_def bt_get_insert)
    then show ?thesis using assms(1) by (auto simp: s' pl_inv_def bt_insert_wf held_items_def)
  qed (use assms PlAnswer in auto)
next
  case PlStop
  then show ?thesis using assms by (auto simp: pl_inv_def results_of_def held_items_def)
qed (use assms pl_read_inv pl_push_inv pl_next_inv in auto)

lemma pl_run_inv: "pl_inv reqs s \<Longrightarrow> pl_run evs s = Some s' \<Longrightarrow> pl_inv reqs s'"
  by (induction evs arbitrary: s) (auto simp: bind_eq_Some_conv dest: pl_step_inv)

lemma stream_append_new_inv: "pl_inv reqs (stream_append_new reqs)"
  by (simp add: pl_inv_def stream_append_new_def results_of_def held_items_def bt_wf_def)

section \<open>Learners and transfers\<close>

text \<open>A blocking \<^verbatim>\<open>add_learner\<close> that is woken by metrics saw one of: the learner close enough, removed, or no leader here.\<close>

lemma add_learner_blocks:
  assumes "api_add_learner self_id threshold nid True (Inr (Inr resp)) now latest evs = Some r" "nid \<noteq> self_id"
    "\<forall>ev \<in> set evs. \<exists>m t. ev = MetricsChanged m t \<and> t < now + hundred_years"
  shows "\<exists>m. (m = latest \<or> (\<exists>t. MetricsChanged m t \<in> set evs)) \<and> Some (cwr_log_id resp) \<le> sm_log_id (rm_membership_config m)
    \<and> (mem_get_node (sm_membership (rm_membership_config m)) nid = None \<or> rm_replication m = None
       \<or> (\<exists>repl matched. rm_replication m = Some repl \<and> bt_get repl nid = Some matched
            \<and> index_next (rm_last_log_index m) \<le> index_next (opt_index matched) + threshold))"
proof -
  let ?f = "\<lambda>m. case check_replication_upto_date threshold m nid (Some (cwr_log_id resp)) of Inr _ \<Rightarrow> True | Inl _ \<Rightarrow> False"
  obtain w where w: "wait_metrics ?f (now + hundred_years) now latest evs = Some w"
    using assms(1,2) by (auto simp: api_add_learner_def)
  have "wait_metrics f at t0 l es = Some w \<Longrightarrow> t0 < at \<Longrightarrow> \<forall>ev \<in> set es. \<exists>m t. ev = MetricsChanged m t \<and> t < at \<Longrightarrow> \<exists>m. w = Inr m"
    for f :: "raft_metrics \<Rightarrow> bool" and at t0 l es
    by (induction f at t0 l es rule: wait_metrics.induct) (fastforce split: if_splits)+
  from this[OF w] obtain m where m: "w = Inr m" using assms(3) by (auto simp: hundred_years_def)
  have "?f m" by (rule wait_metrics_ok[OF w[unfolded m]])
  then show ?thesis
    using wait_metrics_seen[OF w[unfolded m]]
    by (intro exI[of _ m]) (auto simp: check_replication_upto_date_def replication_lag_def not_less split: if_splits option.splits)
qed

text \<open>
  The assigned leader sends the message whatever ended its wait, also when it saw a vote that is not the
  one of the transfer; the task ignores the message then.
\<close>

lemma transfer_always_sent:
  assumes "tlr_to_node_id req = self_id" "ensure_log_flushed req timeout now latest evs = Some w"
  shows "api_handle_transfer_leader self_id req timeout now latest evs
      = Some (MsgHandleTransferLeader (tlr_from_leader req) self_id)"
    "vote_ref (rc_state c) \<noteq> tlr_from_leader req \<Longrightarrow>
      handle_api_msg t sto (MsgHandleTransferLeader (tlr_from_leader req) self_id) c = Some c"
  using assms by (simp_all add: api_handle_transfer_leader_def)

section \<open>Properties\<close>

text \<open>
  C32. A membership change ends uniform: when the task of a leader has answered the first message of
  \<^verbatim>\<open>change_membership\<close>, and the flattening message in case one is sent, the call does not panic; and when it
  returns a response, the response carries a valid membership of a single config. It is the config the
  caller asked for unless another change came between the two messages.
\<close>

theorem change_membership_ends_uniform:
  assumes "answers_change changes retain c1 r1" "answers_change flatten_change retain c2 r2"
    "mem_wf (em_membership (rc_effective c2))" "configs (em_membership (rc_effective c2)) \<noteq> []"
  shows "\<exists>r. api_change_membership (Inr r1) (Inr r2) = Some (Inr r)
    \<and> (\<forall>resp. r = Inr resp \<longrightarrow> (\<exists>m goal. cwr_membership resp = Some m \<and> mem_valid m \<and> configs m = [goal]
         \<and> ((\<forall>resp1. r1 = Inr resp1 \<longrightarrow> r = r1 \<or> cwr_membership resp1 = Some (em_membership (rc_effective c2)))
            \<longrightarrow> last_opt (configs (compute_target_membership changes (em_membership (rc_effective c1)))) = Some goal)))"
proof (cases r1)
  case (Inl e)
  then show ?thesis by (simp add: api_change_membership_def needs_second_def)
next
  case (Inr resp1)
  obtain m1 goal1 where m1: "cwr_membership resp1 = Some m1"
    "last_opt (configs (compute_target_membership changes (em_membership (rc_effective c1)))) = Some goal1"
    "configs m1 = find_coherent (configs (em_membership (rc_effective c1))) goal1" "mem_valid m1"
    using change_answer assms(1) Inr by blast
  show ?thesis
  proof (cases "length (configs m1) = 1")
    case True
    then have "configs m1 = [goal1]" using find_coherent_one m1(3) by simp
    with True m1 show ?thesis by (simp add: Inr api_change_membership_def needs_second_def)
  next
    case False
    then have r: "api_change_membership (Inr r1) (Inr r2) = Some (Inr r2)"
      by (simp add: Inr api_change_membership_def needs_second_def m1(1))
    show ?thesis
    proof (cases r2)
      case (Inl e)
      then show ?thesis using r by simp
    next
      case r2: (Inr resp2)
      let ?m2 = "em_membership (rc_effective c2)"
      obtain m2 goal2 where m2: "cwr_membership resp2 = Some m2"
        "last_opt (configs (compute_target_membership flatten_change ?m2)) = Some goal2"
        "configs m2 = find_coherent (configs ?m2) goal2" "mem_valid m2"
        using change_answer assms(2) r2 by blast
      note f = flatten_goal[OF assms(3,4) m2(2)]
      have "goal2 = goal1" if "m1 = ?m2"
        using f(1) find_coherent_last[of "configs (em_membership (rc_effective c1))" goal1] m1(3) by (simp add: that)
      moreover have "resp1 \<noteq> resp2" if "m1 \<noteq> ?m2" using False f(2) m1(1) m2(1,3) by auto
      ultimately show ?thesis using r m1 m2 f(2) False by (auto simp: Inr r2)
    qed
  qed
qed

text \<open>Once every request was read and answered, polling the stream yields the remaining results and ends it.\<close>

definition pl_left :: "pipeline \<Rightarrow> nat" where
  "pl_left s = 2 * length (pl_buffer s) + (if pl_awaited s = None then 0 else 1)"

lemma pl_drain:
  assumes "pl_inv reqs s" "\<not> pl_ended s" "pl_reader_done s" "pl_held s = None" "\<not> pl_stopped s"
    "\<forall>k < length (pl_sent s). \<exists>resp. bt_get (pl_answers s) k = Some resp \<and> resp \<noteq> Conflict \<and> (\<forall>v. resp \<noteq> HigherVote v)"
  shows "\<exists>s'. pl_run (replicate (Suc (pl_left s)) PlNext) s = Some s' \<and> pl_ended s' \<and> length (pl_out s') = length reqs
    \<and> pl_answers s' = pl_answers s \<and> pl_sent s' = pl_sent s"
  using assms
proof (induction "pl_left s" arbitrary: s)
  case 0
  then have b: "pl_buffer s = []" "pl_awaited s = None" by (auto simp: pl_left_def split: if_splits)
  then have n: "pl_next s = Some (s\<lparr>pl_ended := True\<rparr>)" using 0 by (simp add: pl_next_def pl_recv_def)
  have "reqs = pl_sent s" using 0 by (auto simp: pl_inv_def)
  moreover have "length (pl_sent s) \<le> length (pl_out s)" using 0 b by (auto simp: pl_inv_def held_items_def)
  moreover have "length (pl_out s) \<le> length (pl_sent s)" using 0 by (simp add: pl_inv_def results_of_def)
  ultimately show ?case using n 0 b by (simp add: pl_left_def)
next
  case (Suc n)
  show ?case
  proof (cases "pl_awaited s")
    case None
    then obtain p rest where b: "pl_buffer s = p # rest"
      using Suc.hyps(2) by (cases "pl_buffer s") (auto simp: pl_left_def)
    let ?s1 = "s\<lparr>pl_buffer := rest, pl_awaited := Some p\<rparr>"
    have n: "pl_next s = Some ?s1" using Suc.prems(2) b None by (simp add: pl_next_def pl_recv_def)
    have "n = pl_left ?s1" using Suc.hyps(2) b None by (simp add: pl_left_def)
    then show ?thesis
      using Suc.hyps(1)[of ?s1] pl_next_inv[OF Suc.prems(1) n] Suc.prems(2-6) n by (simp flip: Suc.hyps(2))
  next
    case (Some it)
    have h: "it # pl_buffer s = map (\<lambda>k. (k, req_log_id_range (pl_sent s ! k))) [length (pl_out s)..<length (pl_sent s)]"
      using Suc.prems Some by (simp add: pl_inv_def held_items_def)
    then have lt: "length (pl_out s) < length (pl_sent s)" by (auto intro: ccontr)
    let ?k = "length (pl_out s)"
    have it: "it = (?k, req_log_id_range (pl_sent s ! ?k))" using h lt by (simp add: upt_conv_Cons)
    obtain resp where resp: "bt_get (pl_answers s) ?k = Some resp" "resp \<noteq> Conflict" "\<forall>v. resp \<noteq> HigherVote v"
      using Suc.prems(6) lt by blast
    let ?rng = "req_log_id_range (pl_sent s ! ?k)"
    obtain l where l: "into_stream_result resp (lir_prev ?rng) (lir_last ?rng) = Some (Inr l)"
      using resp(2,3) by (cases resp) auto
    let ?s1 = "s\<lparr>pl_awaited := None, pl_out := pl_out s @ [Inr l], pl_ended := False\<rparr>"
    have n: "pl_next s = Some ?s1"
      using Suc.prems(2) Some it resp(1) l by (simp add: pl_next_def)
    have "n = pl_left ?s1" using Suc.hyps(2) Some by (simp add: pl_left_def)
    then show ?thesis
      using Suc.hyps(1)[of ?s1] pl_next_inv[OF Suc.prems(1) n] Suc.prems(3-6) n by (simp flip: Suc.hyps(2))
  qed
qed

text \<open>
  C33. The pipelined stream of append requests keeps the order: in any interleaving of the reading task, the
  task of Raft and the caller, the requests go to the task of Raft in the order of the input, the
  stream yields the results of a prefix of them, in order, each from the answer to its own request, only
  the last of them an error, and at most 66 requests are ahead of the results: the awaited one, 64 in the
  channel, and the one that waits for room. Once the input is read and all is accepted, the stream yields one result for each request and ends.
\<close>

theorem stream_append_in_order:
  assumes "pl_run evs (stream_append_new reqs) = Some s"
  shows "(\<exists>dropped. reqs = pl_sent s @ dropped @ pl_input s \<and> (dropped = [] \<or> pl_stopped s))
    \<and> (\<forall>k < length (pl_out s). \<exists>resp. bt_get (pl_answers s) k = Some resp
         \<and> into_stream_result resp (ar_prev_log_id (reqs ! k)) (req_last_log_id (reqs ! k)) = Some (pl_out s ! k)
         \<and> (isl (pl_out s ! k) \<longrightarrow> Suc k = length (pl_out s) \<and> pl_ended s))
    \<and> (\<not> pl_ended s \<longrightarrow> length (pl_sent s) \<le> length (pl_out s) + 66)
    \<and> (\<not> pl_ended s \<longrightarrow> pl_reader_done s \<longrightarrow> \<not> pl_stopped s \<longrightarrow>
         (\<forall>k < length reqs. \<exists>resp. bt_get (pl_answers s) k = Some resp \<and> resp \<noteq> Conflict \<and> (\<forall>v. resp \<noteq> HigherVote v)) \<longrightarrow>
         (\<exists>s'. pl_run (replicate (Suc (pl_left s)) PlNext) s = Some s' \<and> pl_ended s' \<and> length (pl_out s') = length reqs))"
proof -
  have inv: "pl_inv reqs s" by (rule pl_run_inv[OF stream_append_new_inv assms])
  then obtain dropped where d: "reqs = pl_sent s @ dropped @ pl_input s" "dropped = [] \<or> pl_stopped s"
    by (auto simp: pl_inv_def)
  have r: "results_of s" using inv by (simp add: pl_inv_def)
  have "\<exists>resp. bt_get (pl_answers s) k = Some resp
      \<and> into_stream_result resp (ar_prev_log_id (reqs ! k)) (req_last_log_id (reqs ! k)) = Some (pl_out s ! k)
      \<and> (isl (pl_out s ! k) \<longrightarrow> Suc k = length (pl_out s) \<and> pl_ended s)" if "k < length (pl_out s)" for k
  proof -
    have k: "reqs ! k = pl_sent s ! k" using r that d(1) by (simp add: results_of_def nth_append)
    have "\<exists>resp. bt_get (pl_answers s) k = Some resp
      \<and> into_stream_result resp (ar_prev_log_id (pl_sent s ! k)) (req_last_log_id (pl_sent s ! k)) = Some (pl_out s ! k)
      \<and> (isl (pl_out s ! k) \<longrightarrow> k = length (pl_out s) - 1 \<and> pl_ended s)"
      using r that by (simp add: results_of_def)
    moreover have "k = length (pl_out s) - 1 \<longleftrightarrow> Suc k = length (pl_out s)" using that by auto
    ultimately show ?thesis by (simp only: k)
  qed
  moreover have "length (pl_sent s) \<le> length (pl_out s) + 66" if "\<not> pl_ended s"
  proof -
    have "length (held_items s) = length (pl_sent s) - length (pl_out s)" using inv that by (simp add: pl_inv_def)
    moreover have "length (held_items s) \<le> 66"
      using inv by (auto simp: held_items_def pl_inv_def pipeline_buffer_size_def split: option.split)
    ultimately show ?thesis by simp
  qed
  moreover have "\<exists>s'. pl_run (replicate (Suc (pl_left s)) PlNext) s = Some s' \<and> pl_ended s' \<and> length (pl_out s') = length reqs"
    if "\<not> pl_ended s" "pl_reader_done s" "\<not> pl_stopped s"
      "\<forall>k < length reqs. \<exists>resp. bt_get (pl_answers s) k = Some resp \<and> resp \<noteq> Conflict \<and> (\<forall>v. resp \<noteq> HigherVote v)"
    using pl_drain[OF inv that(1,2) _ that(3)] inv that d by (auto simp: pl_inv_def)
  ultimately show ?thesis using d by blast
qed

section \<open>Witnesses\<close>

text \<open>The leader when its membership is committed.\<close>

definition settled :: "raft_core \<Rightarrow> raft_core" where
  "settled c = c\<lparr>rc_engine := (rc_engine c)\<lparr>en_state := (rc_state c)\<lparr>rs_membership_state :=
     (rs_membership_state (rc_state c))\<lparr>ms_committed := rc_effective c\<rparr>\<rparr>\<rparr>\<rparr>"

definition appended :: "raft_core \<Rightarrow> raft_core \<Rightarrow> entry option" where
  "appended c c' = (case filter (\<lambda>x. case x of AppendEntries _ _ \<Rightarrow> True | _ \<Rightarrow> False) (drop (length (rc_queue c)) (rc_queue c')) of
     [AppendEntries _ [ent]] \<Rightarrow> Some ent | _ \<Rightarrow> None)"

lemma appended_in: "appended c c' = Some ent \<Longrightarrow>
    \<exists>cv es. AppendEntries cv es \<in> set (drop (length (rc_queue c)) (rc_queue c')) \<and> ent \<in> set es"
proof -
  let ?f = "filter (\<lambda>x. case x of AppendEntries _ _ \<Rightarrow> True | _ \<Rightarrow> False) (drop (length (rc_queue c)) (rc_queue c'))"
  assume "appended c c' = Some ent"
  then obtain cv where "?f = [AppendEntries cv [ent]]"
    by (auto simp: appended_def split: list.splits command.splits)
  then have "AppendEntries cv [ent] \<in> set ?f" by simp
  then show ?thesis by (intro exI[of _ cv] exI[of _ "[ent]"]) simp
qed

lemma changes_run:
  "configs (em_membership (rc_effective led1)) = [[1, 2, 3]] \<and>
   (case change_membership (RemoveVoters [3]) True 5 led1 of None \<Rightarrow> False | Some c \<Rightarrow>
      rc_client_responders c = rc_client_responders led1 @ [(2, 5)]
      \<and> map_option (\<lambda>ent. (e_index ent, entry_get_membership ent)) (appended led1 c) = Some (2, Some (em_membership (rc_effective c)))
      \<and> em_membership (rc_effective c) = \<lparr>configs = [[1, 2, 3], [1, 2]], m_nodes = [(1, BasicNode []), (2, BasicNode []), (3, BasicNode [])]\<rparr>
      \<and> (case change_membership flatten_change True 6 (settled c) of None \<Rightarrow> False | Some c2 \<Rightarrow>
           rc_client_responders c2 = rc_client_responders (settled c) @ [(3, 6)]
           \<and> map_option e_index (appended (settled c) c2) = Some 3))"
  by code_simp

theorem change_membership_ends_uniform_witness:
  "\<exists>c2 r1 r2 resp m. answers_change (RemoveVoters [3]) True led1 r1 \<and> answers_change flatten_change True c2 r2
     \<and> api_change_membership (Inr r1) (Inr r2) = Some (Inr (Inr resp))
     \<and> cwr_membership resp = Some m \<and> configs m = [[1, 2]]"
proof -
  let ?resp = "answer_of (\<lambda>ent. kv_response (e_payload ent))"
  obtain c1 c2 ent1 ent2 where c: "change_membership (RemoveVoters [3]) True 5 led1 = Some c1"
    "change_membership flatten_change True 6 (settled c1) = Some c2"
    and q: "rc_client_responders c1 = rc_client_responders led1 @ [(e_index ent1, 5)]"
    "rc_client_responders c2 = rc_client_responders (settled c1) @ [(e_index ent2, 6)]"
    and e: "appended led1 c1 = Some ent1" "appended (settled c1) c2 = Some ent2"
    and m: "entry_get_membership ent1 = Some (em_membership (rc_effective c1))"
      "em_membership (rc_effective c1) = \<lparr>configs = [[1, 2, 3], [1, 2]], m_nodes = [(1, BasicNode []), (2, BasicNode []), (3, BasicNode [])]\<rparr>"
    using changes_run by (auto split: option.splits)
  let ?c = "settled c1"
  have "change_appends (RemoveVoters [3]) True led1 c1 5 ent1" "change_appends flatten_change True ?c c2 6 ent2"
    using c q appended_in[OF e(1)] appended_in[OF e(2)] unfolding change_appends_def by blast+
  then have a: "answers_change (RemoveVoters [3]) True led1 (Inr (?resp ent1))" "answers_change flatten_change True ?c (Inr (?resp ent2))"
    unfolding answers_change_def by auto
  have eff: "rc_effective ?c = rc_effective c1" by (simp add: settled_def)
  have wf: "mem_wf (em_membership (rc_effective ?c))" "configs (em_membership (rc_effective ?c)) \<noteq> []"
    by (simp_all add: eff m(2) mem_wf_def bt_wf_def bs_wf_def)
  have m1: "cwr_membership (?resp ent1) = Some (em_membership (rc_effective ?c))" by (simp add: answer_of_def m(1) eff)
  obtain r where r: "api_change_membership (Inr (Inr (?resp ent1))) (Inr (Inr (?resp ent2))) = Some (Inr r)"
    "\<forall>resp. r = Inr resp \<longrightarrow> (\<exists>m goal. cwr_membership resp = Some m \<and> mem_valid m \<and> configs m = [goal]
       \<and> last_opt (configs (compute_target_membership (RemoveVoters [3]) (em_membership (rc_effective led1)))) = Some goal)"
    using change_membership_ends_uniform[OF a wf] m1 by auto
  have "r = Inr (?resp ent2)" using r(1) m1 by (simp add: api_change_membership_def needs_second_def eff m(2))
  moreover have "last_opt (configs (compute_target_membership (RemoveVoters [3]) (em_membership (rc_effective led1)))) = Some [1, 2]"
    using changes_run by (simp add: last_opt_def last_config_def bs_diff_def)
  ultimately show ?thesis using a r by fastforce
qed

definition example_appends :: "append_request list" where
  "example_appends = [
     \<lparr>ar_vote = Vote (LeaderId 1 1) True, ar_prev_log_id = None, ar_entries = example_log, ar_leader_commit = None\<rparr>,
     \<lparr>ar_vote = Vote (LeaderId 1 1) True, ar_prev_log_id = Some (LogId (LeaderId 1 1) 5), ar_entries = [], ar_leader_commit = None\<rparr>]"

text \<open>The bound is reached: the stream awaits the first answer, the channel is full, and one more was sent.\<close>

lemma stream_append_66_ahead:
  "map_option (\<lambda>s. (length (pl_sent s), pl_out s, pl_ended s))
     (pl_run ([PlRead, PlPush, PlNext] @ concat (replicate 64 [PlRead, PlPush]) @ [PlRead])
       (stream_append_new (replicate 66 (hd example_appends)))) = Some (66, [], False)"
  by code_simp

theorem stream_append_in_order_witness:
  "\<exists>s resp. pl_run [PlRead, PlPush, PlRead, PlPush, PlAnswer 0 AppendSuccess, PlNext, PlNext, PlNext, PlAnswer 1 Conflict, PlNext, PlRead]
      (stream_append_new example_appends) = Some s
    \<and> pl_out s = [Inr (Some (LogId (LeaderId 1 1) 1)), Inl (StreamConflict (LogId (LeaderId 1 1) 5))]
    \<and> into_stream_result resp (ar_prev_log_id (example_appends ! 1)) (req_last_log_id (example_appends ! 1)) = Some (pl_out s ! 1)"
proof -
  obtain s where s: "pl_run [PlRead, PlPush, PlRead, PlPush, PlAnswer 0 AppendSuccess, PlNext, PlNext, PlNext, PlAnswer 1 Conflict, PlNext, PlRead]
      (stream_append_new example_appends) = Some s"
    "pl_out s = [Inr (Some (LogId (LeaderId 1 1) 1)), Inl (StreamConflict (LogId (LeaderId 1 1) 5))]"
    by (simp add: stream_append_new_def example_appends_def pl_read_def pl_push_def pl_next_def pl_recv_def pipeline_buffer_size_def
        req_log_id_range_def req_last_log_id_def last_opt_def example_log_def example_entry_def entry_new_def)
  from stream_append_in_order[OF s(1)] s show ?thesis by fastforce
qed

end
