(* ===== verification/LeaderWatch.thy ===== *)
theory LeaderWatch
imports RaftState "HOL-Library.Sublist"
begin

text \<open>
  \<^verbatim>\<open>core/io_flush_tracking/\<close> and the callbacks on leader changes of \<^verbatim>\<open>raft/mod.rs\<close>: the task of Raft publishes
  what is flushed, committed, applied and in a snapshot over watch channels; watchers see the latest
  value only. Values that come between two looks of a watcher are lost to it.
\<close>

section \<open>Watch channels\<close>

text \<open>A receiver is the version it has seen; the one that is cloned for every watcher has seen the first.\<close>

record 'a watch =
  wt_value :: 'a
  wt_version :: nat

definition watch_new :: "'a \<Rightarrow> 'a watch" where
  "watch_new x = \<lparr>wt_value = x, wt_version = 0\<rparr>"

definition send_if_different :: "'a \<Rightarrow> 'a watch \<Rightarrow> 'a watch" where
  "send_if_different x c = (if wt_value c \<noteq> x then \<lparr>wt_value = x, wt_version = Suc (wt_version c)\<rparr> else c)"

section \<open>Publishing\<close>

record flush_point =
  fp_vote :: raft_vote
  fp_last_log_id :: "log_id option"

text \<open>The derived order: the votes first, then the last log ids.\<close>

definition flush_point_le :: "flush_point \<Rightarrow> flush_point \<Rightarrow> bool" where
  "flush_point_le a b \<longleftrightarrow> fp_vote a < fp_vote b \<or> fp_vote a = fp_vote b \<and> fp_last_log_id a \<le> fp_last_log_id b"

record progress_sender =
  ps_log :: "flush_point option watch"
  ps_vote :: "raft_vote option watch"
  ps_commit :: "log_id option watch"
  ps_snapshot :: "log_id option watch"
  ps_apply :: "log_id option watch"

definition progress_new :: progress_sender where
  "progress_new = \<lparr>ps_log = watch_new None, ps_vote = watch_new None, ps_commit = watch_new None,
     ps_snapshot = watch_new None, ps_apply = watch_new None\<rparr>"

definition send_log_progress :: "io_id option \<Rightarrow> progress_sender \<Rightarrow> progress_sender" where
  "send_log_progress io_id s = (case io_id of
       None \<Rightarrow> s
     | Some i \<Rightarrow> (case io_id_to_vote_and_log_id i of (vote, lid) \<Rightarrow>
         s\<lparr>ps_vote := send_if_different (Some vote) (ps_vote s),
           ps_log := send_if_different (Some \<lparr>fp_vote = vote, fp_last_log_id = lid\<rparr>) (ps_log s)\<rparr>))"

definition send_commit_progress :: "log_id option \<Rightarrow> progress_sender \<Rightarrow> progress_sender" where
  "send_commit_progress l s = s\<lparr>ps_commit := send_if_different l (ps_commit s)\<rparr>"

definition send_snapshot_progress :: "log_id option \<Rightarrow> progress_sender \<Rightarrow> progress_sender" where
  "send_snapshot_progress l s = s\<lparr>ps_snapshot := send_if_different l (ps_snapshot s)\<rparr>"

definition send_apply_progress :: "log_id option \<Rightarrow> progress_sender \<Rightarrow> progress_sender" where
  "send_apply_progress l s = s\<lparr>ps_apply := send_if_different l (ps_apply s)\<rparr>"

text \<open>The first part of \<^verbatim>\<open>flush_metrics\<close>, at every turn of the main loop.\<close>

definition flush_progress :: "io_state \<Rightarrow> progress_sender \<Rightarrow> progress_sender" where
  "flush_progress ios s =
     send_snapshot_progress (io_flushed (ios_snapshot ios))
      (send_apply_progress (io_flushed (ios_apply_progress ios))
       (send_commit_progress (io_accepted (ios_apply_progress ios))
        (send_log_progress (io_flushed (ios_log_progress ios)) s)))"

section \<open>Watching\<close>

text \<open>\<^verbatim>\<open>wait_until\<close>: the values it finds when it wakes up, \<open>None\<close> when the sender is dropped.\<close>

fun wait_until_holds :: "('a \<Rightarrow> bool) \<Rightarrow> 'a \<Rightarrow> 'a option list \<Rightarrow> (unit + 'a) option" where
  "wait_until_holds f cur [] = (if f cur then Some (Inr cur) else None)"
| "wait_until_holds f cur (x # xs) =
     (if f cur then Some (Inr cur) else (case x of None \<Rightarrow> Some (Inl ()) | Some v \<Rightarrow> wait_until_holds f v xs))"

definition log_wait_until_ge :: "flush_point option \<Rightarrow> flush_point option \<Rightarrow> flush_point option option list
    \<Rightarrow> (unit + flush_point option) option" where
  "log_wait_until_ge target = wait_until_holds (\<lambda>x. case (target, x) of
       (None, _) \<Rightarrow> True | (Some _, None) \<Rightarrow> False | (Some t, Some v) \<Rightarrow> flush_point_le t v)"

section \<open>Callbacks on votes\<close>

text \<open>
  \<^verbatim>\<open>watch_vote_change\<close>: a task that looks at the vote whenever it changed since its last look. A callback
  is a function from the vote and its own state; what it does is the list of calls. \<open>vw_woken\<close>: \<^verbatim>\<open>changed\<close>
  has returned, which marks the version of that moment as seen, and the value is not read yet.
\<close>

record ('s, 'c) vote_watch =
  vw_vote :: "raft_vote option watch"
  vw_seen :: nat
  vw_woken :: bool
  vw_state :: 's
  vw_calls :: "'c list"
  vw_closed :: bool

definition vote_watch_new :: "raft_vote option watch \<Rightarrow> 's \<Rightarrow> ('s, 'c) vote_watch" where
  "vote_watch_new c st = \<lparr>vw_vote = c, vw_seen = 0, vw_woken = False, vw_state = st, vw_calls = [], vw_closed = False\<rparr>"

definition vote_watch_wakes :: "('s, 'c) vote_watch \<Rightarrow> ('s, 'c) vote_watch" where
  "vote_watch_wakes w =
     (if vw_closed w \<or> vw_woken w \<or> vw_seen w = wt_version (vw_vote w) then w
      else w\<lparr>vw_seen := wt_version (vw_vote w), vw_woken := True\<rparr>)"

text \<open>Then \<^verbatim>\<open>get\<close> borrows the value, which may be a newer one, without marking it as seen.\<close>

definition vote_watch_reads :: "(raft_vote \<Rightarrow> 's \<Rightarrow> 's \<times> 'c list) \<Rightarrow> ('s, 'c) vote_watch \<Rightarrow> ('s, 'c) vote_watch" where
  "vote_watch_reads callback w =
     (if \<not> vw_woken w then w
      else (let w1 = w\<lparr>vw_woken := False\<rparr> in case wt_value (vw_vote w) of
          None \<Rightarrow> w1
        | Some vote \<Rightarrow> (case callback vote (vw_state w) of (st, calls) \<Rightarrow>
            w1\<lparr>vw_state := st, vw_calls := vw_calls w @ calls\<rparr>)))"

text \<open>\<^verbatim>\<open>VoteFlushed\<close>: the vote of a flush is published. \<^verbatim>\<open>WatchCloses\<close>: the task takes the branch of
  the signal of \<^verbatim>\<open>close\<close>, or finds the sender dropped.\<close>

datatype vote_watch_event = VoteFlushed raft_vote | WatcherWakes | WatcherReads | WatchCloses

fun vote_watch_step ::
  "(raft_vote \<Rightarrow> 's \<Rightarrow> 's \<times> 'c list) \<Rightarrow> vote_watch_event \<Rightarrow> ('s, 'c) vote_watch \<Rightarrow> ('s, 'c) vote_watch" where
  "vote_watch_step callback (VoteFlushed v) w = w\<lparr>vw_vote := send_if_different (Some v) (vw_vote w)\<rparr>"
| "vote_watch_step callback WatcherWakes w = vote_watch_wakes w"
| "vote_watch_step callback WatcherReads w = vote_watch_reads callback w"
| "vote_watch_step callback WatchCloses w = w\<lparr>vw_closed := True\<rparr>"

definition vote_watch_run ::
  "(raft_vote \<Rightarrow> 's \<Rightarrow> 's \<times> 'c list) \<Rightarrow> vote_watch_event list \<Rightarrow> ('s, 'c) vote_watch \<Rightarrow> ('s, 'c) vote_watch" where
  "vote_watch_run callback evs w = fold (vote_watch_step callback) evs w"

datatype leader_call = StartLeading leader_id | StopLeading leader_id

text \<open>The callback of \<^verbatim>\<open>on_leader_change\<close>; its state is \<^verbatim>\<open>prev_leader_id\<close>.\<close>

definition leader_change_callback ::
  "nat \<Rightarrow> raft_vote \<Rightarrow> leader_id option \<Rightarrow> leader_id option \<times> leader_call list" where
  "leader_change_callback my_id vote prev =
     (let leader = vote_leader_id vote in
      if lid_node leader = my_id
      then (if vote_committed vote \<and> prev \<noteq> Some leader then (Some leader, [StartLeading leader]) else (prev, []))
      else (case prev of Some old \<Rightarrow> (None, [StopLeading old]) | None \<Rightarrow> (None, [])))"

text \<open>The callback of \<^verbatim>\<open>on_cluster_leader_change\<close>; its state is \<^verbatim>\<open>prev_vote\<close>, a call is the old and the new leader state.\<close>

definition cluster_change_callback ::
  "raft_vote \<Rightarrow> raft_vote option \<Rightarrow> raft_vote option \<times> ((leader_id \<times> bool) option \<times> (leader_id \<times> bool)) list" where
  "cluster_change_callback vote prev =
     (Some vote, if map_option vote_leader_id prev \<noteq> Some (vote_leader_id vote)
       then [(map_option (\<lambda>v. (vote_leader_id v, vote_committed v)) prev, (vote_leader_id vote, vote_committed vote))]
       else [])"

section \<open>What a reader of a watch channel may see\<close>

text \<open>
  A reader waits for a change, which marks the version as seen, and then reads the value, in two steps. Of
  the values sent it reads some, in order; one that is sent between the two steps it may read twice.
  \<open>watch_room reading current xs\<close> bounds what was read of the values \<open>xs\<close>: \<open>reading\<close> is between the steps,
  \<open>current\<close> when the last version is marked as seen.
\<close>

definition twice :: "'a list \<Rightarrow> 'a list" where
  "twice xs = concat (map (\<lambda>x. [x, x]) xs)"

lemma twice_simps [simp]: "twice [] = []" "twice (x # xs) = x # x # twice xs" "twice (xs @ ys) = twice xs @ twice ys"
  "set (twice xs) = set xs"
  by (auto simp: twice_def)

lemma sorted_twice: "sorted xs \<Longrightarrow> sorted (twice xs)"
  by (induction xs) auto

definition watch_room :: "bool \<Rightarrow> bool \<Rightarrow> 'a list \<Rightarrow> 'a list" where
  "watch_room reading current xs =
     (if xs = [] then []
      else if reading \<longleftrightarrow> current then twice (butlast xs) @ [last xs]
      else if reading then twice (butlast xs) else twice xs)"

lemma subseq_append_right: "subseq xs ys \<Longrightarrow> subseq xs (ys @ zs)"
  using subseq_rev_drop_many by blast

lemma watch_room_twice: "subseq (watch_room r q xs) (twice xs)"
  by (cases xs rule: rev_cases) (auto simp: watch_room_def intro: subseq_append_right)

lemma watch_room_snoc: "subseq ys (watch_room r q xs) \<Longrightarrow> subseq ys (watch_room r False (xs @ [x]))"
  using subseq_order.trans[OF _ watch_room_twice] by (auto simp: watch_room_def intro: subseq_append_right)

lemma watch_room_same: "subseq ys (watch_room r q xs) \<Longrightarrow> subseq ys (watch_room r q (xs @ [x]))"
  using subseq_order.trans[OF _ watch_room_twice, of ys r q xs] by (auto simp: watch_room_def intro: subseq_append_right)

lemma watch_room_wake: "watch_room True True xs = watch_room False False xs"
  by (simp add: watch_room_def)

lemma watch_room_read:
  assumes "subseq ys (watch_room True q xs)" "xs \<noteq> []"
  shows "subseq (ys @ [last xs]) (watch_room False q xs)"
proof -
  obtain zs x where xs: "xs = zs @ [x]" using assms(2) by (cases xs rule: rev_cases) auto
  have "subseq (ys @ [x]) (watch_room True q xs @ [x])" using assms(1) by (intro list_emb_append_mono) auto
  then show ?thesis by (cases q) (simp_all add: watch_room_def xs)
qed

section \<open>What watchers see\<close>

lemma flush_point_le_io:
  "a \<le> b \<Longrightarrow> flush_point_le \<lparr>fp_vote = fst (io_id_to_vote_and_log_id a), fp_last_log_id = snd (io_id_to_vote_and_log_id a)\<rparr>
     \<lparr>fp_vote = fst (io_id_to_vote_and_log_id b), fp_last_log_id = snd (io_id_to_vote_and_log_id b)\<rparr>"
  by (auto simp: less_eq_io_id_def io_id_to_vote_and_log_id_def flush_point_le_def)

lemma wait_until_holds_ok: "wait_until_holds f cur xs = Some (Inr v) \<Longrightarrow> f v \<and> (v = cur \<or> Some v \<in> set xs)"
  by (induction f cur xs rule: wait_until_holds.induct) (auto split: if_splits option.splits)

fun flushed_votes :: "vote_watch_event list \<Rightarrow> raft_vote list" where
  "flushed_votes [] = []"
| "flushed_votes (VoteFlushed v # evs) = v # flushed_votes evs"
| "flushed_votes (_ # evs) = flushed_votes evs"

text \<open>The calls of a callback for the votes it is given, one after the other.\<close>

fun calls_of :: "(raft_vote \<Rightarrow> 's \<Rightarrow> 's \<times> 'c list) \<Rightarrow> raft_vote list \<Rightarrow> 's \<Rightarrow> 's \<times> 'c list" where
  "calls_of callback [] st = (st, [])"
| "calls_of callback (v # vs) st = (case callback v st of (st1, cs) \<Rightarrow>
     (case calls_of callback vs st1 of (st2, ds) \<Rightarrow> (st2, cs @ ds)))"

lemma calls_of_append:
  "calls_of cb (xs @ ys) st = (case calls_of cb xs st of (st1, cs) \<Rightarrow> (case calls_of cb ys st1 of (st2, ds) \<Rightarrow> (st2, cs @ ds)))"
  by (induction xs arbitrary: st) (auto split: prod.splits)

text \<open>The votes seen are some of those flushed, in order, and the last flushed one unless there is a change to see.\<close>

definition saw :: "(raft_vote \<Rightarrow> 's \<Rightarrow> 's \<times> 'c list) \<Rightarrow> 's \<Rightarrow> raft_vote list \<Rightarrow> raft_vote list \<Rightarrow> ('s, 'c) vote_watch \<Rightarrow> bool" where
  "saw cb st0 flushed seen w \<longleftrightarrow>
     subseq seen (watch_room (vw_woken w) (vw_seen w = wt_version (vw_vote w)) flushed)
     \<and> calls_of cb seen st0 = (vw_state w, vw_calls w)
     \<and> wt_value (vw_vote w) = (if flushed = [] then None else Some (last flushed))
     \<and> vw_seen w \<le> wt_version (vw_vote w) \<and> (flushed = [] \<longleftrightarrow> wt_version (vw_vote w) = 0)
     \<and> (vw_woken w \<longrightarrow> flushed \<noteq> [])
     \<and> (vw_seen w = wt_version (vw_vote w) \<longrightarrow> \<not> vw_woken w \<longrightarrow> flushed \<noteq> [] \<longrightarrow> seen \<noteq> [] \<and> last seen = last flushed)"

lemma saw_new: "saw cb st [] [] (vote_watch_new (watch_new None) st)"
  by (simp add: saw_def vote_watch_new_def watch_new_def)

lemma saw_step:
  assumes "saw cb st0 flushed seen w"
  shows "\<exists>seen'. saw cb st0 (flushed @ flushed_votes [ev]) seen' (vote_watch_step cb ev w)"
proof (cases ev)
  case (VoteFlushed v)
  show ?thesis
  proof (cases "wt_value (vw_vote w) = Some v")
    case True
    then have "flushed \<noteq> [] \<and> last flushed = v" using assms by (auto simp: saw_def split: if_splits)
    then have "saw cb st0 (flushed @ [v]) seen (vote_watch_step cb ev w)"
      using assms True by (auto simp: VoteFlushed saw_def send_if_different_def intro: watch_room_same)
    then show ?thesis using VoteFlushed by auto
  next
    case False
    then have "saw cb st0 (flushed @ [v]) seen (vote_watch_step cb ev w)"
      using assms by (auto simp: VoteFlushed saw_def send_if_different_def intro: watch_room_snoc)
    then show ?thesis using VoteFlushed by auto
  qed
next
  case WatcherWakes
  have "saw cb st0 flushed seen (vote_watch_wakes w)"
    using assms by (auto simp: saw_def vote_watch_wakes_def watch_room_wake)
  then show ?thesis using WatcherWakes by auto
next
  case WatcherReads
  show ?thesis
  proof (cases "vw_woken w")
    case True
    then have ne: "flushed \<noteq> []" using assms by (auto simp: saw_def)
    have r: "subseq (seen @ [last flushed]) (watch_room False (vw_seen w = wt_version (vw_vote w)) flushed)"
      by (rule watch_room_read[OF _ ne]) (use assms True in \<open>simp add: saw_def\<close>)
    have "saw cb st0 flushed (seen @ [last flushed]) (vote_watch_reads cb w)"
      using assms True ne r by (auto simp: saw_def vote_watch_reads_def calls_of_append Let_def split: prod.splits)
    then show ?thesis using WatcherReads by auto
  qed (use assms WatcherReads in \<open>auto simp: vote_watch_reads_def\<close>)
next
  case WatchCloses
  then show ?thesis using assms by (auto simp: saw_def)
qed

lemma flushed_votes_Cons: "flushed_votes (ev # evs) = flushed_votes [ev] @ flushed_votes evs"
  by (cases ev) auto

lemma saw_run:
  "saw cb st0 flushed seen w \<Longrightarrow> \<exists>seen'. saw cb st0 (flushed @ flushed_votes evs) seen' (vote_watch_run cb evs w)"
proof (induction evs arbitrary: flushed seen w)
  case (Cons ev evs)
  obtain seen1 where "saw cb st0 (flushed @ flushed_votes [ev]) seen1 (vote_watch_step cb ev w)"
    using saw_step[OF Cons.prems] by blast
  from Cons.IH[OF this] show ?case by (simp add: vote_watch_run_def flushed_votes_Cons[of ev evs])
qed (auto simp: vote_watch_run_def)

lemma saw_sorted:
  assumes "saw cb st0 flushed seen w" "sorted flushed"
  shows "sorted seen" "set seen \<subseteq> set flushed"
proof -
  have "subseq xs ys \<Longrightarrow> sorted ys \<Longrightarrow> sorted xs \<and> set xs \<subseteq> set ys" for xs ys :: "raft_vote list"
    by (induction xs ys rule: list_emb.induct) auto
  moreover have "subseq seen (twice flushed)"
    using assms(1) subseq_order.trans[OF _ watch_room_twice] by (auto simp: saw_def)
  ultimately show "sorted seen" "set seen \<subseteq> set flushed" using sorted_twice[OF assms(2)] by fastforce+
qed

section \<open>What callbacks are told\<close>

fun starts :: "leader_call list \<Rightarrow> leader_id list" where
  "starts [] = []"
| "starts (StartLeading l # cs) = l # starts cs"
| "starts (StopLeading l # cs) = starts cs"

lemma starts_append [simp]: "starts (xs @ ys) = starts xs @ starts ys"
  by (induction xs rule: starts.induct) auto

lemma starts_iff: "l \<in> set (starts cs) \<longleftrightarrow> StartLeading l \<in> set cs"
  by (induction cs rule: starts.induct) auto

definition leader_calls_ok :: "nat \<Rightarrow> raft_vote list \<Rightarrow> leader_id option \<Rightarrow> leader_call list \<Rightarrow> bool" where
  "leader_calls_ok me vs prev cs \<longleftrightarrow>
     (\<forall>l \<in> set (starts cs). lid_node l = me \<and> Vote l True \<in> set vs)
     \<and> sorted_wrt (<) (starts cs)
     \<and> (\<forall>i l. i < length cs \<longrightarrow> cs ! i = StopLeading l \<longrightarrow> 0 < i \<and> cs ! (i - 1) = StartLeading l)
     \<and> (case prev of Some l \<Rightarrow> cs \<noteq> [] \<and> last cs = StartLeading l | None \<Rightarrow> cs = [] \<or> (\<exists>l. last cs = StopLeading l))
     \<and> (vs = [] \<longrightarrow> cs = [])
     \<and> (vs \<noteq> [] \<longrightarrow> (\<forall>l \<in> set (starts cs). l < vote_leader_id (last vs) \<or> l = vote_leader_id (last vs) \<and> prev = Some l))
     \<and> (vs \<noteq> [] \<longrightarrow> lid_node (vote_leader_id (last vs)) \<noteq> me \<longrightarrow> prev = None)
     \<and> (vs \<noteq> [] \<longrightarrow> lid_node (vote_leader_id (last vs)) = me \<longrightarrow> vote_committed (last vs) \<longrightarrow> prev = Some (vote_leader_id (last vs)))"

lemma leader_calls:
  "sorted vs \<Longrightarrow> calls_of (leader_change_callback me) vs None = (prev, cs) \<Longrightarrow> leader_calls_ok me vs prev cs"
proof (induction vs arbitrary: prev cs rule: rev_induct)
  case Nil
  then show ?case by (simp add: leader_calls_ok_def)
next
  case (snoc v vs)
  obtain prev0 cs0 where c0: "calls_of (leader_change_callback me) vs None = (prev0, cs0)" by fastforce
  have ok: "leader_calls_ok me vs prev0 cs0" using snoc.IH[OF _ c0] snoc.prems(1) by (simp add: sorted_append)
  have c: "leader_change_callback me v prev0 = (prev, drop (length cs0) cs)" "cs = cs0 @ drop (length cs0) cs"
    using snoc.prems(2) c0 by (auto simp: calls_of_append split: prod.splits)
  let ?l = "vote_leader_id v"
  have le: "vote_leader_id (last vs) \<le> ?l" if "vs \<noteq> []"
  proof -
    have "last vs \<le> v" using snoc.prems(1) that by (simp add: sorted_append)
    then show ?thesis by (auto simp: vote_le_iff)
  qed
  have older: "l < ?l \<or> l = ?l \<and> prev0 = Some l" if "l \<in> set (starts cs0)" for l
  proof -
    have "vs \<noteq> []" using ok that by (auto simp: leader_calls_ok_def)
    then show ?thesis using ok that le by (fastforce simp: leader_calls_ok_def)
  qed
  show ?case
  proof (cases "lid_node ?l = me")
    case True
    show ?thesis
    proof (cases "vote_committed v \<and> prev0 \<noteq> Some ?l")
      case starting: True
      then have *: "prev = Some ?l" "cs = cs0 @ [StartLeading ?l]"
        using c True by (auto simp: leader_change_callback_def Let_def)
      have v: "v = Vote ?l True" using starting by (cases v) auto
      have below: "\<forall>l \<in> set (starts cs0). l < ?l" using older starting by auto
      have "\<forall>l \<in> set (starts cs0). lid_node l = me \<and> Vote l True \<in> set vs" "sorted_wrt (<) (starts cs0)"
        using ok by (simp_all add: leader_calls_ok_def)
      moreover have "0 < i \<and> cs ! (i - 1) = StartLeading l" if "i < length cs" "cs ! i = StopLeading l" for i l
      proof -
        have i: "i < length cs0" "cs0 ! i = StopLeading l" using that by (auto simp: * nth_append less_Suc_eq split: if_splits)
        then have "0 < i \<and> cs0 ! (i - 1) = StartLeading l" using ok by (simp add: leader_calls_ok_def)
        then show ?thesis using i(1) by (auto simp: * nth_append)
      qed
      ultimately show ?thesis using True v below unfolding leader_calls_ok_def *(1)
        by (simp add: *(2) sorted_wrt_append)
    next
      case False
      then have *: "prev = prev0" "cs = cs0" using c True by (auto simp: leader_change_callback_def Let_def)
      then show ?thesis using ok True False older
        by (auto simp: leader_calls_ok_def)
    qed
  next
    case False
    show ?thesis
    proof (cases prev0)
      case None
      then have *: "prev = None" "cs = cs0" using c False by (auto simp: leader_change_callback_def Let_def)
      then show ?thesis using ok False older None by (auto simp: leader_calls_ok_def)
    next
      case (Some old)
      then have *: "prev = None" "cs = cs0 @ [StopLeading old]"
        using c False by (auto simp: leader_change_callback_def Let_def)
      have l0: "cs0 \<noteq> []" "last cs0 = StartLeading old" using ok Some by (simp_all add: leader_calls_ok_def)
      have below: "\<forall>l \<in> set (starts cs0). l < ?l"
        using older ok False by (auto simp: leader_calls_ok_def)
      have "\<forall>l \<in> set (starts cs0). lid_node l = me \<and> Vote l True \<in> set vs" "sorted_wrt (<) (starts cs0)"
        using ok by (simp_all add: leader_calls_ok_def)
      moreover have "0 < i \<and> cs ! (i - 1) = StartLeading l" if "i < length cs" "cs ! i = StopLeading l" for i l
      proof (cases "i < length cs0")
        case True
        then have "0 < i \<and> cs0 ! (i - 1) = StartLeading l" using ok that by (simp add: leader_calls_ok_def * nth_append)
        then show ?thesis using True by (auto simp: * nth_append)
      next
        case False
        then have "i = length cs0" "l = old" using that by (auto simp: * less_Suc_eq)
        then show ?thesis using l0 by (simp add: * nth_append last_conv_nth)
      qed
      ultimately show ?thesis using False below unfolding leader_calls_ok_def *(1)
        by (simp add: *(2))
    qed
  qed
qed

definition cluster_calls_ok :: "raft_vote list \<Rightarrow> raft_vote option \<Rightarrow> ((leader_id \<times> bool) option \<times> (leader_id \<times> bool)) list \<Rightarrow> bool" where
  "cluster_calls_ok vs prev cs \<longleftrightarrow> prev = (if vs = [] then None else Some (last vs))
     \<and> sorted_wrt (<) (map (\<lambda>c. fst (snd c)) cs)
     \<and> (\<forall>(old, (l, c)) \<in> set cs. Vote l c \<in> set vs \<and> l \<le> vote_leader_id (last vs))
     \<and> (vs = [] \<longrightarrow> cs = []) \<and> (vs \<noteq> [] \<longrightarrow> cs \<noteq> [] \<and> fst (snd (last cs)) = vote_leader_id (last vs))"

lemma cluster_calls:
  "sorted vs \<Longrightarrow> calls_of cluster_change_callback vs None = (prev, cs) \<Longrightarrow> cluster_calls_ok vs prev cs"
proof (induction vs arbitrary: prev cs rule: rev_induct)
  case (snoc v vs)
  obtain prev0 cs0 where c0: "calls_of cluster_change_callback vs None = (prev0, cs0)" by fastforce
  have ok: "cluster_calls_ok vs prev0 cs0" using snoc.IH[OF _ c0] snoc.prems(1) by (simp add: sorted_append)
  have c: "cluster_change_callback v prev0 = (prev, drop (length cs0) cs)" "cs = cs0 @ drop (length cs0) cs"
    using snoc.prems(2) c0 by (auto simp: calls_of_append split: prod.splits)
  have le: "vote_leader_id (last vs) \<le> vote_leader_id v" if "vs \<noteq> []"
  proof -
    have "last vs \<le> v" using snoc.prems(1) that by (simp add: sorted_append)
    then show ?thesis by (auto simp: vote_le_iff)
  qed
  have prev: "prev = Some v" using c(1) by (simp add: cluster_change_callback_def)
  show ?case
  proof (cases "map_option vote_leader_id prev0 = Some (vote_leader_id v)")
    case True
    then have "cs = cs0" using c by (simp add: cluster_change_callback_def)
    moreover have "vs \<noteq> []" using True ok by (auto simp: cluster_calls_ok_def)
    moreover from this have "vote_leader_id (last vs) = vote_leader_id v" using True ok by (simp add: cluster_calls_ok_def)
    ultimately show ?thesis using ok prev by (auto simp: cluster_calls_ok_def)
  next
    case False
    have cs: "cs = cs0 @ [(map_option (\<lambda>v. (vote_leader_id v, vote_committed v)) prev0, (vote_leader_id v, vote_committed v))]"
      using c False by (simp add: cluster_change_callback_def)
    have "l < vote_leader_id v" if "(old, (l, b)) \<in> set cs0" for old l b
    proof -
      have "vs \<noteq> []" "l \<le> vote_leader_id (last vs)" using ok that by (auto simp: cluster_calls_ok_def)
      moreover have "vote_leader_id (last vs) \<noteq> vote_leader_id v" using False ok \<open>vs \<noteq> []\<close> by (simp add: cluster_calls_ok_def)
      ultimately show ?thesis using le by (meson le_less_trans order_less_le)
    qed
    then show ?thesis using ok prev
      by (cases v) (fastforce simp: cluster_calls_ok_def cs sorted_wrt_append)
  qed
qed (simp add: cluster_calls_ok_def)

section \<open>Properties\<close>

text \<open>
  C34. The callbacks of \<^verbatim>\<open>on_leader_change\<close>, in any interleaving of flushed votes that do not decrease and looks of
  the watching task: \<^verbatim>\<open>start\<close> is called for a leader id of this node only if its committed vote was flushed,
  at most once and in increasing order; \<^verbatim>\<open>stop\<close> is called only right after the \<^verbatim>\<open>start\<close> of the same id. Once
  the task has seen the last vote, the last call is \<^verbatim>\<open>start\<close> when it is a committed vote of this node, and
  not a \<^verbatim>\<open>start\<close> when it is a vote of another node.
\<close>

theorem leader_callbacks_spec:
  assumes "sorted (flushed_votes evs)"
    "w = vote_watch_run (leader_change_callback me) evs (vote_watch_new (watch_new None) None)"
  shows "(\<forall>l. StartLeading l \<in> set (vw_calls w) \<longrightarrow> lid_node l = me \<and> Vote l True \<in> set (flushed_votes evs))
    \<and> sorted_wrt (<) (starts (vw_calls w))
    \<and> (\<forall>i < length (vw_calls w). \<forall>l. vw_calls w ! i = StopLeading l \<longrightarrow> 0 < i \<and> vw_calls w ! (i - 1) = StartLeading l)
    \<and> (vw_seen w = wt_version (vw_vote w) \<longrightarrow> \<not> vw_woken w \<longrightarrow> flushed_votes evs \<noteq> [] \<longrightarrow>
         (case last (flushed_votes evs) of Vote l c \<Rightarrow>
            (lid_node l = me \<and> c \<longrightarrow> vw_calls w \<noteq> [] \<and> last (vw_calls w) = StartLeading l)
            \<and> (lid_node l \<noteq> me \<longrightarrow> vw_calls w = [] \<or> (\<exists>old. last (vw_calls w) = StopLeading old))))"
proof -
  obtain seen where s: "saw (leader_change_callback me) None (flushed_votes evs) seen w"
    using saw_run[OF saw_new, where cb = "leader_change_callback me" and evs = evs] assms(2) by auto
  have seen: "sorted seen" "set seen \<subseteq> set (flushed_votes evs)" using saw_sorted[OF s assms(1)] .
  have ok: "leader_calls_ok me seen (vw_state w) (vw_calls w)"
    using leader_calls[OF seen(1)] s by (auto simp: saw_def)
  have "case last (flushed_votes evs) of Vote l c \<Rightarrow>
            (lid_node l = me \<and> c \<longrightarrow> vw_calls w \<noteq> [] \<and> last (vw_calls w) = StartLeading l)
            \<and> (lid_node l \<noteq> me \<longrightarrow> vw_calls w = [] \<or> (\<exists>old. last (vw_calls w) = StopLeading old))"
    if "vw_seen w = wt_version (vw_vote w)" "\<not> vw_woken w" "flushed_votes evs \<noteq> []"
  proof -
    have "seen \<noteq> []" "last seen = last (flushed_votes evs)" using s that by (auto simp: saw_def)
    then show ?thesis using ok by (cases "last (flushed_votes evs)") (auto simp: leader_calls_ok_def)
  qed
  then show ?thesis using ok seen(2) by (auto simp: leader_calls_ok_def starts_iff)
qed

text \<open>
  C35. What the callbacks do not tell. \<^verbatim>\<open>on_cluster_leader_change\<close> reports every leader id once: when it was reported
  before its vote was committed, that it became the committed leader is never reported. A leader that
  runs for election again in a later term is not stopped by \<^verbatim>\<open>on_leader_change\<close> and, when it wins, is
  started a second time.
\<close>

theorem leader_changes_untold:
  assumes "sorted (flushed_votes evs)"
    "w = vote_watch_run cluster_change_callback evs (vote_watch_new (watch_new None) None)" "t < t'"
  shows "((old, (l, False)) \<in> set (vw_calls w) \<longrightarrow> (old', (l, True)) \<notin> set (vw_calls w))
    \<and> vw_calls (vote_watch_run (leader_change_callback me)
        [VoteFlushed (Vote (LeaderId t me) True), WatcherWakes, WatcherReads, VoteFlushed (Vote (LeaderId t' me) False), WatcherWakes, WatcherReads]
        (vote_watch_new (watch_new None) None)) = [StartLeading (LeaderId t me)]
    \<and> vw_calls (vote_watch_run (leader_change_callback me)
        [VoteFlushed (Vote (LeaderId t me) True), WatcherWakes, WatcherReads, VoteFlushed (Vote (LeaderId t' me) False), WatcherWakes, WatcherReads,
         VoteFlushed (Vote (LeaderId t' me) True), WatcherWakes, WatcherReads]
        (vote_watch_new (watch_new None) None)) = [StartLeading (LeaderId t me), StartLeading (LeaderId t' me)]"
proof -
  obtain seen where s: "saw cluster_change_callback None (flushed_votes evs) seen w"
    using saw_run[OF saw_new, where cb = cluster_change_callback and evs = evs] assms(2) by auto
  have "cluster_calls_ok seen (vw_state w) (vw_calls w)"
    using cluster_calls[OF saw_sorted(1)[OF s assms(1)]] s by (auto simp: saw_def)
  then have "distinct (map (\<lambda>c. fst (snd c)) (vw_calls w))"
    by (simp add: cluster_calls_ok_def strict_sorted_iff)
  then have "(old, (l, False)) \<in> set (vw_calls w) \<longrightarrow> (old', (l, True)) \<notin> set (vw_calls w)"
    by (fastforce simp: distinct_map inj_on_def)
  then show ?thesis using assms(3)
    by (simp add: vote_watch_run_def vote_watch_new_def watch_new_def send_if_different_def vote_watch_wakes_def vote_watch_reads_def
        leader_change_callback_def Let_def)
qed

theorem leader_callbacks_spec_witness:
  "\<exists>w. w = vote_watch_run (leader_change_callback 1)
      [VoteFlushed (Vote (LeaderId 1 1) False), VoteFlushed (Vote (LeaderId 1 1) True), WatcherWakes, WatcherReads,
       VoteFlushed (Vote (LeaderId 2 3) False), WatcherWakes, WatcherReads] (vote_watch_new (watch_new None) None)
    \<and> vw_calls w = [StartLeading (LeaderId 1 1), StopLeading (LeaderId 1 1)] \<and> sorted_wrt (<) (starts (vw_calls w))"
proof -
  let ?evs = "[VoteFlushed (Vote (LeaderId 1 1) False), VoteFlushed (Vote (LeaderId 1 1) True), WatcherWakes, WatcherReads,
       VoteFlushed (Vote (LeaderId 2 3) False), WatcherWakes, WatcherReads]"
  have "sorted (flushed_votes ?evs)" by (simp add: vote_le_iff leader_id_less_iff)
  from leader_callbacks_spec[OF this refl, of 1]
  show ?thesis
    by (intro exI[of _ "vote_watch_run (leader_change_callback 1) ?evs (vote_watch_new (watch_new None) None)"])
      (simp add: vote_watch_run_def vote_watch_new_def watch_new_def send_if_different_def vote_watch_wakes_def vote_watch_reads_def
        leader_change_callback_def Let_def)
qed

text \<open>The example of the documentation, which starts its services when the reported leader is committed, never does.\<close>

theorem leader_changes_untold_witness:
  "\<exists>w. w = vote_watch_run cluster_change_callback
      [VoteFlushed (Vote (LeaderId 1 1) False), WatcherWakes, WatcherReads, VoteFlushed (Vote (LeaderId 1 1) True), WatcherWakes, WatcherReads]
      (vote_watch_new (watch_new None) None)
    \<and> vw_calls w = [(None, (LeaderId 1 1, False))] \<and> (None, (LeaderId 1 1, True)) \<notin> set (vw_calls w)"
proof -
  let ?evs = "[VoteFlushed (Vote (LeaderId 1 1) False), WatcherWakes, WatcherReads, VoteFlushed (Vote (LeaderId 1 1) True), WatcherWakes, WatcherReads]"
  let ?w = "vote_watch_run cluster_change_callback ?evs (vote_watch_new (watch_new None) None)"
  have s: "sorted (flushed_votes ?evs)" by (simp add: vote_le_iff)
  have c: "vw_calls ?w = [(None, (LeaderId 1 1, False))]"
    by (simp add: vote_watch_run_def vote_watch_new_def watch_new_def send_if_different_def vote_watch_wakes_def vote_watch_reads_def
        cluster_change_callback_def Let_def)
  from leader_changes_untold[OF s refl, of 1 2 None "LeaderId 1 1" None 1] c show ?thesis by auto
qed

end
