(* ===== verification/Heartbeat.thy ===== *)
theory Heartbeat
imports CoreProperties LeaderWatch Replication
begin

text \<open>
  \<^verbatim>\<open>core/heartbeat/\<close> and \<^verbatim>\<open>core/tick.rs\<close>: the tasks beside the task of Raft. A heartbeat worker per target
  sends the newest heartbeat the leader asked for and reports the answer; the tick task wakes up the
  main loop. Both are machines over what happens to them, in any order.
\<close>

section \<open>One heartbeat\<close>

text \<open>The request of a heartbeat carries no entries; it may make the follower truncate all the same.\<close>

definition heartbeat_request :: "heartbeat_event \<Rightarrow> append_request" where
  "heartbeat_request ev = \<lparr>ar_vote = cv_into_vote (rsi_leader_vote (hb_session_id ev)),
     ar_prev_log_id = hb_matching ev, ar_entries = [], ar_leader_commit = hb_committed ev\<rparr>"

text \<open>
  What the task of Raft is told about an answer. A conflict is at the matching log id the heartbeat was
  sent with, unwrapped.
\<close>

definition heartbeat_notifications :: "nat \<Rightarrow> heartbeat_event \<Rightarrow> append_entries_response \<Rightarrow> notification list panics" where
  "heartbeat_notifications target ev resp = do {
     ns \<leftarrow> (case resp of
         AppendSuccess \<Rightarrow> Some []
       | PartialSuccess matching \<Rightarrow> Some []
       | HigherVote vote \<Rightarrow> Some [NHigherVote target vote (rsi_leader_vote (hb_session_id ev))]
       | Conflict \<Rightarrow> do {
           conflict \<leftarrow> hb_matching ev;
           Some [NReplicationProgress (hb_session_id ev) target (Inr (Inl conflict)) None] });
     Some (ns @ [NHeartbeatProgress (hb_session_id ev) (hb_time ev) target]) }"

section \<open>The worker of a target\<close>

text \<open>What comes of a request: a timeout, an error of the network, or an answer.\<close>

datatype heartbeat_answer = HeartbeatTimeout | HeartbeatFailed rpc_error | HeartbeatAnswered append_entries_response

datatype heartbeat_stop = RaftCoreClosed | ReceivedShutdown

datatype heartbeat_end = WorkerReturned heartbeat_stop | WorkerPanicked

text \<open>
  The channel of the events, shut when the handle with both senders is dropped; the request that is
  in flight; the notifications of the last answer that are still to be sent. The last three fields are
  what the worker has sent, and the answers it got. \<open>hw_woken\<close>: \<^verbatim>\<open>changed\<close> has returned, which marks the
  version of that moment as seen, and the value is not read yet.
\<close>

record heartbeat_worker =
  hw_target :: nat
  hw_rx :: "heartbeat_event option watch"
  hw_seen :: nat
  hw_woken :: bool
  hw_dropped :: bool
  hw_core_closed :: bool
  hw_flight :: "heartbeat_event option"
  hw_pending :: "notification list"
  hw_end :: "heartbeat_end option"
  hw_requests :: "heartbeat_event list"
  hw_answers :: "(heartbeat_event \<times> append_entries_response) list"
  hw_sent :: "notification list"

definition heartbeat_worker_new :: "nat \<Rightarrow> heartbeat_worker" where
  "heartbeat_worker_new target = \<lparr>hw_target = target, hw_rx = watch_new None, hw_seen = 0, hw_woken = False, hw_dropped = False,
     hw_core_closed = False, hw_flight = None, hw_pending = [], hw_end = None,
     hw_requests = [], hw_answers = [], hw_sent = []\<rparr>"

text \<open>At the \<^verbatim>\<open>select!\<close> of the loop.\<close>

definition hw_waiting :: "heartbeat_worker \<Rightarrow> bool" where
  "hw_waiting w \<longleftrightarrow> hw_end w = None \<and> \<not> hw_woken w \<and> hw_flight w = None \<and> hw_pending w = []"

text \<open>\<^verbatim>\<open>send\<close> of a watch channel: always a change, even to an equal value.\<close>

definition watch_send :: "'a \<Rightarrow> 'a watch \<Rightarrow> 'a watch" where
  "watch_send x c = \<lparr>wt_value = x, wt_version = Suc (wt_version c)\<rparr>"

definition hw_broadcast :: "heartbeat_event \<Rightarrow> heartbeat_worker \<Rightarrow> heartbeat_worker" where
  "hw_broadcast ev w = (if hw_dropped w then w else w\<lparr>hw_rx := watch_send (Some ev) (hw_rx w)\<rparr>)"

text \<open>The branch of the shutdown signal: taken when its sender is dropped.\<close>

definition hw_sees_shutdown :: "heartbeat_worker \<Rightarrow> heartbeat_worker" where
  "hw_sees_shutdown w =
     (if hw_waiting w \<and> hw_dropped w then w\<lparr>hw_end := Some (WorkerReturned ReceivedShutdown)\<rparr> else w)"

text \<open>
  The other branch: \<^verbatim>\<open>changed\<close> returns on a change, and with an error when the sender is dropped. The
  error is not looked at.
\<close>

definition hw_sees_change :: "heartbeat_worker \<Rightarrow> heartbeat_worker" where
  "hw_sees_change w =
     (if hw_waiting w \<and> (hw_seen w \<noteq> wt_version (hw_rx w) \<or> hw_dropped w)
      then w\<lparr>hw_seen := wt_version (hw_rx w), hw_woken := True\<rparr> else w)"

text \<open>
  Then \<^verbatim>\<open>borrow_watched\<close> reads the value, which may be a newer one, without marking it as seen, and a
  heartbeat is sent with it.
\<close>

definition hw_reads :: "heartbeat_worker \<Rightarrow> heartbeat_worker" where
  "hw_reads w =
     (if \<not> hw_woken w then w
      else (let w1 = w\<lparr>hw_woken := False\<rparr> in
        case wt_value (hw_rx w) of
          None \<Rightarrow> w1
        | Some ev \<Rightarrow> w1\<lparr>hw_flight := Some ev, hw_requests := hw_requests w @ [ev]\<rparr>))"

definition hw_answer :: "heartbeat_answer \<Rightarrow> heartbeat_worker \<Rightarrow> heartbeat_worker" where
  "hw_answer a w =
     (case hw_flight w of
        None \<Rightarrow> w
      | Some ev \<Rightarrow> (case a of
          HeartbeatTimeout \<Rightarrow> w\<lparr>hw_flight := None\<rparr>
        | HeartbeatFailed err \<Rightarrow> w\<lparr>hw_flight := None\<rparr>
        | HeartbeatAnswered resp \<Rightarrow> (case heartbeat_notifications (hw_target w) ev resp of
            None \<Rightarrow> w\<lparr>hw_flight := None, hw_end := Some WorkerPanicked\<rparr>
          | Some ns \<Rightarrow> w\<lparr>hw_flight := None, hw_pending := ns, hw_answers := hw_answers w @ [(ev, resp)]\<rparr>)))"

text \<open>One \<^verbatim>\<open>send_notification\<close>.\<close>

definition hw_notify :: "heartbeat_worker \<Rightarrow> heartbeat_worker" where
  "hw_notify w =
     (case (hw_end w, hw_pending w) of
        (None, n # ns) \<Rightarrow>
          if hw_core_closed w then w\<lparr>hw_pending := [], hw_end := Some (WorkerReturned RaftCoreClosed)\<rparr>
          else w\<lparr>hw_pending := ns, hw_sent := hw_sent w @ [n]\<rparr>
      | _ \<Rightarrow> w)"

datatype heartbeat_move =
    HbBroadcast heartbeat_event
  | HbDropHandle
  | HbCoreCloses
  | HbSeesShutdown
  | HbSeesChange
  | HbReads
  | HbAnswer heartbeat_answer
  | HbNotify

fun heartbeat_step :: "heartbeat_move \<Rightarrow> heartbeat_worker \<Rightarrow> heartbeat_worker" where
  "heartbeat_step (HbBroadcast ev) w = hw_broadcast ev w"
| "heartbeat_step HbDropHandle w = w\<lparr>hw_dropped := True\<rparr>"
| "heartbeat_step HbCoreCloses w = w\<lparr>hw_core_closed := True\<rparr>"
| "heartbeat_step HbSeesShutdown w = hw_sees_shutdown w"
| "heartbeat_step HbSeesChange w = hw_sees_change w"
| "heartbeat_step HbReads w = hw_reads w"
| "heartbeat_step (HbAnswer a) w = hw_answer a w"
| "heartbeat_step HbNotify w = hw_notify w"

definition heartbeat_run :: "heartbeat_move list \<Rightarrow> heartbeat_worker \<Rightarrow> heartbeat_worker" where
  "heartbeat_run steps w = fold heartbeat_step steps w"

section \<open>The handle of the workers\<close>

text \<open>The workers in the map, and those whose handle was dropped, which go on until they see it.\<close>

record heartbeat_workers =
  hs_workers :: "(nat, heartbeat_worker) bt_map"
  hs_left :: "heartbeat_worker list"

definition heartbeat_workers_new :: heartbeat_workers where
  "heartbeat_workers_new = \<lparr>hs_workers = [], hs_left = []\<rparr>"

fun hs_broadcast :: "(nat \<times> heartbeat_event) list \<Rightarrow> heartbeat_workers \<Rightarrow> heartbeat_workers panics" where
  "hs_broadcast [] h = Some h"
| "hs_broadcast ((target, ev) # events) h = do {
     w \<leftarrow> bt_get (hs_workers h) target;
     hs_broadcast events (h\<lparr>hs_workers := bt_insert target (hw_broadcast ev w) (hs_workers h)\<rparr>) }"

text \<open>An insert over a worker that is there drops its handle.\<close>

definition hs_spawn :: "nat \<Rightarrow> heartbeat_workers \<Rightarrow> heartbeat_workers" where
  "hs_spawn target h =
     \<lparr>hs_workers = bt_insert target (heartbeat_worker_new target) (hs_workers h),
      hs_left = hs_left h @ (case bt_get (hs_workers h) target of Some w \<Rightarrow> [w\<lparr>hw_dropped := True\<rparr>] | None \<Rightarrow> [])\<rparr>"

definition hs_spawn_workers :: "nat list \<Rightarrow> heartbeat_workers \<Rightarrow> heartbeat_workers" where
  "hs_spawn_workers targets h = fold hs_spawn targets h"

definition hs_shutdown :: "heartbeat_workers \<Rightarrow> heartbeat_workers" where
  "hs_shutdown h = \<lparr>hs_workers = [], hs_left = hs_left h @ map (\<lambda>(_, w). w\<lparr>hw_dropped := True\<rparr>) (hs_workers h)\<rparr>"

section \<open>Ticks\<close>

text \<open>The interval, from \<^verbatim>\<open>Raft::new\<close>, in milliseconds: half a heartbeat longer than a heartbeat.\<close>

definition tick_interval :: "nat \<Rightarrow> nat" where
  "tick_interval heartbeat_interval = heartbeat_interval * 3 div 2"

datatype tick_phase = TickSleeps | TickSends nat | TickEnded

text \<open>The task, and the handle: the sender of the shutdown signal and the handle to join, while they are not taken.\<close>

record tick_task =
  tk_phase :: tick_phase
  tk_i :: nat
  tk_enabled :: bool
  tk_cancelled :: bool
  tk_core_closed :: bool
  tk_sent :: "notification list"
  tk_shutdown :: bool
  tk_join_handle :: bool

definition tick_spawn :: "bool \<Rightarrow> tick_task" where
  "tick_spawn enabled = \<lparr>tk_phase = TickSleeps, tk_i = 0, tk_enabled = enabled, tk_cancelled = False,
     tk_core_closed = False, tk_sent = [], tk_shutdown = True, tk_join_handle = True\<rparr>"

text \<open>\<^verbatim>\<open>select\<close> polls the signal first: a sleep that is over does not win against it.\<close>

definition tick_poll :: "bool \<Rightarrow> tick_task \<Rightarrow> tick_task" where
  "tick_poll slept t =
     (if tk_phase t \<noteq> TickSleeps then t
      else if tk_cancelled t then t\<lparr>tk_phase := TickEnded\<rparr>
      else if \<not> slept then t
      else if \<not> tk_enabled t then t
      else t\<lparr>tk_i := tk_i t + 1, tk_phase := TickSends (tk_i t + 1)\<rparr>)"

definition tick_send :: "tick_task \<Rightarrow> tick_task" where
  "tick_send t =
     (case tk_phase t of
        TickSends i \<Rightarrow>
          if tk_core_closed t then t\<lparr>tk_phase := TickEnded\<rparr>
          else t\<lparr>tk_sent := tk_sent t @ [NTick i], tk_phase := TickSleeps\<rparr>
      | _ \<Rightarrow> t)"

definition tick_enable :: "bool \<Rightarrow> tick_task \<Rightarrow> tick_task" where
  "tick_enable enabled t = t\<lparr>tk_enabled := enabled\<rparr>"

text \<open>\<^verbatim>\<open>shutdown\<close> of the handle: whether the handle to join is returned.\<close>

definition tick_shutdown :: "tick_task \<Rightarrow> bool \<times> tick_task" where
  "tick_shutdown t =
     (let t1 = (if tk_shutdown t then t\<lparr>tk_shutdown := False, tk_cancelled := True\<rparr> else t) in
      (tk_join_handle t1, t1\<lparr>tk_join_handle := False\<rparr>))"

definition tick_drop :: "tick_task \<Rightarrow> tick_task" where
  "tick_drop t = (if \<not> tk_shutdown t then t else snd (tick_shutdown t))"

datatype tick_event = TickPolled bool | TickSendReady | TickEnable bool | TickShutdown | TickDropped | TickCoreCloses

fun tick_step :: "tick_event \<Rightarrow> tick_task \<Rightarrow> tick_task" where
  "tick_step (TickPolled slept) t = tick_poll slept t"
| "tick_step TickSendReady t = tick_send t"
| "tick_step (TickEnable enabled) t = tick_enable enabled t"
| "tick_step TickShutdown t = snd (tick_shutdown t)"
| "tick_step TickDropped t = tick_drop t"
| "tick_step TickCoreCloses t = t\<lparr>tk_core_closed := True\<rparr>"

definition tick_run :: "tick_event list \<Rightarrow> tick_task \<Rightarrow> tick_task" where
  "tick_run evs t = fold tick_step evs t"


section \<open>What a worker sends\<close>

fun broadcasts :: "heartbeat_move list \<Rightarrow> heartbeat_event list" where
  "broadcasts [] = []"
| "broadcasts (HbBroadcast ev # ms) = ev # broadcasts ms"
| "broadcasts (_ # ms) = broadcasts ms"

lemma broadcasts_append [simp]: "broadcasts (xs @ ys) = broadcasts xs @ broadcasts ys"
  by (induction xs rule: broadcasts.induct) auto

definition answer_notes :: "nat \<Rightarrow> heartbeat_event \<times> append_entries_response \<Rightarrow> notification list" where
  "answer_notes target a = (case heartbeat_notifications target (fst a) (snd a) of Some ns \<Rightarrow> ns | None \<Rightarrow> [])"

text \<open>
  The state after the broadcasts \<open>evs\<close>. Between \<^verbatim>\<open>changed\<close> and the read nothing is in flight or pending. With the
  handle alive the channel holds the last one, and the requests are those a reader of it may see.
\<close>

definition hw_ok :: "heartbeat_event list \<Rightarrow> heartbeat_worker \<Rightarrow> bool" where
  "hw_ok evs w \<longleftrightarrow>
     (hw_end w = None \<longrightarrow> concat (map (answer_notes (hw_target w)) (hw_answers w)) = hw_sent w @ hw_pending w)
     \<and> prefix (hw_sent w) (concat (map (answer_notes (hw_target w)) (hw_answers w)))
     \<and> (hw_flight w \<noteq> None \<longrightarrow> hw_pending w = [])
     \<and> (hw_woken w \<longrightarrow> hw_end w = None \<and> hw_flight w = None \<and> hw_pending w = [])
     \<and> subseq (map fst (hw_answers w) @ case_option [] (\<lambda>ev. [ev]) (hw_flight w)) (hw_requests w)
     \<and> set (hw_requests w) \<subseteq> set evs
     \<and> (\<forall>ev. wt_value (hw_rx w) = Some ev \<longrightarrow> ev \<in> set evs)
     \<and> (hw_dropped w \<or> hw_seen w \<le> wt_version (hw_rx w)
        \<and> wt_value (hw_rx w) = (if evs = [] then None else Some (last evs))
        \<and> (hw_woken w \<longrightarrow> evs \<noteq> []) \<and> (evs = [] \<longrightarrow> wt_version (hw_rx w) = 0)
        \<and> subseq (hw_requests w) (watch_room (hw_woken w) (hw_seen w = wt_version (hw_rx w)) evs))"

lemma subseq_prefix_append: "subseq (xs @ ys) zs \<Longrightarrow> subseq xs zs"
  using subseq_order.trans[of xs "xs @ ys" zs] subseq_rev_drop_many[of xs xs ys] by simp

lemma hw_ok_new: "hw_ok [] (heartbeat_worker_new target)"
  by (simp add: hw_ok_def heartbeat_worker_new_def watch_new_def)

lemma hw_ok_broadcast: "hw_ok evs w \<Longrightarrow> hw_ok (evs @ [ev]) (hw_broadcast ev w)"
  by (auto simp: hw_ok_def hw_broadcast_def watch_send_def intro: watch_room_snoc)

lemma hw_ok_sees_change: "hw_ok evs w \<Longrightarrow> hw_ok evs (hw_sees_change w)"
  by (auto simp: hw_ok_def hw_sees_change_def hw_waiting_def watch_room_wake)

lemma hw_ok_reads:
  assumes "hw_ok evs w"
  shows "hw_ok evs (hw_reads w)"
proof (cases "hw_woken w")
  case True
  then have w: "hw_end w = None" "hw_flight w = None" "hw_pending w = []" using assms by (simp_all add: hw_ok_def)
  show ?thesis
  proof (cases "wt_value (hw_rx w)")
    case None
    then show ?thesis using True assms by (auto simp: hw_ok_def hw_reads_def split: if_splits)
  next
    case (Some ev)
    have "evs \<noteq> [] \<and> ev = last evs \<and> subseq (hw_requests w @ [ev]) (watch_room False (hw_seen w = wt_version (hw_rx w)) evs)"
      if "\<not> hw_dropped w"
    proof -
      have "evs \<noteq> []" "ev = last evs" "subseq (hw_requests w) (watch_room True (hw_seen w = wt_version (hw_rx w)) evs)"
        using that True Some assms by (auto simp: hw_ok_def split: if_splits)
      then show ?thesis using watch_room_read by auto
    qed
    moreover have "subseq (map fst (hw_answers w) @ [ev]) (hw_requests w @ [ev])"
      using w assms by (intro list_emb_append_mono) (auto simp: hw_ok_def)
    moreover have "ev \<in> set evs" "set (hw_requests w) \<subseteq> set evs" using Some assms by (simp_all add: hw_ok_def)
    ultimately show ?thesis using True Some assms w by (auto simp: hw_ok_def hw_reads_def Let_def)
  qed
qed (use assms in \<open>simp add: hw_reads_def\<close>)

lemma hw_ok_answer:
  assumes "hw_ok evs w"
  shows "hw_ok evs (hw_answer a w)"
proof (cases "hw_flight w")
  case (Some ev)
  have f: "hw_pending w = []" "subseq (map fst (hw_answers w) @ [ev]) (hw_requests w)"
    using assms Some by (simp_all add: hw_ok_def)
  then show ?thesis
    using assms Some subseq_prefix_append[OF f(2)]
    by (auto simp: hw_ok_def hw_answer_def answer_notes_def intro: prefix_prefix
        split: heartbeat_answer.splits option.splits)
qed (use assms in \<open>simp add: hw_answer_def\<close>)

lemma hw_ok_step: "hw_ok evs w \<Longrightarrow> hw_ok (evs @ broadcasts [m]) (heartbeat_step m w)"
proof (cases m)
  case HbNotify
  assume "hw_ok evs w"
  then show ?thesis
    unfolding HbNotify by (auto simp: hw_ok_def hw_notify_def prefix_def split: option.splits list.splits)
qed (auto simp: hw_ok_broadcast hw_ok_sees_change hw_ok_reads hw_ok_answer hw_sees_shutdown_def hw_waiting_def, auto simp: hw_ok_def)

lemma heartbeat_run_snoc: "heartbeat_run (ms @ [m]) w = heartbeat_step m (heartbeat_run ms w)"
  by (simp add: heartbeat_run_def)

lemma hw_ok_run: "hw_ok (broadcasts ms) (heartbeat_run ms (heartbeat_worker_new target))"
proof (induction ms rule: rev_induct)
  case Nil
  then show ?case using hw_ok_new by (simp add: heartbeat_run_def)
next
  case (snoc m ms)
  then show ?case using hw_ok_step by (simp add: heartbeat_run_snoc)
qed

lemma heartbeat_step_target [simp]: "hw_target (heartbeat_step m w) = hw_target w"
  by (cases m) (auto simp: hw_broadcast_def hw_sees_shutdown_def hw_sees_change_def hw_reads_def hw_answer_def hw_notify_def Let_def
      split: option.splits list.splits heartbeat_answer.splits)

lemma heartbeat_run_target: "hw_target (heartbeat_run ms w) = hw_target w"
  by (induction ms rule: rev_induct) (simp_all add: heartbeat_run_snoc heartbeat_run_def[of "[]"])

text \<open>
  C37. What a worker tells the task of Raft, whatever happens in whatever order: the notifications of the
  heartbeats that were answered, in order. The answered ones are among those sent, in order, and every
  heartbeat sent is one the leader asked for. While the handle is not dropped they are sent in the order
  the leader asked for them, one that it asked for at most twice and then twice in a row. So the time that
  counts for the lease is the one at which the leader asked for a heartbeat that was answered.
\<close>

theorem heartbeat_worker_exact:
  "let w = heartbeat_run ms (heartbeat_worker_new target) in
     prefix (hw_sent w) (concat (map (answer_notes target) (hw_answers w)))
     \<and> subseq (map fst (hw_answers w)) (hw_requests w)
     \<and> set (hw_requests w) \<subseteq> set (broadcasts ms)
     \<and> (hw_dropped w \<or> subseq (hw_requests w) (twice (broadcasts ms)))"
proof -
  let ?w = "heartbeat_run ms (heartbeat_worker_new target)"
  have t: "hw_target ?w = target" by (simp add: heartbeat_run_target heartbeat_worker_new_def)
  have "hw_ok (broadcasts ms) ?w" by (rule hw_ok_run)
  then show ?thesis
    using t subseq_order.trans[OF _ watch_room_twice] unfolding Let_def
    by (auto simp: hw_ok_def dest: subseq_prefix_append)
qed

text \<open>
  A heartbeat asked for between \<^verbatim>\<open>changed\<close> and the read is sent at once and, as it is not marked as seen, once
  more. With the handle dropped, the error of \<^verbatim>\<open>changed\<close> is taken for a change: until the worker happens to
  look at the signal it sends the last heartbeat again, here after that one timed out.
\<close>

lemma heartbeat_sent_twice:
  "hw_requests (heartbeat_run [HbBroadcast ev, HbSeesChange, HbBroadcast ev', HbReads, HbAnswer HeartbeatTimeout,
     HbSeesChange, HbReads] (heartbeat_worker_new target)) = [ev', ev']"
  by (simp add: heartbeat_run_def heartbeat_worker_new_def hw_broadcast_def hw_sees_change_def hw_reads_def hw_answer_def
      hw_waiting_def watch_new_def watch_send_def Let_def)

lemma heartbeat_resent_after_drop:
  "hw_requests (heartbeat_run [HbBroadcast ev, HbSeesChange, HbReads, HbAnswer HeartbeatTimeout, HbDropHandle,
     HbSeesChange, HbReads] (heartbeat_worker_new target)) = [ev, ev]"
  by (simp add: heartbeat_run_def heartbeat_worker_new_def hw_broadcast_def hw_sees_change_def hw_reads_def hw_answer_def
      hw_waiting_def watch_new_def watch_send_def Let_def)

section \<open>A heartbeat that meets a higher vote\<close>

text \<open>A relation that holds over every executed command holds over the run of all.\<close>

lemma run_queue_rel:
  assumes R_refl: "\<And>c. R c c" and R_trans: "\<And>a b c. R a b \<Longrightarrow> R b c \<Longrightarrow> R a c"
    and R_output: "\<And>o1 c. R c (rc_set_output o1 c)"
    and R_command: "\<And>sto now cmd c r c'. run_command sto now cmd c = Some (r, c') \<Longrightarrow> R c c'"
  shows "run_queue sto now c = Some (r, c') \<Longrightarrow> R c c'"
proof (induction sto now c rule: run_queue.induct)
  case (1 sto now c)
  obtain p o1 where pop: "pop_command (en_output (rc_engine c)) = (p, o1)" by fastforce
  show ?case
  proof (cases p)
    case None
    then show ?thesis using "1.prems" pop R_refl by (simp add: run_queue.simps[of _ _ c])
  next
    case (Some cmd)
    obtain res c1 where rc: "run_command sto now cmd (rc_set_output o1 c) = Some (res, c1)"
      using "1.prems" pop Some by (auto simp: run_queue.simps[of _ _ c] split: option.splits prod.splits)
    have f: "R c c1"
      by (rule R_trans[OF R_output R_command[OF rc]])
    show ?thesis
    proof (cases res)
      case (Inl err)
      then show ?thesis using "1.prems" pop Some rc f by (simp add: run_queue.simps[of _ _ c])
    next
      case (Inr k)
      show ?thesis
      proof (cases k)
        case None
        then have "run_queue sto now c1 = Some (r, c')"
          using "1.prems" pop Some rc Inr by (simp add: run_queue.simps[of _ _ c])
        then have "R c1 c'" using "1.IH"(1)[OF pop[symmetric] Some rc] Inr None by blast
        then show ?thesis by (rule R_trans[OF f])
      next
        case k: (Some cmd')
        obtain ok o2 where po: "postpone_command cmd' (en_output (rc_engine c1)) = Some (ok, o2)"
          using "1.prems" pop Some rc Inr k by (auto simp: run_queue.simps[of _ _ c] split: option.splits prod.splits)
        have f2: "R c (rc_set_output o2 c1)" by (rule R_trans[OF f R_output])
        show ?thesis
        proof (cases ok)
          case (Inl u)
          then show ?thesis using "1.prems" pop Some rc Inr k po f2 by (simp add: run_queue.simps[of _ _ c])
        next
          case ok: (Inr u)
          then have "run_queue sto now (rc_set_output o2 c1) = Some (r, c')"
            using "1.prems" pop Some rc Inr k po by (simp add: run_queue.simps[of _ _ c])
          then have "R (rc_set_output o2 c1) c'" using "1.IH"(2)[OF pop[symmetric] Some rc] Inr k ok po by blast
          then show ?thesis by (rule R_trans[OF f2])
        qed
      qed
    qed
  qed
qed

lemma run_progress_rel:
  assumes R_refl: "\<And>c. R c c" and R_trans: "\<And>a b c. R a b \<Longrightarrow> R b c \<Longrightarrow> R a c"
    and R_command: "\<And>sto now cmd c r c'. run_command sto now cmd c = Some (r, c') \<Longrightarrow> R c c'"
  shows "run_progress_driven_command sto now c = Some (r, c') \<Longrightarrow> R c c'"
proof (induction sto now c rule: run_progress_driven_command.induct)
  case (1 sto now c)
  obtain n where n: "en_next_progress_driven_command (rc_engine c) = Some n"
    using "1.prems" by (auto simp: run_progress_driven_command.simps[of _ _ c] split: option.splits)
  show ?case
  proof (cases n)
    case None
    then show ?thesis using "1.prems" n R_refl by (simp add: run_progress_driven_command.simps[of _ _ c])
  next
    case (Some cmd)
    obtain res c1 where rc: "run_command sto now cmd c = Some (res, c1)"
      using "1.prems" n Some by (auto simp: run_progress_driven_command.simps[of _ _ c] split: option.splits)
    note f = R_command[OF rc]
    show ?thesis
    proof (cases res)
      case (Inl err)
      then show ?thesis using "1.prems" n Some rc f by (simp add: run_progress_driven_command.simps[of _ _ c])
    next
      case (Inr k)
      then have "k = None" "run_progress_driven_command sto now c1 = Some (r, c')"
        using "1.prems" n Some rc by (auto simp: run_progress_driven_command.simps[of _ _ c] split: option.splits)
      then have "R c1 c'" using "1.IH"[OF n Some rc] Inr by blast
      then show ?thesis by (rule R_trans[OF f])
    qed
  qed
qed

lemma run_engine_commands_rel:
  assumes "run_engine_commands sto now c = Some (r, c')"
    and "\<And>c. R c c" "\<And>a b c. R a b \<Longrightarrow> R b c \<Longrightarrow> R a c" "\<And>o1 c. R c (rc_set_output o1 c)"
    and "\<And>sto now cmd c r c'. run_command sto now cmd c = Some (r, c') \<Longrightarrow> R c c'"
    and s: "R c (send_satisfied_responds c)"
  shows "R c c'"
proof -
  obtain res c1 where q: "run_queue sto now (send_satisfied_responds c) = Some (res, c1)"
    "case res of Inl err \<Rightarrow> r = Inl err \<and> c' = c1 | Inr _ \<Rightarrow> run_progress_driven_command sto now c1 = Some (r, c')"
    using assms(1) by (auto simp: run_engine_commands_def bind_eq_Some_conv split: sum.splits)
  have "R (send_satisfied_responds c) c1" by (rule run_queue_rel[where R = R, OF assms(2-5) q(1)])
  moreover have "R c1 c'"
    using q(2) assms(2) run_progress_rel[where R = R, OF assms(2,3,5)] by (cases res) auto
  ultimately show ?thesis using s assms(3) by blast
qed

text \<open>Executing commands changes neither the leader nor what sessions are matched against.\<close>

definition session_frame :: "raft_core \<Rightarrow> raft_core \<Rightarrow> bool" where
  "session_frame c c' \<longleftrightarrow> en_leader (rc_engine c') = en_leader (rc_engine c)
     \<and> rs_membership_state (rc_state c') = rs_membership_state (rc_state c)"

lemma session_frame_trans: "session_frame a b \<Longrightarrow> session_frame b c \<Longrightarrow> session_frame a c"
  by (simp add: session_frame_def)

lemma session_frame_output [simp]: "session_frame c (rc_set_output o1 c)" "session_frame c c"
  by (simp_all add: session_frame_def)

lemma run_command_session: "run_command sto now cmd c = Some (r, c') \<Longrightarrow> session_frame c c'"
  using io_only_D[OF run_command_io_only(1)] by (simp add: session_frame_def)

lemma run_engine_commands_session:
  assumes "run_engine_commands sto now c = Some (r, c')"
  shows "session_frame c c'"
proof (rule run_engine_commands_rel[where R = session_frame, OF assms])
  show "session_frame c (send_satisfied_responds c)"
    by (simp add: session_frame_def send_satisfied_responds_def Let_def split: prod.splits)
qed (use session_frame_trans run_command_session session_frame_output in blast)+

lemma higher_vote_steps_down:
  assumes "vh_update_vote now vote e = Some (r, e')" "vote > vote_ref (en_state e)"
    "vote_leader_node_id vote \<noteq> en_id e"
  shows "en_leader e' = None"
proof -
  let ?lease = "if vote_committed vote then tc_leader_lease (ec_timer_config (en_config e)) else 0"
  let ?e = "e\<lparr>en_state := (en_state e)\<lparr>rs_vote := leased_update now ?lease vote (rs_vote (en_state e))\<rparr>\<rparr>"
  obtain e1 where e1: "en_accept_log_io (io_id_new vote) ?e = Some e1"
    "vh_update_internal_server_state now (en_push (SaveVote vote) e1) = Some e'"
    using assms(1,2) less_imp_le[OF assms(2)] unfolding vh_update_vote_def
    by (auto simp: Let_def bind_eq_Some_conv split: if_splits)
  have v: "vote_ref (en_state e1) = vote" "en_config e1 = en_config e"
    using log_frame_D(1)[OF en_accept_log_io_frame(1)[OF e1(1)]] en_accept_log_io_frame[OF e1(1)]
    by (simp_all add: vote_ref_def leased_update_def)
  then have "\<not> rs_is_leader (en_state e1) (en_id e1)" "\<not> rs_is_leading (en_state e1) (en_id e1)"
    using assms(3) by (auto simp: rs_is_leader_def rs_is_leading_def)
  then have "vh_become_following (en_push (SaveVote vote) e1) = Some e'"
    using e1(2) by (simp add: vh_update_internal_server_state_def)
  from vh_become_following_eq[OF this] show ?thesis by (simp add: ssh_update_server_state_def Let_def)
qed

lemma higher_vote_notifications:
  assumes "heartbeat_notifications target ev (HigherVote vote) = Some ns"
  shows "ns = [NHigherVote target vote (rsi_leader_vote (hb_session_id ev)),
    NHeartbeatProgress (hb_session_id ev) (hb_time ev) target]"
  using assms by (simp add: heartbeat_notifications_def)

text \<open>
  C38. A follower that answers a heartbeat with a higher vote of another node does not extend the lease:
  the worker reports the vote and then the time of the heartbeat. Once the task of Raft has handled the
  first and run its commands, the leader the heartbeat was sent by is gone, and the second changes
  nothing. A leader of another vote is left as it is.
\<close>

theorem higher_vote_extends_no_lease:
  assumes "heartbeat_notifications target ev (HigherVote vote) = Some [n1, n2]"
    and "vote > vote_ref (rc_state c)" "vote_leader_node_id vote \<noteq> rc_id c"
    and "handle_notification now n1 c = Some (r1, c1)" "run_engine_commands sto now c1 = Some (r2, c2)"
    and "handle_notification now2 n2 c2 = Some (r3, c3)"
  shows "c3 = c2 \<and> en_leader (rc_engine c3) =
    (if does_leader_vote_match (rsi_leader_vote (hb_session_id ev)) c then None else en_leader (rc_engine c))"
proof -
  let ?v = "rsi_leader_vote (hb_session_id ev)"
  have n: "n1 = NHigherVote target vote ?v" "n2 = NHeartbeatProgress (hb_session_id ev) (hb_time ev) target"
    using higher_vote_notifications[OF assms(1)] by simp_all
  have l1: "en_leader (rc_engine c1) = (if does_leader_vote_match ?v c then None else en_leader (rc_engine c))"
  proof (cases "does_leader_vote_match ?v c")
    case True
    then obtain u e1 where e1: "vh_update_vote now vote (rc_engine c) = Some (u, e1)" "rc_engine c1 = e1"
      using assms(4) by (auto simp: n rc_on_engine_def bind_eq_Some_conv)
    show ?thesis using higher_vote_steps_down[OF e1(1)] assms(2,3) e1(2) True by simp
  next
    case False
    then show ?thesis using assms(4) by (auto simp: n)
  qed
  then have l2: "en_leader (rc_engine c2) = (if does_leader_vote_match ?v c then None else en_leader (rc_engine c))"
    using run_engine_commands_session[OF assms(5)] by (simp add: session_frame_def)
  then have "\<not> does_leader_vote_match ?v c2"
    by (auto simp: does_leader_vote_match_def split: option.splits if_splits)
  then have "c3 = c2" using assms(6) by (auto simp: n does_replication_session_match_def)
  then show ?thesis using l2 by simp
qed

text \<open>The leader of the example hears from node 2 about a vote of node 3.\<close>

abbreviation example_session :: replication_session_id where
  "example_session \<equiv> ReplicationSessionId (CommittedVote (LeaderId 1 1)) (Some (LogId (LeaderId 0 0) 0))"

abbreviation example_beat :: "log_id option \<Rightarrow> heartbeat_event" where
  "example_beat matching \<equiv> \<lparr>hb_time = 20, hb_session_id = example_session, hb_matching = matching, hb_committed = None\<rparr>"

lemma deposed_runs:
  "case handle_notification 30 (NHigherVote 2 (Vote (LeaderId 4 3) False) (CommittedVote (LeaderId 1 1))) (run led1) of
     None \<Rightarrow> False
   | Some (r1, c1) \<Rightarrow> (case run_engine_commands good 30 c1 of
       None \<Rightarrow> False
     | Some (r2, c2) \<Rightarrow> handle_notification 31 (NHeartbeatProgress example_session 20 2) c2 \<noteq> None)"
  "vote_ref (rc_state (run led1)) = Vote (LeaderId 1 1) True" "rc_id (run led1) = 1"
  "does_leader_vote_match (CommittedVote (LeaderId 1 1)) (run led1)"
  by code_simp+

theorem higher_vote_extends_no_lease_witness:
  "\<exists>r1 c1 r2 c2 r3 c3. handle_notification 30 (NHigherVote 2 (Vote (LeaderId 4 3) False) (CommittedVote (LeaderId 1 1))) (run led1) = Some (r1, c1)
    \<and> run_engine_commands good 30 c1 = Some (r2, c2)
    \<and> handle_notification 31 (NHeartbeatProgress example_session 20 2) c2 = Some (r3, c3)
    \<and> c3 = c2 \<and> en_leader (rc_engine c3) = None"
proof -
  obtain r1 c1 r2 c2 r3 c3 where
    h: "handle_notification 30 (NHigherVote 2 (Vote (LeaderId 4 3) False) (CommittedVote (LeaderId 1 1))) (run led1) = Some (r1, c1)"
    and r: "run_engine_commands good 30 c1 = Some (r2, c2)"
    and b: "handle_notification 31 (NHeartbeatProgress example_session 20 2) c2 = Some (r3, c3)"
    using deposed_runs(1) by (auto split: option.splits prod.splits)
  have n: "heartbeat_notifications 2 (example_beat None) (HigherVote (Vote (LeaderId 4 3) False))
      = Some [NHigherVote 2 (Vote (LeaderId 4 3) False) (CommittedVote (LeaderId 1 1)), NHeartbeatProgress example_session 20 2]"
    by (simp add: heartbeat_notifications_def)
  have "Vote (LeaderId 4 3) False > vote_ref (rc_state (run led1))" unfolding deposed_runs(2) by code_simp
  from higher_vote_extends_no_lease[OF n this _ h r b] show ?thesis
    using h r b deposed_runs(3,4) by (auto simp: vote_leader_node_id_def)
qed

section \<open>A heartbeat that meets a conflict\<close>

text \<open>
  The log id of a conflict is unwrapped safely: no follower of the model answers a heartbeat that was
  sent without a matching log id with a conflict, so the worker never panics on the answer.
\<close>

theorem heartbeat_answer_unwraps:
  assumes "en_append_entries now (ar_vote (heartbeat_request ev)) (ar_prev_log_id (heartbeat_request ev))
      (ar_entries (heartbeat_request ev)) e = Some (res, e')"
  shows "\<exists>ns. heartbeat_notifications target ev (append_result_to_response res) = Some ns
    \<and> last ns = NHeartbeatProgress (hb_session_id ev) (hb_time ev) target"
proof (cases "append_result_to_response res = Conflict")
  case True
  then obtain a b where res: "res = Inl (ByConflictingLogId a b)"
    by (cases res rule: append_result_to_response.cases) auto
  have "hb_matching ev \<noteq> None"
  proof
    assume "hb_matching ev = None"
    then show False using assms res
      by (auto simp: heartbeat_request_def en_append_entries_def fh_ensure_log_consecutive_def bind_eq_Some_conv
          split: sum.splits elim: reject_vote_to_append.elims)
  qed
  then show ?thesis using True by (auto simp: heartbeat_notifications_def)
next
  case False
  then show ?thesis by (cases "append_result_to_response res") (auto simp: heartbeat_notifications_def)
qed

lemma vp_set_get: "vp_try_get nid p = Some v \<Longrightarrow> \<exists>p'. vp_set nid w p = Some p' \<and> vp_try_get nid p' = Some w"
proof -
  assume "vp_try_get nid p = Some v"
  then obtain i where i: "vp_position nid (vp_entries p) = Some i" by (auto simp: vp_try_get_def vp_index_def)
  have "vp_position nid es = Some i \<Longrightarrow> i < length es \<and> vp_position nid (es[i := (nid, w)]) = Some i" for es i
    by (induction nid es arbitrary: i rule: vp_position.induct) (auto split: if_splits nat.splits)
  from this[OF i] show ?thesis using i by (simp add: vp_set_def vp_try_get_def vp_index_def)
qed

lemma conflict_detects_reversion:
  assumes "conflict < next_index (pe_matching pe)" "next_index (pe_matching pe) \<le> pe_searching_end pe"
  shows "pe_update_conflicting cfg conflict None pe =
    (if pe_allow_log_reversion pe \<or> ec_allow_log_reversion cfg
     then Some (pe\<lparr>pe_searching_end := conflict, pe_matching := None, pe_allow_log_reversion := False\<rparr>) else None)"
  using assms by (simp add: pe_update_conflicting_def Let_def)

text \<open>
  A heartbeat detects a follower that lost its log: when a follower answers it with a conflict, the task
  of Raft panics as long as its session holds, unless the node was allowed to revert, by the
  configuration or for this target; then the target is taken for one that has nothing, the search for
  its last log starts below the conflict, and the permission for the target is used up.
\<close>

theorem heartbeat_detects_reversion:
  assumes "heartbeat_notifications target ev Conflict = Some (n # ns)"
    and "does_replication_session_match (hb_session_id ev) c" "en_leader (rc_engine c) = Some l"
    and "vp_try_get target (ld_progress l) = Some pe"
    and "next_index (hb_matching ev) \<le> next_index (pe_matching pe)"
    and "next_index (pe_matching pe) \<le> pe_searching_end pe"
  shows "if pe_allow_log_reversion pe \<or> ec_allow_log_reversion (en_config (rc_engine c))
    then \<exists>p m. hb_matching ev = Some m
      \<and> handle_notification now n c = map_option (\<lambda>e. (Inr (), c\<lparr>rc_engine := e\<rparr>))
          (rh_try_purge_log ((rc_engine c)\<lparr>en_leader := Some (l\<lparr>ld_progress := p\<rparr>)\<rparr>))
      \<and> vp_try_get target p = Some (pe\<lparr>pe_searching_end := lg_index m, pe_matching := None, pe_allow_log_reversion := False\<rparr>)
    else handle_notification now n c = None"
proof -
  obtain m where m: "hb_matching ev = Some m" "n = NReplicationProgress (hb_session_id ev) target (Inr (Inl m)) None"
    using assms(1) by (auto simp: heartbeat_notifications_def bind_eq_Some_conv)
  have "lg_index m < next_index (pe_matching pe)" using assms(5) by (simp add: m next_index_def)
  note conf = conflict_detects_reversion[OF this assms(6)]
  let ?pe = "pe\<lparr>pe_searching_end := lg_index m, pe_matching := None, pe_allow_log_reversion := False\<rparr>"
  obtain p where p: "vp_set target ?pe (ld_progress l) = Some p" "vp_try_get target p = Some ?pe"
    using vp_set_get[OF assms(4)] by blast
  show ?thesis
    using assms(2-4) p conf
    by (auto simp: m rc_on_engine_def rh_update_progress_def rh_update_conflicting_def rh_set_entry_def map_option_bind
        intro!: exI[of _ p] split: option.splits simp del: bind_assoc split: bind_splits)
qed

text \<open>Node 2 had acknowledged the first log of the leader, and answers the next heartbeat with a conflict.\<close>

abbreviation example_log_id :: log_id where
  "example_log_id \<equiv> LogId (LeaderId 1 1) 1"

definition matched1 :: raft_core where
  "matched1 = snd (the (handle_notification 20
     (NReplicationProgress example_session 2 (Inr (Inr (Some example_log_id))) (Some 1)) (run led1)))"

lemma matched1_leads:
  "does_replication_session_match example_session matched1"
  "case en_leader (rc_engine matched1) of None \<Rightarrow> False
   | Some l \<Rightarrow> (case vp_try_get 2 (ld_progress l) of None \<Rightarrow> False
     | Some pe \<Rightarrow> pe_matching pe = Some example_log_id \<and> pe_searching_end pe = 2 \<and> \<not> pe_allow_log_reversion pe)"
  "\<not> ec_allow_log_reversion (en_config (rc_engine matched1))"
  by code_simp+

theorem heartbeat_detects_reversion_witness:
  "handle_notification 30 (NReplicationProgress example_session 2 (Inr (Inl example_log_id)) None) matched1 = None"
proof -
  obtain l pe where l: "en_leader (rc_engine matched1) = Some l" "vp_try_get 2 (ld_progress l) = Some pe"
    and pe: "pe_matching pe = Some example_log_id" "pe_searching_end pe = 2" "\<not> pe_allow_log_reversion pe"
    using matched1_leads(2) by (auto split: option.splits)
  have n: "heartbeat_notifications 2 (example_beat (Some example_log_id)) Conflict
      = Some (NReplicationProgress example_session 2 (Inr (Inl example_log_id)) None # [NHeartbeatProgress example_session 20 2])"
    by (simp add: heartbeat_notifications_def)
  show ?thesis
    using heartbeat_detects_reversion[OF n, of matched1 l pe 30] matched1_leads(1,3) l pe by (simp add: next_index_def)
qed

section \<open>The workers the task of Raft counts on\<close>

text \<open>What the effects of the task do to the workers.\<close>

fun hs_effect :: "effect \<Rightarrow> heartbeat_workers \<Rightarrow> heartbeat_workers panics" where
  "hs_effect (EffSpawnHeartbeat target node) h = Some (hs_spawn_workers [target] h)"
| "hs_effect (EffHeartbeat target ev) h = hs_broadcast [(target, ev)] h"
| "hs_effect EffRemoveStreams h = Some (hs_shutdown h)"
| "hs_effect _ h = Some h"

fun hs_effects :: "effect list \<Rightarrow> heartbeat_workers \<Rightarrow> heartbeat_workers panics" where
  "hs_effects [] h = Some h"
| "hs_effects (f # fs) h = do { h1 \<leftarrow> hs_effect f h; hs_effects fs h1 }"

lemma hs_effects_append: "hs_effects (fs @ gs) h = do { h1 \<leftarrow> hs_effects fs h; hs_effects gs h1 }"
proof (induction fs arbitrary: h)
  case (Cons f fs)
  then show ?case by (cases "hs_effect f h") simp_all
qed simp

fun no_worker_effect :: "effect \<Rightarrow> bool" where
  "no_worker_effect (EffSpawnHeartbeat target node) = False"
| "no_worker_effect (EffHeartbeat target ev) = False"
| "no_worker_effect EffRemoveStreams = False"
| "no_worker_effect _ = True"

lemma hs_effect_none: "no_worker_effect f \<Longrightarrow> hs_effect f h = Some h"
  by (cases f) auto

lemma hs_effects_none: "\<forall>f \<in> set fs. no_worker_effect f \<Longrightarrow> hs_effects fs h = Some h"
  by (induction fs) (auto simp: hs_effect_none)

definition hs_targets :: "heartbeat_workers \<Rightarrow> nat set" where
  "hs_targets h = fst ` set (hs_workers h)"

text \<open>The effects so far are run without a panic, and the workers are those the task counts on.\<close>

definition workers_tracked :: "raft_core \<Rightarrow> bool" where
  "workers_tracked c \<longleftrightarrow> (\<exists>h. hs_effects (rc_effects c) heartbeat_workers_new = Some h \<and> hs_targets h = set (rc_heartbeats c))"

lemma hs_spawn_targets [simp]: "hs_targets (hs_spawn t h) = insert t (hs_targets h)"
  by (simp add: hs_targets_def hs_spawn_def)

lemma hs_broadcast_one:
  "t \<in> hs_targets h \<Longrightarrow> \<exists>h'. hs_broadcast [(t, ev)] h = Some h' \<and> hs_targets h' = hs_targets h"
  using bt_get_None_iff[of "hs_workers h" t] by (cases "bt_get (hs_workers h) t") (auto simp: hs_targets_def)

lemma heartbeat_events_effects:
  "heartbeat_events self ws ev items = Some fs \<Longrightarrow> hs_targets h = set ws
    \<Longrightarrow> \<exists>h'. hs_effects fs h = Some h' \<and> hs_targets h' = set ws"
proof (induction self ws ev items arbitrary: fs h rule: heartbeat_events.induct)
  case (2 self ws ev nid pe items)
  show ?case
  proof (cases "nid = self")
    case True
    then show ?thesis using 2 by simp
  next
    case False
    then obtain gs where g: "nid \<in> set ws" "heartbeat_events self ws ev items = Some gs"
      "fs = EffHeartbeat nid (ev (pe_matching pe)) # gs"
      using "2.prems"(1) by (auto simp: bind_eq_Some_conv)
    obtain h1 where h1: "hs_broadcast [(nid, ev (pe_matching pe))] h = Some h1" "hs_targets h1 = set ws"
      using hs_broadcast_one g(1) "2.prems"(2) by metis
    then show ?thesis using "2.IH"(2)[OF False _ g(2) h1(2)] g by auto
  qed
qed simp

text \<open>A step that adds effects and leaves the tracked targets alone.\<close>

definition workers_kept :: "raft_core \<Rightarrow> raft_core \<Rightarrow> bool" where
  "workers_kept c c' \<longleftrightarrow> rc_heartbeats c' = rc_heartbeats c
     \<and> (\<exists>fs. rc_effects c' = rc_effects c @ fs \<and> (\<forall>f \<in> set fs. no_worker_effect f))"

lemma workers_kept_refl [simp]: "workers_kept c c"
  by (simp add: workers_kept_def)

lemma workers_kept_trans:
  assumes "workers_kept a b" "workers_kept b c"
  shows "workers_kept a c"
proof -
  obtain fs gs where "rc_effects b = rc_effects a @ fs" "rc_effects c = rc_effects b @ gs"
    "\<forall>f \<in> set fs. no_worker_effect f" "\<forall>f \<in> set gs. no_worker_effect f"
    using assms by (auto simp: workers_kept_def)
  then show ?thesis using assms by (auto simp: workers_kept_def intro!: exI[of _ "fs @ gs"])
qed

lemma workers_kept_tracked: "workers_kept c c' \<Longrightarrow> workers_tracked c \<Longrightarrow> workers_tracked c'"
  by (auto simp: workers_kept_def workers_tracked_def hs_effects_append hs_effects_none)

lemma workers_kept_emit [simp]: "\<forall>f \<in> set fs. no_worker_effect f \<Longrightarrow> workers_kept c (rc_emit fs c)"
  by (simp add: workers_kept_def rc_emit_def)

lemma workers_kept_simps [simp]:
  "workers_kept c (c\<lparr>rc_engine := e\<rparr>)" "workers_kept c (rc_set_output o1 c)" "workers_kept c (rc_notify n c)"
  "workers_kept c (rc_set_ios ios c)"
  by (simp_all add: workers_kept_def rc_set_output_def rc_notify_def rc_set_ios_def)

lemma workers_kept_on_io:
  "rc_on_log_io f c = Some c' \<Longrightarrow> workers_kept c c'"
  "rc_on_apply_io g c = Some c' \<Longrightarrow> workers_kept c c'"
  "rc_on_snapshot_io g c = Some c' \<Longrightarrow> workers_kept c c'"
  by (auto simp: rc_on_log_io_def rc_on_apply_io_def rc_on_snapshot_io_def bind_eq_Some_conv)

lemma workers_kept_on_opt:
  assumes "on_opt f x c = Some c'" "\<And>y c c'. f y c = Some c' \<Longrightarrow> workers_kept c c'"
  shows "workers_kept c c'"
  using assms by (auto simp: on_opt_def split: option.splits)

lemma workers_kept_call: "rc_call sto f err c = (r, c') \<Longrightarrow> no_worker_effect f \<Longrightarrow> workers_kept c c'"
  by (auto simp: rc_call_def)

lemma workers_kept_to_voters:
  assumes "to_voters f em self ts = Some fs" "\<And>t n. no_worker_effect (f t n)"
  shows "\<forall>g \<in> set fs. no_worker_effect g"
  using assms
  by (induction f em self ts arbitrary: fs rule: to_voters.induct) (auto simp: bind_eq_Some_conv split: if_splits)

lemma workers_kept_streams: "spawn_streams ts c = Some c' \<Longrightarrow> workers_kept c c'"
proof (induction ts c rule: spawn_streams.induct)
  case (2 t pe ts c)
  then obtain c1 where c1: "spawn_replication_stream t pe c = Some c1" "spawn_streams ts c1 = Some c'"
    by (auto simp: bind_eq_Some_conv)
  have "workers_kept c c1"
    using c1(1) by (auto simp: spawn_replication_stream_def bind_eq_Some_conv workers_kept_def Let_def rc_emit_def)
  then show ?case using "2.IH"[OF c1] workers_kept_trans by blast
qed simp

lemma workers_kept_apply:
  assumes "apply_to_state_machine sto a b c = Some (r, c')"
  shows "workers_kept c c'"
proof -
  obtain rs rest fs where *: "on_commits (rc_state c) rs = Some fs"
    "rc_call sto (EffStateMachine (Apply a b rs)) StoApply (rc_emit fs (c\<lparr>rc_client_responders := rest\<rparr>)) = (r, c')"
    using assms by (auto simp: apply_to_state_machine_def bind_eq_Some_conv split: prod.splits)
  have "on_commits st rs = Some fs \<Longrightarrow> \<forall>f \<in> set fs. no_worker_effect f" for st fs
    by (induction st rs arbitrary: fs rule: on_commits.induct) (auto simp: bind_eq_Some_conv)
  then have "workers_kept c (rc_emit fs (c\<lparr>rc_client_responders := rest\<rparr>))"
    using *(1) by (auto simp: workers_kept_def rc_emit_def)
  then show ?thesis using workers_kept_call[OF *(2)] workers_kept_trans by auto
qed

lemma spawn_heartbeats_tracked: "spawn_heartbeats em ts c = Some c' \<Longrightarrow> workers_tracked c \<Longrightarrow> workers_tracked c'"
proof (induction em ts c rule: spawn_heartbeats.induct)
  case (2 em t pe ts c)
  then obtain n where n: "em_get_node em t = Some n" by (auto simp: bind_eq_Some_conv)
  let ?c1 = "rc_emit [EffSpawnHeartbeat t n] (c\<lparr>rc_heartbeats := bs_union [t] (rc_heartbeats c)\<rparr>)"
  have "workers_tracked ?c1"
    using "2.prems"(2) by (auto simp: workers_tracked_def hs_effects_append rc_emit_def hs_spawn_workers_def)
  then show ?case using 2 n by simp
qed simp

lemma remove_all_tracked: "workers_tracked c \<Longrightarrow> workers_tracked (remove_all_replication c)"
  by (auto simp: workers_tracked_def remove_all_replication_def hs_effects_append rc_emit_def hs_targets_def hs_shutdown_def)

lemma broadcast_tracked:
  assumes "broadcast_heartbeat now s c = Some c'" "workers_tracked c"
  shows "workers_tracked c'"
proof (cases "c' = c")
  case False
  obtain lh where lh: "en_leader_handler (rc_engine c) = Some lh"
    using assms(1) by (auto simp: broadcast_heartbeat_def bind_eq_Some_conv)
  obtain ev items fs where f: "heartbeat_events (rc_id c) (rc_heartbeats c) ev items = Some fs" "c' = rc_emit fs c"
    using assms(1) lh False by (cases lh) (auto simp: broadcast_heartbeat_def bind_eq_Some_conv Let_def split: if_splits)
  obtain h where "hs_effects (rc_effects c) heartbeat_workers_new = Some h" "hs_targets h = set (rc_heartbeats c)"
    using assms(2) by (auto simp: workers_tracked_def)
  then show ?thesis using heartbeat_events_effects[OF f(1)] f(2)
    by (fastforce simp: workers_tracked_def rc_emit_def hs_effects_append)
qed (use assms(2) in simp)

lemma on_io_workers:
  "rc_on_log_io f c = Some c' \<Longrightarrow> rc_heartbeats c' = rc_heartbeats c \<and> rc_effects c' = rc_effects c"
  "rc_on_apply_io g c = Some c' \<Longrightarrow> rc_heartbeats c' = rc_heartbeats c \<and> rc_effects c' = rc_effects c"
  "rc_on_snapshot_io g c = Some c' \<Longrightarrow> rc_heartbeats c' = rc_heartbeats c \<and> rc_effects c' = rc_effects c"
  by (auto simp: rc_on_log_io_def rc_on_apply_io_def rc_on_snapshot_io_def rc_set_ios_def bind_eq_Some_conv)

lemma exec_command_kept:
  assumes "exec_command sto now cmd c = Some (r, c')" "\<And>s. cmd \<noteq> BroadcastHeartbeat s" "\<And>ts. cmd \<noteq> RebuildReplicationStreams ts"
  shows "workers_kept c c'"
proof (cases cmd)
  case (SaveCommittedAndApply a u)
  then obtain c1 where c1: "rc_on_apply_io (io_submit u) c = Some c1"
    and r: "(case rc_call sto (EffSaveCommitted (Some u)) StoWrite c1 of
        (Inl err, c2) \<Rightarrow> Some (Inl err, c2)
      | (Inr _, c2) \<Rightarrow> do {
          first_id \<leftarrow> rs_get_log_id (rc_state c2) (next_index a);
          apply_to_state_machine sto first_id u c2 }) = Some (r, c')"
    using assms by (auto simp: bind_eq_Some_conv)
  have "workers_kept c1 c'"
    using r by (auto simp: rc_call_def bind_eq_Some_conv split: if_splits
        dest!: workers_kept_apply elim!: workers_kept_trans[rotated])
  then show ?thesis by (rule workers_kept_trans[OF workers_kept_on_io(2)[OF c1]])
next
  case (StateMachine s)
  then obtain c1 c2 c3 where *: "on_opt (\<lambda>i. rc_on_log_io (io_submit i)) (sm_get_log_progress s) c = Some c1"
    "on_opt (\<lambda>l. rc_on_apply_io (io_submit l)) (sm_get_apply_progress s) c1 = Some c2"
    "on_opt (\<lambda>l. rc_on_snapshot_io (io_submit l)) (sm_get_snapshot_progress s) c2 = Some c3"
    "rc_call sto (EffStateMachine s) StoWriteStateMachine c3 = (r, c')"
    using assms by (auto simp: bind_eq_Some_conv)
  have "workers_kept c c1" "workers_kept c1 c2" "workers_kept c2 c3" "workers_kept c3 c'"
    using workers_kept_on_opt[OF *(1) workers_kept_on_io(1)] workers_kept_on_opt[OF *(2) workers_kept_on_io(2)]
      workers_kept_on_opt[OF *(3) workers_kept_on_io(3)] workers_kept_call[OF *(4)] by auto
  then show ?thesis using workers_kept_trans by blast
next
  case (SendVote req)
  then show ?thesis using assms
    by (auto simp: bind_eq_Some_conv spawn_parallel_vote_requests_def dest: workers_kept_to_voters)
next
  case (BroadcastTransferLeader req)
  then show ?thesis using assms
    by (auto simp: bind_eq_Some_conv broadcast_transfer_leader_def dest: workers_kept_to_voters)
qed (use assms in \<open>auto simp: bind_eq_Some_conv rc_call_def workers_kept_def rc_emit_def rc_notify_def rc_set_ios_def Let_def
    dest!: on_io_workers split: if_splits prod.splits vote_status.splits\<close>)

lemma exec_command_tracked:
  assumes "exec_command sto now cmd c = Some (r, c')" "workers_tracked c"
  shows "workers_tracked c'"
proof (cases cmd)
  case (BroadcastHeartbeat s)
  then show ?thesis using assms broadcast_tracked by (auto simp: bind_eq_Some_conv)
next
  case (RebuildReplicationStreams ts)
  then obtain c1 where c1: "spawn_streams ts (remove_all_replication c) = Some c1"
    "spawn_heartbeats (rc_effective c1) ts c1 = Some c'"
    using assms(1) by (auto simp: bind_eq_Some_conv)
  show ?thesis
    by (rule spawn_heartbeats_tracked[OF c1(2) workers_kept_tracked[OF workers_kept_streams[OF c1(1)]]])
      (rule remove_all_tracked[OF assms(2)])
qed (use workers_kept_tracked[OF exec_command_kept[OF assms(1)] assms(2)] in auto)

lemma run_command_tracked:
  assumes "run_command sto now cmd c = Some (r, c')" "workers_tracked c"
  shows "workers_tracked c'"
  using assms exec_command_tracked by (auto simp: run_command_def bind_eq_Some_conv split: if_splits)

text \<open>
  The workers that run are those the task of Raft counts on: running its commands starts, reaches and
  drops workers through the handle without a panic of the unwrapped lookup, and the targets of the
  handle are again the tracked ones.
\<close>

theorem heartbeat_workers_tracked:
  assumes "run_engine_commands sto now c = Some (r, c')" "workers_tracked c"
  shows "workers_tracked c'"
proof -
  have "workers_tracked c \<longrightarrow> workers_tracked c'"
  proof (rule run_engine_commands_rel[where R = "\<lambda>c c'. workers_tracked c \<longrightarrow> workers_tracked c'", OF assms(1)])
    have "workers_kept c (send_satisfied_responds c)"
      by (auto simp: send_satisfied_responds_def Let_def workers_kept_def rc_emit_def rc_set_output_def split: prod.splits)
    then show "workers_tracked c \<longrightarrow> workers_tracked (send_satisfied_responds c)" using workers_kept_tracked by blast
    show "workers_tracked c \<longrightarrow> workers_tracked (rc_set_output o1 c)" for o1 c
      using workers_kept_tracked[OF workers_kept_simps(2)] by blast
  qed (use run_command_tracked in blast)+
  then show ?thesis using assms(2) by blast
qed

section \<open>Ticks\<close>

lemma tick_run_snoc: "tick_run (evs @ [ev]) t = tick_step ev (tick_run evs t)"
  by (simp add: tick_run_def)

lemma tick_run_append: "tick_run (xs @ ys) t = tick_run ys (tick_run xs t)"
  by (simp add: tick_run_def)

definition tick_count :: "tick_task \<Rightarrow> nat" where
  "tick_count t = length (tk_sent t)"

definition tick_ok :: "tick_task \<Rightarrow> bool" where
  "tick_ok t \<longleftrightarrow> tk_sent t = map NTick [1..<Suc (tick_count t)]
     \<and> (tk_phase t = TickSleeps \<longrightarrow> tk_i t = tick_count t)
     \<and> (\<forall>i. tk_phase t = TickSends i \<longrightarrow> tk_i t = Suc (tick_count t) \<and> i = Suc (tick_count t))
     \<and> (tk_shutdown t \<longleftrightarrow> tk_join_handle t) \<and> (tk_shutdown t \<or> tk_cancelled t)"

lemma tick_ok_step: "tick_ok t \<Longrightarrow> tick_ok (tick_step ev t)"
  by (cases ev) (auto simp: tick_ok_def tick_count_def tick_poll_def tick_send_def tick_enable_def tick_shutdown_def
      tick_drop_def Let_def split: tick_phase.splits)

lemma tick_ok_run: "tick_ok (tick_run evs (tick_spawn enabled))"
proof (induction evs rule: rev_induct)
  case Nil
  then show ?case by (simp add: tick_run_def tick_spawn_def tick_ok_def tick_count_def)
next
  case (snoc ev evs)
  then show ?case by (simp add: tick_run_snoc tick_ok_step)
qed

text \<open>The ticks sent and the one being sent.\<close>

definition tick_due :: "tick_task \<Rightarrow> nat" where
  "tick_due t = tick_count t + (case tk_phase t of TickSends i \<Rightarrow> 1 | _ \<Rightarrow> 0)"

lemma tick_due_step: "tick_due (tick_step ev t) \<le> tick_due t + (if ev = TickPolled True then 1 else 0)"
  by (cases ev) (auto simp: tick_due_def tick_count_def tick_poll_def tick_send_def tick_enable_def tick_shutdown_def
      tick_drop_def Let_def split: tick_phase.splits)

lemma tick_due_cancelled: "tk_cancelled t \<Longrightarrow> tk_cancelled (tick_step ev t) \<and> tick_due (tick_step ev t) \<le> tick_due t"
  by (cases ev) (auto simp: tick_due_def tick_count_def tick_poll_def tick_send_def tick_enable_def tick_shutdown_def
      tick_drop_def Let_def split: tick_phase.splits)

lemma tick_due_cancelled_run: "tk_cancelled t \<Longrightarrow> tk_cancelled (tick_run evs t) \<and> tick_due (tick_run evs t) \<le> tick_due t"
proof (induction evs rule: rev_induct)
  case (snoc ev evs)
  then show ?case using tick_due_cancelled[of "tick_run evs t" ev] by (auto simp: tick_run_snoc)
qed (simp add: tick_run_def)

lemma tick_due_run: "tick_due (tick_run evs (tick_spawn enabled)) \<le> length (filter (\<lambda>ev. ev = TickPolled True) evs)"
proof (induction evs rule: rev_induct)
  case Nil
  then show ?case by (simp add: tick_run_def tick_spawn_def tick_due_def tick_count_def)
next
  case (snoc ev evs)
  then show ?case using tick_due_step[of ev "tick_run evs (tick_spawn enabled)"] by (auto simp: tick_run_snoc)
qed

lemma tick_shutdown_once: "\<not> tk_join_handle t \<Longrightarrow> \<not> tk_join_handle (tick_step ev t)"
  by (cases ev) (auto simp: tick_poll_def tick_send_def tick_enable_def tick_shutdown_def tick_drop_def Let_def
      split: tick_phase.splits)

lemma tick_shutdown_once_run: "\<not> tk_join_handle t \<Longrightarrow> \<not> tk_join_handle (tick_run evs t)"
  by (induction evs rule: rev_induct) (simp_all add: tick_run_snoc tick_shutdown_once tick_run_def[of "[]"])

text \<open>
  C40. The ticks, whatever happens in whatever order: they are numbered from 1 without a gap, periods in which
  they are disabled included, and there are at most as many as sleeps that ended. After \<^verbatim>\<open>shutdown\<close> at
  most one more is sent, the one on its way then, the next poll ends the task even when a sleep is over,
  and a second \<^verbatim>\<open>shutdown\<close> returns nothing to join.
\<close>

theorem ticks_exact:
  "let t = tick_run evs (tick_spawn enabled); t' = tick_run evs' (snd (tick_shutdown t)) in
    tk_sent t = map NTick [1..<Suc (length (tk_sent t))]
    \<and> length (tk_sent t) \<le> length (filter (\<lambda>ev. ev = TickPolled True) evs)
    \<and> length (tk_sent t') \<le> length (tk_sent t) + (case tk_phase t of TickSends i \<Rightarrow> 1 | _ \<Rightarrow> 0)
    \<and> tk_phase (tick_run [TickSendReady, TickPolled True] t') = TickEnded
    \<and> fst (tick_shutdown t') = False"
proof -
  define t where "t = tick_run evs (tick_spawn enabled)"
  let ?s = "snd (tick_shutdown t)"
  define t' where "t' = tick_run evs' ?s"
  have ok: "tick_ok t" by (simp add: t_def tick_ok_run)
  have c: "tk_cancelled ?s" "\<not> tk_join_handle ?s" "tick_due ?s = tick_due t"
    using ok by (auto simp: tick_ok_def tick_shutdown_def Let_def tick_due_def tick_count_def)
  have d: "tick_due t \<le> length (filter (\<lambda>ev. ev = TickPolled True) evs)" by (simp add: t_def tick_due_run)
  have e: "tk_cancelled t'" "tick_due t' \<le> tick_due t" using tick_due_cancelled_run[OF c(1), of evs'] c(3) by (simp_all add: t'_def)
  have "\<not> tk_join_handle t'" unfolding t'_def by (rule tick_shutdown_once_run[OF c(2)])
  moreover have "tk_phase (tick_run [TickSendReady, TickPolled True] t') = TickEnded"
    using e(1) by (auto simp: tick_run_def tick_send_def tick_poll_def split: tick_phase.splits)
  moreover have "length (tk_sent t) \<le> tick_due t" "length (tk_sent t') \<le> tick_due t'" by (simp_all add: tick_due_def tick_count_def)
  ultimately show ?thesis
    using ok d e(2) unfolding Let_def t_def[symmetric] t'_def[symmetric] by (auto simp: tick_ok_def tick_count_def tick_shutdown_def Let_def tick_due_def)
qed

end
