(* ===== verification/Histogram.thy ===== *)
theory Histogram
imports Prelude "HOL-Library.Word"
begin

text \<open>
  \<^verbatim>\<open>openraft/src/base/histogram\<close>: a histogram of \<^verbatim>\<open>u64\<close> values in 252 logarithmic buckets. Values are
  64-bit words, bucket indexes are numbers; the counters are numbers that panic where the \<^verbatim>\<open>u64\<close> of
  the code overflows. The rank a percentile stands for is computed in floating point; the
  model takes that computation as the argument \<open>rank\<close>.
\<close>

unbundle bit_operations_syntax

section \<open>The operations\<close>

record histogram =
  h_buckets :: "nat list"
  h_bucket_min_values :: "64 word list"
  h_small_value_buckets :: "8 word list"

record percentile_stats =
  ps_total :: nat
  ps_p50 :: "64 word"
  ps_p90 :: "64 word"
  ps_p99 :: "64 word"

text \<open>The constants of the implementation for the 3-bit window.\<close>

abbreviation WIDTH :: nat where "WIDTH \<equiv> 3"
abbreviation GROUP_SIZE :: nat where "GROUP_SIZE \<equiv> 4"
abbreviation BUCKETS_FOR_U64 :: nat where "BUCKETS_FOR_U64 \<equiv> 252"
abbreviation SMALL_VALUE_CACHE_SIZE :: nat where "SMALL_VALUE_CACHE_SIZE \<equiv> 4096"

fun bit_len :: "nat \<Rightarrow> nat" where
  "bit_len n = (if n = 0 then 0 else Suc (bit_len (n div 2)))"

declare bit_len.simps [simp del]

definition leading_zeros :: "64 word \<Rightarrow> nat" where
  "leading_zeros v = 64 - bit_len (unat v)"

definition calculate_bucket_uncached :: "64 word \<Rightarrow> nat" where
  "calculate_bucket_uncached v =
     (if v < 4 then unat v
      else let bits_upto_msb = 64 - leading_zeros v;
               group_index = bits_upto_msb - WIDTH;
               offset_in_group = unat (drop_bit group_index v AND 3)
           in GROUP_SIZE + group_index * GROUP_SIZE + offset_in_group)"

definition bucket_min_value :: "nat \<Rightarrow> 64 word" where
  "bucket_min_value i =
     (if i < 4 then of_nat i
      else push_bit ((i - 4) div GROUP_SIZE) (of_nat ((i - 4) mod GROUP_SIZE) OR 4))"

definition histogram_new :: histogram where
  "histogram_new = \<lparr>
     h_buckets = replicate BUCKETS_FOR_U64 0,
     h_bucket_min_values = map bucket_min_value [0..<BUCKETS_FOR_U64],
     h_small_value_buckets = map (\<lambda>v. of_nat (calculate_bucket_uncached (of_nat v))) [0..<SMALL_VALUE_CACHE_SIZE]\<rparr>"

definition calculate_bucket :: "64 word \<Rightarrow> histogram \<Rightarrow> nat panics" where
  "calculate_bucket v h =
     (if v < of_nat SMALL_VALUE_CACHE_SIZE then do {
        b \<leftarrow> nth_panics (h_small_value_buckets h) (unat v);
        Some (unat b) }
      else Some (calculate_bucket_uncached v))"

definition h_record :: "64 word \<Rightarrow> histogram \<Rightarrow> histogram panics" where
  "h_record v h = do {
     bucket_index \<leftarrow> calculate_bucket v h;
     count \<leftarrow> nth_panics (h_buckets h) bucket_index;
     ensure (count < 2 ^ 64 - 1);
     Some (h\<lparr>h_buckets := (h_buckets h)[bucket_index := count + 1]\<rparr>) }"

definition h_total :: "histogram \<Rightarrow> nat panics" where
  "h_total h = do { ensure (sum_list (h_buckets h) < 2 ^ 64); Some (sum_list (h_buckets h)) }"

text \<open>The scan of a percentile: the rest of the buckets from \<open>i\<close> on, and the count before them.\<close>

fun percentile_scan :: "64 word list \<Rightarrow> nat \<Rightarrow> nat \<Rightarrow> nat \<Rightarrow> nat list \<Rightarrow> 64 word panics" where
  "percentile_scan mins target i cumulative [] = Some 0"
| "percentile_scan mins target i cumulative (count # counts) = do {
     let c = cumulative + count;
     ensure (c < 2 ^ 64);
     (if target \<le> c then nth_panics mins i else percentile_scan mins target (i + 1) c counts) }"

definition percentile_with_total :: "(nat \<Rightarrow> nat) \<Rightarrow> histogram \<Rightarrow> nat \<Rightarrow> 64 word panics" where
  "percentile_with_total rank h n_total = percentile_scan (h_bucket_min_values h) (rank n_total) 0 0 (h_buckets h)"

definition percentile :: "(nat \<Rightarrow> nat) \<Rightarrow> histogram \<Rightarrow> 64 word panics" where
  "percentile rank h = do { n_total \<leftarrow> h_total h; percentile_with_total rank h n_total }"

definition h_percentile_stats ::
  "(nat \<Rightarrow> nat) \<Rightarrow> (nat \<Rightarrow> nat) \<Rightarrow> (nat \<Rightarrow> nat) \<Rightarrow> histogram \<Rightarrow> percentile_stats panics" where
  "h_percentile_stats r50 r90 r99 h = do {
     n_total \<leftarrow> h_total h;
     p50 \<leftarrow> percentile_with_total r50 h n_total;
     p90 \<leftarrow> percentile_with_total r90 h n_total;
     p99 \<leftarrow> percentile_with_total r99 h n_total;
     Some \<lparr>ps_total = n_total, ps_p50 = p50, ps_p90 = p90, ps_p99 = p99\<rparr> }"

section \<open>Buckets\<close>

lemma bit_len_bounds: "0 < n \<Longrightarrow> 2 ^ (bit_len n - 1) \<le> n \<and> n < 2 ^ bit_len n \<and> 0 < bit_len n"
proof (induction n rule: bit_len.induct)
  case (1 n)
  show ?case
  proof (cases "n div 2 = 0")
    case True
    then have "n = 1" using "1.prems" by simp
    then show ?thesis by (simp add: bit_len.simps[of "Suc 0"] bit_len.simps[of 0])
  next
    case False
    then have IH: "2 ^ (bit_len (n div 2) - 1) \<le> n div 2" "n div 2 < 2 ^ bit_len (n div 2)" "0 < bit_len (n div 2)"
      using "1.IH" "1.prems" by simp_all
    have e: "bit_len n = Suc (bit_len (n div 2))" using "1.prems" by (simp add: bit_len.simps[of n])
    have "2 ^ bit_len (n div 2) = 2 * (2::nat) ^ (bit_len (n div 2) - 1)"
      using IH(3) by (cases "bit_len (n div 2)") simp_all
    then show ?thesis using IH by (simp add: e) linarith
  qed
qed

lemma bit_len_le: "n < 2 ^ k \<Longrightarrow> bit_len n \<le> k"
proof (cases "n = 0")
  case False
  assume "n < 2 ^ k"
  with bit_len_bounds[of n] False have "(2::nat) ^ (bit_len n - 1) < 2 ^ k" by linarith
  then show ?thesis by simp
qed (simp add: bit_len.simps)

text \<open>The bucket of a value in numbers: the exponent \<open>g\<close> and the leading three bits \<open>q\<close>.\<close>

lemma bucket_parts:
  assumes "4 \<le> unat v"
  obtains g q where "g \<le> 61" "4 \<le> q" "q < 8" "q * 2 ^ g \<le> unat v" "unat v < Suc q * 2 ^ g"
    "calculate_bucket_uncached v = 4 * g + q"
proof -
  let ?n = "unat v" and ?g = "bit_len (unat v) - 3"
  let ?q = "?n div 2 ^ ?g"
  have b: "2 ^ (bit_len ?n - 1) \<le> ?n" "?n < 2 ^ bit_len ?n" using bit_len_bounds[of ?n] assms by simp_all
  have l: "bit_len ?n \<le> 64" using bit_len_le[of ?n 64] unsigned_less[of v, where ?'a = nat] by simp
  have l3: "3 \<le> bit_len ?n"
  proof (rule ccontr)
    assume "\<not> 3 \<le> bit_len ?n"
    then have "(2::nat) ^ bit_len ?n \<le> 2 ^ 2" by (intro power_increasing) simp_all
    with b(2) assms show False by simp
  qed
  have p: "(2::nat) ^ bit_len ?n = 8 * 2 ^ ?g" "(2::nat) ^ (bit_len ?n - 1) = 4 * 2 ^ ?g"
  proof -
    obtain m where "bit_len ?n = 3 + m" using l3 le_Suc_ex by blast
    then show "(2::nat) ^ bit_len ?n = 8 * 2 ^ ?g" "(2::nat) ^ (bit_len ?n - 1) = 4 * 2 ^ ?g"
      by (simp_all add: power_add)
  qed
  have q: "4 \<le> ?q" "?q < 8"
    using b p by (simp_all add: less_eq_div_iff_mult_less_eq div_less_iff_less_mult)
  have "unat (drop_bit ?g v AND 3) = ?q mod 4"
  proof -
    have "drop_bit ?g v AND 3 = take_bit 2 (drop_bit ?g v)" by (simp add: take_bit_eq_mask mask_eq_exp_minus_1)
    then have "unat (drop_bit ?g v AND 3) = take_bit 2 (drop_bit ?g (unat v))"
      by (simp only: unsigned_take_bit_eq unat_drop_bit_eq)
    then show ?thesis by (simp only: take_bit_eq_mod drop_bit_eq_div) simp
  qed
  moreover have "?q mod 4 = ?q - 4" using q by (simp add: mod_if)
  moreover have "\<not> v < 4" using assms by (simp add: word_less_nat_alt)
  ultimately have "calculate_bucket_uncached v = 4 * ?g + ?q"
    using l l3 q by (simp add: calculate_bucket_uncached_def leading_zeros_def Let_def)
  moreover have "?q * 2 ^ ?g \<le> ?n" "?n < Suc ?q * 2 ^ ?g"
    by (simp_all add: div_times_less_eq_dividend dividend_less_div_times)
  ultimately show ?thesis using that[of ?g ?q] q l by simp
qed

lemma bucket_min_value_parts:
  assumes "g \<le> 61" "4 \<le> q" "q < 8"
  shows "unat (bucket_min_value (4 * g + q)) = q * 2 ^ g"
proof -
  obtain r where r: "q = 4 + r" "r < 4" using assms(2,3) le_Suc_ex[of 4 q] by auto
  then have i: "(4 * g + q - 4) div 4 = g" "(4 * g + q - 4) mod 4 = q - 4" by simp_all
  have o: "(of_nat (q - 4) OR 4 :: 64 word) = of_nat q"
  proof -
    from assms(2,3) consider "q = 4" | "q = 5" | "q = 6" | "q = 7" by linarith
    then show ?thesis by cases simp_all
  qed
  have "(2::nat) ^ g \<le> 2 ^ 61" using assms(1) by (rule power_increasing) simp
  then have "q * 2 ^ g < 8 * 2 ^ 61"
    using assms by (intro mult_less_le_imp_less) simp_all
  then have lt: "q * 2 ^ g < 2 ^ 64" by simp
  have "bucket_min_value (4 * g + q) = push_bit g (of_nat q)"
    using assms(2) i o by (simp add: bucket_min_value_def)
  also have "\<dots> = of_nat (q * 2 ^ g)" by (simp add: push_bit_eq_mult)
  finally have e: "bucket_min_value (4 * g + q) = of_nat (q * 2 ^ g)" .
  show ?thesis unfolding e using lt by (simp add: unat_of_nat take_bit_eq_mod del: of_nat_mult)
qed

lemma bucket_index_parts:
  fixes i :: nat
  assumes "4 \<le> i" "i < 252"
  obtains g q where "i = 4 * g + q" "g \<le> 61" "4 \<le> q" "q < 8"
proof -
  obtain j where j: "i = 4 + j" "j < 248" using assms le_Suc_ex[of 4 i] by auto
  have "i = 4 * (j div 4) + (4 + j mod 4)" using j(1) by simp
  moreover have "j div 4 \<le> 61" using j(2) by simp
  ultimately show ?thesis using that[of "j div 4" "4 + j mod 4"] by simp
qed

lemma bucket_min_value_small: "i < 4 \<Longrightarrow> unat (bucket_min_value i) = i"
  by (simp add: bucket_min_value_def unat_of_nat take_bit_eq_mod)

text \<open>The least value of the next bucket.\<close>

lemma bucket_min_value_next:
  assumes "g \<le> 61" "4 \<le> q" "q < 8" "Suc (4 * g + q) < 252"
  shows "unat (bucket_min_value (Suc (4 * g + q))) = Suc q * 2 ^ g"
proof (cases "q = 7")
  case True
  then have "unat (bucket_min_value (4 * Suc g + 4)) = 4 * 2 ^ Suc g"
    using assms(4) by (intro bucket_min_value_parts) simp_all
  then show ?thesis using True by simp
next
  case False
  then show ?thesis using bucket_min_value_parts[of g "Suc q"] assms by simp
qed

lemma bucket_min_value_step: "Suc i < 252 \<Longrightarrow> unat (bucket_min_value i) < unat (bucket_min_value (Suc i))"
proof (cases "i < 4")
  case True
  then show ?thesis
    using bucket_min_value_small[of i] bucket_min_value_small[of "Suc i"] bucket_min_value_parts[of 0 4]
    by (cases "Suc i = 4") simp_all
next
  case False
  assume "Suc i < 252"
  with False obtain g q where "i = 4 * g + q" "g \<le> 61" "4 \<le> q" "q < 8"
    using bucket_index_parts[of i] by auto
  with \<open>Suc i < 252\<close> bucket_min_value_parts[of g q] bucket_min_value_next[of g q] show ?thesis by simp
qed

lemma bucket_min_value_mono: "i < j \<Longrightarrow> j < 252 \<Longrightarrow> unat (bucket_min_value i) < unat (bucket_min_value j)"
proof (induction j)
  case (Suc j)
  then show ?case using bucket_min_value_step[of j] by (cases "i = j") (simp_all add: less_trans)
qed simp

lemma calculate_bucket_range:
  "calculate_bucket_uncached v < 252
   \<and> unat (bucket_min_value (calculate_bucket_uncached v)) \<le> unat v
   \<and> 5 * (unat v - unat (bucket_min_value (calculate_bucket_uncached v))) \<le> unat v
   \<and> (Suc (calculate_bucket_uncached v) < 252
        \<longrightarrow> unat v < unat (bucket_min_value (Suc (calculate_bucket_uncached v))))"
proof (cases "unat v < 4")
  case True
  then have "calculate_bucket_uncached v = unat v"
    by (simp add: calculate_bucket_uncached_def word_less_nat_alt)
  then show ?thesis
    using True bucket_min_value_small[of "unat v"] bucket_min_value_step[of "unat v"] by simp
next
  case False
  then have "4 \<le> unat v" by simp
  then obtain g q where g: "g \<le> 61" "4 \<le> q" "q < 8" "q * 2 ^ g \<le> unat v" "unat v < Suc q * 2 ^ g"
    and b: "calculate_bucket_uncached v = 4 * g + q"
    by (rule bucket_parts)
  define m :: nat where "m = 2 ^ g"
  have m: "q * m \<le> unat v" "unat v < Suc q * m" using g(4,5) by (simp_all add: m_def)
  have "4 * m \<le> q * m" using g(2) by simp
  with m(1) m(2)[unfolded mult_Suc] have "5 * (unat v - q * m) \<le> unat v" by linarith
  moreover have "4 * g + q < 252" using g(1,3) by linarith
  moreover have "unat (bucket_min_value (4 * g + q)) = q * m"
    unfolding m_def by (rule bucket_min_value_parts[OF g(1-3)])
  moreover have "Suc (4 * g + q) < 252 \<longrightarrow> unat (bucket_min_value (Suc (4 * g + q))) = Suc q * m"
    unfolding m_def using bucket_min_value_next[OF g(1-3)] by blast
  ultimately show ?thesis unfolding b using m by (simp only:) simp
qed

lemma calculate_bucket_mono: "unat u \<le> unat v \<Longrightarrow> calculate_bucket_uncached u \<le> calculate_bucket_uncached v"
proof (rule ccontr)
  let ?b = "calculate_bucket_uncached u" and ?c = "calculate_bucket_uncached v"
  assume le: "unat u \<le> unat v" and "\<not> ?b \<le> ?c"
  then have c: "Suc ?c \<le> ?b" by simp
  have b: "?b < 252" "unat (bucket_min_value ?b) \<le> unat u" using calculate_bucket_range[of u] by simp_all
  then have "unat v < unat (bucket_min_value (Suc ?c))" using calculate_bucket_range[of v] c by simp
  also have "\<dots> \<le> unat (bucket_min_value ?b)"
    using bucket_min_value_mono[of "Suc ?c" ?b] c b(1) by (cases "Suc ?c = ?b") simp_all
  finally show False using b(2) le by simp
qed

section \<open>Recording\<close>

text \<open>The tables are those of a new histogram, and a bucket counts the values recorded into it.\<close>

definition bucket_of :: "64 word \<Rightarrow> nat" where
  "bucket_of v = calculate_bucket_uncached v"

definition h_counts :: "64 word list \<Rightarrow> nat list" where
  "h_counts vs = map (\<lambda>i. length (filter (\<lambda>v. bucket_of v = i) vs)) [0..<252]"

definition h_rep :: "64 word list \<Rightarrow> histogram \<Rightarrow> bool" where
  "h_rep vs h \<longleftrightarrow> h = histogram_new\<lparr>h_buckets := h_counts vs\<rparr>"

lemma calculate_bucket_cached:
  assumes "h_small_value_buckets h = h_small_value_buckets histogram_new"
  shows "calculate_bucket v h = Some (bucket_of v)"
proof (cases "v < 4096")
  case True
  then have u: "unat v < 4096" by (simp add: word_less_nat_alt)
  have "bucket_of v \<le> 251" using calculate_bucket_range[of v] by (simp add: bucket_of_def)
  then have "unat (of_nat (bucket_of v) :: 8 word) = bucket_of v" by (simp add: unat_of_nat take_bit_eq_mod)
  with u assms True show ?thesis
    by (simp add: calculate_bucket_def histogram_new_def bucket_of_def nth_panics_def)
next
  case False
  then show ?thesis by (simp add: calculate_bucket_def bucket_of_def)
qed

lemma h_counts_Cons: "h_counts (vs @ [v]) = (h_counts vs)[bucket_of v := h_counts vs ! bucket_of v + 1]"
  using calculate_bucket_range[of v]
  by (auto simp: h_counts_def bucket_of_def intro!: nth_equalityI simp: nth_list_update)

lemma length_h_counts [simp]: "length (h_counts vs) = 252"
  by (simp add: h_counts_def)

lemma h_counts_le: "i < 252 \<Longrightarrow> h_counts vs ! i \<le> length vs"
  by (simp add: h_counts_def)

lemma h_record_rep:
  assumes "h_rep vs h" "length vs < 2 ^ 64 - 1"
  shows "\<exists>h'. h_record v h = Some h' \<and> h_rep (vs @ [v]) h'"
proof -
  have b: "bucket_of v < 252" using calculate_bucket_range[of v] by (simp add: bucket_of_def)
  have c: "calculate_bucket v h = Some (bucket_of v)"
    using assms(1) by (intro calculate_bucket_cached) (simp add: h_rep_def)
  have "h_counts vs ! bucket_of v < 2 ^ 64 - 1" using h_counts_le[OF b, of vs] assms(2) by simp
  then show ?thesis
    using assms(1) b c
    by (auto simp: h_record_def h_rep_def h_counts_Cons nth_panics_def h_counts_def[of vs] ensure_def)
qed

section \<open>Percentiles\<close>

lemma length_filter_less_Suc:
  "length (filter (\<lambda>v. f v < Suc k) vs) = length (filter (\<lambda>v. f v < k) vs) + length (filter (\<lambda>v. f v = k) vs)"
  for f :: "'v \<Rightarrow> nat"
  by (induction vs) auto

lemma sum_counts: "k \<le> 252 \<Longrightarrow> sum_list (take k (h_counts vs)) = length (filter (\<lambda>v. bucket_of v < k) vs)"
proof (induction k)
  case (Suc k)
  then have "take (Suc k) (h_counts vs) = take k (h_counts vs) @ [h_counts vs ! k]"
    by (intro take_Suc_conv_app_nth) (simp add: h_counts_def)
  with Suc show ?case by (simp add: length_filter_less_Suc) (simp add: h_counts_def)
qed simp

lemma bucket_of_less: "bucket_of v < 252"
  using calculate_bucket_range[of v] by (simp add: bucket_of_def)

lemma sum_all_counts: "sum_list (h_counts vs) = length vs"
  using sum_counts[of 252 vs] by (simp add: h_counts_def bucket_of_less)

lemma h_total_rep: "h_rep vs h \<Longrightarrow> length vs < 2 ^ 64 \<Longrightarrow> h_total h = Some (length vs)"
  by (simp add: h_total_def h_rep_def sum_all_counts ensure_def)

lemma sum_take_mono: "i \<le> j \<Longrightarrow> sum_list (take i xs) \<le> sum_list (take j (xs :: nat list))"
proof -
  assume "i \<le> j"
  then have "take i xs = take i (take j xs)" by simp
  then have "sum_list (take j xs) = sum_list (take i xs) + sum_list (drop i (take j xs))"
    by (metis append_take_drop_id sum_list_append)
  then show ?thesis by simp
qed

lemma percentile_scan_at:
  assumes "i \<le> b" "b < length full" "counts = drop i full" "c = sum_list (take i full)"
    "sum_list full < 2 ^ 64" "sum_list (take b full) < target" "target \<le> sum_list (take (Suc b) full)"
  shows "percentile_scan mins target i c counts = nth_panics mins b"
  using assms
proof (induction counts arbitrary: i c)
  case (Cons n counts)
  have i: "i < length full" using Cons.prems(1,2) by simp
  then have d: "full ! i = n" "counts = drop (Suc i) full"
    using Cons.prems(3) by (metis Cons_nth_drop_Suc list.inject)+
  have s: "c + n = sum_list (take (Suc i) full)"
    using Cons.prems(4) d(1) i by (simp add: take_Suc_conv_app_nth)
  have lt: "c + n < 2 ^ 64"
    using s sum_take_mono[of "Suc i" "length full" full] i Cons.prems(5) by simp
  show ?case
  proof (cases "b = i")
    case True
    then show ?thesis using Cons.prems(7) s lt by (simp add: Let_def ensure_def)
  next
    case False
    then have "Suc i \<le> b" using Cons.prems(1) by simp
    then have "\<not> target \<le> c + n" using sum_take_mono[of "Suc i" b full] s Cons.prems(6) by simp
    then show ?thesis
      using Cons.IH[OF \<open>Suc i \<le> b\<close> Cons.prems(2) d(2) s Cons.prems(5-7)] lt by (simp add: Let_def ensure_def)
  qed
qed simp

lemma length_filter_prefix:
  assumes "t \<le> length s" "\<And>i. i < t \<Longrightarrow> P (s ! i)"
  shows "t \<le> length (filter P s)"
proof -
  have "filter P (take t s) = take t s" using assms by (auto simp: filter_id_conv in_set_conv_nth)
  then have "length (filter P s) = t + length (filter P (drop t s))"
    using assms(1) by (metis append_take_drop_id filter_append length_append length_take min.absorb2)
  then show ?thesis by simp
qed

lemma length_filter_suffix:
  assumes "\<And>i. t \<le> i \<Longrightarrow> i < length s \<Longrightarrow> \<not> P (s ! i)"
  shows "length (filter P s) \<le> t"
proof -
  have "filter P (drop t s) = []" using assms by (auto simp: filter_empty_conv in_set_conv_nth)
  then have "filter P s = filter P (take t s)" by (metis append_Nil2 append_take_drop_id filter_append)
  then show ?thesis using length_filter_le[of P "take t s"] by simp
qed

lemma percentile_rank:
  assumes "h_rep vs h" "length vs < 2 ^ 64" "0 < rank (length vs)" "rank (length vs) \<le> length vs"
  shows "percentile rank h = Some (bucket_min_value (bucket_of (sort vs ! (rank (length vs) - 1))))"
proof -
  let ?t = "rank (length vs)" and ?s = "sort vs"
  let ?b = "bucket_of (?s ! (?t - 1))"
  have mono: "bucket_of (?s ! i) \<le> bucket_of (?s ! j)" if "i \<le> j" "j < length vs" for i j
    using sorted_nth_mono[of ?s i j] that calculate_bucket_mono by (simp add: bucket_of_def word_le_nat_alt)
  have cnt: "sum_list (take k (h_counts vs)) = length (filter (\<lambda>v. bucket_of v < k) ?s)" if "k \<le> 252" for k
    using sum_counts[OF that, of vs] by (simp add: filter_sort)
  have b: "?b < 252" by (rule bucket_of_less)
  have "length (filter (\<lambda>v. bucket_of v < ?b) ?s) \<le> ?t - 1"
    using mono[of "?t - 1"] by (intro length_filter_suffix) (simp add: leD)
  then have lo: "sum_list (take ?b (h_counts vs)) < ?t" using cnt[of ?b] b assms(3) by simp
  have "?t \<le> length (filter (\<lambda>v. bucket_of v < Suc ?b) ?s)"
    using mono[of _ "?t - 1"] assms(3,4) by (intro length_filter_prefix) (simp_all add: less_Suc_eq_le)
  then have hi: "?t \<le> sum_list (take (Suc ?b) (h_counts vs))" using cnt[of "Suc ?b"] b by simp
  have "percentile_scan (h_bucket_min_values h) ?t 0 0 (h_counts vs) = nth_panics (h_bucket_min_values h) ?b"
    using b lo hi assms(2) by (intro percentile_scan_at[of 0 _ "h_counts vs"]) (simp_all add: sum_all_counts)
  then show ?thesis
    using assms(1) b h_total_rep[OF assms(1,2)]
    by (simp add: percentile_def percentile_with_total_def h_rep_def histogram_new_def nth_panics_def)
qed

fun record_all :: "64 word list \<Rightarrow> histogram \<Rightarrow> histogram panics" where
  "record_all [] h = Some h"
| "record_all (v # vs) h = do { h' \<leftarrow> h_record v h; record_all vs h' }"

lemma h_rep_new: "h_rep [] histogram_new"
  by (simp add: h_rep_def h_counts_def histogram_new_def map_replicate_const)

lemma record_all_rep:
  "h_rep us h \<Longrightarrow> length us + length vs < 2 ^ 64 \<Longrightarrow> \<exists>h'. record_all vs h = Some h' \<and> h_rep (us @ vs) h'"
proof (induction vs arbitrary: us h)
  case (Cons v vs)
  obtain h1 where h1: "h_record v h = Some h1" "h_rep (us @ [v]) h1"
    using h_record_rep[OF Cons.prems(1), of v] Cons.prems(2) by auto
  show ?case using Cons.IH[OF h1(2)] Cons.prems(2) h1(1) by simp
qed simp

section \<open>Properties\<close>

text \<open>
  Every 64-bit value has a bucket, the least value of its bucket is not above it and misses it
  by at most a fifth of it, and the value is below the least value of the next bucket: the
  table of least values inverts the bucket calculation. The cache agrees with the calculation.
\<close>

theorem bucket_precision:
  "calculate_bucket_uncached v < 252
   \<and> unat (bucket_min_value (calculate_bucket_uncached v)) \<le> unat v
   \<and> 5 * (unat v - unat (bucket_min_value (calculate_bucket_uncached v))) \<le> unat v
   \<and> (calculate_bucket_uncached v = 251 \<or> unat v < unat (bucket_min_value (Suc (calculate_bucket_uncached v))))
   \<and> calculate_bucket v histogram_new = Some (calculate_bucket_uncached v)"
  using calculate_bucket_range[of v] calculate_bucket_cached[of histogram_new v] by (auto simp: bucket_of_def)

text \<open>
  The documented error bound of 12.5 percent does not hold: the histogram reports 1024 for
  1279, which is almost a fifth below.
\<close>

theorem bucket_error_above_doc:
  "bucket_min_value (calculate_bucket_uncached 1279) = 1024 \<and> 8 * (1279 - 1024) > (1279 :: nat)"
  by (simp add: calculate_bucket_uncached_def leading_zeros_def bucket_min_value_def bit_len.simps)

text \<open>
  A percentile is a rank: after recording the values \<open>vs\<close> into a new histogram, the total is
  their number and the percentile of rank \<open>t\<close> is the least value of the bucket of the
  \<open>t\<close>-th smallest value. Nothing panics while there are fewer than \<open>2^64\<close> values.
\<close>

theorem percentile_of_recorded:
  assumes "length vs < 2 ^ 64" "0 < rank (length vs)" "rank (length vs) \<le> length vs"
  shows "\<exists>h. record_all vs histogram_new = Some h \<and> h_total h = Some (length vs)
    \<and> percentile rank h = Some (bucket_min_value (calculate_bucket_uncached (sort vs ! (rank (length vs) - 1))))"
proof -
  obtain h where h: "record_all vs histogram_new = Some h" "h_rep vs h"
    using record_all_rep[OF h_rep_new, of vs] assms(1) by auto
  show ?thesis
    using h h_total_rep[OF h(2) assms(1)] percentile_rank[of vs h rank, OF h(2) assms]
    by (simp add: bucket_of_def)
qed

theorem percentile_of_recorded_witness:
  "\<exists>h. record_all [10, 1279, 3] histogram_new = Some h \<and> h_total h = Some 3
     \<and> percentile (\<lambda>n. n) h = Some 1024"
  using percentile_of_recorded[of "[10, 1279, 3]" "\<lambda>n. n"]
  by (simp add: calculate_bucket_uncached_def leading_zeros_def bucket_min_value_def bit_len.simps numeral_3_eq_3)

end
