(* ===== verification/Spec2Isabelle.thy ===== *)
theory Spec2Isabelle
imports EngineLog SnapshotTransport ClientApi Heartbeat Histogram
begin

text \<open>
  A model of \<^verbatim>\<open>kv-store\<close>, the replicated key-value store of this repository, and of the Raft library
  it vendors (\<^verbatim>\<open>src/kv-store/openraft/openraft/src\<close>).

  \<^bold>\<open>The program.\<close> \<^verbatim>\<open>kv-store\<close> runs one \<^verbatim>\<open>Raft\<close> per node. The runtime task \<^verbatim>\<open>RaftCore\<close> turns every
  message, timer and I/O notification into an event of the \<^verbatim>\<open>Engine\<close>, a synchronous state machine
  that never does I/O: it updates its \<^verbatim>\<open>RaftState\<close> and its leader or candidate, and emits a queue
  of commands the runtime executes (append, truncate, save the vote, replicate, apply, respond).
  A node loads its first state from a log store and a state machine, which the application
  provides: \<^verbatim>\<open>kv-store/src/store\<close> on RocksDB, \<^verbatim>\<open>stores/memstore\<close> in memory.

  \<^bold>\<open>Theories and sources\<close> (paths under \<^verbatim>\<open>openraft/src\<close> unless they start with another directory).
  \<^item> \<open>Prelude\<close>, \<open>OrderedMap\<close>: panics, results, comparisons, \<^verbatim>\<open>BTreeMap\<close> and \<^verbatim>\<open>BTreeSet\<close>; the locale
    \<open>ordered_map\<close> is interpreted on sorted association lists.
  \<^item> \<open>Vote\<close>: \<^verbatim>\<open>vote/\<close>, both flavours of leader ids, votes and their partial order.
  \<^item> \<open>LogId\<close>, \<open>LogIdList\<close>: \<^verbatim>\<open>log_id/\<close>, \<^verbatim>\<open>engine/log_id_list.rs\<close>; \<open>expand\<close> is the log that the
    compressed list stands for, and every operation refines one on the whole log.
  \<^item> \<open>Quorum\<close>, \<open>Membership\<close>, \<open>MembershipState\<close>: \<^verbatim>\<open>quorum/\<close>, \<^verbatim>\<open>membership/\<close>,
    \<^verbatim>\<open>raft_state/membership_state/\<close>. The locales \<open>quorum_set\<close> and \<open>coherent_quorum_set\<close> are the
    traits \<^verbatim>\<open>QuorumSet\<close> and \<^verbatim>\<open>Coherent\<close>, interpreted on majorities and on joint configs.
  \<^item> \<open>VecProgress\<close>, \<open>ProgressEntry\<close>: \<^verbatim>\<open>progress/\<close>; generic in the quorum set and the entry.
  \<^item> \<open>IOState\<close>, \<open>Entry\<close>, \<open>RaftState\<close>: \<^verbatim>\<open>raft_state/\<close>, \<^verbatim>\<open>entry/\<close>, \<^verbatim>\<open>utime.rs\<close>.
  \<^item> \<open>Proposer\<close>: \<^verbatim>\<open>proposer/\<close>, the candidate and the leader.
  \<^item> \<open>Command\<close>: \<^verbatim>\<open>engine/command.rs\<close>, \<^verbatim>\<open>engine_output.rs\<close>, \<^verbatim>\<open>pending_responds.rs\<close>.
  \<^item> \<open>Engine\<close>, \<open>EngineOps\<close>: \<^verbatim>\<open>engine/engine_impl.rs\<close> and \<^verbatim>\<open>engine/handler/\<close>; \<open>EngineVote\<close> and
    \<open>EngineLog\<close> prove what they do with votes and with the log.
  \<^item> \<open>RuntimeQueues\<close>, \<open>RaftCore\<close>, \<open>RaftCoreEvents\<close>: \<^verbatim>\<open>core/\<close>, the runtime task: the queue of client
    responders, the balancer, executing commands, every client message and notification, reads, the
    main loop. What the task does to the outside (disk writes, responses, spawned tasks) is the list
    \<open>rc_effects\<close> of its effects; whether a call to the outside succeeds is an argument.
  \<^item> \<open>VotePromises\<close>, \<open>VoteEvents\<close>, \<open>NodeVotes\<close>, \<open>NodeRuns\<close>: the invariant of one node that ties the vote
    in memory, the vote on disk and the votes it promised in responses, over every event and command.
  \<^item> \<open>Cluster\<close>, \<open>ClusterVotes\<close>, \<open>CoreProperties\<close>: nodes as a step relation, with messages that are
    delivered late, twice or never, failing storage, crashes and restarts; elections share a voter,
    promised votes are durable, linearizable reads see the newest leader.
  \<^item> \<open>StorageTraits\<close>, \<open>StorageHelper\<close>: \<^verbatim>\<open>storage/\<close>, \<^verbatim>\<open>error/storage_error.rs\<close>. The locale \<open>raft_store\<close> is the
    contract of the storage traits over the \<open>store_view\<close> a store stands for; loading the initial
    state is specified in it (\<open>loaded\<close>).
  \<^item> \<open>MemStore\<close>: \<^verbatim>\<open>stores/memstore/src/lib.rs\<close>, proved to keep \<open>raft_store\<close> for every JSON encoder with the
    laws of the locale \<open>mem_json\<close>, which is interpreted on the encoder of \<open>KvCodec\<close>.
  \<^item> \<open>KvDb\<close>, \<open>KvCodec\<close>, \<open>KvLogStore\<close>, \<open>KvStateMachine\<close>: \<^verbatim>\<open>kv-store/src/store/\<close> on RocksDB. RocksDB is a record of
    operations with the documented laws in the locale \<open>rocks_db\<close>, extended by \<open>log_storage_db\<close> and
    \<open>state_machine_db\<close>, all interpreted on a database in memory.
  \<^item> \<open>Config\<close>, \<open>Restart\<close>: \<^verbatim>\<open>config/config.rs\<close> and \<^verbatim>\<open>Raft::new\<close> of \<^verbatim>\<open>raft/mod.rs\<close>: a loaded state satisfies the
    invariant of the engine, and a started node is one the cluster model boots.
  \<^item> \<open>Replication\<close>: \<^verbatim>\<open>replication/\<close>, the task that replicates to one follower, over a network that is any
    sequence of pulls, answers and failures; the default of \<^verbatim>\<open>network/v2/network.rs\<close> is one. The locale
    \<open>log_reader\<close> is what it asks of a log reader; every \<open>raft_store\<close> is one.
  \<^item> \<open>SnapshotTransport\<close>: \<^verbatim>\<open>network/snapshot_transport.rs\<close>, \<^verbatim>\<open>replication/snapshot_transmitter.rs\<close> and
    \<^verbatim>\<open>Raft::install_snapshot\<close>: sender, receiver and network as one state machine of events.
  \<^item> \<open>SmWorker\<close>: \<^verbatim>\<open>core/sm/\<close> and the responders of \<^verbatim>\<open>storage/v2/\<close>: the task that owns the state machine as a
    machine of events, over the contract \<open>worker_machine\<close>, which the key-value store is proved to keep.
  \<^item> \<open>RaftInner\<close>: \<^verbatim>\<open>raft/raft_inner.rs\<close>, \<^verbatim>\<open>metrics/\<close>, \<^verbatim>\<open>raft/linearizable_read/\<close>: callers that join the task, waits
    for metrics as lists of wake-ups, and the linearizable read from the leader to the applied map.
  \<^item> \<open>ClientApi\<close>: \<^verbatim>\<open>raft/api/\<close> and \<^verbatim>\<open>raft/stream_append.rs\<close>: the calls that are more than one message, over the
    answers of the task; a change of membership ends uniform, the pipelined stream keeps its order.
  \<^item> \<open>LeaderWatch\<close>: \<^verbatim>\<open>core/io_flush_tracking/\<close> and the callbacks on leader changes of \<^verbatim>\<open>raft/mod.rs\<close>, over watch
    channels whose watchers miss values: waking up for a change and reading the value are two steps.
  \<^item> \<open>Heartbeat\<close>: \<^verbatim>\<open>core/heartbeat/\<close> and \<^verbatim>\<open>core/tick.rs\<close>: the heartbeat workers, their handle and the tick task as
    machines of events; what they report, and what the task of Raft makes of it.
  \<^item> \<open>Histogram\<close>: \<^verbatim>\<open>base/histogram/\<close>.

  \<^bold>\<open>Conventions.\<close> A panic (\<^verbatim>\<open>unwrap\<close>, \<^verbatim>\<open>expect\<close>, \<^verbatim>\<open>unreachable!\<close>, a failed debug assertion, an index
  out of range, an underflow) is \<open>None\<close>; a \<^verbatim>\<open>Result\<close> is a sum, \<open>Inl\<close> the error. Handlers of the
  engine borrow some of its fields; here they are functions on the whole \<open>engine\<close>. The current
  time is an argument of every event. Terms, node ids and log indices are \<open>nat\<close> (\<^verbatim>\<open>u64\<close> in the code;
  reaching \<open>2^64\<close> log entries or terms is out of the model, except in the RocksDB log store, the
  histogram and the balancer, where the width matters and words or bounds are used). Entries are
  polymorphic in the application data. No fuel is used: loops are structural recursions or have a
  measure; the bisection of the log, which a wrong store could keep busy, is a partial function
  that is proved to return, and the main loop is a step relation.

  \<^bold>\<open>Parameters.\<close> RocksDB, the encoders, the floating point rank of a percentile, the random number
  generator, the byte size parser of the configuration, and which calls to the outside succeed.

  \<^bold>\<open>What the lemmas show.\<close> Votes: only grants at least as great, only to candidates whose log is not
  behind, and a leader only with a quorum of every configuration; a vote is on disk before it is
  reported, also across crashes. Log: a follower's append is Raft's append, commit is monotone and
  restricted to the leader's own term, nothing is submitted to the state machine before it is
  committed and in the log. Membership: quorums of consecutive memberships intersect. Progress:
  what is accepted is granted by a quorum as long as the voters above it are in descending order, which
  updates keep up to three voters and can break from four on. Replication: the requests of a stream are exactly the
  entries of its range, a turn goes on with what is not acknowledged and ends with all of it; a
  snapshot sent in chunks is installed as it was sent unless a chunk is delivered late. State machine:
  commands take effect in the order they were sent, and each client is answered with the result of
  its own entry, and a linearizable read sees all the log that was committed when it began. Stores: what is written is read back, what is saved
  survives a crash, a restart loads the log, the vote, the memberships and the committed state.

  \<^bold>\<open>Not modelled:\<close> spawned tasks and channels as such, the methods of \<^verbatim>\<open>raft/\<close> that only forward to the task,
  display code, statistics, macros, async runtimes, HTTP routes, the RocksDB engine, the Python metadata server.
\<close>

end
